(* ===== verification/Prelude.thy ===== *)
theory Prelude
  imports Main "HOL-Library.Word" "HOL-Library.Monad_Syntax"
begin

text \<open>
  Shared vocabulary of the development: thread identifiers, pointers, the outcome of one
  atomic step of a thread, and generic lemmas on words and updates that the component
  theories use.

  A pointer is a 64-bit word, as on the x86-64 target of the library; \<^verbatim>\<open>NULL\<close> is the word 0.
  A thread executes one shared-memory access at a time. The step function of an operation says
  what the access does: it ends in a new shared state and a new control point (\<open>Next\<close>), or
  it cannot go on because a lock is held (\<open>Blocked\<close>), or it dereferences an address that
  holds no object or frees an object twice (\<open>Fault\<close>, undefined behaviour in C++).
\<close>

type_synonym tid = nat
type_synonym ptr = "64 word"

abbreviation NULL :: ptr where "NULL \<equiv> 0"

datatype ('l, 'r) control = Idle | At 'l | Finished 'r

datatype ('s, 'l, 'r) outcome = Next 's "('l, 'r) control" | Blocked | Fault

named_theorems model_simps \<open>definitions of the step functions and predicates of the models\<close>

text \<open>Reading an object through a pointer: a fault when there is none.\<close>

definition deref :: "(ptr \<Rightarrow> 'n option) \<Rightarrow> ptr \<Rightarrow> ('n \<Rightarrow> ('s, 'l, 'r) outcome) \<Rightarrow> ('s, 'l, 'r) outcome" where
  "deref h p k = (case h p of None \<Rightarrow> Fault | Some n \<Rightarrow> k n)"

lemma deref_Some [simp]: "h p = Some n \<Longrightarrow> deref h p k = k n"
  by (simp add: deref_def)

lemma deref_None [simp]: "h p = None \<Longrightarrow> deref h p k = Fault"
  by (simp add: deref_def)

lemma deref_eq_Next [simp]: "deref h p k = Next s c \<longleftrightarrow> (\<exists>n. h p = Some n \<and> k n = Next s c)"
  by (auto simp: deref_def split: option.splits)

lemma deref_eq_Fault [simp]: "deref h p k = Fault \<longleftrightarrow> h p = None \<or> (\<exists>n. h p = Some n \<and> k n = Fault)"
  by (auto simp: deref_def split: option.splits)

text \<open>One step of an operation as a step of another that calls it: the control points of the
  operation are renamed, and its result decides where the thread goes on.\<close>

fun within :: "('p \<Rightarrow> 'l) \<Rightarrow> ('q \<Rightarrow> ('l, 'r) control) \<Rightarrow> ('s, 'p, 'q) outcome \<Rightarrow> ('s, 'l, 'r) outcome" where
  "within f k (Next s (At x)) = Next s (At (f x))"
| "within f k (Next s (Finished r)) = Next s (k r)"
| "within f k (Next s Idle) = Blocked"
| "within f k Blocked = Blocked"
| "within f k Fault = Fault"

text \<open>The address an allocation returns: some address that holds no object and is not NULL.
  The allocator itself (ssmem, malloc) is outside the sources; the choice is an argument of the
  step, and a choice that is not fresh blocks.\<close>

definition fresh :: "(ptr \<Rightarrow> 'n option) \<Rightarrow> ptr \<Rightarrow> bool" where
  "fresh h p \<longleftrightarrow> p \<noteq> NULL \<and> h p = None"

definition alloc :: "(ptr \<Rightarrow> 'n option) \<Rightarrow> ptr \<Rightarrow> ('s, 'l, 'r) outcome \<Rightarrow> ('s, 'l, 'r) outcome" where
  "alloc h p k = (if fresh h p then k else Blocked)"

lemma alloc_eq_Next [simp]: "alloc h p k = Next s c \<longleftrightarrow> fresh h p \<and> k = Next s c"
  by (simp add: alloc_def)

lemma alloc_eq_Fault [simp]: "alloc h p k = Fault \<longleftrightarrow> fresh h p \<and> k = Fault"
  by (simp add: alloc_def)

text \<open>Incrementing a word that has not reached the number of steps of the run.\<close>

lemma unat_Suc_word:
  fixes w :: "'a::len word"
  assumes "Suc (unat w) < 2 ^ LENGTH('a)"
  shows "unat (w + 1) = Suc (unat w)"
proof -
  have "unat (w + 1) = (unat w + 1) mod 2 ^ LENGTH('a)"
    by (simp add: unat_word_ariths(1))
  with assms show ?thesis by simp
qed

lemma word_less_Suc:
  fixes w :: "'a::len word"
  assumes "Suc (unat w) < 2 ^ LENGTH('a)"
  shows "w < w + 1"
  using unat_Suc_word [OF assms] by (simp add: word_less_nat_alt)

section \<open>Memory\<close>

text \<open>
  The objects of one type: the cells that have been allocated, and the set of those handed back to
  the reclaiming allocator (\<^verbatim>\<open>ssmem_free\<close>, \<^verbatim>\<open>ssmem_release\<close>). Releasing an object twice, or an address
  that holds none, is a fault.

  The contract of the allocator is in \<^verbatim>\<open>external/include/ssmem.h\<close>, lines 50 to 61: as it is configured
  there (\<^verbatim>\<open>SSMEM_TS_INCR_ON_FREE\<close>), a thread must not, after an \<^verbatim>\<open>ssmem_free\<close> of its own, access memory of
  the allocator through a reference it took before. For a client that obeys this rule a released object is
  not handed out again while a thread may access it, and the model keeps the cell readable and never
  hands it out again. \<open>release\<close> does not check the rule. Where the code breaks it (the lazy list and
  the lock-free list go on with references from before their own \<^verbatim>\<open>ssmem_free\<close>) the steps take the build
  option \<open>gc\<close>, \<^verbatim>\<open>GC == 1\<close>, and the properties are stated for \<^verbatim>\<open>GC == 0\<close>, where nothing is released.
\<close>

record 'n store =
  cells :: "ptr \<Rightarrow> 'n option"
  released :: "ptr set"

definition empty_store :: "'n store" where
  "empty_store = \<lparr>cells = (\<lambda>_. None), released = {}\<rparr>"

definition put_cell :: "ptr \<Rightarrow> 'n \<Rightarrow> 'n store \<Rightarrow> 'n store" where
  "put_cell p n m = m\<lparr>cells := (cells m)(p \<mapsto> n)\<rparr>"

definition release :: "'n store \<Rightarrow> ptr \<Rightarrow> ('n store \<Rightarrow> ('s, 'l, 'r) outcome) \<Rightarrow> ('s, 'l, 'r) outcome" where
  "release m p k = (if cells m p = None \<or> p \<in> released m then Fault
     else k (m\<lparr>released := insert p (released m)\<rparr>))"

lemma cells_put_cell [simp]: "cells (put_cell p n m) = (cells m)(p \<mapsto> n)"
  by (simp add: put_cell_def)

lemma released_put_cell [simp]: "released (put_cell p n m) = released m"
  by (simp add: put_cell_def)

lemma empty_store_simps [simp]: "cells empty_store p = None" "released empty_store = {}"
  by (simp_all add: empty_store_def)

lemma release_eq_Next [simp]:
  "release m p k = Next s c \<longleftrightarrow>
     cells m p \<noteq> None \<and> p \<notin> released m \<and> k (m\<lparr>released := insert p (released m)\<rparr>) = Next s c"
  by (auto simp: release_def)

lemma release_eq_Fault [simp]:
  "release m p k = Fault \<longleftrightarrow>
     cells m p = None \<or> p \<in> released m \<or> k (m\<lparr>released := insert p (released m)\<rparr>) = Fault"
  by (auto simp: release_def)

section \<open>Linked paths\<close>

text \<open>\<open>path h nx p ps q\<close>: following \<open>nx\<close> from \<open>p\<close> visits the nodes \<open>ps\<close> and arrives at \<open>q\<close>.\<close>

fun path :: "(ptr \<Rightarrow> 'n option) \<Rightarrow> ('n \<Rightarrow> ptr) \<Rightarrow> ptr \<Rightarrow> ptr list \<Rightarrow> ptr \<Rightarrow> bool" where
  "path h nx p [] q = (p = q)"
| "path h nx p (x # xs) q = (p = x \<and> x \<noteq> NULL \<and> (\<exists>n. h x = Some n \<and> path h nx (nx n) xs q))"

lemma path_append:
  "path h nx p (xs @ ys) q \<longleftrightarrow> (\<exists>r. path h nx p xs r \<and> path h nx r ys q)"
  by (induction xs arbitrary: p) auto

lemma path_cong:
  assumes "path h nx p xs q" and "\<And>x. x \<in> set xs \<Longrightarrow> map_option nx (h' x) = map_option nx (h x)"
  shows "path h' nx p xs q"
  using assms
proof (induction xs arbitrary: p)
  case (Cons x xs)
  from Cons.prems(1) obtain n where n: "p = x" "x \<noteq> NULL" "h x = Some n" "path h nx (nx n) xs q"
    by auto
  from Cons.prems(2) [of x] n obtain n' where "h' x = Some n'" "nx n' = nx n"
    by (cases "h' x") auto
  moreover from Cons.IH [OF n(4)] Cons.prems(2) have "path h' nx (nx n) xs q" by simp
  ultimately show ?case using n by simp
qed simp

lemma path_update [simp]:
  "p' \<notin> set xs \<Longrightarrow> path (h(p' := v)) nx p xs q = path h nx p xs q"
  by (auto elim!: path_cong)

lemma path_cells: "path h nx p xs q \<Longrightarrow> x \<in> set xs \<Longrightarrow> x \<noteq> NULL \<and> (\<exists>n. h x = Some n)"
  by (induction xs arbitrary: p) auto

lemma path_NULL [simp]: "path h nx NULL xs q \<longleftrightarrow> xs = [] \<and> q = NULL"
  by (cases xs) auto

lemma path_nonempty: "path h nx p xs q \<Longrightarrow> p \<noteq> q \<Longrightarrow> \<exists>n ys. xs = p # ys \<and> h p = Some n \<and> path h nx (nx n) ys q"
  by (cases xs) auto

lemma path_unique:
  "path h nx p xs NULL \<Longrightarrow> path h nx p ys NULL \<Longrightarrow> xs = ys"
proof (induction xs arbitrary: p ys)
  case Nil
  then show ?case by simp
next
  case (Cons x xs)
  then show ?case by (cases ys) auto
qed

lemma path_distinct: "path h nx p xs NULL \<Longrightarrow> distinct xs"
proof (induction xs arbitrary: p)
  case (Cons x xs)
  then obtain n where n: "h x = Some n" "path h nx (nx n) xs NULL" and p: "path h nx x (x # xs) NULL"
    by auto
  have "x \<notin> set xs"
  proof
    assume "x \<in> set xs"
    then obtain us vs where xs: "xs = us @ x # vs" by (auto simp: in_set_conv_decomp)
    with n(2) have "path h nx x (x # vs) NULL" by (auto simp: path_append)
    from path_unique [OF p this] xs show False by simp
  qed
  with Cons.IH [OF n(2)] show ?case by simp
qed simp

text \<open>The nodes visited from \<open>p\<close> on the way to NULL.\<close>

definition nodes_from :: "(ptr \<Rightarrow> 'n option) \<Rightarrow> ('n \<Rightarrow> ptr) \<Rightarrow> ptr \<Rightarrow> ptr set" where
  "nodes_from h nx p = {q. \<exists>ps. path h nx p ps NULL \<and> q \<in> set ps}"

lemma nodes_from_path: "path h nx p ps NULL \<Longrightarrow> nodes_from h nx p = set ps"
  unfolding nodes_from_def using path_unique [of h nx p ps] by blast

lemma path_snoc: "path h nx p (xs @ [x]) NULL \<Longrightarrow> \<exists>n. h x = Some n \<and> nx n = NULL"
  by (auto simp: path_append)

lemma path_last_NULL:
  assumes "path h nx p ps NULL" and "x \<in> set ps" and "h x = Some n" and "nx n = NULL"
  shows "ps \<noteq> [] \<and> x = last ps"
proof -
  from assms(2) obtain xs ys where ps: "ps = xs @ x # ys" by (auto simp: in_set_conv_decomp)
  with assms show ?thesis by (auto simp: path_append)
qed

lemma path_link:
  assumes "path h nx p (xs @ [x]) NULL" and "y \<noteq> NULL" and "y \<notin> set (xs @ [x])"
    and "h' x = Some n" and "nx n = y" and "h' y = Some m" and "nx m = NULL"
    and "\<And>q. q \<in> set xs \<Longrightarrow> h' q = h q" and "distinct (xs @ [x])"
  shows "path h' nx p (xs @ [x, y]) NULL"
proof -
  from assms(1) have "path h nx p xs x" "x \<noteq> NULL" by (auto simp: path_append)
  then have "path h' nx p xs x" using assms(8) by (auto elim!: path_cong)
  with assms \<open>x \<noteq> NULL\<close> show ?thesis by (auto simp: path_append)
qed

end
