(* ===== verification/Linearizability.thy ===== *)
theory Linearizability
  imports Prelude
begin

text \<open>
  The correctness criterion of the concurrent objects of the library, independent of any one of
  them. A sequential specification says what an operation does to the abstract value and what it
  returns. A history is the sequence of calls and returns that the threads make. A history is
  linearizable when linearization points can be put into it, one between the call and the return
  of each completed operation (and at most one in each pending one), so that the specification,
  run at these points, gives exactly the returned values (\<open>linearizable\<close> below).

  A monitor then keeps, for each pending operation, the set of results that were legal at some
  moment since its call (\<open>Open\<close>). It accepts a read-only return if its value is in that set,
  wherever the moment was. This is what makes the unlocked traversals of the library provable by a
  forward argument. \<open>monitor_run_linearizable\<close> shows that the monitor accepts only linearizable
  histories.
\<close>

section \<open>Histories and linearizability\<close>

datatype ('o, 'r) event = Call 'o | Return 'r

type_synonym ('o, 'r) history = "(tid \<times> ('o, 'r) event) list"

datatype ('o, 'r) action = Ext "('o, 'r) event" | Lin

datatype ('o, 'r) phase = Resting | Pending 'o | Done 'r

type_synonym ('o, 'a, 'r) seq_spec = "'o \<Rightarrow> 'a \<Rightarrow> 'a \<times> 'r"

fun atomic_step :: "('o, 'a, 'r) seq_spec \<Rightarrow> tid \<times> ('o, 'r) action \<Rightarrow>
    'a \<times> (tid \<Rightarrow> ('o, 'r) phase) \<Rightarrow> ('a \<times> (tid \<Rightarrow> ('o, 'r) phase)) option" where
  "atomic_step spec (t, Ext (Call op)) (a, f) =
     (if f t = Resting then Some (a, f(t := Pending op)) else None)"
| "atomic_step spec (t, Lin) (a, f) =
     (case f t of
        Pending op \<Rightarrow> (let (a', r) = spec op a in Some (a', f(t := Done r)))
      | _ \<Rightarrow> None)"
| "atomic_step spec (t, Ext (Return r)) (a, f) =
     (if f t = Done r then Some (a, f(t := Resting)) else None)"

fun atomic_run :: "('o, 'a, 'r) seq_spec \<Rightarrow> (tid \<times> ('o, 'r) action) list \<Rightarrow>
    'a \<times> (tid \<Rightarrow> ('o, 'r) phase) \<Rightarrow> ('a \<times> (tid \<Rightarrow> ('o, 'r) phase)) option" where
  "atomic_run spec [] x = Some x"
| "atomic_run spec (e # es) x = Option.bind (atomic_step spec e x) (atomic_run spec es)"

fun external :: "(tid \<times> ('o, 'r) action) list \<Rightarrow> ('o, 'r) history" where
  "external [] = []"
| "external ((t, Ext e) # es) = (t, e) # external es"
| "external ((t, Lin) # es) = external es"

definition linearizable :: "('o, 'a, 'r) seq_spec \<Rightarrow> 'a \<Rightarrow> ('o, 'r) history \<Rightarrow> bool" where
  "linearizable spec a0 h \<longleftrightarrow>
     (\<exists>es a f. external es = h \<and> atomic_run spec es (a0, \<lambda>_. Resting) = Some (a, f))"

text \<open>The abstract value after the last linearization point of such a run.\<close>

definition linearizes_to :: "('o, 'a, 'r) seq_spec \<Rightarrow> 'a \<Rightarrow> ('o, 'r) history \<Rightarrow> 'a \<Rightarrow> bool" where
  "linearizes_to spec a0 h a \<longleftrightarrow>
     (\<exists>es f. external es = h \<and> atomic_run spec es (a0, \<lambda>_. Resting) = Some (a, f))"

lemma external_append [simp]: "external (xs @ ys) = external xs @ external ys"
  by (induction xs rule: external.induct) auto

lemma atomic_run_append:
  "atomic_run spec (xs @ ys) x = Option.bind (atomic_run spec xs x) (atomic_run spec ys)"
proof (induction xs arbitrary: x)
  case (Cons e xs)
  then show ?case by (cases "atomic_step spec e x") auto
qed simp

lemma external_Lins [simp]: "external (map (\<lambda>t. (t, Lin)) ts) = []"
  by (induction ts) auto

text \<open>Several read-only operations may linearize one after the other at the same moment.\<close>

lemma atomic_run_Lins:
  assumes "distinct ts"
    and "\<And>t. t \<in> set ts \<Longrightarrow> \<exists>op. f t = Pending op \<and> spec op a = (a, res t)"
  shows "atomic_run spec (map (\<lambda>t. (t, Lin)) ts) (a, f)
    = Some (a, \<lambda>t. if t \<in> set ts then Done (res t) else f t)"
  using assms
proof (induction ts arbitrary: f)
  case (Cons t ts)
  from Cons.prems(2) obtain op where op: "f t = Pending op" "spec op a = (a, res t)"
    by auto
  have "atomic_run spec (map (\<lambda>t. (t, Lin)) ts) (a, f(t := Done (res t)))
    = Some (a, \<lambda>u. if u \<in> set ts then Done (res u) else (f(t := Done (res t))) u)"
    using Cons.prems by (intro Cons.IH) auto
  moreover have "(\<lambda>u. if u \<in> set ts then Done (res u) else (f(t := Done (res t))) u)
    = (\<lambda>u. if u \<in> set (t # ts) then Done (res u) else f u)"
    by auto
  ultimately show ?case using op by simp
qed simp

section \<open>The monitor\<close>

datatype ('o, 'r) ghost = Quiet | Open 'o "'r set" | Closed 'r

definition legal :: "('o, 'a, 'r) seq_spec \<Rightarrow> 'o \<Rightarrow> 'a \<Rightarrow> 'r set" where
  "legal spec op a = {r. spec op a = (a, r)}"

fun observe :: "('o, 'a, 'r) seq_spec \<Rightarrow> 'a \<Rightarrow> ('o, 'r) ghost \<Rightarrow> ('o, 'r) ghost" where
  "observe spec a (Open op W) = Open op (W \<union> legal spec op a)"
| "observe spec a g = g"

fun returns :: "('o, 'r) ghost \<Rightarrow> 'r \<Rightarrow> bool" where
  "returns (Closed r') r = (r' = r)"
| "returns (Open op W) r = (r \<in> W)"
| "returns Quiet r = False"

inductive monitor :: "('o, 'a, 'r) seq_spec \<Rightarrow> 'a \<times> (tid \<Rightarrow> ('o, 'r) ghost) \<Rightarrow> tid \<Rightarrow>
    ('o, 'r) event option \<Rightarrow> 'a \<times> (tid \<Rightarrow> ('o, 'r) ghost) \<Rightarrow> bool" for spec where
  mon_call: "g t = Quiet \<Longrightarrow>
     monitor spec (a, g) t (Some (Call op)) (a, g(t := Open op (legal spec op a)))"
| mon_tau: "monitor spec (a, g) t None (a, g)"
| mon_lin: "g t = Open op W \<Longrightarrow> spec op a = (a', r) \<Longrightarrow>
     monitor spec (a, g) t None (a', \<lambda>u. if u = t then Closed r else observe spec a' (g u))"
| mon_return: "returns (g t) r \<Longrightarrow>
     monitor spec (a, g) t (Some (Return r)) (a, g(t := Quiet))"

inductive monitor_run :: "('o, 'a, 'r) seq_spec \<Rightarrow> 'a \<Rightarrow> ('o, 'r) history \<Rightarrow>
    'a \<times> (tid \<Rightarrow> ('o, 'r) ghost) \<Rightarrow> bool" for spec a0 where
  monr_nil: "monitor_run spec a0 [] (a0, \<lambda>_. Quiet)"
| monr_tau: "monitor_run spec a0 h x \<Longrightarrow> monitor spec x t None x' \<Longrightarrow> monitor_run spec a0 h x'"
| monr_ext: "monitor_run spec a0 h x \<Longrightarrow> monitor spec x t (Some e) x' \<Longrightarrow>
     monitor_run spec a0 (h @ [(t, e)]) x'"

text \<open>Every result that is legal now has been recorded for every open operation.\<close>

definition observed :: "('o, 'a, 'r) seq_spec \<Rightarrow> 'a \<Rightarrow> ('o, 'r) ghost \<Rightarrow> bool" where
  "observed spec a g \<longleftrightarrow> (\<forall>op W. g = Open op W \<longrightarrow> legal spec op a \<subseteq> W)"

lemma observed_observe [simp]: "observed spec a (observe spec a g)"
  by (cases g) (auto simp: observed_def)

lemma observed_simps [simp]:
  "observed spec a Quiet" "observed spec a (Closed r)"
  "observed spec a (Open op W) = (legal spec op a \<subseteq> W)"
  by (auto simp: observed_def)

lemma observe_observed: "observed spec a g \<Longrightarrow> observe spec a g = g"
  by (cases g) auto

lemma monitor_observed:
  assumes "monitor spec (a, g) t l (a', g')" and "\<And>u. observed spec a (g u)"
  shows "observed spec a' (g' u)"
  using assms by (cases rule: monitor.cases) (auto split: if_splits)

section \<open>Soundness of the monitor\<close>

text \<open>
  A choice function says, for each open operation, whether it is taken to have linearized at some
  earlier legal moment, and with which of the recorded results. For every choice there is a run of
  the atomic object with the same history that agrees with it.
\<close>

definition choice_ok :: "(tid \<Rightarrow> ('o, 'r) ghost) \<Rightarrow> (tid \<Rightarrow> 'r option) \<Rightarrow> bool" where
  "choice_ok g ch \<longleftrightarrow> (\<forall>t r. ch t = Some r \<longrightarrow> (\<exists>op W. g t = Open op W \<and> r \<in> W))"

lemma choice_ok_None:
  assumes "choice_ok g ch" and "\<And>op W. g t = Open op W \<Longrightarrow> W = {}"
  shows "ch t = None"
proof (cases "ch t")
  case (Some r)
  with assms(1) obtain op W where "g t = Open op W" "r \<in> W"
    unfolding choice_ok_def by blast
  with assms(2) show ?thesis by blast
qed simp

fun phase_of :: "('o, 'r) ghost \<Rightarrow> 'r option \<Rightarrow> ('o, 'r) phase" where
  "phase_of Quiet c = Resting"
| "phase_of (Closed r) c = Done r"
| "phase_of (Open op W) None = Pending op"
| "phase_of (Open op W) (Some r) = Done r"

definition explains :: "('o, 'a, 'r) seq_spec \<Rightarrow> 'a \<Rightarrow> ('o, 'r) history \<Rightarrow> 'a \<Rightarrow>
    (tid \<Rightarrow> ('o, 'r) phase) \<Rightarrow> bool" where
  "explains spec a0 h a f \<longleftrightarrow>
     (\<exists>es. external es = h \<and> atomic_run spec es (a0, \<lambda>_. Resting) = Some (a, f))"

definition explained :: "('o, 'a, 'r) seq_spec \<Rightarrow> 'a \<Rightarrow> ('o, 'r) history \<Rightarrow> 'a \<Rightarrow>
    (tid \<Rightarrow> ('o, 'r) ghost) \<Rightarrow> bool" where
  "explained spec a0 h a g \<longleftrightarrow> finite {t. g t \<noteq> Quiet} \<and>
     (\<forall>ch. choice_ok g ch \<longrightarrow> explains spec a0 h a (\<lambda>t. phase_of (g t) (ch t)))"

lemma explains_ext:
  assumes "explains spec a0 h a f" and "atomic_step spec (t, Ext e) (a, f) = Some (a', f')"
  shows "explains spec a0 (h @ [(t, e)]) a' f'"
proof -
  from assms(1) obtain es where es: "external es = h"
      "atomic_run spec es (a0, \<lambda>_. Resting) = Some (a, f)"
    by (auto simp: explains_def)
  then have "external (es @ [(t, Ext e)]) = h @ [(t, e)]"
    and "atomic_run spec (es @ [(t, Ext e)]) (a0, \<lambda>_. Resting) = Some (a', f')"
    using assms(2) by (simp_all add: atomic_run_append)
  then show ?thesis unfolding explains_def by blast
qed

lemma explains_lins:
  assumes "explains spec a0 h a f" and "atomic_run spec (map (\<lambda>t. (t, Lin)) ts) (a, f) = Some (a', f')"
  shows "explains spec a0 h a' f'"
proof -
  from assms(1) obtain es where es: "external es = h"
      "atomic_run spec es (a0, \<lambda>_. Resting) = Some (a, f)"
    by (auto simp: explains_def)
  then have "external (es @ map (\<lambda>t. (t, Lin)) ts) = h"
    and "atomic_run spec (es @ map (\<lambda>t. (t, Lin)) ts) (a0, \<lambda>_. Resting) = Some (a', f')"
    using assms(2) by (simp_all add: atomic_run_append)
  then show ?thesis unfolding explains_def by blast
qed

text \<open>Recording new results keeps a history explained: the operations whose chosen result is new
  linearize now, one after the other.\<close>

lemma explained_observe:
  assumes ex: "explained spec a0 h a g"
  shows "explained spec a0 h a (\<lambda>u. observe spec a (g u))"
  unfolding explained_def
proof (intro conjI allI impI)
  have "{t. observe spec a (g t) \<noteq> Quiet} = {t. g t \<noteq> Quiet}"
    by (auto elim: observe.elims)
  then show "finite {t. observe spec a (g t) \<noteq> Quiet}"
    using ex by (simp add: explained_def)
next
  fix ch assume ch: "choice_ok (\<lambda>u. observe spec a (g u)) ch"
  define old where "old = (\<lambda>t. case ch t of None \<Rightarrow> None
    | Some r \<Rightarrow> (case g t of Open op W \<Rightarrow> if r \<in> W then Some r else None | _ \<Rightarrow> None))"
  define S where "S = {t. ch t \<noteq> None \<and> old t = None}"
  have S: "\<exists>op W r. g t = Open op W \<and> ch t = Some r \<and> spec op a = (a, r)" if "t \<in> S" for t
  proof -
    from that obtain r where r: "ch t = Some r" by (auto simp: S_def)
    with ch have "\<exists>op W. observe spec a (g t) = Open op W \<and> r \<in> W"
      by (auto simp: choice_ok_def)
    then obtain op W where gW: "g t = Open op W" "r \<in> W \<union> legal spec op a"
      by (cases "g t") auto
    with r that have "r \<notin> W" by (auto simp: S_def old_def)
    with gW r show ?thesis by (auto simp: legal_def)
  qed
  have "S \<subseteq> {t. g t \<noteq> Quiet}"
    using S by fastforce
  then have "finite S"
    using ex by (auto simp: explained_def intro: finite_subset)
  then obtain ts where ts: "set ts = S" "distinct ts"
    using finite_distinct_list by blast
  have "choice_ok g old"
    unfolding choice_ok_def old_def by (auto split: option.splits ghost.splits if_splits)
  then have "explains spec a0 h a (\<lambda>t. phase_of (g t) (old t))"
    using ex by (simp add: explained_def)
  moreover have "atomic_run spec (map (\<lambda>t. (t, Lin)) ts) (a, \<lambda>t. phase_of (g t) (old t))
    = Some (a, \<lambda>t. if t \<in> set ts then Done (the (ch t)) else phase_of (g t) (old t))"
  proof (rule atomic_run_Lins [OF ts(2)])
    fix t assume "t \<in> set ts"
    with ts have t: "t \<in> S" by simp
    with S obtain op W r where "g t = Open op W" "ch t = Some r" "spec op a = (a, r)" by blast
    moreover from t have "old t = None" by (simp add: S_def)
    ultimately show "\<exists>op. phase_of (g t) (old t) = Pending op \<and> spec op a = (a, the (ch t))"
      by simp
  qed
  moreover have "(\<lambda>t. if t \<in> set ts then Done (the (ch t)) else phase_of (g t) (old t))
    = (\<lambda>t. phase_of (observe spec a (g t)) (ch t))"
  proof
    fix t show "(if t \<in> set ts then Done (the (ch t)) else phase_of (g t) (old t))
      = phase_of (observe spec a (g t)) (ch t)"
    proof (cases "t \<in> S")
      case True
      with S ts show ?thesis by force
    next
      case False
      then have "old t = ch t \<or> ch t = None" by (auto simp: S_def old_def split: option.splits ghost.splits if_splits)
      with False ts show ?thesis
        by (cases "g t") (auto simp: S_def old_def split: option.splits)
    qed
  qed
  ultimately show "explains spec a0 h a (\<lambda>t. phase_of (observe spec a (g t)) (ch t))"
    using explains_lins by fastforce
qed

lemma explained_call:
  assumes ex: "explained spec a0 h a g" and gt: "g t = Quiet"
  shows "explained spec a0 (h @ [(t, Call op)]) a (g(t := Open op {}))"
  unfolding explained_def
proof (intro conjI allI impI)
  have "{u. (g(t := Open op {})) u \<noteq> Quiet} = insert t {u. g u \<noteq> Quiet}" by auto
  then show "finite {u. (g(t := Open op {})) u \<noteq> Quiet}"
    using ex by (simp add: explained_def)
next
  fix ch assume ch: "choice_ok (g(t := Open op {})) ch"
  have cht: "ch t = None"
    by (rule choice_ok_None [OF ch]) simp
  from ch have "choice_ok g ch"
    unfolding choice_ok_def by (metis cht fun_upd_other option.distinct(1))
  with ex have "explains spec a0 h a (\<lambda>u. phase_of (g u) (ch u))"
    by (simp add: explained_def)
  from explains_ext [OF this, of t "Call op" a "\<lambda>u. phase_of ((g(t := Open op {})) u) (ch u)"]
  show "explains spec a0 (h @ [(t, Call op)]) a (\<lambda>u. phase_of ((g(t := Open op {})) u) (ch u))"
    using gt cht by (auto simp: fun_eq_iff)
qed

lemma explained_lin:
  assumes ex: "explained spec a0 h a g" and gt: "g t = Open op W" and sp: "spec op a = (a', r)"
  shows "explained spec a0 h a' (g(t := Closed r))"
  unfolding explained_def
proof (intro conjI allI impI)
  have "{u. (g(t := Closed r)) u \<noteq> Quiet} \<subseteq> insert t {u. g u \<noteq> Quiet}" by auto
  then show "finite {u. (g(t := Closed r)) u \<noteq> Quiet}"
    by (rule finite_subset) (use ex in \<open>simp add: explained_def\<close>)
next
  fix ch assume ch: "choice_ok (g(t := Closed r)) ch"
  have cht: "ch t = None"
    by (rule choice_ok_None [OF ch]) simp
  from ch have "choice_ok g ch"
    unfolding choice_ok_def by (metis cht fun_upd_other option.distinct(1))
  with ex have e: "explains spec a0 h a (\<lambda>u. phase_of (g u) (ch u))"
    by (simp add: explained_def)
  have "atomic_run spec (map (\<lambda>u. (u, Lin)) [t]) (a, \<lambda>u. phase_of (g u) (ch u))
      = Some (a', \<lambda>u. phase_of ((g(t := Closed r)) u) (ch u))"
    using gt cht sp by (auto simp: fun_eq_iff)
  from explains_lins [OF e this]
  show "explains spec a0 h a' (\<lambda>u. phase_of ((g(t := Closed r)) u) (ch u))" .
qed

lemma explained_return:
  assumes ex: "explained spec a0 h a g" and gt: "returns (g t) r"
  shows "explained spec a0 (h @ [(t, Return r)]) a (g(t := Quiet))"
  unfolding explained_def
proof (intro conjI allI impI)
  have "{u. (g(t := Quiet)) u \<noteq> Quiet} \<subseteq> {u. g u \<noteq> Quiet}" by auto
  then show "finite {u. (g(t := Quiet)) u \<noteq> Quiet}"
    by (rule finite_subset) (use ex in \<open>simp add: explained_def\<close>)
next
  fix ch assume ch: "choice_ok (g(t := Quiet)) ch"
  define ch' where "ch' = ch(t := (case g t of Open op W \<Rightarrow> Some r | _ \<Rightarrow> None))"
  have "choice_ok g ch'"
    using ch gt unfolding choice_ok_def ch'_def by (auto split: ghost.splits if_splits)
  with ex have e: "explains spec a0 h a (\<lambda>u. phase_of (g u) (ch' u))"
    by (simp add: explained_def)
  have "phase_of (g t) (ch' t) = Done r"
    using gt by (cases "g t") (auto simp: ch'_def)
  then have "atomic_step spec (t, Ext (Return r)) (a, \<lambda>u. phase_of (g u) (ch' u))
      = Some (a, \<lambda>u. phase_of ((g(t := Quiet)) u) (ch u))"
    by (auto simp: fun_eq_iff ch'_def)
  from explains_ext [OF e this]
  show "explains spec a0 (h @ [(t, Return r)]) a (\<lambda>u. phase_of ((g(t := Quiet)) u) (ch u))" .
qed

lemma monitor_run_observed:
  "monitor_run spec a0 h x \<Longrightarrow> observed spec (fst x) (snd x u)"
proof (induction arbitrary: u rule: monitor_run.induct)
  case (monr_tau h x t x')
  then show ?case by (cases x; cases x') (auto intro: monitor_observed)
next
  case (monr_ext h x t e x')
  then show ?case by (cases x; cases x') (auto intro: monitor_observed)
qed simp

lemma monitor_explained:
  assumes "explained spec a0 h a g" and "\<And>u. observed spec a (g u)"
    and "monitor spec (a, g) t l (a', g')"
  shows "explained spec a0 (case l of None \<Rightarrow> h | Some e \<Rightarrow> h @ [(t, e)]) a' g'"
  using assms(3)
proof (cases rule: monitor.cases)
  case (mon_call op)
  have "(\<lambda>u. observe spec a ((g(t := Open op {})) u)) = g(t := Open op (legal spec op a))"
    using assms(2) by (auto simp: fun_eq_iff observe_observed)
  with explained_observe [OF explained_call [OF assms(1), of t op]] mon_call show ?thesis
    by (simp del: fun_upd_apply)
next
  case mon_tau
  then show ?thesis using assms(1) by simp
next
  case (mon_lin op W r)
  have "(\<lambda>u. observe spec a' ((g(t := Closed r)) u)) = g'"
    using mon_lin by (auto simp: fun_eq_iff)
  then show ?thesis
    using explained_observe [OF explained_lin [OF assms(1) mon_lin(3,4)]] mon_lin by simp
next
  case (mon_return r)
  then show ?thesis using explained_return [OF assms(1)] by simp
qed

lemma monitor_run_explained:
  "monitor_run spec a0 h x \<Longrightarrow> explained spec a0 h (fst x) (snd x)"
proof (induction rule: monitor_run.induct)
  case monr_nil
  have "explains spec a0 [] a0 (\<lambda>_. Resting)"
    unfolding explains_def by (intro exI [of _ "[]"]) simp
  then show ?case by (simp add: explained_def)
next
  case (monr_tau h x t x')
  then show ?case
    using monitor_explained [of spec a0 h "fst x" "snd x" t None "fst x'" "snd x'"]
      monitor_run_observed [OF monr_tau.hyps(1)] by simp
next
  case (monr_ext h x t e x')
  then show ?case
    using monitor_explained [of spec a0 h "fst x" "snd x" t "Some e" "fst x'" "snd x'"]
      monitor_run_observed [OF monr_ext.hyps(1)] by simp
qed

text \<open>The monitor accepts only linearizable histories.\<close>

theorem monitor_run_linearizes_to:
  assumes "monitor_run spec a0 h x"
  shows "linearizes_to spec a0 h (fst x)"
proof -
  have "choice_ok (snd x) (\<lambda>_. None)" by (simp add: choice_ok_def)
  with monitor_run_explained [OF assms] have
    "explains spec a0 h (fst x) (\<lambda>t. phase_of (snd x t) None)"
    by (simp add: explained_def)
  then show ?thesis unfolding explains_def linearizes_to_def by blast
qed

theorem monitor_run_linearizable:
  "monitor_run spec a0 h x \<Longrightarrow> linearizable spec a0 h"
  by (drule monitor_run_linearizes_to) (auto simp: linearizable_def linearizes_to_def)

end
