(* ===== verification/Thread_Objects.thy ===== *)
theory Thread_Objects
  imports Linearizability
begin

text \<open>
  A concurrent object: a shared state, and per thread a control point that the step function of
  its current operation moves, one shared access at a time. A run interleaves the steps of the
  threads arbitrarily. The locale \<open>thread_object\<close> is the interface between the model of an
  object and its correctness: an object provides a shared invariant relating it to an abstract
  value and a local invariant per control point, and proves that each single step keeps them; the
  locale gives linearizability of every run, and that no thread ever reaches undefined behaviour.
\<close>

section \<open>Runs\<close>

type_synonym ('s, 'l, 'r) config = "'s \<times> (tid \<Rightarrow> ('l, 'r) control)"

type_synonym ('s, 'l, 'r) exec = "tid \<Rightarrow> ptr \<Rightarrow> 's \<Rightarrow> 'l \<Rightarrow> ('s, 'l, 'r) outcome"

text \<open>\<open>start op\<close> is the control point at which a call of \<open>op\<close> begins, \<open>None\<close> when the call is
  outside the preconditions of the interface.\<close>

inductive thread_step :: "('o \<Rightarrow> 'l option) \<Rightarrow> ('s, 'l, 'r) exec \<Rightarrow> ('s, 'l, 'r) config \<Rightarrow> tid \<Rightarrow>
    ('o, 'r) event option \<Rightarrow> ('s, 'l, 'r) config \<Rightarrow> bool" for start exec where
  step_call: "c t = Idle \<Longrightarrow> start op = Some x \<Longrightarrow>
     thread_step start exec (s, c) t (Some (Call op)) (s, c(t := At x))"
| step_exec: "c t = At x \<Longrightarrow> exec t p s x = Next s' y \<Longrightarrow>
     thread_step start exec (s, c) t None (s', c(t := y))"
| step_return: "c t = Finished r \<Longrightarrow>
     thread_step start exec (s, c) t (Some (Return r)) (s, c(t := Idle))"

inductive run :: "('o \<Rightarrow> 'l option) \<Rightarrow> ('s, 'l, 'r) exec \<Rightarrow> 's \<Rightarrow> nat \<Rightarrow> ('o, 'r) history \<Rightarrow>
    ('s, 'l, 'r) config \<Rightarrow> bool" for start exec s0 where
  run_nil: "run start exec s0 0 [] (s0, \<lambda>_. Idle)"
| run_tau: "run start exec s0 n h k \<Longrightarrow> thread_step start exec k t None k' \<Longrightarrow>
     run start exec s0 (Suc n) h k'"
| run_ext: "run start exec s0 n h k \<Longrightarrow> thread_step start exec k t (Some e) k' \<Longrightarrow>
     run start exec s0 (Suc n) (h @ [(t, e)]) k'"

inductive_cases thread_stepE: "thread_step start exec (s, c) t l k'"

text \<open>Executable runs: a schedule of calls, steps (with the address an allocation would return)
  and returns.\<close>

datatype 'o command = Do_Call tid 'o | Do_Step tid ptr | Do_Return tid

fun replay1 :: "('o \<Rightarrow> 'l option) \<Rightarrow> ('s, 'l, 'r) exec \<Rightarrow> 'o command \<Rightarrow> ('s, 'l, 'r) config \<Rightarrow>
    (('o, 'r) history \<times> ('s, 'l, 'r) config) option" where
  "replay1 start exec (Do_Call t op) (s, c) =
     (case c t of
        Idle \<Rightarrow> map_option (\<lambda>x. ([(t, Call op)], (s, c(t := At x)))) (start op)
      | _ \<Rightarrow> None)"
| "replay1 start exec (Do_Step t p) (s, c) =
     (case c t of
        At x \<Rightarrow> (case exec t p s x of Next s' y \<Rightarrow> Some ([], (s', c(t := y))) | _ \<Rightarrow> None)
      | _ \<Rightarrow> None)"
| "replay1 start exec (Do_Return t) (s, c) =
     (case c t of Finished r \<Rightarrow> Some ([(t, Return r)], (s, c(t := Idle))) | _ \<Rightarrow> None)"

fun replay :: "('o \<Rightarrow> 'l option) \<Rightarrow> ('s, 'l, 'r) exec \<Rightarrow> 'o command list \<Rightarrow>
    ('o, 'r) history \<times> ('s, 'l, 'r) config \<Rightarrow> (('o, 'r) history \<times> ('s, 'l, 'r) config) option" where
  "replay start exec [] x = Some x"
| "replay start exec (d # ds) (h, k) =
     (case replay1 start exec d k of
        None \<Rightarrow> None
      | Some (h', k') \<Rightarrow> replay start exec ds (h @ h', k'))"

lemma replay1_run:
  assumes "run start exec s0 n h k" and "replay1 start exec d k = Some (h', k')"
  shows "run start exec s0 (Suc n) (h @ h') k'"
proof (cases d)
  case (Do_Call t op)
  with assms show ?thesis
    by (cases k) (auto split: control.splits intro!: run_ext [where t = t] step_call)
next
  case (Do_Step t p)
  obtain s c where k: "k = (s, c)" by force
  with assms(2) Do_Step obtain x s' y where "c t = At x" "exec t p s x = Next s' y" "h' = []"
      "k' = (s', c(t := y))"
    by (auto split: control.splits outcome.splits)
  then show ?thesis
    using run_tau [OF assms(1), of t k'] step_exec [of c t x exec p s s' y start] k by simp
next
  case (Do_Return t)
  with assms show ?thesis
    by (cases k) (auto split: control.splits intro!: run_ext [where t = t] step_return)
qed

lemma replay_run_from:
  assumes "run start exec s0 n h k" and "replay start exec ds (h, k) = Some (h', k')"
  shows "run start exec s0 (n + length ds) h' k'"
  using assms
proof (induction ds arbitrary: n h k)
  case (Cons d ds)
  from Cons.prems(2) obtain h1 k1 where "replay1 start exec d k = Some (h1, k1)"
      and "replay start exec ds (h @ h1, k1) = Some (h', k')"
    by (auto split: option.splits)
  with Cons.IH [OF replay1_run [OF Cons.prems(1)]] show ?case by fastforce
qed simp

lemma replay_run:
  "replay start exec ds ([], (s0, \<lambda>_. Idle)) = Some (h, k) \<Longrightarrow> run start exec s0 (length ds) h k"
  using replay_run_from [OF run_nil, where ds = ds] by simp

text \<open>A schedule that can be replayed gives a run with the properties of its last state.\<close>

lemma replay_exhibits:
  assumes "\<exists>s c. replay start exec ds ([], (s0, \<lambda>_. Idle)) = Some (h, (s, c)) \<and> P s c"
  shows "\<exists>s c. run start exec s0 (length ds) h (s, c) \<and> P s c"
proof -
  from assms obtain s c where "replay start exec ds ([], (s0, \<lambda>_. Idle)) = Some (h, (s, c))" and P: "P s c"
    by auto
  from replay_run [OF this(1)] P show ?thesis by (intro exI conjI)
qed

section \<open>The interface of a verified concurrent object\<close>

text \<open>A step of a thread either leaves the abstract value alone or is the linearization point of
  its own operation (\<open>advance\<close>). \<open>step_ok\<close> is what an object has to show of a step: it advances,
  keeps the shared invariant and the thread's local invariant, and does not disturb the local
  invariant of any other thread.\<close>

definition advance :: "('o, 'a, 'r) seq_spec \<Rightarrow> 'a \<Rightarrow> ('o, 'r) ghost \<Rightarrow> 'a \<Rightarrow> ('o, 'r) ghost \<Rightarrow> bool" where
  "advance spec a g a' g' \<longleftrightarrow>
     a' = a \<and> g' = g \<or> (\<exists>op W r. g = Open op W \<and> spec op a = (a', r) \<and> g' = Closed r)"

definition step_ok :: "('o, 'a, 'r) seq_spec \<Rightarrow> (('l, 'r) control \<Rightarrow> 'w) \<Rightarrow>
    (nat \<Rightarrow> 's \<Rightarrow> 'a \<Rightarrow> (tid \<Rightarrow> 'w) \<Rightarrow> bool) \<Rightarrow>
    (tid \<Rightarrow> 's \<Rightarrow> 'a \<Rightarrow> (tid \<Rightarrow> 'w) \<Rightarrow> ('l, 'r) control \<Rightarrow> ('o, 'r) ghost \<Rightarrow> bool) \<Rightarrow>
    nat \<Rightarrow> tid \<Rightarrow> 's \<Rightarrow> 'a \<Rightarrow> (tid \<Rightarrow> 'w) \<Rightarrow> ('o, 'r) ghost \<Rightarrow> 's \<Rightarrow> ('l, 'r) control \<Rightarrow> bool" where
  "step_ok spec own SI LI n t s a w g s' y \<longleftrightarrow>
     (\<exists>a' g'. advance spec a g a' g'
        \<and> SI (Suc n) s' a' (w(t := own y))
        \<and> LI t s' a' (w(t := own y)) y g'
        \<and> (\<forall>u z gu. u \<noteq> t \<longrightarrow> w u = own z \<longrightarrow> observed spec a gu \<longrightarrow> LI u s a w z gu \<longrightarrow>
             LI u s' a' (w(t := own y)) z (observe spec a' gu)))"

lemma advance_stay [simp, intro]: "advance spec a g a g"
  by (simp add: advance_def)

lemma advance_lin [intro]: "spec op a = (a', r) \<Longrightarrow> advance spec a (Open op W) a' (Closed r)"
  by (auto simp: advance_def)

lemma step_okI:
  assumes "advance spec a g a' g'" and "SI (Suc n) s' a' (w(t := own y))"
    and "LI t s' a' (w(t := own y)) y g'"
    and "\<And>u z gu. u \<noteq> t \<Longrightarrow> w u = own z \<Longrightarrow> observed spec a gu \<Longrightarrow> LI u s a w z gu \<Longrightarrow>
             LI u s' a' (w(t := own y)) z (observe spec a' gu)"
  shows "step_ok spec own SI LI n t s a w g s' y"
  using assms unfolding step_ok_def by blast

text \<open>A step that leaves the shared state and the holdings of the thread alone disturbs nobody.\<close>

lemma step_ok_local:
  assumes "SI (Suc n) s a w" and "own y = w t" and "LI t s a w y g"
  shows "step_ok spec own SI LI n t s a w g s y"
proof (rule step_okI [where own = own and SI = SI and LI = LI])
  show "advance spec a g a g" by simp
  have w: "w(t := own y) = w" using assms(2) by auto
  then show "SI (Suc n) s a (w(t := own y))" "LI t s a (w(t := own y)) y g" using assms by simp_all
  fix u z gu assume "observed spec a gu" "LI u s a w z gu"
  then show "LI u s a (w(t := own y)) z (observe spec a gu)"
    by (simp add: w observe_observed)
qed

lemma observe_Open_cases:
  assumes "observed spec a g" and "g = Open op W" and "spec op a = (a, r)"
  shows "returns g r"
  using assms by (auto simp: legal_def)

lemma returns_observe: "returns g r \<Longrightarrow> returns (observe spec a g) r"
  by (cases g) auto

text \<open>
  \<open>own\<close> is what a control point privately holds (nodes not yet published, a lock, a retired
  node); the shared invariant \<open>SI\<close> and the local invariant \<open>LI\<close> may relate it to that of the
  other threads. Both may use the number \<open>n\<close> of steps of the run so far, which bounds the
  version counters; \<open>inb\<close> bounds the length of the runs considered (and holds what is assumed of the
  initial state).
\<close>

locale thread_object =
  fixes spec :: "('o, 'a, 'r) seq_spec"
    and a0 :: 'a
    and start :: "'o \<Rightarrow> 'l option"
    and exec :: "('s, 'l, 'r) exec"
    and s0 :: 's
    and own :: "('l, 'r) control \<Rightarrow> 'w"
    and inb :: "nat \<Rightarrow> bool"
    and SI :: "nat \<Rightarrow> 's \<Rightarrow> 'a \<Rightarrow> (tid \<Rightarrow> 'w) \<Rightarrow> bool"
    and LI :: "tid \<Rightarrow> 's \<Rightarrow> 'a \<Rightarrow> (tid \<Rightarrow> 'w) \<Rightarrow> ('l, 'r) control \<Rightarrow> ('o, 'r) ghost \<Rightarrow> bool"
  assumes inb_down: "inb (Suc n) \<Longrightarrow> inb n"
    and own_start: "start op = Some x \<Longrightarrow> own (At x) = own Idle"
    and own_finished: "own (Finished r) = own Idle"
    and SI_init: "inb 0 \<Longrightarrow> SI 0 s0 a0 (\<lambda>_. own Idle)"
    and SI_mono: "SI n s a w \<Longrightarrow> SI (Suc n) s a w"
    and LI_idle: "SI n s a w \<Longrightarrow> w t = own Idle \<Longrightarrow> LI t s a w Idle Quiet"
    and LI_call: "start op = Some x \<Longrightarrow> SI n s a w \<Longrightarrow> w t = own Idle \<Longrightarrow>
        LI t s a w (At x) (Open op (legal spec op a))"
    and LI_quiet: "LI t s a w Idle g \<Longrightarrow> g = Quiet"
    and LI_return: "LI t s a w (Finished r) g \<Longrightarrow> returns g r"
    and LI_safe: "inb n \<Longrightarrow> SI n s a w \<Longrightarrow> LI t s a w (At x) g \<Longrightarrow> w t = own (At x) \<Longrightarrow>
        exec t p s x \<noteq> Fault"
    and LI_step: "inb (Suc n) \<Longrightarrow> SI n s a w \<Longrightarrow> LI t s a w (At x) g \<Longrightarrow> observed spec a g \<Longrightarrow>
        w t = own (At x) \<Longrightarrow> exec t p s x = Next s' y \<Longrightarrow> step_ok spec own SI LI n t s a w g s' y"
begin

definition related :: "nat \<Rightarrow> ('s, 'l, 'r) config \<Rightarrow> 'a \<Rightarrow> (tid \<Rightarrow> ('o, 'r) ghost) \<Rightarrow> bool" where
  "related n k a g \<longleftrightarrow> SI n (fst k) a (own \<circ> snd k) \<and>
     (\<forall>t. LI t (fst k) a (own \<circ> snd k) (snd k t) (g t) \<and> observed spec a (g t))"

lemma own_update: "own \<circ> c(t := y) = (own \<circ> c)(t := own y)"
  by (auto simp: fun_eq_iff)

lemma related_call:
  assumes rel: "related n (s, c) a g" and c: "c t = Idle" and x: "start op = Some x"
  shows "\<exists>a' g'. monitor spec (a, g) t (Some (Call op)) (a', g') \<and> related (Suc n) (s, c(t := At x)) a' g'"
proof -
  have w: "own \<circ> c(t := At x) = own \<circ> c"
    using own_start [OF x] c by (auto simp: fun_eq_iff)
  have SI: "SI n s a (own \<circ> c)" and LI: "\<And>u. LI u s a (own \<circ> c) (c u) (g u)"
    and obs: "\<And>u. observed spec a (g u)"
    using rel by (auto simp: related_def)
  have "g t = Quiet" using LI [of t] c LI_quiet by simp
  then have "monitor spec (a, g) t (Some (Call op)) (a, g(t := Open op (legal spec op a)))"
    by (rule monitor.mon_call)
  moreover have "LI t s a (own \<circ> c) (At x) (Open op (legal spec op a))"
    using LI_call [OF x SI] c by simp
  then have "related (Suc n) (s, c(t := At x)) a (g(t := Open op (legal spec op a)))"
    using SI_mono [OF SI] LI obs by (auto simp: related_def w)
  ultimately show ?thesis by blast
qed

lemma related_return:
  assumes rel: "related n (s, c) a g" and c: "c t = Finished r"
  shows "\<exists>a' g'. monitor spec (a, g) t (Some (Return r)) (a', g') \<and> related (Suc n) (s, c(t := Idle)) a' g'"
proof -
  have w: "own \<circ> c(t := Idle) = own \<circ> c"
    using own_finished [of r] c by (auto simp: fun_eq_iff)
  have SI: "SI n s a (own \<circ> c)" and LI: "\<And>u. LI u s a (own \<circ> c) (c u) (g u)"
    and obs: "\<And>u. observed spec a (g u)"
    using rel by (auto simp: related_def)
  have "returns (g t) r" using LI [of t] c LI_return by simp
  then have "monitor spec (a, g) t (Some (Return r)) (a, g(t := Quiet))"
    by (rule monitor.mon_return)
  moreover have "LI t s a (own \<circ> c) Idle Quiet"
    using LI_idle [OF SI] c own_finished by simp
  then have "related (Suc n) (s, c(t := Idle)) a (g(t := Quiet))"
    using SI_mono [OF SI] LI obs by (auto simp: related_def w)
  ultimately show ?thesis by blast
qed

lemma related_exec:
  assumes rel: "related n (s, c) a g" and c: "c t = At x" and ex: "exec t p s x = Next s' y"
    and inb: "inb (Suc n)"
  shows "\<exists>a' g'. monitor spec (a, g) t None (a', g') \<and> related (Suc n) (s', c(t := y)) a' g'"
proof -
  let ?w = "own \<circ> c"
  have SI: "SI n s a ?w" and LI: "\<And>u. LI u s a ?w (c u) (g u)" and obs: "\<And>u. observed spec a (g u)"
    using rel by (auto simp: related_def)
  have ct: "?w t = own (At x)" "LI t s a ?w (At x) (g t)"
    using LI [of t] c by auto
  from LI_step [OF inb SI ct(2) obs ct(1) ex]
  obtain a' g' where adv: "advance spec a (g t) a' g'"
    and SI': "SI (Suc n) s' a' (?w(t := own y))" and LIt: "LI t s' a' (?w(t := own y)) y g'"
    and st: "\<forall>u z gu. u \<noteq> t \<longrightarrow> ?w u = own z \<longrightarrow> observed spec a gu \<longrightarrow> LI u s a ?w z gu \<longrightarrow>
               LI u s' a' (?w(t := own y)) z (observe spec a' gu)"
    unfolding step_ok_def by blast
  have LIu: "LI u s' a' (?w(t := own y)) (c u) (observe spec a' (g u))" if "u \<noteq> t" for u
    using st that LI [of u] obs [of u] by simp
  let ?g = "\<lambda>u. if u = t then g' else observe spec a' (g u)"
  have "monitor spec (a, g) t None (a', ?g)"
    using adv unfolding advance_def
  proof
    assume "a' = a \<and> g' = g t"
    moreover from this have "?g = g" using obs by (auto simp: fun_eq_iff observe_observed)
    ultimately show ?thesis by (simp add: monitor.mon_tau)
  next
    assume "\<exists>op W r. g t = Open op W \<and> spec op a = (a', r) \<and> g' = Closed r"
    then show ?thesis using monitor.mon_lin [of g t _ _ spec a a'] by auto
  qed
  moreover have "observed spec a' g'"
    using adv obs [of t] by (auto simp: advance_def)
  then have "related (Suc n) (s', c(t := y)) a' ?g"
    using SI' LIt LIu by (simp add: related_def own_update)
  ultimately show ?thesis by blast
qed

lemma related_step:
  assumes "related n k a g" and "thread_step start exec k t l k'" and "inb (Suc n)"
  shows "\<exists>a' g'. monitor spec (a, g) t l (a', g') \<and> related (Suc n) k' a' g'"
  using assms(2)
proof (cases rule: thread_step.cases)
  case step_call
  then show ?thesis using related_call assms(1) by simp
next
  case step_exec
  then show ?thesis using related_exec assms by simp
next
  case step_return
  then show ?thesis using related_return assms(1) by simp
qed

lemma run_related:
  assumes "run start exec s0 n h k" and "inb n"
  shows "\<exists>a g. monitor_run spec a0 h (a, g) \<and> related n k a g"
  using assms
proof (induction rule: run.induct)
  case run_nil
  have "related 0 (s0, \<lambda>_. Idle) a0 (\<lambda>_. Quiet)"
    using SI_init [OF run_nil] LI_idle [OF SI_init [OF run_nil]] by (auto simp: related_def comp_def)
  with monitor_run.monr_nil [of spec a0] show ?case by (intro exI conjI)
next
  case (run_tau n h k t k')
  then obtain a g where "monitor_run spec a0 h (a, g)" "related n k a g"
    using inb_down by blast
  with related_step run_tau show ?case by (blast intro: monitor_run.monr_tau)
next
  case (run_ext n h k t e k')
  then obtain a g where "monitor_run spec a0 h (a, g)" "related n k a g"
    using inb_down by blast
  with related_step run_ext show ?case by (blast intro: monitor_run.monr_ext)
qed

text \<open>Every run is linearizable.\<close>

theorem linearizable:
  assumes "run start exec s0 n h k" and "inb n"
  shows "linearizable spec a0 h"
proof -
  from run_related [OF assms] obtain a g where "monitor_run spec a0 h (a, g)" by blast
  then show ?thesis by (rule monitor_run_linearizable)
qed

text \<open>No thread faults.\<close>

theorem no_fault:
  assumes "run start exec s0 n h (s, c)" and "inb n" and "c t = At x"
  shows "exec t p s x \<noteq> Fault"
proof -
  from run_related [OF assms(1,2)] obtain a g where "related n (s, c) a g" by blast
  then have "SI n s a (own \<circ> c)" "LI t s a (own \<circ> c) (At x) (g t)"
    using assms(3) by (auto simp: related_def dest: spec [of _ t])
  with LI_safe assms show ?thesis by simp
qed

text \<open>In every reachable state the shared invariant holds for the abstract value that the
  linearization of the history so far leads to.\<close>

theorem reachable_SI:
  assumes "run start exec s0 n h (s, c)" and "inb n"
  shows "\<exists>a. linearizes_to spec a0 h a \<and> SI n s a (own \<circ> c)"
proof -
  from run_related [OF assms] obtain a g where "monitor_run spec a0 h (a, g)" "related n (s, c) a g"
    by blast
  then show ?thesis
    using monitor_run_linearizes_to [of spec a0 h "(a, g)"] by (auto simp: related_def)
qed

text \<open>In every reachable state the local invariants of all threads hold together.\<close>

theorem reachable_LI:
  assumes "run start exec s0 n h (s, c)" and "inb n"
  shows "\<exists>a g. SI n s a (own \<circ> c) \<and> (\<forall>t. LI t s a (own \<circ> c) (c t) (g t))"
proof -
  from run_related [OF assms] obtain a g where "related n (s, c) a g" by blast
  then show ?thesis unfolding related_def by auto
qed

end

text \<open>For objects that are not specified by a sequential data type (the locks): the only thing that
  is said of an operation is that it returns.\<close>

definition no_spec :: "('o, unit, unit) seq_spec" where
  "no_spec op a = ((), ())"

lemma no_spec_simps [simp]: "no_spec op a = ((), ())" "legal no_spec op a = {()}"
  by (auto simp: no_spec_def legal_def)

text \<open>Long stretches of steps of one thread, in the runs exhibited by the witnesses.\<close>

lemma replicate_binary:
  "replicate (numeral num.One) x = [x]"
  "replicate (numeral (num.Bit0 k)) x = replicate (numeral k) x @ replicate (numeral k) x"
  "replicate (numeral (num.Bit1 k)) x = replicate (numeral k) x @ replicate (numeral k) x @ [x]"
  by (simp_all only: numeral.simps replicate_add) simp_all

abbreviation steps_of :: "tid \<Rightarrow> nat \<Rightarrow> 'o command list" where
  "steps_of t k \<equiv> replicate k (Do_Step t 0)"

end
