(* ===== verification/Ownership.thy ===== *)
theory Ownership
  imports Thread_Objects
begin

text \<open>
  What a thread holds for itself at a control point: nodes it has allocated and not yet published,
  nodes it has unlinked and not yet released, and locks. The invariants of the structures are
  stated over these sets: the nodes of the structure, those owned by the threads and those released
  are disjoint (\<open>partition_ok\<close>), and a lock is held by exactly the thread that claims it
  (\<open>locks_ok\<close>). The lemmas say how allocation, publication, unlinking, release and locking move
  nodes and locks between these sets; the components' invariant proofs rest on them.
\<close>

section \<open>Nodes\<close>

record 'k ownership =
  private_nodes :: "ptr set"
  retired_nodes :: "ptr set"
  held :: "'k set"

abbreviation holding :: "ptr set \<Rightarrow> ptr set \<Rightarrow> 'k set \<Rightarrow> 'k ownership" where
  "holding P R H \<equiv> \<lparr>private_nodes = P, retired_nodes = R, held = H\<rparr>"

abbreviation none_owned :: "'k ownership" where
  "none_owned \<equiv> holding {} {} {}"

definition owned :: "'k ownership \<Rightarrow> ptr set" where
  "owned w = private_nodes w \<union> retired_nodes w"

lemma owned_simps [simp]: "owned (holding P R H) = P \<union> R"
  by (simp add: owned_def)

lemma private_owned [intro]: "p \<in> private_nodes w \<Longrightarrow> p \<in> owned w"
  by (simp add: owned_def)

lemma retired_owned [intro]: "p \<in> retired_nodes w \<Longrightarrow> p \<in> owned w"
  by (simp add: owned_def)

definition partition_ok :: "'n store \<Rightarrow> ptr set \<Rightarrow> (tid \<Rightarrow> 'k ownership) \<Rightarrow> bool" where
  "partition_ok m L w \<longleftrightarrow>
     (\<forall>t p. p \<in> owned (w t) \<longrightarrow> p \<notin> L \<and> p \<notin> released m \<and> cells m p \<noteq> None) \<and>
     (\<forall>t u p. p \<in> owned (w t) \<longrightarrow> p \<in> owned (w u) \<longrightarrow> t = u) \<and>
     (\<forall>p. p \<in> L \<longrightarrow> p \<notin> released m \<and> cells m p \<noteq> None) \<and>
     (\<forall>p. p \<in> released m \<longrightarrow> cells m p \<noteq> None) \<and> cells m NULL = None"

lemma partition_live:
  "partition_ok m L w \<Longrightarrow> p \<in> L \<Longrightarrow> p \<noteq> NULL \<and> p \<notin> owned (w t) \<and> p \<notin> released m \<and> cells m p \<noteq> None"
  unfolding partition_ok_def by metis

lemma partition_owned:
  "partition_ok m L w \<Longrightarrow> p \<in> owned (w t) \<Longrightarrow>
     p \<noteq> NULL \<and> p \<notin> L \<and> p \<notin> released m \<and> cells m p \<noteq> None \<and> (u \<noteq> t \<longrightarrow> p \<notin> owned (w u))"
  unfolding partition_ok_def by metis

lemma partition_fresh:
  "partition_ok m L w \<Longrightarrow> fresh (cells m) p \<Longrightarrow> p \<notin> L \<and> p \<notin> owned (w t) \<and> p \<notin> released m"
  unfolding partition_ok_def fresh_def by metis

lemma partition_NULL [simp]: "partition_ok m L w \<Longrightarrow> cells m NULL = None"
  unfolding partition_ok_def by blast

lemma partition_init: "cells m NULL = None \<Longrightarrow> released m = {} \<Longrightarrow> (\<And>p. p \<in> L \<Longrightarrow> cells m p \<noteq> None) \<Longrightarrow>
    partition_ok m L (\<lambda>_. none_owned)"
  unfolding partition_ok_def by auto

lemma partition_keep:
  assumes "partition_ok m L w" and "owned x \<subseteq> owned (w t)"
  shows "partition_ok m L (w(t := x))"
  using assms unfolding partition_ok_def by (intro conjI) (auto split: if_splits; blast)+

lemma partition_allocate:
  assumes "partition_ok m L w" and "fresh (cells m) p" and "owned x \<subseteq> insert p (owned (w t))"
  shows "partition_ok (put_cell p n m) L (w(t := x))"
proof -
  have pn: "p \<notin> L" "\<And>u. p \<notin> owned (w u)" "p \<notin> released m" "p \<noteq> NULL"
    using partition_fresh [OF assms(1,2)] assms(2) by (auto simp: fresh_def)
  with assms(1,3) show ?thesis
    unfolding partition_ok_def by (intro conjI) (auto split: if_splits; blast)+
qed

lemma partition_publish:
  assumes "partition_ok m L w" and "p \<in> owned (w t)" and "owned x \<subseteq> owned (w t) - {p}"
  shows "partition_ok m (insert p L) (w(t := x))"
  using assms unfolding partition_ok_def by (intro conjI) (auto split: if_splits; blast)+

lemma partition_retire:
  assumes "partition_ok m L w" and "p \<in> L" and "owned x \<subseteq> insert p (owned (w t))"
  shows "partition_ok m (L - {p}) (w(t := x))"
  using assms unfolding partition_ok_def by (intro conjI) (auto split: if_splits; blast)+

lemma partition_unlink:
  assumes "partition_ok m L w" and "L' \<subseteq> L"
  shows "partition_ok m L' w"
  using assms unfolding partition_ok_def by (intro conjI) blast+

lemma partition_release:
  assumes "partition_ok m L w" and "p \<in> owned (w t)" and "owned x \<subseteq> owned (w t) - {p}"
  shows "partition_ok (m\<lparr>released := insert p (released m)\<rparr>) L (w(t := x))"
  using assms unfolding partition_ok_def by (intro conjI) (auto split: if_splits; blast)+

lemma partition_write:
  assumes "partition_ok m L w" and "cells m p \<noteq> None"
  shows "partition_ok (put_cell p n m) L w"
  using assms unfolding partition_ok_def by (intro conjI) (auto split: if_splits)+

text \<open>A node that is allocated and is no thread's private node.\<close>

definition published :: "'n store \<Rightarrow> (tid \<Rightarrow> 'k ownership) \<Rightarrow> ptr \<Rightarrow> bool" where
  "published m w p \<longleftrightarrow> cells m p \<noteq> None \<and> (\<forall>u. p \<notin> private_nodes (w u))"

lemma published_live: "partition_ok m L w \<Longrightarrow> p \<in> L \<Longrightarrow> published m w p"
  using partition_live [of m L w p] unfolding published_def by blast

lemma published_cell: "published m w p \<Longrightarrow> \<exists>n. cells m p = Some n"
  by (auto simp: published_def)

lemma published_put_cell:
  assumes "cells m p \<noteq> None" and "private_nodes x = private_nodes (w t)"
  shows "published (put_cell p n m) (w(t := x)) q \<longleftrightarrow> published m w q"
proof -
  have "private_nodes ((w(t := x)) u) = private_nodes (w u)" for u using assms(2) by simp
  then show ?thesis using assms(1) unfolding published_def by auto
qed

lemma published_alloc_cell:
  assumes "cells m p = None" and "\<And>u. p \<notin> private_nodes (w u)" and "private_nodes x = insert p (private_nodes (w t))"
  shows "published (put_cell p n m) (w(t := x)) q \<longleftrightarrow> published m w q"
proof (cases "q = p")
  case True
  then show ?thesis using assms unfolding published_def by auto
next
  case False
  then have "q \<in> private_nodes ((w(t := x)) u) \<longleftrightarrow> q \<in> private_nodes (w u)" for u using assms(3) by simp
  then show ?thesis using False unfolding published_def by simp
qed

lemma published_put_new:
  assumes "cells m p \<noteq> None" and "private_nodes x = private_nodes (w t) - {r}"
    and "published (put_cell p n m) (w(t := x)) q"
  shows "published m w q \<or> q = r"
proof -
  have "private_nodes (w u) - {r} \<subseteq> private_nodes ((w(t := x)) u)" for u using assms(2) by auto
  then have "q \<notin> private_nodes (w u)" if "q \<noteq> r" for u using assms(3) that unfolding published_def by blast
  moreover have "cells m q \<noteq> None" using assms(1,3) unfolding published_def by (cases "q = p") simp_all
  ultimately show ?thesis unfolding published_def by blast
qed

section \<open>Locks\<close>

definition locks_ok :: "('k \<Rightarrow> tid option) \<Rightarrow> (tid \<Rightarrow> 'k ownership) \<Rightarrow> bool" where
  "locks_ok lk w \<longleftrightarrow> (\<forall>t k. k \<in> held (w t) \<longleftrightarrow> lk k = Some t)"

lemma locks_exclusive: "locks_ok lk w \<Longrightarrow> k \<in> held (w t) \<Longrightarrow> u \<noteq> t \<Longrightarrow> k \<notin> held (w u)"
  by (auto simp: locks_ok_def)

lemma locks_keep: "locks_ok lk w \<Longrightarrow> held x = held (w t) \<Longrightarrow> locks_ok lk (w(t := x))"
  by (auto simp: locks_ok_def)

lemma locks_acquire:
  "locks_ok lk w \<Longrightarrow> lk k = None \<Longrightarrow> held x = insert k (held (w t)) \<Longrightarrow> locks_ok (lk(k := Some t)) (w(t := x))"
  by (auto simp: locks_ok_def)

lemma locks_release:
  "locks_ok lk w \<Longrightarrow> k \<in> held (w t) \<Longrightarrow> held x = held (w t) - {k} \<Longrightarrow> locks_ok (lk(k := None)) (w(t := x))"
  by (auto simp: locks_ok_def)

lemma locks_init: "(\<And>k. lk k = None) \<Longrightarrow> locks_ok lk (\<lambda>_. none_owned)"
  by (auto simp: locks_ok_def)

text \<open>A structure with a single lock.\<close>

lemma lock_same: "locks_ok (\<lambda>_::unit. l) w \<Longrightarrow> held x = held (w t) \<Longrightarrow> locks_ok (\<lambda>_. l) (w(t := x))"
  by (rule locks_keep)

lemma lock_taken: "locks_ok (\<lambda>_::unit. l) w \<Longrightarrow> l = None \<Longrightarrow> held x = {()} \<Longrightarrow> locks_ok (\<lambda>_. Some t) (w(t := x))"
  by (auto simp: locks_ok_def)

lemma lock_freed: "locks_ok (\<lambda>_::unit. l) w \<Longrightarrow> held (w t) = {()} \<Longrightarrow> held x = {} \<Longrightarrow> locks_ok (\<lambda>_. None) (w(t := x))"
  by (auto simp: locks_ok_def split: if_splits)

lemma lock_holder: "locks_ok (\<lambda>_::unit. l) w \<Longrightarrow> held (w t) = {()} \<longleftrightarrow> l = Some t"
  by (auto simp: locks_ok_def)

end
