(* ===== verification/Stack_Queue_Spec.thy ===== *)
theory Stack_Queue_Spec
  imports Ownership
begin

text \<open>
  The interface \<^verbatim>\<open>StackQueue\<close> of \<^verbatim>\<open>src/stack_queue.h\<close> (\<^verbatim>\<open>add\<close>, \<^verbatim>\<open>remove\<close>, \<^verbatim>\<open>count\<close>), its nodes
  (\<^verbatim>\<open>src/aux/stackqueue_node.h\<close> and the padded variant, which differ only in their size), the
  sequential specifications of a stack and of a FIFO queue, and the atomic operations of
  \<^verbatim>\<open>include/atomic_ops_if.h\<close> that the implementations use.
\<close>

section \<open>Atomic operations\<close>

text \<open>\<open>CAS_val cur old new\<close> is the compare-and-swap on a location that holds \<open>cur\<close>: the value
  returned (the previous content) and the new content. The boolean variant is
  \<^verbatim>\<open>CAS_U64_bool\<close>, which \<^verbatim>\<open>ATOMIC_CAS_MB\<close> expands to.\<close>

definition CAS_val :: "'a \<Rightarrow> 'a \<Rightarrow> 'a \<Rightarrow> 'a \<times> 'a" where
  "CAS_val cur old new = (cur, if cur = old then new else cur)"

definition CAS_bool :: "'a \<Rightarrow> 'a \<Rightarrow> 'a \<Rightarrow> bool \<times> 'a" where
  "CAS_bool cur old new = (let (v, cur') = CAS_val cur old new in (old = v, cur'))"

lemma CAS_val_eq [simp]: "CAS_val cur old new = (cur, if cur = old then new else cur)"
  by (simp add: CAS_val_def)

lemma CAS_bool_eq [simp]: "CAS_bool cur old new = (cur = old, if cur = old then new else cur)"
  by (auto simp: CAS_bool_def CAS_val_def)

section \<open>Operations and specifications\<close>

datatype 'v sq_op = Add 'v | Remove

datatype 'v sq_ret = RetInt int | RetVal 'v

text \<open>A stack or queue of values of type \<^verbatim>\<open>T\<close> answers \<^verbatim>\<open>0\<close> when it is empty.\<close>

fun stack_spec :: "('v::zero sq_op, 'v list, 'v sq_ret) seq_spec" where
  "stack_spec (Add v) a = (v # a, RetInt 1)"
| "stack_spec Remove [] = ([], RetVal 0)"
| "stack_spec Remove (x # xs) = (xs, RetVal x)"

fun queue_spec :: "('v::zero sq_op, 'v list, 'v sq_ret) seq_spec" where
  "queue_spec (Add v) a = (a @ [v], RetInt 1)"
| "queue_spec Remove [] = ([], RetVal 0)"
| "queue_spec Remove (x # xs) = (xs, RetVal x)"

section \<open>Nodes\<close>

record 'v sq_node =
  item :: 'v
  nxt :: ptr

definition allocate_stackqueue_node :: "'v \<Rightarrow> ptr \<Rightarrow> 'v sq_node" where
  "allocate_stackqueue_node v p = \<lparr>item = v, nxt = p\<rparr>"

definition allocate_stackqueue_node_padded :: "'v \<Rightarrow> ptr \<Rightarrow> 'v sq_node" where
  "allocate_stackqueue_node_padded v p = \<lparr>item = v, nxt = p\<rparr>"

definition release_stackqueue_node :: "'v sq_node store \<Rightarrow> ptr \<Rightarrow>
    ('v sq_node store \<Rightarrow> ('s, 'l, 'r) outcome) \<Rightarrow> ('s, 'l, 'r) outcome" where
  "release_stackqueue_node m p k = release m p k"

definition release_stackqueue_node_padded :: "'v sq_node store \<Rightarrow> ptr \<Rightarrow>
    ('v sq_node store \<Rightarrow> ('s, 'l, 'r) outcome) \<Rightarrow> ('s, 'l, 'r) outcome" where
  "release_stackqueue_node_padded m p k = release m p k"

lemmas sq_node_defs = allocate_stackqueue_node_def allocate_stackqueue_node_padded_def
  release_stackqueue_node_def release_stackqueue_node_padded_def

abbreviation items :: "(ptr \<Rightarrow> 'v sq_node option) \<Rightarrow> ptr list \<Rightarrow> 'v list" where
  "items h ps \<equiv> map (\<lambda>p. item (the (h p))) ps"

lemma items_update [simp]: "p \<notin> set ps \<Longrightarrow> items (h(p := v)) ps = items h ps"
  by (induction ps) auto

section \<open>Counting\<close>

text \<open>The traversal of \<^verbatim>\<open>count()\<close>: \<open>None\<close> when it does not come to an end or dereferences a
  pointer that is not an object.\<close>

partial_function (option) count_nodes :: "(ptr \<Rightarrow> 'n option) \<Rightarrow> ('n \<Rightarrow> ptr) \<Rightarrow> ptr \<Rightarrow> int \<Rightarrow> int option" where
  "count_nodes h nx tmp count =
     (if tmp \<noteq> NULL
      then (case h tmp of None \<Rightarrow> None | Some n \<Rightarrow> count_nodes h nx (nx n) (count + 1))
      else Some count)"

lemma count_nodes_path:
  "path h nx p ps NULL \<Longrightarrow> count_nodes h nx p c = Some (c + int (length ps))"
proof (induction ps arbitrary: p c)
  case Nil
  then show ?case by (simp add: count_nodes.simps)
next
  case (Cons x xs)
  from Cons.prems obtain n where "p = x" "x \<noteq> NULL" "h x = Some n" "path h nx (nx n) xs NULL"
    by auto
  with Cons.IH [of "nx n" "c + 1"] show ?case
    by (subst count_nodes.simps) simp
qed

end
