(* ===== verification/Stack_Treiber.thy ===== *)
theory Stack_Treiber
  imports Stack_Queue_Spec
begin

text \<open>
  Treiber's lock-free stack, \<^verbatim>\<open>src/algorithms/stack_treiber.h\<close>: the step functions of \<^verbatim>\<open>add\<close> and
  \<^verbatim>\<open>remove\<close> (one shared access per step, the compare-and-swap loops included), \<^verbatim>\<open>count\<close>, the
  invariant that ties the linked nodes to the abstract stack, and linearizability.
\<close>

section \<open>The code\<close>

record 'v treiber =
  tr_top :: ptr
  tr_mem :: "'v sq_node store"

definition treiber_init :: "'v treiber" where
  "treiber_init = \<lparr>tr_top = NULL, tr_mem = empty_store\<rparr>"

datatype 'v treiber_add_pc =
    TA_Alloc 'v          \<comment> \<open>allocate the node\<close>
  | TA_Read ptr          \<comment> \<open>\<^verbatim>\<open>top = set->top\<close>\<close>
  | TA_Link ptr ptr      \<comment> \<open>\<^verbatim>\<open>node->next = top\<close>\<close>
  | TA_CAS ptr ptr       \<comment> \<open>\<^verbatim>\<open>CAS_PTR(&set->top, top, node)\<close>\<close>

datatype 'v treiber_remove_pc =
    TR_Read              \<comment> \<open>\<^verbatim>\<open>top = set->top\<close> and the test for \<^verbatim>\<open>NULL\<close>\<close>
  | TR_Next ptr          \<comment> \<open>evaluate \<^verbatim>\<open>top->next\<close>\<close>
  | TR_CAS ptr ptr       \<comment> \<open>\<^verbatim>\<open>CAS_PTR(&set->top, top, top->next)\<close>\<close>
  | TR_Item ptr          \<comment> \<open>\<^verbatim>\<open>val = top->item\<close>\<close>
  | TR_Free ptr 'v       \<comment> \<open>release the node, return \<^verbatim>\<open>val\<close>\<close>

datatype 'v treiber_pc = TAdd "'v treiber_add_pc" | TRemove "'v treiber_remove_pc"

type_synonym 'v treiber_outcome = "('v treiber, 'v treiber_pc, 'v sq_ret) outcome"

fun treiber_add :: "ptr \<Rightarrow> 'v treiber \<Rightarrow> 'v treiber_add_pc \<Rightarrow> 'v treiber_outcome" where
  "treiber_add p s (TA_Alloc v) =
     alloc (cells (tr_mem s)) p
       (Next (s\<lparr>tr_mem := put_cell p (allocate_stackqueue_node_padded v NULL) (tr_mem s)\<rparr>)
          (At (TAdd (TA_Read p))))"
| "treiber_add p s (TA_Read node) = Next s (At (TAdd (TA_Link node (tr_top s))))"
| "treiber_add p s (TA_Link node tp) =
     deref (cells (tr_mem s)) node (\<lambda>n.
       Next (s\<lparr>tr_mem := put_cell node (n\<lparr>nxt := tp\<rparr>) (tr_mem s)\<rparr>) (At (TAdd (TA_CAS node tp))))"
| "treiber_add p s (TA_CAS node tp) =
     (let (old, top') = CAS_val (tr_top s) tp node
      in Next (s\<lparr>tr_top := top'\<rparr>)
           (if old = tp then Finished (RetInt 1) else At (TAdd (TA_Read node))))"

fun treiber_remove :: "'v::zero treiber \<Rightarrow> 'v treiber_remove_pc \<Rightarrow> 'v treiber_outcome" where
  "treiber_remove s TR_Read =
     (if tr_top s = NULL then Next s (Finished (RetVal 0))
      else Next s (At (TRemove (TR_Next (tr_top s)))))"
| "treiber_remove s (TR_Next tp) =
     deref (cells (tr_mem s)) tp (\<lambda>n. Next s (At (TRemove (TR_CAS tp (nxt n)))))"
| "treiber_remove s (TR_CAS tp next) =
     (let (old, top') = CAS_val (tr_top s) tp next
      in Next (s\<lparr>tr_top := top'\<rparr>)
           (if old = tp then At (TRemove (TR_Item tp)) else At (TRemove TR_Read)))"
| "treiber_remove s (TR_Item tp) =
     deref (cells (tr_mem s)) tp (\<lambda>n. Next s (At (TRemove (TR_Free tp (item n)))))"
| "treiber_remove s (TR_Free tp val) =
     release_stackqueue_node_padded (tr_mem s) tp (\<lambda>m. Next (s\<lparr>tr_mem := m\<rparr>) (Finished (RetVal val)))"

definition treiber_count :: "'v treiber \<Rightarrow> int option" where
  "treiber_count s = count_nodes (cells (tr_mem s)) nxt (tr_top s) 0"

fun treiber_start :: "'v sq_op \<Rightarrow> 'v treiber_pc option" where
  "treiber_start (Add v) = Some (TAdd (TA_Alloc v))"
| "treiber_start Remove = Some (TRemove TR_Read)"

fun treiber_exec :: "tid \<Rightarrow> ptr \<Rightarrow> 'v::zero treiber \<Rightarrow> 'v treiber_pc \<Rightarrow> 'v treiber_outcome" where
  "treiber_exec t p s (TAdd x) = treiber_add p s x"
| "treiber_exec t p s (TRemove x) = treiber_remove s x"

section \<open>The invariant\<close>

fun treiber_own :: "('v treiber_pc, 'v sq_ret) control \<Rightarrow> unit ownership" where
  "treiber_own (At (TAdd (TA_Read p))) = holding {p} {} {}"
| "treiber_own (At (TAdd (TA_Link p q))) = holding {p} {} {}"
| "treiber_own (At (TAdd (TA_CAS p q))) = holding {p} {} {}"
| "treiber_own (At (TRemove (TR_Item p))) = holding {} {p} {}"
| "treiber_own (At (TRemove (TR_Free p v))) = holding {} {p} {}"
| "treiber_own _ = none_owned"

definition treiber_SI :: "nat \<Rightarrow> 'v treiber \<Rightarrow> 'v list \<Rightarrow> (tid \<Rightarrow> unit ownership) \<Rightarrow> bool" where
  "treiber_SI n s a w \<longleftrightarrow> (\<exists>ps. path (cells (tr_mem s)) nxt (tr_top s) ps NULL \<and>
     items (cells (tr_mem s)) ps = a \<and> partition_ok (tr_mem s) (set ps) w)"

fun treiber_LI :: "tid \<Rightarrow> 'v::zero treiber \<Rightarrow> 'v list \<Rightarrow> (tid \<Rightarrow> unit ownership) \<Rightarrow>
    ('v treiber_pc, 'v sq_ret) control \<Rightarrow> ('v sq_op, 'v sq_ret) ghost \<Rightarrow> bool" where
  "treiber_LI t s a w Idle g = (g = Quiet)"
| "treiber_LI t s a w (Finished r) g = returns g r"
| "treiber_LI t s a w (At (TAdd (TA_Alloc v))) g = (\<exists>W. g = Open (Add v) W)"
| "treiber_LI t s a w (At (TAdd (TA_Read p))) g =
     (\<exists>n W. cells (tr_mem s) p = Some n \<and> g = Open (Add (item n)) W)"
| "treiber_LI t s a w (At (TAdd (TA_Link p q))) g =
     (\<exists>n W. cells (tr_mem s) p = Some n \<and> g = Open (Add (item n)) W)"
| "treiber_LI t s a w (At (TAdd (TA_CAS p q))) g =
     (\<exists>n W. cells (tr_mem s) p = Some n \<and> g = Open (Add (item n)) W \<and> nxt n = q)"
| "treiber_LI t s a w (At (TRemove TR_Read)) g = (\<exists>W. g = Open Remove W)"
| "treiber_LI t s a w (At (TRemove (TR_Next p))) g =
     (\<exists>W. g = Open Remove W \<and> p \<noteq> NULL \<and> published (tr_mem s) w p)"
| "treiber_LI t s a w (At (TRemove (TR_CAS p q))) g =
     (\<exists>n W. g = Open Remove W \<and> p \<noteq> NULL \<and> published (tr_mem s) w p \<and>
        cells (tr_mem s) p = Some n \<and> nxt n = q)"
| "treiber_LI t s a w (At (TRemove (TR_Item p))) g =
     (\<exists>n. cells (tr_mem s) p = Some n \<and> g = Closed (RetVal (item n)))"
| "treiber_LI t s a w (At (TRemove (TR_Free p v))) g = (g = Closed (RetVal v))"

text \<open>Another thread's local invariant survives a step that changes only nodes that are private to
  the stepping thread.\<close>

lemma treiber_LI_frame:
  assumes LI: "treiber_LI u s a w z g" and own: "w u = treiber_own z" and ut: "u \<noteq> t"
    and part: "partition_ok (tr_mem s) L w"
    and diff: "\<And>q. cells (tr_mem s') q \<noteq> cells (tr_mem s) q \<Longrightarrow>
        cells (tr_mem s) q = None \<or> q \<in> private_nodes (w t)"
    and priv: "\<And>q. q \<in> private_nodes x \<Longrightarrow> cells (tr_mem s) q = None \<or> q \<in> private_nodes (w t)"
  shows "treiber_LI u s' a' (w(t := x)) z (observe stack_spec a' g)"
proof -
  have keep: "cells (tr_mem s') q = cells (tr_mem s) q" if q: "q \<in> owned (w u)" for q
    using diff [of q] partition_owned [OF part q, of t] ut by blast
  have pub: "published (tr_mem s') (w(t := x)) q \<and> cells (tr_mem s') q = cells (tr_mem s) q"
    if "published (tr_mem s) w q" for q
    using that diff [of q] priv [of q] unfolding published_def by (metis fun_upd_apply)
  show ?thesis
    using LI own keep pub
    by (cases "(u, s, a, w, z, g)" rule: treiber_LI.cases) (auto simp: returns_observe)
qed

lemma treiber_step_ok:
  assumes "advance stack_spec a g a' g'" and "treiber_SI (Suc n) s' a' (w(t := treiber_own y))"
    and "treiber_LI t s' a' (w(t := treiber_own y)) y g'"
    and "partition_ok (tr_mem s) L w"
    and "\<And>q. cells (tr_mem s') q \<noteq> cells (tr_mem s) q \<Longrightarrow>
        cells (tr_mem s) q = None \<or> q \<in> private_nodes (w t)"
    and "\<And>q. q \<in> private_nodes (treiber_own y) \<Longrightarrow> cells (tr_mem s) q = None \<or> q \<in> private_nodes (w t)"
  shows "step_ok stack_spec treiber_own treiber_SI treiber_LI n t s a w g s' y"
proof (rule step_okI [where own = treiber_own and SI = treiber_SI and LI = treiber_LI])
  fix u z gu
  assume "u \<noteq> t" "w u = treiber_own z" "treiber_LI u s a w z gu"
  then show "treiber_LI u s' a' (w(t := treiber_own y)) z (observe stack_spec a' gu)"
    using assms(4-6) by (intro treiber_LI_frame) blast+
qed (fact assms)+

lemmas treiber_local = step_ok_local [where own = treiber_own and SI = treiber_SI and LI = treiber_LI]

lemma treiber_SI_mono: "treiber_SI n s a w \<Longrightarrow> treiber_SI (Suc n) s a w"
  by (simp add: treiber_SI_def)

lemma treiber_SI_E:
  assumes "treiber_SI n s a w"
  obtains ps where "path (cells (tr_mem s)) nxt (tr_top s) ps NULL"
    and "items (cells (tr_mem s)) ps = a" and "partition_ok (tr_mem s) (set ps) w"
  using assms by (auto simp: treiber_SI_def)

lemma treiber_add_step:
  assumes SI: "treiber_SI n s a w" and LI: "treiber_LI t s a w (At (TAdd x)) g"
    and own: "w t = treiber_own (At (TAdd x))" and ex: "treiber_add p s x = Next s' y"
  shows "step_ok stack_spec treiber_own treiber_SI treiber_LI n t s a w g s' y"
proof -
  from SI obtain ps where ps: "path (cells (tr_mem s)) nxt (tr_top s) ps NULL"
      "items (cells (tr_mem s)) ps = a" and part: "partition_ok (tr_mem s) (set ps) w"
    by (rule treiber_SI_E)
  note glob = treiber_step_ok [OF _ _ _ part] and loc = treiber_local [OF treiber_SI_mono [OF SI]]
  show ?thesis
  proof (cases x)
    case (TA_Alloc v)
    from ex TA_Alloc have fresh: "fresh (cells (tr_mem s)) p"
      and s': "s' = s\<lparr>tr_mem := put_cell p (allocate_stackqueue_node_padded v NULL) (tr_mem s)\<rparr>"
      and y: "y = At (TAdd (TA_Read p))"
      by auto
    have "treiber_SI (Suc n) s' a (w(t := treiber_own y))"
      unfolding treiber_SI_def using ps partition_fresh [OF part fresh] partition_allocate [OF part fresh]
      by (intro exI [of _ ps]) (simp add: s' y del: fun_upd_apply)
    then show ?thesis
      using LI TA_Alloc fresh
      by (intro glob [where a' = a and g' = g]) (auto simp: s' y sq_node_defs fresh_def split: if_splits)
  next
    case (TA_Read node)
    then show ?thesis using loc ex LI own by auto
  next
    case (TA_Link node tp)
    with LI obtain nd W where nd: "cells (tr_mem s) node = Some nd" "g = Open (Add (item nd)) W"
      by auto
    with ex TA_Link have s': "s' = s\<lparr>tr_mem := put_cell node (nd\<lparr>nxt := tp\<rparr>) (tr_mem s)\<rparr>"
      and y: "y = At (TAdd (TA_CAS node tp))" by auto
    have w: "w(t := treiber_own y) = w" and mine: "node \<in> private_nodes (w t)"
      using own TA_Link y by auto
    then have "node \<notin> set ps" using partition_owned [OF part] by blast
    then have "treiber_SI (Suc n) s' a w"
      unfolding treiber_SI_def using ps partition_write [OF part, of node] nd
      by (intro exI [of _ ps]) (simp add: s' del: fun_upd_apply)
    then show ?thesis
      using nd mine own TA_Link w
      by (intro glob [where a' = a and g' = g]) (auto simp: s' y split: if_splits)
  next
    case (TA_CAS node tp)
    with LI obtain nd W where nd: "cells (tr_mem s) node = Some nd" "g = Open (Add (item nd)) W"
        "nxt nd = tp"
      by auto
    have mine: "node \<in> owned (w t)" using own TA_CAS by simp
    show ?thesis
    proof (cases "tr_top s = tp")
      case True
      with ex TA_CAS have s': "s' = s\<lparr>tr_top := node\<rparr>" and y: "y = Finished (RetInt 1)"
        by auto
      have "treiber_SI (Suc n) s' (item nd # a) (w(t := treiber_own y))"
        unfolding treiber_SI_def
        using ps nd True partition_publish [OF part mine] partition_owned [OF part mine]
        by (intro exI [of _ "node # ps"]) (simp add: s' y)
      then show ?thesis
        using nd by (intro glob [where a' = "item nd # a" and g' = "Closed (RetInt 1)"]) (auto simp: s' y)
    next
      case False
      then show ?thesis using loc ex nd own TA_CAS by auto
    qed
  qed
qed

lemma treiber_remove_step:
  assumes SI: "treiber_SI n s a w" and LI: "treiber_LI t s a w (At (TRemove x)) g"
    and obs: "observed stack_spec a g"
    and own: "w t = treiber_own (At (TRemove x))" and ex: "treiber_remove s x = Next s' y"
  shows "step_ok stack_spec treiber_own treiber_SI treiber_LI n t s a w g s' y"
proof -
  from SI obtain ps where ps: "path (cells (tr_mem s)) nxt (tr_top s) ps NULL"
      "items (cells (tr_mem s)) ps = a" and part: "partition_ok (tr_mem s) (set ps) w"
    by (rule treiber_SI_E)
  note glob = treiber_step_ok [OF _ _ _ part] and loc = treiber_local [OF treiber_SI_mono [OF SI]]
  have live: "\<exists>qs nd. ps = tr_top s # qs \<and> cells (tr_mem s) (tr_top s) = Some nd \<and>
      path (cells (tr_mem s)) nxt (nxt nd) qs NULL" if "tr_top s \<noteq> NULL"
    using path_nonempty [OF ps(1) that] by blast
  show ?thesis
  proof (cases x)
    case TR_Read
    with LI obtain W where g: "g = Open Remove W" by auto
    have "a = [] \<Longrightarrow> RetVal 0 \<in> W" using obs g by (auto simp: legal_def)
    moreover have "tr_top s \<noteq> NULL \<Longrightarrow> published (tr_mem s) w (tr_top s)"
      using live published_live [OF part] by auto
    ultimately show ?thesis
      using loc ex own TR_Read g ps by (auto split: if_splits)
  next
    case (TR_Next tp)
    with LI ex show ?thesis using loc own by auto
  next
    case (TR_CAS tp nx)
    with LI obtain nd W where g: "g = Open Remove W" "tp \<noteq> NULL" "cells (tr_mem s) tp = Some nd"
        "nxt nd = nx"
      by auto
    show ?thesis
    proof (cases "tr_top s = tp")
      case True
      with ex TR_CAS have s': "s' = s\<lparr>tr_top := nx\<rparr>" and y: "y = At (TRemove (TR_Item tp))"
        by auto
      from live True g obtain qs where qs: "ps = tp # qs" "path (cells (tr_mem s)) nxt nx qs NULL"
        by auto
      with path_distinct [OF ps(1)] have "set ps - {tp} = set qs" by auto
      with qs partition_retire [OF part, of tp "treiber_own y" t]
      have "treiber_SI (Suc n) s' (items (cells (tr_mem s)) qs) (w(t := treiber_own y))"
        unfolding treiber_SI_def by (intro exI [of _ qs]) (simp add: s' y)
      moreover have "a = item nd # items (cells (tr_mem s)) qs" using ps qs g by simp
      ultimately show ?thesis
        using g
        by (intro glob [where a' = "items (cells (tr_mem s)) qs" and g' = "Closed (RetVal (item nd))"])
          (auto simp: s' y)
    next
      case False
      then show ?thesis using loc ex g own TR_CAS by auto
    qed
  next
    case (TR_Item tp)
    with LI ex show ?thesis using loc own by auto
  next
    case (TR_Free tp val)
    with LI have g: "g = Closed (RetVal val)" by simp
    have mine: "tp \<in> owned (w t)" using own TR_Free by simp
    from ex TR_Free have s': "s' = s\<lparr>tr_mem := (tr_mem s)\<lparr>released := insert tp (released (tr_mem s))\<rparr>\<rparr>"
      and y: "y = Finished (RetVal val)"
      by (auto simp: sq_node_defs)
    have "treiber_SI (Suc n) s' a (w(t := treiber_own y))"
      unfolding treiber_SI_def using ps partition_release [OF part mine]
      by (intro exI [of _ ps]) (simp add: s' y)
    then show ?thesis
      using g by (intro glob [where a' = a and g' = g]) (auto simp: s' y)
  qed
qed

lemma treiber_safe:
  assumes SI: "treiber_SI n s a w" and LI: "treiber_LI t s a w (At x) g" and own: "w t = treiber_own (At x)"
  shows "treiber_exec t p s x \<noteq> Fault"
proof -
  have ow: "cells (tr_mem s) q \<noteq> None \<and> q \<notin> released (tr_mem s)" if "q \<in> owned (w t)" for q
    using SI that by (auto simp: treiber_SI_def dest: partition_owned)
  show ?thesis
  proof (cases x)
    case (TAdd z)
    then show ?thesis using LI by (cases z) (auto simp: alloc_def)
  next
    case (TRemove z)
    then show ?thesis
      using LI own ow by (cases z) (auto simp: published_def sq_node_defs release_def)
  qed
qed

section \<open>Correctness\<close>

lemma treiber_step:
  "treiber_SI n s a w \<Longrightarrow> treiber_LI t s a w (At x) g \<Longrightarrow> observed stack_spec a g \<Longrightarrow>
   w t = treiber_own (At x) \<Longrightarrow> treiber_exec t p s x = Next s' y \<Longrightarrow>
   step_ok stack_spec treiber_own treiber_SI treiber_LI n t s a w g s' y"
  using treiber_add_step treiber_remove_step by (cases x) auto

lemma treiber_call:
  assumes "treiber_start op = Some x"
  shows "treiber_own (At x) = treiber_own Idle"
    and "treiber_LI t s a w (At x) (Open op (legal stack_spec op a))"
  using assms by (cases op; auto)+

lemma treiber_SI_init: "treiber_SI 0 treiber_init [] (\<lambda>_. treiber_own Idle)"
  by (auto simp: treiber_SI_def treiber_init_def intro!: exI [of _ "[]"] partition_init)

interpretation treiber: thread_object stack_spec "[]" treiber_start treiber_exec treiber_init
  treiber_own "\<lambda>_. True" treiber_SI treiber_LI
  by unfold_locales (assumption | rule treiber_SI_init | rule treiber_SI_mono treiber_step treiber_call treiber_safe, assumption+ | simp)+

section \<open>A concrete run\<close>

text \<open>Thread 0 pushes 5 and, between its read of \<^verbatim>\<open>top\<close> and its compare-and-swap, thread 1 pushes 7
  completely, so that thread 0 retries; thread 1 then pops 5 up to the read of its item.\<close>

definition treiber_demo :: "int sq_op command list" where
  "treiber_demo = [Do_Call 0 (Add 5), Do_Step 0 1, Do_Step 0 0, Do_Step 0 0,
     Do_Call 1 (Add 7), Do_Step 1 2, Do_Step 1 0, Do_Step 1 0, Do_Step 1 0, Do_Return 1,
     Do_Step 0 0, Do_Step 0 0, Do_Step 0 0, Do_Step 0 0, Do_Return 0,
     Do_Call 1 Remove, Do_Step 1 0, Do_Step 1 0, Do_Step 1 0]"

definition treiber_demo_history :: "(int sq_op, int sq_ret) history" where
  "treiber_demo_history = [(0, Call (Add 5)), (1, Call (Add 7)), (1, Return (RetInt 1)),
     (0, Return (RetInt 1)), (1, Call Remove)]"

lemma treiber_demo_run:
  "\<exists>s c. run treiber_start treiber_exec treiber_init (length treiber_demo) treiber_demo_history (s, c)
     \<and> c 1 = At (TRemove (TR_Item 1)) \<and> treiber_count s = Some 1"
  unfolding treiber_demo_history_def treiber_count_def
  by (rule replay_exhibits) (simp add: treiber_demo_def treiber_init_def fresh_def alloc_def
      put_cell_def empty_store_def sq_node_defs count_nodes.simps)

section \<open>Properties\<close>

text \<open>C1: every concurrent run of Treiber's stack, from an empty stack, is linearizable with
  respect to the LIFO specification: each \<^verbatim>\<open>add\<close> and \<^verbatim>\<open>remove\<close> takes effect at one moment between
  its call and its return, and the value each \<^verbatim>\<open>remove\<close> returns is the one on top at that moment
  (0 when the stack is empty).\<close>

theorem treiber_linearizable:
  assumes "run treiber_start treiber_exec treiber_init n h k"
  shows "linearizable stack_spec [] h"
  using treiber.linearizable [OF assms] by simp

theorem treiber_linearizable_witness: "linearizable stack_spec [] treiber_demo_history"
  using treiber_demo_run by (auto dest: treiber_linearizable)

text \<open>No thread ever dereferences a pointer that is not a node, or releases a node twice, in any
  run of the stack.\<close>

theorem treiber_no_fault:
  assumes "run treiber_start treiber_exec treiber_init n h (s, c)" and "c t = At x"
  shows "treiber_exec t p s x \<noteq> Fault"
  using treiber.no_fault [OF assms(1) _ assms(2)] by simp

theorem treiber_no_fault_witness:
  "\<exists>s c. run treiber_start treiber_exec treiber_init (length treiber_demo) treiber_demo_history (s, c)
     \<and> c 1 = At (TRemove (TR_Item 1)) \<and> treiber_exec 1 NULL s (TRemove (TR_Item 1)) \<noteq> Fault"
  using treiber_demo_run treiber_no_fault by blast

text \<open>\<^verbatim>\<open>count()\<close> terminates in every reachable state, and returns the number of elements of the
  abstract stack that the linearization of the history so far leads to.\<close>

theorem treiber_count_correct:
  assumes "run treiber_start treiber_exec treiber_init n h (s, c)"
  shows "\<exists>a. linearizes_to stack_spec [] h a \<and> treiber_count s = Some (int (length a))"
proof -
  from treiber.reachable_SI [OF assms] obtain a ps where "linearizes_to stack_spec [] h a"
      "path (cells (tr_mem s)) nxt (tr_top s) ps NULL" "items (cells (tr_mem s)) ps = a"
    by (auto simp: treiber_SI_def)
  then show ?thesis
    by (auto simp: treiber_count_def count_nodes_path intro!: exI [of _ a])
qed

theorem treiber_count_witness:
  "\<exists>s c a. run treiber_start treiber_exec treiber_init (length treiber_demo) treiber_demo_history (s, c)
     \<and> linearizes_to stack_spec [] treiber_demo_history a \<and> treiber_count s = Some (int (length a))"
  using treiber_demo_run treiber_count_correct by blast

end
