(* ===== verification/Stack_Lock.thy ===== *)
theory Stack_Lock
  imports Stack_Queue_Spec
begin

text \<open>
  The lock-based stack, \<^verbatim>\<open>src/algorithms/stack_lock.h\<close>: \<^verbatim>\<open>add\<close> and \<^verbatim>\<open>remove\<close> between \<^verbatim>\<open>LOCK_A\<close> and
  \<^verbatim>\<open>UNLOCK_A\<close>, \<^verbatim>\<open>count\<close>, mutual exclusion and linearizability. The lock is the thread that holds
  it, if any; theory Spin_Locks shows that the library's locks implement this. The constructor does
  not initialise the lock: its initial content is an argument of the initial state.
\<close>

section \<open>The code\<close>

record 'v lstack =
  ls_top :: ptr
  ls_lock :: "tid option"
  ls_mem :: "'v sq_node store"

definition stack_lock_init :: "tid option \<Rightarrow> 'v lstack" where
  "stack_lock_init l = \<lparr>ls_top = NULL, ls_lock = l, ls_mem = empty_store\<rparr>"

datatype 'v stack_lock_add_pc =
    SA_Alloc 'v           \<comment> \<open>allocate the node\<close>
  | SA_Lock ptr           \<comment> \<open>\<^verbatim>\<open>LOCK_A(&set->lock)\<close>\<close>
  | SA_Read ptr           \<comment> \<open>evaluate \<^verbatim>\<open>set->top\<close>\<close>
  | SA_Link ptr ptr       \<comment> \<open>\<^verbatim>\<open>node->next = set->top\<close>\<close>
  | SA_Publish ptr        \<comment> \<open>\<^verbatim>\<open>set->top = node\<close>\<close>
  | SA_Unlock             \<comment> \<open>\<^verbatim>\<open>UNLOCK_A(&set->lock)\<close>\<close>

datatype 'v stack_lock_remove_pc =
    SR_Lock               \<comment> \<open>\<^verbatim>\<open>LOCK_A(&set->lock)\<close>\<close>
  | SR_Read               \<comment> \<open>\<^verbatim>\<open>top = set->top\<close> and the test for \<^verbatim>\<open>NULL\<close>\<close>
  | SR_Unlock_Empty       \<comment> \<open>\<^verbatim>\<open>UNLOCK_A(&set->lock)\<close>, return 0\<close>
  | SR_Next ptr           \<comment> \<open>evaluate \<^verbatim>\<open>top->next\<close>\<close>
  | SR_Unlink ptr ptr     \<comment> \<open>\<^verbatim>\<open>set->top = top->next\<close>\<close>
  | SR_Unlock ptr         \<comment> \<open>\<^verbatim>\<open>UNLOCK_A(&set->lock)\<close>\<close>
  | SR_Item ptr           \<comment> \<open>\<^verbatim>\<open>val = top->item\<close>\<close>
  | SR_Free ptr 'v        \<comment> \<open>release the node, return \<^verbatim>\<open>val\<close>\<close>

datatype 'v stack_lock_pc = SAdd "'v stack_lock_add_pc" | SRemove "'v stack_lock_remove_pc"

type_synonym 'v stack_lock_outcome = "('v lstack, 'v stack_lock_pc, 'v sq_ret) outcome"

fun stack_lock_add :: "tid \<Rightarrow> ptr \<Rightarrow> 'v lstack \<Rightarrow> 'v stack_lock_add_pc \<Rightarrow> 'v stack_lock_outcome" where
  "stack_lock_add t p s (SA_Alloc v) =
     alloc (cells (ls_mem s)) p
       (Next (s\<lparr>ls_mem := put_cell p (allocate_stackqueue_node v NULL) (ls_mem s)\<rparr>)
          (At (SAdd (SA_Lock p))))"
| "stack_lock_add t p s (SA_Lock node) =
     (if ls_lock s = None then Next (s\<lparr>ls_lock := Some t\<rparr>) (At (SAdd (SA_Read node))) else Blocked)"
| "stack_lock_add t p s (SA_Read node) = Next s (At (SAdd (SA_Link node (ls_top s))))"
| "stack_lock_add t p s (SA_Link node tp) =
     deref (cells (ls_mem s)) node (\<lambda>n.
       Next (s\<lparr>ls_mem := put_cell node (n\<lparr>nxt := tp\<rparr>) (ls_mem s)\<rparr>) (At (SAdd (SA_Publish node))))"
| "stack_lock_add t p s (SA_Publish node) = Next (s\<lparr>ls_top := node\<rparr>) (At (SAdd SA_Unlock))"
| "stack_lock_add t p s SA_Unlock = Next (s\<lparr>ls_lock := None\<rparr>) (Finished (RetInt 1))"

fun stack_lock_remove :: "tid \<Rightarrow> 'v::zero lstack \<Rightarrow> 'v stack_lock_remove_pc \<Rightarrow> 'v stack_lock_outcome" where
  "stack_lock_remove t s SR_Lock =
     (if ls_lock s = None then Next (s\<lparr>ls_lock := Some t\<rparr>) (At (SRemove SR_Read)) else Blocked)"
| "stack_lock_remove t s SR_Read =
     Next s (At (SRemove (if ls_top s = NULL then SR_Unlock_Empty else SR_Next (ls_top s))))"
| "stack_lock_remove t s SR_Unlock_Empty = Next (s\<lparr>ls_lock := None\<rparr>) (Finished (RetVal 0))"
| "stack_lock_remove t s (SR_Next tp) =
     deref (cells (ls_mem s)) tp (\<lambda>n. Next s (At (SRemove (SR_Unlink tp (nxt n)))))"
| "stack_lock_remove t s (SR_Unlink tp nx) = Next (s\<lparr>ls_top := nx\<rparr>) (At (SRemove (SR_Unlock tp)))"
| "stack_lock_remove t s (SR_Unlock tp) = Next (s\<lparr>ls_lock := None\<rparr>) (At (SRemove (SR_Item tp)))"
| "stack_lock_remove t s (SR_Item tp) =
     deref (cells (ls_mem s)) tp (\<lambda>n. Next s (At (SRemove (SR_Free tp (item n)))))"
| "stack_lock_remove t s (SR_Free tp val) =
     release_stackqueue_node (ls_mem s) tp (\<lambda>m. Next (s\<lparr>ls_mem := m\<rparr>) (Finished (RetVal val)))"

definition stack_lock_count :: "'v lstack \<Rightarrow> int option" where
  "stack_lock_count s = count_nodes (cells (ls_mem s)) nxt (ls_top s) 0"

fun stack_lock_start :: "'v sq_op \<Rightarrow> 'v stack_lock_pc option" where
  "stack_lock_start (Add v) = Some (SAdd (SA_Alloc v))"
| "stack_lock_start Remove = Some (SRemove SR_Lock)"

fun stack_lock_exec :: "tid \<Rightarrow> ptr \<Rightarrow> 'v::zero lstack \<Rightarrow> 'v stack_lock_pc \<Rightarrow> 'v stack_lock_outcome" where
  "stack_lock_exec t p s (SAdd x) = stack_lock_add t p s x"
| "stack_lock_exec t p s (SRemove x) = stack_lock_remove t s x"

section \<open>The invariant\<close>

fun slk_own :: "('v stack_lock_pc, 'v sq_ret) control \<Rightarrow> unit ownership" where
  "slk_own (At (SAdd (SA_Lock p))) = holding {p} {} {}"
| "slk_own (At (SAdd (SA_Read p))) = holding {p} {} {()}"
| "slk_own (At (SAdd (SA_Link p q))) = holding {p} {} {()}"
| "slk_own (At (SAdd (SA_Publish p))) = holding {p} {} {()}"
| "slk_own (At (SAdd SA_Unlock)) = holding {} {} {()}"
| "slk_own (At (SRemove SR_Read)) = holding {} {} {()}"
| "slk_own (At (SRemove SR_Unlock_Empty)) = holding {} {} {()}"
| "slk_own (At (SRemove (SR_Next p))) = holding {} {} {()}"
| "slk_own (At (SRemove (SR_Unlink p q))) = holding {} {} {()}"
| "slk_own (At (SRemove (SR_Unlock p))) = holding {} {p} {()}"
| "slk_own (At (SRemove (SR_Item p))) = holding {} {p} {}"
| "slk_own (At (SRemove (SR_Free p v))) = holding {} {p} {}"
| "slk_own _ = none_owned"

definition slk_SI :: "nat \<Rightarrow> 'v lstack \<Rightarrow> 'v list \<Rightarrow> (tid \<Rightarrow> unit ownership) \<Rightarrow> bool" where
  "slk_SI n s a w \<longleftrightarrow> (\<exists>ps. path (cells (ls_mem s)) nxt (ls_top s) ps NULL \<and>
     items (cells (ls_mem s)) ps = a \<and> partition_ok (ls_mem s) (set ps) w) \<and>
     locks_ok (\<lambda>_. ls_lock s) w"

definition slk_node :: "'v lstack \<Rightarrow> ptr \<Rightarrow> ('v sq_op, 'v sq_ret) ghost \<Rightarrow> bool" where
  "slk_node s p g \<longleftrightarrow> (\<exists>n W. cells (ls_mem s) p = Some n \<and> g = Open (Add (item n)) W)"

fun slk_LI :: "tid \<Rightarrow> 'v::zero lstack \<Rightarrow> 'v list \<Rightarrow> (tid \<Rightarrow> unit ownership) \<Rightarrow>
    ('v stack_lock_pc, 'v sq_ret) control \<Rightarrow> ('v sq_op, 'v sq_ret) ghost \<Rightarrow> bool" where
  "slk_LI t s a w Idle g = (g = Quiet)"
| "slk_LI t s a w (Finished r) g = returns g r"
| "slk_LI t s a w (At (SAdd (SA_Alloc v))) g = (\<exists>W. g = Open (Add v) W)"
| "slk_LI t s a w (At (SAdd (SA_Lock p))) g = slk_node s p g"
| "slk_LI t s a w (At (SAdd (SA_Read p))) g = slk_node s p g"
| "slk_LI t s a w (At (SAdd (SA_Link p q))) g = (slk_node s p g \<and> q = ls_top s)"
| "slk_LI t s a w (At (SAdd (SA_Publish p))) g =
     (\<exists>n W. cells (ls_mem s) p = Some n \<and> g = Open (Add (item n)) W \<and> nxt n = ls_top s)"
| "slk_LI t s a w (At (SAdd SA_Unlock)) g = (g = Closed (RetInt 1))"
| "slk_LI t s a w (At (SRemove SR_Lock)) g = (\<exists>W. g = Open Remove W)"
| "slk_LI t s a w (At (SRemove SR_Read)) g = (\<exists>W. g = Open Remove W)"
| "slk_LI t s a w (At (SRemove SR_Unlock_Empty)) g = returns g (RetVal 0)"
| "slk_LI t s a w (At (SRemove (SR_Next p))) g =
     (\<exists>n W. g = Open Remove W \<and> p = ls_top s \<and> p \<noteq> NULL \<and> cells (ls_mem s) p = Some n)"
| "slk_LI t s a w (At (SRemove (SR_Unlink p q))) g =
     (\<exists>n W. g = Open Remove W \<and> p = ls_top s \<and> p \<noteq> NULL \<and> cells (ls_mem s) p = Some n \<and> nxt n = q)"
| "slk_LI t s a w (At (SRemove (SR_Unlock p))) g =
     (\<exists>n. cells (ls_mem s) p = Some n \<and> g = Closed (RetVal (item n)))"
| "slk_LI t s a w (At (SRemove (SR_Item p))) g =
     (\<exists>n. cells (ls_mem s) p = Some n \<and> g = Closed (RetVal (item n)))"
| "slk_LI t s a w (At (SRemove (SR_Free p v))) g = (g = Closed (RetVal v))"

lemma slk_SI_mono: "slk_SI n s a w \<Longrightarrow> slk_SI (Suc n) s a w"
  by (simp add: slk_SI_def)

lemma slk_SI_E:
  assumes "slk_SI n s a w"
  obtains ps where "path (cells (ls_mem s)) nxt (ls_top s) ps NULL"
    and "items (cells (ls_mem s)) ps = a" and "partition_ok (ls_mem s) (set ps) w"
    and "locks_ok (\<lambda>_. ls_lock s) w"
  using assms by (auto simp: slk_SI_def)

text \<open>What the other threads rely on: only nodes private to the stepping thread change, and the top
  pointer changes only while the stepping thread holds the lock.\<close>

lemma slk_step_ok:
  assumes adv: "advance stack_spec a g a' g'" and SI': "slk_SI (Suc n) s' a' (w(t := slk_own y))"
    and LI': "slk_LI t s' a' (w(t := slk_own y)) y g'" and SI: "slk_SI n s a w"
    and diff: "\<And>q. cells (ls_mem s') q \<noteq> cells (ls_mem s) q \<Longrightarrow>
        cells (ls_mem s) q = None \<or> q \<in> private_nodes (w t)"
    and tp: "ls_top s' \<noteq> ls_top s \<Longrightarrow> held (w t) = {()}"
  shows "step_ok stack_spec slk_own slk_SI slk_LI n t s a w g s' y"
proof (rule step_okI [where own = slk_own and SI = slk_SI and LI = slk_LI])
  fix u z gu
  assume ut: "u \<noteq> t" and own: "w u = slk_own z" and LI: "slk_LI u s a w z gu"
  from SI obtain ps where part: "partition_ok (ls_mem s) (set ps) w"
    and live: "path (cells (ls_mem s)) nxt (ls_top s) ps NULL" and lk: "locks_ok (\<lambda>_. ls_lock s) w"
    by (rule slk_SI_E)
  have keep: "cells (ls_mem s') q = cells (ls_mem s) q" if "q \<in> owned (w u)" for q
    using diff [of q] partition_owned [OF part that, of t] ut by blast
  have tops: "ls_top s' = ls_top s" if "() \<in> held (w u)"
    using tp that locks_exclusive [OF lk that, of t] ut by auto
  have top: "cells (ls_mem s') (ls_top s) = cells (ls_mem s) (ls_top s)" if "ls_top s \<noteq> NULL"
  proof -
    from path_nonempty [OF live that] have "ls_top s \<in> set ps" by auto
    then have "ls_top s \<notin> private_nodes (w t)" "cells (ls_mem s) (ls_top s) \<noteq> None"
      using partition_live [OF part] by (auto simp: owned_def)
    then show ?thesis using diff [of "ls_top s"] by metis
  qed
  show "slk_LI u s' a' (w(t := slk_own y)) z (observe stack_spec a' gu)"
    using LI own keep tops top
    by (cases "(u, s, a, w, z, gu)" rule: slk_LI.cases) (auto simp: returns_observe slk_node_def)
qed (fact assms)+

lemmas slk_local = step_ok_local [where own = slk_own and SI = slk_SI and LI = slk_LI]

lemma slk_add_step:
  assumes SI: "slk_SI n s a w" and LI: "slk_LI t s a w (At (SAdd x)) g"
    and own: "w t = slk_own (At (SAdd x))" and ex: "stack_lock_add t p s x = Next s' y"
  shows "step_ok stack_spec slk_own slk_SI slk_LI n t s a w g s' y"
proof -
  from SI obtain ps where ps: "path (cells (ls_mem s)) nxt (ls_top s) ps NULL"
      "items (cells (ls_mem s)) ps = a" and part: "partition_ok (ls_mem s) (set ps) w"
    and lk: "locks_ok (\<lambda>_. ls_lock s) w"
    by (rule slk_SI_E)
  note glob = slk_step_ok [OF _ _ _ SI] and loc = slk_local [OF slk_SI_mono [OF SI]]
  show ?thesis
  proof (cases x)
    case (SA_Alloc v)
    from ex SA_Alloc have fresh: "fresh (cells (ls_mem s)) p"
      and s': "s' = s\<lparr>ls_mem := put_cell p (allocate_stackqueue_node v NULL) (ls_mem s)\<rparr>"
      and y: "y = At (SAdd (SA_Lock p))"
      by auto
    have "slk_SI (Suc n) s' a (w(t := slk_own y))"
      unfolding slk_SI_def
      using ps partition_fresh [OF part fresh] partition_allocate [OF part fresh] lock_same [OF lk] own SA_Alloc
      by (intro conjI exI [of _ ps]) (simp_all add: s' y del: fun_upd_apply)
    then show ?thesis
      using LI SA_Alloc fresh
      by (intro glob [where a' = a and g' = g]) (auto simp: s' y sq_node_defs fresh_def slk_node_def split: if_splits)
  next
    case (SA_Lock node)
    with ex have s': "s' = s\<lparr>ls_lock := Some t\<rparr>" and y: "y = At (SAdd (SA_Read node))"
      and free: "ls_lock s = None"
      by (auto split: if_splits)
    have "slk_SI (Suc n) s' a (w(t := slk_own y))"
      unfolding slk_SI_def
      using ps partition_keep [OF part] lock_taken [OF lk free] own SA_Lock
      by (intro conjI exI [of _ ps]) (simp_all add: s' y del: fun_upd_apply)
    then show ?thesis
      using LI SA_Lock by (intro glob [where a' = a and g' = g]) (auto simp: s' y slk_node_def)
  next
    case (SA_Read node)
    then show ?thesis using loc ex LI own by auto
  next
    case (SA_Link node tp)
    with LI obtain nd W where nd: "cells (ls_mem s) node = Some nd" "g = Open (Add (item nd)) W" "tp = ls_top s"
      by (auto simp: slk_node_def)
    with ex SA_Link have s': "s' = s\<lparr>ls_mem := put_cell node (nd\<lparr>nxt := tp\<rparr>) (ls_mem s)\<rparr>"
      and y: "y = At (SAdd (SA_Publish node))" by auto
    have w: "w(t := slk_own y) = w" and mine: "node \<in> private_nodes (w t)"
      using own SA_Link y by auto
    then have "node \<notin> set ps" using partition_owned [OF part] by blast
    then have "slk_SI (Suc n) s' a w"
      unfolding slk_SI_def using ps partition_write [OF part, of node] nd lk
      by (intro conjI exI [of _ ps]) (simp_all add: s' del: fun_upd_apply)
    then show ?thesis
      using nd mine own SA_Link w
      by (intro glob [where a' = a and g' = g]) (auto simp: s' y split: if_splits)
  next
    case (SA_Publish node)
    with LI obtain nd W where nd: "cells (ls_mem s) node = Some nd" "g = Open (Add (item nd)) W"
        "nxt nd = ls_top s"
      by auto
    have mine: "node \<in> owned (w t)" using own SA_Publish by simp
    from ex SA_Publish have s': "s' = s\<lparr>ls_top := node\<rparr>" and y: "y = At (SAdd SA_Unlock)" by auto
    have "slk_SI (Suc n) s' (item nd # a) (w(t := slk_own y))"
      unfolding slk_SI_def
      using ps nd partition_publish [OF part mine] partition_owned [OF part mine] lock_same [OF lk] own SA_Publish
      by (intro conjI exI [of _ "node # ps"]) (simp_all add: s' y)
    then show ?thesis
      using nd own SA_Publish
      by (intro glob [where a' = "item nd # a" and g' = "Closed (RetInt 1)"]) (auto simp: s' y)
  next
    case SA_Unlock
    with ex have s': "s' = s\<lparr>ls_lock := None\<rparr>" and y: "y = Finished (RetInt 1)" by auto
    have "slk_SI (Suc n) s' a (w(t := slk_own y))"
      unfolding slk_SI_def
      using ps partition_keep [OF part] lock_freed [OF lk] own SA_Unlock
      by (intro conjI exI [of _ ps]) (simp_all add: s' y del: fun_upd_apply)
    then show ?thesis
      using LI SA_Unlock by (intro glob [where a' = a and g' = g]) (auto simp: s' y)
  qed
qed

lemma slk_remove_step:
  assumes SI: "slk_SI n s a w" and LI: "slk_LI t s a w (At (SRemove x)) g"
    and obs: "observed stack_spec a g"
    and own: "w t = slk_own (At (SRemove x))" and ex: "stack_lock_remove t s x = Next s' y"
  shows "step_ok stack_spec slk_own slk_SI slk_LI n t s a w g s' y"
proof -
  from SI obtain ps where ps: "path (cells (ls_mem s)) nxt (ls_top s) ps NULL"
      "items (cells (ls_mem s)) ps = a" and part: "partition_ok (ls_mem s) (set ps) w"
    and lk: "locks_ok (\<lambda>_. ls_lock s) w"
    by (rule slk_SI_E)
  note glob = slk_step_ok [OF _ _ _ SI] and loc = slk_local [OF slk_SI_mono [OF SI]]
  have live: "\<exists>qs nd. ps = ls_top s # qs \<and> cells (ls_mem s) (ls_top s) = Some nd \<and>
      path (cells (ls_mem s)) nxt (nxt nd) qs NULL" if "ls_top s \<noteq> NULL"
    using path_nonempty [OF ps(1) that] by blast
  have unlock: ?thesis if s': "s' = s\<lparr>ls_lock := None\<rparr>" and hw: "held (w t) = {()}" "held (slk_own y) = {}"
      "owned (slk_own y) \<subseteq> owned (w t)" and L: "slk_LI t s' a (w(t := slk_own y)) y g"
  proof (rule glob [OF _ _ L])
    show "slk_SI (Suc n) s' a (w(t := slk_own y))"
      unfolding slk_SI_def using ps partition_keep [OF part hw(3)] lock_freed [OF lk hw(1,2)]
      by (intro conjI exI [of _ ps]) (simp_all add: s' del: fun_upd_apply)
  qed (auto simp: s')
  show ?thesis
  proof (cases x)
    case SR_Lock
    with ex have s': "s' = s\<lparr>ls_lock := Some t\<rparr>" and y: "y = At (SRemove SR_Read)"
      and free: "ls_lock s = None"
      by (auto split: if_splits)
    have "slk_SI (Suc n) s' a (w(t := slk_own y))"
      unfolding slk_SI_def
      using ps partition_keep [OF part] lock_taken [OF lk free] own SR_Lock
      by (intro conjI exI [of _ ps]) (simp_all add: s' y del: fun_upd_apply)
    then show ?thesis
      using LI SR_Lock by (intro glob [where a' = a and g' = g]) (auto simp: s' y)
  next
    case SR_Read
    with LI obtain W where g: "g = Open Remove W" by auto
    have "a = [] \<Longrightarrow> RetVal 0 \<in> W" using obs g by (auto simp: legal_def)
    then show ?thesis
      using loc ex own SR_Read g ps live by auto
  next
    case SR_Unlock_Empty
    with LI ex own show ?thesis by (intro unlock) auto
  next
    case (SR_Next tp)
    with LI ex show ?thesis using loc own by auto
  next
    case (SR_Unlink tp nx)
    with LI obtain nd W where g: "g = Open Remove W" "tp = ls_top s" "tp \<noteq> NULL" "cells (ls_mem s) tp = Some nd"
        "nxt nd = nx"
      by auto
    from ex SR_Unlink have s': "s' = s\<lparr>ls_top := nx\<rparr>" and y: "y = At (SRemove (SR_Unlock tp))"
      by auto
    from live g obtain qs where qs: "ps = tp # qs" "path (cells (ls_mem s)) nxt nx qs NULL"
      by auto
    with path_distinct [OF ps(1)] have "set ps - {tp} = set qs" by auto
    with qs partition_retire [OF part, of tp "slk_own y" t] lock_same [OF lk] own SR_Unlink
    have "slk_SI (Suc n) s' (items (cells (ls_mem s)) qs) (w(t := slk_own y))"
      unfolding slk_SI_def by (intro conjI exI [of _ qs]) (simp_all add: s' y)
    moreover have "a = item nd # items (cells (ls_mem s)) qs" using ps qs g by simp
    ultimately show ?thesis
      using g own SR_Unlink
      by (intro glob [where a' = "items (cells (ls_mem s)) qs" and g' = "Closed (RetVal (item nd))"])
        (auto simp: s' y)
  next
    case (SR_Unlock tp)
    with LI ex own show ?thesis by (intro unlock) auto
  next
    case (SR_Item tp)
    with LI ex show ?thesis using loc own by auto
  next
    case (SR_Free tp val)
    with LI have g: "g = Closed (RetVal val)" by simp
    have mine: "tp \<in> owned (w t)" using own SR_Free by simp
    from ex SR_Free have s': "s' = s\<lparr>ls_mem := (ls_mem s)\<lparr>released := insert tp (released (ls_mem s))\<rparr>\<rparr>"
      and y: "y = Finished (RetVal val)"
      by (auto simp: sq_node_defs)
    have "slk_SI (Suc n) s' a (w(t := slk_own y))"
      unfolding slk_SI_def using ps partition_release [OF part mine] lock_same [OF lk] own SR_Free
      by (intro conjI exI [of _ ps]) (simp_all add: s' y)
    then show ?thesis
      using g by (intro glob [where a' = a and g' = g]) (auto simp: s' y)
  qed
qed

lemma slk_safe:
  assumes SI: "slk_SI n s a w" and LI: "slk_LI t s a w (At x) g" and own: "w t = slk_own (At x)"
  shows "stack_lock_exec t p s x \<noteq> Fault"
proof -
  have ow: "cells (ls_mem s) q \<noteq> None \<and> q \<notin> released (ls_mem s)" if "q \<in> owned (w t)" for q
    using SI that by (auto simp: slk_SI_def dest: partition_owned)
  show ?thesis
  proof (cases x)
    case (SAdd z)
    then show ?thesis using LI by (cases z) (auto simp: slk_node_def)
  next
    case (SRemove z)
    then show ?thesis using LI own ow by (cases z) (auto simp: sq_node_defs)
  qed
qed

section \<open>Correctness\<close>

lemma slk_step:
  "slk_SI n s a w \<Longrightarrow> slk_LI t s a w (At x) g \<Longrightarrow> observed stack_spec a g \<Longrightarrow>
   w t = slk_own (At x) \<Longrightarrow> stack_lock_exec t p s x = Next s' y \<Longrightarrow>
   step_ok stack_spec slk_own slk_SI slk_LI n t s a w g s' y"
  using slk_add_step slk_remove_step by (cases x) auto

lemma slk_call:
  assumes "stack_lock_start op = Some x"
  shows "slk_own (At x) = slk_own Idle"
    and "slk_LI t s a w (At x) (Open op (legal stack_spec op a))"
  using assms by (cases op; auto)+

lemma slk_SI_init: "slk_SI 0 (stack_lock_init None) [] (\<lambda>_. slk_own Idle)"
  by (auto simp: slk_SI_def stack_lock_init_def intro!: exI [of _ "[]"] partition_init locks_init)

interpretation stack_lock: thread_object stack_spec "[]" stack_lock_start stack_lock_exec
  "stack_lock_init None" slk_own "\<lambda>_. True" slk_SI slk_LI
  by unfold_locales (assumption | rule slk_SI_init | rule slk_SI_mono slk_step slk_call slk_safe, assumption+ | simp)+

section \<open>A concrete run\<close>

text \<open>Thread 0 pushes 5 while thread 1 waits for the lock; thread 1 then pops 5, up to the read of
  the item.\<close>

definition stack_lock_demo :: "int sq_op command list" where
  "stack_lock_demo = [Do_Call 0 (Add 5), Do_Step 0 1, Do_Step 0 0, Do_Call 1 Remove, Do_Step 0 0,
     Do_Step 0 0, Do_Step 0 0, Do_Step 0 0, Do_Step 1 0, Do_Return 0,
     Do_Step 1 0, Do_Step 1 0, Do_Step 1 0, Do_Step 1 0]"

definition stack_lock_demo_history :: "(int sq_op, int sq_ret) history" where
  "stack_lock_demo_history = [(0, Call (Add 5)), (1, Call Remove), (0, Return (RetInt 1))]"

lemma stack_lock_demo_run:
  "\<exists>s c. run stack_lock_start stack_lock_exec (stack_lock_init None) (length stack_lock_demo)
       stack_lock_demo_history (s, c)
     \<and> c 1 = At (SRemove (SR_Item 1)) \<and> stack_lock_count s = Some 0"
  unfolding stack_lock_demo_history_def stack_lock_count_def
  by (rule replay_exhibits) (simp add: stack_lock_demo_def stack_lock_init_def fresh_def alloc_def
      put_cell_def empty_store_def sq_node_defs count_nodes.simps)

section \<open>Properties\<close>

text \<open>C7: every concurrent run of the lock-based stack whose lock is initially free, which the constructor does
  not establish, is linearizable with respect to the LIFO specification.\<close>

theorem stack_lock_linearizable:
  assumes "run stack_lock_start stack_lock_exec (stack_lock_init l) n h k" and "l = None"
  shows "linearizable stack_spec [] h"
  using stack_lock.linearizable [OF assms(1) [unfolded assms(2)]] by simp

theorem stack_lock_linearizable_witness: "linearizable stack_spec [] stack_lock_demo_history"
  using stack_lock_demo_run by (auto dest: stack_lock_linearizable [OF _ refl])

text \<open>In every reachable state of the lock-based stack \<^verbatim>\<open>count()\<close> terminates with the number of
  elements of the abstract stack, and no thread is about to dereference a pointer that is not a node
  or to release a node twice.\<close>

theorem stack_lock_count_safe:
  assumes "run stack_lock_start stack_lock_exec (stack_lock_init None) n h (s, c)"
  shows "(\<exists>a. linearizes_to stack_spec [] h a \<and> stack_lock_count s = Some (int (length a)))
    \<and> (\<forall>t p x. c t = At x \<longrightarrow> stack_lock_exec t p s x \<noteq> Fault)"
proof
  from stack_lock.reachable_SI [OF assms] obtain a ps where "linearizes_to stack_spec [] h a"
      "path (cells (ls_mem s)) nxt (ls_top s) ps NULL" "items (cells (ls_mem s)) ps = a"
    by (auto simp: slk_SI_def)
  then show "\<exists>a. linearizes_to stack_spec [] h a \<and> stack_lock_count s = Some (int (length a))"
    by (auto simp: stack_lock_count_def count_nodes_path intro!: exI [of _ a])
  show "\<forall>t p x. c t = At x \<longrightarrow> stack_lock_exec t p s x \<noteq> Fault"
    using stack_lock.no_fault [OF assms] by simp
qed

theorem stack_lock_count_safe_witness:
  "\<exists>s c a. run stack_lock_start stack_lock_exec (stack_lock_init None) (length stack_lock_demo)
       stack_lock_demo_history (s, c)
     \<and> linearizes_to stack_spec [] stack_lock_demo_history a \<and> stack_lock_count s = Some (int (length a))
     \<and> stack_lock_exec 1 NULL s (SRemove (SR_Item 1)) \<noteq> Fault"
  using stack_lock_demo_run stack_lock_count_safe by blast

end
