(* ===== verification/Queue_MS.thy ===== *)
theory Queue_MS
  imports Stack_Queue_Spec
begin

text \<open>
  The Michael-Scott queues: the lock-free queue of \<^verbatim>\<open>src/algorithms/queue_ms_lf.h\<close> and the hybrid
  of \<^verbatim>\<open>src/algorithms/queue_ms_hybrid.h\<close>, whose \<^verbatim>\<open>add\<close> takes the tail lock and whose \<^verbatim>\<open>remove\<close> is
  the lock-free one. Both classes have the same list of nodes behind a dummy head; the step function
  of \<^verbatim>\<open>remove\<close>, which the two files write out identically, is shared. The constructors do not
  initialise the tail lock: its initial content is an argument of the initial state.
\<close>

section \<open>The code\<close>

record 'v msq =
  mq_head :: ptr
  mq_tail :: ptr
  mq_tail_lock :: "tid option"
  mq_mem :: "'v sq_node store"

abbreviation mq_cells :: "'v msq \<Rightarrow> ptr \<Rightarrow> 'v sq_node option" where
  "mq_cells s \<equiv> cells (mq_mem s)"

text \<open>The dummy node of the constructor: its address and its uninitialised item are arbitrary.\<close>

definition msq_init :: "ptr \<Rightarrow> 'v \<Rightarrow> tid option \<Rightarrow> 'v msq" where
  "msq_init d v l = \<lparr>mq_head = d, mq_tail = d, mq_tail_lock = l,
     mq_mem = put_cell d \<lparr>item = v, nxt = NULL\<rparr> empty_store\<rparr>"

datatype 'v lf_add_pc =
    FA_Alloc 'v               \<comment> \<open>allocate the node\<close>
  | FA_Tail ptr               \<comment> \<open>\<^verbatim>\<open>tail = set->tail\<close>\<close>
  | FA_Tail2 ptr ptr          \<comment> \<open>evaluate \<^verbatim>\<open>set->tail\<close> again\<close>
  | FA_Next ptr ptr ptr       \<comment> \<open>\<^verbatim>\<open>next = set->tail->next\<close>\<close>
  | FA_Check ptr ptr ptr      \<comment> \<open>\<^verbatim>\<open>tail == set->tail\<close>\<close>
  | FA_CAS ptr ptr            \<comment> \<open>\<^verbatim>\<open>CAS_PTR(&tail->next, next, node)\<close> with \<^verbatim>\<open>next == NULL\<close>\<close>
  | FA_Help ptr ptr ptr       \<comment> \<open>\<^verbatim>\<open>CAS_PTR(&set->tail, tail, next)\<close>\<close>
  | FA_Swing ptr ptr          \<comment> \<open>\<^verbatim>\<open>CAS_PTR(&set->tail, tail, node)\<close>\<close>

datatype 'v hy_add_pc =
    HA_Alloc 'v               \<comment> \<open>allocate the node\<close>
  | HA_Lock ptr               \<comment> \<open>\<^verbatim>\<open>LOCK_A(&set->tail_lock)\<close>\<close>
  | HA_Tail ptr               \<comment> \<open>evaluate \<^verbatim>\<open>set->tail\<close>\<close>
  | HA_Link ptr ptr           \<comment> \<open>\<^verbatim>\<open>set->tail->next = node\<close>\<close>
  | HA_Swing ptr              \<comment> \<open>\<^verbatim>\<open>set->tail = node\<close>\<close>
  | HA_Unlock                 \<comment> \<open>\<^verbatim>\<open>UNLOCK_A(&set->tail_lock)\<close>\<close>

datatype 'v ms_remove_pc =
    MR_Head                   \<comment> \<open>\<^verbatim>\<open>head = set->head\<close>\<close>
  | MR_Tail ptr               \<comment> \<open>\<^verbatim>\<open>tail = set->tail\<close>\<close>
  | MR_Next ptr ptr           \<comment> \<open>\<^verbatim>\<open>next = head->next\<close>\<close>
  | MR_Check ptr ptr ptr      \<comment> \<open>\<^verbatim>\<open>head == set->head\<close> and the tests of \<^verbatim>\<open>tail\<close> and \<^verbatim>\<open>next\<close>\<close>
  | MR_Help ptr ptr           \<comment> \<open>\<^verbatim>\<open>CAS_PTR(&set->tail, tail, next)\<close>\<close>
  | MR_CAS ptr ptr            \<comment> \<open>\<^verbatim>\<open>CAS_PTR(&set->head, head, next)\<close>\<close>
  | MR_Item ptr ptr           \<comment> \<open>\<^verbatim>\<open>item = next->item\<close>\<close>
  | MR_Free ptr 'v            \<comment> \<open>release the old head, return \<^verbatim>\<open>item\<close>\<close>

datatype 'v msq_pc = FAdd "'v lf_add_pc" | HAdd "'v hy_add_pc" | MRemove "'v ms_remove_pc"

type_synonym 'v msq_outcome = "('v msq, 'v msq_pc, 'v sq_ret) outcome"

fun queue_lf_add :: "ptr \<Rightarrow> 'v msq \<Rightarrow> 'v lf_add_pc \<Rightarrow> 'v msq_outcome" where
  "queue_lf_add p s (FA_Alloc v) =
     alloc (mq_cells s) p
       (Next (s\<lparr>mq_mem := put_cell p (allocate_stackqueue_node v NULL) (mq_mem s)\<rparr>) (At (FAdd (FA_Tail p))))"
| "queue_lf_add p s (FA_Tail node) = Next s (At (FAdd (FA_Tail2 node (mq_tail s))))"
| "queue_lf_add p s (FA_Tail2 node tail) = Next s (At (FAdd (FA_Next node tail (mq_tail s))))"
| "queue_lf_add p s (FA_Next node tail tail2) =
     deref (mq_cells s) tail2 (\<lambda>n. Next s (At (FAdd (FA_Check node tail (nxt n)))))"
| "queue_lf_add p s (FA_Check node tail nx) =
     (if tail = mq_tail s
      then Next s (At (FAdd (if nx = NULL then FA_CAS node tail else FA_Help node tail nx)))
      else Next s (At (FAdd (FA_Tail node))))"
| "queue_lf_add p s (FA_CAS node tail) =
     deref (mq_cells s) tail (\<lambda>n.
       let (old, nx') = CAS_val (nxt n) NULL node
       in Next (s\<lparr>mq_mem := put_cell tail (n\<lparr>nxt := nx'\<rparr>) (mq_mem s)\<rparr>)
            (At (FAdd (if old = NULL then FA_Swing node tail else FA_Tail node))))"
| "queue_lf_add p s (FA_Help node tail nx) =
     (let (old, tail') = CAS_val (mq_tail s) tail nx
      in Next (s\<lparr>mq_tail := tail'\<rparr>) (At (FAdd (FA_Tail node))))"
| "queue_lf_add p s (FA_Swing node tail) =
     (let (old, tail') = CAS_val (mq_tail s) tail node
      in Next (s\<lparr>mq_tail := tail'\<rparr>) (Finished (RetInt 1)))"

fun queue_hybrid_add :: "tid \<Rightarrow> ptr \<Rightarrow> 'v msq \<Rightarrow> 'v hy_add_pc \<Rightarrow> 'v msq_outcome" where
  "queue_hybrid_add t p s (HA_Alloc v) =
     alloc (mq_cells s) p
       (Next (s\<lparr>mq_mem := put_cell p (allocate_stackqueue_node v NULL) (mq_mem s)\<rparr>) (At (HAdd (HA_Lock p))))"
| "queue_hybrid_add t p s (HA_Lock node) =
     (if mq_tail_lock s = None then Next (s\<lparr>mq_tail_lock := Some t\<rparr>) (At (HAdd (HA_Tail node))) else Blocked)"
| "queue_hybrid_add t p s (HA_Tail node) = Next s (At (HAdd (HA_Link node (mq_tail s))))"
| "queue_hybrid_add t p s (HA_Link node tail) =
     deref (mq_cells s) tail (\<lambda>n.
       Next (s\<lparr>mq_mem := put_cell tail (n\<lparr>nxt := node\<rparr>) (mq_mem s)\<rparr>) (At (HAdd (HA_Swing node))))"
| "queue_hybrid_add t p s (HA_Swing node) = Next (s\<lparr>mq_tail := node\<rparr>) (At (HAdd HA_Unlock))"
| "queue_hybrid_add t p s HA_Unlock = Next (s\<lparr>mq_tail_lock := None\<rparr>) (Finished (RetInt 1))"

fun msq_remove :: "'v::zero msq \<Rightarrow> 'v ms_remove_pc \<Rightarrow> 'v msq_outcome" where
  "msq_remove s MR_Head = Next s (At (MRemove (MR_Tail (mq_head s))))"
| "msq_remove s (MR_Tail head) = Next s (At (MRemove (MR_Next head (mq_tail s))))"
| "msq_remove s (MR_Next head tail) =
     deref (mq_cells s) head (\<lambda>n. Next s (At (MRemove (MR_Check head tail (nxt n)))))"
| "msq_remove s (MR_Check head tail nx) =
     (if head = mq_head s then
        if head = tail then
          if nx = NULL then Next s (Finished (RetVal 0)) else Next s (At (MRemove (MR_Help tail nx)))
        else Next s (At (MRemove (MR_CAS head nx)))
      else Next s (At (MRemove MR_Head)))"
| "msq_remove s (MR_Help tail nx) =
     (let (old, tail') = CAS_val (mq_tail s) tail nx
      in Next (s\<lparr>mq_tail := tail'\<rparr>) (At (MRemove MR_Head)))"
| "msq_remove s (MR_CAS head nx) =
     (let (old, head') = CAS_val (mq_head s) head nx
      in Next (s\<lparr>mq_head := head'\<rparr>) (At (MRemove (if old = head then MR_Item head nx else MR_Head))))"
| "msq_remove s (MR_Item head nx) =
     deref (mq_cells s) nx (\<lambda>n. Next s (At (MRemove (MR_Free head (item n)))))"
| "msq_remove s (MR_Free head val) =
     release_stackqueue_node (mq_mem s) head (\<lambda>m. Next (s\<lparr>mq_mem := m\<rparr>) (Finished (RetVal val)))"

definition queue_lf_remove :: "'v::zero msq \<Rightarrow> 'v ms_remove_pc \<Rightarrow> 'v msq_outcome" where
  "queue_lf_remove = msq_remove"

definition queue_hybrid_remove :: "'v::zero msq \<Rightarrow> 'v ms_remove_pc \<Rightarrow> 'v msq_outcome" where
  "queue_hybrid_remove = msq_remove"

text \<open>\<^verbatim>\<open>count()\<close>: the loop \<^verbatim>\<open>while (node->next != NULL)\<close> from the dummy node.\<close>

partial_function (option) count_queue :: "(ptr \<Rightarrow> 'v sq_node option) \<Rightarrow> ptr \<Rightarrow> int \<Rightarrow> int option" where
  "count_queue h node count =
     (case h node of
        None \<Rightarrow> None
      | Some n \<Rightarrow> if nxt n \<noteq> NULL then count_queue h (nxt n) (count + 1) else Some count)"

definition msq_count :: "'v msq \<Rightarrow> int option" where
  "msq_count s = count_queue (mq_cells s) (mq_head s) 0"

fun queue_lf_start :: "'v sq_op \<Rightarrow> 'v msq_pc option" where
  "queue_lf_start (Add v) = Some (FAdd (FA_Alloc v))"
| "queue_lf_start Remove = Some (MRemove MR_Head)"

fun queue_hybrid_start :: "'v sq_op \<Rightarrow> 'v msq_pc option" where
  "queue_hybrid_start (Add v) = Some (HAdd (HA_Alloc v))"
| "queue_hybrid_start Remove = Some (MRemove MR_Head)"

fun msq_exec :: "tid \<Rightarrow> ptr \<Rightarrow> 'v::zero msq \<Rightarrow> 'v msq_pc \<Rightarrow> 'v msq_outcome" where
  "msq_exec t p s (FAdd x) = queue_lf_add p s x"
| "msq_exec t p s (HAdd x) = queue_hybrid_add t p s x"
| "msq_exec t p s (MRemove x) = msq_remove s x"

lemma count_queue_path:
  "path h nxt p (p # ps) NULL \<Longrightarrow> count_queue h p c = Some (c + int (length ps))"
proof (induction ps arbitrary: p c)
  case Nil
  then show ?case by (auto simp: count_queue.simps [of h p])
next
  case (Cons x xs)
  from Cons.prems obtain n where n: "h p = Some n" "nxt n = x" "x \<noteq> NULL" "path h nxt x (x # xs) NULL"
    by auto
  from Cons.IH [OF n(4), of "c + 1"] n show ?case
    by (simp add: count_queue.simps [of h p])
qed

section \<open>The invariant\<close>

text \<open>
  The nodes from \<^verbatim>\<open>head\<close> to NULL: the dummy, then one node per element. \<^verbatim>\<open>tail\<close> points to one of
  them. In the hybrid (\<open>lf\<close> false) it is the last one whenever the lock is free.
\<close>

fun msq_own :: "('v msq_pc, 'v sq_ret) control \<Rightarrow> unit ownership" where
  "msq_own (At (FAdd (FA_Tail p))) = holding {p} {} {}"
| "msq_own (At (FAdd (FA_Tail2 p q))) = holding {p} {} {}"
| "msq_own (At (FAdd (FA_Next p q r))) = holding {p} {} {}"
| "msq_own (At (FAdd (FA_Check p q r))) = holding {p} {} {}"
| "msq_own (At (FAdd (FA_CAS p q))) = holding {p} {} {}"
| "msq_own (At (FAdd (FA_Help p q r))) = holding {p} {} {}"
| "msq_own (At (HAdd (HA_Lock p))) = holding {p} {} {}"
| "msq_own (At (HAdd (HA_Tail p))) = holding {p} {} {()}"
| "msq_own (At (HAdd (HA_Link p q))) = holding {p} {} {()}"
| "msq_own (At (HAdd (HA_Swing p))) = holding {} {} {()}"
| "msq_own (At (HAdd HA_Unlock)) = holding {} {} {()}"
| "msq_own (At (MRemove (MR_Item p q))) = holding {} {p} {}"
| "msq_own (At (MRemove (MR_Free p v))) = holding {} {p} {}"
| "msq_own _ = none_owned"

definition next_of :: "'v msq \<Rightarrow> ptr \<Rightarrow> ptr option" where
  "next_of s p = map_option nxt (mq_cells s p)"

lemma next_of_cell: "mq_cells s p = Some n \<Longrightarrow> next_of s p = Some (nxt n)"
  by (simp add: next_of_def)

lemma next_of_Some: "next_of s p = Some r \<longleftrightarrow> (\<exists>n. mq_cells s p = Some n \<and> nxt n = r)"
  by (auto simp: next_of_def)

definition msq_SI :: "bool \<Rightarrow> nat \<Rightarrow> 'v msq \<Rightarrow> 'v list \<Rightarrow> (tid \<Rightarrow> unit ownership) \<Rightarrow> bool" where
  "msq_SI lf n s a w \<longleftrightarrow>
     (\<exists>ps qs. path (mq_cells s) nxt (mq_head s) (ps @ qs) NULL \<and> path (mq_cells s) nxt (mq_tail s) qs NULL \<and>
        qs \<noteq> [] \<and> items (mq_cells s) (tl (ps @ qs)) = a \<and> partition_ok (mq_mem s) (set (ps @ qs)) w) \<and>
     locks_ok (\<lambda>_. mq_tail_lock s) w \<and>
     (\<not> lf \<longrightarrow> mq_tail_lock s = None \<longrightarrow> next_of s (mq_tail s) = Some NULL)"


text \<open>A pointer read from \<^verbatim>\<open>head\<close> (\<^verbatim>\<open>tail\<close>) is still there or has been passed for good.\<close>

definition was_head :: "'v msq \<Rightarrow> (tid \<Rightarrow> unit ownership) \<Rightarrow> ptr \<Rightarrow> bool" where
  "was_head s w p \<longleftrightarrow> published (mq_mem s) w p \<and>
     (p = mq_head s \<or> p \<notin> nodes_from (mq_cells s) nxt (mq_head s))"

definition was_tail :: "'v msq \<Rightarrow> (tid \<Rightarrow> unit ownership) \<Rightarrow> ptr \<Rightarrow> bool" where
  "was_tail s w p \<longleftrightarrow> published (mq_mem s) w p \<and>
     (p = mq_tail s \<or> p \<notin> nodes_from (mq_cells s) nxt (mq_tail s) \<and> next_of s p \<noteq> Some NULL)"

definition adding :: "'v msq \<Rightarrow> ptr \<Rightarrow> ('v sq_op, 'v sq_ret) ghost \<Rightarrow> bool" where
  "adding s p g \<longleftrightarrow> (\<exists>n W. mq_cells s p = Some n \<and> nxt n = NULL \<and> g = Open (Add (item n)) W)"

fun msq_LI :: "bool \<Rightarrow> tid \<Rightarrow> 'v::zero msq \<Rightarrow> 'v list \<Rightarrow> (tid \<Rightarrow> unit ownership) \<Rightarrow>
    ('v msq_pc, 'v sq_ret) control \<Rightarrow> ('v sq_op, 'v sq_ret) ghost \<Rightarrow> bool" where
  "msq_LI lf t s a w Idle g = (g = Quiet)"
| "msq_LI lf t s a w (Finished r) g = returns g r"
| "msq_LI lf t s a w (At (FAdd (FA_Alloc v))) g = (lf \<and> (\<exists>W. g = Open (Add v) W))"
| "msq_LI lf t s a w (At (FAdd (FA_Tail p))) g = (lf \<and> adding s p g)"
| "msq_LI lf t s a w (At (FAdd (FA_Tail2 p q))) g = (lf \<and> adding s p g \<and> was_tail s w q)"
| "msq_LI lf t s a w (At (FAdd (FA_Next p q r))) g =
     (lf \<and> adding s p g \<and> was_tail s w q \<and> was_tail s w r \<and> (mq_tail s = q \<longrightarrow> r = q))"
| "msq_LI lf t s a w (At (FAdd (FA_Check p q r))) g =
     (lf \<and> adding s p g \<and> was_tail s w q \<and> (mq_tail s = q \<longrightarrow> r \<noteq> NULL \<longrightarrow> next_of s q = Some r))"
| "msq_LI lf t s a w (At (FAdd (FA_CAS p q))) g = (lf \<and> adding s p g \<and> was_tail s w q)"
| "msq_LI lf t s a w (At (FAdd (FA_Help p q r))) g =
     (lf \<and> adding s p g \<and> was_tail s w q \<and> r \<noteq> NULL \<and> (mq_tail s = q \<longrightarrow> next_of s q = Some r))"
| "msq_LI lf t s a w (At (FAdd (FA_Swing p q))) g =
     (lf \<and> g = Closed (RetInt 1) \<and> p \<noteq> NULL \<and> was_tail s w q \<and> next_of s q = Some p)"
| "msq_LI lf t s a w (At (HAdd (HA_Alloc v))) g = (\<not> lf \<and> (\<exists>W. g = Open (Add v) W))"
| "msq_LI lf t s a w (At (HAdd (HA_Lock p))) g = (\<not> lf \<and> adding s p g)"
| "msq_LI lf t s a w (At (HAdd (HA_Tail p))) g = (\<not> lf \<and> adding s p g \<and> next_of s (mq_tail s) = Some NULL)"
| "msq_LI lf t s a w (At (HAdd (HA_Link p q))) g =
     (\<not> lf \<and> adding s p g \<and> q = mq_tail s \<and> next_of s (mq_tail s) = Some NULL)"
| "msq_LI lf t s a w (At (HAdd (HA_Swing p))) g =
     (\<not> lf \<and> g = Closed (RetInt 1) \<and> p \<in> nodes_from (mq_cells s) nxt (mq_tail s) \<and> next_of s p = Some NULL)"
| "msq_LI lf t s a w (At (HAdd HA_Unlock)) g =
     (\<not> lf \<and> g = Closed (RetInt 1) \<and> next_of s (mq_tail s) = Some NULL)"
| "msq_LI lf t s a w (At (MRemove MR_Head)) g = (\<exists>W. g = Open Remove W)"
| "msq_LI lf t s a w (At (MRemove (MR_Tail h))) g = ((\<exists>W. g = Open Remove W) \<and> was_head s w h)"
| "msq_LI lf t s a w (At (MRemove (MR_Next h q))) g =
     ((\<exists>W. g = Open Remove W) \<and> was_head s w h \<and> was_tail s w q \<and>
      (mq_head s = h \<longrightarrow> q \<noteq> h \<longrightarrow> mq_tail s \<noteq> h))"
| "msq_LI lf t s a w (At (MRemove (MR_Check h q r))) g =
     ((\<exists>W. g = Open Remove W) \<and> was_head s w h \<and> was_tail s w q \<and>
      (mq_head s = h \<longrightarrow> (q \<noteq> h \<longrightarrow> mq_tail s \<noteq> h \<and> r \<noteq> NULL) \<and>
         (r \<noteq> NULL \<longrightarrow> next_of s h = Some r) \<and> (r = NULL \<longrightarrow> returns g (RetVal 0))))"
| "msq_LI lf t s a w (At (MRemove (MR_Help q r))) g =
     ((\<exists>W. g = Open Remove W) \<and> was_tail s w q \<and> r \<noteq> NULL \<and> next_of s q = Some r)"
| "msq_LI lf t s a w (At (MRemove (MR_CAS h r))) g =
     ((\<exists>W. g = Open Remove W) \<and> was_head s w h \<and> r \<noteq> NULL \<and> next_of s h = Some r \<and>
      (mq_head s = h \<longrightarrow> mq_tail s \<noteq> h))"
| "msq_LI lf t s a w (At (MRemove (MR_Item h r))) g =
     (\<exists>n. published (mq_mem s) w r \<and> mq_cells s r = Some n \<and> g = Closed (RetVal (item n)))"
| "msq_LI lf t s a w (At (MRemove (MR_Free h v))) g = (g = Closed (RetVal v))"

section \<open>Interference\<close>

lemma msq_SI_mono: "msq_SI lf n s a w \<Longrightarrow> msq_SI lf (Suc n) s a w"
  by (simp add: msq_SI_def)

text \<open>The effect of a step of thread \<open>t\<close> on the list, as the other threads may rely on it: items
  never change, a next pointer changes only from NULL, nodes are only appended, \<^verbatim>\<open>head\<close> and \<^verbatim>\<open>tail\<close>
  only move forward, and the holder of the tail lock sees neither the list nor a tail that is last
  change.\<close>

definition msq_effect :: "bool \<Rightarrow> tid \<Rightarrow> 'v msq \<Rightarrow> (tid \<Rightarrow> unit ownership) \<Rightarrow> 'v msq \<Rightarrow> unit ownership \<Rightarrow>
    ptr list \<Rightarrow> ptr list \<Rightarrow> ptr list \<Rightarrow> ptr list \<Rightarrow> bool" where
  "msq_effect lf t s w s' x ps qs ps' qs' \<longleftrightarrow>
     (\<forall>q n. mq_cells s q = Some n \<longrightarrow> q \<notin> private_nodes (w t) \<longrightarrow>
        (\<exists>n'. mq_cells s' q = Some n' \<and> item n' = item n \<and> (nxt n \<noteq> NULL \<longrightarrow> nxt n' = nxt n))) \<and>
     (\<forall>u q. u \<noteq> t \<longrightarrow> q \<in> private_nodes (w u) \<longrightarrow> mq_cells s' q = mq_cells s q) \<and>
     (\<forall>q. q \<in> private_nodes x \<longrightarrow> q \<in> private_nodes (w t) \<or> mq_cells s q = None) \<and>
     set (ps' @ qs') \<subseteq> set (ps @ qs) \<union> private_nodes (w t) \<and> set qs' \<subseteq> set qs \<union> private_nodes (w t) \<and>
     (mq_head s' = mq_head s \<or> mq_head s \<notin> set (ps' @ qs')) \<and>
     (mq_tail s' = mq_tail s \<or> mq_tail s \<notin> set qs' \<and> next_of s' (mq_tail s) \<noteq> Some NULL) \<and>
     (\<not> lf \<longrightarrow> (\<exists>u. u \<noteq> t \<and> () \<in> held (w u)) \<longrightarrow>
        (\<forall>q \<in> set (ps @ qs). mq_cells s' q = mq_cells s q) \<and>
        (mq_tail s' = mq_tail s \<or> (\<exists>r. r \<noteq> NULL \<and> next_of s (mq_tail s) = Some r \<and> mq_tail s' = r)))"

lemma msq_stable:
  fixes s :: "'v::zero msq"
  assumes hp: "path (mq_cells s) nxt (mq_head s) (ps @ qs) NULL" and tp: "path (mq_cells s) nxt (mq_tail s) qs NULL"
    and qs: "qs \<noteq> []" and part: "partition_ok (mq_mem s) (set (ps @ qs)) w"
    and hp': "path (mq_cells s') nxt (mq_head s') (ps' @ qs') NULL"
    and tp': "path (mq_cells s') nxt (mq_tail s') qs' NULL" and qs': "qs' \<noteq> []"
    and eff: "msq_effect lf t s w s' x ps qs ps' qs'"
    and ut: "u \<noteq> t" and own: "w u = msq_own z" and LI: "msq_LI lf u s a w z g"
  shows "msq_LI lf u s' a' (w(t := x)) z (observe queue_spec a' g)"
proof -
  let ?w = "w(t := x)"
  have K1: "\<exists>n'. mq_cells s' q = Some n' \<and> item n' = item n \<and> (nxt n \<noteq> NULL \<longrightarrow> nxt n' = nxt n)"
    if "mq_cells s q = Some n" "q \<notin> private_nodes (w t)" for q n
    using eff that unfolding msq_effect_def by metis
  have K2: "mq_cells s' q = mq_cells s q" if "q \<in> private_nodes (w u)" for q
    using eff that ut unfolding msq_effect_def by metis
  have sub: "set (ps' @ qs') \<subseteq> set (ps @ qs) \<union> private_nodes (w t)" "set qs' \<subseteq> set qs \<union> private_nodes (w t)"
    and hd: "mq_head s' = mq_head s \<or> mq_head s \<notin> set (ps' @ qs')"
    and tl: "mq_tail s' = mq_tail s \<or> mq_tail s \<notin> set qs' \<and> next_of s' (mq_tail s) \<noteq> Some NULL"
    and K6: "\<not> lf \<Longrightarrow> () \<in> held (w u) \<Longrightarrow> (\<forall>q \<in> set (ps @ qs). mq_cells s' q = mq_cells s q) \<and>
        (mq_tail s' = mq_tail s \<or> (\<exists>r. r \<noteq> NULL \<and> next_of s (mq_tail s) = Some r \<and> mq_tail s' = r))"
    using eff ut unfolding msq_effect_def by metis+
  have nf: "nodes_from (mq_cells s) nxt (mq_head s) = set (ps @ qs)"
    "nodes_from (mq_cells s) nxt (mq_tail s) = set qs"
    "nodes_from (mq_cells s') nxt (mq_head s') = set (ps' @ qs')"
    "nodes_from (mq_cells s') nxt (mq_tail s') = set qs'"
    using nodes_from_path hp tp hp' tp' by metis+
  have hin: "mq_head s' \<in> set (ps' @ qs')" "mq_tail s' \<in> set qs'"
    "mq_head s \<in> set (ps @ qs)" "mq_tail s \<in> set qs"
    using hp hp' tp tp' qs qs' by (cases ps'; cases qs'; cases ps; cases qs; auto)+
  have pub: "published (mq_mem s') ?w q \<and> q \<notin> private_nodes (w t)" if "published (mq_mem s) w q" for q
    using eff that K1 [of q] unfolding msq_effect_def published_def by (metis fun_upd_apply not_None_eq)
  have nx: "next_of s' q = Some r" if "published (mq_mem s) w q" "next_of s q = Some r" "r \<noteq> NULL" for q r
    using K1 [of q] pub [OF that(1)] that(2,3) unfolding next_of_Some by blast
  have nx0: "next_of s' q \<noteq> Some NULL" if "published (mq_mem s) w q" "next_of s q \<noteq> Some NULL" for q
    using K1 [of q] pub [OF that(1)] that unfolding published_def next_of_def by fastforce
  have wh: "was_head s' ?w q \<and> (mq_head s' = q \<longrightarrow> mq_head s = q)" if "was_head s w q" for q
  proof -
    from that pub [of q] have q: "published (mq_mem s') ?w q" "q \<notin> private_nodes (w t)"
      "q = mq_head s \<or> q \<notin> set (ps @ qs)"
      unfolding was_head_def nf by auto
    then have "q \<notin> set (ps @ qs) \<Longrightarrow> q \<notin> set (ps' @ qs')" using sub by blast
    with q hd hin(1) show ?thesis unfolding was_head_def nf by (elim disjE) auto
  qed
  have wt: "was_tail s' ?w q \<and> (mq_tail s' = q \<longrightarrow> mq_tail s = q)" if "was_tail s w q" for q
  proof -
    from that have p: "published (mq_mem s) w q"
      and d: "q = mq_tail s \<or> q \<notin> set qs \<and> next_of s q \<noteq> Some NULL"
      unfolding was_tail_def nf by (rule conjunct1, rule conjunct2)
    have q: "published (mq_mem s') ?w q" "q \<notin> private_nodes (w t)"
      "q = mq_tail s \<or> q \<notin> set qs \<and> next_of s' q \<noteq> Some NULL"
      using pub [OF p] nx0 [OF p] d by blast+
    then have "q \<notin> set qs \<Longrightarrow> q \<notin> set qs'" using sub by blast
    with q tl hin(2) show ?thesis unfolding was_tail_def nf by (elim disjE) auto
  qed
  have ht: "mq_tail s' \<noteq> q" if "was_head s w q" "mq_head s' = q" "mq_tail s \<noteq> q" for q
  proof -
    from wh [OF that(1)] that(2) have q: "mq_head s = q" by blast
    then have "ps \<noteq> []" using that(3) hp tp qs by (cases ps; cases qs) auto
    then have "q \<notin> set qs" using path_distinct [OF hp] hp q by (cases ps) auto
    moreover have "q \<notin> private_nodes (w t)" using pub that(1) unfolding was_head_def by blast
    ultimately show ?thesis using sub hin by blast
  qed
  have ad: "adding s' q (observe queue_spec a' g)" if "adding s q g" "q \<in> private_nodes (w u)" for q
    using that K2 [of q] by (auto simp: adding_def)
  have lk: "mq_tail s' = mq_tail s \<and> next_of s' (mq_tail s) = Some NULL"
    if "\<not> lf" "() \<in> held (w u)" "next_of s (mq_tail s) = Some NULL"
    using K6 [OF that(1,2)] that(3) hin by (auto simp: next_of_def)
  have lk2: "q \<in> set qs' \<and> next_of s' q = Some NULL"
    if H: "\<not> lf" "() \<in> held (w u)" "next_of s q = Some NULL" "q \<in> set qs" for q
  proof -
    have same: "\<forall>q \<in> set (ps @ qs). mq_cells s' q = mq_cells s q"
      and tl': "mq_tail s' = mq_tail s \<or> (\<exists>r. r \<noteq> NULL \<and> next_of s (mq_tail s) = Some r \<and> mq_tail s' = r)"
      using K6 [OF H(1,2)] by blast+
    have tps: "path (mq_cells s') nxt (mq_tail s) qs NULL" using path_cong [OF tp] same by auto
    have "q \<in> set qs'"
    proof (cases "mq_tail s' = mq_tail s")
      case True
      then show ?thesis using path_unique [OF tps] tp' H(4) by simp
    next
      case False
      then obtain r where r: "r \<noteq> NULL" "next_of s (mq_tail s) = Some r" "mq_tail s' = r" using tl' by blast
      from tps qs obtain qs2 where "qs = mq_tail s # qs2" "path (mq_cells s') nxt r qs2 NULL"
        using r(2) same hin(4) by (cases qs) (auto simp: next_of_Some)
      moreover from this have "qs' = qs2" using path_unique [OF tp'] r(3) by simp
      ultimately show ?thesis using H(3,4) r(1,2) by auto
    qed
    then show ?thesis using same H(3,4) by (auto simp: next_of_def)
  qed
  have lk3: "q \<in> nodes_from (mq_cells s') nxt (mq_tail s') \<and> next_of s' q = Some NULL"
    if "\<not> lf" "() \<in> held (w u)" "next_of s q = Some NULL" "q \<in> nodes_from (mq_cells s) nxt (mq_tail s)" for q
    using lk2 that unfolding nf by blast
  have it: "published (mq_mem s') ?w q \<and> (\<exists>n'. mq_cells s' q = Some n' \<and> item n' = item n)"
    if "published (mq_mem s) w q" "mq_cells s q = Some n" for q n
    using pub [OF that(1)] K1 [OF that(2)] by blast
  have wh1: "was_head s w q \<Longrightarrow> was_head s' ?w q" and wh2: "was_head s w q \<Longrightarrow> mq_head s' = q \<Longrightarrow> mq_head s = q" for q
    using wh by blast+
  have wt1: "was_tail s w q \<Longrightarrow> was_tail s' ?w q" and wt2: "was_tail s w q \<Longrightarrow> mq_tail s' = q \<Longrightarrow> mq_tail s = q" for q
    using wt by blast+
  have nxh: "was_head s w q \<Longrightarrow> next_of s q = Some r \<Longrightarrow> r \<noteq> NULL \<Longrightarrow> next_of s' q = Some r" 
   and nxt: "was_tail s w q \<Longrightarrow> next_of s q = Some r \<Longrightarrow> r \<noteq> NULL \<Longrightarrow> next_of s' q = Some r" for q r
    using nx unfolding was_head_def was_tail_def by blast+
  show ?thesis
  proof (cases z)
    case (At y)
    show ?thesis
    proof (cases y)
      case (FAdd pc)
      show ?thesis using LI own unfolding At FAdd
        by (cases pc) (auto simp: returns_observe simp del: fun_upd_apply intro: ad wt1 dest: wt2 nxt)
    next
      case (HAdd pc)
      show ?thesis using LI own unfolding At HAdd
        by (cases pc) (auto simp: returns_observe simp del: fun_upd_apply intro: ad dest: lk lk3)
    next
      case (MRemove pc)
      show ?thesis using LI own unfolding At MRemove
        by (cases pc) (auto simp: returns_observe simp del: fun_upd_apply intro: wh1 wt1 dest: wh2 wt2 ht nxh nxt it)
    qed
  qed (use LI in \<open>simp_all add: returns_observe\<close>)
qed

lemma msq_step_ok:
  assumes adv: "advance queue_spec a g a' g'"
    and LI': "msq_LI lf t s' a' (w(t := msq_own y)) y g'"
    and hp: "path (mq_cells s) nxt (mq_head s) (ps @ qs) NULL" and tp: "path (mq_cells s) nxt (mq_tail s) qs NULL"
    and qs: "qs \<noteq> []" and part: "partition_ok (mq_mem s) (set (ps @ qs)) w"
    and hp': "path (mq_cells s') nxt (mq_head s') (ps' @ qs') NULL"
    and tp': "path (mq_cells s') nxt (mq_tail s') qs' NULL" and qs': "qs' \<noteq> []"
    and it': "items (mq_cells s') (tl (ps' @ qs')) = a'"
    and part': "partition_ok (mq_mem s') (set (ps' @ qs')) (w(t := msq_own y))"
    and lk': "locks_ok (\<lambda>_. mq_tail_lock s') (w(t := msq_own y))"
    and tail': "\<not> lf \<Longrightarrow> mq_tail_lock s' = None \<Longrightarrow> next_of s' (mq_tail s') = Some NULL"
    and eff: "msq_effect lf t s w s' (msq_own y) ps qs ps' qs'"
  shows "step_ok queue_spec msq_own (msq_SI lf) (msq_LI lf) n t s a w g s' y"
proof (rule step_okI [where own = msq_own and SI = "msq_SI lf" and LI = "msq_LI lf", OF adv _ LI'])
  show "msq_SI lf (Suc n) s' a' (w(t := msq_own y))"
    unfolding msq_SI_def using hp' tp' qs' it' part' lk' tail' by blast
  fix u z gu
  assume "u \<noteq> t" "w u = msq_own z" "msq_LI lf u s a w z gu"
  then show "msq_LI lf u s' a' (w(t := msq_own y)) z (observe queue_spec a' gu)"
    by (rule msq_stable [OF hp tp qs part hp' tp' qs' eff])
qed

lemma msq_SI_E:
  assumes "msq_SI lf n s a w"
  obtains ps qs where "path (mq_cells s) nxt (mq_head s) (ps @ qs) NULL"
    and "path (mq_cells s) nxt (mq_tail s) qs NULL" and "qs \<noteq> []"
    and "items (mq_cells s) (tl (ps @ qs)) = a" and "partition_ok (mq_mem s) (set (ps @ qs)) w"
    and "locks_ok (\<lambda>_. mq_tail_lock s) w"
    and "\<not> lf \<longrightarrow> mq_tail_lock s = None \<longrightarrow> next_of s (mq_tail s) = Some NULL"
  using assms by (auto simp: msq_SI_def)

text \<open>Steps that leave the linked nodes alone: allocation, locking, unlocking, release.\<close>

lemma msq_aside:
  assumes SI: "msq_SI lf n s a w" and s': "s' = s\<lparr>mq_mem := m, mq_tail_lock := l\<rparr>"
    and cells: "\<And>q. mq_cells s q \<noteq> None \<Longrightarrow> cells m q = mq_cells s q"
    and part': "\<And>L. partition_ok (mq_mem s) L w \<Longrightarrow> partition_ok m L (w(t := msq_own y))"
    and priv: "\<And>q. q \<in> private_nodes (msq_own y) \<Longrightarrow> q \<in> private_nodes (w t) \<or> mq_cells s q = None"
    and lk': "locks_ok (\<lambda>_. l) (w(t := msq_own y))"
    and tail': "\<not> lf \<Longrightarrow> l = None \<Longrightarrow> next_of s (mq_tail s) = Some NULL"
    and LI': "msq_LI lf t s' a (w(t := msq_own y)) y g"
  shows "step_ok queue_spec msq_own (msq_SI lf) (msq_LI lf) n t s a w g s' y"
proof -
  from SI obtain ps qs where hp: "path (mq_cells s) nxt (mq_head s) (ps @ qs) NULL"
    and tp: "path (mq_cells s) nxt (mq_tail s) qs NULL" and qs: "qs \<noteq> []"
    and it: "items (mq_cells s) (tl (ps @ qs)) = a" and part: "partition_ok (mq_mem s) (set (ps @ qs)) w"
    by (rule msq_SI_E)
  have same: "cells m q = mq_cells s q" if "q \<in> set (ps @ qs)" for q
    using cells partition_live [OF part that] by blast
  have same_tl: "cells m q = mq_cells s q" if "q \<in> set (tl (ps @ qs))" for q
    using same that by (cases "ps @ qs") auto
  show ?thesis
  proof (rule msq_step_ok [OF advance_stay LI' hp tp qs part, of ps qs])
    show "path (mq_cells s') nxt (mq_head s') (ps @ qs) NULL"
      using path_cong [OF hp, of "cells m"] same by (simp add: s')
    show "path (mq_cells s') nxt (mq_tail s') qs NULL"
      using path_cong [OF tp, of "cells m"] same by (simp add: s')
    show "items (mq_cells s') (tl (ps @ qs)) = a" using it same_tl by (simp add: s' cong: map_cong)
    show "partition_ok (mq_mem s') (set (ps @ qs)) (w(t := msq_own y))" using part' [OF part] by (simp add: s')
    show "next_of s' (mq_tail s') = Some NULL" if "\<not> lf" "mq_tail_lock s' = None"
      using tail' that cells [of "mq_tail s"] by (auto simp: s' next_of_def)
    have "mq_cells s' q = mq_cells s q" if "q \<in> private_nodes (w u)" for q u
      using cells [of q] partition_owned [OF part private_owned [OF that]] by (simp add: s')
    then show "msq_effect lf t s w s' (msq_own y) ps qs ps qs"
      unfolding msq_effect_def using cells same priv by (auto simp: s')
  qed (use qs lk' in \<open>auto simp: s'\<close>)
qed

lemmas msq_local = step_ok_local [where own = msq_own and SI = "msq_SI lf" and LI = "msq_LI lf" for lf]

text \<open>\<^verbatim>\<open>tail\<close> moves to a later node.\<close>

lemma msq_tail_move:
  assumes SI: "msq_SI lf n s a w" and s': "s' = s\<lparr>mq_tail := r\<rparr>"
    and r: "r \<in> nodes_from (mq_cells s) nxt (mq_tail s)"
    and ow: "owned (msq_own y) \<subseteq> owned (w t)" "private_nodes (msq_own y) \<subseteq> private_nodes (w t)"
      "held (msq_own y) = held (w t)"
    and who: "next_of s (mq_tail s) = Some r \<or> () \<in> held (w t) \<or> r = mq_tail s"
    and LI': "msq_LI lf t s' a (w(t := msq_own y)) y g"
  shows "step_ok queue_spec msq_own (msq_SI lf) (msq_LI lf) n t s a w g s' y"
proof -
  from SI obtain ps qs where hp: "path (mq_cells s) nxt (mq_head s) (ps @ qs) NULL"
    and tp: "path (mq_cells s) nxt (mq_tail s) qs NULL" and qs: "qs \<noteq> []"
    and it: "items (mq_cells s) (tl (ps @ qs)) = a" and part: "partition_ok (mq_mem s) (set (ps @ qs)) w"
    and lk: "locks_ok (\<lambda>_. mq_tail_lock s) w"
    and tl: "\<not> lf \<longrightarrow> mq_tail_lock s = None \<longrightarrow> next_of s (mq_tail s) = Some NULL"
    by (rule msq_SI_E)
  have "r \<in> set qs" using r nodes_from_path [OF tp] by simp
  then obtain us vs where qs2: "qs = us @ r # vs" by (auto simp: in_set_conv_decomp)
  have rp: "path (mq_cells s) nxt r (r # vs) NULL" using tp by (auto simp: qs2 path_append)
  have rNULL: "r \<noteq> NULL" using rp by auto
  have moved: "us = [] \<and> r = mq_tail s \<or> mq_tail s \<notin> set (r # vs) \<and> next_of s (mq_tail s) \<noteq> Some NULL"
  proof (cases us)
    case Nil
    then show ?thesis using tp qs2 by simp
  next
    case (Cons u us')
    then have u: "mq_tail s = u" using tp qs2 by simp
    have ud: "u \<in> set qs" "u \<notin> set (r # vs)"
      using path_distinct [OF tp] qs2 Cons by simp_all
    have "last qs \<in> set (r # vs)" unfolding qs2 by simp
    then have ul: "u \<noteq> last qs" using ud(2) by blast
    have "next_of s u \<noteq> Some NULL"
    proof
      assume "next_of s u = Some NULL"
      then obtain m where "mq_cells s u = Some m" "nxt m = NULL" by (auto simp: next_of_Some)
      with path_last_NULL [OF tp ud(1)] ul show False by blast
    qed
    with u ud(2) show ?thesis by simp
  qed
  have other: "() \<notin> held (w u)" if "u \<noteq> t" "() \<in> held (w t)" for u
    using locks_exclusive [OF lk that(2) that(1)] .
  have "held (w t) = {()} \<or> held (w t) = {}" by auto
  show ?thesis
  proof (rule msq_step_ok [OF advance_stay LI' hp tp qs part, of "ps @ us" "r # vs"])
    show "path (mq_cells s') nxt (mq_head s') ((ps @ us) @ r # vs) NULL" using hp by (simp add: s' qs2)
    show "items (mq_cells s') (tl ((ps @ us) @ r # vs)) = a" using it by (simp add: s' qs2)
    show "partition_ok (mq_mem s') (set ((ps @ us) @ r # vs)) (w(t := msq_own y))"
      using partition_keep [OF part ow(1)] by (simp add: s' qs2 Un_assoc)
    show "next_of s' (mq_tail s') = Some NULL" if H: "\<not> lf" "mq_tail_lock s' = None"
    proof -
      from tl H have "next_of s (mq_tail s) = Some NULL" by (simp add: s')
      with moved show ?thesis by (auto simp: s' next_of_def)
    qed
    show "msq_effect lf t s w s' (msq_own y) ps qs (ps @ us) (r # vs)"
      unfolding msq_effect_def using moved ow who other rNULL
      by (auto simp: s' qs2 next_of_def)
  qed (use rp lk ow in \<open>simp_all add: s' locks_keep\<close>)
qed

text \<open>A private node is linked behind the last one.\<close>

lemma msq_link:
  assumes SI: "msq_SI lf n s a w" and tc: "mq_cells s (mq_tail s) = Some nt" "nxt nt = NULL"
    and nc: "mq_cells s node = Some nd" "nxt nd = NULL" and mine: "node \<in> private_nodes (w t)"
    and s': "s' = s\<lparr>mq_mem := put_cell (mq_tail s) (nt\<lparr>nxt := node\<rparr>) (mq_mem s)\<rparr>"
    and g: "g = Open (Add (item nd)) W"
    and ow: "owned (msq_own y) = {}" "held (msq_own y) = held (w t)" and who: "lf \<or> () \<in> held (w t)"
    and LI': "msq_LI lf t s' (a @ [item nd]) (w(t := msq_own y)) y (Closed (RetInt 1))"
  shows "step_ok queue_spec msq_own (msq_SI lf) (msq_LI lf) n t s a w g s' y"
proof -
  from SI obtain ps qs where hp: "path (mq_cells s) nxt (mq_head s) (ps @ qs) NULL"
    and tp: "path (mq_cells s) nxt (mq_tail s) qs NULL" and qs: "qs \<noteq> []"
    and it: "items (mq_cells s) (tl (ps @ qs)) = a" and part: "partition_ok (mq_mem s) (set (ps @ qs)) w"
    and lk: "locks_ok (\<lambda>_. mq_tail_lock s) w"
    by (rule msq_SI_E)
  let ?T = "mq_tail s"
  have qs1: "qs = [?T]" using tp qs tc by (cases qs) auto
  have owns: "node \<in> owned (w t)" using mine by blast
  have node: "node \<noteq> NULL" "node \<notin> set (ps @ qs)" using partition_owned [OF part owns] by auto
  have dist: "distinct (ps @ [?T])" using path_distinct [OF hp] qs1 by simp
  have T: "?T \<notin> owned (w u)" for u using partition_live [OF part, of ?T] qs1 by auto
  have np: "node \<noteq> ?T" using node qs1 by auto
  have c': "mq_cells s' = (mq_cells s)(?T \<mapsto> nt\<lparr>nxt := node\<rparr>)" by (simp add: s')
  have hp': "path (mq_cells s') nxt (mq_head s') (ps @ [?T, node]) NULL"
    unfolding c' using hp qs1 node nc dist by (intro path_link [where h = "mq_cells s" and n = "nt\<lparr>nxt := node\<rparr>" and m = nd]) (auto simp: s')
  show ?thesis
  proof (rule msq_step_ok [OF _ LI' hp tp qs part, where ps' = ps and qs' = "[?T, node]"])
    show "advance queue_spec a g (a @ [item nd]) (Closed (RetInt 1))" by (auto simp: g)
    show "path (mq_cells s') nxt (mq_tail s') [?T, node] NULL" using hp' by (auto simp: path_append s')
    have "items (mq_cells s') ps = items (mq_cells s) ps" "items (mq_cells s') (tl ps) = items (mq_cells s) (tl ps)"
      using dist by (cases ps; simp add: c')+
    then show "items (mq_cells s') (tl (ps @ [?T, node])) = a @ [item nd]"
      using it qs1 np nc tc by (cases ps) (auto simp: c')
    have "partition_ok (put_cell ?T (nt\<lparr>nxt := node\<rparr>) (mq_mem s)) (insert node (set (ps @ qs))) (w(t := msq_own y))"
      using partition_publish [OF partition_write [OF part] owns] tc ow by simp
    then show "partition_ok (mq_mem s') (set (ps @ [?T, node])) (w(t := msq_own y))"
      by (simp add: s' qs1 insert_commute)
    show "next_of s' (mq_tail s') = Some NULL" if "\<not> lf" "mq_tail_lock s' = None"
      using that who lk by (auto simp: s' locks_ok_def)
    have "() \<notin> held (w u)" if "\<not> lf" "u \<noteq> t" for u
      using who locks_exclusive [OF lk _ that(2)] that(1) by blast
    moreover have "?T \<notin> private_nodes (w u)" for u using T by blast
    ultimately show "msq_effect lf t s w s' (msq_own y) ps qs ps [?T, node]"
      unfolding msq_effect_def using mine ow tc by (auto simp: c' s' qs1 owned_def)
  qed (use hp' lk ow in \<open>simp_all add: s' locks_keep\<close>)
qed

text \<open>\<^verbatim>\<open>head\<close> moves to the next node; the old dummy is retired.\<close>

lemma msq_head_move:
  assumes SI: "msq_SI lf n s a w" and s': "s' = s\<lparr>mq_head := r\<rparr>"
    and r: "next_of s (mq_head s) = Some r" "r \<noteq> NULL" and ht: "mq_head s \<noteq> mq_tail s"
    and rc: "mq_cells s r = Some nr" and g: "g = Open Remove W"
    and ow: "owned (msq_own y) = {mq_head s}" "private_nodes (msq_own y) = {}" "held (msq_own y) = held (w t)"
    and LI': "\<And>a'. msq_LI lf t s' a' (w(t := msq_own y)) y (Closed (RetVal (item nr)))"
  shows "step_ok queue_spec msq_own (msq_SI lf) (msq_LI lf) n t s a w g s' y"
proof -
  from SI obtain ps qs where hp: "path (mq_cells s) nxt (mq_head s) (ps @ qs) NULL"
    and tp: "path (mq_cells s) nxt (mq_tail s) qs NULL" and qs: "qs \<noteq> []"
    and it: "items (mq_cells s) (tl (ps @ qs)) = a" and part: "partition_ok (mq_mem s) (set (ps @ qs)) w"
    and lk: "locks_ok (\<lambda>_. mq_tail_lock s) w"
    and tl: "\<not> lf \<longrightarrow> mq_tail_lock s = None \<longrightarrow> next_of s (mq_tail s) = Some NULL"
    by (rule msq_SI_E)
  let ?H = "mq_head s"
  from hp tp qs ht obtain ps' where ps: "ps = ?H # ps'" by (cases ps; cases qs) auto
  have rp: "path (mq_cells s) nxt r (ps' @ qs) NULL" using hp r by (auto simp: ps next_of_Some)
  have notin: "?H \<notin> set (ps' @ qs)" using path_distinct [OF hp] by (simp add: ps)
  from rp r(2) obtain rest where rest: "ps' @ qs = r # rest" by (cases "ps' @ qs") auto
  have a: "a = item nr # items (mq_cells s) rest" using it rc by (simp add: ps rest)
  have LI2: "msq_LI lf t s' (items (mq_cells s) rest) (w(t := msq_own y)) y (Closed (RetVal (item nr)))"
    by (rule LI')
  show ?thesis
  proof (rule msq_step_ok [OF _ LI2 hp tp qs part, where ps' = ps' and qs' = qs])
    show "advance queue_spec a g (items (mq_cells s) rest) (Closed (RetVal (item nr)))"
      unfolding g by (rule advance_lin) (simp add: a)
    show "items (mq_cells s') (tl (ps' @ qs)) = items (mq_cells s) rest" by (simp add: s' rest)
    have "set (ps @ qs) - {?H} = set (ps' @ qs)" using notin by (auto simp: ps)
    then show "partition_ok (mq_mem s') (set (ps' @ qs)) (w(t := msq_own y))"
      using partition_retire [OF part, of ?H "msq_own y" t] ow by (simp add: s' ps)
    show "msq_effect lf t s w s' (msq_own y) ps qs ps' qs"
      unfolding msq_effect_def using ow notin by (auto simp: s' ps)
  qed (use rp tp qs lk ow tl in \<open>simp_all add: s' locks_keep next_of_def\<close>)
qed

section \<open>The steps\<close>

lemma msq_tail_facts:
  assumes SI: "msq_SI lf n s a w"
  shows "was_tail s w (mq_tail s)" and "was_head s w (mq_head s)" and "\<exists>m. mq_cells s (mq_tail s) = Some m"
    and "mq_head s \<noteq> mq_tail s \<Longrightarrow> \<exists>r. next_of s (mq_head s) = Some r \<and> r \<noteq> NULL"
    and "next_of s (mq_head s) = Some NULL \<Longrightarrow> a = []"
    and "next_of s (mq_tail s) = Some r \<Longrightarrow> r \<noteq> NULL \<Longrightarrow> r \<in> nodes_from (mq_cells s) nxt (mq_tail s)"
    and "next_of s p = Some r \<Longrightarrow> r \<noteq> NULL \<Longrightarrow> mq_head s = p \<Longrightarrow> published (mq_mem s) w r \<and> (\<exists>m. mq_cells s r = Some m)"
proof -
  from SI obtain ps qs where hp: "path (mq_cells s) nxt (mq_head s) (ps @ qs) NULL"
    and tp: "path (mq_cells s) nxt (mq_tail s) qs NULL" and qs: "qs \<noteq> []"
    and it: "items (mq_cells s) (tl (ps @ qs)) = a" and part: "partition_ok (mq_mem s) (set (ps @ qs)) w"
    by (rule msq_SI_E)
  have ht: "mq_tail s \<in> set (ps @ qs)" "mq_head s \<in> set (ps @ qs)"
    using hp tp qs by (cases ps; cases qs; auto)+
  then show "was_tail s w (mq_tail s)" "was_head s w (mq_head s)"
    unfolding was_tail_def was_head_def using published_live [OF part] by blast+
  from tp qs show "\<exists>m. mq_cells s (mq_tail s) = Some m" by (cases qs) auto
  show "\<exists>r. next_of s (mq_head s) = Some r \<and> r \<noteq> NULL" if "mq_head s \<noteq> mq_tail s"
  proof -
    have "ps \<noteq> []" using hp tp qs that by (cases ps; cases qs) auto
    with hp obtain ps' m where "mq_cells s (mq_head s) = Some m" "path (mq_cells s) nxt (nxt m) (ps' @ qs) NULL"
      by (cases ps) auto
    with qs show ?thesis by (cases "nxt m = NULL") (auto simp: next_of_def)
  qed
  show "a = []" if "next_of s (mq_head s) = Some NULL"
    using hp it that by (cases "ps @ qs") (auto simp: next_of_Some)
  show "r \<in> nodes_from (mq_cells s) nxt (mq_tail s)" if "next_of s (mq_tail s) = Some r" "r \<noteq> NULL"
  proof -
    from tp qs that obtain rest where "qs = mq_tail s # rest" "path (mq_cells s) nxt r rest NULL"
      by (cases qs) (auto simp: next_of_Some)
    with path_nonempty [OF this(2) that(2)] show ?thesis unfolding nodes_from_path [OF tp] by auto
  qed
  show "published (mq_mem s) w r \<and> (\<exists>m. mq_cells s r = Some m)"
    if "next_of s p = Some r" "r \<noteq> NULL" "mq_head s = p"
  proof -
    from hp qs that obtain rest where rest: "ps @ qs = mq_head s # rest" "path (mq_cells s) nxt r rest NULL"
      by (cases "ps @ qs") (auto simp: next_of_Some)
    with path_nonempty [OF rest(2) that(2)] have "r \<in> set (ps @ qs)" by auto
    then show ?thesis using published_live [OF part] published_cell by blast
  qed
qed

lemma was_tailD: "was_tail s w q \<Longrightarrow> \<exists>m. mq_cells s q = Some m"
  by (auto simp: was_tail_def published_def)

lemma was_headD: "was_head s w q \<Longrightarrow> \<exists>m. mq_cells s q = Some m"
  by (auto simp: was_head_def published_def)

lemma queue_lf_add_step:
  assumes SI: "msq_SI lf n s a w" and LI: "msq_LI lf t s a w (At (FAdd x)) g"
    and own: "w t = msq_own (At (FAdd x))" and ex: "queue_lf_add p s x = Next s' y"
  shows "step_ok queue_spec msq_own (msq_SI lf) (msq_LI lf) n t s a w g s' y"
proof -
  note loc = msq_local [OF msq_SI_mono [OF SI]]
  have lf: "lf" using LI by (cases x) auto
  from SI have lk: "locks_ok (\<lambda>_. mq_tail_lock s) w" by (simp add: msq_SI_def)
  show ?thesis
  proof (cases x)
    case (FA_Alloc v)
    with ex have fresh: "fresh (mq_cells s) p"
      and s': "s' = s\<lparr>mq_mem := put_cell p (allocate_stackqueue_node v NULL) (mq_mem s)\<rparr>"
      and y: "y = At (FAdd (FA_Tail p))"
      by auto
    show ?thesis
      using LI FA_Alloc fresh lf own locks_keep [OF lk]
      by (intro msq_aside [OF SI, where m = "put_cell p (allocate_stackqueue_node v NULL) (mq_mem s)" and l = "mq_tail_lock s"])
        (auto simp: s' y sq_node_defs adding_def fresh_def [of _ p] simp del: fun_upd_apply
          intro!: partition_allocate, auto simp: fresh_def)
  next
    case (FA_Tail node)
    then show ?thesis using loc ex LI own msq_tail_facts(1) [OF SI] by auto
  next
    case (FA_Tail2 node tail)
    then show ?thesis using loc ex LI own msq_tail_facts(1) [OF SI] by auto
  next
    case (FA_Next node tail tail2)
    then show ?thesis using loc ex LI own by (auto simp: next_of_Some)
  next
    case (FA_Check node tail nx)
    then show ?thesis using loc ex LI own by (auto split: if_splits)
  next
    case (FA_CAS node tail)
    with LI obtain nd W where nd: "mq_cells s node = Some nd" "nxt nd = NULL" "g = Open (Add (item nd)) W"
      and wt: "was_tail s w tail"
      by (auto simp: adding_def)
    with ex FA_CAS obtain m where m: "mq_cells s tail = Some m" by auto
    show ?thesis
    proof (cases "nxt m = NULL")
      case False
      with ex FA_CAS m have "s' = s" and y: "y = At (FAdd (FA_Tail node))" by (auto simp: put_cell_def fun_upd_idem)
      with loc LI own FA_CAS show ?thesis by auto
    next
      case True
      with wt m have tail: "tail = mq_tail s" by (auto simp: was_tail_def next_of_def)
      from True ex FA_CAS m have s': "s' = s\<lparr>mq_mem := put_cell (mq_tail s) (m\<lparr>nxt := node\<rparr>) (mq_mem s)\<rparr>"
        and y: "y = At (FAdd (FA_Swing node tail))"
        by (auto simp: tail)
      have mine: "node \<in> private_nodes (w t)" using own FA_CAS by simp
      from SI obtain L where part: "partition_ok (mq_mem s) L w" "mq_tail s \<in> L"
        unfolding msq_SI_def by (metis Un_iff list.set_intros(1) list.exhaust path.simps(2) set_append)
      have "node \<noteq> NULL" using partition_owned [OF part(1) private_owned [OF mine]] by blast
      moreover have "was_tail s' (w(t := none_owned)) tail"
        using wt True m tail partition_live [OF part]
        by (auto simp: was_tail_def published_def s')
      ultimately show ?thesis
        using m nd mine own FA_CAS lf True
        by (intro msq_link [OF SI _ True _ _ mine s']) (auto simp: y tail next_of_def s' simp del: fun_upd_apply, auto)
    qed
  next
    case (FA_Help node tail nx)
    show ?thesis
    proof (cases "mq_tail s = tail")
      case False
      with ex FA_Help have "s' = s" and y: "y = At (FAdd (FA_Tail node))" by auto
      with loc LI own FA_Help show ?thesis by auto
    next
      case True
      with ex FA_Help have s': "s' = s\<lparr>mq_tail := nx\<rparr>" and y: "y = At (FAdd (FA_Tail node))" by auto
      from LI True FA_Help have nx: "next_of s (mq_tail s) = Some nx" "nx \<noteq> NULL" by auto
      show ?thesis
        using LI own FA_Help msq_tail_facts(6) [OF SI nx] nx
        by (intro msq_tail_move [OF SI s']) (auto simp: y s' adding_def)
    qed
  next
    case (FA_Swing node tail)
    show ?thesis
    proof (cases "mq_tail s = tail")
      case False
      with ex FA_Swing have "s' = s" and y: "y = Finished (RetInt 1)" by auto
      with loc LI own FA_Swing show ?thesis by auto
    next
      case True
      with ex FA_Swing have s': "s' = s\<lparr>mq_tail := node\<rparr>" and y: "y = Finished (RetInt 1)" by auto
      from LI True FA_Swing have nx: "next_of s (mq_tail s) = Some node" "node \<noteq> NULL" by auto
      show ?thesis
        using LI own FA_Swing msq_tail_facts(6) [OF SI nx] nx
        by (intro msq_tail_move [OF SI s']) (auto simp: y s')
    qed
  qed
qed

lemma queue_hybrid_add_step:
  assumes SI: "msq_SI lf n s a w" and LI: "msq_LI lf t s a w (At (HAdd x)) g"
    and own: "w t = msq_own (At (HAdd x))" and ex: "queue_hybrid_add t p s x = Next s' y"
  shows "step_ok queue_spec msq_own (msq_SI lf) (msq_LI lf) n t s a w g s' y"
proof -
  note loc = msq_local [OF msq_SI_mono [OF SI]]
  have lf: "\<not> lf" using LI by (cases x) auto
  from SI have lk: "locks_ok (\<lambda>_. mq_tail_lock s) w"
    and tl: "mq_tail_lock s = None \<Longrightarrow> next_of s (mq_tail s) = Some NULL"
    using lf by (auto simp: msq_SI_def)
  have same: "s = s\<lparr>mq_mem := mq_mem s, mq_tail_lock := l\<rparr>" if "l = mq_tail_lock s" for l
    using that by simp
  show ?thesis
  proof (cases x)
    case (HA_Alloc v)
    with ex have fresh: "fresh (mq_cells s) p"
      and s': "s' = s\<lparr>mq_mem := put_cell p (allocate_stackqueue_node v NULL) (mq_mem s)\<rparr>"
      and y: "y = At (HAdd (HA_Lock p))"
      by auto
    show ?thesis
      using LI HA_Alloc fresh lf own locks_keep [OF lk] tl
      by (intro msq_aside [OF SI, where m = "put_cell p (allocate_stackqueue_node v NULL) (mq_mem s)" and l = "mq_tail_lock s"])
        (auto simp: s' y sq_node_defs adding_def fresh_def [of _ p] simp del: fun_upd_apply
          intro!: partition_allocate, auto simp: fresh_def)
  next
    case (HA_Lock node)
    with ex have free: "mq_tail_lock s = None" and s': "s' = s\<lparr>mq_tail_lock := Some t\<rparr>"
      and y: "y = At (HAdd (HA_Tail node))"
      by (auto split: if_splits)
    show ?thesis
      using LI HA_Lock lf own lock_taken [OF lk free] tl [OF free]
      by (intro msq_aside [OF SI, where m = "mq_mem s" and l = "Some t"])
        (auto simp: s' y adding_def next_of_def simp del: fun_upd_apply intro: partition_keep)
  next
    case (HA_Tail node)
    then show ?thesis using loc ex LI own by auto
  next
    case (HA_Link node tail)
    with LI obtain nd W m where nd: "mq_cells s node = Some nd" "nxt nd = NULL" "g = Open (Add (item nd)) W"
      and m: "mq_cells s (mq_tail s) = Some m" "nxt m = NULL" and tail: "tail = mq_tail s"
      by (auto simp: adding_def next_of_Some)
    with ex HA_Link have s': "s' = s\<lparr>mq_mem := put_cell (mq_tail s) (m\<lparr>nxt := node\<rparr>) (mq_mem s)\<rparr>"
      and y: "y = At (HAdd (HA_Swing node))"
      by auto
    have mine: "node \<in> private_nodes (w t)" using own HA_Link by simp
    from SI obtain ps qs where part: "partition_ok (mq_mem s) (set (ps @ qs)) w"
      and tp: "path (mq_cells s) nxt (mq_tail s) qs NULL" "qs \<noteq> []"
      unfolding msq_SI_def by blast
    have node: "node \<noteq> NULL" using partition_owned [OF part private_owned [OF mine]] by blast
    have np: "node \<noteq> mq_tail s"
      using partition_owned [OF part private_owned [OF mine]] tp by (cases qs) auto
    have "path (mq_cells s') nxt (mq_tail s) [mq_tail s, node] NULL"
      using m nd node np tp by (cases qs) (auto simp: s')
    from nodes_from_path [OF this] have "node \<in> nodes_from (mq_cells s') nxt (mq_tail s')"
      by (simp add: s')
    then show ?thesis
      using m nd mine own HA_Link lf np
      by (intro msq_link [OF SI m nd(1,2) mine s' nd(3)]) (auto simp: y next_of_def s')
  next
    case (HA_Swing node)
    with ex have s': "s' = s\<lparr>mq_tail := node\<rparr>" and y: "y = At (HAdd HA_Unlock)" by auto
    show ?thesis
      using LI own HA_Swing by (intro msq_tail_move [OF SI s']) (auto simp: y s' next_of_def)
  next
    case HA_Unlock
    with ex have s': "s' = s\<lparr>mq_tail_lock := None\<rparr>" and y: "y = Finished (RetInt 1)" by auto
    have hw: "held (w t) = {()}" using own HA_Unlock by simp
    show ?thesis
      using LI HA_Unlock lf own lock_freed [OF lk hw]
      by (intro msq_aside [OF SI, where m = "mq_mem s" and l = None])
        (auto simp: s' y simp del: fun_upd_apply intro: partition_keep)
  qed
qed

lemma msq_remove_step:
  assumes SI: "msq_SI lf n s a w" and LI: "msq_LI lf t s a w (At (MRemove x)) g"
    and obs: "observed queue_spec a g"
    and own: "w t = msq_own (At (MRemove x))" and ex: "msq_remove s x = Next s' y"
  shows "step_ok queue_spec msq_own (msq_SI lf) (msq_LI lf) n t s a w g s' y"
proof -
  note loc = msq_local [OF msq_SI_mono [OF SI]] and facts = msq_tail_facts [OF SI]
  from SI have lk: "locks_ok (\<lambda>_. mq_tail_lock s) w"
    and tl: "\<not> lf \<Longrightarrow> mq_tail_lock s = None \<Longrightarrow> next_of s (mq_tail s) = Some NULL"
    by (auto simp: msq_SI_def)
  show ?thesis
  proof (cases x)
    case MR_Head
    then show ?thesis using loc ex LI own facts(2) by auto
  next
    case (MR_Tail head)
    then show ?thesis using loc ex LI own facts(1) by auto
  next
    case (MR_Next head tail)
    with LI obtain W where g: "g = Open Remove W" by auto
    from MR_Next ex obtain m where m: "mq_cells s head = Some m" and s': "s' = s"
      and y: "y = At (MRemove (MR_Check head tail (nxt m)))" by auto
    have "RetVal 0 \<in> W" if "mq_head s = head" "nxt m = NULL"
      using facts(5) that m obs g by (auto simp: next_of_def legal_def)
    moreover have "nxt m \<noteq> NULL" if "mq_head s = head" "mq_tail s \<noteq> head"
      using facts(4) that m by (auto simp: next_of_def)
    ultimately show ?thesis
      unfolding s' using LI own MR_Next m g by (intro loc) (auto simp: y next_of_def)
  next
    case (MR_Check head tail nx)
    then show ?thesis using loc ex LI own by (auto split: if_splits simp: was_tail_def)
  next
    case (MR_Help tail nx)
    show ?thesis
    proof (cases "mq_tail s = tail")
      case False
      with ex MR_Help have "s' = s" and y: "y = At (MRemove MR_Head)" by auto
      with loc LI own MR_Help show ?thesis by auto
    next
      case True
      with ex MR_Help have s': "s' = s\<lparr>mq_tail := nx\<rparr>" and y: "y = At (MRemove MR_Head)" by auto
      from LI True MR_Help have nx: "next_of s (mq_tail s) = Some nx" "nx \<noteq> NULL" by auto
      show ?thesis
        using LI own MR_Help facts(6) [OF nx] nx
        by (intro msq_tail_move [OF SI s']) (auto simp: y s')
    qed
  next
    case (MR_CAS head nx)
    show ?thesis
    proof (cases "mq_head s = head")
      case False
      with ex MR_CAS have "s' = s" and y: "y = At (MRemove MR_Head)" by auto
      with loc LI own MR_CAS show ?thesis by auto
    next
      case True
      with ex MR_CAS have s': "s' = s\<lparr>mq_head := nx\<rparr>" and y: "y = At (MRemove (MR_Item head nx))" by auto
      from LI True MR_CAS obtain W where nx: "next_of s (mq_head s) = Some nx" "nx \<noteq> NULL"
        and ht: "mq_head s \<noteq> mq_tail s" and g: "g = Open Remove W" by auto
      from facts(7) [OF nx refl] obtain m where m: "published (mq_mem s) w nx" "mq_cells s nx = Some m" by blast
      show ?thesis
        using own MR_CAS m True
        by (intro msq_head_move [OF SI s' nx ht m(2) g]) (auto simp: y s' published_def)
    qed
  next
    case (MR_Item head nx)
    then show ?thesis using loc ex LI own by auto
  next
    case (MR_Free head val)
    with LI have g: "g = Closed (RetVal val)" by simp
    have mine: "head \<in> owned (w t)" using own MR_Free by simp
    from ex MR_Free have s': "s' = s\<lparr>mq_mem := (mq_mem s)\<lparr>released := insert head (released (mq_mem s))\<rparr>\<rparr>"
      and y: "y = Finished (RetVal val)"
      by (auto simp: sq_node_defs)
    show ?thesis
      using g own MR_Free locks_keep [OF lk] tl mine
      by (intro msq_aside [OF SI, where m = "(mq_mem s)\<lparr>released := insert head (released (mq_mem s))\<rparr>" and l = "mq_tail_lock s"])
        (auto simp: s' y simp del: fun_upd_apply intro: partition_release)
  qed
qed

lemma msq_safe:
  assumes SI: "msq_SI lf n s a w" and LI: "msq_LI lf t s a w (At x) g" and own: "w t = msq_own (At x)"
  shows "msq_exec t p s x \<noteq> Fault"
proof -
  have ow: "mq_cells s q \<noteq> None \<and> q \<notin> released (mq_mem s)" if "q \<in> owned (w t)" for q
    using SI that by (auto simp: msq_SI_def dest: partition_owned)
  note tc = msq_tail_facts(3) [OF SI]
  show ?thesis
  proof (cases x)
    case (FAdd z)
    then show ?thesis using LI tc by (cases z) (auto simp: Let_def dest!: was_tailD)
  next
    case (HAdd z)
    then show ?thesis using LI tc by (cases z) (auto simp: next_of_Some)
  next
    case (MRemove z)
    then show ?thesis using LI own ow by (cases z) (auto simp: sq_node_defs dest!: was_headD)
  qed
qed

section \<open>Correctness\<close>

lemma msq_step:
  "msq_SI lf n s a w \<Longrightarrow> msq_LI lf t s a w (At x) g \<Longrightarrow> observed queue_spec a g \<Longrightarrow>
   w t = msq_own (At x) \<Longrightarrow> msq_exec t p s x = Next s' y \<Longrightarrow>
   step_ok queue_spec msq_own (msq_SI lf) (msq_LI lf) n t s a w g s' y"
  using queue_lf_add_step queue_hybrid_add_step msq_remove_step by (cases x) auto

lemma msq_call:
  assumes "(if lf then queue_lf_start else queue_hybrid_start) op = Some x"
  shows "msq_own (At x) = msq_own Idle"
    and "msq_LI lf t s a w (At x) (Open op (legal queue_spec op a))"
  using assms by (cases op; cases lf; auto)+

lemmas queue_lf_call = msq_call [where lf = True, simplified]
lemmas queue_hybrid_call = msq_call [where lf = False, simplified]

lemma msq_SI_init: "d \<noteq> NULL \<Longrightarrow> msq_SI lf 0 (msq_init d v None) [] (\<lambda>_. msq_own Idle)"
  unfolding msq_SI_def
  by (intro conjI exI [of _ "[]"] exI [of _ "[d]"])
    (auto simp: msq_init_def next_of_def intro!: partition_init locks_init)

text \<open>The dummy node of the constructor is at an arbitrary non-NULL address.\<close>

interpretation queue_lf: thread_object queue_spec "[]" queue_lf_start msq_exec "msq_init d v None"
  msq_own "\<lambda>_. d \<noteq> NULL" "msq_SI True" "msq_LI True" for d v
  by unfold_locales (assumption | rule msq_SI_init msq_SI_mono msq_step queue_lf_call msq_safe, assumption+ | simp)+

interpretation queue_hybrid: thread_object queue_spec "[]" queue_hybrid_start msq_exec "msq_init d v None"
  msq_own "\<lambda>_. d \<noteq> NULL" "msq_SI False" "msq_LI False" for d v
  by unfold_locales (assumption | rule msq_SI_init msq_SI_mono msq_step queue_hybrid_call msq_safe, assumption+ | simp)+

lemma msq_SI_count:
  assumes "msq_SI lf n s a w"
  shows "msq_count s = Some (int (length a))"
proof -
  from assms obtain ps qs where *: "path (mq_cells s) nxt (mq_head s) (ps @ qs) NULL" "qs \<noteq> []"
      "items (mq_cells s) (tl (ps @ qs)) = a"
    by (auto simp: msq_SI_def)
  then have "path (mq_cells s) nxt (mq_head s) (mq_head s # tl (ps @ qs)) NULL"
    by (cases "ps @ qs") auto
  from count_queue_path [OF this, of 0] *(3) show ?thesis by (auto simp: msq_count_def)
qed

section \<open>Concrete runs\<close>

text \<open>Lock-free: thread 1 links 7 behind the dummy; thread 0, which wants to add 5, sees the lagging
  tail and helps; thread 2 dequeues 7 up to the read of the item while thread 0 links its node.\<close>

definition queue_lf_demo :: "int sq_op command list" where
  "queue_lf_demo = [Do_Call 1 (Add 7), Do_Step 1 2, Do_Step 1 0, Do_Step 1 0, Do_Step 1 0, Do_Step 1 0, Do_Step 1 0,
     Do_Call 0 (Add 5), Do_Step 0 3, Do_Step 0 0, Do_Step 0 0, Do_Step 0 0, Do_Step 0 0, Do_Step 0 0,
     Do_Step 0 0, Do_Step 0 0, Do_Step 0 0, Do_Step 0 0, Do_Step 0 0, Do_Step 1 0, Do_Return 1,
     Do_Call 2 Remove, Do_Step 2 0, Do_Step 2 0, Do_Step 2 0, Do_Step 2 0, Do_Step 2 0,
     Do_Step 0 0, Do_Return 0]"

definition queue_lf_demo_history :: "(int sq_op, int sq_ret) history" where
  "queue_lf_demo_history = [(1, Call (Add 7)), (0, Call (Add 5)), (1, Return (RetInt 1)), (2, Call Remove),
     (0, Return (RetInt 1))]"

lemma queue_lf_demo_run:
  "\<exists>s c. run queue_lf_start msq_exec (msq_init 1 0 None) (length queue_lf_demo) queue_lf_demo_history (s, c)
     \<and> c 2 = At (MRemove (MR_Item 1 2)) \<and> msq_count s = Some 1"
  unfolding queue_lf_demo_history_def msq_count_def
  by (rule replay_exhibits) (simp add: queue_lf_demo_def msq_init_def fresh_def alloc_def
      put_cell_def empty_store_def sq_node_defs count_queue.simps)

text \<open>Hybrid: thread 0 holds the tail lock and has linked 5 when thread 1, dequeuing, helps the tail
  forward and takes 5.\<close>

definition queue_hybrid_demo :: "int sq_op command list" where
  "queue_hybrid_demo = [Do_Call 0 (Add 5), Do_Step 0 2, Do_Step 0 0, Do_Step 0 0, Do_Step 0 0,
     Do_Call 1 Remove, Do_Step 1 0, Do_Step 1 0, Do_Step 1 0, Do_Step 1 0, Do_Step 1 0,
     Do_Step 1 0, Do_Step 1 0, Do_Step 1 0, Do_Step 1 0, Do_Step 1 0, Do_Step 0 0, Do_Step 0 0, Do_Return 0]"

definition queue_hybrid_demo_history :: "(int sq_op, int sq_ret) history" where
  "queue_hybrid_demo_history = [(0, Call (Add 5)), (1, Call Remove), (0, Return (RetInt 1))]"

lemma queue_hybrid_demo_run:
  "\<exists>s c. run queue_hybrid_start msq_exec (msq_init 1 0 None) (length queue_hybrid_demo) queue_hybrid_demo_history (s, c)
     \<and> c 1 = At (MRemove (MR_Item 1 2)) \<and> msq_count s = Some 0"
  unfolding queue_hybrid_demo_history_def msq_count_def
  by (rule replay_exhibits) (simp add: queue_hybrid_demo_def msq_init_def fresh_def alloc_def
      put_cell_def empty_store_def sq_node_defs count_queue.simps)

section \<open>Properties\<close>

text \<open>C4: every concurrent run of the lock-free Michael-Scott queue is linearizable with respect to the
  FIFO specification: each \<^verbatim>\<open>remove\<close> returns the oldest value at its linearization point, or 0
  when the queue is empty there.\<close>

theorem queue_lf_linearizable:
  assumes "run queue_lf_start msq_exec (msq_init d v None) n h k" and "d \<noteq> NULL"
  shows "linearizable queue_spec [] h"
  using queue_lf.linearizable [OF assms] .

theorem queue_lf_linearizable_witness: "linearizable queue_spec [] queue_lf_demo_history"
  using queue_lf_demo_run queue_lf_linearizable [where d = 1] by fastforce

text \<open>C8: in every reachable state of the lock-free queue \<^verbatim>\<open>count()\<close> terminates with the number of
  elements of the abstract queue, and no thread is about to dereference a pointer that is not a node
  or to release a node twice.\<close>

theorem queue_lf_count_safe:
  assumes "run queue_lf_start msq_exec (msq_init d v None) n h (s, c)" and "d \<noteq> NULL"
  shows "(\<exists>a. linearizes_to queue_spec [] h a \<and> msq_count s = Some (int (length a)))
    \<and> (\<forall>t p x. c t = At x \<longrightarrow> msq_exec t p s x \<noteq> Fault)"
  using queue_lf.reachable_SI [OF assms] queue_lf.no_fault [OF assms] msq_SI_count by blast

theorem queue_lf_count_safe_witness:
  "\<exists>s c a. run queue_lf_start msq_exec (msq_init 1 0 None) (length queue_lf_demo) queue_lf_demo_history (s, c)
     \<and> linearizes_to queue_spec [] queue_lf_demo_history a \<and> msq_count s = Some (int (length a))
     \<and> msq_exec 2 NULL s (MRemove (MR_Item 1 2)) \<noteq> Fault"
  using queue_lf_demo_run queue_lf_count_safe [where d = 1] by fastforce

text \<open>C5: every concurrent run of the hybrid queue (locked \<^verbatim>\<open>add\<close>, lock-free \<^verbatim>\<open>remove\<close>) whose tail
  lock is initially free, which the constructor does not establish, is linearizable with respect to the
  FIFO specification.\<close>

theorem queue_hybrid_linearizable:
  assumes "run queue_hybrid_start msq_exec (msq_init d v l) n h k" and "l = None" and "d \<noteq> NULL"
  shows "linearizable queue_spec [] h"
  using queue_hybrid.linearizable [OF assms(1) [unfolded assms(2)] assms(3)] .

theorem queue_hybrid_linearizable_witness: "linearizable queue_spec [] queue_hybrid_demo_history"
  using queue_hybrid_demo_run queue_hybrid_linearizable [where d = 1 and l = None] by fastforce

end
