(* ===== verification/Queue_MS_LB.thy ===== *)
theory Queue_MS_LB
  imports Queue_MS
begin

text \<open>
  The two-lock Michael-Scott queue, \<^verbatim>\<open>src/algorithms/queue_ms_lb.h\<close>: \<^verbatim>\<open>add\<close> under the tail lock,
  \<^verbatim>\<open>remove\<close> under the head lock. The branch of \<^verbatim>\<open>remove\<close> for the empty queue releases the head lock
  with \<^verbatim>\<open>UNLOCK\<close>, every other place uses \<^verbatim>\<open>LOCK_A\<close> and \<^verbatim>\<open>UNLOCK_A\<close>: in a build with
  \<^verbatim>\<open>LL_GLOBAL_LOCK\<close> (\<open>gl\<close>), \<^verbatim>\<open>UNLOCK\<close> expands to nothing. The queue is proved linearizable for
  the other builds; for this build it is shown that the first \<^verbatim>\<open>remove\<close> on an empty queue leaves the head
  lock taken for ever. The constructor does not initialise the locks (\<open>l1\<close>, \<open>l2\<close>).
\<close>

section \<open>The code\<close>

record 'v lbq =
  lb_head :: ptr
  lb_tail :: ptr
  lb_head_lock :: "tid option"
  lb_tail_lock :: "tid option"
  lb_mem :: "'v sq_node store"

abbreviation lb_cells :: "'v lbq \<Rightarrow> ptr \<Rightarrow> 'v sq_node option" where
  "lb_cells s \<equiv> cells (lb_mem s)"

definition lbq_init :: "ptr \<Rightarrow> 'v \<Rightarrow> tid option \<Rightarrow> tid option \<Rightarrow> 'v lbq" where
  "lbq_init d v l1 l2 = \<lparr>lb_head = d, lb_tail = d, lb_head_lock = l1, lb_tail_lock = l2,
     lb_mem = put_cell d \<lparr>item = v, nxt = NULL\<rparr> empty_store\<rparr>"

datatype 'v lb_add_pc =
    BA_Alloc 'v             \<comment> \<open>allocate the node\<close>
  | BA_Lock ptr             \<comment> \<open>\<^verbatim>\<open>LOCK_A(&set->tail_lock)\<close>\<close>
  | BA_Tail ptr             \<comment> \<open>evaluate \<^verbatim>\<open>set->tail\<close>\<close>
  | BA_Link ptr ptr         \<comment> \<open>\<^verbatim>\<open>set->tail->next = node\<close>\<close>
  | BA_Swing ptr            \<comment> \<open>\<^verbatim>\<open>set->tail = node\<close>\<close>
  | BA_Unlock               \<comment> \<open>\<^verbatim>\<open>UNLOCK_A(&set->tail_lock)\<close>\<close>

datatype 'v lb_remove_pc =
    BR_Lock                 \<comment> \<open>\<^verbatim>\<open>LOCK_A(&set->head_lock)\<close>\<close>
  | BR_Head                 \<comment> \<open>\<^verbatim>\<open>node = set->head\<close>\<close>
  | BR_Next ptr             \<comment> \<open>\<^verbatim>\<open>head_new = node->next\<close> and the test for \<^verbatim>\<open>NULL\<close>\<close>
  | BR_Unlock_Empty         \<comment> \<open>\<^verbatim>\<open>UNLOCK(&set->head_lock)\<close>, return 0\<close>
  | BR_Item ptr ptr         \<comment> \<open>\<^verbatim>\<open>val = head_new->item\<close>\<close>
  | BR_Swing ptr ptr 'v     \<comment> \<open>\<^verbatim>\<open>set->head = head_new\<close>\<close>
  | BR_Unlock ptr 'v        \<comment> \<open>\<^verbatim>\<open>UNLOCK_A(&set->head_lock)\<close>\<close>
  | BR_Free ptr 'v          \<comment> \<open>release \<^verbatim>\<open>node\<close>, return \<^verbatim>\<open>val\<close>\<close>

datatype 'v lb_pc = BAdd "'v lb_add_pc" | BRemove "'v lb_remove_pc"

type_synonym 'v lb_outcome = "('v lbq, 'v lb_pc, 'v sq_ret) outcome"

fun queue_lb_add :: "tid \<Rightarrow> ptr \<Rightarrow> 'v lbq \<Rightarrow> 'v lb_add_pc \<Rightarrow> 'v lb_outcome" where
  "queue_lb_add t p s (BA_Alloc v) =
     alloc (lb_cells s) p
       (Next (s\<lparr>lb_mem := put_cell p (allocate_stackqueue_node v NULL) (lb_mem s)\<rparr>) (At (BAdd (BA_Lock p))))"
| "queue_lb_add t p s (BA_Lock node) =
     (if lb_tail_lock s = None then Next (s\<lparr>lb_tail_lock := Some t\<rparr>) (At (BAdd (BA_Tail node))) else Blocked)"
| "queue_lb_add t p s (BA_Tail node) = Next s (At (BAdd (BA_Link node (lb_tail s))))"
| "queue_lb_add t p s (BA_Link node tail) =
     deref (lb_cells s) tail (\<lambda>n.
       Next (s\<lparr>lb_mem := put_cell tail (n\<lparr>nxt := node\<rparr>) (lb_mem s)\<rparr>) (At (BAdd (BA_Swing node))))"
| "queue_lb_add t p s (BA_Swing node) = Next (s\<lparr>lb_tail := node\<rparr>) (At (BAdd BA_Unlock))"
| "queue_lb_add t p s BA_Unlock = Next (s\<lparr>lb_tail_lock := None\<rparr>) (Finished (RetInt 1))"

fun queue_lb_remove :: "bool \<Rightarrow> tid \<Rightarrow> 'v::zero lbq \<Rightarrow> 'v lb_remove_pc \<Rightarrow> 'v lb_outcome" where
  "queue_lb_remove gl t s BR_Lock =
     (if lb_head_lock s = None then Next (s\<lparr>lb_head_lock := Some t\<rparr>) (At (BRemove BR_Head)) else Blocked)"
| "queue_lb_remove gl t s BR_Head = Next s (At (BRemove (BR_Next (lb_head s))))"
| "queue_lb_remove gl t s (BR_Next node) =
     deref (lb_cells s) node (\<lambda>n.
       Next s (At (BRemove (if nxt n = NULL then BR_Unlock_Empty else BR_Item node (nxt n)))))"
| "queue_lb_remove gl t s BR_Unlock_Empty =
     Next (if gl then s else s\<lparr>lb_head_lock := None\<rparr>) (Finished (RetVal 0))"
| "queue_lb_remove gl t s (BR_Item node hn) =
     deref (lb_cells s) hn (\<lambda>n. Next s (At (BRemove (BR_Swing node hn (item n)))))"
| "queue_lb_remove gl t s (BR_Swing node hn val) =
     Next (s\<lparr>lb_head := hn\<rparr>) (At (BRemove (BR_Unlock node val)))"
| "queue_lb_remove gl t s (BR_Unlock node val) =
     Next (s\<lparr>lb_head_lock := None\<rparr>) (At (BRemove (BR_Free node val)))"
| "queue_lb_remove gl t s (BR_Free node val) =
     release_stackqueue_node (lb_mem s) node (\<lambda>m. Next (s\<lparr>lb_mem := m\<rparr>) (Finished (RetVal val)))"

definition queue_lb_count :: "'v lbq \<Rightarrow> int option" where
  "queue_lb_count s = count_queue (lb_cells s) (lb_head s) 0"

fun queue_lb_start :: "'v sq_op \<Rightarrow> 'v lb_pc option" where
  "queue_lb_start (Add v) = Some (BAdd (BA_Alloc v))"
| "queue_lb_start Remove = Some (BRemove BR_Lock)"

fun queue_lb_exec :: "bool \<Rightarrow> tid \<Rightarrow> ptr \<Rightarrow> 'v::zero lbq \<Rightarrow> 'v lb_pc \<Rightarrow> 'v lb_outcome" where
  "queue_lb_exec gl t p s (BAdd x) = queue_lb_add t p s x"
| "queue_lb_exec gl t p s (BRemove x) = queue_lb_remove gl t s x"

section \<open>The invariant\<close>

datatype lb_lock = Head_Lock | Tail_Lock

fun lb_lock_of :: "'v lbq \<Rightarrow> lb_lock \<Rightarrow> tid option" where
  "lb_lock_of s Head_Lock = lb_head_lock s"
| "lb_lock_of s Tail_Lock = lb_tail_lock s"

fun lb_own :: "('v lb_pc, 'v sq_ret) control \<Rightarrow> lb_lock ownership" where
  "lb_own (At (BAdd (BA_Lock p))) = holding {p} {} {}"
| "lb_own (At (BAdd (BA_Tail p))) = holding {p} {} {Tail_Lock}"
| "lb_own (At (BAdd (BA_Link p q))) = holding {p} {} {Tail_Lock}"
| "lb_own (At (BAdd (BA_Swing p))) = holding {} {} {Tail_Lock}"
| "lb_own (At (BAdd BA_Unlock)) = holding {} {} {Tail_Lock}"
| "lb_own (At (BRemove BR_Head)) = holding {} {} {Head_Lock}"
| "lb_own (At (BRemove (BR_Next p))) = holding {} {} {Head_Lock}"
| "lb_own (At (BRemove BR_Unlock_Empty)) = holding {} {} {Head_Lock}"
| "lb_own (At (BRemove (BR_Item p q))) = holding {} {} {Head_Lock}"
| "lb_own (At (BRemove (BR_Swing p q v))) = holding {} {} {Head_Lock}"
| "lb_own (At (BRemove (BR_Unlock p v))) = holding {} {p} {Head_Lock}"
| "lb_own (At (BRemove (BR_Free p v))) = holding {} {p} {}"
| "lb_own _ = none_owned"

definition lb_last :: "'v lbq \<Rightarrow> ptr \<Rightarrow> bool" where
  "lb_last s p \<longleftrightarrow> (\<exists>ps. path (lb_cells s) nxt (lb_head s) ps NULL \<and> ps \<noteq> [] \<and> last ps = p)"

definition lb_SI :: "nat \<Rightarrow> 'v lbq \<Rightarrow> 'v list \<Rightarrow> (tid \<Rightarrow> lb_lock ownership) \<Rightarrow> bool" where
  "lb_SI n s a w \<longleftrightarrow>
     (\<exists>ps. path (lb_cells s) nxt (lb_head s) ps NULL \<and> ps \<noteq> [] \<and> items (lb_cells s) (tl ps) = a \<and>
        partition_ok (lb_mem s) (set ps) w) \<and>
     locks_ok (lb_lock_of s) w \<and> (lb_tail_lock s = None \<longrightarrow> lb_last s (lb_tail s))"

definition lb_adding :: "'v lbq \<Rightarrow> ptr \<Rightarrow> ('v sq_op, 'v sq_ret) ghost \<Rightarrow> bool" where
  "lb_adding s p g \<longleftrightarrow> (\<exists>n W. lb_cells s p = Some n \<and> nxt n = NULL \<and> g = Open (Add (item n)) W)"

text \<open>The second node, which \<^verbatim>\<open>remove\<close> reads under the head lock.\<close>

definition lb_second :: "'v lbq \<Rightarrow> ptr \<Rightarrow> ptr \<Rightarrow> 'v \<Rightarrow> bool" where
  "lb_second s p q v \<longleftrightarrow> p = lb_head s \<and> q \<noteq> NULL \<and>
     (\<exists>n m. lb_cells s p = Some n \<and> nxt n = q \<and> lb_cells s q = Some m \<and> item m = v)"

fun lb_LI :: "tid \<Rightarrow> 'v::zero lbq \<Rightarrow> 'v list \<Rightarrow> (tid \<Rightarrow> lb_lock ownership) \<Rightarrow>
    ('v lb_pc, 'v sq_ret) control \<Rightarrow> ('v sq_op, 'v sq_ret) ghost \<Rightarrow> bool" where
  "lb_LI t s a w Idle g = (g = Quiet)"
| "lb_LI t s a w (Finished r) g = returns g r"
| "lb_LI t s a w (At (BAdd (BA_Alloc v))) g = (\<exists>W. g = Open (Add v) W)"
| "lb_LI t s a w (At (BAdd (BA_Lock p))) g = lb_adding s p g"
| "lb_LI t s a w (At (BAdd (BA_Tail p))) g = (lb_adding s p g \<and> lb_last s (lb_tail s))"
| "lb_LI t s a w (At (BAdd (BA_Link p q))) g = (lb_adding s p g \<and> q = lb_tail s \<and> lb_last s (lb_tail s))"
| "lb_LI t s a w (At (BAdd (BA_Swing p))) g = (g = Closed (RetInt 1) \<and> lb_last s p)"
| "lb_LI t s a w (At (BAdd BA_Unlock)) g = (g = Closed (RetInt 1) \<and> lb_last s (lb_tail s))"
| "lb_LI t s a w (At (BRemove BR_Lock)) g = (\<exists>W. g = Open Remove W)"
| "lb_LI t s a w (At (BRemove BR_Head)) g = (\<exists>W. g = Open Remove W)"
| "lb_LI t s a w (At (BRemove (BR_Next p))) g = ((\<exists>W. g = Open Remove W) \<and> p = lb_head s)"
| "lb_LI t s a w (At (BRemove BR_Unlock_Empty)) g = returns g (RetVal 0)"
| "lb_LI t s a w (At (BRemove (BR_Item p q))) g = ((\<exists>W. g = Open Remove W) \<and> (\<exists>v. lb_second s p q v))"
| "lb_LI t s a w (At (BRemove (BR_Swing p q v))) g = ((\<exists>W. g = Open Remove W) \<and> lb_second s p q v)"
| "lb_LI t s a w (At (BRemove (BR_Unlock p v))) g = (g = Closed (RetVal v))"
| "lb_LI t s a w (At (BRemove (BR_Free p v))) g = (g = Closed (RetVal v))"

lemma lb_SI_mono: "lb_SI n s a w \<Longrightarrow> lb_SI (Suc n) s a w"
  by (simp add: lb_SI_def)

lemma lb_SI_E:
  assumes "lb_SI n s a w"
  obtains ps where "path (lb_cells s) nxt (lb_head s) ps NULL" and "ps \<noteq> []"
    and "items (lb_cells s) (tl ps) = a" and "partition_ok (lb_mem s) (set ps) w"
    and "locks_ok (lb_lock_of s) w" and "lb_tail_lock s = None \<longrightarrow> last ps = lb_tail s"
    and "\<forall>p. lb_last s p \<longleftrightarrow> last ps = p"
proof -
  from assms obtain ps where ps: "path (lb_cells s) nxt (lb_head s) ps NULL" "ps \<noteq> []"
    "items (lb_cells s) (tl ps) = a" "partition_ok (lb_mem s) (set ps) w" by (auto simp: lb_SI_def)
  moreover have "lb_last s p \<longleftrightarrow> last ps = p" for p
    using path_unique [OF ps(1)] ps(1,2) unfolding lb_last_def by blast
  moreover have "locks_ok (lb_lock_of s) w" "lb_tail_lock s = None \<longrightarrow> lb_last s (lb_tail s)"
    using assms by (auto simp: lb_SI_def)
  ultimately show ?thesis using that [of ps] by simp
qed

section \<open>Interference\<close>

definition lb_effect :: "tid \<Rightarrow> 'v lbq \<Rightarrow> (tid \<Rightarrow> lb_lock ownership) \<Rightarrow> 'v lbq \<Rightarrow> lb_lock ownership \<Rightarrow>
    ptr list \<Rightarrow> ptr list \<Rightarrow> bool" where
  "lb_effect t s w s' x ps ps' \<longleftrightarrow>
     (\<forall>q n. lb_cells s q = Some n \<longrightarrow> q \<notin> private_nodes (w t) \<longrightarrow>
        (\<exists>n'. lb_cells s' q = Some n' \<and> item n' = item n \<and> (nxt n \<noteq> NULL \<longrightarrow> nxt n' = nxt n))) \<and>
     (\<forall>u q. u \<noteq> t \<longrightarrow> q \<in> private_nodes (w u) \<longrightarrow> lb_cells s' q = lb_cells s q) \<and>
     (Head_Lock \<notin> held (w t) \<longrightarrow> lb_head s' = lb_head s) \<and>
     (Tail_Lock \<notin> held (w t) \<longrightarrow> lb_tail s' = lb_tail s \<and> last ps' = last ps)"

lemma lb_step_ok:
  assumes adv: "advance queue_spec a g a' g'"
    and LI': "lb_LI t s' a' (w(t := lb_own y)) y g'" and SI: "lb_SI n s a w"
    and hp: "path (lb_cells s) nxt (lb_head s) ps NULL" and part: "partition_ok (lb_mem s) (set ps) w"
    and hp': "path (lb_cells s') nxt (lb_head s') ps' NULL" and ps': "ps' \<noteq> []"
    and it': "items (lb_cells s') (tl ps') = a'"
    and part': "partition_ok (lb_mem s') (set ps') (w(t := lb_own y))"
    and lk': "locks_ok (lb_lock_of s') (w(t := lb_own y))"
    and tail': "lb_tail_lock s' = None \<Longrightarrow> last ps' = lb_tail s'"
    and eff: "lb_effect t s w s' (lb_own y) ps ps'"
  shows "step_ok queue_spec lb_own lb_SI lb_LI n t s a w g s' y"
proof (rule step_okI [where own = lb_own and SI = lb_SI and LI = lb_LI, OF adv _ LI'])
  have last': "lb_last s' p \<longleftrightarrow> last ps' = p" for p
    using path_unique [OF hp'] hp' ps' unfolding lb_last_def by blast
  show "lb_SI (Suc n) s' a' (w(t := lb_own y))"
    unfolding lb_SI_def last' using hp' ps' it' part' lk' tail' by blast
  fix u z gu
  assume ut: "u \<noteq> t" and own: "w u = lb_own z" and LI: "lb_LI u s a w z gu"
  from SI have lk: "locks_ok (lb_lock_of s) w" and ne: "ps \<noteq> []"
    using hp by (auto simp: lb_SI_def dest: path_unique)
  then have last: "lb_last s p \<longleftrightarrow> last ps = p" for p
    using path_unique [OF hp] hp unfolding lb_last_def by blast
  have tailI: "lb_tail s' = lb_tail s \<and> (lb_last s' p \<longleftrightarrow> lb_last s p)" if "Tail_Lock \<in> held (w u)" for p
    using eff locks_exclusive [OF lk that, of t] ut unfolding lb_effect_def last last' by auto
  have headI: "lb_head s' = lb_head s" if "Head_Lock \<in> held (w u)"
    using eff locks_exclusive [OF lk that, of t] ut unfolding lb_effect_def by auto
  have K1: "\<exists>n'. lb_cells s' q = Some n' \<and> item n' = item n \<and> (nxt n \<noteq> NULL \<longrightarrow> nxt n' = nxt n)"
    if "lb_cells s q = Some n" "q \<in> set ps" for q n
    using eff that partition_live [OF part that(2), of t] unfolding lb_effect_def by blast
  have ad: "lb_adding s' q (observe queue_spec a' gu)" if "lb_adding s q gu" "q \<in> private_nodes (w u)" for q
    using eff ut that unfolding lb_effect_def lb_adding_def by auto
  have sec: "lb_second s' p q v" if S: "lb_second s p q v" "Head_Lock \<in> held (w u)" for p q v
  proof -
    from S obtain nd m where nd: "p = lb_head s" "q \<noteq> NULL" "lb_cells s p = Some nd" "nxt nd = q"
        "lb_cells s q = Some m" "item m = v" by (auto simp: lb_second_def)
    from hp nd ne obtain rest where rest: "ps = p # rest" "path (lb_cells s) nxt q rest NULL"
      by (cases ps) auto
    with path_nonempty [OF rest(2) nd(2)] have "p \<in> set ps" "q \<in> set ps" by auto
    with K1 [OF nd(3)] K1 [OF nd(5)] nd headI [OF S(2)] show ?thesis
      unfolding lb_second_def by fastforce
  qed
  show "lb_LI u s' a' (w(t := lb_own y)) z (observe queue_spec a' gu)"
  proof (cases z)
    case (At x)
    show ?thesis
    proof (cases x)
      case (BAdd pc)
      show ?thesis using LI own tailI ad unfolding At BAdd by (cases pc) (auto simp: returns_observe)
    next
      case (BRemove pc)
      show ?thesis using LI own headI unfolding At BRemove
        by (cases pc) (auto simp: returns_observe dest: sec)
    qed
  qed (use LI in \<open>auto simp: returns_observe\<close>)
qed

lemmas lb_local = step_ok_local [where own = lb_own and SI = lb_SI and LI = lb_LI]

lemma lb_locks_keep:
  "locks_ok (lb_lock_of s) w \<Longrightarrow> held x = held (w t) \<Longrightarrow> lb_head_lock s' = lb_head_lock s \<Longrightarrow>
   lb_tail_lock s' = lb_tail_lock s \<Longrightarrow> locks_ok (lb_lock_of s') (w(t := x))"
proof -
  assume "lb_head_lock s' = lb_head_lock s" "lb_tail_lock s' = lb_tail_lock s"
  then have "lb_lock_of s' k = lb_lock_of s k" for k by (cases k) auto
  then have "lb_lock_of s' = lb_lock_of s" by auto
  then show "locks_ok (lb_lock_of s) w \<Longrightarrow> held x = held (w t) \<Longrightarrow> locks_ok (lb_lock_of s') (w(t := x))"
    by (simp add: locks_keep)
qed

lemma lb_lock_of_update:
  "lb_lock_of (s\<lparr>lb_head_lock := l\<rparr>) = (lb_lock_of s)(Head_Lock := l)"
  "lb_lock_of (s\<lparr>lb_tail_lock := l\<rparr>) = (lb_lock_of s)(Tail_Lock := l)"
proof -
  show "lb_lock_of (s\<lparr>lb_head_lock := l\<rparr>) = (lb_lock_of s)(Head_Lock := l)"
    by (rule ext) (rename_tac k, case_tac k, simp_all)
  show "lb_lock_of (s\<lparr>lb_tail_lock := l\<rparr>) = (lb_lock_of s)(Tail_Lock := l)"
    by (rule ext) (rename_tac k, case_tac k, simp_all)
qed

text \<open>Steps that leave the linked nodes alone.\<close>

lemma lb_aside:
  assumes SI: "lb_SI n s a w" and s': "s' = s\<lparr>lb_mem := m, lb_head_lock := l1, lb_tail_lock := l2\<rparr>"
    and cells: "\<And>q. lb_cells s q \<noteq> None \<Longrightarrow> cells m q = lb_cells s q"
    and part': "\<And>L. partition_ok (lb_mem s) L w \<Longrightarrow> partition_ok m L (w(t := lb_own y))"
    and lk': "locks_ok (lb_lock_of s') (w(t := lb_own y))"
    and tail': "l2 = None \<Longrightarrow> lb_last s (lb_tail s)"
    and LI': "lb_LI t s' a (w(t := lb_own y)) y g"
  shows "step_ok queue_spec lb_own lb_SI lb_LI n t s a w g s' y"
proof -
  from SI obtain ps where hp: "path (lb_cells s) nxt (lb_head s) ps NULL" and ne: "ps \<noteq> []"
    and it: "items (lb_cells s) (tl ps) = a" and part: "partition_ok (lb_mem s) (set ps) w"
    and lk: "locks_ok (lb_lock_of s) w" and tail: "lb_tail_lock s = None \<longrightarrow> last ps = lb_tail s"
    and last: "\<forall>p. lb_last s p \<longleftrightarrow> last ps = p"
    by (rule lb_SI_E)
  have same: "cells m q = lb_cells s q" if "q \<in> set ps" for q
    using cells partition_live [OF part that] by blast
  have same_tl: "cells m q = lb_cells s q" if "q \<in> set (tl ps)" for q
    using same that by (cases ps) auto
  show ?thesis
  proof (rule lb_step_ok [OF advance_stay LI' SI hp part _ ne])
    show "path (lb_cells s') nxt (lb_head s') ps NULL"
      using path_cong [OF hp, of "cells m"] same by (simp add: s')
    show "items (lb_cells s') (tl ps) = a" using it same_tl by (simp add: s' cong: map_cong)
    show "partition_ok (lb_mem s') (set ps) (w(t := lb_own y))" using part' [OF part] by (simp add: s')
    have "lb_cells s' q = lb_cells s q" if "q \<in> private_nodes (w u)" for q u
      using cells [of q] partition_owned [OF part private_owned [OF that]] by (simp add: s')
    then show "lb_effect t s w s' (lb_own y) ps ps"
      unfolding lb_effect_def using cells by (auto simp: s')
  qed (use lk' tail' last in \<open>auto simp: s'\<close>)
qed

text \<open>A private node is linked behind the last one.\<close>

lemma lb_link:
  assumes SI: "lb_SI n s a w" and last: "lb_last s T" and tc: "lb_cells s T = Some nt"
    and nc: "lb_cells s node = Some nd" "nxt nd = NULL" and mine: "node \<in> private_nodes (w t)"
    and s': "s' = s\<lparr>lb_mem := put_cell T (nt\<lparr>nxt := node\<rparr>) (lb_mem s)\<rparr>"
    and g: "g = Open (Add (item nd)) W"
    and ow: "owned (lb_own y) = {}" "held (lb_own y) = held (w t)" and who: "Tail_Lock \<in> held (w t)"
    and LI': "lb_last s' node \<Longrightarrow> lb_LI t s' (a @ [item nd]) (w(t := lb_own y)) y (Closed (RetInt 1))"
  shows "step_ok queue_spec lb_own lb_SI lb_LI n t s a w g s' y"
proof -
  from SI obtain ps where hp: "path (lb_cells s) nxt (lb_head s) ps NULL" and ne: "ps \<noteq> []"
    and it: "items (lb_cells s) (tl ps) = a" and part: "partition_ok (lb_mem s) (set ps) w"
    and lk: "locks_ok (lb_lock_of s) w" and tail: "lb_tail_lock s = None \<longrightarrow> last ps = lb_tail s"
    and lst: "\<forall>p. lb_last s p \<longleftrightarrow> last ps = p"
    by (rule lb_SI_E)
  from lst last ne obtain us where ps: "ps = us @ [T]" by (metis append_butlast_last_id)
  have tn: "nxt nt = NULL" using path_snoc [of "lb_cells s" nxt "lb_head s" us T] hp tc by (simp add: ps)
  have owns: "node \<in> owned (w t)" using mine by blast
  have node: "node \<noteq> NULL" "node \<notin> set (us @ [T])" using partition_owned [OF part owns] by (auto simp: ps)
  have dist: "distinct (us @ [T])" using path_distinct [OF hp] ps by simp
  have T: "T \<notin> owned (w u)" for u using partition_live [OF part, of T] ps by auto
  have c': "lb_cells s' = (lb_cells s)(T \<mapsto> nt\<lparr>nxt := node\<rparr>)" by (simp add: s')
  have hp': "path (lb_cells s') nxt (lb_head s') (us @ [T, node]) NULL"
    unfolding c' using hp ps node nc dist
    by (intro path_link [where h = "lb_cells s" and n = "nt\<lparr>nxt := node\<rparr>" and m = nd]) (auto simp: s')
  show ?thesis
  proof (rule lb_step_ok [OF _ _ SI hp part hp'])
    show "advance queue_spec a g (a @ [item nd]) (Closed (RetInt 1))" by (auto simp: g)
    have "lb_last s' node" unfolding lb_last_def using hp' by (intro exI [of _ "us @ [T, node]"]) simp
    then show "lb_LI t s' (a @ [item nd]) (w(t := lb_own y)) y (Closed (RetInt 1))" by (rule LI')
    have "items (lb_cells s') us = items (lb_cells s) us" "items (lb_cells s') (tl us) = items (lb_cells s) (tl us)"
      using dist by (cases us; simp add: c')+
    then show "items (lb_cells s') (tl (us @ [T, node])) = a @ [item nd]"
      using it ps node nc tc by (cases us) (auto simp: c')
    have "partition_ok (put_cell T (nt\<lparr>nxt := node\<rparr>) (lb_mem s)) (insert node (set ps)) (w(t := lb_own y))"
      using partition_publish [OF partition_write [OF part] owns] tc ow by simp
    then show "partition_ok (lb_mem s') (set (us @ [T, node])) (w(t := lb_own y))"
      by (simp add: s' ps insert_commute)
    show "last (us @ [T, node]) = lb_tail s'" if "lb_tail_lock s' = None"
    proof -
      from who lk have "lb_lock_of s Tail_Lock = Some t" unfolding locks_ok_def by blast
      with that show ?thesis by (simp add: s')
    qed
    have "T \<notin> private_nodes (w u)" for u using T by blast
    then show "lb_effect t s w s' (lb_own y) ps (us @ [T, node])"
      unfolding lb_effect_def using who ow tc tn by (auto simp: c' s')
  qed (use lk ow in \<open>simp_all add: s' lb_locks_keep\<close>)
qed

text \<open>\<^verbatim>\<open>head\<close> moves to the next node; the old dummy is retired.\<close>

lemma lb_head_move:
  assumes SI: "lb_SI n s a w" and sec: "lb_second s (lb_head s) r v" and s': "s' = s\<lparr>lb_head := r\<rparr>"
    and g: "g = Open Remove W"
    and ow: "owned (lb_own y) = {lb_head s}" "private_nodes (lb_own y) = {}" "held (lb_own y) = held (w t)"
    and who: "Head_Lock \<in> held (w t)"
    and LI': "\<And>a'. lb_LI t s' a' (w(t := lb_own y)) y (Closed (RetVal v))"
  shows "step_ok queue_spec lb_own lb_SI lb_LI n t s a w g s' y"
proof -
  from SI obtain ps where hp: "path (lb_cells s) nxt (lb_head s) ps NULL" and ne: "ps \<noteq> []"
    and it: "items (lb_cells s) (tl ps) = a" and part: "partition_ok (lb_mem s) (set ps) w"
    and lk: "locks_ok (lb_lock_of s) w" and tail: "lb_tail_lock s = None \<longrightarrow> last ps = lb_tail s"
    and lst: "\<forall>p. lb_last s p \<longleftrightarrow> last ps = p"
    by (rule lb_SI_E)
  let ?H = "lb_head s"
  from sec obtain nd m where nd: "r \<noteq> NULL" "lb_cells s ?H = Some nd" "nxt nd = r" "lb_cells s r = Some m" "item m = v"
    by (auto simp: lb_second_def)
  from hp ne nd obtain ps' where ps: "ps = ?H # ps'" and rp: "path (lb_cells s) nxt r ps' NULL" by (cases ps) auto
  from path_nonempty [OF rp nd(1)] obtain rest where rest: "ps' = r # rest" by blast
  have notin: "?H \<notin> set ps'" using path_distinct [OF hp] by (simp add: ps)
  have a: "a = v # items (lb_cells s) rest" using it nd by (simp add: ps rest)
  show ?thesis
  proof (rule lb_step_ok [OF _ LI' SI hp part])
    show "advance queue_spec a g (items (lb_cells s) rest) (Closed (RetVal v))"
      unfolding g by (rule advance_lin) (simp add: a)
    show "items (lb_cells s') (tl ps') = items (lb_cells s) rest" by (simp add: s' rest)
    have "set ps - {?H} = set ps'" using notin by (auto simp: ps)
    then show "partition_ok (lb_mem s') (set ps') (w(t := lb_own y))"
      using partition_retire [OF part, of ?H "lb_own y" t] ow by (simp add: s' ps)
    show "lb_effect t s w s' (lb_own y) ps ps'"
      unfolding lb_effect_def using who by (auto simp: s' ps rest)
    show "last ps' = lb_tail s'" if "lb_tail_lock s' = None" using tail that by (simp add: s' ps rest)
  qed (use rp rest lk ow in \<open>simp_all add: s' lb_locks_keep\<close>)
qed

section \<open>The steps\<close>

lemma queue_lb_add_step:
  assumes SI: "lb_SI n s a w" and LI: "lb_LI t s a w (At (BAdd x)) g"
    and own: "w t = lb_own (At (BAdd x))" and ex: "queue_lb_add t p s x = Next s' y"
  shows "step_ok queue_spec lb_own lb_SI lb_LI n t s a w g s' y"
proof -
  note loc = lb_local [OF lb_SI_mono [OF SI]]
  from SI have lk: "locks_ok (lb_lock_of s) w" and tl: "lb_tail_lock s = None \<Longrightarrow> lb_last s (lb_tail s)"
    by (auto simp: lb_SI_def)
  show ?thesis
  proof (cases x)
    case (BA_Alloc v)
    with ex have fresh: "fresh (lb_cells s) p"
      and s': "s' = s\<lparr>lb_mem := put_cell p (allocate_stackqueue_node v NULL) (lb_mem s)\<rparr>"
      and y: "y = At (BAdd (BA_Lock p))"
      by auto
    show ?thesis
      using LI BA_Alloc fresh own tl
      by (intro lb_aside [OF SI, where m = "put_cell p (allocate_stackqueue_node v NULL) (lb_mem s)"
            and ?l1.0 = "lb_head_lock s" and ?l2.0 = "lb_tail_lock s"])
        (auto simp: s' y sq_node_defs lb_adding_def fresh_def [of _ p] simp del: fun_upd_apply
          intro!: partition_allocate lb_locks_keep [OF lk], auto simp: fresh_def)
  next
    case (BA_Lock node)
    with ex have free: "lb_tail_lock s = None" and s': "s' = s\<lparr>lb_tail_lock := Some t\<rparr>"
      and y: "y = At (BAdd (BA_Tail node))"
      by (auto split: if_splits)
    have "locks_ok (lb_lock_of s') (w(t := lb_own y))"
      unfolding s' lb_lock_of_update using own BA_Lock free by (intro locks_acquire [OF lk]) (simp_all add: y)
    then show ?thesis
      using LI BA_Lock own tl [OF free]
      by (intro lb_aside [OF SI, where m = "lb_mem s" and ?l1.0 = "lb_head_lock s" and ?l2.0 = "Some t"])
        (auto simp: s' y lb_adding_def lb_last_def simp del: fun_upd_apply intro: partition_keep)
  next
    case (BA_Tail node)
    then show ?thesis using loc ex LI own by auto
  next
    case (BA_Link node tail)
    with LI obtain nd W where nd: "lb_cells s node = Some nd" "nxt nd = NULL" "g = Open (Add (item nd)) W"
      and last: "lb_last s tail"
      by (auto simp: lb_adding_def)
    from ex BA_Link obtain m where m: "lb_cells s tail = Some m"
      and s': "s' = s\<lparr>lb_mem := put_cell tail (m\<lparr>nxt := node\<rparr>) (lb_mem s)\<rparr>"
      and y: "y = At (BAdd (BA_Swing node))"
      by auto
    have mine: "node \<in> private_nodes (w t)" using own BA_Link by simp
    show ?thesis
      using own BA_Link by (intro lb_link [OF SI last m nd(1,2) mine s' nd(3)]) (auto simp: y)
  next
    case (BA_Swing node)
    with ex have s': "s' = s\<lparr>lb_tail := node\<rparr>" and y: "y = At (BAdd BA_Unlock)" by auto
    from SI obtain ps where hp: "path (lb_cells s) nxt (lb_head s) ps NULL" and ne: "ps \<noteq> []"
      and it: "items (lb_cells s) (tl ps) = a" and part: "partition_ok (lb_mem s) (set ps) w"
      and lk: "locks_ok (lb_lock_of s) w" and tail: "lb_tail_lock s = None \<longrightarrow> last ps = lb_tail s"
      and lst: "\<forall>p. lb_last s p \<longleftrightarrow> last ps = p"
      by (rule lb_SI_E)
    have "lb_tail_lock s = Some t" using lk own BA_Swing unfolding locks_ok_def by (metis insertI1 lb_lock_of.simps(2) lb_own.simps(4) ownership.select_convs(3))
    then show ?thesis
      using LI own BA_Swing hp ne it part lst
      by (intro lb_step_ok [OF advance_stay _ SI hp part, where ps' = ps])
        (auto simp: s' y lb_last_def lb_effect_def intro: partition_keep lb_locks_keep [OF lk])
  next
    case BA_Unlock
    with ex have s': "s' = s\<lparr>lb_tail_lock := None\<rparr>" and y: "y = Finished (RetInt 1)" by auto
    have "locks_ok (lb_lock_of s') (w(t := lb_own y))"
      unfolding s' lb_lock_of_update using own BA_Unlock by (intro locks_release [OF lk]) (simp_all add: y)
    then show ?thesis
      using LI BA_Unlock own
      by (intro lb_aside [OF SI, where m = "lb_mem s" and ?l1.0 = "lb_head_lock s" and ?l2.0 = None])
        (auto simp: s' y simp del: fun_upd_apply intro: partition_keep)
  qed
qed

lemma lb_second_exists:
  assumes "lb_SI n s a w" and "lb_cells s (lb_head s) = Some nd" and "nxt nd \<noteq> NULL"
  shows "\<exists>v. lb_second s (lb_head s) (nxt nd) v"
proof -
  from assms(1) obtain ps where ps: "path (lb_cells s) nxt (lb_head s) ps NULL" "ps \<noteq> []"
    by (auto simp: lb_SI_def)
  with assms(2) obtain rest where "path (lb_cells s) nxt (nxt nd) rest NULL" by (cases ps) auto
  from path_nonempty [OF this assms(3)] assms(2,3) show ?thesis by (auto simp: lb_second_def)
qed

lemma queue_lb_remove_step:
  assumes SI: "lb_SI n s a w" and LI: "lb_LI t s a w (At (BRemove x)) g"
    and obs: "observed queue_spec a g"
    and own: "w t = lb_own (At (BRemove x))" and ex: "queue_lb_remove False t s x = Next s' y"
  shows "step_ok queue_spec lb_own lb_SI lb_LI n t s a w g s' y"
proof -
  note loc = lb_local [OF lb_SI_mono [OF SI]]
  from SI have lk: "locks_ok (lb_lock_of s) w" and tl: "lb_tail_lock s = None \<Longrightarrow> lb_last s (lb_tail s)"
    by (auto simp: lb_SI_def)
  have unlock: ?thesis
    if s': "s' = s\<lparr>lb_head_lock := None\<rparr>" and hw: "Head_Lock \<in> held (w t)" "held (lb_own y) = held (w t) - {Head_Lock}"
      "owned (lb_own y) \<subseteq> owned (w t)" and L: "lb_LI t s' a (w(t := lb_own y)) y g"
  proof -
    have "locks_ok (lb_lock_of s') (w(t := lb_own y))"
      unfolding s' lb_lock_of_update using hw by (intro locks_release [OF lk])
    then show ?thesis
      using L hw tl
      by (intro lb_aside [OF SI, where m = "lb_mem s" and ?l1.0 = None and ?l2.0 = "lb_tail_lock s"])
        (auto simp: s' simp del: fun_upd_apply intro: partition_keep)
  qed
  show ?thesis
  proof (cases x)
    case BR_Lock
    with ex have free: "lb_head_lock s = None" and s': "s' = s\<lparr>lb_head_lock := Some t\<rparr>"
      and y: "y = At (BRemove BR_Head)"
      by (auto split: if_splits)
    have "locks_ok (lb_lock_of s') (w(t := lb_own y))"
      unfolding s' lb_lock_of_update using own BR_Lock free by (intro locks_acquire [OF lk]) (simp_all add: y)
    then show ?thesis
      using LI BR_Lock own tl
      by (intro lb_aside [OF SI, where m = "lb_mem s" and ?l1.0 = "Some t" and ?l2.0 = "lb_tail_lock s"])
        (auto simp: s' y simp del: fun_upd_apply intro: partition_keep)
  next
    case BR_Head
    then show ?thesis using loc ex LI own by auto
  next
    case (BR_Next node)
    with LI ex obtain W m where g: "g = Open Remove W" and m: "node = lb_head s" "lb_cells s node = Some m"
      and s': "s' = s" and y: "y = At (BRemove (if nxt m = NULL then BR_Unlock_Empty else BR_Item node (nxt m)))"
      by auto
    from SI obtain ps where "path (lb_cells s) nxt (lb_head s) ps NULL" "ps \<noteq> []"
      "items (lb_cells s) (tl ps) = a" by (auto simp: lb_SI_def)
    then have "nxt m = NULL \<Longrightarrow> a = []" using m by (cases ps) auto
    then have "nxt m = NULL \<Longrightarrow> RetVal 0 \<in> W" using obs g by (auto simp: legal_def)
    then show ?thesis
      unfolding s' using own BR_Next g m lb_second_exists [OF SI] by (intro loc) (auto simp: y)
  next
    case BR_Unlock_Empty
    with LI ex own show ?thesis by (intro unlock) auto
  next
    case (BR_Item node hn)
    with LI ex own show ?thesis using loc by (auto simp: lb_second_def)
  next
    case (BR_Swing node hn val)
    with LI obtain W where g: "g = Open Remove W" and sec: "lb_second s (lb_head s) hn val" and nd: "node = lb_head s"
      by (auto simp: lb_second_def)
    from ex BR_Swing have s': "s' = s\<lparr>lb_head := hn\<rparr>" and y: "y = At (BRemove (BR_Unlock node val))" by auto
    show ?thesis
      using own BR_Swing nd by (intro lb_head_move [OF SI sec s' g]) (auto simp: y)
  next
    case (BR_Unlock node val)
    with LI ex own show ?thesis by (intro unlock) auto
  next
    case (BR_Free node val)
    with LI have g: "g = Closed (RetVal val)" by simp
    have mine: "node \<in> owned (w t)" using own BR_Free by simp
    from ex BR_Free have s': "s' = s\<lparr>lb_mem := (lb_mem s)\<lparr>released := insert node (released (lb_mem s))\<rparr>\<rparr>"
      and y: "y = Finished (RetVal val)"
      by (auto simp: sq_node_defs)
    show ?thesis
      using g own BR_Free tl mine
      by (intro lb_aside [OF SI, where m = "(lb_mem s)\<lparr>released := insert node (released (lb_mem s))\<rparr>"
            and ?l1.0 = "lb_head_lock s" and ?l2.0 = "lb_tail_lock s"])
        (auto simp: s' y simp del: fun_upd_apply intro: partition_release lb_locks_keep [OF lk])
  qed
qed

lemma lb_safe:
  assumes SI: "lb_SI n s a w" and LI: "lb_LI t s a w (At x) g" and own: "w t = lb_own (At x)"
  shows "queue_lb_exec gl t p s x \<noteq> Fault"
proof -
  have ow: "lb_cells s q \<noteq> None \<and> q \<notin> released (lb_mem s)" if "q \<in> owned (w t)" for q
    using SI that by (auto simp: lb_SI_def dest: partition_owned)
  have hd: "\<exists>m. lb_cells s (lb_head s) = Some m"
    using SI by (auto simp: lb_SI_def neq_Nil_conv)
  have last: "\<exists>m. lb_cells s q = Some m" if "lb_last s q" for q
    using that path_cells [of "lb_cells s" nxt] unfolding lb_last_def by (metis last_in_set)
  show ?thesis
  proof (cases x)
    case (BAdd z)
    then show ?thesis using LI last by (cases z) auto
  next
    case (BRemove z)
    then show ?thesis using LI own ow hd by (cases z) (auto simp: sq_node_defs lb_second_def)
  qed
qed

section \<open>Correctness\<close>

lemma lb_step:
  "lb_SI n s a w \<Longrightarrow> lb_LI t s a w (At x) g \<Longrightarrow> observed queue_spec a g \<Longrightarrow>
   w t = lb_own (At x) \<Longrightarrow> queue_lb_exec False t p s x = Next s' y \<Longrightarrow>
   step_ok queue_spec lb_own lb_SI lb_LI n t s a w g s' y"
  using queue_lb_add_step queue_lb_remove_step by (cases x) auto

lemma lb_call:
  assumes "queue_lb_start op = Some x"
  shows "lb_own (At x) = lb_own Idle"
    and "lb_LI t s a w (At x) (Open op (legal queue_spec op a))"
  using assms by (cases op; auto)+

lemma lb_lock_of_init: "lb_lock_of (lbq_init d v None None) k = None"
  by (cases k) (simp_all add: lbq_init_def)

lemma lb_SI_init: "d \<noteq> NULL \<Longrightarrow> lb_SI 0 (lbq_init d v None None) [] (\<lambda>_. lb_own Idle)"
  unfolding lb_SI_def lb_last_def
  by (intro conjI exI [of _ "[d]"] impI)
    (simp_all add: lb_lock_of_init locks_init, auto simp: lbq_init_def intro!: partition_init)

interpretation queue_lb: thread_object queue_spec "[]" queue_lb_start "queue_lb_exec False" "lbq_init d v None None"
  lb_own "\<lambda>_. d \<noteq> NULL" lb_SI lb_LI for d v
  by unfold_locales (assumption | rule lb_SI_init lb_SI_mono lb_step lb_call lb_safe, assumption+ | simp)+

lemma lb_SI_count:
  assumes "lb_SI n s a w"
  shows "queue_lb_count s = Some (int (length a))"
proof -
  from assms obtain ps where *: "path (lb_cells s) nxt (lb_head s) ps NULL" "ps \<noteq> []"
      "items (lb_cells s) (tl ps) = a"
    by (auto simp: lb_SI_def)
  then have "path (lb_cells s) nxt (lb_head s) (lb_head s # tl ps) NULL" by (cases ps) auto
  from count_queue_path [OF this, of 0] *(3) show ?thesis by (auto simp: queue_lb_count_def)
qed

section \<open>The build with a global lock\<close>

text \<open>A thread in the critical section of \<^verbatim>\<open>remove\<close> holds the head lock in the build with \<open>gl\<close> too, but not
  conversely: the empty queue leaves the lock with a thread that has returned.\<close>

lemma lb_lock_change:
  assumes "queue_lb_exec gl u p s x = Next s' y" and "Head_Lock \<in> held (lb_own (At x)) \<Longrightarrow> lb_head_lock s = Some u"
  shows "Head_Lock \<in> held (lb_own y) \<longrightarrow> lb_head_lock s' = Some u"
    and "lb_head_lock s = None \<or> lb_head_lock s = Some u \<and> Head_Lock \<in> held (lb_own (At x)) \<or> lb_head_lock s' = lb_head_lock s"
proof -
  have "(Head_Lock \<in> held (lb_own y) \<longrightarrow> lb_head_lock s' = Some u) \<and>
    (lb_head_lock s = None \<or> lb_head_lock s = Some u \<and> Head_Lock \<in> held (lb_own (At x)) \<or> lb_head_lock s' = lb_head_lock s)"
  proof (cases x)
    case (BAdd z)
    then show ?thesis using assms by (cases z) (auto split: if_splits)
  next
    case (BRemove z)
    then show ?thesis using assms by (cases z) (auto simp: sq_node_defs split: if_splits)
  qed
  then show "Head_Lock \<in> held (lb_own y) \<longrightarrow> lb_head_lock s' = Some u"
    "lb_head_lock s = None \<or> lb_head_lock s = Some u \<and> Head_Lock \<in> held (lb_own (At x)) \<or> lb_head_lock s' = lb_head_lock s"
    by blast+
qed

lemma lb_critical_step:
  assumes "thread_step queue_lb_start (queue_lb_exec gl) (s, c) t l (s', c')"
    and "\<And>u. Head_Lock \<in> held (lb_own (c u)) \<Longrightarrow> lb_head_lock s = Some u"
  shows "Head_Lock \<in> held (lb_own (c' u)) \<Longrightarrow> lb_head_lock s' = Some u"
  using assms(1)
proof (cases rule: thread_step.cases)
  case (step_call op x)
  then have "lb_own (c' u) = lb_own (c u)" using lb_call(1) [OF step_call(5)] by simp
  then show "Head_Lock \<in> held (lb_own (c' u)) \<Longrightarrow> lb_head_lock s' = Some u" using assms(2) step_call by simp
next
  case (step_exec x p y)
  note ch = lb_lock_change [OF step_exec(4)]
  assume "Head_Lock \<in> held (lb_own (c' u))"
  then show "lb_head_lock s' = Some u"
    using ch assms(2) [of u] assms(2) [of t] step_exec by (auto split: if_splits)
next
  case (step_return r)
  assume "Head_Lock \<in> held (lb_own (c' u))"
  then show "lb_head_lock s' = Some u" using assms(2) [of u] step_return by (auto split: if_splits)
qed

lemma lb_critical:
  assumes "run queue_lb_start (queue_lb_exec gl) (lbq_init d v l1 l2) n h (s, c)" and "Head_Lock \<in> held (lb_own (c u))"
  shows "lb_head_lock s = Some u"
  using assms
proof (induction n h "(s, c)" arbitrary: s c u rule: run.induct)
  case (run_tau n h k t)
  then show ?case by (cases k) (auto elim: lb_critical_step)
next
  case (run_ext n h k t e)
  then show ?case by (cases k) (auto elim: lb_critical_step)
qed simp

lemma lb_stays_out:
  assumes "queue_lb_exec gl u p s x = Next s' y" and "lb_head_lock s = Some t" and "Head_Lock \<notin> held (lb_own (At x))"
  shows "Head_Lock \<notin> held (lb_own y)"
proof (cases x)
  case (BAdd z)
  then show ?thesis using assms by (cases z) (auto split: if_splits)
next
  case (BRemove z)
  then show ?thesis using assms by (cases z) (auto simp: sq_node_defs split: if_splits)
qed

text \<open>The states that can follow a state.\<close>

definition queue_lb_later :: "('v::zero lbq, 'v lb_pc, 'v sq_ret) config \<Rightarrow> ('v lbq, 'v lb_pc, 'v sq_ret) config \<Rightarrow> bool" where
  "queue_lb_later = rtranclp (\<lambda>k k'. \<exists>t l. thread_step queue_lb_start (queue_lb_exec True) k t l k')"

text \<open>A lock whose holder is not in the critical section is never given back.\<close>

lemma lb_lock_kept:
  assumes "queue_lb_later (s, c) (s', c')" and "lb_head_lock s = Some t" and "\<And>u. Head_Lock \<notin> held (lb_own (c u))"
  shows "lb_head_lock s' = Some t"
proof -
  have "lb_head_lock s' = Some t \<and> (\<forall>u. Head_Lock \<notin> held (lb_own (c' u)))"
    using assms(1) unfolding queue_lb_later_def
  proof (induction "(s', c')" arbitrary: s' c' rule: rtranclp_induct)
    case base
    then show ?case using assms(2,3) by simp
  next
    case (step k)
    obtain s1 c1 where k: "k = (s1, c1)" by force
    from step(3) [OF k] have lk: "lb_head_lock s1 = Some t" and out: "\<And>u. Head_Lock \<notin> held (lb_own (c1 u))" by auto
    from step(2) obtain u l where "thread_step queue_lb_start (queue_lb_exec True) (s1, c1) u l (s', c')" unfolding k by blast
    then show ?case
    proof (cases rule: thread_step.cases)
      case (step_call op x)
      then show ?thesis using lk out lb_call(1) [OF step_call(5)] by simp
    next
      case (step_exec x p y)
      have "Head_Lock \<notin> held (lb_own (At x))" using out [of u] step_exec(3) by simp
      moreover from this have "lb_head_lock s' = Some t" using lb_lock_change(2) [OF step_exec(4)] lk by simp
      moreover have "Head_Lock \<notin> held (lb_own y)" by (rule lb_stays_out [OF step_exec(4) lk calculation(1)])
      ultimately show ?thesis using out step_exec by simp
    next
      case (step_return r)
      then show ?thesis using lk out by simp
    qed
  qed
  then show ?thesis by blast
qed

text \<open>A \<^verbatim>\<open>remove\<close> that finds the queue empty runs to its end.\<close>

lemma lb_empty_remove:
  assumes "run queue_lb_start (queue_lb_exec True) (lbq_init d v l1 l2) n h (s, c)"
    and "lb_head_lock s = None" and "lb_cells s (lb_head s) = Some nd" and "nxt nd = NULL" and "c t = Idle"
  shows "run queue_lb_start (queue_lb_exec True) (lbq_init d v l1 l2) (n + 6)
       (h @ [(t, Call Remove), (t, Return (RetVal 0))]) (s\<lparr>lb_head_lock := Some t\<rparr>, c)"
proof -
  let ?ds = "[Do_Call t Remove, Do_Step t NULL, Do_Step t NULL, Do_Step t NULL, Do_Step t NULL, Do_Return t]"
  have "c(t := Idle) = c" using assms(5) by auto
  then have rp: "replay queue_lb_start (queue_lb_exec True) ?ds (h, (s, c)) =
      Some (h @ [(t, Call Remove), (t, Return (RetVal 0))], (s\<lparr>lb_head_lock := Some t\<rparr>, c))"
    using assms(2-5) by simp
  from replay_run_from [OF assms(1) rp] show ?thesis by (simp add: numeral_eq_Suc)
qed

section \<open>Concrete runs\<close>

text \<open>Thread 0 adds 5; while it has linked its node and not yet moved the tail, thread 1 removes 5.\<close>

definition queue_lb_demo :: "int sq_op command list" where
  "queue_lb_demo = [Do_Call 0 (Add 5), Do_Step 0 2, Do_Step 0 0, Do_Step 0 0, Do_Step 0 0,
     Do_Call 1 Remove, Do_Step 1 0, Do_Step 1 0, Do_Step 1 0, Do_Step 1 0, Do_Step 1 0, Do_Step 1 0]"

definition queue_lb_demo_history :: "(int sq_op, int sq_ret) history" where
  "queue_lb_demo_history = [(0, Call (Add 5)), (1, Call Remove)]"

lemma queue_lb_demo_run:
  "\<exists>s c. run queue_lb_start (queue_lb_exec False) (lbq_init 1 0 None None) (length queue_lb_demo)
       queue_lb_demo_history (s, c)
     \<and> c 1 = At (BRemove (BR_Free 1 5)) \<and> queue_lb_count s = Some 0"
  unfolding queue_lb_demo_history_def queue_lb_count_def
  by (rule replay_exhibits) (simp add: queue_lb_demo_def lbq_init_def fresh_def alloc_def
      put_cell_def empty_store_def sq_node_defs count_queue.simps)

section \<open>Properties\<close>

text \<open>C6: every concurrent run of the two-lock queue, in a build without \<^verbatim>\<open>LL_GLOBAL_LOCK\<close> and with
  both locks initially free, which the constructor does not establish, is linearizable with respect to
  the FIFO specification.\<close>

theorem queue_lb_linearizable:
  assumes "run queue_lb_start (queue_lb_exec False) (lbq_init d v l1 l2) n h k"
    and "l1 = None" and "l2 = None" and "d \<noteq> NULL"
  shows "linearizable queue_spec [] h"
  using queue_lb.linearizable [OF assms(1) [unfolded assms(2,3)] assms(4)] .

theorem queue_lb_linearizable_witness: "linearizable queue_spec [] queue_lb_demo_history"
  using queue_lb_demo_run queue_lb_linearizable [where d = 1 and ?l1.0 = None and ?l2.0 = None] by fastforce

text \<open>C9: in a build with \<^verbatim>\<open>LL_GLOBAL_LOCK\<close> a \<^verbatim>\<open>remove\<close> that finds the queue empty never gives the head lock
  back. From every reachable state in which the queue is empty, the head lock is free and thread \<open>t\<close> is idle, a
  \<^verbatim>\<open>remove\<close> of \<open>t\<close> can run to its end and return 0, and in every state that can follow the head lock
  is still that of \<open>t\<close>, and every thread, \<open>t\<close> too, that calls \<^verbatim>\<open>remove\<close> again blocks at the lock.\<close>

theorem queue_lb_global_lock_leak:
  assumes "run queue_lb_start (queue_lb_exec True) (lbq_init d v l1 l2) n h (s, c)"
    and "lb_head_lock s = None" and "lb_cells s (lb_head s) = Some nd" and "nxt nd = NULL" and "c t = Idle"
  shows "\<exists>s'. run queue_lb_start (queue_lb_exec True) (lbq_init d v l1 l2) (n + 6)
       (h @ [(t, Call Remove), (t, Return (RetVal 0))]) (s', c)
     \<and> (\<forall>s'' c''. queue_lb_later (s', c) (s'', c'') \<longrightarrow>
          lb_head_lock s'' = Some t \<and> (\<forall>u p. queue_lb_exec True u p s'' (BRemove BR_Lock) = Blocked))"
proof (intro exI conjI allI impI)
  let ?s = "s\<lparr>lb_head_lock := Some t\<rparr>"
  show r: "run queue_lb_start (queue_lb_exec True) (lbq_init d v l1 l2) (n + 6)
       (h @ [(t, Call Remove), (t, Return (RetVal 0))]) (?s, c)"
    by (rule lb_empty_remove [OF assms])
  have out: "Head_Lock \<notin> held (lb_own (c u))" for u using lb_critical [OF assms(1), of u] assms(2) by auto
  fix s'' c'' assume "queue_lb_later (?s, c) (s'', c'')"
  then have "lb_head_lock s'' = Some t" by (rule lb_lock_kept) (use out in simp_all)
  then show "lb_head_lock s'' = Some t" "queue_lb_exec True u p s'' (BRemove BR_Lock) = Blocked" for u p by simp_all
qed

theorem queue_lb_global_lock_leak_witness:
  "\<exists>s'. run queue_lb_start (queue_lb_exec True) (lbq_init 1 (0 :: int) None None) 6
       [(0, Call Remove), (0, Return (RetVal 0))] (s', \<lambda>_. Idle) \<and> lb_head_lock s' = Some 0"
proof -
  have "run queue_lb_start (queue_lb_exec True) (lbq_init 1 (0 :: int) None None) 0 [] (lbq_init 1 0 None None, \<lambda>_. Idle)"
    by (rule run_nil)
  from queue_lb_global_lock_leak [OF this, of _ 0] show ?thesis
    by (fastforce simp: lbq_init_def queue_lb_later_def)
qed

end
