(* ===== verification/Optik_Integer.thy ===== *)
theory Optik_Integer
  imports Ownership Stack_Queue_Spec
begin

unbundle bit_operations_syntax

text \<open>
  The OPTIK lock, \<^verbatim>\<open>include/optik.h\<close>, in its default representation \<^verbatim>\<open>OPTIK_INTEGER\<close>: one 64-bit
  version counter, odd while the lock is held, and all ones once the object it protects has been
  deleted. The operations on the shared word are step functions, one access per step; a client
  that acquires the lock by any of them and releases it by any of them is run by any number of
  threads. Proved: mutual exclusion, and the contract OPTIK clients rely on: when a thread holds the
  lock through a validated acquisition of version \<open>v\<close>, no critical section has been committed
  since \<open>v\<close> was read.
\<close>

section \<open>The code\<close>

definition OPTIK_DELETED :: "64 word" where "OPTIK_DELETED = - 1"

definition OPTIK_LOCKED :: "64 word" where "OPTIK_LOCKED = 1"

definition optik_init :: "64 word" where "optik_init = 0"

definition optik_is_locked :: "64 word \<Rightarrow> bool" where
  "optik_is_locked ol \<longleftrightarrow> ol AND OPTIK_LOCKED \<noteq> 0"

definition optik_is_deleted :: "64 word \<Rightarrow> bool" where
  "optik_is_deleted ol \<longleftrightarrow> ol = OPTIK_DELETED"

definition optik_get_version :: "64 word \<Rightarrow> 32 word" where
  "optik_get_version ol = ucast ol"

definition optik_get_n_locked :: "64 word \<Rightarrow> 32 word" where
  "optik_get_n_locked ol = ucast (drop_bit 1 ol)"

definition optik_is_same_version :: "64 word \<Rightarrow> 64 word \<Rightarrow> bool" where
  "optik_is_same_version v1 v2 \<longleftrightarrow> v1 = v2"

text \<open>The operations on the shared word. Every access to \<^verbatim>\<open>*ol\<close> is a step of its own.\<close>

datatype optik_try_pc = Try_Check | Try_CAS

fun optik_trylock_version :: "64 word \<Rightarrow> 64 word \<Rightarrow> optik_try_pc \<Rightarrow> (64 word, optik_try_pc, bool) outcome" where
  "optik_trylock_version ol_old ol Try_Check =
     (if optik_is_locked ol_old \<or> ol \<noteq> ol_old then Next ol (Finished False) else Next ol (At Try_CAS))"
| "optik_trylock_version ol_old ol Try_CAS =
     (let (old, ol') = CAS_val ol ol_old (ol_old + 1) in Next ol' (Finished (old = ol_old)))"

fun optik_trylock_vdelete :: "64 word \<Rightarrow> 64 word \<Rightarrow> optik_try_pc \<Rightarrow> (64 word, optik_try_pc, bool) outcome" where
  "optik_trylock_vdelete ol_old ol Try_Check =
     (if optik_is_locked ol_old \<or> ol \<noteq> ol_old then Next ol (Finished False) else Next ol (At Try_CAS))"
| "optik_trylock_vdelete ol_old ol Try_CAS =
     (let (old, ol') = CAS_val ol ol_old OPTIK_DELETED in Next ol' (Finished (old = ol_old)))"

datatype optik_lock_pc = Lock_Read | Lock_CAS "64 word"

fun optik_lock :: "64 word \<Rightarrow> optik_lock_pc \<Rightarrow> (64 word, optik_lock_pc, bool) outcome" where
  "optik_lock ol Lock_Read = Next ol (At (if optik_is_locked ol then Lock_Read else Lock_CAS ol))"
| "optik_lock ol (Lock_CAS ol_old) =
     (let (old, ol') = CAS_val ol ol_old (ol_old + 1)
      in Next ol' (if old = ol_old then Finished True else At Lock_Read))"

text \<open>The variants with \<^verbatim>\<open>cpause\<close> instead of \<^verbatim>\<open>mfence\<close> in the waiting loop make the same accesses.\<close>

definition optik_lock_backoff :: "64 word \<Rightarrow> optik_lock_pc \<Rightarrow> (64 word, optik_lock_pc, bool) outcome" where
  "optik_lock_backoff = optik_lock"

fun optik_lock_version :: "64 word \<Rightarrow> 64 word \<Rightarrow> optik_lock_pc \<Rightarrow> (64 word, optik_lock_pc, bool) outcome" where
  "optik_lock_version ol_old ol Lock_Read =
     Next ol (At (if optik_is_locked ol then Lock_Read else Lock_CAS ol))"
| "optik_lock_version ol_old ol (Lock_CAS ol_cur) =
     (let (old, ol') = CAS_val ol ol_cur (ol_cur + 1)
      in Next ol' (if old = ol_cur then Finished (ol_cur = ol_old) else At Lock_Read))"

definition optik_lock_version_backoff :: "64 word \<Rightarrow> 64 word \<Rightarrow> optik_lock_pc \<Rightarrow> (64 word, optik_lock_pc, bool) outcome" where
  "optik_lock_version_backoff = optik_lock_version"

fun optik_trylock :: "64 word \<Rightarrow> optik_lock_pc \<Rightarrow> (64 word, optik_lock_pc, bool) outcome" where
  "optik_trylock ol Lock_Read =
     Next ol (if optik_is_locked ol then Finished False else At (Lock_CAS ol))"
| "optik_trylock ol (Lock_CAS ol_new) =
     (let (old, ol') = CAS_val ol ol_new (ol_new + 1) in Next ol' (Finished (old = ol_new)))"

fun optik_get_version_wait :: "64 word \<Rightarrow> unit \<Rightarrow> (64 word, unit, 64 word) outcome" where
  "optik_get_version_wait ol _ = Next ol (if optik_is_locked ol then At () else Finished ol)"

text \<open>\<^verbatim>\<open>(*ol)++\<close> on a volatile word: a read and a write.\<close>

datatype optik_unlock_pc = Unlock_Read | Unlock_Write "64 word"

fun optik_unlock :: "64 word \<Rightarrow> optik_unlock_pc \<Rightarrow> (64 word, optik_unlock_pc, unit) outcome" where
  "optik_unlock ol Unlock_Read = Next ol (At (Unlock_Write ol))"
| "optik_unlock ol (Unlock_Write x) = Next (x + 1) (Finished ())"

definition optik_unlockv :: "64 word \<Rightarrow> 64 word \<times> 64 word" where
  "optik_unlockv ol = (ol + 1, ol + 1)"

definition optik_revert :: "64 word \<Rightarrow> 64 word" where
  "optik_revert ol = ol - 1"

section \<open>Clients\<close>

text \<open>
  A client program: acquire the lock, or delete the object, in one of the ways the interface has;
  if it is acquired, release it in one of the ways. \<open>oc_commits\<close> is an auxiliary variable: it
  counts the releases by \<^verbatim>\<open>optik_unlock\<close> and \<^verbatim>\<open>optik_unlockv\<close>, those that publish changes.
\<close>

datatype optik_release = Rel_Unlock | Rel_Unlockv | Rel_Revert

datatype optik_acquire = Acq_Trylock_Version "64 word" | Acq_Vdelete "64 word" | Acq_Lock
  | Acq_Lock_Version "64 word" | Acq_Trylock

datatype optik_client_pc =
    OC_Trylock_Version "64 word" optik_try_pc optik_release
  | OC_Vdelete "64 word" optik_try_pc
  | OC_Lock optik_lock_pc optik_release
  | OC_Lock_Version "64 word" optik_lock_pc optik_release
  | OC_Trylock optik_lock_pc optik_release
  | OC_Critical "64 word option" optik_release   \<comment> \<open>holding; the version it was validated against\<close>
  | OC_Unlock optik_unlock_pc

record optik_client =
  oc_word :: "64 word"
  oc_commits :: nat

fun optik_client_start :: "optik_acquire \<times> optik_release \<Rightarrow> optik_client_pc option" where
  "optik_client_start (Acq_Trylock_Version v, r) = Some (OC_Trylock_Version v Try_Check r)"
| "optik_client_start (Acq_Vdelete v, r) = Some (OC_Vdelete v Try_Check)"
| "optik_client_start (Acq_Lock, r) = Some (OC_Lock Lock_Read r)"
| "optik_client_start (Acq_Lock_Version v, r) = Some (OC_Lock_Version v Lock_Read r)"
| "optik_client_start (Acq_Trylock, r) = Some (OC_Trylock Lock_Read r)"

text \<open>One step of an operation inside the client: where to go on, and what to do with the result.\<close>

fun embed :: "optik_client \<Rightarrow> ('pc \<Rightarrow> optik_client_pc) \<Rightarrow> ('r \<Rightarrow> (optik_client_pc, unit) control) \<Rightarrow>
    (64 word, 'pc, 'r) outcome \<Rightarrow> (optik_client, optik_client_pc, unit) outcome" where
  "embed s f k (Next ol (At pc)) = Next (s\<lparr>oc_word := ol\<rparr>) (At (f pc))"
| "embed s f k (Next ol (Finished r)) = Next (s\<lparr>oc_word := ol\<rparr>) (k r)"
| "embed s f k (Next ol Idle) = Blocked"
| "embed s f k Blocked = Blocked"
| "embed s f k Fault = Fault"

fun optik_client_exec :: "tid \<Rightarrow> ptr \<Rightarrow> optik_client \<Rightarrow> optik_client_pc \<Rightarrow> (optik_client, optik_client_pc, unit) outcome" where
  "optik_client_exec t p s (OC_Trylock_Version v pc r) =
     embed s (\<lambda>pc. OC_Trylock_Version v pc r) (\<lambda>b. if b then At (OC_Critical (Some v) r) else Finished ())
       (optik_trylock_version v (oc_word s) pc)"
| "optik_client_exec t p s (OC_Vdelete v pc) =
     embed s (\<lambda>pc. OC_Vdelete v pc) (\<lambda>b. Finished ()) (optik_trylock_vdelete v (oc_word s) pc)"
| "optik_client_exec t p s (OC_Lock pc r) =
     embed s (\<lambda>pc. OC_Lock pc r) (\<lambda>b. At (OC_Critical None r)) (optik_lock (oc_word s) pc)"
| "optik_client_exec t p s (OC_Lock_Version v pc r) =
     embed s (\<lambda>pc. OC_Lock_Version v pc r) (\<lambda>b. At (OC_Critical (if b then Some v else None) r))
       (optik_lock_version v (oc_word s) pc)"
| "optik_client_exec t p s (OC_Trylock pc r) =
     embed s (\<lambda>pc. OC_Trylock pc r) (\<lambda>b. if b then At (OC_Critical None r) else Finished ())
       (optik_trylock (oc_word s) pc)"
| "optik_client_exec t p s (OC_Critical v Rel_Unlock) = Next s (At (OC_Unlock Unlock_Read))"
| "optik_client_exec t p s (OC_Critical v Rel_Unlockv) =
     Next (s\<lparr>oc_word := fst (optik_unlockv (oc_word s)), oc_commits := Suc (oc_commits s)\<rparr>) (Finished ())"
| "optik_client_exec t p s (OC_Critical v Rel_Revert) =
     Next (s\<lparr>oc_word := optik_revert (oc_word s)\<rparr>) (Finished ())"
| "optik_client_exec t p s (OC_Unlock pc) =
     embed (case pc of Unlock_Read \<Rightarrow> s | Unlock_Write _ \<Rightarrow> s\<lparr>oc_commits := Suc (oc_commits s)\<rparr>)
       OC_Unlock Finished (optik_unlock (oc_word s) pc)"

definition optik_client_init :: optik_client where
  "optik_client_init = \<lparr>oc_word = optik_init, oc_commits = 0\<rparr>"

section \<open>The invariant\<close>

lemma optik_is_locked_odd: "optik_is_locked v \<longleftrightarrow> odd (unat v)"
proof -
  have "unat (v AND 1) = unat v mod 2" by (simp add: and_one_eq unat_mod)
  moreover have "v AND 1 = 0 \<longleftrightarrow> unat (v AND 1) = 0" by (simp only: unat_eq_zero)
  ultimately show ?thesis
    by (simp add: optik_is_locked_def OPTIK_LOCKED_def odd_iff_mod_2_eq_one del: unat_eq_zero)
qed

lemma unat_unlocked_Suc: "\<not> optik_is_locked v \<Longrightarrow> unat (v + 1) = Suc (unat v)"
proof -
  assume "\<not> optik_is_locked v"
  then have ev: "even (unat v)" by (simp add: optik_is_locked_odd)
  have "unat v < 2 ^ 64" using unsigned_less [of v] by simp
  moreover have "Suc (unat v) \<noteq> 2 ^ 64"
  proof
    assume *: "Suc (unat v) = 2 ^ 64"
    have "even ((2 :: nat) ^ 64)" by simp
    with * have "even (Suc (unat v))" by simp
    with ev show False by simp
  qed
  ultimately show ?thesis by (intro unat_Suc_word) simp
qed

lemma OPTIK_DELETED_locked: "optik_is_locked OPTIK_DELETED"
  by (simp add: optik_is_locked_odd OPTIK_DELETED_def unsigned_minus_1_eq_mask mask_eq_exp_minus_1)

fun in_critical :: "(optik_client_pc, unit) control \<Rightarrow> bool" where
  "in_critical (At (OC_Critical v r)) = True"
| "in_critical (At (OC_Unlock pc)) = True"
| "in_critical _ = False"

definition optik_SI :: "nat \<Rightarrow> optik_client \<Rightarrow> unit \<Rightarrow> (tid \<Rightarrow> bool) \<Rightarrow> bool" where
  "optik_SI n s a w \<longleftrightarrow> (\<forall>t u. w t \<longrightarrow> w u \<longrightarrow> t = u) \<and> oc_commits s \<le> n \<and>
     (oc_word s = OPTIK_DELETED \<and> (\<forall>t. \<not> w t) \<or>
      unat (oc_word s) = 2 * oc_commits s + (if \<exists>t. w t then 1 else 0))"

fun optik_LI :: "tid \<Rightarrow> optik_client \<Rightarrow> unit \<Rightarrow> (tid \<Rightarrow> bool) \<Rightarrow> (optik_client_pc, unit) control \<Rightarrow>
    (optik_acquire \<times> optik_release, unit) ghost \<Rightarrow> bool" where
  "optik_LI t s a w Idle g = (g = Quiet)"
| "optik_LI t s a w (Finished r) g = returns g ()"
| "optik_LI t s a w (At (OC_Trylock_Version v pc r)) g = (returns g () \<and> (pc = Try_CAS \<longrightarrow> \<not> optik_is_locked v))"
| "optik_LI t s a w (At (OC_Vdelete v pc)) g = (returns g () \<and> (pc = Try_CAS \<longrightarrow> \<not> optik_is_locked v))"
| "optik_LI t s a w (At (OC_Lock pc r)) g = (returns g () \<and> (\<forall>x. pc = Lock_CAS x \<longrightarrow> \<not> optik_is_locked x))"
| "optik_LI t s a w (At (OC_Lock_Version v pc r)) g = (returns g () \<and> (\<forall>x. pc = Lock_CAS x \<longrightarrow> \<not> optik_is_locked x))"
| "optik_LI t s a w (At (OC_Trylock pc r)) g = (returns g () \<and> (\<forall>x. pc = Lock_CAS x \<longrightarrow> \<not> optik_is_locked x))"
| "optik_LI t s a w (At (OC_Critical v r)) g =
     (returns g () \<and> (\<forall>x. v = Some x \<longrightarrow> \<not> optik_is_locked x \<and> oc_word s = x + 1))"
| "optik_LI t s a w (At (OC_Unlock pc)) g = (returns g () \<and> (\<forall>x. pc = Unlock_Write x \<longrightarrow> x = oc_word s))"

lemma optik_SI_mono: "optik_SI n s a w \<Longrightarrow> optik_SI (Suc n) s a w"
  by (auto simp: optik_SI_def)

text \<open>While a thread is in its critical section the others do not change the word.\<close>

lemma optik_step_ok:
  assumes SI': "optik_SI (Suc n) s' a (w(t := in_critical y))" and LI': "optik_LI t s' a (w(t := in_critical y)) y g"
    and frame: "\<And>u. u \<noteq> t \<Longrightarrow> w u \<Longrightarrow> oc_word s' = oc_word s"
  shows "step_ok no_spec in_critical optik_SI optik_LI n t s a w g s' y"
proof (rule step_okI [where own = in_critical and SI = optik_SI and LI = optik_LI, OF advance_stay SI' LI'])
  fix u z gu
  assume ut: "u \<noteq> t" and own: "w u = in_critical z" and LI: "optik_LI u s a w z gu"
  show "optik_LI u s' a (w(t := in_critical y)) z (observe no_spec a gu)"
  proof (cases z)
    case (At x)
    show ?thesis using LI own frame [OF ut] unfolding At by (cases x) (auto simp: returns_observe)
  qed (use LI in \<open>auto simp: returns_observe\<close>)
qed

text \<open>A compare-and-swap that finds an unlocked value takes the lock, or marks the object deleted.\<close>

lemma optik_free:
  assumes "optik_SI n s a w" and "\<not> optik_is_locked (oc_word s)"
  shows "\<And>u. \<not> w u" and "unat (oc_word s) = 2 * oc_commits s"
proof -
  have "oc_word s \<noteq> OPTIK_DELETED" using assms(2) OPTIK_DELETED_locked by auto
  with assms show "\<And>u. \<not> w u" "unat (oc_word s) = 2 * oc_commits s"
    by (auto simp: optik_SI_def optik_is_locked_odd split: if_splits)
qed

lemma optik_acquire_SI:
  assumes "optik_SI n s a w" and "\<not> optik_is_locked (oc_word s)"
  shows "optik_SI (Suc n) (s\<lparr>oc_word := oc_word s + 1\<rparr>) a (w(t := True))"
  using assms(1) optik_free [OF assms] unat_unlocked_Suc [OF assms(2)] by (auto simp: optik_SI_def)

lemma optik_delete_SI:
  assumes "optik_SI n s a w" and "\<not> optik_is_locked (oc_word s)"
  shows "optik_SI (Suc n) (s\<lparr>oc_word := OPTIK_DELETED\<rparr>) a (w(t := False))"
  using assms(1) optik_free [OF assms] by (auto simp: optik_SI_def)

text \<open>Releases.\<close>

lemma optik_held:
  assumes "optik_SI n s a w" and "w t"
  shows "\<And>u. w u \<Longrightarrow> u = t" and "unat (oc_word s) = Suc (2 * oc_commits s)" and "oc_commits s \<le> n"
  using assms by (auto simp: optik_SI_def split: if_splits)

lemma optik_commit_SI:
  assumes "optik_SI n s a w" and "w t" and "Suc n < 2 ^ 62"
  shows "optik_SI (Suc n) (s\<lparr>oc_word := oc_word s + 1, oc_commits := Suc (oc_commits s)\<rparr>) a (w(t := False))"
proof -
  note held = optik_held [OF assms(1,2)]
  have "unat (oc_word s + 1) = Suc (unat (oc_word s))"
    using held(2,3) assms(3) by (intro unat_Suc_word) simp
  then show ?thesis using held by (auto simp: optik_SI_def)
qed

lemma optik_revert_SI:
  assumes "optik_SI n s a w" and "w t"
  shows "optik_SI (Suc n) (s\<lparr>oc_word := oc_word s - 1\<rparr>) a (w(t := False))"
proof -
  note held = optik_held [OF assms]
  have "oc_word s \<noteq> 0" using held(2) by auto
  then have "unat (oc_word s - 1) = unat (oc_word s) - 1" by (rule unat_minus_one)
  then show ?thesis using held by (auto simp: optik_SI_def)
qed

lemma optik_client_step:
  assumes inb: "Suc n < 2 ^ 62" and SI: "optik_SI n s a w" and LI: "optik_LI t s a w (At x) g"
    and own: "w t = in_critical (At x)" and ex: "optik_client_exec t p s x = Next s' y"
  shows "step_ok no_spec in_critical optik_SI optik_LI n t s a w g s' y"
proof -
  have same: "s\<lparr>oc_word := oc_word s\<rparr> = s" by simp
  have keep: ?thesis if "s' = s" "in_critical y = w t" "optik_LI t s a w y g"
    unfolding that(1) using that optik_SI_mono [OF SI]
    by (intro step_ok_local [where own = in_critical and SI = optik_SI and LI = optik_LI]) auto
  have take: ?thesis if "s' = s\<lparr>oc_word := oc_word s + 1\<rparr>" "\<not> optik_is_locked (oc_word s)" "in_critical y"
      "optik_LI t s' a (w(t := True)) y g"
    using that optik_acquire_SI [OF SI that(2)] optik_free [OF SI that(2)] by (intro optik_step_ok) auto
  have alone: "\<And>u. u \<noteq> t \<Longrightarrow> \<not> w u" if "w t" using optik_held(1) [OF SI that] by blast
  show ?thesis
  proof (cases x)
    case (OC_Trylock_Version v pc r)
    then show ?thesis using LI own ex keep take by (cases pc) (auto split: if_splits)
  next
    case (OC_Vdelete v pc)
    show ?thesis
    proof (cases "pc = Try_CAS \<and> oc_word s = v")
      case True
      with OC_Vdelete ex LI have d: "s' = s\<lparr>oc_word := OPTIK_DELETED\<rparr>" "y = Finished ()" "\<not> optik_is_locked (oc_word s)"
        "returns g ()"
        by auto
      then show ?thesis using optik_delete_SI [OF SI d(3)] optik_free [OF SI d(3)] by (intro optik_step_ok) auto
    next
      case False
      then show ?thesis using OC_Vdelete LI own ex keep by (cases pc) (auto split: if_splits)
    qed
  next
    case (OC_Lock pc r)
    then show ?thesis using LI own ex keep take by (cases pc) (auto split: if_splits)
  next
    case (OC_Lock_Version v pc r)
    then show ?thesis using LI own ex keep take by (cases pc) (auto split: if_splits)
  next
    case (OC_Trylock pc r)
    then show ?thesis using LI own ex keep take by (cases pc) (auto split: if_splits)
  next
    case (OC_Critical v r)
    then have wt: "w t" using own by simp
    show ?thesis
    proof (cases r)
      case Rel_Unlock
      with OC_Critical LI own ex keep show ?thesis by auto
    next
      case Rel_Unlockv
      with OC_Critical LI own ex optik_commit_SI [OF SI wt inb] alone [OF wt] show ?thesis
        by (intro optik_step_ok) (auto simp: optik_unlockv_def)
    next
      case Rel_Revert
      with OC_Critical LI own ex optik_revert_SI [OF SI wt] alone [OF wt] show ?thesis
        by (intro optik_step_ok) (auto simp: optik_revert_def)
    qed
  next
    case (OC_Unlock pc)
    then have wt: "w t" using own by simp
    show ?thesis
    proof (cases pc)
      case Unlock_Read
      with OC_Unlock LI own ex keep show ?thesis by auto
    next
      case (Unlock_Write v)
      have "s\<lparr>oc_commits := Suc (oc_commits s), oc_word := oc_word s + 1\<rparr>
          = s\<lparr>oc_word := oc_word s + 1, oc_commits := Suc (oc_commits s)\<rparr>" by simp
      with Unlock_Write OC_Unlock LI ex optik_commit_SI [OF SI wt inb] alone [OF wt] show ?thesis
        by (intro optik_step_ok) (auto simp: add.commute)
    qed
  qed
qed

lemma optik_client_call:
  assumes "optik_client_start op = Some x"
  shows "in_critical (At x) = in_critical Idle"
    and "optik_LI t s a w (At x) (Open op (legal no_spec op a))"
  using assms by (cases op rule: optik_client_start.cases; auto)+

lemma embed_Fault: "oc \<noteq> Fault \<Longrightarrow> embed s f k oc \<noteq> Fault"
  by (cases "(s, f, k, oc)" rule: embed.cases) auto

lemma optik_client_safe: "optik_client_exec t p s x \<noteq> Fault"
  by (cases "(t, p, s, x)" rule: optik_client_exec.cases)
    (auto intro!: embed_Fault elim!: optik_trylock_version.elims optik_trylock_vdelete.elims
      optik_lock.elims optik_lock_version.elims optik_trylock.elims optik_unlock.elims split: if_splits)

lemma optik_SI_init: "optik_SI 0 optik_client_init () (\<lambda>_. in_critical Idle)"
  by (simp add: optik_SI_def optik_client_init_def optik_init_def)

interpretation optik_client: thread_object no_spec "()" optik_client_start optik_client_exec optik_client_init
  in_critical "\<lambda>n. n < 2 ^ 62" optik_SI optik_LI
  by unfold_locales
    (rule optik_SI_init optik_client_safe | rule optik_SI_mono optik_client_step optik_client_call, assumption+ | simp)+

section \<open>Structures protected by an OPTIK lock\<close>

text \<open>The lock word \<open>l\<close> of the lock \<open>k\<close> agrees with what the threads hold.\<close>

definition optik_held_ok :: "64 word \<Rightarrow> 'k \<Rightarrow> (tid \<Rightarrow> 'k ownership) \<Rightarrow> bool" where
  "optik_held_ok l k w \<longleftrightarrow> (\<forall>t u. k \<in> held (w t) \<longrightarrow> k \<in> held (w u) \<longrightarrow> t = u) \<and>
     (optik_is_locked l \<longleftrightarrow> (\<exists>t. k \<in> held (w t)))"

lemma optik_held_exclusive: "optik_held_ok l k w \<Longrightarrow> k \<in> held (w t) \<Longrightarrow> u \<noteq> t \<Longrightarrow> k \<notin> held (w u)"
  unfolding optik_held_ok_def by blast

lemma optik_held_locked: "optik_held_ok l k w \<Longrightarrow> k \<in> held (w t) \<Longrightarrow> optik_is_locked l"
  unfolding optik_held_ok_def by blast

lemma optik_held_free: "optik_held_ok l k w \<Longrightarrow> \<not> optik_is_locked l \<Longrightarrow> k \<notin> held (w t)"
  unfolding optik_held_ok_def by blast

lemma optik_held_keep:
  assumes "optik_held_ok l k w" and "k \<in> held x \<longleftrightarrow> k \<in> held (w t)"
  shows "optik_held_ok l k (w(t := x))"
proof -
  have "k \<in> held ((w(t := x)) u) \<longleftrightarrow> k \<in> held (w u)" for u using assms(2) by simp
  with assms(1) show ?thesis unfolding optik_held_ok_def by presburger
qed

lemma optik_locked_Suc: "\<not> optik_is_locked l \<Longrightarrow> optik_is_locked (l + 1)"
  using unat_unlocked_Suc [of l] by (simp add: optik_is_locked_odd)

lemma optik_unlocked_Suc: "optik_is_locked l \<Longrightarrow> Suc (unat l) < 2 ^ 64 \<Longrightarrow> \<not> optik_is_locked (l + 1)"
  using unat_Suc_word [of l] by (simp add: optik_is_locked_odd)

lemma optik_held_acquire:
  "optik_held_ok l k w \<Longrightarrow> \<not> optik_is_locked l \<Longrightarrow> k \<in> held x \<Longrightarrow> optik_held_ok (l + 1) k (w(t := x))"
  using optik_locked_Suc [of l] unfolding optik_held_ok_def by auto

lemma optik_held_release:
  "optik_held_ok l k w \<Longrightarrow> k \<in> held (w t) \<Longrightarrow> Suc (unat l) < 2 ^ 64 \<Longrightarrow> k \<notin> held x \<Longrightarrow> optik_held_ok (l + 1) k (w(t := x))"
  using optik_unlocked_Suc [of l] unfolding optik_held_ok_def by auto

section \<open>A concrete run\<close>

text \<open>Thread 0 acquires version 0 and commits; thread 1, which had read version 0, is refused;
  thread 2 acquires version 2, validated.\<close>

definition optik_demo :: "(optik_acquire \<times> optik_release) command list" where
  "optik_demo = [Do_Call 0 (Acq_Trylock_Version 0, Rel_Unlock), Do_Call 1 (Acq_Trylock_Version 0, Rel_Unlock),
     Do_Step 0 0, Do_Step 1 0, Do_Step 0 0, Do_Step 1 0, Do_Return 1, Do_Step 0 0, Do_Step 0 0, Do_Step 0 0,
     Do_Return 0, Do_Call 2 (Acq_Lock_Version 2, Rel_Revert), Do_Step 2 0, Do_Step 2 0]"

definition optik_demo_history :: "(optik_acquire \<times> optik_release, unit) history" where
  "optik_demo_history = [(0, Call (Acq_Trylock_Version 0, Rel_Unlock)), (1, Call (Acq_Trylock_Version 0, Rel_Unlock)),
     (1, Return ()), (0, Return ()), (2, Call (Acq_Lock_Version 2, Rel_Revert))]"

lemma optik_demo_run:
  "\<exists>s c. run optik_client_start optik_client_exec optik_client_init (length optik_demo) optik_demo_history (s, c)
     \<and> c 2 = At (OC_Critical (Some 2) Rel_Revert) \<and> c 1 = Idle \<and> s = \<lparr>oc_word = 3, oc_commits = 1\<rparr>"
  unfolding optik_demo_history_def
  by (rule replay_exhibits)
    (simp add: optik_demo_def optik_client_init_def optik_init_def optik_is_locked_def OPTIK_LOCKED_def)

lemma optik_demo_prefix_run:
  "\<exists>s c. run optik_client_start optik_client_exec optik_client_init 11 (take 4 optik_demo_history) (s, c)
     \<and> s = \<lparr>oc_word = 2, oc_commits = 1\<rparr>"
proof -
  have len: "length (take 11 optik_demo) = 11" by (simp add: optik_demo_def)
  have "\<exists>s c. run optik_client_start optik_client_exec optik_client_init (length (take 11 optik_demo))
      (take 4 optik_demo_history) (s, c) \<and> s = \<lparr>oc_word = 2, oc_commits = 1\<rparr>"
    by (rule replay_exhibits)
      (simp add: optik_demo_def optik_demo_history_def optik_client_init_def optik_init_def
        optik_is_locked_def OPTIK_LOCKED_def)
  then show ?thesis unfolding len .
qed

section \<open>Properties\<close>

text \<open>C13: mutual exclusion of the OPTIK lock: in every run of fewer than 2^62 steps (so that the
  64-bit counter cannot wrap around), whatever mix of acquisitions and releases the threads use, at
  most one thread is between an acquisition and its release.\<close>

theorem optik_mutual_exclusion:
  assumes "run optik_client_start optik_client_exec optik_client_init n h (s, c)" and "n < 2 ^ 62"
    and "in_critical (c t)" and "in_critical (c u)"
  shows "t = u"
proof -
  from optik_client.reachable_SI [OF assms(1,2)] obtain a where "optik_SI n s a (in_critical \<circ> c)" by blast
  with assms(3,4) show ?thesis by (auto simp: optik_SI_def)
qed

theorem optik_mutual_exclusion_witness:
  "\<exists>s c. run optik_client_start optik_client_exec optik_client_init (length optik_demo) optik_demo_history (s, c)
     \<and> in_critical (c 2) \<and> (\<forall>t. in_critical (c t) \<longrightarrow> t = 2)"
proof -
  from optik_demo_run obtain s c where
    *: "run optik_client_start optik_client_exec optik_client_init (length optik_demo) optik_demo_history (s, c)"
      "in_critical (c 2)" by fastforce
  moreover have "length optik_demo < 2 ^ 62" by (simp add: optik_demo_def)
  ultimately have "\<forall>t. in_critical (c t) \<longrightarrow> t = 2" using optik_mutual_exclusion by blast
  with * show ?thesis by blast
qed

text \<open>C14: OPTIK validation: if the lock word is read unlocked in some reachable state, and in some
  reachable state a thread holds the lock through an acquisition validated against that value, then
  no critical section has been committed between the two states (the counts of commits agree).\<close>

theorem optik_validation:
  assumes "run optik_client_start optik_client_exec optik_client_init n h (s, c)" and "n < 2 ^ 62"
    and "\<not> optik_is_locked (oc_word s)"
    and "run optik_client_start optik_client_exec optik_client_init n' h' (s', c')" and "n' < 2 ^ 62"
    and "c' t = At (OC_Critical (Some (oc_word s)) r)"
  shows "oc_commits s' = oc_commits s"
proof -
  from optik_client.reachable_SI [OF assms(1,2)] obtain a where SI: "optik_SI n s a (in_critical \<circ> c)" by blast
  from optik_client.reachable_LI [OF assms(4,5)] obtain a' g where
    SI': "optik_SI n' s' a' (in_critical \<circ> c')" and LI': "optik_LI t s' a' (in_critical \<circ> c') (c' t) (g t)"
    by blast
  have "(in_critical \<circ> c') t" using assms(6) by simp
  from optik_held(2) [OF SI' this] have "unat (oc_word s') = Suc (2 * oc_commits s')" .
  moreover have "oc_word s' = oc_word s + 1" using LI' assms(6) by simp
  moreover have "unat (oc_word s + 1) = Suc (unat (oc_word s))" by (rule unat_unlocked_Suc [OF assms(3)])
  ultimately show ?thesis using optik_free(2) [OF SI assms(3)] by simp
qed

theorem optik_validation_witness:
  "\<exists>s c s' c'. run optik_client_start optik_client_exec optik_client_init 11 (take 4 optik_demo_history) (s, c)
     \<and> run optik_client_start optik_client_exec optik_client_init (length optik_demo) optik_demo_history (s', c')
     \<and> oc_word s = 2 \<and> c' 2 = At (OC_Critical (Some (oc_word s)) Rel_Revert) \<and> oc_commits s' = oc_commits s"
proof -
  from optik_demo_prefix_run obtain s c where
    s: "run optik_client_start optik_client_exec optik_client_init 11 (take 4 optik_demo_history) (s, c)"
    and w: "oc_word s = 2" by fastforce
  from optik_demo_run obtain s' c' where
    s': "run optik_client_start optik_client_exec optik_client_init (length optik_demo) optik_demo_history (s', c')"
    and c': "c' 2 = At (OC_Critical (Some (oc_word s)) Rel_Revert)" unfolding w by blast
  have "length optik_demo < 2 ^ 62" "(11 :: nat) < 2 ^ 62" by (simp_all add: optik_demo_def)
  moreover have "\<not> optik_is_locked (oc_word s)" by (simp add: w optik_is_locked_def OPTIK_LOCKED_def)
  ultimately have "oc_commits s' = oc_commits s" using optik_validation [OF s _ _ s' _ c'] by blast
  with s s' w c' show ?thesis by blast
qed

end
