(* ===== verification/Search_Spec.thy ===== *)
theory Search_Spec
  imports Ownership
begin

text \<open>
  The interface \<^verbatim>\<open>Search<K,V>\<close> of \<^verbatim>\<open>src/search.h\<close> (\<^verbatim>\<open>search\<close>, \<^verbatim>\<open>insert\<close>, \<^verbatim>\<open>remove\<close>, \<^verbatim>\<open>length\<close>)
  and its sequential specification: a finite map, where \<^verbatim>\<open>search\<close> and \<^verbatim>\<open>remove\<close> answer \<^verbatim>\<open>0\<close> for an
  absent key and \<^verbatim>\<open>insert\<close> answers whether it inserted. Sorted linked structures keep two sentinels
  with the smallest and the largest key (\<^verbatim>\<open>KeyMaxMin\<close>); keys strictly between them are the
  precondition of the operations.
\<close>

datatype ('k, 'v) map_op = Search 'k | Insert 'k 'v | Delete 'k

datatype 'v map_ret = Ret_Val 'v | Ret_Int int

definition val_or_zero :: "'v option \<Rightarrow> 'v::zero" where
  "val_or_zero x = (case x of None \<Rightarrow> 0 | Some v \<Rightarrow> v)"

lemma val_or_zero_simps [simp]: "val_or_zero None = 0" "val_or_zero (Some v) = v"
  by (simp_all add: val_or_zero_def)

fun map_spec :: "(('k, 'v::zero) map_op, 'k \<rightharpoonup> 'v, 'v map_ret) seq_spec" where
  "map_spec (Search k) a = (a, Ret_Val (val_or_zero (a k)))"
| "map_spec (Insert k v) a =
     (case a k of None \<Rightarrow> (a(k \<mapsto> v), Ret_Int 1) | Some _ \<Rightarrow> (a, Ret_Int 0))"
| "map_spec (Delete k) a =
     (case a k of None \<Rightarrow> (a, Ret_Val 0) | Some v \<Rightarrow> (a(k := None), Ret_Val v))"

fun op_key :: "('k, 'v) map_op \<Rightarrow> 'k" where
  "op_key (Search k) = k"
| "op_key (Insert k v) = k"
| "op_key (Delete k) = k"

text \<open>A map with room for \<open>c\<close> keys: \<^verbatim>\<open>insert\<close> of a new key into a full map answers 0.\<close>

fun bounded_map_spec :: "nat \<Rightarrow> (('k, 'v::zero) map_op, 'k \<rightharpoonup> 'v, 'v map_ret) seq_spec" where
  "bounded_map_spec c (Insert k v) a =
     (case a k of None \<Rightarrow> if card (dom a) < c then (a(k \<mapsto> v), Ret_Int 1) else (a, Ret_Int 0)
      | Some _ \<Rightarrow> (a, Ret_Int 0))"
| "bounded_map_spec c op a = map_spec op a"

text \<open>The operation has been called and has not taken effect.\<close>

definition pending :: "'o \<Rightarrow> ('o, 'r) ghost \<Rightarrow> bool" where
  "pending op g \<longleftrightarrow> (\<exists>W. g = Open op W)"

lemma pending_simps [simp]: "pending op (Open op W)" "\<not> pending op Quiet" "\<not> pending op (Closed r)"
  by (auto simp: pending_def)

lemma pending_observe: "pending op g \<Longrightarrow> pending op (observe spec a g)"
  by (auto simp: pending_def)

section \<open>Evidence gathered by an unlocked traversal\<close>

text \<open>
  What a pending operation may return because the abstract map allowed it at some moment since its
  call: \<open>seen_absent g\<close>, the answer for an absent key, \<open>seen_present g v\<close>, the answer for a key bound
  to \<open>v\<close>. They are trivial where the operation never returns that answer without validation.
\<close>

fun seen_absent :: "(('k, 'v::zero) map_op, 'v map_ret) ghost \<Rightarrow> bool" where
  "seen_absent (Open (Search k) W) = (Ret_Val 0 \<in> W)"
| "seen_absent (Open (Delete k) W) = (Ret_Val 0 \<in> W)"
| "seen_absent _ = True"

fun seen_present :: "(('k, 'v::zero) map_op, 'v map_ret) ghost \<Rightarrow> 'v \<Rightarrow> bool" where
  "seen_present (Open (Search k) W) v = (Ret_Val v \<in> W)"
| "seen_present (Open (Insert k x) W) v = (Ret_Int 0 \<in> W)"
| "seen_present _ v = True"

lemma seen_absentI: "observed map_spec a (Open op W) \<Longrightarrow> a (op_key op) = None \<Longrightarrow> seen_absent (Open op W)"
  by (cases op) (auto simp: legal_def)

lemma seen_presentI: "observed map_spec a (Open op W) \<Longrightarrow> a (op_key op) = Some v \<Longrightarrow> seen_present (Open op W) v"
  by (cases op) (auto simp: legal_def)

lemma seen_absent_observe: "seen_absent g \<Longrightarrow> seen_absent (observe map_spec a g)"
  by (cases g rule: seen_absent.cases) auto

lemma seen_present_observe: "seen_present g v \<Longrightarrow> seen_present (observe map_spec a g) v"
  by (cases "(g, v)" rule: seen_present.cases) auto

lemma seen_absent_now: "a (op_key op) = None \<Longrightarrow> seen_absent (observe map_spec a (Open op W))"
  by (cases op) (auto simp: legal_def)

section \<open>Reachability through next pointers\<close>

text \<open>\<open>nm p = Some q\<close>: the object at \<open>p\<close> points to \<open>q\<close>.\<close>

definition reach :: "(ptr \<Rightarrow> ptr option) \<Rightarrow> ptr \<Rightarrow> ptr \<Rightarrow> bool" where
  "reach nm p q \<longleftrightarrow> (p, q) \<in> {(x, y). nm x = Some y}\<^sup>*"

lemma reach_refl [simp, intro]: "reach nm p p"
  by (simp add: reach_def)

lemma reach_step: "nm p = Some q \<Longrightarrow> reach nm q r \<Longrightarrow> reach nm p r"
  unfolding reach_def by (rule converse_rtrancl_into_rtrancl [of _ q]) auto

lemma reach_trans: "reach nm p q \<Longrightarrow> reach nm q r \<Longrightarrow> reach nm p r"
  unfolding reach_def by (rule rtrancl_trans)

lemma reach_snoc: "reach nm p q \<Longrightarrow> nm q = Some r \<Longrightarrow> reach nm p r"
  using reach_trans reach_step reach_refl by metis

lemma reach_cases: "reach nm p r \<Longrightarrow> p = r \<or> (\<exists>q. nm p = Some q \<and> reach nm q r)"
  unfolding reach_def by (auto elim: converse_rtranclE)

lemma reach_None: "nm p = None \<Longrightarrow> reach nm p q \<longleftrightarrow> p = q"
  using reach_cases by fastforce

lemma reach_induct [consumes 1, case_names base step]:
  assumes "reach nm p q" and "P p" and "\<And>x y. reach nm p x \<Longrightarrow> nm x = Some y \<Longrightarrow> P x \<Longrightarrow> P y"
  shows "P q"
  using assms(1) unfolding reach_def
  by (induction rule: rtrancl_induct) (use assms(2,3) in \<open>auto simp: reach_def\<close>)

lemma reach_converse_induct [consumes 1, case_names base step]:
  assumes "reach nm p q" and "P q" and "\<And>x y. nm x = Some y \<Longrightarrow> reach nm y q \<Longrightarrow> P y \<Longrightarrow> P x"
  shows "P p"
  using assms(1) unfolding reach_def
  by (induction rule: converse_rtrancl_induct) (use assms(2,3) in \<open>auto simp: reach_def\<close>)

text \<open>Linking a node \<open>x\<close>, to which nothing reachable points, between \<open>p\<close> and its successor \<open>c\<close>.\<close>

lemma reach_link:
  assumes p: "nm p = Some c" and nm': "nm' = nm(p := Some x, x := Some c)" and px: "p \<noteq> x"
    and q: "q \<noteq> x" and nx: "\<And>y. reach nm q y \<Longrightarrow> nm y \<noteq> Some x"
  shows "reach nm q r \<Longrightarrow> reach nm' q r"
    and "reach nm' q r \<Longrightarrow> if r = x then reach nm q p else reach nm q r"
proof -
  assume r: "reach nm q r"
  have "q \<noteq> x \<longrightarrow> (\<forall>y. reach nm q y \<longrightarrow> nm y \<noteq> Some x) \<longrightarrow> reach nm' q r"
    using r
  proof (induction rule: reach_converse_induct)
    case (step y z)
    show ?case
    proof (intro impI)
      assume y: "y \<noteq> x" and ny: "\<forall>u. reach nm y u \<longrightarrow> nm u \<noteq> Some x"
      have "z \<noteq> x" using ny step(1) by auto
      moreover have "\<forall>u. reach nm z u \<longrightarrow> nm u \<noteq> Some x" using ny reach_step [of nm y z] step(1) by blast
      ultimately have z: "reach nm' z r" using step(3) by blast
      show "reach nm' y r"
      proof (cases "y = p")
        case True
        then have "nm' y = Some x" "nm' x = Some z" using step(1) p nm' px by auto
        then show ?thesis using z by (meson reach_step)
      next
        case False
        then have "nm' y = Some z" using step(1) y nm' by simp
        then show ?thesis using z by (rule reach_step)
      qed
    qed
  qed simp
  then show "reach nm' q r" using q nx by blast
next
  assume "reach nm' q r"
  then show "if r = x then reach nm q p else reach nm q r"
  proof (induction rule: reach_induct)
    case base
    then show ?case using q by simp
  next
    case (step y z)
    show ?case
    proof (cases "y = x")
      case True
      with step nm' have z: "z = c" "reach nm q p" by auto
      then show ?thesis using reach_snoc [OF z(2) p] by simp
    next
      case y: False
      show ?thesis
      proof (cases "y = p")
        case True
        with step y nm' show ?thesis by simp
      next
        case False
        with step y nm' have "nm y = Some z" "reach nm q y" by auto
        then show ?thesis using nx reach_snoc by auto
      qed
    qed
  qed
qed

text \<open>Bypassing the successor \<open>c\<close> of \<open>p\<close>.\<close>

lemma reach_bypass:
  assumes "nm p = Some c" and "nm c = Some d" and "nm' = nm(p := Some d)" and "p \<noteq> c"
  shows "reach nm' q r \<Longrightarrow> reach nm q r"
    and "reach nm q r \<Longrightarrow> r \<noteq> c \<Longrightarrow> reach nm' q r"
proof -
  assume "reach nm' q r"
  then show "reach nm q r"
    by (induction rule: reach_induct) (use assms in \<open>auto split: if_splits intro: reach_snoc\<close>)
next
  assume "reach nm q r" and "r \<noteq> c"
  then show "reach nm' q r"
  proof (induction rule: reach_converse_induct)
    case (step x y)
    show ?case
    proof (cases "x = p")
      case True
      then have "y = c" using step(1) assms(1) by simp
      moreover have "nm' c = Some d" using assms by simp
      ultimately have "reach nm' d r"
        using reach_cases [of nm' c r] step.IH \<open>r \<noteq> c\<close> by auto
      have "nm' p = Some d" using assms(3) by simp
      from reach_step [of nm' p d r, OF this \<open>reach nm' d r\<close>] True show ?thesis by simp
    next
      case False
      then show ?thesis using step assms(3) by (auto intro: reach_step)
    qed
  qed simp
qed

end
