(* ===== verification/Hashtable_Buckets.thy ===== *)
theory Hashtable_Buckets
  imports Thread_Objects Search_Spec
begin

text \<open>
  Hash tables that are arrays of independent buckets: \<^verbatim>\<open>src/algorithms/hashtable_{optik,optik_gl,harris,
  pugh,copy,optik_arraymap}.h\<close> differ only in the class of the buckets. An operation computes the
  bucket of its key and calls the operation of that bucket. The locale \<open>bucket_table\<close> proves once
  that a table of linearizable maps is a linearizable map; its interpretations are in the theories
  of the tables.
\<close>

unbundle bit_operations_syntax

section \<open>The code\<close>

text \<open>\<^verbatim>\<open>KeyHasher<K>::hash\<close> truncates the key to an \<^verbatim>\<open>int\<close>; the tables take the hasher as a parameter.\<close>

definition key_hasher :: "64 word \<Rightarrow> 32 word" where
  "key_hasher key = ucast key"

definition key_hasher_int :: "32 word \<Rightarrow> 32 word" where
  "key_hasher_int key = key"

text \<open>\<^verbatim>\<open>int addr = KEY_HASHER::hash(key) & hash\<close>: the \<^verbatim>\<open>int\<close> is converted to \<^verbatim>\<open>size_t\<close> and back.\<close>

definition ht_addr :: "64 word \<Rightarrow> 32 word \<Rightarrow> 32 word" where
  "ht_addr hash h = ucast ((scast h :: 64 word) AND hash)"

record 'b hashtable =
  ht_maxlen :: "32 word"
  ht_hash :: "64 word"
  ht_buckets :: "'b list"

definition ht_init :: "32 word \<Rightarrow> (nat \<Rightarrow> 'b) \<Rightarrow> 'b hashtable" where
  "ht_init n new = \<lparr>ht_maxlen = n, ht_hash = scast (n - 1), ht_buckets = map new [0..<nat (sint n)]\<rparr>"

text \<open>A call computes the bucket, then runs inside it. An index outside of the array is a fault.\<close>

datatype ('o, 'l) ht_pc = HT_Addr 'o 'l | HT_In nat 'l

fun ht_control :: "nat \<Rightarrow> ('l, 'r) control \<Rightarrow> (('o, 'l) ht_pc, 'r) control" where
  "ht_control i Idle = Idle"
| "ht_control i (At x) = At (HT_In i x)"
| "ht_control i (Finished r) = Finished r"

definition ht_start :: "('o \<Rightarrow> 'l option) \<Rightarrow> 'o \<Rightarrow> ('o, 'l) ht_pc option" where
  "ht_start bstart op = map_option (HT_Addr op) (bstart op)"

fun ht_exec :: "('k \<Rightarrow> 32 word) \<Rightarrow> ('b, 'l, 'r) exec \<Rightarrow> ('b hashtable, (('k, 'v) map_op, 'l) ht_pc, 'r) exec" where
  "ht_exec hasher bexec t p s (HT_Addr op x) =
     Next s (At (HT_In (unat (ht_addr (ht_hash s) (hasher (op_key op)))) x))"
| "ht_exec hasher bexec t p s (HT_In i x) =
     (if i < length (ht_buckets s)
      then (case bexec t p (ht_buckets s ! i) x of
          Next b y \<Rightarrow> Next (s\<lparr>ht_buckets := (ht_buckets s)[i := b]\<rparr>) (ht_control i y)
        | Blocked \<Rightarrow> Blocked
        | Fault \<Rightarrow> Fault)
      else Fault)"

text \<open>\<^verbatim>\<open>length()\<close> adds up the lengths of the buckets.\<close>

fun ht_length_loop :: "('b \<Rightarrow> int option) \<Rightarrow> 'b list \<Rightarrow> int \<Rightarrow> int option" where
  "ht_length_loop blen [] count = Some count"
| "ht_length_loop blen (b # bs) count = Option.bind (blen b) (\<lambda>c. ht_length_loop blen bs (count + c))"

definition ht_length :: "('b \<Rightarrow> int option) \<Rightarrow> 'b hashtable \<Rightarrow> int option" where
  "ht_length blen s = ht_length_loop blen (ht_buckets s) 0"

text \<open>The destructor deletes the buckets one by one and then the array. The language wants \<^verbatim>\<open>delete\<close> for what
  \<^verbatim>\<open>new\<close> has allocated and \<^verbatim>\<open>delete[]\<close> for what \<^verbatim>\<open>new[]\<close> has; the other combinations are undefined (\<open>None\<close>). The
  array comes from \<^verbatim>\<open>new[]\<close> and is passed to \<^verbatim>\<open>delete\<close>.\<close>

datatype cpp_form = Of_Object | Of_Array

definition cpp_delete :: "cpp_form \<Rightarrow> cpp_form \<Rightarrow> 'm \<Rightarrow> 'm option" where
  "cpp_delete allocated deleted m = (if allocated = deleted then Some m else None)"

fun ht_destroy_loop :: "(nat \<Rightarrow> 'b \<Rightarrow> 'm option) \<Rightarrow> nat \<Rightarrow> 'b list \<Rightarrow> 'm list option" where
  "ht_destroy_loop bdel i [] = Some []"
| "ht_destroy_loop bdel i (b # bs) =
     Option.bind (bdel i b) (\<lambda>m. Option.bind (ht_destroy_loop bdel (Suc i) bs) (\<lambda>ms. Some (m # ms)))"

definition ht_destroy :: "(nat \<Rightarrow> 'b \<Rightarrow> 'm option) \<Rightarrow> 'b hashtable \<Rightarrow> 'm list option" where
  "ht_destroy bdel s = Option.bind (ht_destroy_loop bdel 0 (ht_buckets s)) (cpp_delete Of_Array Of_Object)"

text \<open>So the destructor of every table is undefined, whatever its buckets do.\<close>

lemma ht_destroy_undefined: "ht_destroy bdel s = None"
  by (cases "ht_destroy_loop bdel 0 (ht_buckets s)") (simp_all add: ht_destroy_def cpp_delete_def)

section \<open>The index is in range\<close>

lemma ht_mask_unat:
  fixes n :: "32 word"
  assumes "0 < sint n"
  shows "unat (scast (n - 1) :: 64 word) = nat (sint n) - 1"
proof -
  have lt: "sint n < 2 ^ 31" using sint_less [of n] by simp
  have "sint (n - 1) = signed_take_bit 31 (sint n - 1)"
    using sint_word_diff [of n 1] by simp
  also have "\<dots> = sint n - 1" by (rule signed_take_bit_int_eq_self) (use assms lt in auto)
  finally have s: "sint (n - 1) = sint n - 1" .
  have "(scast (n - 1) :: 64 word) = word_of_int (sint n - 1)" by (simp only: scast_eq s)
  then have "uint (scast (n - 1) :: 64 word) = uint (word_of_int (sint n - 1) :: 64 word)" by (rule arg_cong)
  also have "\<dots> = take_bit 64 (sint n - 1)" by (simp only: uint_word_of_int_eq) simp
  also have "\<dots> = sint n - 1" by (rule take_bit_int_eq_self) (use assms lt in auto)
  finally show ?thesis by (simp add: unat_eq_nat_uint nat_diff_distrib)
qed

lemma unat_and_le: "unat (x AND y :: 'a::len word) \<le> unat y"
proof -
  have "uint x AND uint y \<le> uint y" by (rule AND_upper2) simp
  then have "uint (x AND y) \<le> uint y" by (simp only: uint_and)
  then have "nat (uint (x AND y)) \<le> nat (uint y)" by (rule nat_mono)
  then show ?thesis by (simp only: unat_eq_nat_uint)
qed

lemma ht_addr_unat:
  fixes n :: "32 word"
  assumes "0 < sint n"
  shows "unat (ht_addr (scast (n - 1)) h) = unat ((scast h :: 64 word) AND scast (n - 1))"
    and "unat (ht_addr (scast (n - 1)) h) < nat (sint n)"
proof -
  let ?a = "(scast h :: 64 word) AND scast (n - 1)"
  have le: "unat ?a \<le> nat (sint n) - 1" using unat_and_le [of "scast h" "scast (n - 1) :: 64 word"] ht_mask_unat [OF assms] by simp
  have "sint n < 2 ^ 31" using sint_less [of n] by simp
  with le have "unat ?a < 2 ^ 32" by simp
  then show "unat (ht_addr (scast (n - 1)) h) = unat ?a"
    unfolding ht_addr_def by (simp add: unsigned_ucast_eq take_bit_nat_eq_self)
  with le assms show "unat (ht_addr (scast (n - 1)) h) < nat (sint n)" by simp
qed

section \<open>The part of the map in one bucket\<close>

definition part :: "('k \<Rightarrow> nat) \<Rightarrow> ('k \<rightharpoonup> 'v) \<Rightarrow> nat \<Rightarrow> 'k \<rightharpoonup> 'v" where
  "part f a i = (\<lambda>k. if f k = i then a k else None)"

definition replace_part :: "('k \<Rightarrow> nat) \<Rightarrow> ('k \<rightharpoonup> 'v) \<Rightarrow> nat \<Rightarrow> ('k \<rightharpoonup> 'v) \<Rightarrow> 'k \<rightharpoonup> 'v" where
  "replace_part f a i b = (\<lambda>k. if f k = i then b k else a k)"

lemma part_empty [simp]: "part f Map.empty i = Map.empty"
  by (simp add: part_def)

lemma part_replace_other [simp]: "i \<noteq> j \<Longrightarrow> part f (replace_part f a i b) j = part f a j"
  by (auto simp: part_def replace_part_def)

lemma replace_part_same [simp]: "replace_part f a i (part f a i) = a"
  by (auto simp: part_def replace_part_def)

lemma part_replace [simp]: "part f (replace_part f a i b) i = part f b i"
  by (auto simp: part_def replace_part_def)

lemma part_part [simp]: "part f (part f a i) i = part f a i"
  by (auto simp: part_def)

text \<open>What a table does whose buckets behave as \<open>spec\<close>: the operation on the part of the map in the bucket of
  its key. A specification is local if an operation changes no other key than its own.\<close>

definition table_spec :: "('k \<Rightarrow> nat) \<Rightarrow> (('k, 'v) map_op, 'k \<rightharpoonup> 'v, 'r) seq_spec \<Rightarrow> (('k, 'v) map_op, 'k \<rightharpoonup> 'v, 'r) seq_spec" where
  "table_spec f spec op a = (case spec op (part f a (f (op_key op))) of (b, r) \<Rightarrow> (replace_part f a (f (op_key op)) b, r))"

definition local_spec :: "(('k, 'v) map_op, 'k \<rightharpoonup> 'v, 'r) seq_spec \<Rightarrow> bool" where
  "local_spec spec \<longleftrightarrow> (\<forall>op a k. k \<noteq> op_key op \<longrightarrow> fst (spec op a) k = a k)"

lemma local_map_spec: "local_spec map_spec"
  unfolding local_spec_def by (intro allI impI, case_tac op) (auto split: option.splits)

lemma local_bounded_map_spec: "local_spec (bounded_map_spec c)"
  unfolding local_spec_def by (intro allI impI, case_tac op) (auto split: option.splits)

lemma spec_part:
  assumes "f (op_key op) = i" and "spec op (part f a i) = (b, r)"
  shows "table_spec f spec op a = (replace_part f a i b, r)" and "local_spec spec \<Longrightarrow> part f b i = b"
proof -
  show "table_spec f spec op a = (replace_part f a i b, r)" using assms by (simp add: table_spec_def)
  assume "local_spec spec"
  then have "b k = part f a i k" if "k \<noteq> op_key op" for k
    using assms(2) that unfolding local_spec_def by (metis fst_conv)
  then have "b k = None" if "f k \<noteq> i" for k using that assms(1) by (metis part_def)
  then show "part f b i = b" by (auto simp: part_def fun_eq_iff)
qed

lemma table_spec_map: "table_spec f map_spec = map_spec"
proof (intro ext)
  fix op :: "('a, 'b) map_op" and a
  show "table_spec f map_spec op a = map_spec op a"
    by (cases op) (auto simp: table_spec_def part_def replace_part_def fun_eq_iff split: option.splits if_splits)
qed

lemma legal_part:
  assumes "f (op_key op) = i" and "local_spec spec"
  shows "legal spec op (part f a i) = legal (table_spec f spec) op a"
proof -
  obtain b r where br: "spec op (part f a i) = (b, r)" by force
  note sp = spec_part [where spec = spec and f = f and a = a and b = b and r = r, OF assms(1) br]
  have "b = part f a i \<longleftrightarrow> replace_part f a i b = a"
    using sp(2) [OF assms(2)] part_replace [of f a i b] by (metis replace_part_same)
  then show ?thesis using br sp(1) by (auto simp: legal_def)
qed

definition ghost_in :: "('k \<Rightarrow> nat) \<Rightarrow> nat \<Rightarrow> (('k, 'v) map_op, 'r) ghost \<Rightarrow> bool" where
  "ghost_in f i g \<longleftrightarrow> (\<forall>op W. g = Open op W \<longrightarrow> f (op_key op) = i)"

lemma observed_part: "ghost_in f i g \<Longrightarrow> local_spec spec \<Longrightarrow> observed spec (part f a i) g = observed (table_spec f spec) a g"
  by (cases g) (auto simp: ghost_in_def legal_part)

lemma observe_part: "ghost_in f i g \<Longrightarrow> local_spec spec \<Longrightarrow> observe spec (part f a i) g = observe (table_spec f spec) a g"
  by (cases g) (auto simp: ghost_in_def legal_part)

lemma ghost_in_observe: "ghost_in f i g \<Longrightarrow> ghost_in f i (observe spec a g)"
  by (cases g) (auto simp: ghost_in_def)

lemma advance_part:
  assumes "advance spec (part f a i) g b g'" and "ghost_in f i g" and "local_spec spec"
  shows "advance (table_spec f spec) a g (replace_part f a i b) g'" and "part f b i = b" and "ghost_in f i g'"
  using assms spec_part [of f _ i spec a b] unfolding advance_def ghost_in_def by auto

section \<open>Tables of linearizable maps\<close>

text \<open>The client of the interface \<open>thread_object\<close>: every bucket is a verified concurrent map.\<close>

locale bucket_table =
  fixes spec :: "(('k, 'v::zero) map_op, 'k \<rightharpoonup> 'v, 'v map_ret) seq_spec"
    and maxlen :: "32 word" and hasher :: "'k \<Rightarrow> 32 word"
    and bstart :: "('k, 'v) map_op \<Rightarrow> 'l option"
    and bexec :: "('b, 'l, 'v map_ret) exec"
    and new :: "nat \<Rightarrow> 'b"
    and own :: "('l, 'v map_ret) control \<Rightarrow> 'w"
    and inb :: "nat \<Rightarrow> nat \<Rightarrow> bool"
    and SI :: "nat \<Rightarrow> 'b \<Rightarrow> ('k \<rightharpoonup> 'v) \<Rightarrow> (tid \<Rightarrow> 'w) \<Rightarrow> bool"
    and LI :: "tid \<Rightarrow> 'b \<Rightarrow> ('k \<rightharpoonup> 'v) \<Rightarrow> (tid \<Rightarrow> 'w) \<Rightarrow> ('l, 'v map_ret) control \<Rightarrow> (('k, 'v) map_op, 'v map_ret) ghost \<Rightarrow> bool"
  assumes local_spec: "local_spec spec"
    and bucket: "thread_object spec Map.empty bstart bexec (new i) own (inb i) SI LI"
begin

definition bucket_of :: "'k \<Rightarrow> nat" where
  "bucket_of k = unat (ht_addr (scast (maxlen - 1)) (hasher k))"

abbreviation buckets :: nat where "buckets \<equiv> nat (sint maxlen)"

abbreviation tspec :: "(('k, 'v) map_op, 'k \<rightharpoonup> 'v, 'v map_ret) seq_spec" where
  "tspec \<equiv> table_spec bucket_of spec"

lemma bucket_of_less: "0 < sint maxlen \<Longrightarrow> bucket_of k < buckets"
  unfolding bucket_of_def by (rule ht_addr_unat(2))

fun table_own :: "((('k, 'v) map_op, 'l) ht_pc, 'v map_ret) control \<Rightarrow> nat \<Rightarrow> 'w" where
  "table_own (At (HT_Addr op x)) = (\<lambda>_. own Idle)(bucket_of (op_key op) := own (At x))"
| "table_own (At (HT_In i x)) = (\<lambda>_. own Idle)(i := own (At x))"
| "table_own _ = (\<lambda>_. own Idle)"

definition table_inb :: "nat \<Rightarrow> bool" where
  "table_inb n \<longleftrightarrow> 0 < sint maxlen \<and> (\<forall>i<buckets. inb i n)"

definition table_SI :: "nat \<Rightarrow> 'b hashtable \<Rightarrow> ('k \<rightharpoonup> 'v) \<Rightarrow> (tid \<Rightarrow> nat \<Rightarrow> 'w) \<Rightarrow> bool" where
  "table_SI n s a w \<longleftrightarrow> 0 < sint maxlen \<and> ht_hash s = scast (maxlen - 1) \<and> length (ht_buckets s) = buckets \<and>
     (\<forall>i<buckets. SI n (ht_buckets s ! i) (part bucket_of a i) (\<lambda>t. w t i))"

definition table_in :: "tid \<Rightarrow> 'b hashtable \<Rightarrow> ('k \<rightharpoonup> 'v) \<Rightarrow> (tid \<Rightarrow> nat \<Rightarrow> 'w) \<Rightarrow> nat \<Rightarrow> 'l \<Rightarrow>
    (('k, 'v) map_op, 'v map_ret) ghost \<Rightarrow> bool" where
  "table_in t s a w i x g \<longleftrightarrow> i < buckets \<and> ghost_in bucket_of i g \<and>
     LI t (ht_buckets s ! i) (part bucket_of a i) (\<lambda>t. w t i) (At x) g"

fun table_LI :: "tid \<Rightarrow> 'b hashtable \<Rightarrow> ('k \<rightharpoonup> 'v) \<Rightarrow> (tid \<Rightarrow> nat \<Rightarrow> 'w) \<Rightarrow>
    ((('k, 'v) map_op, 'l) ht_pc, 'v map_ret) control \<Rightarrow> (('k, 'v) map_op, 'v map_ret) ghost \<Rightarrow> bool" where
  "table_LI t s a w (At (HT_Addr op x)) g = table_in t s a w (bucket_of (op_key op)) x g"
| "table_LI t s a w (At (HT_In i x)) g = table_in t s a w i x g"
| "table_LI t s a w Idle g = (g = Quiet)"
| "table_LI t s a w (Finished r) g = returns g r"

lemma table_finished: "own (Finished r) = own Idle"
  using thread_object.own_finished [OF bucket] .

lemma table_own_control: "table_own (ht_control i y) = (\<lambda>_. own Idle)(i := own y)"
  by (cases y) (auto simp: table_finished)

lemma table_in_step:
  assumes inb: "table_inb (Suc n)" and SI: "table_SI n s a w" and LI: "table_in t s a w i x g"
    and obs: "observed tspec a g" and own: "w t = (\<lambda>_. own Idle)(i := own (At x))"
    and ex: "bexec t p (ht_buckets s ! i) x = Next b y"
  shows "step_ok tspec table_own table_SI table_LI n t s a w g (s\<lparr>ht_buckets := (ht_buckets s)[i := b]\<rparr>) (ht_control i y)"
proof -
  let ?s = "s\<lparr>ht_buckets := (ht_buckets s)[i := b]\<rparr>" and ?w = "w(t := table_own (ht_control i y))"
  from LI have i: "i < buckets" and gi: "ghost_in bucket_of i g" by (auto simp: table_in_def)
  note bo = bucket [of i]
  from SI have len: "length (ht_buckets s) = buckets" by (simp add: table_SI_def)
  have w_i: "(\<lambda>t. ?w t i) = (\<lambda>t. w t i)(t := own y)" and w_j: "\<And>j. j \<noteq> i \<Longrightarrow> (\<lambda>t. ?w t j) = (\<lambda>t. w t j)"
    using own by (auto simp: table_own_control fun_eq_iff)
  have b_i: "ht_buckets ?s ! i = b" and b_j: "\<And>j. j \<noteq> i \<Longrightarrow> ht_buckets ?s ! j = ht_buckets s ! j"
    using i len by auto
  have "step_ok spec own SI LI n t (ht_buckets s ! i) (part bucket_of a i) (\<lambda>t. w t i) g b y"
  proof (rule thread_object.LI_step [OF bo _ _ _ _ _ ex])
    show "inb i (Suc n)" using inb i by (simp add: table_inb_def)
    show "SI n (ht_buckets s ! i) (part bucket_of a i) (\<lambda>t. w t i)" using SI i by (simp add: table_SI_def)
    show "LI t (ht_buckets s ! i) (part bucket_of a i) (\<lambda>t. w t i) (At x) g" using LI by (simp add: table_in_def)
    show "observed spec (part bucket_of a i) g" using obs by (simp add: observed_part [OF gi local_spec])
    show "w t i = own (At x)" using own by simp
  qed
  then obtain c g' where adv: "advance spec (part bucket_of a i) g c g'"
    and SI': "SI (Suc n) b c ((\<lambda>t. w t i)(t := own y))" and LI': "LI t b c ((\<lambda>t. w t i)(t := own y)) y g'"
    and st: "\<And>u z gu. u \<noteq> t \<Longrightarrow> w u i = own z \<Longrightarrow> observed spec (part bucket_of a i) gu \<Longrightarrow>
       LI u (ht_buckets s ! i) (part bucket_of a i) (\<lambda>t. w t i) z gu \<Longrightarrow>
       LI u b c ((\<lambda>t. w t i)(t := own y)) z (observe spec c gu)"
    unfolding step_ok_def by blast
  let ?a = "replace_part bucket_of a i c"
  note ap = advance_part [OF adv gi local_spec]
  have a_i: "part bucket_of ?a i = c" using ap(2) by simp
  show ?thesis
  proof (rule step_okI [where own = table_own and SI = table_SI and LI = table_LI, OF ap(1)])
    show "table_SI (Suc n) ?s ?a ?w"
      unfolding table_SI_def
    proof (intro conjI allI impI)
      fix j assume j: "j < buckets"
      show "SI (Suc n) (ht_buckets ?s ! j) (part bucket_of ?a j) (\<lambda>t. ?w t j)"
      proof (cases "j = i")
        case True
        then show ?thesis using SI' w_i b_i a_i by simp
      next
        case False
        then have "part bucket_of ?a j = part bucket_of a j" by simp
        then show ?thesis
          using thread_object.SI_mono [OF bo] SI j False b_j w_j by (simp add: table_SI_def)
      qed
    qed (use SI in \<open>simp_all add: table_SI_def\<close>)
    show "table_LI t ?s ?a ?w (ht_control i y) g'"
    proof (cases y)
      case Idle
      then show ?thesis using LI' thread_object.LI_quiet [OF bo] by auto
    next
      case (At z)
      then show ?thesis using LI' w_i b_i a_i i ap(3) by (simp add: table_in_def)
    next
      case (Finished r)
      then show ?thesis using LI' thread_object.LI_return [OF bo] by auto
    qed
  next
    fix u z gu assume ut: "u \<noteq> t" and own_u: "w u = table_own z" and obs_u: "observed tspec a gu"
      and LI_u: "table_LI u s a w z gu"
    have tin: "table_in u ?s ?a ?w j v (observe tspec ?a gu)"
      if T: "table_in u s a w j v gu" and ow: "w u j = own (At v)" for j v
    proof -
      from T have j: "j < buckets" and gj: "ghost_in bucket_of j gu"
        and L: "LI u (ht_buckets s ! j) (part bucket_of a j) (\<lambda>t. w t j) (At v) gu" by (auto simp: table_in_def)
      have "LI u (ht_buckets ?s ! j) (part bucket_of ?a j) (\<lambda>t. ?w t j) (At v) (observe tspec ?a gu)"
      proof (cases "j = i")
        case True
        have "LI u b c ((\<lambda>t. w t i)(t := own y)) (At v) (observe spec c gu)"
          using st [OF ut, of "At v" gu] L ow obs_u observed_part [OF gj local_spec] True by simp
        moreover have "observe spec c gu = observe tspec ?a gu"
          using observe_part [of bucket_of i gu spec ?a] gj local_spec a_i True by simp
        ultimately show ?thesis using True w_i b_i a_i by simp
      next
        case False
        then have a_j: "part bucket_of ?a j = part bucket_of a j" by simp
        have "observe tspec ?a gu = gu"
          using observe_part [OF gj local_spec, of ?a] observe_part [OF gj local_spec, of a] a_j observe_observed [OF obs_u] by simp
        then show ?thesis using L b_j [OF False] w_j [OF False] a_j by simp
      qed
      then show ?thesis using j gj by (simp add: table_in_def ghost_in_observe)
    qed
    show "table_LI u ?s ?a ?w z (observe tspec ?a gu)"
    proof (cases z)
      case (At pc)
      then show ?thesis using LI_u own_u tin by (cases pc) auto
    qed (use LI_u in \<open>auto simp: returns_observe\<close>)
  qed
qed

lemma table_SI_mono: "table_SI n s a w \<Longrightarrow> table_SI (Suc n) s a w"
  using thread_object.SI_mono [OF bucket] unfolding table_SI_def by blast

lemma table_step:
  assumes inb: "table_inb (Suc n)" and SI: "table_SI n s a w" and LI: "table_LI t s a w (At x) g"
    and obs: "observed tspec a g" and own: "w t = table_own (At x)"
    and ex: "ht_exec hasher bexec t p s x = Next s' y"
  shows "step_ok tspec table_own table_SI table_LI n t s a w g s' y"
proof (cases x)
  case (HT_Addr op z)
  have "ht_hash s = scast (maxlen - 1)" using SI by (simp only: table_SI_def)
  then have "ht_exec hasher bexec t p s (HT_Addr op z) = Next s (At (HT_In (bucket_of (op_key op)) z))"
    by (simp only: ht_exec.simps bucket_of_def)
  with ex HT_Addr have "Next s' y = Next s (At (HT_In (bucket_of (op_key op)) z))" by (simp only:)
  then have eq: "s' = s" "y = At (HT_In (bucket_of (op_key op)) z)" by (simp_all only: outcome.inject)
  show ?thesis
    unfolding eq
  proof (rule step_ok_local [where own = table_own and SI = table_SI and LI = table_LI, OF table_SI_mono [OF SI]])
    show "table_own (At (HT_In (bucket_of (op_key op)) z)) = w t" using own HT_Addr by simp
    show "table_LI t s a w (At (HT_In (bucket_of (op_key op)) z)) g" using LI HT_Addr by simp
  qed
next
  case (HT_In i z)
  with LI have T: "table_in t s a w i z g" by simp
  then have "i < buckets" unfolding table_in_def by blast
  moreover have "length (ht_buckets s) = buckets" using SI unfolding table_SI_def by blast
  ultimately have "i < length (ht_buckets s)" by (simp only:)
  with ex HT_In obtain b y' where b: "bexec t p (ht_buckets s ! i) z = Next b y'"
      "s' = s\<lparr>ht_buckets := (ht_buckets s)[i := b]\<rparr>" "y = ht_control i y'"
    by (auto split: outcome.splits)
  show ?thesis unfolding b(2,3) by (rule table_in_step [OF inb SI T obs _ b(1)]) (use own HT_In in simp)
qed

lemma table_safe:
  assumes inb: "table_inb n" and SI: "table_SI n s a w" and LI: "table_LI t s a w (At x) g" and own: "w t = table_own (At x)"
  shows "ht_exec hasher bexec t p s x \<noteq> Fault"
proof (cases x)
  case (HT_In i z)
  with LI have i: "i < buckets" and L: "LI t (ht_buckets s ! i) (part bucket_of a i) (\<lambda>t. w t i) (At z) g"
    by (auto simp: table_in_def)
  have ib: "inb i n" and S: "SI n (ht_buckets s ! i) (part bucket_of a i) (\<lambda>t. w t i)" and len: "length (ht_buckets s) = buckets"
    using inb SI i unfolding table_inb_def table_SI_def by blast+
  have w: "(\<lambda>t. w t i) t = own (At z)" using own HT_In by simp
  have "bexec t p (ht_buckets s ! i) z \<noteq> Fault"
    using thread_object.LI_safe [OF bucket, where n = n and s = "ht_buckets s ! i" and a = "part bucket_of a i"
        and w = "\<lambda>t. w t i" and t = t and x = z and g = g and p = p] ib S L w by simp
  then show ?thesis unfolding HT_In using len i by (simp split: outcome.splits)
qed simp

lemma table_own_start: "ht_start bstart op = Some x \<Longrightarrow> table_own (At x) = table_own Idle"
  using thread_object.own_start [OF bucket] by (auto simp: ht_start_def)

lemma table_call:
  assumes x: "ht_start bstart op = Some x" and SI: "table_SI n s a w" and own: "w t = table_own Idle"
  shows "table_LI t s a w (At x) (Open op (legal tspec op a))"
proof -
  let ?i = "bucket_of (op_key op)"
  note bo = bucket [of "bucket_of (op_key op)"]
  have less: "bucket_of k < buckets" for k using SI bucket_of_less by (simp add: table_SI_def)
  from x obtain z where z: "bstart op = Some z" "x = HT_Addr op z" by (auto simp: ht_start_def)
  have "LI t (ht_buckets s ! ?i) (part bucket_of a ?i) (\<lambda>t. w t ?i) (At z) (Open op (legal spec op (part bucket_of a ?i)))"
    by (rule thread_object.LI_call [OF bo z(1)]) (use SI own less in \<open>auto simp: table_SI_def\<close>)
  then show "table_LI t s a w (At x) (Open op (legal tspec op a))"
    by (auto simp: z(2) table_in_def ghost_in_def less legal_part local_spec)
qed

lemma table_SI_init:
  assumes "table_inb 0"
  shows "table_SI 0 (ht_init maxlen new) Map.empty (\<lambda>_. table_own Idle)"
proof -
  have "SI 0 (new i) Map.empty (\<lambda>_. own Idle)" if "i < buckets" for i
    using thread_object.SI_init [OF bucket] assms that by (simp add: table_inb_def)
  then show ?thesis using assms by (simp add: table_SI_def table_inb_def ht_init_def)
qed

end

text \<open>A table of verified maps is a verified map.\<close>

sublocale bucket_table \<subseteq> table: thread_object tspec Map.empty "ht_start bstart" "ht_exec hasher bexec"
  "ht_init maxlen new" table_own table_inb table_SI table_LI
proof unfold_locales
  show "table_inb (Suc n) \<Longrightarrow> table_inb n" for n
    using thread_object.inb_down [OF bucket] by (auto simp: table_inb_def)
  show "ht_exec hasher bexec t p s x \<noteq> Fault"
    if "table_inb n" "table_SI n s a w" "table_LI t s a w (At x) g" "w t = table_own (At x)" for n s a w t x g p
    by (rule table_safe [OF that])
  show "step_ok tspec table_own table_SI table_LI n t s a w g s' y"
    if "table_inb (Suc n)" "table_SI n s a w" "table_LI t s a w (At x) g" "observed tspec a g"
      "w t = table_own (At x)" "ht_exec hasher bexec t p s x = Next s' y" for n s a w t x g p s' y
    by (rule table_step [OF that])
  show "table_inb 0 \<Longrightarrow> table_SI 0 (ht_init maxlen new) Map.empty (\<lambda>_. table_own Idle)"
    by (rule table_SI_init)
qed (simp_all add: table_own_start table_SI_mono table_call)

text \<open>Tables whose buckets count their keys.\<close>

locale counting_table = bucket_table spec maxlen hasher bstart bexec new own inb SI LI
  for spec and maxlen :: "32 word" and hasher :: "'k \<Rightarrow> 32 word" and bstart :: "('k, 'v::zero) map_op \<Rightarrow> 'l option"
    and bexec :: "('b, 'l, 'v map_ret) exec" and new and own :: "('l, 'v map_ret) control \<Rightarrow> 'w" and inb SI LI +
  fixes blen :: "'b \<Rightarrow> int option"
  assumes blen: "inb i n \<Longrightarrow> SI n b a w \<Longrightarrow> finite (dom a) \<and> blen b = Some (int (card (dom a)))"
begin

lemma length_loop:
  assumes "\<And>j. j < length bs \<Longrightarrow> finite (dom (part f a (m + j))) \<and> blen (bs ! j) = Some (int (card (dom (part f a (m + j)))))"
  shows "ht_length_loop blen bs c = Some (c + int (card {k \<in> dom a. m \<le> f k \<and> f k < m + length bs}))"
  using assms
proof (induction bs arbitrary: m c)
  case (Cons b bs)
  have d: "dom (part f a m) = {k \<in> dom a. f k = m}" by (auto simp: part_def split: if_splits)
  have b: "finite (dom (part f a m))" "blen b = Some (int (card (dom (part f a m))))" using Cons.prems [of 0] by auto
  have rest: "finite (dom (part f a (Suc m + j))) \<and> blen (bs ! j) = Some (int (card (dom (part f a (Suc m + j)))))"
    if "j < length bs" for j using Cons.prems [of "Suc j"] that by simp
  let ?R = "{k \<in> dom a. Suc m \<le> f k \<and> f k < Suc m + length bs}"
  have "?R = (\<Union>j<length bs. dom (part f a (Suc m + j)))"
  proof -
    have "\<exists>j<length bs. f k = Suc m + j" if "Suc m \<le> f k" "f k < Suc m + length bs" for k
      using that by (intro exI [of _ "f k - Suc m"]) simp
    then show ?thesis by (auto simp: part_def split: if_splits) fastforce
  qed
  then have "finite ?R" using rest by auto
  then have "card (dom (part f a m) \<union> ?R) = card (dom (part f a m)) + card ?R"
    using b(1) by (intro card_Un_disjoint) (auto simp: d)
  moreover have "dom (part f a m) \<union> ?R = {k \<in> dom a. m \<le> f k \<and> f k < m + length (b # bs)}" by (auto simp: d)
  ultimately show ?case using Cons.IH [OF rest] b(2) by simp
next
  case Nil
  have "{k \<in> dom a. m \<le> f k \<and> f k < m} = {}" by auto
  then have "card {k \<in> dom a. m \<le> f k \<and> f k < m} = 0" by (simp only: card.empty)
  then show ?case by simp
qed

lemma table_length:
  assumes "table_SI n s a w" and "table_inb n"
  shows "ht_length blen s = Some (int (card (dom a)))"
proof -
  have len: "length (ht_buckets s) = buckets" and pos: "0 < sint maxlen"
    and each: "\<And>j. j < buckets \<Longrightarrow> finite (dom (part bucket_of a j)) \<and>
      blen (ht_buckets s ! j) = Some (int (card (dom (part bucket_of a j))))"
    using assms blen unfolding table_SI_def table_inb_def by blast+
  have "ht_length_loop blen (ht_buckets s) 0 =
      Some (0 + int (card {k \<in> dom a. 0 \<le> bucket_of k \<and> bucket_of k < 0 + length (ht_buckets s)}))"
    by (rule length_loop) (use each len in simp)
  moreover have "{k \<in> dom a. 0 \<le> bucket_of k \<and> bucket_of k < 0 + length (ht_buckets s)} = dom a"
    using bucket_of_less [OF pos] by (auto simp: len)
  ultimately show ?thesis by (simp add: ht_length_def)
qed

end

section \<open>Properties\<close>

text \<open>C23: for every positive number of buckets, a power of two or not, and every hash, negative or not,
  the computed index is inside the bucket array; for a power of two it is the hash modulo the number of
  buckets.\<close>

theorem ht_addr_in_range:
  fixes new :: "nat \<Rightarrow> 'b"
  assumes "0 < sint n"
  shows "unat (ht_addr (ht_hash (ht_init n new)) h) < length (ht_buckets (ht_init n new)) \<and>
    (\<forall>k. sint n = 2 ^ k \<longrightarrow> int (unat (ht_addr (ht_hash (ht_init n new)) h)) = sint h mod sint n)"
proof (intro conjI allI impI)
  show "unat (ht_addr (ht_hash (ht_init n new)) h) < length (ht_buckets (ht_init n new))"
    using ht_addr_unat(2) [OF assms, of h] unfolding ht_init_def by simp
  fix k :: nat assume k: "sint n = 2 ^ k"
  have "sint n < 2 ^ 31" using sint_less [of n] by simp
  then have "k < 31" using k by (metis power_less_imp_less_exp one_less_numeral_iff semiring_norm(76))
  have mask: "uint (scast (n - 1) :: 64 word) = 2 ^ k - 1"
  proof -
    have "uint (scast (n - 1) :: 64 word) = int (unat (scast (n - 1) :: 64 word))"
      by (simp only: unat_eq_nat_uint int_nat_eq uint_ge_0 if_True)
    also have "\<dots> = int (nat (2 ^ k) - 1)" by (simp only: ht_mask_unat [OF assms] k)
    also have "\<dots> = 2 ^ k - 1" by (simp add: of_nat_diff nat_power_eq)
    finally show ?thesis .
  qed
  have h: "uint (scast h :: 64 word) = sint h mod 2 ^ 64"
    by (simp only: scast_eq uint_word_of_int_eq) (simp add: take_bit_eq_mod)
  have "int (unat (ht_addr (ht_hash (ht_init n new)) h)) = uint (scast h :: 64 word) AND (2 ^ k - 1)"
  proof -
    have "int (unat (ht_addr (ht_hash (ht_init n new)) h)) = int (unat ((scast h :: 64 word) AND scast (n - 1)))"
      unfolding ht_init_def hashtable.simps by (simp only: ht_addr_unat(1) [OF assms])
    also have "\<dots> = uint ((scast h :: 64 word) AND scast (n - 1))"
      by (simp only: unat_eq_nat_uint int_nat_eq uint_ge_0 if_True)
    also have "\<dots> = uint (scast h :: 64 word) AND (2 ^ k - 1)" by (simp only: uint_and mask)
    finally show ?thesis .
  qed
  also have "\<dots> = (sint h mod 2 ^ 64) mod 2 ^ k"
    by (simp only: h flip: mask_eq_exp_minus_1 take_bit_eq_mask take_bit_eq_mod)
  also have "\<dots> = sint h mod 2 ^ k" 
    by (rule mod_mod_cancel, rule le_imp_power_dvd) (use \<open>k < 31\<close> in simp)
  finally show "int (unat (ht_addr (ht_hash (ht_init n new)) h)) = sint h mod sint n" using k by simp
qed

theorem ht_addr_in_range_witness:
  "unat (ht_addr (ht_hash (ht_init 8 (\<lambda>_. ()))) (- 3)) < length (ht_buckets (ht_init 8 (\<lambda>_. ()))) \<and>
   int (unat (ht_addr (ht_hash (ht_init 8 (\<lambda>_. ()))) (- 3))) = 5"
proof -
  have "(0::int) < sint (8 :: 32 word)" "sint (8 :: 32 word) = 2 ^ 3" "sint (- 3 :: 32 word) mod sint (8 :: 32 word) = 5"
    by simp_all
  with ht_addr_in_range [of 8 "\<lambda>_. ()" "- 3"] show ?thesis by metis
qed

end
