(* ===== verification/List_Heap.thy ===== *)
theory List_Heap
  imports Search_Spec
begin

text \<open>
  Sorted linked lists with sentinels in a heap of nodes: the nodes of \<^verbatim>\<open>src/aux/ll_simple.h\<close> (and,
  by record extension, those of \<^verbatim>\<open>ll_locked.h\<close>, \<^verbatim>\<open>ll_marked.h\<close>, \<^verbatim>\<open>ll_optik.h\<close>), the invariant the
  list algorithms share, what linking and unlinking a node does to it, and why a traversal that
  takes no locks may trust what it reads: unlinked nodes keep their next pointers, so that every
  node it can still meet is in the list or was there during the operation.
\<close>

section \<open>Nodes\<close>

record ('k, 'v) ll_simple =
  ll_key :: 'k
  ll_val :: 'v
  ll_next :: ptr

definition initialize_ll_simple :: "'k \<Rightarrow> 'v \<Rightarrow> ptr \<Rightarrow> ('k, 'v) ll_simple" where
  "initialize_ll_simple k v p = \<lparr>ll_key = k, ll_val = v, ll_next = p\<rparr>"

definition allocate_ll_simple :: "'k \<Rightarrow> 'v \<Rightarrow> ptr \<Rightarrow> ('k, 'v) ll_simple" where
  "allocate_ll_simple k v p = \<lparr>ll_key = k, ll_val = v, ll_next = p\<rparr>"

definition ll_simple_release :: "('k, 'v) ll_simple store \<Rightarrow> ptr \<Rightarrow>
    (('k, 'v) ll_simple store \<Rightarrow> ('s, 'l, 'r) outcome) \<Rightarrow> ('s, 'l, 'r) outcome" where
  "ll_simple_release m p k = release m p k"

lemmas ll_simple_defs = initialize_ll_simple_def allocate_ll_simple_def ll_simple_release_def

definition nm_of :: "(ptr \<Rightarrow> ('k, 'v, 'z) ll_simple_scheme option) \<Rightarrow> ptr \<Rightarrow> ptr option" where
  "nm_of h p = map_option ll_next (h p)"

definition kv_of :: "(ptr \<Rightarrow> ('k, 'v, 'z) ll_simple_scheme option) \<Rightarrow> ptr \<Rightarrow> ('k \<times> 'v) option" where
  "kv_of h p = map_option (\<lambda>n. (ll_key n, ll_val n)) (h p)"

lemma nm_of_Some [simp]: "h p = Some n \<Longrightarrow> nm_of h p = Some (ll_next n)"
  by (simp add: nm_of_def)

lemma kv_of_Some [simp]: "h p = Some n \<Longrightarrow> kv_of h p = Some (ll_key n, ll_val n)"
  by (simp add: kv_of_def)

lemma nm_of_upd: "nm_of (h(p \<mapsto> n)) = (nm_of h)(p \<mapsto> ll_next n)"
  by (auto simp: nm_of_def fun_eq_iff)

lemma kv_of_upd: "kv_of (h(p \<mapsto> n)) = (kv_of h)(p \<mapsto> (ll_key n, ll_val n))"
  by (auto simp: kv_of_def fun_eq_iff)

section \<open>Traversals\<close>

text \<open>The nodes \<open>live\<close> are those that represent the bindings of the abstract map.\<close>

definition represents :: "(ptr \<Rightarrow> ('k \<times> 'v) option) \<Rightarrow> ptr set \<Rightarrow> ('k \<rightharpoonup> 'v) \<Rightarrow> bool" where
  "represents kv live a \<longleftrightarrow> (\<forall>k v. a k = Some v \<longleftrightarrow> (\<exists>q \<in> live. kv q = Some (k, v))) \<and>
     (\<forall>q \<in> live. \<forall>q' \<in> live. \<forall>k v v'. kv q = Some (k, v) \<longrightarrow> kv q' = Some (k, v') \<longrightarrow> q = q')"

text \<open>A traversal for key \<open>k\<close> that stands at \<open>p\<close>. \<open>ahead\<close>: if the key has never been seen absent, its
  node is still ahead. \<open>trav\<close>: moreover a node with the key that is ahead is live, or was when its value
  was allowed. The second part fails in lists with marked nodes, where a traversal tests the mark.\<close>

definition ahead :: "(ptr \<Rightarrow> ptr option) \<Rightarrow> (ptr \<Rightarrow> ('k \<times> 'v::zero) option) \<Rightarrow> ptr set \<Rightarrow> 'k \<Rightarrow>
    (('k, 'v) map_op, 'v map_ret) ghost \<Rightarrow> ptr \<Rightarrow> bool" where
  "ahead nm kv live k g p \<longleftrightarrow> seen_absent g \<or> (\<exists>q v. reach nm p q \<and> q \<in> live \<and> kv q = Some (k, v))"

definition trav :: "(ptr \<Rightarrow> ptr option) \<Rightarrow> (ptr \<Rightarrow> ('k \<times> 'v::zero) option) \<Rightarrow> ptr set \<Rightarrow> 'k \<Rightarrow>
    (('k, 'v) map_op, 'v map_ret) ghost \<Rightarrow> ptr \<Rightarrow> bool" where
  "trav nm kv live k g p \<longleftrightarrow>
     ahead nm kv live k g p \<and> (\<forall>q v. reach nm p q \<longrightarrow> kv q = Some (k, v) \<longrightarrow> q \<in> live \<or> seen_present g v)"

lemma trav_ahead: "trav nm kv live k g p \<Longrightarrow> ahead nm kv live k g p"
  by (simp add: trav_def)

lemma ahead_start:
  assumes "represents kv live a" and "observed map_spec a (Open op W)" and "k = op_key op"
    and "\<And>q. q \<in> live \<Longrightarrow> reach nm p q"
  shows "ahead nm kv live k (Open op W) p"
proof -
  have "seen_absent (Open op W)" if "a k = None" using seen_absentI assms(2,3) that by blast
  moreover have "\<exists>q v. reach nm p q \<and> q \<in> live \<and> kv q = Some (k, v)" if "a k = Some v" for v
    using assms(1,4) that unfolding represents_def by blast
  ultimately show ?thesis unfolding ahead_def by (cases "a k") blast+
qed

lemma trav_start:
  assumes "represents kv live a" and "observed map_spec a (Open op W)" and "k = op_key op"
    and "\<And>q. q \<in> live \<Longrightarrow> reach nm p q" and "\<And>q v. reach nm p q \<Longrightarrow> kv q = Some (k, v) \<Longrightarrow> q \<in> live"
  shows "trav nm kv live k (Open op W) p"
  using ahead_start [OF assms(1-4)] assms(5) unfolding trav_def by blast

lemma ahead_next:
  assumes "ahead nm kv live k g p" and "nm p = Some q" and "\<And>v. kv p \<noteq> Some (k, v)"
  shows "ahead nm kv live k g q"
proof -
  have "reach nm q r" if "reach nm p r" "kv r = Some (k, v)" for r v
    using reach_cases [OF that(1)] that(2) assms(2,3) by auto
  then show ?thesis using assms(1) unfolding ahead_def by metis
qed

lemma trav_next:
  assumes "trav nm kv live k g p" and "nm p = Some q" and "\<And>v. kv p \<noteq> Some (k, v)"
  shows "trav nm kv live k g q"
proof -
  have "reach nm p r" if "reach nm q r" for r
    using reach_step [of nm p q r] assms(2) that by blast
  then show ?thesis using assms(1) ahead_next [OF trav_ahead [OF assms(1)] assms(2,3)] unfolding trav_def by metis
qed

lemma trav_present:
  assumes "trav nm kv live k (Open op W) p" and "kv p = Some (k, v)" and "represents kv live a"
    and "observed map_spec a (Open op W)" and "k = op_key op"
  shows "seen_present (Open op W) v"
proof -
  have "p \<in> live \<Longrightarrow> a k = Some v" using assms(2,3) unfolding represents_def by blast
  then have "p \<in> live \<Longrightarrow> seen_present (Open op W) v" using seen_presentI assms(4,5) by blast
  then show ?thesis using assms(1,2) unfolding trav_def by blast
qed

lemma ahead_absent:
  assumes "ahead nm kv live k g p" and "\<And>q v. reach nm p q \<Longrightarrow> kv q \<noteq> Some (k, v)"
  shows "seen_absent g"
  using assms unfolding ahead_def by blast

text \<open>A traversal is not disturbed by a step that keeps keys and values, brings only live nodes into
  view, and hides no live node that stays live.\<close>

definition trav_kept :: "(ptr \<Rightarrow> ptr option) \<Rightarrow> (ptr \<Rightarrow> ('k \<times> 'v::zero) option) \<Rightarrow> ptr set \<Rightarrow> ('k \<rightharpoonup> 'v) \<Rightarrow>
    (ptr \<Rightarrow> ptr option) \<Rightarrow> (ptr \<Rightarrow> ('k \<times> 'v) option) \<Rightarrow> ptr set \<Rightarrow> ('k \<rightharpoonup> 'v) \<Rightarrow> ptr \<Rightarrow> bool" where
  "trav_kept nm kv live a nm' kv' live' a' p \<longleftrightarrow> (\<forall>op W. observed map_spec a (Open op W) \<longrightarrow>
     (ahead nm kv live (op_key op) (Open op W) p \<longrightarrow>
        ahead nm' kv' live' (op_key op) (observe map_spec a' (Open op W)) p) \<and>
     (trav nm kv live (op_key op) (Open op W) p \<longrightarrow>
        trav nm' kv' live' (op_key op) (observe map_spec a' (Open op W)) p))"

lemma trav_keptI:
  assumes rep: "represents kv live a" and rep': "represents kv' live' a'"
    and kv: "\<And>q. reach nm p q \<Longrightarrow> kv' q = kv q"
    and S1: "\<And>q. reach nm' p q \<Longrightarrow> reach nm p q \<or> q \<in> live'"
    and S2: "\<And>q. reach nm p q \<Longrightarrow> q \<in> live \<Longrightarrow> q \<in> live' \<Longrightarrow> reach nm' p q"
    and S3: "live \<subseteq> live' \<or> live' \<subseteq> live" and S3k: "\<And>q. q \<in> live' \<Longrightarrow> q \<in> live \<Longrightarrow> kv' q = kv q"
  shows "trav_kept nm kv live a nm' kv' live' a' p"
  unfolding trav_kept_def
proof (intro allI impI)
  fix op W assume obs: "observed map_spec a (Open op W)"
  let ?g = "observe map_spec a' (Open op W)" and ?k = "op_key op"
  have A: "ahead nm' kv' live' ?k ?g p" if ah: "ahead nm kv live ?k (Open op W) p"
  proof (cases "seen_absent (Open op W)")
    case True
    then show ?thesis using seen_absent_observe unfolding ahead_def by blast
  next
    case False
    then obtain q v where q: "reach nm p q" "q \<in> live" "kv q = Some (?k, v)"
      using ah unfolding ahead_def by blast
    show ?thesis
    proof (cases "q \<in> live'")
      case True
      then show ?thesis using q S2 kv unfolding ahead_def by metis
    next
      case False
      then have sub: "live' \<subseteq> live" using S3 q(2) by blast
      have "a' ?k = None"
      proof (rule ccontr)
        assume "a' ?k \<noteq> None"
        then obtain v' q' where q': "q' \<in> live'" "kv' q' = Some (?k, v')"
          using rep' unfolding represents_def by blast
        then have "kv q' = Some (?k, v')" "q' \<in> live" using sub S3k by (metis subsetD)+
        then have "q' = q" using rep q(2,3) unfolding represents_def by blast
        with q'(1) False show False by simp
      qed
      then show ?thesis using seen_absent_now unfolding ahead_def by blast
    qed
  qed
  have B: "q \<in> live' \<or> seen_present ?g v" if tr: "trav nm kv live ?k (Open op W) p"
      and r: "reach nm' p q" "kv' q = Some (?k, v)" for q v
  proof (cases "q \<in> live'")
    case False
    with S1 r have rq: "reach nm p q" by blast
    with r kv have kq: "kv q = Some (?k, v)" by metis
    from tr rq kq consider "q \<in> live" | "seen_present (Open op W) v" unfolding trav_def by blast
    then show ?thesis
    proof cases
      case 1
      then have "a ?k = Some v" using rep kq unfolding represents_def by blast
      then have "seen_present (Open op W) v" using seen_presentI obs by blast
      then show ?thesis by (blast intro: seen_present_observe)
    next
      case 2
      then show ?thesis by (blast intro: seen_present_observe)
    qed
  qed simp
  show "(ahead nm kv live ?k (Open op W) p \<longrightarrow> ahead nm' kv' live' ?k ?g p) \<and>
      (trav nm kv live ?k (Open op W) p \<longrightarrow> trav nm' kv' live' ?k ?g p)"
    using A B unfolding trav_def by blast
qed

section \<open>Sorted lists with sentinels\<close>

text \<open>
  The nodes \<open>ps\<close> from \<^verbatim>\<open>head\<close> to NULL, ending in the tail sentinel; \<open>live\<close> are those that bind a
  key. Along every next pointer of a published node, linked or not, the key grows.
\<close>

definition sorted_list :: "'k::linorder \<Rightarrow> 'k \<Rightarrow> ('k, 'v, 'z) ll_simple_scheme store \<Rightarrow> (tid \<Rightarrow> 'l ownership) \<Rightarrow>
    ptr \<Rightarrow> ptr list \<Rightarrow> ptr \<Rightarrow> ptr set \<Rightarrow> ('k \<rightharpoonup> 'v) \<Rightarrow> bool" where
  "sorted_list kmin kmax m w head ps tail live a \<longleftrightarrow>
     path (cells m) ll_next head ps NULL \<and> ps \<noteq> [] \<and> last ps = tail \<and>
     (\<exists>n. cells m head = Some n \<and> ll_key n = kmin) \<and> (\<exists>n. cells m tail = Some n \<and> ll_key n = kmax) \<and>
     (\<forall>p n. published m w p \<longrightarrow> cells m p = Some n \<longrightarrow>
        (if ll_next n = NULL then ll_key n = kmax
         else published m w (ll_next n) \<and> (\<exists>n'. cells m (ll_next n) = Some n' \<and> ll_key n < ll_key n'))) \<and>
     live \<subseteq> set ps \<and> head \<notin> live \<and> tail \<notin> live \<and> represents (kv_of (cells m)) live a \<and>
     partition_ok m (set ps) w"

lemma sl_path: "sorted_list kmin kmax m w head ps tail live a \<Longrightarrow> path (cells m) ll_next head ps NULL"
  by (simp add: sorted_list_def)

lemma sl_partition: "sorted_list kmin kmax m w head ps tail live a \<Longrightarrow> partition_ok m (set ps) w"
  by (simp add: sorted_list_def)

lemma sl_represents: "sorted_list kmin kmax m w head ps tail live a \<Longrightarrow> represents (kv_of (cells m)) live a"
  by (simp add: sorted_list_def)

lemma sl_live: "sorted_list kmin kmax m w head ps tail live a \<Longrightarrow> live \<subseteq> set ps \<and> head \<notin> live \<and> tail \<notin> live"
  by (simp add: sorted_list_def)

lemma sl_head_in: "sorted_list kmin kmax m w head ps tail live a \<Longrightarrow> head \<in> set ps"
  unfolding sorted_list_def by (cases ps) auto

lemma sl_head: "sorted_list kmin kmax m w head ps tail live a \<Longrightarrow> \<exists>n. cells m head = Some n \<and> ll_key n = kmin"
  by (simp add: sorted_list_def)

lemma sl_published:
  "sorted_list kmin kmax m w head ps tail live a \<Longrightarrow> p \<in> set ps \<Longrightarrow> published m w p"
  unfolding sorted_list_def using published_live by blast

lemma sl_next:
  assumes "sorted_list kmin kmax m w head ps tail live a" and "published m w p" and "cells m p = Some n"
    and "ll_key n < kmax"
  shows "ll_next n \<noteq> NULL" and "published m w (ll_next n)"
    and "\<exists>n'. cells m (ll_next n) = Some n' \<and> ll_key n < ll_key n'"
  using assms unfolding sorted_list_def by (metis order_less_irrefl)+

lemma sl_in_list:
  assumes "sorted_list kmin kmax m w head ps tail live a" and "p \<in> set ps" and "cells m p = Some n"
    and "ll_next n \<noteq> NULL"
  shows "\<exists>us vs. ps = us @ p # ll_next n # vs"
proof -
  from assms(2) obtain us ws where ps: "ps = us @ p # ws" by (auto simp: in_set_conv_decomp)
  with sl_path [OF assms(1)] assms(3) have "path (cells m) ll_next (ll_next n) ws NULL"
    by (auto simp: path_append)
  from path_nonempty [OF this assms(4)] ps show ?thesis by blast
qed

lemma sl_next_in:
  "sorted_list kmin kmax m w head ps tail live a \<Longrightarrow> p \<in> set ps \<Longrightarrow> cells m p = Some n \<Longrightarrow>
   ll_next n \<noteq> NULL \<Longrightarrow> ll_next n \<in> set ps"
  using sl_in_list by fastforce

text \<open>Everything reachable from a published node is published and has a larger key.\<close>

lemma sl_reach:
  assumes sl: "sorted_list kmin kmax m w head ps tail live a" and "published m w p" and "cells m p = Some n"
    and "reach (nm_of (cells m)) p q"
  shows "q = NULL \<or> published m w q \<and> (\<exists>n'. cells m q = Some n' \<and> (q = p \<or> ll_key n < ll_key n'))"
  using assms(4)
proof (induction rule: reach_induct)
  case base
  then show ?case using assms(2,3) by simp
next
  case (step x y)
  have "cells m NULL = None" using partition_NULL [OF sl_partition [OF sl]] .
  then have "x \<noteq> NULL" using step(2) by (auto simp: nm_of_def)
  with step obtain nx where x: "published m w x" "cells m x = Some nx" "x = p \<or> ll_key n < ll_key nx" by auto
  with step(2) have y: "y = ll_next nx" by simp
  show ?case
  proof (cases "y = NULL")
    case False
    then have "published m w y \<and> (\<exists>n'. cells m y = Some n' \<and> ll_key nx < ll_key n')"
      using sl x y unfolding sorted_list_def by metis
    then show ?thesis using x assms(3) by (auto intro: order_less_trans)
  qed simp
qed

lemma path_reach: "path h ll_next p ps q \<Longrightarrow> x \<in> set ps \<Longrightarrow> reach (nm_of h) p x"
proof (induction ps arbitrary: p)
  case (Cons y ys)
  then obtain n where n: "p = y" "h y = Some n" "path h ll_next (ll_next n) ys q" by auto
  show ?case
  proof (cases "x = y")
    case False
    with Cons n have "reach (nm_of h) (ll_next n) x" by simp
    moreover have "nm_of h p = Some (ll_next n)" using n by simp
    ultimately show ?thesis by (meson reach_step)
  qed (use n in simp)
qed simp

lemma reach_path:
  assumes "path h ll_next p ps NULL" and "reach (nm_of h) p x" and "h NULL = None"
  shows "x = NULL \<or> x \<in> set ps"
  using assms(2)
proof (induction rule: reach_induct)
  case base
  then show ?case using assms(1) by (cases ps) auto
next
  case (step x y)
  then have "x \<in> set ps" using assms(3) by (auto simp: nm_of_def)
  then obtain us vs where ps: "ps = us @ x # vs" by (auto simp: in_set_conv_decomp)
  with assms(1) step(2) have "path h ll_next y vs NULL" by (auto simp: path_append nm_of_def)
  then show ?case using ps by (cases vs) auto
qed

text \<open>Between two neighbours of the list there is no other key.\<close>

lemma sl_order:
  assumes sl: "sorted_list kmin kmax m w head ps tail live a" and ps: "ps = us @ p # c # vs"
    and n: "cells m p = Some n" and nc: "cells m c = Some nc" and q: "q \<in> set ps" and nq: "cells m q = Some nq"
  shows "ll_key nq \<le> ll_key n \<or> ll_key nc \<le> ll_key nq"
proof -
  have pth: "path (cells m) ll_next head ps NULL" by (rule sl_path [OF sl])
  from q ps consider "q \<in> set (us @ [p])" | "q \<in> set (c # vs)" by auto
  then show ?thesis
  proof cases
    case 1
    then obtain xs ys where "us @ [p] = xs @ q # ys" by (meson split_list)
    with ps have "ps = xs @ q # ys @ c # vs" by simp
    moreover have "p \<in> set (q # ys)" using \<open>us @ [p] = xs @ q # ys\<close> by (metis last_appendR last_in_set last_snoc list.distinct(1))
    ultimately have "path (cells m) ll_next q (q # ys @ c # vs) NULL" "p \<in> set (q # ys @ c # vs)"
      using pth by (auto simp: path_append)
    then have "reach (nm_of (cells m)) q p" by (rule path_reach)
    moreover have "p \<noteq> NULL" using path_cells [OF pth, of p] ps by simp
    ultimately show ?thesis
      using sl_reach [OF sl sl_published [OF sl q] nq, of p] n nq by auto
  next
    case 2
    have "path (cells m) ll_next c (c # vs) NULL" using pth ps by (auto simp: path_append)
    then have "reach (nm_of (cells m)) c q" using 2 by (rule path_reach)
    moreover have "q \<noteq> NULL" using path_cells [OF pth q] by simp
    moreover have "c \<in> set ps" using ps by simp
    ultimately show ?thesis
      using sl_reach [OF sl sl_published [OF sl] nc, of q] nq nc by auto
  qed
qed

lemma sl_no_key:
  assumes sl: "sorted_list kmin kmax m w head ps tail live a" and p: "p \<in> set ps" and n: "cells m p = Some n"
    and c: "cells m (ll_next n) = Some nc" and k: "ll_key n < k" "k < ll_key nc"
  shows "a k = None" and "\<And>q nq. q \<in> set ps \<Longrightarrow> cells m q = Some nq \<Longrightarrow> ll_key nq \<noteq> k"
proof -
  have "ll_next n \<noteq> NULL" using partition_NULL [OF sl_partition [OF sl]] c by auto
  from sl_in_list [OF sl p n this] obtain us vs where ps: "ps = us @ p # ll_next n # vs" by blast
  show no: "ll_key nq \<noteq> k" if "q \<in> set ps" "cells m q = Some nq" for q nq
    using sl_order [OF sl ps n c that] k by auto
  show "a k = None"
  proof (rule ccontr)
    assume "a k \<noteq> None"
    then obtain q v where "q \<in> live" "kv_of (cells m) q = Some (k, v)"
      using sl_represents [OF sl] unfolding represents_def by blast
    then show False using no sl_live [OF sl] by (auto simp: kv_of_def)
  qed
qed

section \<open>Changes of the list\<close>

text \<open>Steps that do not touch the linked nodes: a change of private nodes, of the owned sets, of
  fields other than key, value and next (locks and marks).\<close>

lemma sl_frame:
  fixes m m' :: "('k::linorder, 'v, 'z) ll_simple_scheme store"
  assumes sl: "sorted_list kmin kmax m w head ps tail live a"
    and cells: "\<And>p n. published m w p \<Longrightarrow> cells m p = Some n \<Longrightarrow>
       \<exists>n'. cells m' p = Some n' \<and> ll_key n' = ll_key n \<and> ll_val n' = ll_val n \<and> ll_next n' = ll_next n"
    and pub: "\<And>p. published m w p \<Longrightarrow> published m' w' p"
    and new: "\<And>p n. published m' w' p \<Longrightarrow> \<not> published m w p \<Longrightarrow> cells m' p = Some n \<Longrightarrow>
       published m w (ll_next n) \<and> (\<exists>n'. cells m (ll_next n) = Some n' \<and> ll_key n < ll_key n')"
    and part: "partition_ok m' (set ps) w'"
  shows "sorted_list kmin kmax m' w' head ps tail live a"
proof -
  have inps: "\<exists>n n'. cells m p = Some n \<and> cells m' p = Some n' \<and> ll_key n' = ll_key n \<and> ll_val n' = ll_val n \<and>
      ll_next n' = ll_next n" if "p \<in> set ps" for p
    using cells [OF sl_published [OF sl that]] published_cell [OF sl_published [OF sl that]] by blast
  have kv: "kv_of (cells m') p = kv_of (cells m) p" if "p \<in> live" for p
  proof -
    from that sl_live [OF sl] have "p \<in> set ps" by blast
    from inps [OF this] show ?thesis by (auto simp: kv_of_def)
  qed
  have p1: "path (cells m') ll_next head ps NULL"
  proof (rule path_cong [OF sl_path [OF sl]])
    fix x assume "x \<in> set ps"
    with inps [OF this] show "map_option ll_next (cells m' x) = map_option ll_next (cells m x)" by auto
  qed
  have p2: "represents (kv_of (cells m')) live a"
    using sl_represents [OF sl] kv unfolding represents_def by (metis (no_types, lifting))
  have ht: "head \<in> set ps" "tail \<in> set ps" using sl sl_head_in [OF sl] by (auto simp: sorted_list_def)
  have ends: "\<exists>n. cells m' head = Some n \<and> ll_key n = kmin" "\<exists>n. cells m' tail = Some n \<and> ll_key n = kmax"
    using inps [OF ht(1)] inps [OF ht(2)] sl unfolding sorted_list_def by auto
  have edges: "if ll_next n' = NULL then ll_key n' = kmax
      else published m' w' (ll_next n') \<and> (\<exists>n''. cells m' (ll_next n') = Some n'' \<and> ll_key n' < ll_key n'')"
    if p': "published m' w' p" "cells m' p = Some n'" for p n'
  proof -
    have N: "cells m NULL = None" using partition_NULL [OF sl_partition [OF sl]] .
    show ?thesis
    proof (cases "published m w p")
      case False
      with new [OF p'(1) False p'(2)] cells [of "ll_next n'"] pub N show ?thesis by fastforce
    next
      case pp: True
    then obtain n where n: "cells m p = Some n" using published_cell by blast
    with cells [OF pp n] p'(2) have eq: "ll_key n' = ll_key n" "ll_next n' = ll_next n" by auto
    from sl pp n have e: "if ll_next n = NULL then ll_key n = kmax
        else published m w (ll_next n) \<and> (\<exists>n''. cells m (ll_next n) = Some n'' \<and> ll_key n < ll_key n'')"
      unfolding sorted_list_def by blast
    then show ?thesis using cells [of "ll_next n"] by (fastforce simp: eq dest: pub)
    qed
  qed
  show ?thesis
    using sl p1 p2 ends edges part unfolding sorted_list_def by blast
qed

text \<open>A binding is given up without a change of the heap.\<close>

lemma sl_kill:
  assumes sl: "sorted_list kmin kmax m w head ps tail live a" and c: "c \<in> live" and n: "cells m c = Some n"
  shows "sorted_list kmin kmax m w head ps tail (live - {c}) (a(ll_key n := None))"
    and "a (ll_key n) = Some (ll_val n)"
proof -
  from sl_represents [OF sl] have rep: "\<And>k v. a k = Some v \<longleftrightarrow> (\<exists>q \<in> live. kv_of (cells m) q = Some (k, v))"
    and inj: "\<And>q q' k v v'. q \<in> live \<Longrightarrow> q' \<in> live \<Longrightarrow> kv_of (cells m) q = Some (k, v) \<Longrightarrow>
        kv_of (cells m) q' = Some (k, v') \<Longrightarrow> q = q'"
    unfolding represents_def by blast+
  have kc: "kv_of (cells m) c = Some (ll_key n, ll_val n)" using n by simp
  show "a (ll_key n) = Some (ll_val n)" using rep c kc by blast
  have "(a(ll_key n := None)) k = Some v \<longleftrightarrow> (\<exists>q \<in> live - {c}. kv_of (cells m) q = Some (k, v))" for k v
  proof (cases "k = ll_key n")
    case True
    then show ?thesis using inj [OF c _ kc] by fastforce
  next
    case False
    then show ?thesis using rep [of k v] kc by fastforce
  qed
  then have "represents (kv_of (cells m)) (live - {c}) (a(ll_key n := None))"
    using inj unfolding represents_def by (meson DiffD1)
  then show "sorted_list kmin kmax m w head ps tail (live - {c}) (a(ll_key n := None))"
    using sl unfolding sorted_list_def by blast
qed

text \<open>A dead node is unlinked.\<close>

lemma sl_unlink:
  assumes sl: "sorted_list kmin kmax m w head ps tail live a" and p: "p \<in> set ps" and n: "cells m p = Some n"
    and c: "ll_next n = c" "c \<notin> live" "c \<noteq> tail" and nc: "cells m c = Some nc"
    and n': "ll_key n' = ll_key n" "ll_val n' = ll_val n" "ll_next n' = ll_next nc"
    and pub: "\<And>q. published (put_cell p n' m) w' q \<longleftrightarrow> published m w q"
    and part: "\<And>L. partition_ok m L w \<Longrightarrow> c \<in> L \<Longrightarrow> partition_ok (put_cell p n' m) (L - {c}) w'"
  shows "\<exists>ps'. sorted_list kmin kmax (put_cell p n' m) w' head ps' tail live a \<and> set ps' = set ps - {c}"
proof -
  let ?m = "put_cell p n' m"
  have pth: "path (cells m) ll_next head ps NULL" by (rule sl_path [OF sl])
  have "cells m NULL = None" using partition_NULL [OF sl_partition [OF sl]] .
  then have cn: "c \<noteq> NULL" using nc by auto
  from sl_in_list [OF sl p n] c cn obtain us vs where ps: "ps = us @ p # c # vs" by blast
  have dist: "distinct ps" by (rule path_distinct [OF pth])
  have "last ps = tail" using sl by (simp add: sorted_list_def)
  then have vs: "vs \<noteq> []" using c(3) ps by auto
  let ?ps = "us @ p # vs"
  have "path (cells m) ll_next (ll_next nc) vs NULL" "path (cells m) ll_next head us p" "p \<noteq> NULL"
    using pth nc by (auto simp: ps path_append)
  then have p1: "path (cells ?m) ll_next head ?ps NULL"
    using dist n'(3) by (auto simp: ps path_append)
  have ps': "set ?ps = set ps - {c}" using dist by (auto simp: ps)
  have kv: "kv_of (cells ?m) = kv_of (cells m)"
    using n n'(1,2) by (auto simp: kv_of_upd fun_eq_iff)
  have hd: "head \<noteq> c" using pth dist ps by (cases us) auto
  have key: "\<exists>n1. cells ?m q = Some n1 \<and> ll_key n1 = ll_key n0" if "cells m q = Some n0" for q n0
    using that n n'(1) by auto
  have edges: "if ll_next n1 = NULL then ll_key n1 = kmax
      else published ?m w' (ll_next n1) \<and> (\<exists>n2. cells ?m (ll_next n1) = Some n2 \<and> ll_key n1 < ll_key n2)"
    if q: "published ?m w' q" "cells ?m q = Some n1" for q n1
  proof -
    from q(1) have qp: "published m w q" by (simp add: pub)
    have ed: "if ll_next n0 = NULL then ll_key n0 = kmax
        else published m w (ll_next n0) \<and> (\<exists>n2. cells m (ll_next n0) = Some n2 \<and> ll_key n0 < ll_key n2)"
      if "published m w r" "cells m r = Some n0" for r n0
      using sl that unfolding sorted_list_def by blast
    show ?thesis
    proof (cases "q = p")
      case True
      have n1: "n1 = n'" using q(2) True by simp
      have pp: "published m w p" using qp True by simp
      from ed [OF pp n] c cn nc have pc: "published m w c" "ll_key n < ll_key nc" by auto
      have "ll_next nc \<noteq> NULL" using \<open>path (cells m) ll_next (ll_next nc) vs NULL\<close> vs by (cases vs) auto
      with ed [OF pc(1) nc] obtain n2 where n2: "published m w (ll_next nc)" "cells m (ll_next nc) = Some n2"
        "ll_key nc < ll_key n2" by auto
      with key [OF n2(2)] pc(2) \<open>ll_next nc \<noteq> NULL\<close> show ?thesis
        by (auto simp: n1 n' pub intro: order_less_trans)
    next
      case False
      then have "cells m q = Some n1" using q(2) by simp
      with ed [OF qp this] key show ?thesis by (fastforce simp: pub)
    qed
  qed
  have ends: "\<exists>n. cells ?m head = Some n \<and> ll_key n = kmin" "\<exists>n. cells ?m tail = Some n \<and> ll_key n = kmax"
    using sl key unfolding sorted_list_def by metis+
  have part': "partition_ok ?m (set ?ps) w'"
    unfolding ps' using part [OF sl_partition [OF sl]] ps by simp
  have "last ?ps = tail" using \<open>last ps = tail\<close> vs by (simp add: ps)
  moreover have "live \<subseteq> set ?ps" using sl_live [OF sl] c(2) unfolding ps' by blast
  ultimately have "sorted_list kmin kmax ?m w' head ?ps tail live a"
    using sl p1 ends edges part' unfolding sorted_list_def kv by blast
  then show ?thesis using ps' by blast
qed

text \<open>A private node is linked in.\<close>

lemma sl_link:
  assumes sl: "sorted_list kmin kmax m w head ps tail live a" and p: "p \<in> set ps" and n: "cells m p = Some n"
    and x: "cells m x = Some nx" "x \<in> private_nodes (w t)" "ll_next nx = ll_next n"
    and c: "cells m (ll_next n) = Some nc" and k: "ll_key n < ll_key nx" "ll_key nx < ll_key nc"
    and n': "ll_key n' = ll_key n" "ll_val n' = ll_val n" "ll_next n' = x"
    and pub: "\<And>q. published (put_cell p n' m) w' q \<longleftrightarrow> published m w q \<or> q = x"
    and part: "\<And>L. partition_ok m L w \<Longrightarrow> partition_ok (put_cell p n' m) (insert x L) w'"
  shows "\<exists>ps'. sorted_list kmin kmax (put_cell p n' m) w' head ps' tail (insert x live) (a(ll_key nx \<mapsto> ll_val nx)) \<and>
      set ps' = insert x (set ps)"
proof -
  let ?m = "put_cell p n' m"
  let ?c = "ll_next n"
  have pth: "path (cells m) ll_next head ps NULL" by (rule sl_path [OF sl])
  have N: "cells m NULL = None" using partition_NULL [OF sl_partition [OF sl]] .
  have cn: "?c \<noteq> NULL" "x \<noteq> NULL" "p \<noteq> NULL" using c N x n by auto
  from sl_in_list [OF sl p n cn(1)] obtain us vs where ps: "ps = us @ p # ?c # vs" by blast
  have dist: "distinct ps" by (rule path_distinct [OF pth])
  have xo: "x \<in> owned (w t)" using x(2) by blast
  have xps: "x \<notin> set ps" using partition_owned [OF sl_partition [OF sl] xo] by blast
  then have xp: "x \<noteq> p" using p by blast
  have xc: "x \<noteq> ?c" using xps ps by auto
  let ?ps = "us @ p # x # ?c # vs"
  have parts: "path (cells m) ll_next ?c (?c # vs) NULL" "path (cells m) ll_next head us p"
    using pth n by (auto simp: ps path_append)
  have "p \<notin> set us" "p \<notin> set (?c # vs)" using dist ps by auto
  then have p1: "path (cells ?m) ll_next head ?ps NULL"
    using parts x n'(3) cn xp by (auto simp: path_append simp del: fun_upd_apply) auto
  have ps': "set ?ps = insert x (set ps)" by (auto simp: ps)
  have kv: "kv_of (cells ?m) = kv_of (cells m)"
    using n n'(1,2) by (auto simp: kv_of_upd fun_eq_iff)
  have key: "\<exists>n1. cells ?m q = Some n1 \<and> ll_key n1 = ll_key n0" if "cells m q = Some n0" for q n0
    using that n n'(1) by auto
  have ed: "if ll_next n0 = NULL then ll_key n0 = kmax
      else published m w (ll_next n0) \<and> (\<exists>n2. cells m (ll_next n0) = Some n2 \<and> ll_key n0 < ll_key n2)"
    if "published m w r" "cells m r = Some n0" for r n0
    using sl that unfolding sorted_list_def by blast
  have pp: "published m w p" by (rule sl_published [OF sl p])
  have cp: "published m w ?c" using ed [OF pp n] cn by simp
  have edges: "if ll_next n1 = NULL then ll_key n1 = kmax
      else published ?m w' (ll_next n1) \<and> (\<exists>n2. cells ?m (ll_next n1) = Some n2 \<and> ll_key n1 < ll_key n2)"
    if q: "published ?m w' q" "cells ?m q = Some n1" for q n1
  proof -
    consider "q = p" | "q = x" | "q \<noteq> p" "q \<noteq> x" "published m w q" using q(1) pub by blast
    then show ?thesis
    proof cases
      case 1
      then have "n1 = n'" using q(2) by simp
      then show ?thesis using n' cn x(1) k(1) xp by (simp add: pub)
    next
      case 2
      then have "n1 = nx" using q(2) x(1) xp by simp
      then show ?thesis using x(3) cn cp key [OF c] k(2) by (auto simp: pub)
    next
      case 3
      then have "cells m q = Some n1" using q(2) by simp
      with ed [OF 3(3) this] key show ?thesis by (fastforce simp: pub)
    qed
  qed
  have no: "ll_key nq \<noteq> ll_key nx" if "q \<in> set ps" "cells m q = Some nq" for q nq
    using sl_no_key(2) [OF sl p n c k that] .
  have "represents (kv_of (cells m)) (insert x live) (a(ll_key nx \<mapsto> ll_val nx))"
  proof -
    from sl_represents [OF sl] have rep: "\<And>k v. a k = Some v \<longleftrightarrow> (\<exists>q \<in> live. kv_of (cells m) q = Some (k, v))"
      and inj: "\<And>q q' k v v'. q \<in> live \<Longrightarrow> q' \<in> live \<Longrightarrow> kv_of (cells m) q = Some (k, v) \<Longrightarrow>
          kv_of (cells m) q' = Some (k, v') \<Longrightarrow> q = q'"
      unfolding represents_def by blast+
    have kx: "kv_of (cells m) x = Some (ll_key nx, ll_val nx)" using x(1) by simp
    have ko: "kv_of (cells m) q \<noteq> Some (ll_key nx, v)" if "q \<in> live" for q v
      using no [of q] that sl_live [OF sl] by (auto simp: kv_of_def)
    have "(a(ll_key nx \<mapsto> ll_val nx)) k = Some v \<longleftrightarrow> (\<exists>q \<in> insert x live. kv_of (cells m) q = Some (k, v))" for k v
      using rep [of k v] kx ko by (cases "k = ll_key nx") auto
    moreover have "q = q'" if "q \<in> insert x live" "q' \<in> insert x live" "kv_of (cells m) q = Some (k, v)"
        "kv_of (cells m) q' = Some (k, v')" for q q' k v v'
      using that inj kx ko by (metis insertE option.inject prod.inject)
    ultimately show ?thesis unfolding represents_def by blast
  qed
  moreover have "\<exists>n. cells ?m head = Some n \<and> ll_key n = kmin" "\<exists>n. cells ?m tail = Some n \<and> ll_key n = kmax"
    using sl key unfolding sorted_list_def by metis+
  moreover have "partition_ok ?m (set ?ps) w'"
    unfolding ps' using part [OF sl_partition [OF sl]] .
  moreover have "last ?ps = tail" using sl by (simp add: ps sorted_list_def)
  moreover have "insert x live \<subseteq> set ?ps" using sl_live [OF sl] unfolding ps' by blast
  moreover have "head \<notin> insert x live" "tail \<notin> insert x live"
    using sl_live [OF sl] xps sl_head_in [OF sl] sl by (auto simp: sorted_list_def)
  moreover have "?ps \<noteq> []" by simp
  ultimately have "sorted_list kmin kmax ?m w' head ?ps tail (insert x live) (a(ll_key nx \<mapsto> ll_val nx))"
    using p1 edges unfolding sorted_list_def kv by blast
  then show ?thesis using ps' by blast
qed

section \<open>Traversals and changes of the list\<close>

lemma sl_reach_cell:
  assumes "sorted_list kmin kmax m w head ps tail live a" and "published m w p" and "reach (nm_of (cells m)) p q"
    and "q \<noteq> NULL"
  shows "published m w q"
  using sl_reach [OF assms(1,2) _ assms(3)] published_cell [OF assms(2)] assms(4) by blast

lemma sl_reach_kv:
  assumes sl: "sorted_list kmin kmax m w head ps tail live a" and "published m w p"
    and "reach (nm_of (cells m)) p q" and N: "cells m' NULL = None"
    and kv: "\<And>q. published m w q \<Longrightarrow> kv_of (cells m') q = kv_of (cells m) q"
  shows "kv_of (cells m') q = kv_of (cells m) q"
proof (cases "q = NULL")
  case True
  then show ?thesis using N partition_NULL [OF sl_partition [OF sl]] by (simp add: kv_of_def)
next
  case False
  then show ?thesis using kv sl_reach_cell [OF assms(1-3)] by blast
qed

text \<open>Nothing changes, or only a binding is given up.\<close>

lemma trav_keep:
  fixes m m' :: "('k::linorder, 'v::zero, 'z) ll_simple_scheme store"
  assumes sl: "sorted_list kmin kmax m w head ps tail live a"
    and sl': "sorted_list kmin kmax m' w' head' ps' tail' live' a'"
    and p: "published m w p"
    and kv: "\<And>q. published m w q \<Longrightarrow> kv_of (cells m') q = kv_of (cells m) q"
    and nm: "\<And>q. published m w q \<Longrightarrow> nm_of (cells m') q = nm_of (cells m) q"
    and live: "live' \<subseteq> live"
  shows "trav_kept (nm_of (cells m)) (kv_of (cells m)) live a (nm_of (cells m')) (kv_of (cells m')) live' a' p"
proof (rule trav_keptI [OF sl_represents [OF sl] sl_represents [OF sl']])
  have N: "cells m' NULL = None" "cells m NULL = None"
    using partition_NULL [OF sl_partition [OF sl']] partition_NULL [OF sl_partition [OF sl]] by auto
  have nm0: "nm_of (cells m') q = nm_of (cells m) q" if "reach (nm_of (cells m)) p q" for q
    using nm sl_reach_cell [OF sl p that] N by (cases "q = NULL") (auto simp: nm_of_def)
  show "kv_of (cells m') q = kv_of (cells m) q" if "reach (nm_of (cells m)) p q" for q
    using sl_reach_kv [OF sl p that N(1) kv] .
  show "reach (nm_of (cells m)) p q \<or> q \<in> live'" if "reach (nm_of (cells m')) p q" for q
  proof -
    from that have "reach (nm_of (cells m)) p q"
    proof (induction rule: reach_induct)
      case (step x y)
      then show ?case using nm0 [of x] reach_snoc by metis
    qed simp
    then show ?thesis by simp
  qed
  show "reach (nm_of (cells m')) p q" if "reach (nm_of (cells m)) p q" for q
    using that
  proof (induction rule: reach_induct)
    case (step x y)
    then show ?case using nm0 [of x] reach_snoc by metis
  qed simp
  show "live \<subseteq> live' \<or> live' \<subseteq> live" using live by simp
  show "kv_of (cells m') q = kv_of (cells m) q" if "q \<in> live'" "q \<in> live" for q
    using kv sl_published [OF sl] sl_live [OF sl] that by blast
qed

text \<open>A dead node is bypassed (and perhaps its binding given up at the same time).\<close>

lemma trav_bypass:
  assumes sl: "sorted_list kmin kmax m w head ps tail live a"
    and sl': "sorted_list kmin kmax (put_cell x n' m) w' head ps' tail' live' a'"
    and p: "published m w p"
    and n: "cells m x = Some n" "ll_next n = c" and nc: "cells m c = Some nc" and xc: "x \<noteq> c"
    and n': "ll_key n' = ll_key n" "ll_val n' = ll_val n" "ll_next n' = ll_next nc"
    and live: "live' \<subseteq> live" "c \<notin> live'"
  shows "trav_kept (nm_of (cells m)) (kv_of (cells m)) live a
    (nm_of (cells (put_cell x n' m))) (kv_of (cells (put_cell x n' m))) live' a' p"
proof (rule trav_keptI [OF sl_represents [OF sl] sl_represents [OF sl']])
  let ?nm = "nm_of (cells m)" and ?nm' = "nm_of (cells (put_cell x n' m))"
  have nm: "?nm x = Some c" "?nm c = Some (ll_next nc)" using n nc by auto
  have nm': "?nm' = ?nm(x := Some (ll_next nc))" by (simp add: nm_of_upd n')
  have kv: "kv_of (cells (put_cell x n' m)) = kv_of (cells m)" using n n' by (auto simp: kv_of_upd fun_eq_iff)
  then show "kv_of (cells (put_cell x n' m)) q = kv_of (cells m) q" for q by simp
  show "kv_of (cells (put_cell x n' m)) q = kv_of (cells m) q" for q using kv by simp
  show "reach ?nm p q \<or> q \<in> live'" if "reach ?nm' p q" for q
    using reach_bypass(1) [OF nm nm' xc that] by simp
  show "reach ?nm' p q" if "reach ?nm p q" "q \<in> live" "q \<in> live'" for q
    using reach_bypass(2) [OF nm nm' xc that(1)] that(3) live by blast
  show "live \<subseteq> live' \<or> live' \<subseteq> live" using live by simp
qed

text \<open>A node is linked in.\<close>

lemma trav_link:
  assumes sl: "sorted_list kmin kmax m w head ps tail live a"
    and sl': "sorted_list kmin kmax (put_cell y n' m) w' head ps' tail (insert x live) a'"
    and p: "published m w p"
    and n: "cells m y = Some n" and nx: "cells m x = Some nx" "ll_next nx = ll_next n" and yx: "y \<noteq> x"
    and x: "\<not> published m w x"
    and n': "ll_key n' = ll_key n" "ll_val n' = ll_val n" "ll_next n' = x"
  shows "trav_kept (nm_of (cells m)) (kv_of (cells m)) live a
    (nm_of (cells (put_cell y n' m))) (kv_of (cells (put_cell y n' m))) (insert x live) a' p"
proof (rule trav_keptI [OF sl_represents [OF sl] sl_represents [OF sl']])
  let ?nm = "nm_of (cells m)" and ?nm' = "nm_of (cells (put_cell y n' m))"
  have nm: "?nm y = Some (ll_next n)" using n by simp
  have nm': "?nm' = ?nm(y := Some x, x := Some (ll_next n))"
    using nx yx by (auto simp: nm_of_upd n' fun_eq_iff)
  have px: "p \<noteq> x" using p x by blast
  have xN: "x \<noteq> NULL" using nx partition_NULL [OF sl_partition [OF sl]] by auto
  have no: "?nm z \<noteq> Some x" if "reach ?nm p z" for z
    using sl_reach_cell [OF sl p reach_snoc [OF that]] x xN by blast
  have kv: "kv_of (cells (put_cell y n' m)) = kv_of (cells m)" using n n' by (auto simp: kv_of_upd fun_eq_iff)
  then show "kv_of (cells (put_cell y n' m)) q = kv_of (cells m) q" for q by simp
  show "kv_of (cells (put_cell y n' m)) q = kv_of (cells m) q" for q using kv by simp
  show "reach ?nm p q \<or> q \<in> insert x live" if "reach ?nm' p q" for q
    using reach_link(2) [OF nm nm' yx px no that] by (auto split: if_splits)
  show "reach ?nm' p q" if "reach ?nm p q" for q
    using reach_link(1) [OF nm nm' yx px no that] .
  show "live \<subseteq> insert x live \<or> insert x live \<subseteq> live" by blast
qed

section \<open>Lists without logical deletion\<close>

text \<open>The nodes that bind keys: those of the list other than the sentinels.\<close>

definition ll_live :: "('k, 'v, 'z) ll_simple_scheme store \<Rightarrow> ptr \<Rightarrow> ptr set" where
  "ll_live m head = {p \<in> nodes_from (cells m) ll_next head. p \<noteq> head \<and> nm_of (cells m) p \<noteq> Some NULL}"

lemma sl_nodes_from: "sorted_list kmin kmax m w head ps tail live a \<Longrightarrow> nodes_from (cells m) ll_next head = set ps"
  by (rule nodes_from_path) (rule sl_path)

lemma ll_live_eq:
  assumes "sorted_list kmin kmax m w head ps tail live a"
  shows "ll_live m head = set ps - {head, tail}"
proof -
  note pth = sl_path [OF assms]
  have tail: "ps \<noteq> []" "last ps = tail" using assms by (auto simp: sorted_list_def)
  then obtain xs where xs: "ps = xs @ [tail]" by (metis append_butlast_last_id)
  with pth path_snoc have nt: "nm_of (cells m) tail = Some NULL" by (fastforce simp: nm_of_def)
  have "p = tail" if "p \<in> set ps" "nm_of (cells m) p = Some NULL" for p
    using path_last_NULL [OF pth that(1)] that(2) tail(2) by (auto simp: nm_of_def)
  then show ?thesis using nt unfolding ll_live_def sl_nodes_from [OF assms] by auto
qed

text \<open>The start of a traversal at \<^verbatim>\<open>head\<close>.\<close>

lemma sl_trav_head:
  assumes sl: "sorted_list kmin kmax m w head ps tail (set ps - {head, tail}) a"
    and obs: "observed map_spec a (Open op W)" and k: "kmin < op_key op" "op_key op < kmax"
  shows "trav (nm_of (cells m)) (kv_of (cells m)) (set ps - {head, tail}) (op_key op) (Open op W) head"
proof (rule trav_start [OF sl_represents [OF sl] obs refl])
  show "reach (nm_of (cells m)) head q" if "q \<in> set ps - {head, tail}" for q
    using path_reach [OF sl_path [OF sl]] that by blast
  show "q \<in> set ps - {head, tail}" if r: "reach (nm_of (cells m)) head q" "kv_of (cells m) q = Some (op_key op, v)" for q v
  proof -
    have N: "cells m NULL = None" using partition_NULL [OF sl_partition [OF sl]] .
    then have "q \<noteq> NULL" using r(2) by (auto simp: kv_of_def)
    then have "q \<in> set ps" using reach_path [OF sl_path [OF sl] r(1) N] by simp
    moreover have "q \<noteq> head" "q \<noteq> tail" using sl r(2) k by (auto simp: sorted_list_def)
    ultimately show ?thesis by simp
  qed
qed

text \<open>The end of a traversal, at a node whose key is not smaller.\<close>

lemma sl_ahead_absent:
  assumes sl: "sorted_list kmin kmax m w head ps tail live a"
    and tr: "ahead (nm_of (cells m)) (kv_of (cells m)) live k g p"
    and p: "published m w p" "cells m p = Some n" and k: "k < ll_key n"
  shows "seen_absent g"
proof (rule ahead_absent [OF tr])
  fix q v assume r: "reach (nm_of (cells m)) p q"
  have "cells m NULL = None" using partition_NULL [OF sl_partition [OF sl]] .
  then show "kv_of (cells m) q \<noteq> Some (k, v)"
    using sl_reach [OF sl p r] p k by (auto simp: kv_of_def)
qed

lemma sl_trav_present:
  assumes sl: "sorted_list kmin kmax m w head ps tail live a"
    and tr: "trav (nm_of (cells m)) (kv_of (cells m)) live (op_key op) (Open op W) p"
    and p: "cells m p = Some n" and k: "ll_key n = op_key op" and obs: "observed map_spec a (Open op W)"
  shows "seen_present (Open op W) (ll_val n)"
  using trav_present [OF tr _ sl_represents [OF sl] obs refl] p k by simp

section \<open>Length\<close>

text \<open>The loop of \<^verbatim>\<open>length()\<close>: \<^verbatim>\<open>while (tmp->next != NULL)\<close>, from \<^verbatim>\<open>head->next\<close>.\<close>

partial_function (option) ll_length_loop :: "(ptr \<Rightarrow> ('k, 'v, 'z) ll_simple_scheme option) \<Rightarrow> ptr \<Rightarrow> int \<Rightarrow> int option" where
  "ll_length_loop h tmp count =
     (case h tmp of
        None \<Rightarrow> None
      | Some n \<Rightarrow> if ll_next n \<noteq> NULL then ll_length_loop h (ll_next n) (count + 1) else Some count)"

definition ll_length :: "(ptr \<Rightarrow> ('k, 'v, 'z) ll_simple_scheme option) \<Rightarrow> ptr \<Rightarrow> int option" where
  "ll_length h head = (case h head of None \<Rightarrow> None | Some n \<Rightarrow> ll_length_loop h (ll_next n) 0)"

lemma ll_length_loop_path:
  "path h ll_next p (ps @ [q]) NULL \<Longrightarrow> ll_length_loop h p c = Some (c + int (length ps))"
proof (induction ps arbitrary: p c)
  case Nil
  then show ?case by (auto simp: ll_length_loop.simps [of h q])
next
  case (Cons x xs)
  from Cons.prems obtain n where n: "p = x" "h p = Some n" "path h ll_next (ll_next n) (xs @ [q]) NULL" by auto
  then have "ll_next n \<noteq> NULL" by (cases xs) auto
  with Cons.IH [OF n(3), of "c + 1"] n show ?case by (simp add: ll_length_loop.simps [of h x])
qed

lemma represents_card:
  assumes "represents kv live a" and "\<And>p. p \<in> live \<Longrightarrow> kv p \<noteq> None"
  shows "card live = card (dom a)"
proof -
  let ?f = "\<lambda>p. fst (the (kv p))"
  have "inj_on ?f live"
  proof (rule inj_onI)
    fix p q assume pq: "p \<in> live" "q \<in> live" "?f p = ?f q"
    then obtain k v k' v' where kv: "kv p = Some (k, v)" "kv q = Some (k', v')"
      using assms(2) by (metis not_None_eq prod.exhaust)
    with pq have "k' = k" by simp
    with kv pq assms(1) show "p = q" unfolding represents_def by blast
  qed
  moreover have "?f ` live = dom a"
  proof (intro set_eqI iffI)
    fix k assume "k \<in> ?f ` live"
    then obtain p x where "p \<in> live" "kv p = Some x" "k = fst x" using assms(2) by fastforce
    then have "a k = Some (snd x)" using assms(1) unfolding represents_def by (metis prod.collapse)
    then show "k \<in> dom a" by blast
  next
    fix k assume "k \<in> dom a"
    then obtain v p where "p \<in> live" "kv p = Some (k, v)" using assms(1) unfolding represents_def by blast
    then show "k \<in> ?f ` live" by force
  qed
  ultimately show ?thesis using card_image by metis
qed

lemma represents_finite:
  assumes "represents kv live a" and "finite live"
  shows "finite (dom a)"
proof (rule finite_subset)
  show "dom a \<subseteq> (\<lambda>p. fst (the (kv p))) ` live"
  proof
    fix k assume "k \<in> dom a"
    then obtain v where "a k = Some v" by blast
    then obtain q where q: "q \<in> live" "kv q = Some (k, v)" using assms(1) unfolding represents_def by blast
    then have "k = fst (the (kv q))" by simp
    with q(1) show "k \<in> (\<lambda>p. fst (the (kv p))) ` live" by (rule rev_image_eqI)
  qed
  show "finite ((\<lambda>p. fst (the (kv p))) ` live)" using assms(2) by (rule finite_imageI)
qed

text \<open>In a state of the list, \<^verbatim>\<open>length()\<close> is the number of keys.\<close>

lemma sl_length:
  assumes sl: "sorted_list kmin kmax m w head ps tail (set ps - {head, tail}) a" and k: "kmin < kmax"
  shows "ll_length (cells m) head = Some (int (card (dom a)))"
proof -
  note pth = sl_path [OF sl]
  have tail: "ps \<noteq> []" "last ps = tail" using sl by (auto simp: sorted_list_def)
  have ht: "head \<noteq> tail" using sl k by (auto simp: sorted_list_def)
  obtain n where n: "cells m head = Some n" using sl_head [OF sl] by blast
  from pth tail(1) n obtain qs where qs: "ps = head # qs" "path (cells m) ll_next (ll_next n) qs NULL"
    by (cases ps) auto
  then have "qs \<noteq> []" using tail ht by auto
  with tail qs obtain xs where xs: "qs = xs @ [tail]" by (metis append_butlast_last_id last_ConsR)
  have len: "ll_length (cells m) head = Some (int (length xs))"
    using ll_length_loop_path [OF qs(2) [unfolded xs], of 0] n by (simp add: ll_length_def)
  have d: "distinct ps" by (rule path_distinct [OF pth])
  then have "set ps - {head, tail} = set xs" "distinct xs" by (auto simp: qs xs)
  then have "card (set ps - {head, tail}) = length xs" by (simp add: distinct_card)
  moreover have "card (set ps - {head, tail}) = card (dom a)"
  proof (rule represents_card [OF sl_represents [OF sl]])
    fix p assume "p \<in> set ps - {head, tail}"
    then show "kv_of (cells m) p \<noteq> None" using path_cells [OF pth, of p] by (auto simp: kv_of_def)
  qed
  ultimately show ?thesis using len by simp
qed

section \<open>Destruction\<close>

text \<open>\<^verbatim>\<open>free\<close> of the C library: \<open>heap\<close> holds the addresses that \<^verbatim>\<open>malloc\<close> or \<^verbatim>\<open>aligned_alloc\<close> returned. An address
  from another allocator (\<^verbatim>\<open>ssmem_alloc\<close>) must not be passed to it, nor one that holds no object any more; \<open>None\<close>
  is this undefined behaviour. \<^verbatim>\<open>ll_simple_delete\<close> is \<^verbatim>\<open>free\<close> in the build with \<^verbatim>\<open>GC == 1\<close> (\<open>gc\<close>) and does
  nothing in the other one. The loop of the destructors, \<^verbatim>\<open>while (NULL != curr)\<close>, deletes the nodes one by
  one, reading the next pointer first.\<close>

definition c_free :: "ptr set \<Rightarrow> 'n store \<Rightarrow> ptr \<Rightarrow> 'n store option" where
  "c_free heap m p =
     (if p \<notin> heap \<or> cells m p = None \<or> p \<in> released m then None else Some (m\<lparr>cells := (cells m)(p := None)\<rparr>))"

definition ll_simple_delete :: "bool \<Rightarrow> ptr set \<Rightarrow> ('k, 'v, 'z) ll_simple_scheme store \<Rightarrow> ptr \<Rightarrow> ('k, 'v, 'z) ll_simple_scheme store option" where
  "ll_simple_delete gc heap m p = (if gc then c_free heap m p else Some m)"

partial_function (option) ll_destroy_loop :: "(('k, 'v, 'z) ll_simple_scheme store \<Rightarrow> ptr \<Rightarrow> ('k, 'v, 'z) ll_simple_scheme store option) \<Rightarrow>
    ('k, 'v, 'z) ll_simple_scheme store \<Rightarrow> ptr \<Rightarrow> ('k, 'v, 'z) ll_simple_scheme store option" where
  "ll_destroy_loop delete m cur =
     (if cur = NULL then Some m
      else case cells m cur of
          None \<Rightarrow> None
        | Some n \<Rightarrow> Option.bind (delete m cur) (\<lambda>m'. ll_destroy_loop delete m' (ll_next n)))"

text \<open>\<open>cells_freed m ps\<close>: the memory after the nodes \<open>ps\<close> have been freed.\<close>

definition cells_freed :: "'n store \<Rightarrow> ptr set \<Rightarrow> 'n store" where
  "cells_freed m P = m\<lparr>cells := (cells m) |` (- P)\<rparr>"

text \<open>The destructor of a build without \<^verbatim>\<open>GC\<close> frees nothing; that of the other frees every node when all of them
  come from the C library, and is undefined when one does not.\<close>

definition freed_or_undefined :: "bool \<Rightarrow> ptr set \<Rightarrow> 'n store \<Rightarrow> ptr set \<Rightarrow> 'n store option" where
  "freed_or_undefined gc heap m P =
     (if \<not> gc then Some m else if P \<subseteq> heap then Some (cells_freed m P) else None)"

lemma ll_destroy_loop_free:
  assumes "path (cells m) ll_next p ps NULL" and "set ps \<inter> released m = {}"
  shows "ll_destroy_loop (c_free heap) m p = (if set ps \<subseteq> heap then Some (cells_freed m (set ps)) else None)"
  using assms
proof (induction ps arbitrary: m p)
  case Nil
  then show ?case by (simp add: ll_destroy_loop.simps [of _ m NULL] cells_freed_def restrict_map_def)
next
  case (Cons x xs)
  then obtain n where n: "p = x" "x \<noteq> NULL" "cells m x = Some n" "path (cells m) ll_next (ll_next n) xs NULL" by auto
  have x: "x \<notin> set xs" using path_distinct [OF Cons.prems(1)] by simp
  let ?m = "m\<lparr>cells := (cells m)(x := None)\<rparr>"
  have pm: "path (cells ?m) ll_next (ll_next n) xs NULL" and rm: "set xs \<inter> released ?m = {}"
    using n(4) x Cons.prems(2) by simp_all
  have "cells ?m |` (- set xs) = cells m |` (- set (x # xs))" by (auto simp: restrict_map_def fun_eq_iff)
  then have "cells_freed ?m (set xs) = cells_freed m (set (x # xs))" by (simp add: cells_freed_def)
  with Cons.IH [OF pm rm] have "ll_destroy_loop (c_free heap) ?m (ll_next n) =
      (if set xs \<subseteq> heap then Some (cells_freed m (set (x # xs))) else None)"
    by (simp only:)
  then show ?case
    using n Cons.prems(2) by (subst ll_destroy_loop.simps) (simp add: c_free_def)
qed

lemma ll_destroy_loop_none:
  assumes "path (cells m) ll_next p ps NULL"
  shows "ll_destroy_loop (\<lambda>m p. Some m) m p = Some m"
  using assms
proof (induction ps arbitrary: p)
  case Nil
  then show ?case by (simp add: ll_destroy_loop.simps [of _ m NULL])
next
  case (Cons x xs)
  then obtain n where n: "p = x" "x \<noteq> NULL" "cells m x = Some n" "path (cells m) ll_next (ll_next n) xs NULL" by auto
  from Cons.IH [OF n(4)] n show ?case by (subst ll_destroy_loop.simps) simp
qed

lemma ll_destroy_loop_path:
  assumes "path (cells m) ll_next p ps NULL" and "set ps \<inter> released m = {}"
  shows "ll_destroy_loop (ll_simple_delete gc heap) m p = freed_or_undefined gc heap m (set ps)"
proof (cases gc)
  case True
  then have "ll_simple_delete gc heap = (c_free heap :: ('a, 'b, 'c) ll_simple_scheme store \<Rightarrow> _)"
    by (simp add: ll_simple_delete_def fun_eq_iff)
  then show ?thesis using True ll_destroy_loop_free [OF assms] by (simp add: freed_or_undefined_def)
next
  case False
  then have "ll_simple_delete gc heap = (\<lambda>m p. Some m :: ('a, 'b, 'c) ll_simple_scheme store option)"
    by (simp add: ll_simple_delete_def fun_eq_iff)
  then show ?thesis using False ll_destroy_loop_none [OF assms(1)] by (simp add: freed_or_undefined_def)
qed

lemma sl_destroy:
  assumes "sorted_list kmin kmax m w head ps tail live a"
  shows "ll_destroy_loop (ll_simple_delete gc heap) m head = freed_or_undefined gc heap m (set ps)"
proof (rule ll_destroy_loop_path [OF sl_path [OF assms]])
  show "set ps \<inter> released m = {}" using partition_live [OF sl_partition [OF assms]] by blast
qed

end
