(* ===== verification/List_Steps.thy ===== *)
theory List_Steps
  imports List_Heap
begin

text \<open>
  The steps the list algorithms make, as changes of a sorted list that other threads traverse: a write
  of a lock or a mark, an allocation, a link, a logical removal, an unlink, a release. For each, the
  list stays sorted and represents the new map, and \<open>list_effect\<close> says what it leaves intact for the
  other threads: published nodes stay published with their key and value, traversals under way stay
  valid, and the private nodes of the others are not touched.
\<close>

section \<open>Lists and the effect of a step\<close>

abbreviation lnodes :: "('k, 'v, 'z) ll_simple_scheme store \<Rightarrow> ptr \<Rightarrow> ptr set" where
  "lnodes m head \<equiv> nodes_from (cells m) ll_next head"

definition slist :: "'k::linorder \<Rightarrow> 'k \<Rightarrow> ('k, 'v, 'z) ll_simple_scheme store \<Rightarrow> (tid \<Rightarrow> 'l ownership) \<Rightarrow>
    ptr \<Rightarrow> ptr set \<Rightarrow> ('k \<rightharpoonup> 'v) \<Rightarrow> bool" where
  "slist kmin kmax m w head live a \<longleftrightarrow> (\<exists>ps tail. sorted_list kmin kmax m w head ps tail live a)"

definition list_effect :: "tid \<Rightarrow> ('k::linorder, 'v::zero, 'z) ll_simple_scheme store \<Rightarrow> (tid \<Rightarrow> 'l ownership) \<Rightarrow>
    ptr set \<Rightarrow> ('k \<rightharpoonup> 'v) \<Rightarrow> ('k, 'v, 'z) ll_simple_scheme store \<Rightarrow> (tid \<Rightarrow> 'l ownership) \<Rightarrow>
    ptr set \<Rightarrow> ('k \<rightharpoonup> 'v) \<Rightarrow> bool" where
  "list_effect t m w live a m' w' live' a' \<longleftrightarrow>
     (\<forall>p. published m w p \<longrightarrow> published m' w' p \<and> kv_of (cells m') p = kv_of (cells m) p \<and>
        trav_kept (nm_of (cells m)) (kv_of (cells m)) live a (nm_of (cells m')) (kv_of (cells m')) live' a' p) \<and>
     (\<forall>u p. u \<noteq> t \<longrightarrow> p \<in> private_nodes (w u) \<longrightarrow> cells m' p = cells m p)"

text \<open>What a thread knows of the nodes it visits: it stands at a node on a valid traversal (\<open>list_at\<close>,
  \<open>list_ahead\<close>), a node has a key with a property (\<open>list_node\<close>), a private node has given contents.\<close>

definition list_at :: "('k, 'v::zero, 'z) ll_simple_scheme store \<Rightarrow> (tid \<Rightarrow> 'l ownership) \<Rightarrow> ptr set \<Rightarrow>
    ('k, 'v) map_op \<Rightarrow> (('k, 'v) map_op, 'v map_ret) ghost \<Rightarrow> ptr \<Rightarrow> bool" where
  "list_at m w live op g p \<longleftrightarrow> published m w p \<and> trav (nm_of (cells m)) (kv_of (cells m)) live (op_key op) g p"

definition list_ahead :: "('k, 'v::zero, 'z) ll_simple_scheme store \<Rightarrow> (tid \<Rightarrow> 'l ownership) \<Rightarrow> ptr set \<Rightarrow>
    ('k, 'v) map_op \<Rightarrow> (('k, 'v) map_op, 'v map_ret) ghost \<Rightarrow> ptr \<Rightarrow> bool" where
  "list_ahead m w live op g p \<longleftrightarrow> published m w p \<and> ahead (nm_of (cells m)) (kv_of (cells m)) live (op_key op) g p"

definition list_node :: "('k, 'v, 'z) ll_simple_scheme store \<Rightarrow> (tid \<Rightarrow> 'l ownership) \<Rightarrow> ptr \<Rightarrow> ('k \<Rightarrow> bool) \<Rightarrow> bool" where
  "list_node m w p P \<longleftrightarrow> published m w p \<and> (\<exists>n. cells m p = Some n \<and> P (ll_key n))"

lemma list_node_published: "list_node m w p P \<Longrightarrow> published m w p"
  by (simp add: list_node_def)

text \<open>A retired node still holds the value that \<open>remove\<close> has to return.\<close>

definition list_result :: "('k, 'v, 'z) ll_simple_scheme store \<Rightarrow> (tid \<Rightarrow> 'l ownership) \<Rightarrow> ptr \<Rightarrow>
    (('k, 'v) map_op, 'v map_ret) ghost \<Rightarrow> bool" where
  "list_result m w c g \<longleftrightarrow> published m w c \<and> (\<exists>n. cells m c = Some n \<and> g = Closed (Ret_Val (ll_val n)))"

text \<open>An operation under way, with a key between the sentinels.\<close>

definition list_op :: "'k::linorder \<Rightarrow> 'k \<Rightarrow> ('k, 'v) map_op \<Rightarrow> (('k, 'v) map_op, 'v map_ret) ghost \<Rightarrow> bool" where
  "list_op kmin kmax op g \<longleftrightarrow> (\<exists>W. g = Open op W) \<and> kmin < op_key op \<and> op_key op < kmax"

lemma list_op_stable: "list_op kmin kmax op g \<Longrightarrow> list_op kmin kmax op (observe map_spec a g)"
  by (auto simp: list_op_def)

lemma list_opE:
  assumes "list_op kmin kmax op g"
  obtains W where "g = Open op W" and "kmin < op_key op" and "op_key op < kmax"
  using assms unfolding list_op_def by blast

lemma effect_published:
  "list_effect t m w live a m' w' live' a' \<Longrightarrow> published m w p \<Longrightarrow> published m' w' p"
  by (simp add: list_effect_def)

lemma effect_kv:
  "list_effect t m w live a m' w' live' a' \<Longrightarrow> published m w p \<Longrightarrow> kv_of (cells m') p = kv_of (cells m) p"
  by (simp add: list_effect_def)

lemma effect_cell:
  assumes "list_effect t m w live a m' w' live' a'" and "published m w p" and "cells m p = Some n"
  shows "\<exists>n'. cells m' p = Some n' \<and> ll_key n' = ll_key n \<and> ll_val n' = ll_val n"
  using effect_kv [OF assms(1,2)] assms(3) by (cases "cells m' p") (auto simp: kv_of_def)

lemma effect_private:
  "list_effect t m w live a m' w' live' a' \<Longrightarrow> u \<noteq> t \<Longrightarrow> p \<in> private_nodes (w u) \<Longrightarrow> cells m' p = cells m p"
  by (simp add: list_effect_def)

lemma effect_node:
  assumes "list_effect t m w live a m' w' live' a'" and "list_node m w p P"
  shows "list_node m' w' p P"
proof -
  from assms(2) obtain n where n: "published m w p" "cells m p = Some n" "P (ll_key n)"
    by (auto simp: list_node_def)
  from effect_cell [OF assms(1) n(1,2)] effect_published [OF assms(1) n(1)] n(3) show ?thesis
    by (auto simp: list_node_def)
qed

lemma effect_at:
  assumes "list_effect t m w live a m' w' live' a'" and "observed map_spec a g" and "list_op kmin kmax op g"
    and "list_at m w live op g p"
  shows "list_at m' w' live' op (observe map_spec a' g) p"
proof -
  from assms(3) obtain W where "g = Open op W" by (rule list_opE)
  with assms(1,2,4) show ?thesis unfolding list_effect_def list_at_def trav_kept_def by blast
qed

lemma effect_ahead:
  assumes "list_effect t m w live a m' w' live' a'" and "observed map_spec a g" and "list_op kmin kmax op g"
    and "list_ahead m w live op g p"
  shows "list_ahead m' w' live' op (observe map_spec a' g) p"
proof -
  from assms(3) obtain W where "g = Open op W" by (rule list_opE)
  with assms(1,2,4) show ?thesis unfolding list_effect_def list_ahead_def trav_kept_def by blast
qed

lemma effect_result:
  assumes "list_effect t m w live a m' w' live' a'" and "list_result m w c g"
  shows "list_result m' w' c (observe map_spec a' g)"
proof -
  from assms(2) obtain n where n: "published m w c" "cells m c = Some n" "g = Closed (Ret_Val (ll_val n))"
    by (auto simp: list_result_def)
  from effect_cell [OF assms(1) n(1,2)] effect_published [OF assms(1) n(1)] n(3) show ?thesis
    by (auto simp: list_result_def)
qed

section \<open>Facts about the state of a list\<close>

lemma slist_partition: "slist kmin kmax m w head live a \<Longrightarrow> partition_ok m (lnodes m head) w"
  unfolding slist_def by (metis sl_nodes_from sl_partition)

lemma slist_represents: "slist kmin kmax m w head live a \<Longrightarrow> represents (kv_of (cells m)) live a"
  unfolding slist_def using sl_represents by blast

lemma slist_live: "slist kmin kmax m w head live a \<Longrightarrow> live \<subseteq> lnodes m head"
  unfolding slist_def using sl_live sl_nodes_from by blast

lemma slist_head: "slist kmin kmax m w head live a \<Longrightarrow> head \<in> lnodes m head"
  unfolding slist_def using sl_head_in sl_nodes_from by blast

lemma slist_published: "slist kmin kmax m w head live a \<Longrightarrow> p \<in> lnodes m head \<Longrightarrow> published m w p"
  unfolding slist_def using sl_published sl_nodes_from by blast

lemma slist_NULL: "slist kmin kmax m w head live a \<Longrightarrow> cells m NULL = None"
  using partition_NULL [OF slist_partition] by blast

lemma slist_head_node: "slist kmin kmax m w head live a \<Longrightarrow> list_node m w head (\<lambda>x. x = kmin)"
  unfolding list_node_def using slist_published [OF _ slist_head] slist_def sl_head by metis

lemma slist_next:
  assumes "slist kmin kmax m w head live a" and "published m w p" and "cells m p = Some n" and "ll_key n < kmax"
  shows "list_node m w (ll_next n) (\<lambda>x. ll_key n < x)" and "ll_next n \<noteq> NULL"
proof -
  from assms(1) obtain ps tail where sl: "sorted_list kmin kmax m w head ps tail live a" by (auto simp: slist_def)
  from sl_next [OF sl assms(2-4)] show "list_node m w (ll_next n) (\<lambda>x. ll_key n < x)" "ll_next n \<noteq> NULL"
    by (auto simp: list_node_def)
qed

lemma slist_next_in:
  assumes "slist kmin kmax m w head live a" and "p \<in> lnodes m head" and "cells m p = Some n" and "ll_key n < kmax"
  shows "ll_next n \<in> lnodes m head"
proof -
  from assms(1) obtain ps tail where sl: "sorted_list kmin kmax m w head ps tail live a" by (auto simp: slist_def)
  have "p \<in> set ps" using assms(2) sl_nodes_from [OF sl] by simp
  from sl_next_in [OF sl this assms(3)] slist_next(2) [OF assms(1) slist_published [OF assms(1,2)] assms(3,4)]
  show ?thesis using sl_nodes_from [OF sl] by simp
qed

lemma slist_key_inj:
  assumes "slist kmin kmax m w head live a" and "p \<in> live" and "q \<in> live" and "cells m p = Some n"
    and "cells m q = Some n'" and "ll_key n = ll_key n'"
  shows "p = q"
  using slist_represents [OF assms(1)] assms(2-) unfolding represents_def by (metis kv_of_Some)

lemma slist_ahead_head:
  assumes "slist kmin kmax m w head live a" and "observed map_spec a (Open op W)"
  shows "list_ahead m w live op (Open op W) head"
proof -
  from assms(1) obtain ps tail where sl: "sorted_list kmin kmax m w head ps tail live a" by (auto simp: slist_def)
  show ?thesis
    unfolding list_ahead_def
    using ahead_start [OF sl_represents [OF sl] assms(2) refl] path_reach [OF sl_path [OF sl]] sl_live [OF sl]
      sl_published [OF sl sl_head_in [OF sl]] by blast
qed

lemma slist_at_head:
  assumes "slist kmin kmax m w head (ll_live m head) a" and "list_op kmin kmax op g" and "observed map_spec a g"
  shows "list_at m w (ll_live m head) op g head"
proof -
  from assms(1) obtain ps tail where sl: "sorted_list kmin kmax m w head ps tail (ll_live m head) a"
    by (auto simp: slist_def)
  from assms(2) obtain W where "g = Open op W" "kmin < op_key op" "op_key op < kmax" by (rule list_opE)
  then show ?thesis
    using sl_trav_head [OF sl [unfolded ll_live_eq [OF sl]]] assms(3) sl_published [OF sl sl_head_in [OF sl]]
    unfolding list_at_def ll_live_eq [OF sl] by blast
qed

lemma slist_at_next:
  assumes "slist kmin kmax m w head live a" and "list_at m w live op g p" and "cells m p = Some n"
    and "ll_key n < op_key op" and "op_key op < kmax"
  shows "list_at m w live op g (ll_next n)"
proof -
  have "ll_key n < kmax" using assms(4,5) by simp
  moreover have "kv_of (cells m) p \<noteq> Some (op_key op, v)" for v using assms(3,4) by auto
  ultimately show ?thesis
    using slist_next [OF assms(1) _ assms(3)] trav_next [of "nm_of (cells m)" "kv_of (cells m)" live "op_key op" g p "ll_next n"]
      assms(2,3)
    unfolding list_at_def list_node_def by auto
qed

lemma slist_ahead_next:
  assumes "slist kmin kmax m w head live a" and "list_ahead m w live op g p" and "cells m p = Some n"
    and "ll_key n < op_key op" and "op_key op < kmax"
  shows "list_ahead m w live op g (ll_next n)"
proof -
  have "ll_key n < kmax" using assms(4,5) by simp
  moreover have "kv_of (cells m) p \<noteq> Some (op_key op, v)" for v using assms(3,4) by auto
  ultimately show ?thesis
    using slist_next [OF assms(1) _ assms(3)] ahead_next [of "nm_of (cells m)" "kv_of (cells m)" live "op_key op" g p "ll_next n"]
      assms(2,3)
    unfolding list_ahead_def list_node_def by auto
qed

lemma list_at_ahead: "list_at m w live op g p \<Longrightarrow> list_ahead m w live op g p"
  by (simp add: list_at_def list_ahead_def trav_ahead)

lemma slist_absent:
  assumes "slist kmin kmax m w head live a" and "list_ahead m w live op g p" and "cells m p = Some n" and "op_key op < ll_key n"
  shows "seen_absent g"
  using sl_ahead_absent assms unfolding slist_def list_ahead_def by blast

text \<open>A node with the key that is not live means that the key was absent during the operation.\<close>

lemma slist_dead_absent:
  assumes sl: "slist kmin kmax m w head live a" and at: "list_ahead m w live op g p" and n: "cells m p = Some n"
    and k: "ll_key n = op_key op" and dead: "p \<notin> live"
  shows "seen_absent g"
proof (rule ccontr)
  assume "\<not> seen_absent g"
  then obtain q v where q: "reach (nm_of (cells m)) p q" "q \<in> live" "kv_of (cells m) q = Some (op_key op, v)"
    using at by (auto simp: list_ahead_def ahead_def)
  from sl obtain ps tail where sl': "sorted_list kmin kmax m w head ps tail live a" by (auto simp: slist_def)
  have "published m w p" using at by (simp add: list_ahead_def)
  from sl_reach [OF sl' this n q(1)] slist_NULL [OF sl] q(2,3) k dead n show False by (auto simp: kv_of_def)
qed

lemma slist_present:
  assumes "slist kmin kmax m w head live a" and "list_at m w live op (Open op W) p" and "cells m p = Some n"
    and "ll_key n = op_key op" and "observed map_spec a (Open op W)"
  shows "seen_present (Open op W) (ll_val n)"
  using sl_trav_present assms unfolding slist_def list_at_def by blast

lemma slist_present_now:
  assumes "slist kmin kmax m w head live a" and "p \<in> live" and "cells m p = Some n"
  shows "a (ll_key n) = Some (ll_val n)"
  using slist_represents [OF assms(1)] assms(2,3) unfolding represents_def by (metis kv_of_Some)

lemma slist_live_present:
  assumes "slist kmin kmax m w head live a" and "p \<in> live" and "cells m p = Some n" and "ll_key n = op_key op"
    and "observed map_spec a (Open op W)"
  shows "seen_present (Open op W) (ll_val n)"
  using seen_presentI [OF assms(5)] slist_present_now [OF assms(1-3)] assms(4) by simp

lemma slist_absent_now:
  assumes "slist kmin kmax m w head live a" and "p \<in> lnodes m head" and "cells m p = Some n"
    and "cells m (ll_next n) = Some n'" and "ll_key n < k" "k < ll_key n'"
  shows "a k = None"
proof -
  from assms(1) obtain ps tail where sl: "sorted_list kmin kmax m w head ps tail live a" by (auto simp: slist_def)
  show ?thesis using sl_no_key(1) [OF sl _ assms(3-6)] assms(2) sl_nodes_from [OF sl] by simp
qed

lemma slist_plain_live:
  assumes "slist kmin kmax m w head (ll_live m head) a" and "p \<in> lnodes m head" and "cells m p = Some n"
    and "kmin < ll_key n" and "ll_key n < kmax"
  shows "p \<in> ll_live m head"
proof -
  from assms(1) obtain ps tail where sl: "sorted_list kmin kmax m w head ps tail (ll_live m head) a"
    by (auto simp: slist_def)
  have "p \<noteq> head" "p \<noteq> tail" using sl assms(3-5) unfolding sorted_list_def by auto
  then show ?thesis using assms(2) ll_live_eq [OF sl] sl_nodes_from [OF sl] by simp
qed

section \<open>The steps\<close>

text \<open>Steps that leave the keys, values and pointers of the published nodes alone.\<close>

lemma slist_aside:
  fixes m m' :: "('k::linorder, 'v::zero, 'z) ll_simple_scheme store"
  assumes sl: "slist kmin kmax m w head live a"
    and cells: "\<And>p n. published m w p \<Longrightarrow> cells m p = Some n \<Longrightarrow>
       \<exists>n'. cells m' p = Some n' \<and> ll_key n' = ll_key n \<and> ll_val n' = ll_val n \<and> ll_next n' = ll_next n"
    and pub: "\<And>p. published m w p \<Longrightarrow> published m' w' p"
    and new: "\<And>p n. published m' w' p \<Longrightarrow> \<not> published m w p \<Longrightarrow> cells m' p = Some n \<Longrightarrow>
       list_node m w (ll_next n) (\<lambda>x. ll_key n < x)"
    and part: "\<And>L. partition_ok m L w \<Longrightarrow> partition_ok m' L w'"
    and mine: "\<And>u p. u \<noteq> t \<Longrightarrow> p \<in> private_nodes (w u) \<Longrightarrow> cells m' p = cells m p"
  shows "slist kmin kmax m' w' head live a" and "list_effect t m w live a m' w' live a"
    and "lnodes m' head = lnodes m head" and "ll_live m' head = ll_live m head"
    and "\<And>p. published m w p \<Longrightarrow> nm_of (cells m') p = nm_of (cells m) p"
proof -
  from sl obtain ps tail where sl: "sorted_list kmin kmax m w head ps tail live a" by (auto simp: slist_def)
  from sl_frame [OF sl cells pub _ part [OF sl_partition [OF sl]]] new
  have sl': "sorted_list kmin kmax m' w' head ps tail live a" unfolding list_node_def by blast
  then show "slist kmin kmax m' w' head live a" by (auto simp: slist_def)
  have kv: "kv_of (cells m') p = kv_of (cells m) p" and nm: "nm_of (cells m') p = nm_of (cells m) p"
    if "published m w p" for p
    using cells [OF that] published_cell [OF that] by (auto simp: kv_of_def nm_of_def)
  then show "\<And>p. published m w p \<Longrightarrow> nm_of (cells m') p = nm_of (cells m) p" by blast
  show "list_effect t m w live a m' w' live a"
    unfolding list_effect_def using pub kv mine trav_keep [OF sl sl' _ kv nm subset_refl] by blast
  show "lnodes m' head = lnodes m head" using sl_nodes_from [OF sl] sl_nodes_from [OF sl'] by simp
  show "ll_live m' head = ll_live m head" using ll_live_eq [OF sl] ll_live_eq [OF sl'] by simp
qed

text \<open>A write of the lock or mark of a node (or no write at all), with a change of what the thread holds.\<close>

lemma list_write:
  fixes m :: "('k::linorder, 'v::zero, 'z) ll_simple_scheme store"
  assumes sl: "slist kmin kmax m w head live a" and n: "cells m p = Some n"
    and n': "ll_key n' = ll_key n" "ll_val n' = ll_val n" "ll_next n' = ll_next n"
    and p: "published m w p \<or> p \<in> private_nodes (w t)"
    and x: "private_nodes x = private_nodes (w t)" "owned x \<subseteq> owned (w t)"
  shows "slist kmin kmax (put_cell p n' m) (w(t := x)) head live a"
    and "list_effect t m w live a (put_cell p n' m) (w(t := x)) live a"
    and "lnodes (put_cell p n' m) head = lnodes m head" and "ll_live (put_cell p n' m) head = ll_live m head"
    and "nm_of (cells (put_cell p n' m)) = nm_of (cells m)" and "kv_of (cells (put_cell p n' m)) = kv_of (cells m)"
proof -
  have pub: "published (put_cell p n' m) (w(t := x)) q \<longleftrightarrow> published m w q" for q
    using x(1) n unfolding published_def by auto
  have part: "partition_ok (put_cell p n' m) L (w(t := x))" if "partition_ok m L w" for L
    using partition_write [OF partition_keep [OF that x(2)]] n by simp
  have mine: "cells (put_cell p n' m) q = cells m q" if "u \<noteq> t" "q \<in> private_nodes (w u)" for u q
  proof -
    have "q \<noteq> p"
    proof
      assume "q = p"
      with that p have "p \<in> owned (w u)" "published m w p \<or> p \<in> owned (w t)" by auto
      with that \<open>q = p\<close> partition_owned [OF slist_partition [OF sl], of p t u] show False
        unfolding published_def by blast
    qed
    then show ?thesis by simp
  qed
  show "slist kmin kmax (put_cell p n' m) (w(t := x)) head live a"
    "list_effect t m w live a (put_cell p n' m) (w(t := x)) live a"
    "lnodes (put_cell p n' m) head = lnodes m head" "ll_live (put_cell p n' m) head = ll_live m head"
    by (rule slist_aside [OF sl, where m' = "put_cell p n' m" and w' = "w(t := x)" and t = t];
        use n n' pub part mine in auto)+
  show "nm_of (cells (put_cell p n' m)) = nm_of (cells m)" "kv_of (cells (put_cell p n' m)) = kv_of (cells m)"
    using n n' by (auto simp: nm_of_upd kv_of_upd fun_eq_iff)
qed

lemma list_own:
  fixes m :: "('k::linorder, 'v::zero, 'z) ll_simple_scheme store"
  assumes sl: "slist kmin kmax m w head live a"
    and x: "private_nodes x = private_nodes (w t)" "owned x \<subseteq> owned (w t)"
  shows "slist kmin kmax m (w(t := x)) head live a" and "list_effect t m w live a m (w(t := x)) live a"
proof -
  have pub: "published m (w(t := x)) q \<longleftrightarrow> published m w q" for q
    using x(1) unfolding published_def by auto
  show "slist kmin kmax m (w(t := x)) head live a" "list_effect t m w live a m (w(t := x)) live a"
    by (rule slist_aside [OF sl, where m' = m and w' = "w(t := x)" and t = t];
        use pub partition_keep [where w = w and t = t, OF _ x(2)] in auto)+
qed

lemma list_alloc:
  fixes m :: "('k::linorder, 'v::zero, 'z) ll_simple_scheme store"
  assumes sl: "slist kmin kmax m w head live a" and p: "fresh (cells m) p"
    and x: "private_nodes x = insert p (private_nodes (w t))" "owned x \<subseteq> insert p (owned (w t))"
  shows "slist kmin kmax (put_cell p n m) (w(t := x)) head live a"
    and "list_effect t m w live a (put_cell p n m) (w(t := x)) live a"
    and "lnodes (put_cell p n m) head = lnodes m head" and "ll_live (put_cell p n m) head = ll_live m head"
    and "\<And>q. published m w q \<Longrightarrow> nm_of (cells (put_cell p n m)) q = nm_of (cells m) q"
proof -
  have np: "cells m p = None" "p \<notin> private_nodes (w u)" for u
    using p partition_fresh [OF slist_partition [OF sl] p, of u] by (auto simp: fresh_def)
  have pub: "published (put_cell p n m) (w(t := x)) q \<longleftrightarrow> published m w q" for q
    using x(1) np unfolding published_def by auto
  show "slist kmin kmax (put_cell p n m) (w(t := x)) head live a"
    "list_effect t m w live a (put_cell p n m) (w(t := x)) live a"
    "lnodes (put_cell p n m) head = lnodes m head" "ll_live (put_cell p n m) head = ll_live m head"
    "\<And>q. published m w q \<Longrightarrow> nm_of (cells (put_cell p n m)) q = nm_of (cells m) q"
    by (rule slist_aside [OF sl, where m' = "put_cell p n m" and w' = "w(t := x)" and t = t];
        use np pub partition_allocate [where w = w and t = t, OF _ p x(2)] in auto)+
qed

text \<open>A private node is given back, or given up. Stale readers never see it; from then on it counts as
  published, so its pointer has to respect the order.\<close>

lemma list_discard:
  fixes m :: "('k::linorder, 'v::zero, 'z) ll_simple_scheme store"
  assumes sl: "slist kmin kmax m w head live a" and p: "p \<in> private_nodes (w t)" and n: "cells m p = Some n"
    and ord: "list_node m w (ll_next n) (\<lambda>x. ll_key n < x)"
    and x: "private_nodes x = private_nodes (w t) - {p}" "owned x \<subseteq> owned (w t) - {p}"
    and m': "m' = m\<lparr>released := insert p (released m)\<rparr>"
  shows "slist kmin kmax m' (w(t := x)) head live a" and "list_effect t m w live a m' (w(t := x)) live a"
    and "cells m' = cells m"
proof -
  have po: "p \<in> owned (w t)" using p by blast
  have pub: "published m' (w(t := x)) q \<longleftrightarrow> published m w q \<or> q = p" for q
  proof -
    have "p \<notin> private_nodes (w u)" if "u \<noteq> t" for u
      using partition_owned [OF slist_partition [OF sl] po, of u] that by blast
    then show ?thesis using p n x(1) unfolding published_def m' by auto
  qed
  show "slist kmin kmax m' (w(t := x)) head live a" "list_effect t m w live a m' (w(t := x)) live a"
    by (rule slist_aside [OF sl, where m' = m' and w' = "w(t := x)" and t = t];
        use n pub ord partition_release [where w = w and t = t, OF _ po x(2)] in \<open>auto simp: m'\<close>)+
  show "cells m' = cells m" by (simp add: m')
qed

lemma list_release:
  fixes m :: "('k::linorder, 'v::zero, 'z) ll_simple_scheme store"
  assumes sl: "slist kmin kmax m w head live a" and p: "p \<in> owned (w t)"
    and x: "private_nodes x = private_nodes (w t)" "owned x \<subseteq> owned (w t) - {p}"
    and m': "m' = m\<lparr>released := insert p (released m)\<rparr>"
  shows "slist kmin kmax m' (w(t := x)) head live a" and "list_effect t m w live a m' (w(t := x)) live a"
    and "cells m' = cells m"
proof -
  have pub: "published m' (w(t := x)) q \<longleftrightarrow> published m w q" for q
    using x(1) unfolding published_def m' by auto
  show "slist kmin kmax m' (w(t := x)) head live a" "list_effect t m w live a m' (w(t := x)) live a"
    by (rule slist_aside [OF sl, where m' = m' and w' = "w(t := x)" and t = t];
        use pub partition_release [where w = w and t = t, OF _ p x(2)] in \<open>auto simp: m'\<close>)+
  show "cells m' = cells m" by (simp add: m')
qed

text \<open>A node is removed logically: its mark is set.\<close>

lemma list_mark:
  fixes m :: "('k::linorder, 'v::zero, 'z) ll_simple_scheme store"
  assumes sl: "slist kmin kmax m w head live a" and c: "c \<in> live" and n: "cells m c = Some n"
    and n': "ll_key n' = ll_key n" "ll_val n' = ll_val n" "ll_next n' = ll_next n"
    and x: "private_nodes x = private_nodes (w t)" "owned x \<subseteq> owned (w t)"
  shows "slist kmin kmax (put_cell c n' m) (w(t := x)) head (live - {c}) (a(ll_key n := None))"
    and "list_effect t m w live a (put_cell c n' m) (w(t := x)) (live - {c}) (a(ll_key n := None))"
    and "lnodes (put_cell c n' m) head = lnodes m head"
    and "nm_of (cells (put_cell c n' m)) = nm_of (cells m)" and "kv_of (cells (put_cell c n' m)) = kv_of (cells m)"
    and "a (ll_key n) = Some (ll_val n)"
proof -
  let ?m = "put_cell c n' m"
  have pc: "published m w c" using slist_published [OF sl] slist_live [OF sl] c by blast
  note wr = list_write [OF sl n n' _ x]
  from wr(1) pc obtain ps tail where "sorted_list kmin kmax ?m (w(t := x)) head ps tail live a"
    by (auto simp: slist_def)
  from sl_kill(1) [OF this c] n'
  have sl': "sorted_list kmin kmax ?m (w(t := x)) head ps tail (live - {c}) (a(ll_key n := None))" by simp
  then show "slist kmin kmax ?m (w(t := x)) head (live - {c}) (a(ll_key n := None))" by (auto simp: slist_def)
  show nodes: "lnodes ?m head = lnodes m head" and nm: "nm_of (cells ?m) = nm_of (cells m)"
    and kv: "kv_of (cells ?m) = kv_of (cells m)"
    using wr(3,5,6) pc by auto
  show "a (ll_key n) = Some (ll_val n)" by (rule slist_present_now [OF sl c n])
  from sl obtain ps0 tail0 where sl0: "sorted_list kmin kmax m w head ps0 tail0 live a" by (auto simp: slist_def)
  show "list_effect t m w live a ?m (w(t := x)) (live - {c}) (a(ll_key n := None))"
    using wr(2) pc trav_keep [OF sl0 sl' _ _ _ Diff_subset] unfolding list_effect_def nm kv by simp
qed

text \<open>A node is unlinked: \<open>live'\<close> is what remains live, \<open>live\<close> itself when the node was marked before.\<close>

lemma list_bypass:
  fixes m :: "('k::linorder, 'v::zero, 'z) ll_simple_scheme store"
  assumes sl: "slist kmin kmax m w head live0 a0" and sl1: "slist kmin kmax m w head live a"
    and le: "live \<subseteq> live0" and p: "p \<in> lnodes m head"
    and n: "cells m p = Some n" "ll_next n = c" and c: "c \<notin> live" and nc: "cells m c = Some nc" "ll_key nc < kmax"
    and n': "ll_key n' = ll_key n" "ll_val n' = ll_val n" "ll_next n' = ll_next nc"
    and x: "private_nodes x = private_nodes (w t)" "owned x \<subseteq> insert c (owned (w t))"
  shows "slist kmin kmax (put_cell p n' m) (w(t := x)) head live a"
    and "list_effect t m w live0 a0 (put_cell p n' m) (w(t := x)) live a"
    and "lnodes (put_cell p n' m) head = lnodes m head - {c}"
    and "ll_live (put_cell p n' m) head = ll_live m head - {c}"
    and "nm_of (cells (put_cell p n' m)) = (nm_of (cells m))(p := Some (ll_next nc))"
proof -
  let ?m = "put_cell p n' m"
  from sl obtain ps0 tail0 where sl0: "sorted_list kmin kmax m w head ps0 tail0 live0 a0" by (auto simp: slist_def)
  from sl1 obtain ps tail where sl1: "sorted_list kmin kmax m w head ps tail live a" by (auto simp: slist_def)
  have pps: "p \<in> set ps" using p sl_nodes_from [OF sl1] by simp
  have "ll_key n < kmax" if "c \<noteq> NULL"
    using sl1 sl_published [OF sl1 pps] n nc that unfolding sorted_list_def by (metis order_less_trans option.inject)
  moreover have cN: "c \<noteq> NULL" using nc partition_NULL [OF sl_partition [OF sl1]] by auto
  ultimately have key: "ll_key n < kmax" "ll_key n < ll_key nc"
    using sl_next(3) [OF sl1 sl_published [OF sl1 pps] n(1)] nc n(2) by auto
  then have pc: "p \<noteq> c" using n nc by auto
  have ct: "c \<noteq> tail" using sl1 nc unfolding sorted_list_def by auto
  have pub: "published ?m (w(t := x)) q \<longleftrightarrow> published m w q" for q
    using x(1) n unfolding published_def by auto
  have part: "partition_ok ?m (L - {c}) (w(t := x))" if "partition_ok m L w" "c \<in> L" for L
    using partition_write [OF partition_retire [OF that x(2)]] n by simp
  from sl_unlink [OF sl1 pps n c ct nc(1) n' pub part] obtain ps' where
    sl': "sorted_list kmin kmax ?m (w(t := x)) head ps' tail live a" and ps': "set ps' = set ps - {c}" by blast
  then show "slist kmin kmax ?m (w(t := x)) head live a" by (auto simp: slist_def)
  show nodes: "lnodes ?m head = lnodes m head - {c}" using sl_nodes_from [OF sl1] sl_nodes_from [OF sl'] ps' by simp
  show "ll_live ?m head = ll_live m head - {c}" using ll_live_eq [OF sl1] ll_live_eq [OF sl'] ps' by auto
  show "nm_of (cells ?m) = (nm_of (cells m))(p := Some (ll_next nc))" by (simp add: nm_of_upd n')
  have "c \<notin> live" by (rule c)
  have kv: "kv_of (cells ?m) = kv_of (cells m)" using n n' by (auto simp: kv_of_upd fun_eq_iff)
  have "p \<notin> private_nodes (w u)" for u
    using partition_live [OF sl_partition [OF sl1] pps, of u] by blast
  then show "list_effect t m w live0 a0 ?m (w(t := x)) live a"
    unfolding list_effect_def using pub kv
      trav_bypass [OF sl0 sl' _ n nc(1) pc n' le c] by auto
qed

lemma list_unlink:
  fixes m :: "('k::linorder, 'v::zero, 'z) ll_simple_scheme store"
  assumes "slist kmin kmax m w head live a" and "p \<in> lnodes m head"
    and "cells m p = Some n" "ll_next n = c" and "c \<notin> live" and "cells m c = Some nc" "ll_key nc < kmax"
    and "ll_key n' = ll_key n" "ll_val n' = ll_val n" "ll_next n' = ll_next nc"
    and "private_nodes x = private_nodes (w t)" "owned x \<subseteq> insert c (owned (w t))"
  shows "slist kmin kmax (put_cell p n' m) (w(t := x)) head live a"
    and "list_effect t m w live a (put_cell p n' m) (w(t := x)) live a"
    and "lnodes (put_cell p n' m) head = lnodes m head - {c}"
    and "nm_of (cells (put_cell p n' m)) = (nm_of (cells m))(p := Some (ll_next nc))"
  by (rule list_bypass [OF assms(1) assms(1) subset_refl assms(2-)])+

text \<open>A node is removed and unlinked at once.\<close>

lemma list_remove:
  fixes m :: "('k::linorder, 'v::zero, 'z) ll_simple_scheme store"
  assumes sl: "slist kmin kmax m w head (ll_live m head) a" and p: "p \<in> lnodes m head"
    and n: "cells m p = Some n" "ll_next n = c" and nc: "cells m c = Some nc" "kmin < ll_key nc" "ll_key nc < kmax"
    and n': "ll_key n' = ll_key n" "ll_val n' = ll_val n" "ll_next n' = ll_next nc"
    and x: "private_nodes x = private_nodes (w t)" "owned x \<subseteq> insert c (owned (w t))"
    and m': "m' = put_cell p n' m" and a': "a' = a(ll_key nc := None)"
  shows "slist kmin kmax m' (w(t := x)) head (ll_live m' head) a'"
    and "list_effect t m w (ll_live m head) a m' (w(t := x)) (ll_live m' head) a'"
    and "lnodes m' head = lnodes m head - {c}"
    and "nm_of (cells m') = (nm_of (cells m))(p := Some (ll_next nc))"
    and "a (ll_key nc) = Some (ll_val nc)"
proof -
  have "c \<noteq> NULL" using nc slist_NULL [OF sl] by auto
  then have "ll_key n < kmax"
    using sl slist_published [OF sl p] n nc unfolding slist_def sorted_list_def
    by (metis order_less_trans option.inject)
  from slist_next_in [OF sl p n(1) this] n(2) have "c \<in> lnodes m head" by simp
  from slist_plain_live [OF sl this nc] have c: "c \<in> ll_live m head" .
  show "a (ll_key nc) = Some (ll_val nc)" by (rule slist_present_now [OF sl c nc(1)])
  from sl obtain ps tail where "sorted_list kmin kmax m w head ps tail (ll_live m head) a" by (auto simp: slist_def)
  from sl_kill(1) [OF this c nc(1)] have sl1: "slist kmin kmax m w head (ll_live m head - {c}) a'"
    by (auto simp: slist_def a')
  note bp = list_bypass [OF sl sl1 Diff_subset p n _ nc(1,3) n' x]
  show "slist kmin kmax m' (w(t := x)) head (ll_live m' head) a'"
    "list_effect t m w (ll_live m head) a m' (w(t := x)) (ll_live m' head) a'"
    "lnodes m' head = lnodes m head - {c}"
    "nm_of (cells m') = (nm_of (cells m))(p := Some (ll_next nc))"
    using bp unfolding m' by auto
qed

text \<open>A private node is linked in.\<close>

lemma list_link:
  fixes m :: "('k::linorder, 'v::zero, 'z) ll_simple_scheme store"
  assumes sl: "slist kmin kmax m w head live a" and p: "p \<in> lnodes m head" and n: "cells m p = Some n"
    and new: "cells m new = Some nx" "new \<in> private_nodes (w t)" "ll_next nx = ll_next n"
    and k: "ll_key n < ll_key nx" and nc: "cells m (ll_next n) = Some nc" "ll_key nx < ll_key nc"
    and n': "ll_key n' = ll_key n" "ll_val n' = ll_val n" "ll_next n' = new"
    and x: "private_nodes x = private_nodes (w t) - {new}" "owned x \<subseteq> owned (w t) - {new}"
    and m': "m' = put_cell p n' m" and a': "a' = a(ll_key nx \<mapsto> ll_val nx)"
  shows "slist kmin kmax m' (w(t := x)) head (insert new live) a'"
    and "list_effect t m w live a m' (w(t := x)) (insert new live) a'"
    and "lnodes m' head = insert new (lnodes m head)"
    and "ll_live m' head = insert new (ll_live m head)"
    and "nm_of (cells m') = (nm_of (cells m))(p := Some new)"
    and "a (ll_key nx) = None"
proof -
  from sl obtain ps tail where sl0: "sorted_list kmin kmax m w head ps tail live a" by (auto simp: slist_def)
  have pps: "p \<in> set ps" using p sl_nodes_from [OF sl0] by simp
  have no: "new \<in> owned (w t)" using new(2) by blast
  have xps: "new \<notin> set ps" using partition_owned [OF sl_partition [OF sl0] no] by blast
  have px: "p \<noteq> new" using xps pps by blast
  have others: "new \<notin> private_nodes (w u)" if "u \<noteq> t" for u
    using partition_owned [OF sl_partition [OF sl0] no, of u] that by blast
  have pub: "published m' (w(t := x)) q \<longleftrightarrow> published m w q \<or> q = new" for q
    using x(1) n others new(1,2) px unfolding published_def m' by auto
  have part: "partition_ok m' (insert new L) (w(t := x))" if "partition_ok m L w" for L
    using partition_write [OF partition_publish [OF that no x(2)]] n unfolding m' by simp
  from sl_link [OF sl0 pps n new nc(1) k nc(2) n' pub [unfolded m'] part [unfolded m']]
  obtain ps' where sl': "sorted_list kmin kmax m' (w(t := x)) head ps' tail (insert new live) a'"
    and ps': "set ps' = insert new (set ps)" unfolding m' a' by blast
  then show "slist kmin kmax m' (w(t := x)) head (insert new live) a'" by (auto simp: slist_def)
  show "lnodes m' head = insert new (lnodes m head)" using sl_nodes_from [OF sl0] sl_nodes_from [OF sl'] ps' by simp
  have "new \<noteq> head" "new \<noteq> tail"
    using xps sl0 sl_head_in [OF sl0] unfolding sorted_list_def by (metis last_in_set)+
  then show "ll_live m' head = insert new (ll_live m head)" using ll_live_eq [OF sl0] ll_live_eq [OF sl'] ps' by auto
  show "nm_of (cells m') = (nm_of (cells m))(p := Some new)" by (simp add: m' nm_of_upd n')
  show "a (ll_key nx) = None" by (rule slist_absent_now [OF sl p n nc(1) k nc(2)])
  have kv: "kv_of (cells m') = kv_of (cells m)" using n n' unfolding m' by (auto simp: kv_of_upd fun_eq_iff)
  have np: "\<not> published m w new" using new(2) unfolding published_def by blast
  have "p \<notin> private_nodes (w u)" for u
    using partition_live [OF sl_partition [OF sl0] pps, of u] by blast
  then show "list_effect t m w live a m' (w(t := x)) (insert new live) a'"
    unfolding list_effect_def using pub kv
      trav_link [OF sl0 sl' [unfolded m'] _ n new(1,3) px np n'] unfolding m' by auto
qed

text \<open>The constructor: two sentinels.\<close>

lemma slist_init:
  assumes "h \<noteq> NULL" "t \<noteq> NULL" "h \<noteq> t" and "cells m = [h \<mapsto> nh, t \<mapsto> nt]" and "released m = {}"
    and "ll_key nh = kmin" "ll_next nh = t" "ll_key nt = kmax" "ll_next nt = NULL" and "kmin < kmax"
  shows "slist kmin kmax m (\<lambda>_. none_owned) h {} Map.empty" and "ll_live m h = {}"
proof -
  have pth: "path (cells m) ll_next h [h, t] NULL" using assms by auto
  have part: "partition_ok m {h, t} (\<lambda>_. none_owned)" by (rule partition_init) (use assms in auto)
  have sl: "sorted_list kmin kmax m (\<lambda>_. none_owned) h [h, t] t {} Map.empty"
    unfolding sorted_list_def using assms pth part by (auto simp: represents_def published_def split: if_splits)
  then show "slist kmin kmax m (\<lambda>_. none_owned) h {} Map.empty" by (auto simp: slist_def)
  show "ll_live m h = {}" using ll_live_eq [OF sl] by auto
qed

lemma slist_length:
  "slist kmin kmax m w head (ll_live m head) a \<Longrightarrow> kmin < kmax \<Longrightarrow> ll_length (cells m) head = Some (int (card (dom a)))"
  unfolding slist_def by (metis ll_live_eq sl_length)

lemma slist_destroy:
  "slist kmin kmax m w head live a \<Longrightarrow>
   ll_destroy_loop (ll_simple_delete gc heap) m head = freed_or_undefined gc heap m (lnodes m head)"
  unfolding slist_def by (metis sl_destroy sl_nodes_from)

lemma slist_finite: "slist kmin kmax m w head live a \<Longrightarrow> finite (dom a)"
proof -
  assume "slist kmin kmax m w head live a"
  then obtain ps tail where sl: "sorted_list kmin kmax m w head ps tail live a" by (auto simp: slist_def)
  have "finite live" using sl_live [OF sl] finite_subset [of live "set ps"] by blast
  with sl_represents [OF sl] show "finite (dom a)" by (rule represents_finite)
qed

text \<open>The runs considered: fewer than \<open>2 ^ 62\<close> steps, so that the version of a lock cannot wrap around, from
  sentinels at two addresses.\<close>

definition list_run_ok :: "'k::linorder \<Rightarrow> 'k \<Rightarrow> ptr \<Rightarrow> ptr \<Rightarrow> nat \<Rightarrow> bool" where
  "list_run_ok kmin kmax h t n \<longleftrightarrow> h \<noteq> NULL \<and> t \<noteq> NULL \<and> h \<noteq> t \<and> kmin < kmax \<and> n < 2 ^ 62"

end
