(* ===== verification/LinkedList_OptikGL.thy ===== *)
theory LinkedList_OptikGL
  imports List_Steps Optik_Integer
begin

text \<open>
  The sorted list with one OPTIK lock, \<^verbatim>\<open>src/algorithms/linkedlist_optik_gl.h\<close>: \<^verbatim>\<open>search\<close> takes no
  lock; \<^verbatim>\<open>insert\<close> and \<^verbatim>\<open>remove\<close> read the version, traverse without a lock, and enter the critical
  section only if the version is unchanged. The operations on the lock word are the step functions
  of theory Optik_Integer. Keys lie strictly between the keys of the two sentinels.
\<close>

section \<open>The code\<close>

record ('k, 'v) ogl =
  og_head :: ptr
  og_lock :: "64 word"
  og_mem :: "('k, 'v) ll_simple store"

abbreviation og_cells :: "('k, 'v) ogl \<Rightarrow> ptr \<Rightarrow> ('k, 'v) ll_simple option" where
  "og_cells s \<equiv> cells (og_mem s)"

text \<open>The constructor: the sentinels are at two addresses \<open>h\<close> and \<open>t\<close>.\<close>

definition ogl_init :: "'k \<Rightarrow> 'k \<Rightarrow> ptr \<Rightarrow> ptr \<Rightarrow> ('k, 'v::zero) ogl" where
  "ogl_init kmin kmax h t = \<lparr>og_head = h, og_lock = optik_init,
     og_mem = put_cell h (initialize_ll_simple kmin 0 t) (put_cell t (initialize_ll_simple kmax 0 NULL) empty_store)\<rparr>"

datatype 'k ogl_search_pc =
    GS_Head 'k                  \<comment> \<open>\<^verbatim>\<open>curr = head\<close>\<close>
  | GS_Key 'k ptr               \<comment> \<open>\<^verbatim>\<open>curr->key < key\<close>\<close>
  | GS_Next 'k ptr              \<comment> \<open>\<^verbatim>\<open>curr = curr->next\<close>\<close>
  | GS_Test 'k ptr              \<comment> \<open>\<^verbatim>\<open>curr->key == key\<close>\<close>
  | GS_Val 'k ptr               \<comment> \<open>\<^verbatim>\<open>res = curr->val\<close>\<close>

datatype ('k, 'v) ogl_insert_pc =
    GI_Version 'k 'v                          \<comment> \<open>\<^verbatim>\<open>version = lock\<close>\<close>
  | GI_Head 'k 'v "64 word"                   \<comment> \<open>\<^verbatim>\<open>curr = head\<close>\<close>
  | GI_Next 'k 'v "64 word" ptr               \<comment> \<open>\<^verbatim>\<open>pred = curr; curr = curr->next\<close>\<close>
  | GI_Key 'k 'v "64 word" ptr ptr            \<comment> \<open>\<^verbatim>\<open>curr->key < key\<close>\<close>
  | GI_Test 'k 'v "64 word" ptr ptr           \<comment> \<open>\<^verbatim>\<open>curr->key == key\<close>\<close>
  | GI_Alloc 'k 'v "64 word" ptr ptr          \<comment> \<open>allocate \<^verbatim>\<open>newnode\<close> with next \<^verbatim>\<open>curr\<close>\<close>
  | GI_Try 'k 'v "64 word" ptr ptr optik_try_pc   \<comment> \<open>\<^verbatim>\<open>optik_trylock_version(&lock, version)\<close>\<close>
  | GI_Free 'k 'v ptr                         \<comment> \<open>release \<^verbatim>\<open>newnode\<close>, restart\<close>
  | GI_Link 'k 'v ptr ptr                     \<comment> \<open>\<^verbatim>\<open>pred->next = newnode\<close>\<close>
  | GI_Unlock optik_unlock_pc                 \<comment> \<open>\<^verbatim>\<open>optik_unlock(&lock)\<close>\<close>

datatype ('k, 'v) ogl_remove_pc =
    GR_Version 'k                             \<comment> \<open>\<^verbatim>\<open>version = lock\<close>\<close>
  | GR_Head 'k "64 word"                      \<comment> \<open>\<^verbatim>\<open>curr = head\<close>\<close>
  | GR_Next 'k "64 word" ptr                  \<comment> \<open>\<^verbatim>\<open>pred = curr; curr = curr->next\<close>\<close>
  | GR_Key 'k "64 word" ptr ptr               \<comment> \<open>\<^verbatim>\<open>curr->key < key\<close>\<close>
  | GR_Test 'k "64 word" ptr ptr              \<comment> \<open>\<^verbatim>\<open>curr->key != key\<close>\<close>
  | GR_Try 'k "64 word" ptr ptr optik_try_pc  \<comment> \<open>\<^verbatim>\<open>optik_trylock_version(&lock, version)\<close>\<close>
  | GR_CNext 'k ptr ptr                       \<comment> \<open>evaluate \<^verbatim>\<open>curr->next\<close>\<close>
  | GR_Unlink 'k ptr ptr ptr                  \<comment> \<open>\<^verbatim>\<open>pred->next = curr->next\<close>\<close>
  | GR_Unlock ptr optik_unlock_pc             \<comment> \<open>\<^verbatim>\<open>optik_unlock(&lock)\<close>\<close>
  | GR_Val ptr                                \<comment> \<open>\<^verbatim>\<open>result = curr->val\<close>\<close>
  | GR_Free ptr 'v                            \<comment> \<open>release \<^verbatim>\<open>curr\<close>, return\<close>

datatype ('k, 'v) ogl_pc = GSearch "'k ogl_search_pc" | GInsert "('k, 'v) ogl_insert_pc" | GRemove "('k, 'v) ogl_remove_pc"

type_synonym ('k, 'v) ogl_outcome = "(('k, 'v) ogl, ('k, 'v) ogl_pc, 'v map_ret) outcome"

fun ogl_search :: "('k::linorder, 'v::zero) ogl \<Rightarrow> 'k ogl_search_pc \<Rightarrow> ('k, 'v) ogl_outcome" where
  "ogl_search s (GS_Head k) = Next s (At (GSearch (GS_Key k (og_head s))))"
| "ogl_search s (GS_Key k cur) =
     deref (og_cells s) cur (\<lambda>n. Next s (At (GSearch (if ll_key n < k then GS_Next k cur else GS_Test k cur))))"
| "ogl_search s (GS_Next k cur) = deref (og_cells s) cur (\<lambda>n. Next s (At (GSearch (GS_Key k (ll_next n)))))"
| "ogl_search s (GS_Test k cur) =
     deref (og_cells s) cur (\<lambda>n. Next s (if ll_key n = k then At (GSearch (GS_Val k cur)) else Finished (Ret_Val 0)))"
| "ogl_search s (GS_Val k cur) = deref (og_cells s) cur (\<lambda>n. Next s (Finished (Ret_Val (ll_val n))))"

fun ogl_insert :: "ptr \<Rightarrow> ('k::linorder, 'v::zero) ogl \<Rightarrow> ('k, 'v) ogl_insert_pc \<Rightarrow> ('k, 'v) ogl_outcome" where
  "ogl_insert p s (GI_Version k v) = Next s (At (GInsert (GI_Head k v (og_lock s))))"
| "ogl_insert p s (GI_Head k v ver) = Next s (At (GInsert (GI_Next k v ver (og_head s))))"
| "ogl_insert p s (GI_Next k v ver cur) =
     deref (og_cells s) cur (\<lambda>n. Next s (At (GInsert (GI_Key k v ver cur (ll_next n)))))"
| "ogl_insert p s (GI_Key k v ver pred cur) =
     deref (og_cells s) cur (\<lambda>n.
       Next s (At (GInsert (if ll_key n < k then GI_Next k v ver cur else GI_Test k v ver pred cur))))"
| "ogl_insert p s (GI_Test k v ver pred cur) =
     deref (og_cells s) cur (\<lambda>n.
       Next s (if ll_key n = k then Finished (Ret_Int 0) else At (GInsert (GI_Alloc k v ver pred cur))))"
| "ogl_insert p s (GI_Alloc k v ver pred cur) =
     alloc (og_cells s) p
       (Next (s\<lparr>og_mem := put_cell p (allocate_ll_simple k v cur) (og_mem s)\<rparr>)
          (At (GInsert (GI_Try k v ver p pred Try_Check))))"
| "ogl_insert p s (GI_Try k v ver newnode pred pc) =
     (case optik_trylock_version ver (og_lock s) pc of
        Next l (At pc') \<Rightarrow> Next (s\<lparr>og_lock := l\<rparr>) (At (GInsert (GI_Try k v ver newnode pred pc')))
      | Next l (Finished ok) \<Rightarrow>
          Next (s\<lparr>og_lock := l\<rparr>) (At (GInsert (if ok then GI_Link k v newnode pred else GI_Free k v newnode)))
      | _ \<Rightarrow> Blocked)"
| "ogl_insert p s (GI_Free k v newnode) =
     ll_simple_release (og_mem s) newnode (\<lambda>m. Next (s\<lparr>og_mem := m\<rparr>) (At (GInsert (GI_Version k v))))"
| "ogl_insert p s (GI_Link k v newnode pred) =
     deref (og_cells s) pred (\<lambda>n.
       Next (s\<lparr>og_mem := put_cell pred (n\<lparr>ll_next := newnode\<rparr>) (og_mem s)\<rparr>) (At (GInsert (GI_Unlock Unlock_Read))))"
| "ogl_insert p s (GI_Unlock pc) =
     (case optik_unlock (og_lock s) pc of
        Next l (At pc') \<Rightarrow> Next (s\<lparr>og_lock := l\<rparr>) (At (GInsert (GI_Unlock pc')))
      | Next l (Finished _) \<Rightarrow> Next (s\<lparr>og_lock := l\<rparr>) (Finished (Ret_Int 1))
      | _ \<Rightarrow> Blocked)"

fun ogl_remove :: "('k::linorder, 'v::zero) ogl \<Rightarrow> ('k, 'v) ogl_remove_pc \<Rightarrow> ('k, 'v) ogl_outcome" where
  "ogl_remove s (GR_Version k) = Next s (At (GRemove (GR_Head k (og_lock s))))"
| "ogl_remove s (GR_Head k ver) = Next s (At (GRemove (GR_Next k ver (og_head s))))"
| "ogl_remove s (GR_Next k ver cur) =
     deref (og_cells s) cur (\<lambda>n. Next s (At (GRemove (GR_Key k ver cur (ll_next n)))))"
| "ogl_remove s (GR_Key k ver pred cur) =
     deref (og_cells s) cur (\<lambda>n.
       Next s (At (GRemove (if ll_key n < k then GR_Next k ver cur else GR_Test k ver pred cur))))"
| "ogl_remove s (GR_Test k ver pred cur) =
     deref (og_cells s) cur (\<lambda>n.
       Next s (if ll_key n \<noteq> k then Finished (Ret_Val 0) else At (GRemove (GR_Try k ver pred cur Try_Check))))"
| "ogl_remove s (GR_Try k ver pred cur pc) =
     (case optik_trylock_version ver (og_lock s) pc of
        Next l (At pc') \<Rightarrow> Next (s\<lparr>og_lock := l\<rparr>) (At (GRemove (GR_Try k ver pred cur pc')))
      | Next l (Finished ok) \<Rightarrow>
          Next (s\<lparr>og_lock := l\<rparr>) (At (GRemove (if ok then GR_CNext k pred cur else GR_Version k)))
      | _ \<Rightarrow> Blocked)"
| "ogl_remove s (GR_CNext k pred cur) =
     deref (og_cells s) cur (\<lambda>n. Next s (At (GRemove (GR_Unlink k pred cur (ll_next n)))))"
| "ogl_remove s (GR_Unlink k pred cur nx) =
     deref (og_cells s) pred (\<lambda>n.
       Next (s\<lparr>og_mem := put_cell pred (n\<lparr>ll_next := nx\<rparr>) (og_mem s)\<rparr>) (At (GRemove (GR_Unlock cur Unlock_Read))))"
| "ogl_remove s (GR_Unlock cur pc) =
     (case optik_unlock (og_lock s) pc of
        Next l (At pc') \<Rightarrow> Next (s\<lparr>og_lock := l\<rparr>) (At (GRemove (GR_Unlock cur pc')))
      | Next l (Finished _) \<Rightarrow> Next (s\<lparr>og_lock := l\<rparr>) (At (GRemove (GR_Val cur)))
      | _ \<Rightarrow> Blocked)"
| "ogl_remove s (GR_Val cur) = deref (og_cells s) cur (\<lambda>n. Next s (At (GRemove (GR_Free cur (ll_val n)))))"
| "ogl_remove s (GR_Free cur result) =
     ll_simple_release (og_mem s) cur (\<lambda>m. Next (s\<lparr>og_mem := m\<rparr>) (Finished (Ret_Val result)))"

definition ogl_length :: "('k, 'v) ogl \<Rightarrow> int option" where
  "ogl_length s = ll_length (og_cells s) (og_head s)"

definition ogl_destroy :: "bool \<Rightarrow> ptr set \<Rightarrow> ('k, 'v) ogl \<Rightarrow> ('k, 'v) ll_simple store option" where
  "ogl_destroy gc heap s = ll_destroy_loop (ll_simple_delete gc heap) (og_mem s) (og_head s)"

fun ogl_entry :: "('k, 'v) map_op \<Rightarrow> ('k, 'v) ogl_pc" where
  "ogl_entry (Search k) = GSearch (GS_Head k)"
| "ogl_entry (Insert k v) = GInsert (GI_Version k v)"
| "ogl_entry (Delete k) = GRemove (GR_Version k)"

definition ogl_start :: "'k::linorder \<Rightarrow> 'k \<Rightarrow> ('k, 'v) map_op \<Rightarrow> ('k, 'v) ogl_pc option" where
  "ogl_start kmin kmax op = (if kmin < op_key op \<and> op_key op < kmax then Some (ogl_entry op) else None)"

fun ogl_exec :: "tid \<Rightarrow> ptr \<Rightarrow> ('k::linorder, 'v::zero) ogl \<Rightarrow> ('k, 'v) ogl_pc \<Rightarrow> ('k, 'v) ogl_outcome" where
  "ogl_exec t p s (GSearch x) = ogl_search s x"
| "ogl_exec t p s (GInsert x) = ogl_insert p s x"
| "ogl_exec t p s (GRemove x) = ogl_remove s x"

section \<open>The invariant\<close>

fun ogl_own :: "(('k, 'v) ogl_pc, 'v map_ret) control \<Rightarrow> unit ownership" where
  "ogl_own (At (GInsert (GI_Try k v ver x p pc))) = holding {x} {} {}"
| "ogl_own (At (GInsert (GI_Free k v x))) = holding {x} {} {}"
| "ogl_own (At (GInsert (GI_Link k v x p))) = holding {x} {} {()}"
| "ogl_own (At (GInsert (GI_Unlock pc))) = holding {} {} {()}"
| "ogl_own (At (GRemove (GR_CNext k p c))) = holding {} {} {()}"
| "ogl_own (At (GRemove (GR_Unlink k p c d))) = holding {} {} {()}"
| "ogl_own (At (GRemove (GR_Unlock c pc))) = holding {} {c} {()}"
| "ogl_own (At (GRemove (GR_Val c))) = holding {} {c} {}"
| "ogl_own (At (GRemove (GR_Free c v))) = holding {} {c} {}"
| "ogl_own _ = none_owned"

abbreviation ogl_live :: "('k, 'v) ogl \<Rightarrow> ptr set" where
  "ogl_live s \<equiv> ll_live (og_mem s) (og_head s)"

abbreviation ogl_nodes :: "('k, 'v) ogl \<Rightarrow> ptr set" where
  "ogl_nodes s \<equiv> nodes_from (og_cells s) ll_next (og_head s)"

definition ogl_SI :: "'k::linorder \<Rightarrow> 'k \<Rightarrow> nat \<Rightarrow> ('k, 'v) ogl \<Rightarrow> ('k \<rightharpoonup> 'v) \<Rightarrow> (tid \<Rightarrow> unit ownership) \<Rightarrow> bool" where
  "ogl_SI kmin kmax n s a w \<longleftrightarrow> slist kmin kmax (og_mem s) w (og_head s) (ogl_live s) a \<and>
     unat (og_lock s) \<le> n \<and> optik_held_ok (og_lock s) () w"

abbreviation ogl_at :: "('k, 'v::zero) ogl \<Rightarrow> (tid \<Rightarrow> unit ownership) \<Rightarrow> ('k, 'v) map_op \<Rightarrow>
    (('k, 'v) map_op, 'v map_ret) ghost \<Rightarrow> ptr \<Rightarrow> bool" where
  "ogl_at s w op g c \<equiv> list_at (og_mem s) w (ogl_live s) op g c"

abbreviation ogl_node :: "('k, 'v) ogl \<Rightarrow> (tid \<Rightarrow> unit ownership) \<Rightarrow> ptr \<Rightarrow> ('k \<Rightarrow> bool) \<Rightarrow> bool" where
  "ogl_node s w p P \<equiv> list_node (og_mem s) w p P"

text \<open>What a thread knows of \<open>pred\<close> and \<open>curr\<close>, should the version still be the one it read.\<close>

definition ogl_in :: "('k, 'v) ogl \<Rightarrow> 64 word \<Rightarrow> ptr \<Rightarrow> bool" where
  "ogl_in s ver p \<longleftrightarrow> unat ver \<le> unat (og_lock s) \<and>
     (og_lock s = ver \<longrightarrow> \<not> optik_is_locked ver \<longrightarrow> p \<in> ogl_nodes s)"

definition ogl_snap :: "('k, 'v) ogl \<Rightarrow> 64 word \<Rightarrow> ptr \<Rightarrow> ptr \<Rightarrow> bool" where
  "ogl_snap s ver p c \<longleftrightarrow> unat ver \<le> unat (og_lock s) \<and>
     (og_lock s = ver \<longrightarrow> \<not> optik_is_locked ver \<longrightarrow> p \<in> ogl_nodes s \<and> nm_of (og_cells s) p = Some c)"

text \<open>What the holder of the lock knows.\<close>

definition ogl_adjacent :: "('k, 'v) ogl \<Rightarrow> ptr \<Rightarrow> ptr \<Rightarrow> bool" where
  "ogl_adjacent s p c \<longleftrightarrow> p \<in> ogl_nodes s \<and> nm_of (og_cells s) p = Some c"

text \<open>The new node of an insertion, to be linked before a node with a larger key.\<close>

definition ogl_new :: "('k::linorder, 'v) ogl \<Rightarrow> (tid \<Rightarrow> unit ownership) \<Rightarrow> 'k \<Rightarrow> 'v \<Rightarrow> ptr \<Rightarrow> (ptr \<Rightarrow> bool) \<Rightarrow> bool" where
  "ogl_new s w k v x P \<longleftrightarrow>
     (\<exists>c. og_cells s x = Some (allocate_ll_simple k v c) \<and> ogl_node s w c (\<lambda>x. k < x) \<and> P c)"

lemma ogl_new_mono: "ogl_new s w k v x P \<Longrightarrow> (\<And>c. P c \<Longrightarrow> Q c) \<Longrightarrow> ogl_new s w k v x Q"
  unfolding ogl_new_def by blast

fun ogl_LI :: "'k::linorder \<Rightarrow> 'k \<Rightarrow> tid \<Rightarrow> ('k, 'v::zero) ogl \<Rightarrow> ('k \<rightharpoonup> 'v) \<Rightarrow> (tid \<Rightarrow> unit ownership) \<Rightarrow>
    (('k, 'v) ogl_pc, 'v map_ret) control \<Rightarrow> (('k, 'v) map_op, 'v map_ret) ghost \<Rightarrow> bool" where
  "ogl_LI kmin kmax t s a w Idle g = (g = Quiet)"
| "ogl_LI kmin kmax t s a w (Finished r) g = returns g r"
| "ogl_LI kmin kmax t s a w (At (GSearch (GS_Head k))) g = list_op kmin kmax (Search k) g"
| "ogl_LI kmin kmax t s a w (At (GSearch (GS_Key k c))) g = (list_op kmin kmax (Search k) g \<and> ogl_at s w (Search k) g c)"
| "ogl_LI kmin kmax t s a w (At (GSearch (GS_Next k c))) g =
     (list_op kmin kmax (Search k) g \<and> ogl_at s w (Search k) g c \<and> ogl_node s w c (\<lambda>x. x < k))"
| "ogl_LI kmin kmax t s a w (At (GSearch (GS_Test k c))) g =
     (list_op kmin kmax (Search k) g \<and> ogl_at s w (Search k) g c \<and> ogl_node s w c (\<lambda>x. k \<le> x))"
| "ogl_LI kmin kmax t s a w (At (GSearch (GS_Val k c))) g =
     (list_op kmin kmax (Search k) g \<and> ogl_at s w (Search k) g c \<and> ogl_node s w c (\<lambda>x. x = k))"
| "ogl_LI kmin kmax t s a w (At (GInsert (GI_Version k v))) g = list_op kmin kmax (Insert k v) g"
| "ogl_LI kmin kmax t s a w (At (GInsert (GI_Head k v ver))) g =
     (list_op kmin kmax (Insert k v) g \<and> unat ver \<le> unat (og_lock s))"
| "ogl_LI kmin kmax t s a w (At (GInsert (GI_Next k v ver c))) g =
     (list_op kmin kmax (Insert k v) g \<and> ogl_at s w (Insert k v) g c \<and> ogl_node s w c (\<lambda>x. x < k) \<and> ogl_in s ver c)"
| "ogl_LI kmin kmax t s a w (At (GInsert (GI_Key k v ver p c))) g =
     (list_op kmin kmax (Insert k v) g \<and> ogl_at s w (Insert k v) g c \<and> ogl_node s w p (\<lambda>x. x < k) \<and> ogl_snap s ver p c)"
| "ogl_LI kmin kmax t s a w (At (GInsert (GI_Test k v ver p c))) g =
     (list_op kmin kmax (Insert k v) g \<and> ogl_at s w (Insert k v) g c \<and> ogl_node s w p (\<lambda>x. x < k) \<and> ogl_snap s ver p c \<and>
      ogl_node s w c (\<lambda>x. k \<le> x))"
| "ogl_LI kmin kmax t s a w (At (GInsert (GI_Alloc k v ver p c))) g =
     (list_op kmin kmax (Insert k v) g \<and> ogl_node s w p (\<lambda>x. x < k) \<and> ogl_snap s ver p c \<and> ogl_node s w c (\<lambda>x. k < x))"
| "ogl_LI kmin kmax t s a w (At (GInsert (GI_Try k v ver x p pc))) g =
     (list_op kmin kmax (Insert k v) g \<and> ogl_node s w p (\<lambda>x. x < k) \<and> ogl_new s w k v x (ogl_snap s ver p) \<and>
      (pc = Try_CAS \<longrightarrow> \<not> optik_is_locked ver))"
| "ogl_LI kmin kmax t s a w (At (GInsert (GI_Free k v x))) g =
     (list_op kmin kmax (Insert k v) g \<and> ogl_new s w k v x (\<lambda>_. True))"
| "ogl_LI kmin kmax t s a w (At (GInsert (GI_Link k v x p))) g =
     (list_op kmin kmax (Insert k v) g \<and> ogl_node s w p (\<lambda>x. x < k) \<and> ogl_new s w k v x (ogl_adjacent s p))"
| "ogl_LI kmin kmax t s a w (At (GInsert (GI_Unlock pc))) g =
     (g = Closed (Ret_Int 1) \<and> (\<forall>x. pc = Unlock_Write x \<longrightarrow> x = og_lock s))"
| "ogl_LI kmin kmax t s a w (At (GRemove (GR_Version k))) g = list_op kmin kmax (Delete k) g"
| "ogl_LI kmin kmax t s a w (At (GRemove (GR_Head k ver))) g =
     (list_op kmin kmax (Delete k) g \<and> unat ver \<le> unat (og_lock s))"
| "ogl_LI kmin kmax t s a w (At (GRemove (GR_Next k ver c))) g =
     (list_op kmin kmax (Delete k) g \<and> ogl_at s w (Delete k) g c \<and> ogl_node s w c (\<lambda>x. x < k) \<and> ogl_in s ver c)"
| "ogl_LI kmin kmax t s a w (At (GRemove (GR_Key k ver p c))) g =
     (list_op kmin kmax (Delete k) g \<and> ogl_at s w (Delete k) g c \<and> ogl_node s w p (\<lambda>x. x < k) \<and> ogl_snap s ver p c)"
| "ogl_LI kmin kmax t s a w (At (GRemove (GR_Test k ver p c))) g =
     (list_op kmin kmax (Delete k) g \<and> ogl_at s w (Delete k) g c \<and> ogl_node s w p (\<lambda>x. x < k) \<and> ogl_snap s ver p c \<and>
      ogl_node s w c (\<lambda>x. k \<le> x))"
| "ogl_LI kmin kmax t s a w (At (GRemove (GR_Try k ver p c pc))) g =
     (list_op kmin kmax (Delete k) g \<and> ogl_node s w p (\<lambda>x. x < k) \<and> ogl_snap s ver p c \<and> ogl_node s w c (\<lambda>x. x = k) \<and>
      (pc = Try_CAS \<longrightarrow> \<not> optik_is_locked ver))"
| "ogl_LI kmin kmax t s a w (At (GRemove (GR_CNext k p c))) g =
     (list_op kmin kmax (Delete k) g \<and> ogl_node s w p (\<lambda>x. x < k) \<and> ogl_adjacent s p c \<and> ogl_node s w c (\<lambda>x. x = k))"
| "ogl_LI kmin kmax t s a w (At (GRemove (GR_Unlink k p c d))) g =
     (list_op kmin kmax (Delete k) g \<and> ogl_node s w p (\<lambda>x. x < k) \<and> ogl_adjacent s p c \<and> ogl_adjacent s c d \<and>
      ogl_node s w c (\<lambda>x. x = k))"
| "ogl_LI kmin kmax t s a w (At (GRemove (GR_Unlock c pc))) g =
     (list_result (og_mem s) w c g \<and> (\<forall>x. pc = Unlock_Write x \<longrightarrow> x = og_lock s))"
| "ogl_LI kmin kmax t s a w (At (GRemove (GR_Val c))) g = list_result (og_mem s) w c g"
| "ogl_LI kmin kmax t s a w (At (GRemove (GR_Free c v))) g = (g = Closed (Ret_Val v))"

lemma ogl_SI_mono: "ogl_SI kmin kmax n s a w \<Longrightarrow> ogl_SI kmin kmax (Suc n) s a w"
  by (auto simp: ogl_SI_def)

section \<open>Interference\<close>

text \<open>A step changes the list only under the lock, and the lock only when no other thread holds it.\<close>

definition ogl_effect :: "tid \<Rightarrow> ('k::linorder, 'v::zero) ogl \<Rightarrow> ('k \<rightharpoonup> 'v) \<Rightarrow> (tid \<Rightarrow> unit ownership) \<Rightarrow>
    ('k, 'v) ogl \<Rightarrow> ('k \<rightharpoonup> 'v) \<Rightarrow> (tid \<Rightarrow> unit ownership) \<Rightarrow> bool" where
  "ogl_effect t s a w s' a' w' \<longleftrightarrow>
     list_effect t (og_mem s) w (ogl_live s) a (og_mem s') w' (ogl_live s') a' \<and>
     unat (og_lock s) \<le> unat (og_lock s') \<and>
     ((\<forall>p. published (og_mem s) w p \<longrightarrow> nm_of (og_cells s') p = nm_of (og_cells s) p) \<and> ogl_nodes s' = ogl_nodes s \<or>
      () \<in> held (w t) \<and> og_lock s' = og_lock s) \<and>
     (og_lock s' = og_lock s \<or> (\<forall>u. u \<noteq> t \<longrightarrow> () \<notin> held (w u)))"

lemma ogl_stable:
  fixes s :: "('k::linorder, 'v::zero) ogl"
  assumes SI: "ogl_SI kmin kmax n s a w" and eff: "ogl_effect t s a w s' a' w'"
    and ut: "u \<noteq> t" and own: "w u = ogl_own z" and obs: "observed map_spec a g" and LI: "ogl_LI kmin kmax u s a w z g"
  shows "ogl_LI kmin kmax u s' a' w' z (observe map_spec a' g)"
proof -
  have le: "list_effect t (og_mem s) w (ogl_live s) a (og_mem s') w' (ogl_live s') a'"
    and mono: "unat (og_lock s) \<le> unat (og_lock s')"
    and same: "(\<forall>p. published (og_mem s) w p \<longrightarrow> nm_of (og_cells s') p = nm_of (og_cells s) p) \<and> ogl_nodes s' = ogl_nodes s \<or>
      () \<in> held (w t) \<and> og_lock s' = og_lock s"
    using eff unfolding ogl_effect_def by blast+
  note op = list_op_stable [of kmin kmax _ g a'] and node = effect_node [OF le] and val = effect_result [OF le]
  have at: "ogl_at s' w' op' (observe map_spec a' g) p" if "list_op kmin kmax op' g" "ogl_at s w op' g p" for op' p
    using effect_at [OF le obs that] .
  have quiet: "(\<forall>p. published (og_mem s) w p \<longrightarrow> nm_of (og_cells s') p = nm_of (og_cells s) p) \<and> ogl_nodes s' = ogl_nodes s \<and> og_lock s = ver"
    if "og_lock s' = ver" "\<not> optik_is_locked ver" "unat ver \<le> unat (og_lock s)" for ver
  proof -
    have ver: "og_lock s = ver" using mono that by (simp add: word_unat_eq_iff)
    moreover have "() \<notin> held (w t)" using SI that(2) ver optik_held_free unfolding ogl_SI_def by metis
    ultimately show ?thesis using same by blast
  qed
  have inn: "ogl_in s' ver p" if "ogl_in s ver p" for ver p
    using that quiet [of ver] mono unfolding ogl_in_def by auto
  have snap: "ogl_snap s' ver p c" if "ogl_snap s ver p c" "ogl_node s w p P" for ver p c P
    using that quiet [of ver] mono unfolding ogl_snap_def list_node_def by auto
  have ver: "unat ver \<le> unat (og_lock s')" if "unat ver \<le> unat (og_lock s)" for ver
    using mono that by simp
  have hk: "optik_held_ok (og_lock s) () w" using SI unfolding ogl_SI_def by blast
  have holds: "() \<notin> held (w t) \<and> og_lock s' = og_lock s" if "() \<in> held (w u)"
    using optik_held_exclusive [OF hk that, of t] ut eff that unfolding ogl_effect_def by blast
  have adj: "ogl_adjacent s' p c" if "ogl_adjacent s p c" "ogl_node s w p P" "() \<in> held (w u)" for p c P
    using that holds same unfolding ogl_adjacent_def list_node_def by auto
  have new: "ogl_new s' w' k v x Q" if "ogl_new s w k v x P" "x \<in> private_nodes (w u)" "\<And>c. P c \<Longrightarrow> Q c" for k v x P Q
    using that effect_private [OF le ut that(2)] node unfolding ogl_new_def by metis
  note keep = op at node inn snap ver val
  show ?thesis
  proof (cases z)
    case (At x)
    show ?thesis
    proof (cases x)
      case (GSearch pc)
      show ?thesis using LI own op at node unfolding At GSearch by (cases pc) auto
    next
      case (GInsert pc)
      show ?thesis
      proof (cases pc)
        case (GI_Try k v vr x p tpc)
        then show ?thesis using LI own keep new [of k v x "ogl_snap s vr p" "ogl_snap s' vr p"] snap [of vr p]
          unfolding At GInsert by auto
      next
        case (GI_Free k v x)
        then show ?thesis using LI own keep new [of k v x "\<lambda>_. True" "\<lambda>_. True"] unfolding At GInsert by auto
      next
        case (GI_Link k v x p)
        then show ?thesis using LI own keep new [of k v x "ogl_adjacent s p" "ogl_adjacent s' p"] adj [of p]
          unfolding At GInsert by auto
      next
        case (GI_Unlock upc)
        then have "og_lock s' = og_lock s" using holds own unfolding At GInsert by simp
        then show ?thesis using LI unfolding At GInsert GI_Unlock by auto
      qed (use LI keep in \<open>auto simp: At GInsert\<close>)
    next
      case (GRemove pc)
      show ?thesis
      proof (cases pc)
        case (GR_CNext k p c)
        then have "() \<in> held (w u)" using own unfolding At GRemove by simp
        with GR_CNext LI keep adj show ?thesis unfolding At GRemove by auto
      next
        case (GR_Unlink k p c d)
        then have "() \<in> held (w u)" using own unfolding At GRemove by simp
        with GR_Unlink LI keep adj show ?thesis unfolding At GRemove by auto
      next
        case (GR_Unlock c upc)
        then have "og_lock s' = og_lock s" using holds own unfolding At GRemove by simp
        then show ?thesis using LI keep unfolding At GRemove GR_Unlock by auto
      qed (use LI keep in \<open>auto simp: At GRemove\<close>)
    qed
  qed (use LI in \<open>auto simp: returns_observe\<close>)
qed

lemma ogl_step_ok:
  fixes s :: "('k::linorder, 'v::zero) ogl"
  assumes adv: "advance map_spec a g a' g'" and SI: "ogl_SI kmin kmax n s a w"
    and LI': "ogl_LI kmin kmax t s' a' (w(t := ogl_own y)) y g'"
    and sl: "slist kmin kmax (og_mem s') (w(t := ogl_own y)) (og_head s') (ogl_live s') a'"
    and le: "list_effect t (og_mem s) w (ogl_live s) a (og_mem s') (w(t := ogl_own y)) (ogl_live s') a'"
    and held: "optik_held_ok (og_lock s') () (w(t := ogl_own y))"
    and lock: "og_lock s' = og_lock s \<or>
       unat (og_lock s') = Suc (unat (og_lock s)) \<and> (\<forall>u. u \<noteq> t \<longrightarrow> () \<notin> held (w u))"
    and same: "(\<forall>p. published (og_mem s) w p \<longrightarrow> nm_of (og_cells s') p = nm_of (og_cells s) p) \<and> ogl_nodes s' = ogl_nodes s \<or>
      () \<in> held (w t) \<and> og_lock s' = og_lock s"
  shows "step_ok map_spec ogl_own (ogl_SI kmin kmax) (ogl_LI kmin kmax) n t s a w g s' y"
proof (rule step_okI [where own = ogl_own and SI = "ogl_SI kmin kmax" and LI = "ogl_LI kmin kmax", OF adv _ LI'])
  show "ogl_SI kmin kmax (Suc n) s' a' (w(t := ogl_own y))" using SI sl held lock unfolding ogl_SI_def by auto
  have "ogl_effect t s a w s' a' (w(t := ogl_own y))" using le lock same unfolding ogl_effect_def by auto
  from ogl_stable [OF SI this]
  show "\<And>u z gu. u \<noteq> t \<Longrightarrow> w u = ogl_own z \<Longrightarrow> observed map_spec a gu \<Longrightarrow> ogl_LI kmin kmax u s a w z gu \<Longrightarrow>
      ogl_LI kmin kmax u s' a' (w(t := ogl_own y)) z (observe map_spec a' gu)" .
qed

lemmas ogl_local = step_ok_local [where own = ogl_own and SI = "ogl_SI kmin kmax" and LI = "ogl_LI kmin kmax" for kmin kmax]

text \<open>Steps on the lock word.\<close>

lemma ogl_acquire:
  assumes SI: "ogl_SI kmin kmax n s a w" and free: "\<not> optik_is_locked (og_lock s)"
    and x: "private_nodes (ogl_own y) = private_nodes (w t)" "owned (ogl_own y) \<subseteq> owned (w t)" "() \<in> held (ogl_own y)"
    and s': "s' = s\<lparr>og_lock := og_lock s + 1\<rparr>"
    and LI': "ogl_LI kmin kmax t s' a (w(t := ogl_own y)) y g"
  shows "step_ok map_spec ogl_own (ogl_SI kmin kmax) (ogl_LI kmin kmax) n t s a w g s' y"
proof (rule ogl_step_ok [OF advance_stay SI LI'])
  from SI have sl: "slist kmin kmax (og_mem s) w (og_head s) (ogl_live s) a" and h: "optik_held_ok (og_lock s) () w"
    unfolding ogl_SI_def by auto
  from list_own [OF sl x(1,2)] show "slist kmin kmax (og_mem s') (w(t := ogl_own y)) (og_head s') (ogl_live s') a"
    "list_effect t (og_mem s) w (ogl_live s) a (og_mem s') (w(t := ogl_own y)) (ogl_live s') a"
    by (simp_all add: s')
  show "optik_held_ok (og_lock s') () (w(t := ogl_own y))" using optik_held_acquire [OF h free x(3)] by (simp add: s')
  show "og_lock s' = og_lock s \<or> unat (og_lock s') = Suc (unat (og_lock s)) \<and> (\<forall>u. u \<noteq> t \<longrightarrow> () \<notin> held (w u))"
    using optik_held_free [OF h free] unat_unlocked_Suc [OF free] by (simp add: s')
qed (simp add: s')

lemma ogl_release:
  assumes SI: "ogl_SI kmin kmax n s a w" and mine: "() \<in> held (w t)" and n: "Suc n < 2 ^ 62"
    and x: "private_nodes (ogl_own y) = private_nodes (w t)" "owned (ogl_own y) \<subseteq> owned (w t)" "() \<notin> held (ogl_own y)"
    and s': "s' = s\<lparr>og_lock := og_lock s + 1\<rparr>"
    and LI': "ogl_LI kmin kmax t s' a (w(t := ogl_own y)) y g"
  shows "step_ok map_spec ogl_own (ogl_SI kmin kmax) (ogl_LI kmin kmax) n t s a w g s' y"
proof (rule ogl_step_ok [OF advance_stay SI LI'])
  from SI have sl: "slist kmin kmax (og_mem s) w (og_head s) (ogl_live s) a" and h: "optik_held_ok (og_lock s) () w"
    and l: "Suc (unat (og_lock s)) < 2 ^ 64"
    using n unfolding ogl_SI_def by auto
  from list_own [OF sl x(1,2)] show "slist kmin kmax (og_mem s') (w(t := ogl_own y)) (og_head s') (ogl_live s') a"
    "list_effect t (og_mem s) w (ogl_live s) a (og_mem s') (w(t := ogl_own y)) (ogl_live s') a"
    by (simp_all add: s')
  show "optik_held_ok (og_lock s') () (w(t := ogl_own y))" using optik_held_release [OF h mine l x(3)] by (simp add: s')
  have "unat (og_lock s + 1) = Suc (unat (og_lock s))" using l by (intro unat_Suc_word) simp
  then show "og_lock s' = og_lock s \<or> unat (og_lock s') = Suc (unat (og_lock s)) \<and> (\<forall>u. u \<noteq> t \<longrightarrow> () \<notin> held (w u))"
    using optik_held_exclusive [OF h mine] by (simp add: s')
qed (simp add: s')

text \<open>Steps on private or retired nodes.\<close>

lemma ogl_aside:
  assumes SI: "ogl_SI kmin kmax n s a w" and s': "s' = s\<lparr>og_mem := m\<rparr>"
    and held: "held (ogl_own y) = held (w t)"
    and sl: "slist kmin kmax m (w(t := ogl_own y)) (og_head s) (ogl_live s) a"
    and le: "list_effect t (og_mem s) w (ogl_live s) a m (w(t := ogl_own y)) (ogl_live s) a"
    and nodes: "lnodes m (og_head s) = ogl_nodes s" "ll_live m (og_head s) = ogl_live s"
      "\<And>p. published (og_mem s) w p \<Longrightarrow> nm_of (cells m) p = nm_of (og_cells s) p"
    and LI': "ogl_LI kmin kmax t s' a (w(t := ogl_own y)) y g"
  shows "step_ok map_spec ogl_own (ogl_SI kmin kmax) (ogl_LI kmin kmax) n t s a w g s' y"
  using SI sl le nodes by (intro ogl_step_ok [OF advance_stay SI LI']) (auto simp: s' ogl_SI_def held intro: optik_held_keep)

section \<open>The steps\<close>

lemma ogl_search_step:
  assumes SI: "ogl_SI kmin kmax n s a w" and LI: "ogl_LI kmin kmax t s a w (At (GSearch x)) g"
    and obs: "observed map_spec a g"
    and own: "w t = ogl_own (At (GSearch x))" and ex: "ogl_search s x = Next s' y"
  shows "step_ok map_spec ogl_own (ogl_SI kmin kmax) (ogl_LI kmin kmax) n t s a w g s' y"
proof -
  note loc = ogl_local [OF ogl_SI_mono [OF SI]]
  from SI have sl: "slist kmin kmax (og_mem s) w (og_head s) (ogl_live s) a" unfolding ogl_SI_def by auto
  show ?thesis
  proof (cases x)
    case (GS_Head k)
    then show ?thesis using loc ex LI own slist_at_head [OF sl _ obs, of "Search k"] by auto
  next
    case (GS_Key k c)
    with ex obtain nd where nd: "og_cells s c = Some nd" "s' = s"
      "y = At (GSearch (if ll_key nd < k then GS_Next k c else GS_Test k c))" by auto
    then show ?thesis using LI own GS_Key by (auto simp: list_node_def list_at_def intro!: loc)
  next
    case (GS_Next k c)
    with ex obtain nd where nd: "og_cells s c = Some nd" "s' = s" "y = At (GSearch (GS_Key k (ll_next nd)))" by auto
    have "ll_key nd < op_key (Search k)" "op_key (Search k) < kmax"
      using LI GS_Next nd(1) by (auto simp: list_node_def list_op_def)
    from slist_at_next [OF sl _ nd(1) this] LI GS_Next nd own show ?thesis by (auto intro!: loc)
  next
    case (GS_Test k c)
    with ex obtain nd where nd: "og_cells s c = Some nd" "s' = s"
      "y = (if ll_key nd = k then At (GSearch (GS_Val k c)) else Finished (Ret_Val 0))" by auto
    show ?thesis
    proof (cases "ll_key nd = k")
      case True
      then show ?thesis using nd LI GS_Test own by (auto simp: list_node_def intro!: loc)
    next
      case False
      then have "k < ll_key nd" using LI GS_Test nd(1) by (auto simp: list_node_def)
      from LI GS_Test obtain W where W: "g = Open (Search k) W" by (auto simp: list_op_def)
      have "list_ahead (og_mem s) w (ogl_live s) (Search k) g c" using LI GS_Test list_at_ahead by fastforce
      from slist_absent [OF sl this nd(1)] \<open>k < ll_key nd\<close> False nd own GS_Test W show ?thesis
        by (auto intro!: loc)
    qed
  next
    case (GS_Val k c)
    with ex obtain nd where nd: "og_cells s c = Some nd" "s' = s" "y = Finished (Ret_Val (ll_val nd))" by auto
    from LI GS_Val obtain W where W: "g = Open (Search k) W" by (auto simp: list_op_def)
    have "seen_present (Open (Search k) W) (ll_val nd)"
      by (rule slist_present [OF sl _ nd(1)]) (use LI GS_Val nd W obs in \<open>auto simp: list_node_def\<close>)
    then show ?thesis using nd W own GS_Val by (auto intro!: loc)
  qed
qed

lemma ogl_at_next:
  assumes sl: "slist kmin kmax (og_mem s) w (og_head s) (ogl_live s) a" and op: "list_op kmin kmax op g"
    and at: "ogl_at s w op g c" and k: "ogl_node s w c (\<lambda>x. x < op_key op)" and nd: "og_cells s c = Some nd"
  shows "ogl_at s w op g (ll_next nd)"
  using slist_at_next [OF sl at nd] k op nd by (auto simp: list_node_def list_op_def)

lemma ogl_adjacent_in:
  assumes sl: "slist kmin kmax (og_mem s) w (og_head s) (ogl_live s) a" and q: "ogl_node s w q (\<lambda>x. x < k)"
    and k: "k < kmax" and adj: "ogl_adjacent s q c"
  shows "c \<in> ogl_nodes s"
proof -
  from adj obtain nq where nq: "q \<in> ogl_nodes s" "og_cells s q = Some nq" "ll_next nq = c"
    by (auto simp: ogl_adjacent_def nm_of_def)
  then have "ll_key nq < kmax" using q k by (auto simp: list_node_def)
  from slist_next_in [OF sl nq(1,2) this] nq(3) show ?thesis by simp
qed

lemma ogl_snap_in:
  assumes "slist kmin kmax (og_mem s) w (og_head s) (ogl_live s) a" and "ogl_node s w q (\<lambda>x. x < k)"
    and "k < kmax" and "ogl_snap s ver q c"
  shows "ogl_in s ver c"
  using ogl_adjacent_in [OF assms(1-3), of c] assms(4) by (auto simp: ogl_in_def ogl_snap_def ogl_adjacent_def)

lemma ogl_insert_step:
  assumes inb: "Suc n < 2 ^ 62" and SI: "ogl_SI kmin kmax n s a w" and LI: "ogl_LI kmin kmax t s a w (At (GInsert x)) g"
    and obs: "observed map_spec a g"
    and own: "w t = ogl_own (At (GInsert x))" and ex: "ogl_insert p s x = Next s' y"
  shows "step_ok map_spec ogl_own (ogl_SI kmin kmax) (ogl_LI kmin kmax) n t s a w g s' y"
proof -
  note loc = ogl_local [OF ogl_SI_mono [OF SI]]
  from SI have sl: "slist kmin kmax (og_mem s) w (og_head s) (ogl_live s) a" and hk: "optik_held_ok (og_lock s) () w"
    unfolding ogl_SI_def by auto
  show ?thesis
  proof (cases x)
    case (GI_Version k v)
    then show ?thesis using loc ex LI own by auto
  next
    case (GI_Head k v ver)
    have "ogl_node s w (og_head s) (\<lambda>x. x < k)"
      using slist_head_node [OF sl] LI GI_Head by (auto simp: list_node_def list_op_def)
    then show ?thesis
      using loc ex LI own GI_Head slist_at_head [OF sl _ obs, of "Insert k v"] slist_head [OF sl] by (auto simp: ogl_in_def)
  next
    case (GI_Next k v ver c)
    with ex obtain nd where nd: "og_cells s c = Some nd" "s' = s" "y = At (GInsert (GI_Key k v ver c (ll_next nd)))" by auto
    then show ?thesis using LI GI_Next own ogl_at_next [OF sl, of "Insert k v" g c nd]
      by (auto simp: ogl_in_def ogl_snap_def intro!: loc)
  next
    case (GI_Key k v ver q c)
    with ex obtain nd where nd: "og_cells s c = Some nd" "s' = s"
      "y = At (GInsert (if ll_key nd < k then GI_Next k v ver c else GI_Test k v ver q c))" by auto
    have inn: "ogl_in s ver c"
      using ogl_snap_in [OF sl, of q k ver c] LI GI_Key by (auto simp: list_op_def)
    have "published (og_mem s) w c" using LI GI_Key by (auto simp: list_at_def)
    then show ?thesis using LI GI_Key own nd inn by (auto simp: list_node_def intro!: loc)
  next
    case (GI_Test k v ver q c)
    with ex obtain nd where nd: "og_cells s c = Some nd" "s' = s"
      "y = (if ll_key nd = k then Finished (Ret_Int 0) else At (GInsert (GI_Alloc k v ver q c)))" by auto
    from LI GI_Test obtain W where W: "g = Open (Insert k v) W" by (auto simp: list_op_def)
    show ?thesis
    proof (cases "ll_key nd = k")
      case True
      have "seen_present (Open (Insert k v) W) (ll_val nd)"
        by (rule slist_present [OF sl _ nd(1)]) (use LI GI_Test True W obs in auto)
      then show ?thesis using nd W own GI_Test True by (auto intro!: loc)
    next
      case False
      then show ?thesis using nd LI own GI_Test by (auto simp: list_node_def intro!: loc)
    qed
  next
    case (GI_Alloc k v ver q c)
    with ex have fr: "fresh (og_cells s) p" and s': "s' = s\<lparr>og_mem := put_cell p (allocate_ll_simple k v c) (og_mem s)\<rparr>"
      and y: "y = At (GInsert (GI_Try k v ver p q Try_Check))" by auto
    have x: "private_nodes (ogl_own y) = insert p (private_nodes (w t))" "owned (ogl_own y) \<subseteq> insert p (owned (w t))"
      using own GI_Alloc by (auto simp: y)
    note al = list_alloc [OF sl fr x, where n = "allocate_ll_simple k v c"]
    from LI GI_Alloc have q: "ogl_node s w q (\<lambda>x. x < k)" "ogl_snap s ver q c" "ogl_node s w c (\<lambda>x. k < x)"
      and op: "list_op kmin kmax (Insert k v) g" by auto
    have "ogl_snap s' ver q c"
      using q(2) al(3) al(5) [OF list_node_published [OF q(1)]] by (simp add: ogl_snap_def s' del: cells_put_cell)
    then have "ogl_new s' (w(t := ogl_own y)) k v p (ogl_snap s' ver q)"
      using effect_node [OF al(2) q(3)] by (auto simp: ogl_new_def s')
    then have "ogl_LI kmin kmax t s' a (w(t := ogl_own y)) y g"
      using effect_node [OF al(2) q(1)] op by (simp add: y s')
    then show ?thesis using ogl_aside [OF SI s' _ al(1,2,3,4,5)] own GI_Alloc y by simp
  next
    case (GI_Try k v ver new q pc)
    show ?thesis
    proof (cases pc)
      case Try_Check
      with ex GI_Try have y: "s' = s" "y = At (GInsert (if optik_is_locked ver \<or> og_lock s \<noteq> ver then GI_Free k v new
          else GI_Try k v ver new q Try_CAS))" by (auto split: if_splits)
      then show ?thesis using LI own GI_Try by (auto intro!: loc elim: ogl_new_mono)
    next
      case Try_CAS
      show ?thesis
      proof (cases "og_lock s = ver")
        case True
        with ex GI_Try Try_CAS have s': "s' = s\<lparr>og_lock := og_lock s + 1\<rparr>" and y: "y = At (GInsert (GI_Link k v new q))"
          by auto
        have free: "\<not> optik_is_locked (og_lock s)" using LI GI_Try Try_CAS True by auto
        have x: "private_nodes (ogl_own y) = private_nodes (w t)" "owned (ogl_own y) \<subseteq> owned (w t)" "() \<in> held (ogl_own y)"
          using own GI_Try by (auto simp: y)
        have "ogl_LI kmin kmax t s' a (w(t := ogl_own y)) y g"
          using LI GI_Try True free effect_node [OF list_own(2) [OF sl x(1,2)]]
          by (auto simp: s' y ogl_new_def ogl_adjacent_def ogl_snap_def)
        then show ?thesis by (rule ogl_acquire [OF SI free x s'])
      next
        case False
        with ex GI_Try Try_CAS have "s' = s" "y = At (GInsert (GI_Free k v new))" by auto
        then show ?thesis using LI own GI_Try by (auto intro!: loc elim: ogl_new_mono)
      qed
    qed
  next
    case (GI_Free k v new)
    then have ow: "w t = holding {new} {} {}" using own by simp
    from ex GI_Free have s': "s' = s\<lparr>og_mem := (og_mem s)\<lparr>released := insert new (released (og_mem s))\<rparr>\<rparr>"
      and y: "y = At (GInsert (GI_Version k v))" by (auto simp: ll_simple_defs)
    from LI GI_Free obtain c where c: "og_cells s new = Some (allocate_ll_simple k v c)" "ogl_node s w c (\<lambda>x. k < x)"
      by (auto simp: ogl_new_def)
    have "list_node (og_mem s) w (ll_next (allocate_ll_simple k v c)) (\<lambda>x. ll_key (allocate_ll_simple k v c) < x)"
      using c(2) by (simp add: ll_simple_defs)
    note dis = list_discard [OF sl _ c(1) this _ _ refl, of t "ogl_own y"]
    show ?thesis
      using dis ow LI GI_Free y
      by (intro ogl_aside [OF SI s']) (auto simp: ll_live_def)
  next
    case (GI_Link k v new q)
    then have ow: "w t = holding {new} {} {()}" using own by simp
    from LI GI_Link obtain c where c: "og_cells s new = Some (allocate_ll_simple k v c)" "ogl_adjacent s q c"
        "ogl_node s w c (\<lambda>x. k < x)" and q: "ogl_node s w q (\<lambda>x. x < k)" by (auto simp: ogl_new_def)
    from LI GI_Link obtain W where W: "g = Open (Insert k v) W" by (auto simp: list_op_def)
    from ex GI_Link obtain nd where nd: "og_cells s q = Some nd"
      and s': "s' = s\<lparr>og_mem := put_cell q (nd\<lparr>ll_next := new\<rparr>) (og_mem s)\<rparr>" and y: "y = At (GInsert (GI_Unlock Unlock_Read))"
      by auto
    from c(3) obtain nc where nc: "og_cells s c = Some nc" "k < ll_key nc" by (auto simp: list_node_def)
    have qn: "q \<in> ogl_nodes s" "ll_next nd = c" "ll_key nd < k"
      using c(2) nd q by (auto simp: ogl_adjacent_def list_node_def)
    note ln = list_link [OF sl qn(1) nd c(1), where t = t and nc = nc and x = "ogl_own y" and n' = "nd\<lparr>ll_next := new\<rparr>"
        and m' = "og_mem s'" and a' = "a(k \<mapsto> v)"]
    have pre: "new \<in> private_nodes (w t)" "ll_next (allocate_ll_simple k v c) = ll_next nd"
      "ll_key nd < ll_key (allocate_ll_simple k v c)" "og_cells s (ll_next nd) = Some nc"
      "ll_key (allocate_ll_simple k v c) < ll_key nc" "private_nodes (ogl_own y) = private_nodes (w t) - {new}"
      "owned (ogl_own y) \<subseteq> owned (w t) - {new}" "og_mem s' = put_cell q (nd\<lparr>ll_next := new\<rparr>) (og_mem s)"
      "a(k \<mapsto> v) = a(ll_key (allocate_ll_simple k v c) \<mapsto> ll_val (allocate_ll_simple k v c))"
      using ow qn nc by (auto simp: y s' ll_simple_defs)
    note ln = ln [OF pre(1-5) _ _ _ pre(6-9)]
    have "advance map_spec g' ga (a(k \<mapsto> v)) (Closed (Ret_Int 1))" if "g' = a" "ga = g" for g' ga
      using ln(6) by (auto simp: that W ll_simple_defs)
    then have adv: "advance map_spec a g (a(k \<mapsto> v)) (Closed (Ret_Int 1))" by blast
    show ?thesis
      by (rule ogl_step_ok [OF adv SI])
        (use ln(1,2,4) ow hk in \<open>auto simp: y s' intro: optik_held_keep\<close>)
  next
    case (GI_Unlock pc)
    show ?thesis
    proof (cases pc)
      case Unlock_Read
      with ex GI_Unlock have "s' = s" "y = At (GInsert (GI_Unlock (Unlock_Write (og_lock s))))" by auto
      then show ?thesis using LI own GI_Unlock Unlock_Read by (auto intro!: loc)
    next
      case (Unlock_Write z)
      with ex LI GI_Unlock have s': "s' = s\<lparr>og_lock := og_lock s + 1\<rparr>" and y: "y = Finished (Ret_Int 1)"
        and g: "g = Closed (Ret_Int 1)" by auto
      show ?thesis by (rule ogl_release [OF SI _ inb _ _ _ s']) (use own GI_Unlock in \<open>auto simp: y g\<close>)
    qed
  qed
qed

lemma ogl_remove_step:
  assumes inb: "Suc n < 2 ^ 62" and SI: "ogl_SI kmin kmax n s a w" and LI: "ogl_LI kmin kmax t s a w (At (GRemove x)) g"
    and obs: "observed map_spec a g"
    and own: "w t = ogl_own (At (GRemove x))" and ex: "ogl_remove s x = Next s' y"
  shows "step_ok map_spec ogl_own (ogl_SI kmin kmax) (ogl_LI kmin kmax) n t s a w g s' y"
proof -
  have loc: ?thesis if "s' = s" "ogl_own y = w t" "ogl_LI kmin kmax t s a w y g"
    using ogl_local [OF ogl_SI_mono [OF SI] that(2,3)] that(1) by simp
  from SI have sl: "slist kmin kmax (og_mem s) w (og_head s) (ogl_live s) a" and hk: "optik_held_ok (og_lock s) () w"
    unfolding ogl_SI_def by auto
  show ?thesis
  proof (cases x)
    case (GR_Version k)
    then show ?thesis using ex LI own by (intro loc) auto
  next
    case (GR_Head k ver)
    have "ogl_node s w (og_head s) (\<lambda>x. x < k)"
      using slist_head_node [OF sl] LI GR_Head by (auto simp: list_node_def list_op_def)
    then show ?thesis
      using ex LI own GR_Head slist_at_head [OF sl _ obs, of "Delete k"] slist_head [OF sl]
      by (intro loc) (auto simp: ogl_in_def)
  next
    case (GR_Next k ver c)
    with ex obtain nd where nd: "og_cells s c = Some nd" "s' = s" "y = At (GRemove (GR_Key k ver c (ll_next nd)))" by auto
    then show ?thesis using LI GR_Next own ogl_at_next [OF sl, of "Delete k" g c nd]
      by (intro loc) (auto simp: ogl_in_def ogl_snap_def)
  next
    case (GR_Key k ver q c)
    with ex obtain nd where nd: "og_cells s c = Some nd" "s' = s"
      "y = At (GRemove (if ll_key nd < k then GR_Next k ver c else GR_Test k ver q c))" by auto
    have inn: "ogl_in s ver c"
      using ogl_snap_in [OF sl, of q k ver c] LI GR_Key by (auto simp: list_op_def)
    have "published (og_mem s) w c" using LI GR_Key by (auto simp: list_at_def)
    then show ?thesis using LI GR_Key own nd inn by (intro loc) (auto simp: list_node_def)
  next
    case (GR_Test k ver q c)
    with ex obtain nd where nd: "og_cells s c = Some nd" "s' = s"
      "y = (if ll_key nd \<noteq> k then Finished (Ret_Val 0) else At (GRemove (GR_Try k ver q c Try_Check)))" by auto
    from LI GR_Test obtain W where W: "g = Open (Delete k) W" by (auto simp: list_op_def)
    show ?thesis
    proof (cases "ll_key nd = k")
      case True
      then show ?thesis using nd LI own GR_Test by (intro loc) (auto simp: list_node_def)
    next
      case False
      then have "k < ll_key nd" using LI GR_Test nd(1) by (auto simp: list_node_def)
      moreover have "list_ahead (og_mem s) w (ogl_live s) (Delete k) g c" using LI GR_Test list_at_ahead by fastforce
      ultimately have "seen_absent g" using slist_absent [OF sl _ nd(1), of "Delete k" g] by simp
      then show ?thesis using False nd own GR_Test W by (intro loc) auto
    qed
  next
    case (GR_Try k ver q c pc)
    show ?thesis
    proof (cases pc)
      case Try_Check
      then show ?thesis using ex LI own GR_Try by (intro loc) (auto split: if_splits)
    next
      case Try_CAS
      show ?thesis
      proof (cases "og_lock s = ver")
        case True
        with ex GR_Try Try_CAS have s': "s' = s\<lparr>og_lock := og_lock s + 1\<rparr>" and y: "y = At (GRemove (GR_CNext k q c))"
          by auto
        have free: "\<not> optik_is_locked (og_lock s)" using LI GR_Try Try_CAS True by auto
        have x: "private_nodes (ogl_own y) = private_nodes (w t)" "owned (ogl_own y) \<subseteq> owned (w t)" "() \<in> held (ogl_own y)"
          using own GR_Try by (auto simp: y)
        have "ogl_LI kmin kmax t s' a (w(t := ogl_own y)) y g"
          using LI GR_Try True free effect_node [OF list_own(2) [OF sl x(1,2)]]
          by (auto simp: s' y ogl_adjacent_def ogl_snap_def)
        then show ?thesis by (rule ogl_acquire [OF SI free x s'])
      next
        case False
        then show ?thesis using ex LI own GR_Try Try_CAS by (intro loc) auto
      qed
    qed
  next
    case (GR_CNext k q c)
    with ex obtain nd where nd: "og_cells s c = Some nd" "s' = s" "y = At (GRemove (GR_Unlink k q c (ll_next nd)))" by auto
    have "c \<in> ogl_nodes s" using ogl_adjacent_in [OF sl, of q k c] LI GR_CNext by (auto simp: list_op_def)
    then show ?thesis using LI own GR_CNext nd by (intro loc) (auto simp: ogl_adjacent_def)
  next
    case (GR_Unlink k q c d)
    then have ow: "w t = holding {} {} {()}" using own by simp
    from LI GR_Unlink have q: "ogl_node s w q (\<lambda>x. x < k)" "ogl_adjacent s q c" "ogl_adjacent s c d"
        "ogl_node s w c (\<lambda>x. x = k)" and k: "kmin < k" "k < kmax" by (auto simp: list_op_def)
    from LI GR_Unlink obtain W where W: "g = Open (Delete k) W" by (auto simp: list_op_def)
    from ex GR_Unlink obtain nd where nd: "og_cells s q = Some nd"
      and s': "s' = s\<lparr>og_mem := put_cell q (nd\<lparr>ll_next := d\<rparr>) (og_mem s)\<rparr>" and y: "y = At (GRemove (GR_Unlock c Unlock_Read))"
      by auto
    from q(4) obtain nc where nc: "og_cells s c = Some nc" "ll_key nc = k" by (auto simp: list_node_def)
    have pre: "q \<in> ogl_nodes s" "ll_next nd = c" "kmin < ll_key nc" "ll_key nc < kmax" "ll_next nc = d"
      using q(2,3) nd nc k by (auto simp: ogl_adjacent_def)
    have x: "private_nodes (ogl_own y) = private_nodes (w t)" "owned (ogl_own y) \<subseteq> insert c (owned (w t))"
      using ow by (auto simp: y)
    note rm = list_remove [OF sl pre(1) nd pre(2) nc(1) pre(3,4) _ _ _ x refl refl, where n' = "nd\<lparr>ll_next := d\<rparr>"]
    have rm: "slist kmin kmax (og_mem s') (w(t := ogl_own y)) (og_head s) (ogl_live s') (a(k := None))"
      "list_effect t (og_mem s) w (ogl_live s) a (og_mem s') (w(t := ogl_own y)) (ogl_live s') (a(k := None))"
      "a k = Some (ll_val nc)"
      using rm pre(5) nc(2) by (simp_all add: s')
    have adv: "advance map_spec a g (a(k := None)) (Closed (Ret_Val (ll_val nc)))"
      using rm(3) by (auto simp: W)
    have "list_result (og_mem s') (w(t := ogl_own y)) c (Closed (Ret_Val (ll_val nc)))"
      using effect_published [OF rm(2) list_node_published [OF q(4)]] effect_cell [OF rm(2) list_node_published [OF q(4)] nc(1)]
      by (auto simp: list_result_def)
    then show ?thesis
      using rm ow hk by (intro ogl_step_ok [OF adv SI]) (auto simp: y s' intro: optik_held_keep)
  next
    case (GR_Unlock c pc)
    show ?thesis
    proof (cases pc)
      case Unlock_Read
      then show ?thesis using ex LI own GR_Unlock by (intro loc) auto
    next
      case (Unlock_Write z)
      with ex LI GR_Unlock have s': "s' = s\<lparr>og_lock := og_lock s + 1\<rparr>" and y: "y = At (GRemove (GR_Val c))"
        and res: "list_result (og_mem s) w c g" by auto
      have x: "private_nodes (ogl_own y) = private_nodes (w t)" "owned (ogl_own y) \<subseteq> owned (w t)" "() \<notin> held (ogl_own y)"
        using own GR_Unlock by (auto simp: y)
      from res have "list_result (og_mem s') (w(t := ogl_own y)) c g"
        using effect_published [OF list_own(2) [OF sl x(1,2)]] by (auto simp: list_result_def s')
      then show ?thesis using own GR_Unlock by (intro ogl_release [OF SI _ inb x s']) (auto simp: y)
    qed
  next
    case (GR_Val c)
    then show ?thesis using ex LI own by (intro loc) (auto simp: list_result_def)
  next
    case (GR_Free c v)
    then have ow: "w t = holding {} {c} {}" using own by simp
    from ex GR_Free have s': "s' = s\<lparr>og_mem := (og_mem s)\<lparr>released := insert c (released (og_mem s))\<rparr>\<rparr>"
      and y: "y = Finished (Ret_Val v)" by (auto simp: ll_simple_defs)
    note re = list_release [OF sl _ _ _ refl, of c t "ogl_own y"]
    show ?thesis
      using re ow LI GR_Free y by (intro ogl_aside [OF SI s']) (auto simp: ll_live_def)
  qed
qed

lemma ogl_safe:
  assumes SI: "ogl_SI kmin kmax n s a w" and LI: "ogl_LI kmin kmax t s a w (At x) g" and own: "w t = ogl_own (At x)"
  shows "ogl_exec t p s x \<noteq> Fault"
proof -
  from SI have sl: "slist kmin kmax (og_mem s) w (og_head s) (ogl_live s) a" unfolding ogl_SI_def by auto
  have ow: "og_cells s q \<noteq> None \<and> q \<notin> released (og_mem s)" if "q \<in> owned (w t)" for q
    using partition_owned [OF slist_partition [OF sl] that] by blast
  have pub: "\<exists>n. og_cells s q = Some n" if "published (og_mem s) w q" for q
    using that by (rule published_cell)
  show ?thesis
  proof (cases x)
    case (GSearch z)
    then show ?thesis using LI pub by (cases z) (auto simp: list_at_def list_node_def)
  next
    case (GInsert z)
    show ?thesis
    proof (cases z)
      case (GI_Try k v ver new q pc)
      then show ?thesis using GInsert by (cases pc) (auto split: if_splits)
    next
      case (GI_Unlock pc)
      then show ?thesis using GInsert by (cases pc) auto
    qed (use GInsert LI pub own ow in \<open>auto simp: list_at_def list_node_def ll_simple_defs\<close>)
  next
    case (GRemove z)
    show ?thesis
    proof (cases z)
      case (GR_Try k ver q c pc)
      then show ?thesis using GRemove by (cases pc) (auto split: if_splits)
    next
      case (GR_Unlock c pc)
      then show ?thesis using GRemove by (cases pc) auto
    qed (use GRemove LI pub own ow in \<open>auto simp: list_at_def list_node_def list_result_def ll_simple_defs\<close>)
  qed
qed

section \<open>Correctness\<close>

lemma ogl_step:
  "Suc n < 2 ^ 62 \<Longrightarrow> ogl_SI kmin kmax n s a w \<Longrightarrow> ogl_LI kmin kmax t s a w (At x) g \<Longrightarrow> observed map_spec a g \<Longrightarrow>
   w t = ogl_own (At x) \<Longrightarrow> ogl_exec t p s x = Next s' y \<Longrightarrow>
   step_ok map_spec ogl_own (ogl_SI kmin kmax) (ogl_LI kmin kmax) n t s a w g s' y"
  using ogl_search_step ogl_insert_step ogl_remove_step by (cases x) auto

lemma ogl_call:
  assumes "ogl_start kmin kmax op = Some x"
  shows "ogl_own (At x) = ogl_own Idle"
    and "ogl_LI kmin kmax t s a w (At x) (Open op (legal map_spec op a))"
  using assms by (cases op; auto simp: ogl_start_def list_op_def split: if_splits)+

lemma ogl_SI_init:
  assumes "h \<noteq> NULL" "t \<noteq> NULL" "h \<noteq> t" "kmin < kmax"
  shows "ogl_SI kmin kmax 0 (ogl_init kmin kmax h t :: ('k::linorder, 'v::zero) ogl) Map.empty (\<lambda>_. ogl_own Idle)"
proof -
  let ?s = "ogl_init kmin kmax h t :: ('k, 'v) ogl"
  have "cells (og_mem ?s) = [h \<mapsto> initialize_ll_simple kmin 0 t, t \<mapsto> initialize_ll_simple kmax 0 NULL]"
    using assms(3) by (auto simp: ogl_init_def empty_store_def fun_eq_iff)
  note si = slist_init [OF assms(1-3) this, of kmin kmax]
  have "slist kmin kmax (og_mem ?s) (\<lambda>_. none_owned :: unit ownership) h {} Map.empty" "ogl_live ?s = {}"
    using si assms(4) by (simp_all add: ogl_init_def initialize_ll_simple_def)
  then show ?thesis
    using assms(4) by (simp add: ogl_SI_def ogl_init_def optik_held_ok_def optik_init_def
        optik_is_locked_def)
qed

interpretation optik_gl: thread_object map_spec Map.empty "ogl_start kmin kmax" ogl_exec "ogl_init kmin kmax h t"
  ogl_own "list_run_ok kmin kmax h t" "ogl_SI kmin kmax" "ogl_LI kmin kmax" for kmin kmax :: "'k::linorder" and h t
proof unfold_locales
  fix n s a w u x g p s' y
  assume "list_run_ok kmin kmax h t (Suc n)" and "ogl_SI kmin kmax n s a w" and "ogl_LI kmin kmax u s a w (At x) g"
    and "observed map_spec a g" and "w u = ogl_own (At x)" and "ogl_exec u p s x = Next s' y"
  then show "step_ok map_spec ogl_own (ogl_SI kmin kmax) (ogl_LI kmin kmax) n u s a w g s' y"
    by (intro ogl_step) (auto simp: list_run_ok_def)
qed (auto simp: list_run_ok_def intro: ogl_SI_init [simplified] ogl_SI_mono dest: ogl_call ogl_safe)

section \<open>A concrete run\<close>

text \<open>Thread 0 inserts 5 between the sentinels, under the version it read; thread 1, which read the same
  version, wants to insert 5 as well: it fails to take the lock, restarts, and finds the key.\<close>

definition ogl_demo :: "(int, int) map_op command list" where
  "ogl_demo = [Do_Call 0 (Insert 5 50), Do_Call 1 (Insert 5 51), Do_Step 0 0, Do_Step 1 0, Do_Step 0 0, Do_Step 0 0,
     Do_Step 0 0, Do_Step 0 0, Do_Step 0 3, Do_Step 1 0, Do_Step 1 0, Do_Step 1 0, Do_Step 1 0, Do_Step 1 4,
     Do_Step 0 0, Do_Step 0 0, Do_Step 0 0, Do_Step 1 0, Do_Step 1 0, Do_Step 0 0, Do_Step 0 0, Do_Return 0,
     Do_Step 1 0, Do_Step 1 0, Do_Step 1 0, Do_Step 1 0, Do_Step 1 0, Do_Return 1]"

definition ogl_demo_history :: "((int, int) map_op, int map_ret) history" where
  "ogl_demo_history = [(0, Call (Insert 5 50)), (1, Call (Insert 5 51)), (0, Return (Ret_Int 1)), (1, Return (Ret_Int 0))]"

lemma ogl_demo_run:
  "\<exists>s c. run (ogl_start 0 10) ogl_exec (ogl_init 0 10 1 2) (length ogl_demo) ogl_demo_history (s, c)
     \<and> ogl_length s = Some 1"
  unfolding ogl_demo_history_def
  by (rule replay_exhibits)
    (simp add: ogl_demo_def ogl_start_def ogl_init_def optik_init_def optik_is_locked_def OPTIK_LOCKED_def ogl_length_def
      ll_simple_defs ll_length_def ll_length_loop.simps fresh_def alloc_def put_cell_def empty_store_def CAS_val_def release_def)

section \<open>Properties\<close>

text \<open>C15: every concurrent run of the OPTIK list with a global lock, of fewer than 2^62 steps and on keys
  strictly between those of the sentinels, is linearizable with respect to the map specification,
  though \<^verbatim>\<open>search\<close> and the traversals take no lock.\<close>

theorem optik_gl_linearizable:
  assumes "run (ogl_start kmin kmax) ogl_exec (ogl_init kmin kmax h t) n hist k" and "list_run_ok kmin kmax h t n"
  shows "linearizable map_spec Map.empty hist"
  using optik_gl.linearizable [OF assms] .

theorem optik_gl_linearizable_witness: "linearizable map_spec Map.empty ogl_demo_history"
proof -
  have "list_run_ok (0::int) 10 1 2 (length ogl_demo)" by (simp add: list_run_ok_def ogl_demo_def)
  with ogl_demo_run show ?thesis using optik_gl_linearizable by blast
qed

text \<open>In every reachable state of the OPTIK list with a global lock \<^verbatim>\<open>length()\<close> terminates with the
  number of keys of the abstract map, the destructor would free exactly the linked nodes, each once and none
  that was released, if all of them came from the C library (and is undefined otherwise), at most one thread is in its critical section, and no thread is about to
  dereference a pointer that is not a node or to release a node twice.\<close>

theorem optik_gl_length_safe:
  assumes "run (ogl_start kmin kmax) ogl_exec (ogl_init kmin kmax h t) n hist (s, c)" and "list_run_ok kmin kmax h t n"
  shows "(\<exists>a. linearizes_to map_spec Map.empty hist a \<and> ogl_length s = Some (int (card (dom a))))
    \<and> ogl_destroy gc heap s = freed_or_undefined gc heap (og_mem s) (ogl_nodes s)
    \<and> (\<forall>u v. () \<in> held (ogl_own (c u)) \<longrightarrow> () \<in> held (ogl_own (c v)) \<longrightarrow> u = v)
    \<and> (\<forall>u p x. c u = At x \<longrightarrow> ogl_exec u p s x \<noteq> Fault)"
proof -
  from optik_gl.reachable_SI [OF assms] obtain a where a: "linearizes_to map_spec Map.empty hist a"
      and SI: "ogl_SI kmin kmax n s a (ogl_own \<circ> c)" by blast
  then have sl: "slist kmin kmax (og_mem s) (ogl_own \<circ> c) (og_head s) (ogl_live s) a" by (simp add: ogl_SI_def)
  have "kmin < kmax" using assms(2) by (simp add: list_run_ok_def)
  with slist_length [OF sl] have "ogl_length s = Some (int (card (dom a)))" by (simp add: ogl_length_def)
  moreover have "u = v" if "() \<in> held (ogl_own (c u))" "() \<in> held (ogl_own (c v))" for u v
    using SI that by (auto simp: ogl_SI_def optik_held_ok_def)
  ultimately show ?thesis
    using a slist_destroy [OF sl] optik_gl.no_fault [OF assms] unfolding ogl_destroy_def by blast
qed

theorem optik_gl_length_safe_witness:
  "\<exists>s c a. run (ogl_start 0 10) ogl_exec (ogl_init 0 10 1 2) (length ogl_demo) ogl_demo_history (s, c)
     \<and> linearizes_to map_spec Map.empty ogl_demo_history a \<and> ogl_length s = Some (int (card (dom a)))"
proof -
  have "list_run_ok (0::int) 10 1 2 (length ogl_demo)" by (simp add: list_run_ok_def ogl_demo_def)
  with ogl_demo_run show ?thesis using optik_gl_length_safe [where gc = False and heap = "{}"] by blast
qed

end
