(* ===== verification/Hashtable_Optik.thy ===== *)
theory Hashtable_Optik
  imports Hashtable_Buckets LinkedList_OptikGL
begin

text \<open>
  The hash table \<^verbatim>\<open>src/algorithms/hashtable_optik.h\<close>: buckets are OPTIK lists with a global lock (one
  lock per bucket). The buckets are separate lists, each in a memory of its own; \<open>h i\<close> and \<open>t i\<close> are
  the addresses of the sentinels of bucket \<open>i\<close>, and \<open>heap i\<close> the nodes of it that the C library allocated.
\<close>

section \<open>The code\<close>

type_synonym ('k, 'v) hashtable_optik = "('k, 'v) ogl hashtable"

definition hashtable_optik_init :: "32 word \<Rightarrow> 'k \<Rightarrow> 'k \<Rightarrow> (nat \<Rightarrow> ptr) \<Rightarrow> (nat \<Rightarrow> ptr) \<Rightarrow> ('k, 'v::zero) hashtable_optik" where
  "hashtable_optik_init maxlen kmin kmax h t = ht_init maxlen (\<lambda>i. ogl_init kmin kmax (h i) (t i))"

definition hashtable_optik_start :: "'k::linorder \<Rightarrow> 'k \<Rightarrow> ('k, 'v) map_op \<Rightarrow> (('k, 'v) map_op, ('k, 'v) ogl_pc) ht_pc option" where
  "hashtable_optik_start kmin kmax = ht_start (ogl_start kmin kmax)"

definition hashtable_optik_exec :: "('k::linorder \<Rightarrow> 32 word) \<Rightarrow>
    (('k, 'v::zero) hashtable_optik, (('k, 'v) map_op, ('k, 'v) ogl_pc) ht_pc, 'v map_ret) exec" where
  "hashtable_optik_exec hasher = ht_exec hasher ogl_exec"

definition hashtable_optik_length :: "('k, 'v) hashtable_optik \<Rightarrow> int option" where
  "hashtable_optik_length = ht_length ogl_length"

definition hashtable_optik_destroy :: "bool \<Rightarrow> (nat \<Rightarrow> ptr set) \<Rightarrow> ('k, 'v) hashtable_optik \<Rightarrow> ('k, 'v) ll_simple store list option" where
  "hashtable_optik_destroy gc heap = ht_destroy (\<lambda>i. ogl_destroy gc (heap i))"

section \<open>Correctness\<close>

text \<open>A list counts its keys.\<close>

lemma ogl_counts:
  assumes "list_run_ok kmin kmax h t n" and "ogl_SI kmin kmax n s a w"
  shows "finite (dom a) \<and> ogl_length s = Some (int (card (dom a)))"
proof -
  from assms(2) have sl: "slist kmin kmax (og_mem s) w (og_head s) (ogl_live s) a" by (simp add: ogl_SI_def)
  show ?thesis using slist_finite [OF sl] slist_length [OF sl] assms(1) by (simp add: ogl_length_def list_run_ok_def)
qed

interpretation hashtable_optik: counting_table map_spec maxlen hasher "ogl_start kmin kmax" ogl_exec
  "\<lambda>i. ogl_init kmin kmax (h i) (t i)" ogl_own "\<lambda>i. list_run_ok kmin kmax (h i) (t i)"
  "ogl_SI kmin kmax" "ogl_LI kmin kmax" ogl_length
  for maxlen and hasher :: "'k::linorder \<Rightarrow> 32 word" and kmin kmax h t
  by unfold_locales (rule local_map_spec | rule ogl_counts, assumption+)+

text \<open>The runs considered: a positive number of buckets, and for each of them the conditions of a list.\<close>

definition table_run_ok :: "32 word \<Rightarrow> 'k::linorder \<Rightarrow> 'k \<Rightarrow> (nat \<Rightarrow> ptr) \<Rightarrow> (nat \<Rightarrow> ptr) \<Rightarrow> nat \<Rightarrow> bool" where
  "table_run_ok maxlen kmin kmax h t n \<longleftrightarrow> 0 < sint maxlen \<and> (\<forall>i<nat (sint maxlen). list_run_ok kmin kmax (h i) (t i) n)"

lemmas hashtable_optik_defs = hashtable_optik_start_def hashtable_optik_exec_def hashtable_optik_init_def
  hashtable_optik_length_def

section \<open>A concrete run\<close>

text \<open>Two buckets, keys hashed by truncation: thread 0 inserts 5 and thread 1 inserts 8, in different
  buckets.\<close>

definition hashtable_optik_demo :: "(64 word, int) map_op command list" where
  "hashtable_optik_demo = [Do_Call 0 (Insert 5 50), Do_Call 1 (Insert 8 80),
     Do_Step 0 0, Do_Step 1 0, Do_Step 0 0, Do_Step 1 0, Do_Step 0 0, Do_Step 1 0, Do_Step 0 0, Do_Step 1 0, Do_Step 0 0, Do_Step 1 0, Do_Step 0 0, Do_Step 1 0,
     Do_Step 0 3, Do_Step 1 3, Do_Step 0 0, Do_Step 1 0, Do_Step 0 0, Do_Step 1 0, Do_Step 0 0, Do_Step 1 0, Do_Step 0 0, Do_Step 1 0, Do_Step 0 0, Do_Step 1 0,
     Do_Return 0, Do_Return 1]"

definition hashtable_optik_demo_history :: "((64 word, int) map_op, int map_ret) history" where
  "hashtable_optik_demo_history =
     [(0, Call (Insert 5 50)), (1, Call (Insert 8 80)), (0, Return (Ret_Int 1)), (1, Return (Ret_Int 1))]"

lemma up2: "[0..<2] = [0, 1::nat]"
  by (simp add: numeral_2_eq_2)

lemma hashtable_optik_demo_run:
  "\<exists>s c. run (hashtable_optik_start 0 10) (hashtable_optik_exec key_hasher) (hashtable_optik_init 2 0 10 (\<lambda>_. 1) (\<lambda>_. 2))
       (length hashtable_optik_demo) hashtable_optik_demo_history (s, c)
     \<and> hashtable_optik_length s = Some 2"
  unfolding hashtable_optik_demo_history_def
  by (rule replay_exhibits)
    (simp add: hashtable_optik_demo_def hashtable_optik_start_def hashtable_optik_exec_def hashtable_optik_init_def
      hashtable_optik_length_def ht_start_def ht_init_def ht_addr_def key_hasher_def ht_length_def
      ogl_start_def ogl_init_def optik_init_def optik_is_locked_def OPTIK_LOCKED_def ogl_length_def
      ll_simple_defs ll_length_def ll_length_loop.simps fresh_def alloc_def put_cell_def empty_store_def CAS_val_def
      release_def up2)

section \<open>Properties\<close>

text \<open>C22: every concurrent run of the hash table of OPTIK lists, for any number of buckets, any hash
  function and keys between the sentinels of the buckets, is linearizable with respect to the map
  specification.\<close>

theorem hashtable_optik_linearizable:
  assumes "run (hashtable_optik_start kmin kmax) (hashtable_optik_exec hasher) (hashtable_optik_init maxlen kmin kmax h t) n hist k"
    and "table_run_ok maxlen kmin kmax h t n"
  shows "linearizable map_spec Map.empty hist"
  by (rule hashtable_optik.table.linearizable [unfolded table_spec_map, OF assms(1) [unfolded hashtable_optik_defs]])
    (use assms(2) in \<open>simp add: hashtable_optik.table_inb_def table_run_ok_def\<close>)

lemma hashtable_optik_demo_ok: "table_run_ok 2 (0 :: 64 word) 10 (\<lambda>_. 1) (\<lambda>_. 2) (length hashtable_optik_demo)"
  by (simp add: table_run_ok_def list_run_ok_def hashtable_optik_demo_def)

theorem hashtable_optik_linearizable_witness: "linearizable map_spec Map.empty hashtable_optik_demo_history"
  using hashtable_optik_demo_run hashtable_optik_linearizable [OF _ hashtable_optik_demo_ok] by blast

text \<open>In every reachable state of the hash table of OPTIK lists \<^verbatim>\<open>length()\<close>, which adds up the
  lengths of the buckets, terminates with the number of keys of the abstract map, and no thread is about
  to index outside of the bucket array, to dereference a pointer that is not a node, or to release a
  node twice.\<close>

theorem hashtable_optik_length_safe:
  assumes "run (hashtable_optik_start kmin kmax) (hashtable_optik_exec hasher) (hashtable_optik_init maxlen kmin kmax h t) n hist (s, c)"
    and "table_run_ok maxlen kmin kmax h t n"
  shows "(\<exists>a. linearizes_to map_spec Map.empty hist a \<and> hashtable_optik_length s = Some (int (card (dom a))))
    \<and> (\<forall>u p x. c u = At x \<longrightarrow> hashtable_optik_exec hasher u p s x \<noteq> Fault)"
proof -
  note r = assms(1) [unfolded hashtable_optik_defs]
  have i: "hashtable_optik.table_inb TYPE('a) maxlen kmin kmax h t n"
    using assms(2) by (simp add: hashtable_optik.table_inb_def table_run_ok_def)
  from hashtable_optik.table.reachable_SI [unfolded table_spec_map, OF r i] hashtable_optik.table_length [OF _ i]
    hashtable_optik.table.no_fault [OF r i]
  show ?thesis unfolding hashtable_optik_defs by blast
qed

theorem hashtable_optik_length_safe_witness:
  "\<exists>s c a. run (hashtable_optik_start 0 10) (hashtable_optik_exec key_hasher) (hashtable_optik_init 2 0 10 (\<lambda>_. 1) (\<lambda>_. 2))
       (length hashtable_optik_demo) hashtable_optik_demo_history (s, c)
     \<and> linearizes_to map_spec Map.empty hashtable_optik_demo_history a \<and> hashtable_optik_length s = Some (int (card (dom a)))"
  using hashtable_optik_demo_run hashtable_optik_length_safe [OF _ hashtable_optik_demo_ok] by blast

end
