(* ===== verification/LinkedList_Seq.thy ===== *)
theory LinkedList_Seq
  imports List_Steps
begin

text \<open>
  The sequential sorted list, \<^verbatim>\<open>src/algorithms/linkedlist_seq.h\<close>, as functions on the heap: \<open>None\<close> is an
  access to an address that holds no node (or a node released before), and the loops are partial
  functions, so that a result says that they end. The list implements the map specification, and
  serves as the reference for the concurrent ones. The destructor is not modelled: it declares \<^verbatim>\<open>next\<close> as a
  node, not as a pointer, so that it does not compile.
\<close>

section \<open>The code\<close>

record ('k, 'v) lseq =
  lq_head :: ptr
  lq_mem :: "('k, 'v) ll_simple store"

definition lseq_init :: "'k \<Rightarrow> 'k \<Rightarrow> ptr \<Rightarrow> ptr \<Rightarrow> ('k, 'v::zero) lseq" where
  "lseq_init kmin kmax h t = \<lparr>lq_head = h,
     lq_mem = put_cell h (initialize_ll_simple kmin 0 t) (put_cell t (initialize_ll_simple kmax 0 NULL) empty_store)\<rparr>"

text \<open>The loop \<^verbatim>\<open>while (next->key < key) { curr = next; next = curr->next; }\<close>, the same in all operations.\<close>

partial_function (option) lseq_find ::
    "(ptr \<Rightarrow> ('k::linorder, 'v) ll_simple option) \<Rightarrow> 'k \<Rightarrow> ptr \<Rightarrow> ptr \<Rightarrow> (ptr \<times> ('k, 'v) ll_simple \<times> ptr) option" where
  "lseq_find h key cur nxt =
     (case h nxt of
        None \<Rightarrow> None
      | Some n \<Rightarrow> if ll_key n < key then lseq_find h key nxt (ll_next n) else Some (cur, n, nxt))"

definition lseq_search :: "('k::linorder, 'v::zero) lseq \<Rightarrow> 'k \<Rightarrow> 'v option" where
  "lseq_search s key = do {
     hd \<leftarrow> cells (lq_mem s) (lq_head s);
     (cur, n, nxt) \<leftarrow> lseq_find (cells (lq_mem s)) key (lq_head s) (ll_next hd);
     Some (if key = ll_key n then ll_val n else 0) }"

text \<open>\<open>p\<close> is the address the allocation returns.\<close>

definition lseq_insert :: "ptr \<Rightarrow> ('k::linorder, 'v::zero) lseq \<Rightarrow> 'k \<Rightarrow> 'v \<Rightarrow> (('k, 'v) lseq \<times> int) option" where
  "lseq_insert p s key val = do {
     hd \<leftarrow> cells (lq_mem s) (lq_head s);
     (cur, n, nxt) \<leftarrow> lseq_find (cells (lq_mem s)) key (lq_head s) (ll_next hd);
     if key = ll_key n then Some (s, 0)
     else do {
       m \<leftarrow> Some (put_cell p (allocate_ll_simple key val nxt) (lq_mem s));
       nc \<leftarrow> cells m cur;
       Some (s\<lparr>lq_mem := put_cell cur (nc\<lparr>ll_next := p\<rparr>) m\<rparr>, 1) } }"

definition lseq_remove :: "('k::linorder, 'v::zero) lseq \<Rightarrow> 'k \<Rightarrow> (('k, 'v) lseq \<times> 'v) option" where
  "lseq_remove s key = do {
     hd \<leftarrow> cells (lq_mem s) (lq_head s);
     (cur, n, nxt) \<leftarrow> lseq_find (cells (lq_mem s)) key (lq_head s) (ll_next hd);
     if key = ll_key n then do {
       nc \<leftarrow> cells (lq_mem s) cur;
       let m = put_cell cur (nc\<lparr>ll_next := ll_next n\<rparr>) (lq_mem s);
       if nxt \<in> released m then None
       else Some (s\<lparr>lq_mem := m\<lparr>released := insert nxt (released m)\<rparr>\<rparr>, ll_val n) }
     else Some (s, 0) }"

definition lseq_length :: "('k, 'v) lseq \<Rightarrow> int option" where
  "lseq_length s = ll_length (cells (lq_mem s)) (lq_head s)"

text \<open>One operation, and a sequence of them with the addresses their allocations return.\<close>

fun lseq_op :: "ptr \<Rightarrow> ('k::linorder, 'v::zero) lseq \<Rightarrow> ('k, 'v) map_op \<Rightarrow> (('k, 'v) lseq \<times> 'v map_ret) option" where
  "lseq_op p s (Search k) = map_option (\<lambda>v. (s, Ret_Val v)) (lseq_search s k)"
| "lseq_op p s (Insert k v) = map_option (map_prod id Ret_Int) (lseq_insert p s k v)"
| "lseq_op p s (Delete k) = map_option (map_prod id Ret_Val) (lseq_remove s k)"

fun lseq_ops :: "('k::linorder, 'v::zero) lseq \<Rightarrow> (('k, 'v) map_op \<times> ptr) list \<Rightarrow> (('k, 'v) lseq \<times> 'v map_ret list) option" where
  "lseq_ops s [] = Some (s, [])"
| "lseq_ops s ((op, p) # ops) = do {
     (s', r) \<leftarrow> lseq_op p s op;
     (s'', rs) \<leftarrow> lseq_ops s' ops;
     Some (s'', r # rs) }"

fun spec_ops :: "('k \<rightharpoonup> 'v::zero) \<Rightarrow> ('k, 'v) map_op list \<Rightarrow> ('k \<rightharpoonup> 'v) \<times> 'v map_ret list" where
  "spec_ops a [] = (a, [])"
| "spec_ops a (op # ops) = (let (a', r) = map_spec op a; (a'', rs) = spec_ops a' ops in (a'', r # rs))"

section \<open>The traversal\<close>

abbreviation nobody :: "tid \<Rightarrow> unit ownership" where "nobody \<equiv> \<lambda>_. none_owned"

definition lseq_ok :: "'k::linorder \<Rightarrow> 'k \<Rightarrow> ('k, 'v) lseq \<Rightarrow> ('k \<rightharpoonup> 'v) \<Rightarrow> bool" where
  "lseq_ok kmin kmax s a \<longleftrightarrow> slist kmin kmax (lq_mem s) nobody (lq_head s) (ll_live (lq_mem s) (lq_head s)) a"

lemma lseq_find_path:
  assumes "path h ll_next p (p # ps) NULL" and "h p = Some n" and "ll_key n < k"
    and "\<exists>q \<in> set ps. \<exists>nq. h q = Some nq \<and> k \<le> ll_key nq"
  shows "\<exists>q nq nc. lseq_find h k p (ll_next n) = Some (q, nc, ll_next nq) \<and> q \<in> set (p # ps) \<and> h q = Some nq \<and>
    ll_key nq < k \<and> h (ll_next nq) = Some nc \<and> k \<le> ll_key nc"
  using assms
proof (induction ps arbitrary: p n)
  case (Cons x xs)
  from Cons.prems(1,2) obtain nx where x: "ll_next n = x" "h x = Some nx" "path h ll_next x (x # xs) NULL" by auto
  show ?case
  proof (cases "ll_key nx < k")
    case True
    have "\<exists>q \<in> set xs. \<exists>nq. h q = Some nq \<and> k \<le> ll_key nq" using Cons.prems(4) x(2) True by auto
    from Cons.IH [OF x(3,2) True this] show ?thesis
      using x True by (subst lseq_find.simps) auto
  next
    case False
    then show ?thesis using Cons.prems(2,3) x
      by (subst lseq_find.simps) (auto intro!: exI [of _ p] exI [of _ n])
  qed
qed simp

lemma lseq_find_ok:
  assumes ok: "lseq_ok kmin kmax s a" and k: "kmin < k" "k < kmax"
  shows "\<exists>hd q nq nc. cells (lq_mem s) (lq_head s) = Some hd \<and>
    lseq_find (cells (lq_mem s)) k (lq_head s) (ll_next hd) = Some (q, nc, ll_next nq) \<and>
    q \<in> lnodes (lq_mem s) (lq_head s) \<and> cells (lq_mem s) q = Some nq \<and> ll_key nq < k \<and>
    cells (lq_mem s) (ll_next nq) = Some nc \<and> k \<le> ll_key nc"
proof -
  from ok obtain ps tail where sl: "sorted_list kmin kmax (lq_mem s) nobody (lq_head s) ps tail (ll_live (lq_mem s) (lq_head s)) a"
    by (auto simp: lseq_ok_def slist_def)
  from sl_head [OF sl] obtain hd where hd: "cells (lq_mem s) (lq_head s) = Some hd" "ll_key hd = kmin" by blast
  from sl sl_head_in [OF sl] sl_path [OF sl] obtain qs where ps: "ps = lq_head s # qs"
    by (cases ps) (auto simp: sorted_list_def)
  from sl obtain nt where nt: "cells (lq_mem s) tail = Some nt" "ll_key nt = kmax" by (auto simp: sorted_list_def)
  have "tail \<in> set ps" using sl by (auto simp: sorted_list_def)
  moreover have "tail \<noteq> lq_head s" using hd nt k by auto
  ultimately have "\<exists>q \<in> set qs. \<exists>nq. cells (lq_mem s) q = Some nq \<and> k \<le> ll_key nq"
    using nt k by (intro bexI [of _ tail]) (auto simp: ps)
  from lseq_find_path [OF sl_path [OF sl, unfolded ps] hd(1) _ this] hd k
  show ?thesis using hd(1) sl_nodes_from [OF sl] ps by auto
qed

section \<open>The operations\<close>

lemma lseq_search_ok:
  assumes ok: "lseq_ok kmin kmax s a" and k: "kmin < k" "k < kmax"
  shows "lseq_search s k = Some (val_or_zero (a k))"
proof -
  from lseq_find_ok [OF assms] obtain hd q nq nc where f: "cells (lq_mem s) (lq_head s) = Some hd"
    "lseq_find (cells (lq_mem s)) k (lq_head s) (ll_next hd) = Some (q, nc, ll_next nq)"
    "q \<in> lnodes (lq_mem s) (lq_head s)" "cells (lq_mem s) q = Some nq" "ll_key nq < k"
    "cells (lq_mem s) (ll_next nq) = Some nc" "k \<le> ll_key nc" by blast
  have sl: "slist kmin kmax (lq_mem s) nobody (lq_head s) (ll_live (lq_mem s) (lq_head s)) a"
    using ok by (simp add: lseq_ok_def)
  show ?thesis
  proof (cases "ll_key nc = k")
    case True
    have "ll_key nq < kmax" using f(5) k by simp
    from slist_next_in [OF sl f(3,4) this] have "ll_next nq \<in> ll_live (lq_mem s) (lq_head s)"
      using slist_plain_live [OF sl _ f(6)] True k by simp
    from slist_present_now [OF sl this f(6)] True f show ?thesis by (simp add: lseq_search_def)
  next
    case False
    from slist_absent_now [OF sl f(3,4,6,5)] f(7) False have "a k = None" by simp
    with False f show ?thesis by (simp add: lseq_search_def)
  qed
qed

lemma lseq_insert_ok:
  assumes ok: "lseq_ok kmin kmax s a" and k: "kmin < k" "k < kmax" and p: "fresh (cells (lq_mem s)) p"
  shows "\<exists>s'. lseq_insert p s k v = Some (s', if a k = None then 1 else 0) \<and>
    lseq_ok kmin kmax s' (if a k = None then a(k \<mapsto> v) else a)"
proof -
  from lseq_find_ok [OF ok k] obtain hd q nq nc where f: "cells (lq_mem s) (lq_head s) = Some hd"
    "lseq_find (cells (lq_mem s)) k (lq_head s) (ll_next hd) = Some (q, nc, ll_next nq)"
    "q \<in> lnodes (lq_mem s) (lq_head s)" "cells (lq_mem s) q = Some nq" "ll_key nq < k"
    "cells (lq_mem s) (ll_next nq) = Some nc" "k \<le> ll_key nc" by blast
  have sl: "slist kmin kmax (lq_mem s) nobody (lq_head s) (ll_live (lq_mem s) (lq_head s)) a"
    using ok by (simp add: lseq_ok_def)
  show ?thesis
  proof (cases "ll_key nc = k")
    case True
    have "ll_key nq < kmax" using f(5) k by simp
    from slist_next_in [OF sl f(3,4) this] have "ll_next nq \<in> ll_live (lq_mem s) (lq_head s)"
      using slist_plain_live [OF sl _ f(6)] True k by simp
    from slist_present_now [OF sl this f(6)] True f ok show ?thesis by (simp add: lseq_insert_def)
  next
    case False
    let ?m = "put_cell p (allocate_ll_simple k v (ll_next nq)) (lq_mem s)" and ?w = "nobody(0 := holding {p} {} {})"
    note al = list_alloc [where x = "holding {p} {} {}" and t = 0 and n = "allocate_ll_simple k v (ll_next nq)", OF sl p]
    have sl1: "slist kmin kmax ?m ?w (lq_head s) (ll_live (lq_mem s) (lq_head s)) a"
      and nodes: "lnodes ?m (lq_head s) = lnodes (lq_mem s) (lq_head s)" "ll_live ?m (lq_head s) = ll_live (lq_mem s) (lq_head s)"
      using al by simp_all
    have qp: "q \<noteq> p" "ll_next nq \<noteq> p" using f(4,6) p by (auto simp: fresh_def)
    have new: "cells ?m p = Some (allocate_ll_simple k v (ll_next nq))" by simp
    have pre: "q \<in> lnodes ?m (lq_head s)" "cells ?m q = Some nq" "p \<in> private_nodes (?w 0)"
      "ll_next (allocate_ll_simple k v (ll_next nq)) = ll_next nq" "ll_key nq < ll_key (allocate_ll_simple k v (ll_next nq))"
      "cells ?m (ll_next nq) = Some nc" "ll_key (allocate_ll_simple k v (ll_next nq)) < ll_key nc"
      using f qp nodes False by (simp_all add: ll_simple_defs)
    note ln = list_link [where t = 0 and x = none_owned and n' = "nq\<lparr>ll_next := p\<rparr>", OF sl1 pre(1,2) new pre(3-7)]
    let ?s = "s\<lparr>lq_mem := put_cell q (nq\<lparr>ll_next := p\<rparr>) ?m\<rparr>"
    have w: "?w(0 := none_owned) = nobody" by auto
    let ?m2 = "put_cell q (nq\<lparr>ll_next := p\<rparr>) ?m"
    have "slist kmin kmax ?m2 (?w(0 := none_owned)) (lq_head s) (insert p (ll_live ?m (lq_head s))) (a(k \<mapsto> v))"
      unfolding nodes(2) by (rule ln(1)) (simp_all add: ll_simple_defs)
    then have "slist kmin kmax ?m2 nobody (lq_head s) (insert p (ll_live ?m (lq_head s))) (a(k \<mapsto> v))" by (simp only: w)
    moreover have "ll_live ?m2 (lq_head s) = insert p (ll_live ?m (lq_head s))"
      by (rule ln(4)) (simp_all add: ll_simple_defs)
    ultimately have "lseq_ok kmin kmax ?s (a(k \<mapsto> v))" by (simp add: lseq_ok_def)
    moreover have "a k = None" using ln(6) by (simp add: ll_simple_defs)
    moreover have "lseq_insert p s k v = Some (?s, 1)"
      using f qp False by (simp add: lseq_insert_def)
    ultimately show ?thesis by simp
  qed
qed

lemma lseq_remove_ok:
  assumes ok: "lseq_ok kmin kmax s a" and k: "kmin < k" "k < kmax"
  shows "\<exists>s'. lseq_remove s k = Some (s', val_or_zero (a k)) \<and> lseq_ok kmin kmax s' (a(k := None))"
proof -
  from lseq_find_ok [OF ok k] obtain hd q nq nc where f: "cells (lq_mem s) (lq_head s) = Some hd"
    "lseq_find (cells (lq_mem s)) k (lq_head s) (ll_next hd) = Some (q, nc, ll_next nq)"
    "q \<in> lnodes (lq_mem s) (lq_head s)" "cells (lq_mem s) q = Some nq" "ll_key nq < k"
    "cells (lq_mem s) (ll_next nq) = Some nc" "k \<le> ll_key nc" by blast
  have sl: "slist kmin kmax (lq_mem s) nobody (lq_head s) (ll_live (lq_mem s) (lq_head s)) a"
    using ok by (simp add: lseq_ok_def)
  show ?thesis
  proof (cases "ll_key nc = k")
    case True
    let ?c = "ll_next nq" and ?m = "put_cell q (nq\<lparr>ll_next := ll_next nc\<rparr>) (lq_mem s)"
    let ?w = "nobody(0 := holding {} {?c} {})"
    have pre: "ll_next nq = ?c" "kmin < ll_key nc" "ll_key nc < kmax" using True k by simp_all
    note rm = list_remove [where x = "holding {} {?c} {}" and t = 0 and n' = "nq\<lparr>ll_next := ll_next nc\<rparr>",
        OF sl f(3,4) pre(1) f(6) pre(2,3) _ _ _ _ _ refl refl]
    have sl1: "slist kmin kmax ?m ?w (lq_head s) (ll_live ?m (lq_head s)) (a(k := None))" and ak: "a k = Some (ll_val nc)"
      using rm True by simp_all
    let ?m' = "?m\<lparr>released := insert ?c (released ?m)\<rparr>" and ?s = "s\<lparr>lq_mem := ?m\<lparr>released := insert ?c (released ?m)\<rparr>\<rparr>"
    note re = list_release [where p = ?c and t = 0 and x = none_owned and m' = ?m', OF sl1]
    have "?w(0 := none_owned) = nobody" by auto
    moreover have "slist kmin kmax ?m' (?w(0 := none_owned)) (lq_head s) (ll_live ?m (lq_head s)) (a(k := None))"
      by (rule re(1)) simp_all
    ultimately have "slist kmin kmax ?m' nobody (lq_head s) (ll_live ?m (lq_head s)) (a(k := None))" by (simp only:)
    then have "lseq_ok kmin kmax ?s (a(k := None))" by (simp add: lseq_ok_def ll_live_def)
    moreover have "?c \<notin> released ?m"
      using partition_live [OF slist_partition [OF sl], of ?c] slist_next_in [OF sl f(3,4)] f(5) k by simp
    then have "lseq_remove s k = Some (?s, ll_val nc)" using f True by (simp add: lseq_remove_def Let_def)
    ultimately show ?thesis using ak by simp
  next
    case False
    from slist_absent_now [OF sl f(3,4,6,5)] f(7) False have "a k = None" by simp
    moreover from this have "a(k := None) = a" by auto
    ultimately show ?thesis using False f ok by (simp add: lseq_remove_def)
  qed
qed

lemma lseq_init_ok:
  fixes kmin :: "'k::linorder"
  assumes "h \<noteq> NULL" "t \<noteq> NULL" "h \<noteq> t" "kmin < kmax"
  shows "lseq_ok kmin kmax (lseq_init kmin kmax h t :: ('k, 'v::zero) lseq) Map.empty"
proof -
  let ?s = "lseq_init kmin kmax h t :: ('k, 'v) lseq"
  have "cells (lq_mem ?s) = [h \<mapsto> initialize_ll_simple kmin 0 t, t \<mapsto> initialize_ll_simple kmax 0 NULL]"
    using assms(3) by (auto simp: lseq_init_def empty_store_def fun_eq_iff)
  note si = slist_init [OF assms(1-3) this, of kmin kmax]
  have "slist kmin kmax (lq_mem ?s) nobody h {} Map.empty" "ll_live (lq_mem ?s) h = {}"
    using si assms(4) by (simp_all add: lseq_init_def initialize_ll_simple_def)
  then show ?thesis by (simp add: lseq_ok_def lseq_init_def)
qed

lemma lseq_op_cells:
  assumes "lseq_op p s op = Some (s', r)" and "cells (lq_mem s') q \<noteq> None"
  shows "cells (lq_mem s) q \<noteq> None \<or> q = p"
  using assms
  by (cases op) (auto simp: lseq_insert_def lseq_remove_def Let_def split: Option.bind_splits if_splits prod.splits)

lemma lseq_op_ok:
  assumes "lseq_ok kmin kmax s a" and "kmin < op_key op" "op_key op < kmax" and "fresh (cells (lq_mem s)) p"
  shows "\<exists>s' r. lseq_op p s op = Some (s', r) \<and> (\<exists>a'. map_spec op a = (a', r) \<and> lseq_ok kmin kmax s' a')"
proof (cases op)
  case (Search k)
  then show ?thesis using lseq_search_ok [OF assms(1), of k] assms(1,2,3) by simp
next
  case (Insert k v)
  then show ?thesis using lseq_insert_ok [OF assms(1) _ _ assms(4), of k v] assms(2,3) by (cases "a k") auto
next
  case (Delete k)
  then have "lseq_ok kmin kmax s' (a(k := None)) \<Longrightarrow> a k = None \<Longrightarrow> lseq_ok kmin kmax s' a" for s'
    by (metis fun_upd_idem_iff)
  then show ?thesis using Delete lseq_remove_ok [OF assms(1), of k] assms(2,3) by (cases "a k") auto
qed

lemma lseq_ops_ok:
  assumes "lseq_ok kmin kmax s a" and "\<forall>(op, p) \<in> set ops. kmin < op_key op \<and> op_key op < kmax \<and> fresh (cells (lq_mem s)) p"
    and "distinct (map snd ops)"
  shows "\<exists>s' rs. lseq_ops s ops = Some (s', rs) \<and>
    (\<exists>a'. spec_ops a (map fst ops) = (a', rs) \<and> lseq_ok kmin kmax s' a')"
  using assms
proof (induction ops arbitrary: s a)
  case (Cons x ops)
  obtain op p where x: "x = (op, p)" by force
  from Cons.prems(2) x have key: "kmin < op_key op" "op_key op < kmax" and fr: "fresh (cells (lq_mem s)) p" by auto
  from lseq_op_ok [OF Cons.prems(1) key fr] obtain s' r a' where
    one: "lseq_op p s op = Some (s', r)" "map_spec op a = (a', r)" "lseq_ok kmin kmax s' a'" by blast
  have "fresh (cells (lq_mem s')) q" if "(op', q) \<in> set ops" for op' q
  proof -
    have "q \<noteq> p" using Cons.prems(3) that by (force simp: x)
    moreover have "fresh (cells (lq_mem s)) q" using Cons.prems(2) that by fastforce
    ultimately show ?thesis using lseq_op_cells [OF one(1), of q] unfolding fresh_def by blast
  qed
  then have "\<forall>(op, p) \<in> set ops. kmin < op_key op \<and> op_key op < kmax \<and> fresh (cells (lq_mem s')) p"
    using Cons.prems(2) by fastforce
  from Cons.IH [OF one(3) this] Cons.prems(3) x one show ?case by auto
qed simp

section \<open>Properties\<close>

text \<open>C19: every operation of the sequential list on a well-formed list ends without a bad access, answers
  as the map specification does, and leaves a well-formed list that represents the specified map.\<close>

theorem lseq_refines_map:
  assumes "lseq_ok kmin kmax s a" and "kmin < op_key op" "op_key op < kmax" and "fresh (cells (lq_mem s)) p"
  shows "\<exists>s' r. lseq_op p s op = Some (s', r) \<and> (\<exists>a'. map_spec op a = (a', r) \<and> lseq_ok kmin kmax s' a')"
  by (rule lseq_op_ok [OF assms])

lemma lseq_demo_init: "lseq_ok (0::int) 10 (lseq_init 0 10 1 2 :: (int, int) lseq) Map.empty"
  by (rule lseq_init_ok) simp_all

theorem lseq_refines_map_witness:
  "\<exists>s' a'. lseq_op 3 (lseq_init 0 10 1 2) (Insert 5 50) = Some (s', Ret_Int 1) \<and>
     a' = [5 \<mapsto> 50] \<and> lseq_ok (0::int) 10 s' (a' :: int \<rightharpoonup> int)"
proof -
  have "(0::int) < op_key (Insert 5 (50::int))" "op_key (Insert (5::int) (50::int)) < 10"
    "fresh (cells (lq_mem (lseq_init (0::int) 10 1 2 :: (int, int) lseq))) 3"
    by (simp_all add: fresh_def lseq_init_def)
  from lseq_refines_map [OF lseq_demo_init this] show ?thesis by auto
qed

text \<open>C20: a whole program of operations, from the constructor on, ends without a bad access and returns
  exactly the answers of the map specification.\<close>

theorem lseq_program_correct:
  assumes "h \<noteq> NULL" "t \<noteq> NULL" "h \<noteq> t" "kmin < kmax"
    and "\<forall>(op, p) \<in> set ops. kmin < op_key op \<and> op_key op < kmax \<and> p \<notin> {NULL, h, t}" and "distinct (map snd ops)"
  shows "\<exists>s'. lseq_ops (lseq_init kmin kmax h t) ops = Some (s', snd (spec_ops Map.empty (map fst ops)))"
proof -
  have "\<forall>(op, p) \<in> set ops. kmin < op_key op \<and> op_key op < kmax \<and>
      fresh (cells (lq_mem (lseq_init kmin kmax h t))) p"
    using assms(5) by (auto simp: fresh_def lseq_init_def)
  from lseq_ops_ok [OF lseq_init_ok [OF assms(1-4)] this assms(6)] show ?thesis by auto
qed

theorem lseq_program_correct_witness:
  "\<exists>s'. lseq_ops (lseq_init 0 10 1 2) [(Insert 5 50, 3), (Insert 5 51, 4), (Delete 5, 5), (Search 5, 6)]
     = Some (s' :: (int, int) lseq, [Ret_Int 1, Ret_Int 0, Ret_Val 50, Ret_Val 0])"
  using lseq_program_correct [of 1 2 "0::int" 10 "[(Insert 5 (50::int), 3), (Insert 5 51, 4), (Delete 5, 5), (Search 5, 6)]"]
  by simp

text \<open>C21: an inserted key is found with its value and raises \<^verbatim>\<open>length()\<close> by one; removing it returns that
  value and restores the map and the length.\<close>

theorem lseq_roundtrip:
  assumes "lseq_ok kmin kmax s a" and "kmin < k" "k < kmax" and "fresh (cells (lq_mem s)) p" and "a k = None"
  shows "\<exists>s1 s2 n. lseq_insert p s k v = Some (s1, 1) \<and> lseq_search s1 k = Some v \<and> lseq_remove s1 k = Some (s2, v) \<and>
    lseq_search s2 k = Some 0 \<and> lseq_ok kmin kmax s2 a \<and>
    lseq_length s = Some n \<and> lseq_length s1 = Some (n + 1) \<and> lseq_length s2 = Some n"
proof -
  have len: "lseq_length s' = Some (int (card (dom b)))" "finite (dom b)" if "lseq_ok kmin kmax s' b" for s' b
    using that assms(2,3) slist_length slist_finite unfolding lseq_ok_def lseq_length_def by fastforce+
  from lseq_insert_ok [OF assms(1-4), of v] assms(5) obtain s1 where
    s1: "lseq_insert p s k v = Some (s1, 1)" "lseq_ok kmin kmax s1 (a(k \<mapsto> v))" by auto
  from lseq_remove_ok [OF s1(2) assms(2,3)] obtain s2 where
    s2: "lseq_remove s1 k = Some (s2, v)" "lseq_ok kmin kmax s2 ((a(k \<mapsto> v))(k := None))" by auto
  have "(a(k \<mapsto> v))(k := None) = a" using assms(5) by auto
  with s2(2) have ok2: "lseq_ok kmin kmax s2 a" by simp
  have "card (dom (a(k \<mapsto> v))) = Suc (card (dom a))" 
  proof -
    have "dom (a(k \<mapsto> v)) = insert k (dom a)" "k \<notin> dom a" using assms(5) by auto
    then show ?thesis using len(2) [OF assms(1)] by simp
  qed
  then show ?thesis
    using s1 s2(1) ok2 len(1) [OF assms(1)] len(1) [OF s1(2)] len(1) [OF ok2]
      lseq_search_ok [OF s1(2) assms(2,3)] lseq_search_ok [OF ok2 assms(2,3)] assms(5)
    by (intro exI [of _ s1] exI [of _ s2] exI [of _ "int (card (dom a))"]) simp
qed

theorem lseq_roundtrip_witness:
  "\<exists>s1 s2. lseq_insert 3 (lseq_init 0 10 1 2) 5 50 = Some (s1, 1) \<and> lseq_search s1 5 = Some 50 \<and>
     lseq_remove s1 5 = Some (s2, 50) \<and> lseq_search s2 (5::int) = Some (0::int)"
proof -
  have "fresh (cells (lq_mem (lseq_init (0::int) 10 1 2 :: (int, int) lseq))) 3"
    by (simp add: fresh_def lseq_init_def)
  from lseq_roundtrip [OF lseq_demo_init _ _ this, of 5 50] show ?thesis by auto
qed

end
