(* ===== verification/Random_Utils.thy ===== *)
theory Random_Utils
  imports Prelude
begin

text \<open>
  The bit-level helpers of \<^verbatim>\<open>include/random.h\<close>, \<^verbatim>\<open>include/utils.h\<close> and of the test programs: the
  per-thread generator and the values drawn from it, the random level of a skip-list node, the
  exponential back-off, and the powers of two the tests round their sizes to. Every integer keeps
  its width: \<^verbatim>\<open>unsigned long\<close> and \<^verbatim>\<open>size_t\<close> are 64-bit words, \<^verbatim>\<open>unsigned int\<close> is a 32-bit word.
\<close>

unbundle bit_operations_syntax

section \<open>Powers of two\<close>

text \<open>\<^verbatim>\<open>is_power_of_two\<close>, \<^verbatim>\<open>pow2roundup\<close> and \<^verbatim>\<open>floor_log_2\<close>.\<close>

definition is_power_of_two :: "32 word \<Rightarrow> bool" where
  "is_power_of_two x \<longleftrightarrow> x \<noteq> 0 \<and> \<not> (x AND (x - 1) \<noteq> 0)"

definition pow2roundup :: "32 word \<Rightarrow> 32 word" where
  "pow2roundup x = (if x = 0 then 1 else
     let x = x - 1;
         x = x OR drop_bit 1 x;
         x = x OR drop_bit 2 x;
         x = x OR drop_bit 4 x;
         x = x OR drop_bit 8 x;
         x = x OR drop_bit 16 x
     in x + 1)"

definition floor_log_2 :: "32 word \<Rightarrow> int" where
  "floor_log_2 n =
    (let (n, pos) = (n, 0);
         (n, pos) = (if n \<ge> push_bit 16 1 then (drop_bit 16 n, pos + 16) else (n, pos));
         (n, pos) = (if n \<ge> push_bit 8 1 then (drop_bit 8 n, pos + 8) else (n, pos));
         (n, pos) = (if n \<ge> push_bit 4 1 then (drop_bit 4 n, pos + 4) else (n, pos));
         (n, pos) = (if n \<ge> push_bit 2 1 then (drop_bit 2 n, pos + 2) else (n, pos));
         pos = (if n \<ge> push_bit 1 1 then pos + 1 else pos)
     in if n = 0 then -1 else pos)"

text \<open>The position of the highest bit of a nonzero number.\<close>

lemma highest_bit:
  assumes "0 < (n :: nat)"
  obtains k where "2 ^ k \<le> n" "n < 2 ^ Suc k"
proof -
  have "n < 2 ^ n" by (rule less_exp)
  then have ex: "\<exists>m. n < 2 ^ m" ..
  define m where "m = (LEAST m. n < 2 ^ m)"
  have m: "n < 2 ^ m" unfolding m_def using ex by (rule LeastI_ex)
  have "m \<noteq> 0" using m assms by (intro notI) simp
  then obtain k where k: "m = Suc k" using not0_implies_Suc by blast
  have "\<not> n < 2 ^ k" using not_less_Least [of k "\<lambda>m. n < 2 ^ m"] k by (simp add: m_def)
  with m k show thesis by (intro that) simp_all
qed

lemma unat_of_nat_small:
  assumes "n < 2 ^ LENGTH('a)"
  shows "unat (word_of_nat n :: 'a::len word) = n"
  using assms by (simp add: unsigned_of_nat take_bit_nat_eq_self_iff)

lemma unat_push_bit_one:
  assumes "k < LENGTH('a::len)"
  shows "unat (push_bit k (1 :: 'a word)) = 2 ^ k"
proof -
  have "unat (word_of_nat (2 ^ k) :: 'a word) = 2 ^ k"
    using assms by (intro unat_of_nat_small) simp
  then show ?thesis by (simp add: push_bit_eq_mult)
qed

lemma bit_unat: "bit (unat x) i \<longleftrightarrow> bit x i" for x :: "'a::len word"
  by (simp add: bit_unsigned_iff)

lemma word_highest_bit:
  fixes x :: "'a::len word"
  assumes "x \<noteq> 0"
  obtains k where "k < LENGTH('a)" "2 ^ k \<le> unat x" "unat x < 2 ^ Suc k"
proof -
  obtain k where k: "2 ^ k \<le> unat x" "unat x < 2 ^ Suc k"
    using highest_bit [of "unat x"] assms by (metis unat_gt_0)
  have "(2::nat) ^ k < 2 ^ LENGTH('a)" using k(1) unsigned_less [of x] le_less_trans by blast
  then show thesis using k by (intro that) simp_all
qed

lemma bit_unat_highest:
  fixes x :: "'a::len word"
  assumes "2 ^ k \<le> unat x" "unat x < 2 ^ Suc k"
  shows "bit x k" and "k < i \<Longrightarrow> \<not> bit x i"
proof -
  have k: "unat x div 2 ^ k = 1"
    using assms by (intro div_nat_eqI) simp_all
  then have "bit (unat x) k" by (simp add: bit_iff_odd)
  then show "bit x k" by (simp add: bit_unat)
  show "\<not> bit x i" if "k < i"
  proof -
    have "(2::nat) ^ Suc k \<le> 2 ^ i" using that by (intro power_increasing) simp_all
    then have "unat x div 2 ^ i = 0" using assms(2) by simp
    then have "\<not> bit (unat x) i" by (simp add: bit_iff_odd)
    then show ?thesis by (simp add: bit_unat)
  qed
qed


lemma is_power_of_two_iff: "is_power_of_two x \<longleftrightarrow> (\<exists>k < 32. unat x = 2 ^ k)"
proof (cases "x = 0")
  case True
  then show ?thesis by (simp add: is_power_of_two_def)
next
  case False
  then obtain k where k: "k < 32" "2 ^ k \<le> unat x" "unat x < 2 ^ Suc k"
    using word_highest_bit [of x] by auto
  have less: "unat (x - 1) = unat x - 1" using False by (simp add: unat_minus_one)
  show ?thesis
  proof (cases "unat x = 2 ^ k")
    case True
    have "\<not> bit (x AND (x - 1)) i" for i
    proof -
      consider "i = k" | "k < i" | "i < k" by linarith
      then show ?thesis
      proof cases
        case 1
        have "unat (x - 1) div 2 ^ k = 0" using True less by simp
        then have "\<not> bit (unat (x - 1)) k" by (simp add: bit_iff_odd)
        then have "\<not> bit (x - 1) k" by (simp add: bit_unat)
        then show ?thesis using 1 by (simp add: bit_and_iff)
      next
        case 2
        then show ?thesis using bit_unat_highest(2) [OF k(2,3)] by (simp add: bit_and_iff)
      next
        case 3
        have "even (unat x div 2 ^ i)" using 3 True by (simp add: power_diff [symmetric])
        then have "\<not> bit (unat x) i" by (simp add: bit_iff_odd)
        then have "\<not> bit x i" by (simp add: bit_unat)
        then show ?thesis by (simp add: bit_and_iff)
      qed
    qed
    then have "x AND (x - 1) = 0" by (intro bit_eqI) simp
    then show ?thesis using False True k(1) by (auto simp: is_power_of_two_def)
  next
    case ne: False
    have "2 ^ k \<le> unat (x - 1)" "unat (x - 1) < 2 ^ Suc k" using ne k less by simp_all
    then have "bit (x AND (x - 1)) k"
      using bit_unat_highest(1) k(2,3) by (auto simp: bit_and_iff)
    then have "x AND (x - 1) \<noteq> 0" by auto
    moreover have "unat x \<noteq> 2 ^ j" for j
    proof
      assume "unat x = 2 ^ j"
      with k(2,3) have "(2::nat) ^ k \<le> 2 ^ j" "(2::nat) ^ j < 2 ^ Suc k" by simp_all
      then have "k \<le> j" "j < Suc k" by (simp_all only: power_increasing_iff power_strict_increasing_iff)
      then show False using ne \<open>unat x = 2 ^ j\<close> by simp
    qed
    ultimately show ?thesis by (simp add: is_power_of_two_def)
  qed
qed

text \<open>Or-ing a number with its shifts by 1, 2, 4, 8 and 16 sets every bit below the highest.\<close>

definition smear :: "32 word \<Rightarrow> 32 word" where
  "smear x =
    (let x = x OR drop_bit 1 x;
         x = x OR drop_bit 2 x;
         x = x OR drop_bit 4 x;
         x = x OR drop_bit 8 x
     in x OR drop_bit 16 x)"

lemma bit_or_drop:
  fixes x y :: "32 word"
  assumes "\<And>i. bit y i \<longleftrightarrow> (\<exists>j < n. bit x (i + j))" "m = n + n"
  shows "bit (y OR drop_bit n y) i \<longleftrightarrow> (\<exists>j < m. bit x (i + j))"
proof -
  have "(\<exists>j < n + n. bit x (i + j)) \<longleftrightarrow>
      (\<exists>j < n. bit x (i + j)) \<or> (\<exists>j < n. bit x (n + i + j))" (is "?l \<longleftrightarrow> ?r")
  proof
    assume ?l
    then obtain j where j: "j < n + n" "bit x (i + j)" by blast
    show ?r
    proof (cases "j < n")
      case False
      then have "j - n < n" "n + i + (j - n) = i + j" using j(1) by simp_all
      then show ?thesis using j(2) by metis
    qed (use j in blast)
  next
    assume ?r
    then show ?l
    proof
      assume "\<exists>j < n. bit x (n + i + j)"
      then obtain j where "j < n" "bit x (n + i + j)" by blast
      then have "n + j < n + n" "bit x (i + (n + j))" by (simp_all add: ac_simps)
      then show ?l by blast
    next
      assume "\<exists>j < n. bit x (i + j)"
      then show ?l using trans_less_add1 by blast
    qed
  qed
  then show ?thesis using assms by (simp add: bit_or_iff bit_drop_bit_eq ac_simps)
qed

lemma bit_smear: "bit (smear x) i \<longleftrightarrow> (\<exists>j < 32. bit x (i + j))"
proof -
  have 0: "bit x i \<longleftrightarrow> (\<exists>j < 1. bit x (i + j))" for i by simp
  note 1 = bit_or_drop [where m = 2, OF 0]
  note 2 = bit_or_drop [where m = 4, OF 1]
  note 4 = bit_or_drop [where m = 8, OF 2]
  note 8 = bit_or_drop [where m = 16, OF 4]
  note 16 = bit_or_drop [where m = 32, OF 8]
  show ?thesis unfolding smear_def Let_def by (rule 16) simp_all
qed

lemma smear_highest:
  assumes "k < 32" "2 ^ k \<le> unat x" "unat x < 2 ^ Suc k"
  shows "smear x = mask (Suc k)"
proof (intro bit_eqI)
  fix i
  assume "possible_bit TYPE(32 word) i"
  then have i: "i < 32" by simp
  show "bit (smear x) i \<longleftrightarrow> bit (mask (Suc k) :: 32 word) i"
  proof (cases "i \<le> k")
    case True
    then have "k - i < 32" "i + (k - i) = k" using assms(1) by simp_all
    then have "bit (smear x) i" using bit_smear bit_unat_highest(1) [OF assms(2,3)] by metis
    then show ?thesis using True i by (simp add: bit_mask_iff)
  next
    case False
    then have "\<not> bit (smear x) i" using bit_smear bit_unat_highest(2) [OF assms(2,3)] by auto
    then show ?thesis using False by (simp add: bit_mask_iff)
  qed
qed

lemma pow2roundup_smear: "pow2roundup x = (if x = 0 then 1 else smear (x - 1) + 1)"
  by (simp only: pow2roundup_def smear_def Let_def)

text \<open>C2: \<^verbatim>\<open>pow2roundup\<close> returns the least power of two that is at least its argument, up to 2^31.\<close>

lemma pow2roundup_least:
  assumes "unat x \<le> 2 ^ 31"
  shows "is_power_of_two (pow2roundup x) \<and> x \<le> pow2roundup x
    \<and> (\<forall>y. is_power_of_two y \<longrightarrow> x \<le> y \<longrightarrow> pow2roundup x \<le> y)"
proof -
  have least: "is_power_of_two (pow2roundup x) \<and> x \<le> pow2roundup x
      \<and> (\<forall>y. is_power_of_two y \<longrightarrow> x \<le> y \<longrightarrow> pow2roundup x \<le> y)"
    if m: "m < 32" "unat (pow2roundup x) = 2 ^ m" "unat x \<le> 2 ^ m" "\<And>j. j < m \<Longrightarrow> 2 ^ j < unat x" for m
  proof (intro conjI allI impI)
    fix y
    assume y: "is_power_of_two y" "x \<le> y"
    then obtain j where j: "unat y = 2 ^ j" by (auto simp: is_power_of_two_iff)
    have "\<not> j < m" using m(4) [of j] y(2) j by (auto simp: word_le_nat_alt)
    then have "(2::nat) ^ m \<le> 2 ^ j" by (intro power_increasing) simp_all
    then show "pow2roundup x \<le> y" using m(2) j by (simp add: word_le_nat_alt)
  qed (use m in \<open>auto simp: is_power_of_two_iff word_le_nat_alt\<close>)
  show ?thesis
  proof (cases "x \<le> 1")
    case True
    then have "x = 0 \<or> x = 1" by (auto simp: word_le_nat_alt word_unat_eq_iff le_Suc_eq)
    then have "pow2roundup x = 1" "unat x \<le> 1" by (auto simp: pow2roundup_def)
    then show ?thesis by (intro least [of 0]) simp_all
  next
    case False
    then have x: "1 < unat x" by (simp add: word_le_nat_alt)
    then have pred: "unat (x - 1) = unat x - 1" by (intro unat_minus_one) auto
    have "x - 1 \<noteq> 0" using x pred by (auto simp flip: unat_gt_0)
    then obtain k where k: "k < 32" "2 ^ k \<le> unat (x - 1)" "unat (x - 1) < 2 ^ Suc k"
      using word_highest_bit [of "x - 1"] by auto
    have "(2::nat) ^ k < 2 ^ 31" using k(2) pred assms x by linarith
    then have k31: "k < 31" by (simp only: power_strict_increasing_iff)
    have "(2::nat) ^ Suc k < 2 ^ 32" using k31 by (intro power_strict_increasing) simp_all
    then have "unat (word_of_nat (2 ^ Suc k) :: 32 word) = 2 ^ Suc k"
      by (intro unat_of_nat_small) simp
    then have "unat (mask (Suc k) + 1 :: 32 word) = 2 ^ Suc k"
      by (simp add: mask_eq_exp_minus_1)
    moreover have "pow2roundup x = mask (Suc k) + 1"
      using x smear_highest [OF k] by (auto simp: pow2roundup_smear)
    moreover have "2 ^ j < unat x" if "j < Suc k" for j
    proof -
      have "(2::nat) ^ j \<le> 2 ^ k" using that by (intro power_increasing) simp_all
      then show ?thesis using k(2) pred x by linarith
    qed
    ultimately show ?thesis using k31 k(3) pred x by (intro least [of "Suc k"]) simp_all
  qed
qed

lemma pow2roundup_least_witness: "is_power_of_two (pow2roundup 1000) \<and> pow2roundup 1000 = 1024"
  using pow2roundup_least [of 1000] by (simp add: pow2roundup_def)

text \<open>Above 2^31 the sum wraps and \<^verbatim>\<open>pow2roundup\<close> returns 0.\<close>

lemma pow2roundup_overflow:
  assumes "2 ^ 31 < unat x"
  shows "pow2roundup x = 0"
proof -
  have pred: "unat (x - 1) = unat x - 1" using assms by (intro unat_minus_one) auto
  have "x - 1 \<noteq> 0" using assms pred by (auto simp flip: unat_gt_0)
  have "unat (x - 1) < 2 ^ LENGTH(32)" by (rule unsigned_less)
  then have "(2::nat) ^ 31 \<le> unat (x - 1)" "unat (x - 1) < 2 ^ Suc 31"
    using assms pred by simp_all
  from smear_highest [OF _ this] have "smear (x - 1) = mask 32" by simp
  then show ?thesis using assms by (auto simp: pow2roundup_smear mask_eq_exp_minus_1)
qed


text \<open>One halving step of \<^verbatim>\<open>floor_log_2\<close>: \<open>n\<close> is the argument shifted by \<open>pos\<close>, and the step halves the
  number of bits it can have.\<close>

definition log_step :: "nat \<Rightarrow> 32 word \<times> int \<Rightarrow> 32 word \<times> int" where
  "log_step k = (\<lambda>(n, pos). if n \<ge> push_bit k 1 then (drop_bit k n, pos + int k) else (n, pos))"

definition log_inv :: "32 word \<Rightarrow> nat \<Rightarrow> 32 word \<times> int \<Rightarrow> bool" where
  "log_inv x k = (\<lambda>(n, pos). \<exists>q. pos = int q \<and> unat n = unat x div 2 ^ q \<and> 0 < unat n \<and> unat n < 2 ^ k)"

lemma log_step:
  assumes "log_inv x (2 * k) c" "k < 32"
  shows "log_inv x k (log_step k c)"
proof -
  obtain n pos where c: "c = (n, pos)" by (cases c)
  obtain q where q: "pos = int q" "unat n = unat x div 2 ^ q" "0 < unat n" "unat n < 2 ^ (2 * k)"
    using assms(1) by (auto simp: log_inv_def c)
  have big: "n \<ge> push_bit k 1 \<longleftrightarrow> 2 ^ k \<le> unat n"
    unfolding word_le_nat_alt by (subst unat_push_bit_one) (use assms(2) in simp_all)
  show ?thesis
  proof (cases "n \<ge> push_bit k 1")
    case True
    have d: "unat (drop_bit k n) = unat n div 2 ^ k"
      by (simp only: unat_drop_bit_eq) (rule drop_bit_eq_div)
    have "unat n div 2 ^ k < 2 ^ k"
      using q(4) by (intro less_mult_imp_div_less) (simp add: mult_2 power_add)
    moreover have "0 < unat n div 2 ^ k" using True big by (simp add: div_greater_zero_iff)
    moreover have "unat n div 2 ^ k = unat x div 2 ^ (q + k)"
      using q(2) by (simp add: div_mult2_eq power_add)
    moreover have "pos + int k = int (q + k)" using q(1) by simp
    ultimately show ?thesis using True d
      by (auto simp: log_step_def log_inv_def c intro!: exI [of _ "q + k"])
  next
    case False
    then show ?thesis using q big by (auto simp: log_step_def log_inv_def c)
  qed
qed

lemma floor_log_2_steps:
  "floor_log_2 n =
     (case log_step 2 (log_step 4 (log_step 8 (log_step 16 (n, 0)))) of (n, pos) \<Rightarrow>
        let pos = (if n \<ge> push_bit 1 1 then pos + 1 else pos) in if n = 0 then -1 else pos)"
  by (simp add: floor_log_2_def log_step_def Let_def)

text \<open>\<^verbatim>\<open>floor_log_2\<close> returns -1 for 0 and the position of the highest set bit otherwise.\<close>

lemma floor_log_2_correct:
  "floor_log_2 0 = -1 \<and>
   (x \<noteq> 0 \<longrightarrow> 0 \<le> floor_log_2 x \<and> 2 ^ nat (floor_log_2 x) \<le> unat x \<and> unat x < 2 ^ Suc (nat (floor_log_2 x)))"
proof (intro conjI impI)
  show "floor_log_2 0 = -1"
    by (simp add: floor_log_2_def Let_def)
next
  assume "x \<noteq> 0"
  have "unat x < 2 ^ LENGTH(32)" by (rule unsigned_less)
  then have "log_inv x (2 * 16) (x, 0)"
    using \<open>x \<noteq> 0\<close> by (auto simp: log_inv_def unat_gt_0 intro!: exI [of _ 0])
  note log_step [OF this]
  then have "log_inv x (2 * 8) (log_step 16 (x, 0))" by simp
  note log_step [OF this]
  then have "log_inv x (2 * 4) (log_step 8 (log_step 16 (x, 0)))" by simp
  note log_step [OF this]
  then have "log_inv x (2 * 2) (log_step 4 (log_step 8 (log_step 16 (x, 0))))" by simp
  note log_step [OF this]
  then have inv: "log_inv x 2 (log_step 2 (log_step 4 (log_step 8 (log_step 16 (x, 0)))))" by simp
  obtain n pos where c: "log_step 2 (log_step 4 (log_step 8 (log_step 16 (x, 0)))) = (n, pos)"
    by fastforce
  obtain q where q: "pos = int q" "unat n = unat x div 2 ^ q" "0 < unat n" "unat n < 4"
    using inv by (auto simp: log_inv_def c)
  define r where "r = (if n \<ge> push_bit 1 1 then Suc q else q)"
  have "n \<noteq> 0" using q(3) by auto
  then have f: "floor_log_2 x = int r"
    using q(1) by (simp add: floor_log_2_steps c r_def)
  have two: "n \<ge> push_bit 1 1 \<longleftrightarrow> 2 \<le> unat n" by (simp add: word_le_nat_alt)
  have "unat n div 2 ^ (r - q) = 1"
    using q(3,4) two by (auto simp: r_def intro!: div_nat_eqI)
  moreover have "unat x div 2 ^ r = unat n div 2 ^ (r - q)"
    using q(2) by (auto simp: r_def div_mult2_eq [symmetric] mult.commute)
  ultimately have d: "unat x div 2 ^ r = 1" by simp
  have "2 ^ r * (unat x div 2 ^ r) \<le> unat x" by (rule times_div_less_eq_dividend)
  moreover have "unat x < 2 ^ r * Suc (unat x div 2 ^ r)" by (simp add: dividend_less_times_div)
  ultimately show "0 \<le> floor_log_2 x" "2 ^ nat (floor_log_2 x) \<le> unat x"
      "unat x < 2 ^ Suc (nat (floor_log_2 x))"
    by (simp_all add: f d)
qed

lemma floor_log_2_correct_witness: "floor_log_2 1000 = 9 \<and> 2 ^ nat (floor_log_2 1000) \<le> unat (1000 :: 32 word)"
proof -
  have "floor_log_2 1000 = 9" by (simp add: floor_log_2_def Let_def push_bit_eq_mult)
  then show ?thesis using floor_log_2_correct [of 1000] by simp
qed

section \<open>The generator\<close>

text \<open>The three seeds of a thread (\<^verbatim>\<open>seeds[0..2]\<close>), seeded from the time-stamp counter, whose three
  readings are arguments. \<^verbatim>\<open>xorshf96\<close> and \<^verbatim>\<open>my_random\<close> and \<^verbatim>\<open>mrand\<close> are the same function.\<close>

type_synonym seeds = "64 word \<times> 64 word \<times> 64 word"

definition fast_rand :: "64 word \<Rightarrow> 32 word" where
  "fast_rand ticks = ucast (drop_bit 4 (ticks AND 4294967295))"

definition seed_rand :: "64 word \<Rightarrow> 64 word \<Rightarrow> 64 word \<Rightarrow> seeds" where
  "seed_rand t0 t1 t2 = (t0 mod 123456789, t1 mod 362436069, t2 mod 521288629)"

definition xorshift :: "64 word \<Rightarrow> 64 word" where
  "xorshift x =
    (let x = x XOR push_bit 16 x;
         x = x XOR drop_bit 5 x
     in x XOR push_bit 1 x)"

definition xorshf96 :: "seeds \<Rightarrow> 64 word \<times> seeds" where
  "xorshf96 = (\<lambda>(x, y, z).
    (let x = xorshift x;
         t = x;
         x = y;
         y = z;
         z = (t XOR x) XOR y
     in (z, (x, y, z))))"

text \<open>\<^verbatim>\<open>rand_range\<close> and \<^verbatim>\<open>rand_range_re\<close> with \<^verbatim>\<open>LOCAL_RAND\<close>, as the library is built: the argument is a
  \<^verbatim>\<open>long\<close>, which the remainder with an \<^verbatim>\<open>unsigned long\<close> reads as unsigned.\<close>

definition rand_range :: "64 word \<Rightarrow> seeds \<Rightarrow> 64 word \<times> seeds" where
  "rand_range r s = (let (w, s) = xorshf96 s; v = w mod r; v = v + 1 in (v, s))"

definition rand_range_re :: "32 word \<Rightarrow> 64 word \<Rightarrow> seeds \<Rightarrow> 64 word \<times> seeds" where
  "rand_range_re seed r s = (let (w, s) = xorshf96 s; v = w mod r; v = v + 1 in (v, s))"

text \<open>
  \<^verbatim>\<open>get_rand_level\<close> of the skip lists: at most \<^verbatim>\<open>levelmax - 1\<close> flips (computed in unsigned arithmetic) of
  a coin, \<^verbatim>\<open>rand_range(101) < 50\<close> in the sequential, Fraser and lock-free lists and
  \<^verbatim>\<open>rand_range(100) - 1 < 50\<close> in the two lists with locks.
\<close>

definition coin101 :: "seeds \<Rightarrow> bool \<times> seeds" where
  "coin101 s = (let (v, s) = rand_range 101 s in (sint v < 50, s))"

definition coin100 :: "seeds \<Rightarrow> bool \<times> seeds" where
  "coin100 s = (let (v, s) = rand_range 100 s in (sint (v - 1) < 50, s))"

fun rand_level_loop :: "(seeds \<Rightarrow> bool \<times> seeds) \<Rightarrow> nat \<Rightarrow> 32 word \<Rightarrow> seeds \<Rightarrow> 32 word \<times> seeds" where
  "rand_level_loop coin 0 level s = (level, s)"
| "rand_level_loop coin (Suc n) level s =
    (let (c, s) = coin s
     in if c then rand_level_loop coin n (level + 1) s else (level, s))"

definition get_rand_level :: "(seeds \<Rightarrow> bool \<times> seeds) \<Rightarrow> 32 word \<Rightarrow> seeds \<Rightarrow> 32 word \<times> seeds" where
  "get_rand_level coin levelmax s = rand_level_loop coin (unat (levelmax - 1)) 1 s"

text \<open>The number of cycles \<^verbatim>\<open>do_pause\<close> and \<^verbatim>\<open>do_pause_exp\<close> wait for.\<close>

definition pause_fixed :: "64 word" where "pause_fixed = 16384"
definition pause_max :: "64 word" where "pause_max = 16384"
definition pause_base :: "64 word" where "pause_base = 512"
definition pause_min :: "64 word" where "pause_min = 512"

definition do_pause :: "seeds \<Rightarrow> 64 word \<times> seeds" where
  "do_pause s = (let (w, s) = xorshf96 s in (w mod pause_fixed, s))"

definition do_pause_exp :: "64 word \<Rightarrow> seeds \<Rightarrow> 64 word \<times> seeds" where
  "do_pause_exp nf s =
    (let nf = (if nf > 32 then 32 else nf);
         p = push_bit (unat nf) pause_base;
         pm = (if p > pause_max then pause_max else p);
         (w, s) = xorshf96 s;
         tp = pause_min + w mod pm
     in (tp, s))"

lemma xor_push_bit_inj:
  fixes x y :: "'a::len word"
  assumes "x XOR push_bit k x = y XOR push_bit k y" "0 < k"
  shows "x = y"
proof (rule bit_eqI)
  fix n
  assume "possible_bit TYPE('a word) n"
  then show "bit x n \<longleftrightarrow> bit y n"
  proof (induction n rule: less_induct)
    case (less n)
    have n: "n < LENGTH('a)" using less.prems by simp
    have "bit (x XOR push_bit k x) n \<longleftrightarrow> bit (y XOR push_bit k y) n" using assms(1) by simp
    moreover have "bit x (n - k) \<longleftrightarrow> bit y (n - k)" if "k \<le> n"
      using that assms(2) n by (intro less.IH) simp_all
    ultimately show ?case using n by (auto simp: bit_xor_iff bit_push_bit_iff)
  qed
qed

lemma xor_drop_bit_inj:
  fixes x y :: "'a::len word"
  assumes "x XOR drop_bit k x = y XOR drop_bit k y" "0 < k"
  shows "x = y"
proof (rule bit_eqI)
  fix n
  show "bit x n \<longleftrightarrow> bit y n"
  proof (induction "LENGTH('a) - n" arbitrary: n rule: less_induct)
    case less
    show ?case
    proof (cases "n < LENGTH('a)")
      case True
      have "bit (x XOR drop_bit k x) n \<longleftrightarrow> bit (y XOR drop_bit k y) n" using assms(1) by simp
      moreover have "bit x (k + n) \<longleftrightarrow> bit y (k + n)" using True assms(2) by (intro less) simp
      ultimately show ?thesis by (auto simp: bit_xor_iff bit_drop_bit_eq)
    next
      case False
      then have "\<not> bit x n" "\<not> bit y n" using bit_imp_le_length by blast+
      then show ?thesis by simp
    qed
  qed
qed

lemma xor_cancel_right:
  fixes a b c :: "'a::len word"
  assumes "a XOR c = b XOR c"
  shows "a = b"
proof -
  have "(a XOR c) XOR c = (b XOR c) XOR c" using assms by simp
  then show ?thesis by (simp add: xor.assoc)
qed

lemma xorshift_inj: "xorshift x = xorshift y \<Longrightarrow> x = y"
  unfolding xorshift_def Let_def
  by (drule xor_push_bit_inj, simp, drule xor_drop_bit_inj, simp, erule xor_push_bit_inj, simp)

lemma snd_xorshf96: "snd (xorshf96 (x, y, z)) = (y, z, (xorshift x XOR y) XOR z)"
  by (simp only: xorshf96_def prod.case Let_def snd_conv)

lemma xorshf96_inj: "inj (\<lambda>s. snd (xorshf96 s))"
proof (rule injI)
  fix s s'
  assume eq: "snd (xorshf96 s) = snd (xorshf96 s')"
  obtain x y z where s: "s = (x, y, z)" by (cases s)
  obtain x' y' z' where s': "s' = (x', y', z')" by (cases s')
  note eq' = eq [unfolded s s' snd_xorshf96]
  then have y: "y = y'" and z: "z = z'" by (blast dest: Pair_inject)+
  have "(xorshift x XOR y) XOR z = (xorshift x' XOR y') XOR z'"
    using eq' by (blast dest: Pair_inject)
  then have "xorshift x = xorshift x'" unfolding y z by (rule xor_cancel_right [OF xor_cancel_right])
  then show "s = s'" using y z xorshift_inj by (simp add: s s')
qed

text \<open>C3: the generator permutes the states of a thread and every state recurs, so only the state of
  three zeros yields three zeros.\<close>

lemma xorshf96_permutes:
  "(\<exists>n > 0. ((\<lambda>s. snd (xorshf96 s)) ^^ n) s = s) \<and> (snd (xorshf96 s) = (0, 0, 0) \<longleftrightarrow> s = (0, 0, 0))"
proof
  show "\<exists>n > 0. ((\<lambda>s. snd (xorshf96 s)) ^^ n) s = s"
    by (rule funpow_inj_finite [OF xorshf96_inj]) (auto intro: finite)
  have "snd (xorshf96 (0, 0, 0)) = (0, 0, 0)" by (simp add: xorshf96_def xorshift_def)
  then show "snd (xorshf96 s) = (0, 0, 0) \<longleftrightarrow> s = (0, 0, 0)"
    using injD [OF xorshf96_inj, of s "(0, 0, 0)"] by auto
qed

lemma uint_eq_sint:
  fixes w :: "'a::len word"
  assumes "0 \<le> sint w"
  shows "uint w = sint w"
proof -
  have "sint w < 2 ^ (LENGTH('a) - 1)" by (rule sint_lt)
  also have "(2::int) ^ (LENGTH('a) - 1) \<le> 2 ^ LENGTH('a)" by (intro power_increasing) simp_all
  finally show ?thesis using assms by (simp add: uint_sint take_bit_int_eq_self_iff)
qed

lemma sint_eq_uint:
  fixes w :: "'a::len word"
  assumes "uint w < 2 ^ (LENGTH('a) - 1)"
  shows "sint w = uint w"
proof -
  have "- (2 ^ (LENGTH('a) - 1)) \<le> (0::int)" by simp
  then have "- (2 ^ (LENGTH('a) - 1)) \<le> uint w" using uint_ge_0 [of w] by linarith
  then show ?thesis
    using assms unfolding sint_uint signed_take_bit_int_eq_self_iff One_nat_def by blast
qed

text \<open>\<^verbatim>\<open>rand_range(r)\<close> draws a value between 1 and \<open>r\<close> for every positive \<open>r\<close>.\<close>

lemma rand_range_bounds:
  assumes "0 < sint r"
  shows "1 \<le> sint (fst (rand_range r s)) \<and> sint (fst (rand_range r s)) \<le> sint r"
proof -
  obtain w s' where w: "xorshf96 s = (w, s')" by (cases "xorshf96 s")
  have r: "uint r = sint r" "sint r < 2 ^ 63"
    using assms uint_eq_sint [of r] sint_lt [of r] by simp_all
  have m: "uint (w mod r) = uint w mod uint r" by (simp add: uint_mod)
  moreover have "0 \<le> uint w mod uint r" "uint w mod uint r < uint r"
    using assms r(1) by simp_all
  ultimately have "uint (w mod r + 1) = uint w mod uint r + 1"
    using r by (simp add: uint_word_ariths(1) )
  moreover have "sint (w mod r + 1) = uint (w mod r + 1)"
    using calculation \<open>uint w mod uint r < uint r\<close> r by (intro sint_eq_uint) simp
  ultimately show ?thesis
    using \<open>0 \<le> uint w mod uint r\<close> \<open>uint w mod uint r < uint r\<close> r(1)
    by (simp add: rand_range_def w)
qed

lemma rand_level_loop_bounds:
  assumes "unat level + n < 2 ^ 32"
  shows "unat level \<le> unat (fst (rand_level_loop coin n level s))
    \<and> unat (fst (rand_level_loop coin n level s)) \<le> unat level + n"
  using assms
proof (induction n arbitrary: level s)
  case (Suc n)
  have "unat (level + 1) = Suc (unat level)" using Suc.prems by (intro unat_Suc_word) simp
  then show ?case
    using Suc.IH [of "level + 1" "snd (coin s)"] Suc.prems
    by (auto simp: split_beta Let_def)
qed simp

lemma rand_level_within:
  assumes "levelmax \<noteq> 0"
  shows "1 \<le> unat (fst (get_rand_level coin levelmax s)) \<and> unat (fst (get_rand_level coin levelmax s)) \<le> unat levelmax"
proof -
  have "unat (levelmax - 1) = unat levelmax - 1" using assms by (simp add: unat_minus_one)
  moreover have "0 < unat levelmax" using assms by (simp add: unat_gt_0)
  moreover have "unat levelmax < 2 ^ LENGTH(32)" by (rule unsigned_less)
  ultimately show ?thesis
    using rand_level_loop_bounds [of 1 "unat (levelmax - 1)" coin s] by (simp add: get_rand_level_def)
qed

text \<open>The level of a new node is between 1 and the number of levels of the skip list.\<close>

lemma get_rand_level_bounds:
  assumes "levelmax \<noteq> 0"
  shows "1 \<le> unat (fst (get_rand_level coin levelmax s)) \<and> unat (fst (get_rand_level coin levelmax s)) \<le> unat levelmax"
  by (rule rand_level_within [OF assms])

lemma get_rand_level_bounds_witness: "1 \<le> unat (fst (get_rand_level coin101 4 (1, 2, 3)))"
  using get_rand_level_bounds [of 4 coin101 "(1, 2, 3)"] by simp

text \<open>The back-off grows with the number of failures and stays between 512 and 16895 cycles.\<close>

lemma do_pause_exp_bounds:
  "512 \<le> unat (fst (do_pause_exp nf s)) \<and> unat (fst (do_pause_exp nf s)) < 512 + min (512 * 2 ^ unat nf) 16384"
proof -
  obtain w s' where w: "xorshf96 s = (w, s')" by (cases "xorshf96 s")
  define k where "k = (if nf > 32 then 32 else nf)"
  have k: "unat k = min (unat nf) 32" by (auto simp: k_def word_less_nat_alt min_def)
  have "(512::nat) * 2 ^ unat k \<le> 512 * 2 ^ 32"
    using k by (intro mult_le_mono power_increasing) simp_all
  then have "unat (word_of_nat (512 * 2 ^ unat k) :: 64 word) = 512 * 2 ^ unat k"
    by (intro unat_of_nat_small) simp
  then have p: "unat (push_bit (unat k) pause_base) = 512 * 2 ^ unat k"
    by (simp add: push_bit_eq_mult pause_base_def)
  define pm where "pm = (if push_bit (unat k) pause_base > pause_max then pause_max else push_bit (unat k) pause_base)"
  have "unat pm = min (512 * 2 ^ unat k) 16384"
    using p by (auto simp: pm_def pause_max_def word_less_nat_alt min_def)
  moreover have "min (512 * 2 ^ unat k) 16384 = min (512 * 2 ^ unat nf) (16384 :: nat)"
  proof (cases "unat nf \<le> 32")
    case False
    then have "(2::nat) ^ 32 \<le> 2 ^ unat nf" by (intro power_increasing) simp_all
    then show ?thesis using False k by simp
  qed (simp add: k)
  moreover have "(1::nat) \<le> 2 ^ unat nf" by simp
  ultimately have pm: "unat pm = min (512 * 2 ^ unat nf) 16384" "0 < unat pm" by simp_all
  have m: "unat (w mod pm) = unat w mod unat pm" by (simp add: unat_mod)
  then have lt: "unat (w mod pm) < unat pm" using pm(2) by simp
  then have "unat (pause_min + w mod pm) = 512 + unat (w mod pm)"
    using pm(1) by (simp add: unat_word_ariths(1) pause_min_def)
  moreover have "fst (do_pause_exp nf s) = pause_min + w mod pm"
    by (simp add: do_pause_exp_def w k_def pm_def Let_def)
  ultimately show ?thesis using lt pm by simp
qed

end
