(* ===== verification/Lock_Protocol.thy ===== *)
theory Lock_Protocol
  imports Thread_Objects
begin

text \<open>
  What the locks of the library share. A lock is exercised by threads that call acquire or try to
  acquire, execute a critical section when they get the lock, and release it: an operation of the
  model is one such round. \<open>run_invariant\<close> is the interface under which the lock models are proved:
  an invariant of the shared state and of all control points together, kept by every step, holds in
  every reachable state of a run. The thread identifiers that take part are bounded by a set \<open>T\<close>, so
  that counters that wrap around can be compared with the number of threads.

  \<open>flag_ok\<close> is the invariant of the locks that are one flag; \<open>ticket_ok\<close> that of the locks that hand out
  tickets, with a queue of threads as the abstraction of the two counters.
\<close>

section \<open>Invariants of runs\<close>

datatype lock_op = Acquire | Try_Acquire

definition threads :: "('o, 'r) history \<Rightarrow> tid set" where
  "threads h = fst ` set h"

locale run_invariant =
  fixes start :: "'o \<Rightarrow> 'l option"
    and exec :: "('s, 'l, 'r) exec"
    and s0 :: 's
    and T :: "tid set"
    and I :: "'s \<Rightarrow> (tid \<Rightarrow> ('l, 'r) control) \<Rightarrow> bool"
  assumes init: "I s0 (\<lambda>_. Idle)"
    and call: "I s c \<Longrightarrow> t \<in> T \<Longrightarrow> c t = Idle \<Longrightarrow> start op = Some x \<Longrightarrow> I s (c(t := At x))"
    and return: "I s c \<Longrightarrow> c t = Finished r \<Longrightarrow> I s (c(t := Idle))"
    and exec: "I s c \<Longrightarrow> c t = At x \<Longrightarrow> exec t p s x = Next s' y \<Longrightarrow> I s' (c(t := y))"
begin

theorem invariant:
  assumes "run start exec s0 n h k" and "threads h \<subseteq> T"
  shows "I (fst k) (snd k)"
  using assms
proof (induction rule: run.induct)
  case run_nil
  then show ?case using init by simp
next
  case (run_tau n h k t k')
  then have I: "I (fst k) (snd k)" by simp
  from run_tau.hyps(2) show ?case
  proof (cases rule: thread_step.cases)
    case (step_exec c x p s s' y)
    then have "I s' (c(t := y))" using I by (intro exec) auto
    then show ?thesis unfolding step_exec(2) by (simp only: fst_conv snd_conv)
  qed
next
  case (run_ext n h k t e k')
  then have I: "I (fst k) (snd k)" and t: "t \<in> T" by (simp_all add: threads_def)
  from run_ext.hyps(2) show ?case
  proof (cases rule: thread_step.cases)
    case (step_call c op x s)
    then have "I s (c(t := At x))" using I t by (intro call) auto
    then show ?thesis unfolding step_call(3) by (simp only: fst_conv snd_conv)
  next
    case (step_return c r s)
    then have "I s (c(t := Idle))" using I by (intro return) auto
    then show ?thesis unfolding step_return(3) by (simp only: fst_conv snd_conv)
  qed
qed

end

lemma comp_upd: "f \<circ> c(t := y) = (f \<circ> c)(t := f y)"
  by (auto simp: fun_eq_iff)

lemma comp_upd_same [simp]: "(f \<circ> c)(t := f (c t)) = f \<circ> c"
  by (auto simp: fun_eq_iff)

section \<open>Progress\<close>

text \<open>Some choice of at most \<open>n\<close> steps of threads that are inside operations leads to a configuration
  that satisfies \<open>P\<close>: what can be promised of a lock without assumptions on the scheduler.\<close>

inductive can_reach :: "('s, 'l, 'r) exec \<Rightarrow> ('s \<Rightarrow> (tid \<Rightarrow> ('l, 'r) control) \<Rightarrow> bool) \<Rightarrow>
    nat \<Rightarrow> 's \<Rightarrow> (tid \<Rightarrow> ('l, 'r) control) \<Rightarrow> bool" for exec P where
  reach_now: "P s c \<Longrightarrow> can_reach exec P n s c"
| reach_step: "c t = At x \<Longrightarrow> exec t p s x = Next s' y \<Longrightarrow> can_reach exec P n s' (c(t := y)) \<Longrightarrow>
     can_reach exec P (Suc n) s c"

lemma can_reach_mono: "can_reach exec P n s c \<Longrightarrow> n \<le> m \<Longrightarrow> can_reach exec P m s c"
proof (induction arbitrary: m rule: can_reach.induct)
  case (reach_step c t x p s s' y n)
  then obtain m' where m: "m = Suc m'" "n \<le> m'" by (cases m) auto
  show ?case unfolding m(1)
    by (rule can_reach.reach_step [OF reach_step.hyps(1,2) reach_step.IH [OF m(2)]])
qed (rule can_reach.reach_now)

section \<open>Locks that are one flag\<close>

definition flag_ok :: "bool \<Rightarrow> (tid \<Rightarrow> bool) \<Rightarrow> bool" where
  "flag_ok locked holds \<longleftrightarrow> (\<forall>t u. holds t \<longrightarrow> holds u \<longrightarrow> t = u) \<and> (locked \<longleftrightarrow> (\<exists>t. holds t))"

lemma flag_init: "flag_ok False (\<lambda>_. False)"
  by (simp add: flag_ok_def)

lemma flag_keep: "flag_ok b f \<Longrightarrow> f t = v \<Longrightarrow> flag_ok b (f(t := v))"
  using fun_upd_triv [of f t] by simp

lemma flag_acquire: "flag_ok False f \<Longrightarrow> flag_ok True (f(t := True))"
  by (auto simp: flag_ok_def)

lemma flag_release: "flag_ok b f \<Longrightarrow> f t \<Longrightarrow> flag_ok False (f(t := False))"
  by (auto simp: flag_ok_def)

lemma flag_exclusive: "flag_ok b f \<Longrightarrow> f t \<Longrightarrow> f u \<Longrightarrow> t = u"
  by (auto simp: flag_ok_def)

section \<open>Tickets\<close>

text \<open>The part a thread plays: it has no ticket, it waits with one, or it holds the lock.\<close>

datatype 'a role = Out | Waiting 'a | Holding

text \<open>The counters \<open>tk\<close> (next ticket) and \<open>cu\<close> (ticket being served) represent the queue \<open>Q\<close> of threads:
  the i-th waits with ticket \<open>cu + i\<close>, or is the first and holds the lock.\<close>

definition ticket_ok :: "'a::len word \<Rightarrow> 'a word \<Rightarrow> (tid \<Rightarrow> 'a word role) \<Rightarrow> tid list \<Rightarrow> bool" where
  "ticket_ok tk cu r Q \<longleftrightarrow> distinct Q \<and> set Q = {t. r t \<noteq> Out} \<and> tk = cu + of_nat (length Q) \<and>
     (\<forall>i < length Q. r (Q ! i) = Waiting (cu + of_nat i) \<or> i = 0 \<and> r (Q ! i) = Holding)"

lemma ticket_init: "ticket_ok 0 0 (\<lambda>_. Out) []"
  by (simp add: ticket_ok_def)

lemma ticket_keep: "ticket_ok tk cu r Q \<Longrightarrow> r t = x \<Longrightarrow> ticket_ok tk cu (r(t := x)) Q"
  using fun_upd_triv [of r t] by simp

lemma ticket_index:
  assumes "ticket_ok tk cu r Q" and "r t \<noteq> Out"
  obtains i where "i < length Q" "Q ! i = t" "r t = Waiting (cu + of_nat i) \<or> i = 0 \<and> r t = Holding"
proof -
  have "t \<in> set Q" using assms by (simp add: ticket_ok_def)
  then obtain i where "i < length Q" "Q ! i = t" by (auto simp: in_set_conv_nth)
  then show thesis using assms(1) that by (auto simp: ticket_ok_def)
qed

lemma ticket_holding:
  assumes "ticket_ok tk cu r Q" and "r t = Holding"
  obtains Q' where "Q = t # Q'"
proof -
  obtain i where i: "i < length Q" "Q ! i = t" "r t = Waiting (cu + of_nat i) \<or> i = 0 \<and> r t = Holding"
    using ticket_index [OF assms(1), of t] assms(2) by auto
  then have "i = 0" using assms(2) by auto
  then show thesis using i that by (cases Q) auto
qed

lemma ticket_exclusive: "ticket_ok tk cu r Q \<Longrightarrow> r t = Holding \<Longrightarrow> r u = Holding \<Longrightarrow> t = u"
  by (metis ticket_holding list.inject)

lemma ticket_draw:
  assumes "ticket_ok tk cu r Q" and "r t = Out"
  shows "ticket_ok (tk + 1) cu (r(t := Waiting tk)) (Q @ [t])"
proof -
  have "t \<notin> set Q" using assms by (simp add: ticket_ok_def)
  then have "Q ! i \<noteq> t" if "i < length Q" for i using that nth_mem by blast
  then show ?thesis using assms \<open>t \<notin> set Q\<close>
    by (auto simp: ticket_ok_def nth_append less_Suc_eq)
qed

lemma of_nat_word_inj:
  assumes "(of_nat i :: 'a::len word) = of_nat j" "i < 2 ^ LENGTH('a)" "j < 2 ^ LENGTH('a)"
  shows "i = j"
  using assms by (metis take_bit_nat_eq_self_iff unsigned_of_nat of_nat_id)

lemma ticket_waiting:
  assumes "ticket_ok tk cu r Q" and "r t = Waiting (k :: 'a::len word)" and "length Q < 2 ^ LENGTH('a)"
  shows "unat (k - cu) < length Q \<and> Q ! unat (k - cu) = t"
proof -
  obtain i where i: "i < length Q" "Q ! i = t" "k = cu + of_nat i"
    using ticket_index [OF assms(1), of t] assms(2) by auto
  then have "unat (k - cu) = i"
    using assms(3) by (simp add: unsigned_of_nat take_bit_nat_eq_self_iff)
  then show ?thesis using i by simp
qed

lemma ticket_enter:
  assumes "ticket_ok tk cu r Q" and "r t = Waiting (cu :: 'a::len word)" and "length Q < 2 ^ LENGTH('a)"
  shows "ticket_ok tk cu (r(t := Holding)) Q"
proof -
  have "0 < length Q" "Q ! 0 = t" using ticket_waiting [OF assms] by auto
  moreover have "Q ! i \<noteq> t" if "0 < i" "i < length Q" for i
    using that calculation assms(1) by (metis (no_types) ticket_ok_def nth_eq_iff_index_eq less_irrefl)
  ultimately show ?thesis using assms(1,2) by (auto simp: ticket_ok_def)
qed

lemma ticket_leave:
  assumes "ticket_ok tk cu r Q" and "r t = Holding"
  shows "ticket_ok tk (cu + 1) (r(t := Out)) (tl Q)"
proof -
  obtain Q' where Q: "Q = t # Q'" using ticket_holding [OF assms] .
  have d: "distinct Q'" "t \<notin> set Q'" "set (t # Q') = {t. r t \<noteq> Out}" "tk = cu + of_nat (Suc (length Q'))"
    using assms(1) by (simp_all add: ticket_ok_def Q)
  have "r (Q' ! i) = Waiting (cu + 1 + of_nat i)" if "i < length Q'" for i
  proof -
    have "Suc i < length Q" using that by (simp add: Q)
    then have "r (Q ! Suc i) = Waiting (cu + of_nat (Suc i))"
      using assms(1) unfolding ticket_ok_def by blast
    then show ?thesis by (simp add: Q ac_simps)
  qed
  moreover have "Q' ! i \<noteq> t" if "i < length Q'" for i using that d(2) nth_mem by blast
  moreover have "set Q' = {u. (r(t := Out)) u \<noteq> Out}"
    using d(2,3) by auto
  ultimately show ?thesis using d(1,4) by (simp add: ticket_ok_def Q ac_simps)
qed

lemma ticket_free:
  assumes "ticket_ok tk cu r Q" and "tk = (cu :: 'a::len word)" and "length Q < 2 ^ LENGTH('a)"
  shows "Q = []"
proof -
  have "(of_nat (length Q) :: 'a word) = of_nat 0" using assms(1,2) by (simp add: ticket_ok_def)
  then have "length Q = 0" using assms(3) by (intro of_nat_word_inj [where 'a = 'a]) simp_all
  then show ?thesis by simp
qed

lemma ticket_try:
  assumes "ticket_ok tk cu r Q" and "tk = (cu :: 'a::len word)" and "length Q < 2 ^ LENGTH('a)"
  shows "ticket_ok (tk + 1) cu (r(t := Holding)) [t]"
proof -
  have "Q = []" by (rule ticket_free [OF assms])
  then have "r u = Out" for u using assms(1) by (auto simp: ticket_ok_def)
  then show ?thesis using assms(1,2) \<open>Q = []\<close> by (auto simp: ticket_ok_def)
qed

text \<open>Fewer threads than tickets: the queue never wraps onto itself.\<close>

lemma queue_length:
  assumes "distinct Q" "set Q \<subseteq> T" "finite T" "card T < n"
  shows "length Q < n"
  using assms card_mono [of T "set Q"] distinct_card [of Q] by linarith

text \<open>The threads ahead of a waiting thread: the one that holds the lock and those with tickets served
  before. There are as many as the distance of its ticket from the one being served.\<close>

definition ahead_of :: "'a::len word \<Rightarrow> (tid \<Rightarrow> 'a word role) \<Rightarrow> 'a word \<Rightarrow> tid set" where
  "ahead_of cu r k = {u. r u = Holding \<or> (\<exists>j. r u = Waiting j \<and> unat (j - cu) < unat (k - cu))}"

lemma ticket_ahead:
  assumes "ticket_ok tk cu r Q" and "r t = Waiting (k :: 'a::len word)" and "length Q < 2 ^ LENGTH('a)"
    and "0 < unat (k - cu)"
  shows "ahead_of cu r k = set (take (unat (k - cu)) Q)"
proof (intro set_eqI iffI)
  let ?n = "unat (k - cu)"
  have n: "?n < length Q" "Q ! ?n = t" using ticket_waiting [OF assms(1-3)] by simp_all
  fix u
  assume "u \<in> ahead_of cu r k"
  then show "u \<in> set (take ?n Q)"
    unfolding ahead_of_def
  proof (elim CollectE disjE exE conjE)
    assume "r u = Holding"
    then obtain Q' where "Q = u # Q'" using ticket_holding assms(1) by blast
    then show ?thesis using assms(4) by (cases ?n) simp_all
  next
    fix j
    assume "r u = Waiting j" "unat (j - cu) < ?n"
    then have "unat (j - cu) < length Q" "Q ! unat (j - cu) = u" using ticket_waiting assms(1,3) by blast+
    then show ?thesis using \<open>unat (j - cu) < ?n\<close> n(1) by (auto simp: in_set_conv_nth)
  qed
next
  let ?n = "unat (k - cu)"
  have n: "?n < length Q" using ticket_waiting [OF assms(1-3)] by simp
  fix u
  assume "u \<in> set (take ?n Q)"
  then obtain i where i: "i < ?n" "Q ! i = u" by (auto simp: in_set_conv_nth)
  then have "i < length Q" using n by simp
  then have "r u = Waiting (cu + of_nat i) \<or> r u = Holding" using assms(1) i(2) by (auto simp: ticket_ok_def)
  moreover have "unat (cu + of_nat i - cu) = i"
    using \<open>i < length Q\<close> assms(3) by (simp add: unsigned_of_nat take_bit_nat_eq_self_iff)
  ultimately show "u \<in> ahead_of cu r k" using i(1) by (auto simp: ahead_of_def)
qed

lemma ticket_card_ahead:
  assumes "ticket_ok tk cu r Q" and "r t = Waiting (k :: 'a::len word)" and "length Q < 2 ^ LENGTH('a)"
  shows "card (ahead_of cu r k) = unat (k - cu)"
proof (cases "unat (k - cu) = 0")
  case True
  then have "k - cu = 0" by (simp only: unsigned_eq_0_iff)
  then have "k = cu" by simp
  have "r u \<noteq> Holding" for u
  proof
    assume "r u = Holding"
    then obtain Q' where "Q = u # Q'" using ticket_holding assms(1) by blast
    moreover have "Q ! 0 = t" using ticket_waiting [OF assms] True by simp
    ultimately show False using \<open>r u = Holding\<close> assms(2) by simp
  qed
  then show ?thesis by (simp add: ahead_of_def \<open>k = cu\<close>)
next
  case False
  then have "ahead_of cu r k = set (take (unat (k - cu)) Q)" using ticket_ahead assms by blast
  moreover have "distinct (take (unat (k - cu)) Q)" using assms(1) by (simp add: ticket_ok_def)
  ultimately show ?thesis using ticket_waiting [OF assms] by (simp add: distinct_card)
qed


section \<open>Locks that hand out tickets\<close>

text \<open>Fewer threads than tickets.\<close>

definition few :: "tid set \<Rightarrow> bool" where
  "few T \<longleftrightarrow> finite T \<and> card T < 2 ^ 32"

text \<open>
  The contract between a ticket lock and its correctness. A step of a thread draws a ticket, enters
  when its ticket is served, enters a free lock at once (the try locks), serves the next ticket, or
  leaves the queue alone; what a thread remembers of the lock (\<open>loc\<close>) survives the steps of the others,
  where only the holder may rely on the ticket being served.
\<close>

locale ticket_protocol =
  fixes start :: "'o \<Rightarrow> 'l option"
    and exec :: "('s, 'l, 'r) exec"
    and s0 :: 's
    and T :: "tid set"
    and tk :: "'s \<Rightarrow> 32 word"
    and cu :: "'s \<Rightarrow> 32 word"
    and role :: "('l, 'r) control \<Rightarrow> 32 word role"
    and loc :: "'s \<Rightarrow> ('l, 'r) control \<Rightarrow> bool"
  assumes tickets_init: "tk s0 = 0" "cu s0 = 0"
    and role_rest: "role Idle = Out" "role (Finished r) = Out" "start op = Some x \<Longrightarrow> role (At x) = Out"
    and loc_rest: "loc s Idle" "start op = Some x \<Longrightarrow> loc s (At x)"
    and ticket_step: "exec t p s x = Next s' y \<Longrightarrow> loc s (At x) \<Longrightarrow>
        tk s' = tk s \<and> cu s' = cu s \<and> role y = role (At x) \<or>
        tk s' = tk s + 1 \<and> cu s' = cu s \<and> role (At x) = Out \<and> role y = Waiting (tk s) \<or>
        tk s' = tk s \<and> cu s' = cu s \<and> role (At x) = Waiting (cu s) \<and> role y = Holding \<or>
        tk s' = tk s + 1 \<and> cu s' = cu s \<and> tk s = cu s \<and> role (At x) = Out \<and> role y = Holding \<or>
        tk s' = tk s \<and> cu s' = cu s + 1 \<and> role (At x) = Holding \<and> role y = Out"
    and loc_step: "exec t p s x = Next s' y \<Longrightarrow> loc s (At x) \<Longrightarrow> loc s' y"
    and loc_stable: "exec t p s x = Next s' y \<Longrightarrow> loc s z \<Longrightarrow> cu s' = cu s \<or> role z \<noteq> Holding \<Longrightarrow> loc s' z"
begin

definition queue_of :: "'s \<Rightarrow> (tid \<Rightarrow> ('l, 'r) control) \<Rightarrow> tid list \<Rightarrow> bool" where
  "queue_of s c Q \<longleftrightarrow> ticket_ok (tk s) (cu s) (role \<circ> c) Q \<and> length Q < 2 ^ LENGTH(32)"

definition lock_inv :: "'s \<Rightarrow> (tid \<Rightarrow> ('l, 'r) control) \<Rightarrow> bool" where
  "lock_inv s c \<longleftrightarrow> (\<forall>t. c t \<noteq> Idle \<longrightarrow> t \<in> T) \<and> (\<forall>t. loc s (c t)) \<and>
     (\<exists>Q. ticket_ok (tk s) (cu s) (role \<circ> c) Q)"

lemma lock_inv_queue:
  assumes "lock_inv s c" and "few T"
  obtains Q where "queue_of s c Q"
proof -
  obtain Q where Q: "ticket_ok (tk s) (cu s) (role \<circ> c) Q" using assms(1) by (auto simp: lock_inv_def)
  have "t \<in> T" if "t \<in> set Q" for t
  proof -
    have "role (c t) \<noteq> Out" using Q that by (auto simp: ticket_ok_def)
    then have "c t \<noteq> Idle" using role_rest(1) by auto
    then show ?thesis using assms(1) by (auto simp: lock_inv_def)
  qed
  then have "set Q \<subseteq> T" by blast
  moreover have "distinct Q" using Q by (simp add: ticket_ok_def)
  ultimately have "length Q < 2 ^ 32" using assms(2) by (intro queue_length [of Q T]) (simp_all add: few_def)
  then show thesis using Q that by (simp add: queue_of_def)
qed

lemma lock_inv_rest:
  assumes "lock_inv s c" and "role (c t) = Out" and "role y = Out" and "loc s y" and "y = Idle \<or> t \<in> T"
  shows "lock_inv s (c(t := y))"
proof -
  obtain Q where "ticket_ok (tk s) (cu s) (role \<circ> c) Q" using assms(1) by (auto simp: lock_inv_def)
  then have "ticket_ok (tk s) (cu s) ((role \<circ> c)(t := role y)) Q"
    using assms(2,3) by (intro ticket_keep) simp_all
  then show ?thesis using assms unfolding lock_inv_def comp_upd by auto
qed

lemma queue_exclusive: "queue_of s c Q \<Longrightarrow> role (c t) = Holding \<Longrightarrow> role (c u) = Holding \<Longrightarrow> t = u"
  unfolding queue_of_def by (rule ticket_exclusive [where r = "role \<circ> c"]) auto

lemma queue_step:
  assumes "queue_of s c Q" and c: "c t = At x" and "exec t p s x = Next s' y" and "loc s (At x)"
  shows "\<exists>Q'. ticket_ok (tk s') (cu s') ((role \<circ> c)(t := role y)) Q'"
proof -
  have Q: "ticket_ok (tk s) (cu s) (role \<circ> c) Q" "length Q < 2 ^ LENGTH(32)"
    using assms(1) by (simp_all add: queue_of_def)
  from ticket_step [OF assms(3,4)] show ?thesis
  proof (elim disjE conjE)
    assume "tk s' = tk s" "cu s' = cu s" "role y = role (At x)"
    then show ?thesis using ticket_keep [OF Q(1), of t "role y"] c by auto
  next
    assume "tk s' = tk s + 1" "cu s' = cu s" "role (At x) = Out" "role y = Waiting (tk s)"
    then show ?thesis using ticket_draw [OF Q(1), of t] c by auto
  next
    assume "tk s' = tk s" "cu s' = cu s" "role (At x) = Waiting (cu s)" "role y = Holding"
    then show ?thesis using ticket_enter [OF Q(1) _ Q(2), of t] c by auto
  next
    assume "tk s' = tk s + 1" "cu s' = cu s" "tk s = cu s" "role (At x) = Out" "role y = Holding"
    then show ?thesis using ticket_try [OF Q(1) _ Q(2), of t] c by auto
  next
    assume "tk s' = tk s" "cu s' = cu s + 1" "role (At x) = Holding" "role y = Out"
    then show ?thesis using ticket_leave [OF Q(1), of t] c by auto
  qed
qed

lemma lock_inv_exec:
  assumes "lock_inv s c" and "few T" and c: "c t = At x" and ex: "exec t p s x = Next s' y"
  shows "lock_inv s' (c(t := y))"
proof -
  obtain Q where Q: "queue_of s c Q" using lock_inv_queue assms(1,2) .
  have loc: "loc s (c u)" for u using assms(1) by (simp add: lock_inv_def)
  have "loc s (At x)" using loc [of t] c by simp
  have "loc s' (c u)" if "u \<noteq> t" for u
  proof (rule loc_stable [OF ex loc])
    have "role (c t) = Holding" if "cu s' \<noteq> cu s"
      using ticket_step [OF ex \<open>loc s (At x)\<close>] that c by auto
    then show "cu s' = cu s \<or> role (c u) \<noteq> Holding"
      using queue_exclusive [OF Q, of t u] that by blast
  qed
  moreover have "loc s' y" using loc_step [OF ex \<open>loc s (At x)\<close>] .
  moreover have "\<exists>Q'. ticket_ok (tk s') (cu s') ((role \<circ> c)(t := role y)) Q'"
    using queue_step [OF Q c ex \<open>loc s (At x)\<close>] .
  moreover have "t \<in> T" "\<And>u. c u \<noteq> Idle \<Longrightarrow> u \<in> T" using assms(1) c by (auto simp: lock_inv_def)
  ultimately show ?thesis unfolding lock_inv_def comp_upd by auto
qed

end

sublocale ticket_protocol \<subseteq> locked: run_invariant start exec s0 T "\<lambda>s c. few T \<longrightarrow> lock_inv s c"
proof
  show "few T \<longrightarrow> lock_inv s0 (\<lambda>_. Idle)"
    using ticket_init tickets_init role_rest(1) loc_rest(1)
    by (auto simp: lock_inv_def comp_def intro!: exI [of _ "[]"])
next
  fix s c t op x
  assume "few T \<longrightarrow> lock_inv s c" "t \<in> T" "c t = Idle" "start op = Some x"
  then show "few T \<longrightarrow> lock_inv s (c(t := At x))"
    using lock_inv_rest [of s c t "At x"] role_rest loc_rest by simp
next
  fix s c t r
  assume "few T \<longrightarrow> lock_inv s c" "c t = Finished r"
  then show "few T \<longrightarrow> lock_inv s (c(t := Idle))"
    using lock_inv_rest [of s c t Idle] role_rest loc_rest by simp
next
  fix s c t x p s' y
  assume "few T \<longrightarrow> lock_inv s c" "c t = At x" "exec t p s x = Next s' y"
  then show "few T \<longrightarrow> lock_inv s' (c(t := y))" using lock_inv_exec by blast
qed

context ticket_protocol
begin

lemma reachable_queue:
  assumes "run start exec s0 n h (s, c)" and "threads h \<subseteq> T" and "few T"
  obtains Q where "lock_inv s c" "queue_of s c Q"
proof -
  have "lock_inv s c" using locked.invariant [OF assms(1,2)] assms(3) by simp
  then show thesis using lock_inv_queue [OF _ assms(3)] that by blast
qed

lemma reachable_fifo:
  assumes "run start exec s0 n h (s, c)" and "threads h \<subseteq> T" and "few T"
  shows "(\<forall>t u. role (c t) = Holding \<longrightarrow> role (c u) = Holding \<longrightarrow> t = u) \<and>
    (\<forall>t k. role (c t) = Waiting k \<longrightarrow> card (ahead_of (cu s) (role \<circ> c) k) = unat (k - cu s))"
proof -
  obtain Q where Q: "queue_of s c Q" using reachable_queue assms .
  then show ?thesis
    using queue_exclusive ticket_card_ahead [where r = "role \<circ> c" and Q = Q] unfolding queue_of_def by auto
qed

lemma reachable_loc:
  assumes "run start exec s0 n h (s, c)" and "threads h \<subseteq> T" and "few T"
  shows "loc s (c t)"
  using reachable_queue [OF assms] by (metis lock_inv_def)

end

text \<open>Progress: the thread whose ticket is served can enter, and the holder is at most \<open>B\<close> steps from
  serving the next.\<close>

locale ticket_protocol_progress = ticket_protocol +
  fixes left :: "('b, 'd) control \<Rightarrow> nat" and B :: nat
  assumes enters: "role (At x) = Waiting (cu s) \<Longrightarrow>
        \<exists>y. exec t p s x = Next s y \<and> role y = Holding \<and> left y \<le> B"
    and leaves: "role (At x) = Holding \<Longrightarrow> loc s (At x) \<Longrightarrow> 0 < left (At x) \<and> left (At x) \<le> B \<and>
        (\<exists>s' y. exec t p s x = Next s' y \<and>
           (cu s' = cu s + 1 \<and> role y = Out \<or> cu s' = cu s \<and> role y = Holding \<and> left y < left (At x)))"
begin

lemma holder_leaves:
  assumes "lock_inv s c" and "few T" and "t \<noteq> u" and "role (c t) = Waiting k" and "role (c u) = Holding"
    and "unat (k - cu s) = Suc d"
    and next_turn: "\<And>s c. lock_inv s c \<Longrightarrow> role (c t) = Waiting k \<Longrightarrow> unat (k - cu s) = d \<Longrightarrow> can_reach exec P n s c"
  shows "can_reach exec P (left (c u) + n) s c"
  using assms(1,4-6)
proof (induction "left (c u)" arbitrary: s c rule: less_induct)
  case less
  obtain x where x: "c u = At x" using less.prems(3) role_rest by (cases "c u") auto
  have "loc s (At x)" using less.prems(1) x by (metis lock_inv_def)
  then obtain s' y where ex: "exec u 0 s x = Next s' y" and left: "0 < left (c u)"
      and y: "cu s' = cu s + 1 \<and> role y = Out \<or> cu s' = cu s \<and> role y = Holding \<and> left y < left (c u)"
    using leaves [of x s u 0] less.prems(3) x by auto
  have inv: "lock_inv s' (c(u := y))" using lock_inv_exec less.prems(1) assms(2) x ex .
  from y have "can_reach exec P (left (c u) - 1 + n) s' (c(u := y))"
  proof (elim disjE conjE)
    assume cu: "cu s' = cu s + 1"
    have "k - cu s \<noteq> 0" using less.prems(4) by auto
    then have "unat ((k - cu s) - 1) = d" using less.prems(4) by (simp add: unat_minus_one)
    then have "unat (k - cu s') = d" using cu by (simp add: diff_diff_eq)
    then have "can_reach exec P n s' (c(u := y))"
      using inv less.prems(2) assms(3) by (intro next_turn) simp_all
    then show ?thesis by (rule can_reach_mono) simp
  next
    assume *: "cu s' = cu s" "role y = Holding" "left y < left (c u)"
    then have "can_reach exec P (left ((c(u := y)) u) + n) s' (c(u := y))"
      using inv less.prems(2,4) assms(3) by (intro less.hyps [where c = "c(u := y)"]) simp_all
    then show ?thesis using *(3) by (elim can_reach_mono) simp
  qed
  then have "can_reach exec P (Suc (left (c u) - 1 + n)) s c"
    by (rule reach_step [where c = c and t = u and p = 0 and exec = exec, OF x ex])
  then show ?case using left by simp
qed

lemma progress:
  assumes "lock_inv s c" and "few T" and "role (c t) = Waiting k"
  shows "can_reach exec (\<lambda>s c. role (c t) = Holding) (Suc B * unat (k - cu s) + 1) s c"
  using assms(1,3)
proof (induction "unat (k - cu s)" arbitrary: s c)
  case 0
  have "k - cu s = 0" using 0(1) [symmetric] by (simp only: unsigned_eq_0_iff)
  then have w: "role (c t) = Waiting (cu s)" using 0 by simp
  obtain x where x: "c t = At x" using w role_rest by (cases "c t") auto
  obtain y where y: "exec t 0 s x = Next s y" "role y = Holding" using enters [of x s t 0] w x by auto
  have "can_reach exec (\<lambda>s c. role (c t) = Holding) 0 s (c(t := y))"
    using y(2) by (intro reach_now) simp
  then have "can_reach exec (\<lambda>s c. role (c t) = Holding) (Suc 0) s c"
    by (rule reach_step [where c = c and t = t and p = 0 and exec = exec, OF x y(1)])
  then show ?case by (rule can_reach_mono) simp
next
  case (Suc d)
  let ?P = "\<lambda>s c. role (c t) = Holding"
  obtain Q where "queue_of s c Q" using lock_inv_queue Suc.prems(1) assms(2) .
  then have Q: "ticket_ok (tk s) (cu s) (role \<circ> c) Q" "length Q < 2 ^ LENGTH(32)"
    by (simp_all add: queue_of_def)
  have t: "unat (k - cu s) < length Q" "Q ! unat (k - cu s) = t"
    using ticket_waiting [OF Q(1) _ Q(2), of t k] Suc.prems(2) by simp_all
  define u where "u = Q ! 0"
  have "0 < length Q" using t by auto
  moreover have "distinct Q" using Q(1) by (simp add: ticket_ok_def)
  ultimately have "t \<noteq> u" using t Suc.hyps(2) by (auto simp: u_def nth_eq_iff_index_eq)
  have turn: "can_reach exec ?P (Suc B * d + 1) s c"
    if "lock_inv s c" "role (c t) = Waiting k" "unat (k - cu s) = d" for s c
    using Suc.hyps(1) [of s c] that by simp
  have hold: "can_reach exec ?P (left (c u) + (Suc B * d + 1)) s c"
    if "lock_inv s c" "role (c u) = Holding" "role (c t) = Waiting k" "unat (k - cu s) = Suc d" for s c
    by (rule holder_leaves [OF that(1) assms(2) \<open>t \<noteq> u\<close> that(3,2,4)]) (rule turn)
  have "role (c u) = Waiting (cu s) \<or> role (c u) = Holding"
    using Q(1) \<open>0 < length Q\<close> by (auto simp: ticket_ok_def u_def)
  then have "can_reach exec ?P (Suc (B + (Suc B * d + 1))) s c"
  proof
    assume w: "role (c u) = Waiting (cu s)"
    obtain x where x: "c u = At x" using w role_rest by (cases "c u") auto
    obtain y where y: "exec u 0 s x = Next s y" "role y = Holding" "left y \<le> B"
      using enters [of x s u 0] w x by auto
    have "lock_inv s (c(u := y))" using lock_inv_exec Suc.prems(1) assms(2) x y(1) .
    then have "can_reach exec ?P (left ((c(u := y)) u) + (Suc B * d + 1)) s (c(u := y))"
      using y(2) Suc.prems(2) Suc.hyps(2) \<open>t \<noteq> u\<close> by (intro hold [of _ "c(u := y)"]) simp_all
    then have "can_reach exec ?P (B + (Suc B * d + 1)) s (c(u := y))"
      using y(3) by (elim can_reach_mono) simp
    then show ?thesis
      by (rule reach_step [where c = c and t = u and p = 0 and exec = exec, OF x y(1)])
  next
    assume h: "role (c u) = Holding"
    obtain x where x: "c u = At x" using h role_rest by (cases "c u") auto
    have "loc s (At x)" using Suc.prems(1) x by (metis lock_inv_def)
    then have "left (c u) \<le> B" using leaves [of x s] h x by auto
    then show ?thesis
      using hold [OF Suc.prems(1) h Suc.prems(2)] Suc.hyps(2) by (auto elim!: can_reach_mono)
  qed
  then show ?case by (simp flip: Suc.hyps(2))
qed

lemma reachable_progress:
  assumes "run start exec s0 n h (s, c)" and "threads h \<subseteq> T" and "few T" and "role (c t) = Waiting k"
  shows "can_reach exec (\<lambda>s c. role (c t) = Holding)
    (Suc B * card (ahead_of (cu s) (role \<circ> c) k) + 1) s c"
proof -
  obtain Q where "lock_inv s c" using reachable_queue assms(1-3) .
  then show ?thesis
    using progress [of s c t k] assms(3) reachable_fifo [OF assms(1-3)] assms(4) by simp
qed

end

end
