(* ===== verification/Spin_Locks.thy ===== *)
theory Spin_Locks
  imports Lock_Protocol
begin

text \<open>
  The spin locks of \<^verbatim>\<open>include/lock_if.h\<close>: test-and-set (\<^verbatim>\<open>TAS\<close>), test-and-test-and-set (\<^verbatim>\<open>TTAS\<close>), the
  ticket lock (\<^verbatim>\<open>TICKET\<close>, with and without \<^verbatim>\<open>OPTERON_OPTIMIZE\<close>) and the empty lock (\<^verbatim>\<open>NONE\<close>). Each is a
  compile-time choice of the functions behind \<^verbatim>\<open>LOCK\<close>, \<^verbatim>\<open>TRYLOCK\<close> and \<^verbatim>\<open>UNLOCK\<close>. The counters of the
  ticket lock are 32 bits wide and wrap around; the theorems ask only that there be fewer threads
  than tickets. Not modelled: the \<^verbatim>\<open>RETRY_STATS\<close> variant of TAS and the pauses, which change no state.
\<close>

unbundle bit_operations_syntax

section \<open>Test and set\<close>

definition TAS_FREE :: "32 word" where "TAS_FREE = 0"
definition TAS_LCKD :: "32 word" where "TAS_LCKD = 1"

datatype tas_pc =
    TAS_Lock      \<comment> \<open>the compare-and-swap in the loop of \<^verbatim>\<open>tas_lock\<close>\<close>
  | TAS_Try       \<comment> \<open>the compare-and-swap of \<^verbatim>\<open>tas_trylock\<close>\<close>
  | TAS_Crit      \<comment> \<open>the critical section\<close>
  | TAS_Unlock    \<comment> \<open>the store of \<^verbatim>\<open>tas_unlock\<close>\<close>

type_synonym 'l lock_outcome = "(32 word, 'l, int) outcome"

text \<open>Compare and swap: the new content and the old one, which it returns.\<close>

definition cas_u32 :: "32 word \<Rightarrow> 32 word \<Rightarrow> 32 word \<Rightarrow> 32 word \<times> 32 word" where
  "cas_u32 l old new = (if l = old then new else l, l)"

definition tas_init :: "32 word" where
  "tas_init = TAS_FREE"

definition tas_lock :: "32 word \<Rightarrow> tas_pc lock_outcome" where
  "tas_lock l = (let (l', old) = cas_u32 l TAS_FREE TAS_LCKD in
     Next l' (At (if old = TAS_LCKD then TAS_Lock else TAS_Crit)))"

definition tas_trylock :: "32 word \<Rightarrow> tas_pc lock_outcome" where
  "tas_trylock l = (let (l', old) = cas_u32 l TAS_FREE TAS_LCKD in
     Next l' (if old = TAS_FREE then At TAS_Crit else Finished 0))"

definition tas_unlock :: "32 word \<Rightarrow> tas_pc lock_outcome" where
  "tas_unlock l = Next TAS_FREE (Finished 1)"

fun tas_start :: "lock_op \<Rightarrow> tas_pc option" where
  "tas_start Acquire = Some TAS_Lock"
| "tas_start Try_Acquire = Some TAS_Try"

fun tas_exec :: "tid \<Rightarrow> ptr \<Rightarrow> 32 word \<Rightarrow> tas_pc \<Rightarrow> tas_pc lock_outcome" where
  "tas_exec t p l TAS_Lock = tas_lock l"
| "tas_exec t p l TAS_Try = tas_trylock l"
| "tas_exec t p l TAS_Crit = Next l (At TAS_Unlock)"
| "tas_exec t p l TAS_Unlock = tas_unlock l"

section \<open>Test and test and set\<close>

definition TTAS_FREE :: "32 word" where "TTAS_FREE = 0"
definition TTAS_LCKD :: "32 word" where "TTAS_LCKD = 1"

datatype ttas_pc =
    TTAS_Spin     \<comment> \<open>the inner loop of \<^verbatim>\<open>ttas_lock\<close>\<close>
  | TTAS_CAS      \<comment> \<open>its compare-and-swap\<close>
  | TTAS_Try      \<comment> \<open>the compare-and-swap of \<^verbatim>\<open>ttas_trylock\<close>\<close>
  | TTAS_Crit     \<comment> \<open>the critical section\<close>
  | TTAS_Unlock   \<comment> \<open>the store of \<^verbatim>\<open>ttas_unlock\<close>\<close>

definition ttas_init :: "32 word" where
  "ttas_init = TTAS_FREE"

fun ttas_lock :: "32 word \<Rightarrow> ttas_pc \<Rightarrow> ttas_pc lock_outcome" where
  "ttas_lock l TTAS_Spin = Next l (At (if l = TTAS_LCKD then TTAS_Spin else TTAS_CAS))"
| "ttas_lock l TTAS_CAS = (let (l', old) = cas_u32 l TTAS_FREE TTAS_LCKD in
     Next l' (At (if old = TTAS_FREE then TTAS_Crit else TTAS_Spin)))"
| "ttas_lock l x = Blocked"

definition ttas_trylock :: "32 word \<Rightarrow> ttas_pc lock_outcome" where
  "ttas_trylock l = (let (l', old) = cas_u32 l TTAS_FREE TTAS_LCKD in
     Next l' (if old = TTAS_FREE then At TTAS_Crit else Finished 0))"

definition ttas_unlock :: "32 word \<Rightarrow> ttas_pc lock_outcome" where
  "ttas_unlock l = Next TTAS_FREE (Finished 1)"

fun ttas_start :: "lock_op \<Rightarrow> ttas_pc option" where
  "ttas_start Acquire = Some TTAS_Spin"
| "ttas_start Try_Acquire = Some TTAS_Try"

fun ttas_exec :: "tid \<Rightarrow> ptr \<Rightarrow> 32 word \<Rightarrow> ttas_pc \<Rightarrow> ttas_pc lock_outcome" where
  "ttas_exec t p l TTAS_Try = ttas_trylock l"
| "ttas_exec t p l TTAS_Crit = Next l (At TTAS_Unlock)"
| "ttas_exec t p l TTAS_Unlock = ttas_unlock l"
| "ttas_exec t p l x = ttas_lock l x"

section \<open>The ticket lock\<close>

record ticket_st =
  tk_ticket :: "32 word"
  tk_curr :: "32 word"

datatype ticket_pc =
    TK_Draw                          \<comment> \<open>\<^verbatim>\<open>ticket = FAI_U32(&l->ticket)\<close>\<close>
  | TK_Wait "32 word"                \<comment> \<open>\<^verbatim>\<open>while (ticket != l->curr)\<close>\<close>
  | TK_Poll "32 word" "32 word" "32 word"
      \<comment> \<open>the loop with \<^verbatim>\<open>OPTERON_OPTIMIZE\<close>: ticket, \<^verbatim>\<open>wait\<close> and \<^verbatim>\<open>distance_prev\<close>\<close>
  | TK_Try                           \<comment> \<open>\<^verbatim>\<open>tc = *l\<close> and the comparison of its halves\<close>
  | TK_Try_CAS ticket_st             \<comment> \<open>the compare-and-swap of \<^verbatim>\<open>ticket_trylock\<close>\<close>
  | TK_Crit                          \<comment> \<open>the critical section\<close>
  | TK_Unlock_Read                   \<comment> \<open>\<^verbatim>\<open>l->curr++\<close>, the load\<close>
  | TK_Unlock_Write "32 word"        \<comment> \<open>and the store\<close>

type_synonym ticket_outcome = "(ticket_st, ticket_pc, int) outcome"

definition ticket_init :: ticket_st where
  "ticket_init = \<lparr>tk_ticket = 0, tk_curr = 0\<rparr>"

definition TICKET_BASE_WAIT :: "32 word" where "TICKET_BASE_WAIT = 512"
definition TICKET_MAX_WAIT :: "32 word" where "TICKET_MAX_WAIT = 4095"
definition TICKET_WAIT_NEXT :: "32 word" where "TICKET_WAIT_NEXT = 128"

text \<open>One round of the loop with \<^verbatim>\<open>OPTERON_OPTIMIZE\<close>: the number of nops, and the new \<^verbatim>\<open>wait\<close> and
  \<^verbatim>\<open>distance_prev\<close>.\<close>

definition ticket_backoff :: "32 word \<Rightarrow> 32 word \<Rightarrow> 32 word \<Rightarrow> 32 word \<Rightarrow> 32 word \<times> 32 word \<times> 32 word" where
  "ticket_backoff ticket cur wait prev =
    (let distance = (if ticket > cur then ticket - cur else cur - ticket)
     in if distance > 1
        then (let (prev, wait) = (if distance \<noteq> prev then (distance, TICKET_BASE_WAIT) else (prev, wait))
              in (distance * wait, (wait + TICKET_BASE_WAIT) AND TICKET_MAX_WAIT, prev))
        else (TICKET_WAIT_NEXT, wait, prev))"

fun ticket_lock :: "bool \<Rightarrow> ticket_st \<Rightarrow> ticket_pc \<Rightarrow> ticket_outcome" where
  "ticket_lock opteron l TK_Draw =
     Next (l\<lparr>tk_ticket := tk_ticket l + 1\<rparr>)
       (At (if opteron then TK_Poll (tk_ticket l) TICKET_BASE_WAIT 1 else TK_Wait (tk_ticket l)))"
| "ticket_lock opteron l (TK_Wait ticket) =
     Next l (At (if ticket \<noteq> tk_curr l then TK_Wait ticket else TK_Crit))"
| "ticket_lock opteron l (TK_Poll ticket wait prev) =
     (let cur = tk_curr l
      in if cur = ticket then Next l (At TK_Crit)
         else let (nops, wait, prev) = ticket_backoff ticket cur wait prev
              in Next l (At (TK_Poll ticket wait prev)))"
| "ticket_lock opteron l x = Blocked"

fun ticket_trylock :: "ticket_st \<Rightarrow> ticket_pc \<Rightarrow> ticket_outcome" where
  "ticket_trylock l TK_Try =
     Next l (if tk_curr l = tk_ticket l then At (TK_Try_CAS l) else Finished 0)"
| "ticket_trylock l (TK_Try_CAS tc) =
     (if l = tc then Next (tc\<lparr>tk_ticket := tk_ticket tc + 1\<rparr>) (At TK_Crit) else Next l (Finished 0))"
| "ticket_trylock l x = Blocked"

fun ticket_unlock :: "ticket_st \<Rightarrow> ticket_pc \<Rightarrow> ticket_outcome" where
  "ticket_unlock l TK_Unlock_Read = Next l (At (TK_Unlock_Write (tk_curr l)))"
| "ticket_unlock l (TK_Unlock_Write v) = Next (l\<lparr>tk_curr := v + 1\<rparr>) (Finished 1)"
| "ticket_unlock l x = Blocked"

fun ticket_start :: "lock_op \<Rightarrow> ticket_pc option" where
  "ticket_start Acquire = Some TK_Draw"
| "ticket_start Try_Acquire = Some TK_Try"

fun ticket_exec :: "bool \<Rightarrow> tid \<Rightarrow> ptr \<Rightarrow> ticket_st \<Rightarrow> ticket_pc \<Rightarrow> ticket_outcome" where
  "ticket_exec opteron t p l TK_Try = ticket_trylock l TK_Try"
| "ticket_exec opteron t p l (TK_Try_CAS tc) = ticket_trylock l (TK_Try_CAS tc)"
| "ticket_exec opteron t p l TK_Crit = Next l (At TK_Unlock_Read)"
| "ticket_exec opteron t p l TK_Unlock_Read = ticket_unlock l TK_Unlock_Read"
| "ticket_exec opteron t p l (TK_Unlock_Write v) = ticket_unlock l (TK_Unlock_Write v)"
| "ticket_exec opteron t p l x = ticket_lock opteron l x"

section \<open>The empty lock\<close>

definition none_lock :: "32 word \<Rightarrow> 32 word \<times> int" where "none_lock l = (l, 0)"
definition none_trylock :: "32 word \<Rightarrow> 32 word \<times> int" where "none_trylock l = (l, 1)"
definition none_unlock :: "32 word \<Rightarrow> 32 word \<times> int" where "none_unlock l = (l, 0)"

section \<open>Invariants\<close>

fun tas_holds :: "(tas_pc, int) control \<Rightarrow> bool" where
  "tas_holds (At TAS_Crit) = True"
| "tas_holds (At TAS_Unlock) = True"
| "tas_holds x = False"

definition tas_inv :: "32 word \<Rightarrow> (tid \<Rightarrow> (tas_pc, int) control) \<Rightarrow> bool" where
  "tas_inv l c \<longleftrightarrow> l \<in> {TAS_FREE, TAS_LCKD} \<and> flag_ok (l = TAS_LCKD) (tas_holds \<circ> c)"

interpretation tas: run_invariant tas_start tas_exec tas_init UNIV tas_inv
proof
  show "tas_inv tas_init (\<lambda>_. Idle)"
    using flag_init by (simp add: tas_inv_def tas_init_def TAS_FREE_def TAS_LCKD_def comp_def)
next
  fix s t x op and c :: "tid \<Rightarrow> (tas_pc, int) control"
  assume "tas_inv s c" "c t = Idle" "tas_start op = Some x"
  then show "tas_inv s (c(t := At x))"
    by (cases op) (auto simp: tas_inv_def comp_upd intro!: flag_keep)
next
  fix s t r and c :: "tid \<Rightarrow> (tas_pc, int) control"
  assume "tas_inv s c" "c t = Finished r"
  then show "tas_inv s (c(t := Idle))"
    by (auto simp: tas_inv_def comp_upd intro!: flag_keep)
next
  fix s t x p s' y and c :: "tid \<Rightarrow> (tas_pc, int) control"
  assume "tas_inv s c" "c t = At x" "tas_exec t p s x = Next s' y"
  moreover note flag_acquire [of "tas_holds \<circ> c" t] flag_release [of _ "tas_holds \<circ> c" t]
    flag_keep [of "s = TAS_LCKD" "tas_holds \<circ> c" t "tas_holds (c t)"]
    flag_keep [of "s = TAS_LCKD" "tas_holds \<circ> c" t True] flag_keep [of "s = TAS_LCKD" "tas_holds \<circ> c" t False]
  ultimately show "tas_inv s' (c(t := y))"
    by (cases x) (simp_all add: tas_inv_def comp_upd tas_lock_def tas_trylock_def tas_unlock_def cas_u32_def
        TAS_FREE_def TAS_LCKD_def split: if_splits, auto)
qed

fun ttas_holds :: "(ttas_pc, int) control \<Rightarrow> bool" where
  "ttas_holds (At TTAS_Crit) = True"
| "ttas_holds (At TTAS_Unlock) = True"
| "ttas_holds x = False"

definition ttas_inv :: "32 word \<Rightarrow> (tid \<Rightarrow> (ttas_pc, int) control) \<Rightarrow> bool" where
  "ttas_inv l c \<longleftrightarrow> l \<in> {TTAS_FREE, TTAS_LCKD} \<and> flag_ok (l = TTAS_LCKD) (ttas_holds \<circ> c)"

interpretation ttas: run_invariant ttas_start ttas_exec ttas_init UNIV ttas_inv
proof
  show "ttas_inv ttas_init (\<lambda>_. Idle)"
    using flag_init by (simp add: ttas_inv_def ttas_init_def TTAS_FREE_def TTAS_LCKD_def comp_def)
next
  fix s t x op and c :: "tid \<Rightarrow> (ttas_pc, int) control"
  assume "ttas_inv s c" "c t = Idle" "ttas_start op = Some x"
  then show "ttas_inv s (c(t := At x))"
    by (cases op) (auto simp: ttas_inv_def comp_upd intro!: flag_keep)
next
  fix s t r and c :: "tid \<Rightarrow> (ttas_pc, int) control"
  assume "ttas_inv s c" "c t = Finished r"
  then show "ttas_inv s (c(t := Idle))"
    by (auto simp: ttas_inv_def comp_upd intro!: flag_keep)
next
  fix s t x p s' y and c :: "tid \<Rightarrow> (ttas_pc, int) control"
  assume "ttas_inv s c" "c t = At x" "ttas_exec t p s x = Next s' y"
  moreover note flag_acquire [of "ttas_holds \<circ> c" t] flag_release [of _ "ttas_holds \<circ> c" t]
    flag_keep [of "s = TTAS_LCKD" "ttas_holds \<circ> c" t "ttas_holds (c t)"]
    flag_keep [of "s = TTAS_LCKD" "ttas_holds \<circ> c" t True] flag_keep [of "s = TTAS_LCKD" "ttas_holds \<circ> c" t False]
  ultimately show "ttas_inv s' (c(t := y))"
    by (cases x) (simp_all add: ttas_inv_def comp_upd ttas_trylock_def ttas_unlock_def cas_u32_def
        TTAS_FREE_def TTAS_LCKD_def split: if_splits, auto)
qed

text \<open>The part a thread plays at the ticket lock.\<close>

fun ticket_role :: "(ticket_pc, int) control \<Rightarrow> 32 word role" where
  "ticket_role (At (TK_Wait k)) = Waiting k"
| "ticket_role (At (TK_Poll k w d)) = Waiting k"
| "ticket_role (At TK_Crit) = Holding"
| "ticket_role (At TK_Unlock_Read) = Holding"
| "ticket_role (At (TK_Unlock_Write v)) = Holding"
| "ticket_role x = Out"

text \<open>What a thread remembers of the lock.\<close>

fun ticket_local :: "ticket_st \<Rightarrow> (ticket_pc, int) control \<Rightarrow> bool" where
  "ticket_local l (At (TK_Unlock_Write v)) = (v = tk_curr l)"
| "ticket_local l (At (TK_Try_CAS tc)) = (tk_curr tc = tk_ticket tc)"
| "ticket_local l x = True"

fun ticket_left :: "(ticket_pc, int) control \<Rightarrow> nat" where
  "ticket_left (At TK_Crit) = 3"
| "ticket_left (At TK_Unlock_Read) = 2"
| "ticket_left (At (TK_Unlock_Write v)) = 1"
| "ticket_left x = 0"

interpretation ticket: ticket_protocol_progress ticket_start "ticket_exec opteron" ticket_init T
    tk_ticket tk_curr ticket_role ticket_local ticket_left 3 for opteron T
proof
  fix op x
  assume "ticket_start op = Some x"
  then show "ticket_role (At x) = Out" "ticket_local s (At x)" for s by (cases op; auto)+
next
  fix t p s x s' y
  assume *: "ticket_exec opteron t p s x = Next s' y"
  show "ticket_local s (At x) \<Longrightarrow> ticket_local s' y"
    using * by (cases x) (auto simp: Let_def split: if_splits prod.splits)
  show "ticket_local s z \<Longrightarrow> tk_curr s' = tk_curr s \<or> ticket_role z \<noteq> Holding \<Longrightarrow> ticket_local s' z" for z
    by (cases "(s, z)" rule: ticket_local.cases) auto
  show "ticket_local s (At x) \<Longrightarrow>
        tk_ticket s' = tk_ticket s \<and> tk_curr s' = tk_curr s \<and> ticket_role y = ticket_role (At x) \<or>
        tk_ticket s' = tk_ticket s + 1 \<and> tk_curr s' = tk_curr s \<and> ticket_role (At x) = Out \<and> ticket_role y = Waiting (tk_ticket s) \<or>
        tk_ticket s' = tk_ticket s \<and> tk_curr s' = tk_curr s \<and> ticket_role (At x) = Waiting (tk_curr s) \<and> ticket_role y = Holding \<or>
        tk_ticket s' = tk_ticket s + 1 \<and> tk_curr s' = tk_curr s \<and> tk_ticket s = tk_curr s \<and> ticket_role (At x) = Out \<and> ticket_role y = Holding \<or>
        tk_ticket s' = tk_ticket s \<and> tk_curr s' = tk_curr s + 1 \<and> ticket_role (At x) = Holding \<and> ticket_role y = Out"
    using * by (cases x) (auto simp: Let_def split: if_splits prod.splits)
next
  fix x s t p
  show "ticket_role (At x) = Waiting (tk_curr s) \<Longrightarrow>
      \<exists>y. ticket_exec opteron t p s x = Next s y \<and> ticket_role y = Holding \<and> ticket_left y \<le> 3"
    by (cases x) auto
  show "ticket_role (At x) = Holding \<Longrightarrow> ticket_local s (At x) \<Longrightarrow>
      0 < ticket_left (At x) \<and> ticket_left (At x) \<le> 3 \<and>
      (\<exists>s' y. ticket_exec opteron t p s x = Next s' y \<and> (tk_curr s' = tk_curr s + 1 \<and> ticket_role y = Out \<or>
         tk_curr s' = tk_curr s \<and> ticket_role y = Holding \<and> ticket_left y < ticket_left (At x)))"
    by (cases x) auto
qed (simp_all add: ticket_init_def)

section \<open>Mutual exclusion, order and progress\<close>

text \<open>C10: under TAS and TTAS at most one thread is in the critical section, and the flag says whether
  one is.\<close>

lemma tas_ttas_exclusive:
  "(run tas_start tas_exec tas_init n h (l, c) \<longrightarrow>
      (l = TAS_LCKD \<longleftrightarrow> (\<exists>t. tas_holds (c t))) \<and> (\<forall>t u. tas_holds (c t) \<longrightarrow> tas_holds (c u) \<longrightarrow> t = u)) \<and>
   (run ttas_start ttas_exec ttas_init m g (k, d) \<longrightarrow>
      (k = TTAS_LCKD \<longleftrightarrow> (\<exists>t. ttas_holds (d t))) \<and> (\<forall>t u. ttas_holds (d t) \<longrightarrow> ttas_holds (d u) \<longrightarrow> t = u))"
  using tas.invariant [of n h "(l, c)"] ttas.invariant [of m g "(k, d)"]
  by (auto simp: tas_inv_def ttas_inv_def flag_ok_def)

text \<open>A schedule with contention: thread 1 spins while thread 0 holds the lock.\<close>

definition lock_demo :: "lock_op command list" where
  "lock_demo = [Do_Call 0 Acquire, Do_Call 1 Acquire, Do_Step 0 0, Do_Step 0 0, Do_Step 1 0, Do_Step 1 0]"

lemma tas_ttas_exclusive_witness:
  "(\<exists>l c. run tas_start tas_exec tas_init (length lock_demo) [(0, Call Acquire), (1, Call Acquire)] (l, c)
     \<and> tas_holds (c 0) \<and> \<not> tas_holds (c 1)) \<and>
   (\<exists>l c. run ttas_start ttas_exec ttas_init (length lock_demo) [(0, Call Acquire), (1, Call Acquire)] (l, c)
     \<and> ttas_holds (c 0) \<and> \<not> ttas_holds (c 1))"
proof
  have "\<exists>l c. run tas_start tas_exec tas_init (length lock_demo) [(0, Call Acquire), (1, Call Acquire)] (l, c)
     \<and> tas_holds (c 0)"
    by (rule replay_exhibits)
      (simp add: lock_demo_def tas_lock_def tas_init_def cas_u32_def TAS_FREE_def TAS_LCKD_def)
  then obtain l c where r: "run tas_start tas_exec tas_init (length lock_demo) [(0, Call Acquire), (1, Call Acquire)] (l, c)"
      and h: "tas_holds (c 0)" by blast
  have "\<not> tas_holds (c 1)"
    using tas_ttas_exclusive [THEN conjunct1, THEN mp, OF r] h by (metis zero_neq_one)
  with r h show "\<exists>l c. run tas_start tas_exec tas_init (length lock_demo) [(0, Call Acquire), (1, Call Acquire)] (l, c)
     \<and> tas_holds (c 0) \<and> \<not> tas_holds (c 1)" by blast
  have "\<exists>l c. run ttas_start ttas_exec ttas_init (length lock_demo) [(0, Call Acquire), (1, Call Acquire)] (l, c)
     \<and> ttas_holds (c 0)"
    by (rule replay_exhibits)
      (simp add: lock_demo_def ttas_init_def cas_u32_def TTAS_FREE_def TTAS_LCKD_def)
  then obtain l c where r: "run ttas_start ttas_exec ttas_init (length lock_demo) [(0, Call Acquire), (1, Call Acquire)] (l, c)"
      and h: "ttas_holds (c 0)" by blast
  have "\<not> ttas_holds (c 1)"
    using tas_ttas_exclusive [THEN conjunct2, THEN mp, OF r] h by (metis zero_neq_one)
  with r h show "\<exists>l c. run ttas_start ttas_exec ttas_init (length lock_demo) [(0, Call Acquire), (1, Call Acquire)] (l, c)
     \<and> ttas_holds (c 0) \<and> \<not> ttas_holds (c 1)" by blast
qed

text \<open>C11: under the ticket lock at most one thread is in the critical section, and a waiting thread has
  exactly as many threads ahead of it as its ticket is away from the one being served, even after the
  counters have wrapped around.\<close>

lemma ticket_lock_fifo:
  assumes "run ticket_start (ticket_exec opteron) ticket_init n h (l, c)" and "threads h \<subseteq> T" and "few T"
  shows "(\<forall>t u. ticket_role (c t) = Holding \<longrightarrow> ticket_role (c u) = Holding \<longrightarrow> t = u) \<and>
    (\<forall>t k. ticket_role (c t) = Waiting k \<longrightarrow>
       card (ahead_of (tk_curr l) (ticket_role \<circ> c) k) = unat (k - tk_curr l))"
  using ticket.reachable_fifo [OF assms] .

lemma ticket_lock_fifo_witness:
  "\<exists>l c. run ticket_start (ticket_exec False) ticket_init (length lock_demo) [(0, Call Acquire), (1, Call Acquire)] (l, c)
     \<and> card (ahead_of (tk_curr l) (ticket_role \<circ> c) 1) = 1"
proof -
  have "\<exists>l c. run ticket_start (ticket_exec False) ticket_init (length lock_demo)
       [(0, Call Acquire), (1, Call Acquire)] (l, c) \<and> ticket_role (c 1) = Waiting 1 \<and> tk_curr l = 0"
    by (rule replay_exhibits) (simp add: lock_demo_def ticket_init_def)
  then obtain l c where r: "run ticket_start (ticket_exec False) ticket_init (length lock_demo)
       [(0, Call Acquire), (1, Call Acquire)] (l, c)" and w: "ticket_role (c 1) = Waiting 1" "tk_curr l = 0" by blast
  have "card (ahead_of (tk_curr l) (ticket_role \<circ> c) 1) = unat (1 - tk_curr l)"
    using ticket_lock_fifo [OF r, of "{0, 1}"] w(1) by (auto simp: threads_def few_def)
  then have "card (ahead_of (tk_curr l) (ticket_role \<circ> c) 1) = 1" using w(2) by simp
  with r show ?thesis by blast
qed

text \<open>C12: under the ticket lock a waiting thread can always get the lock: a schedule of four steps for
  each thread ahead of it and one of its own leads it into the critical section.\<close>

lemma ticket_lock_progress:
  assumes "run ticket_start (ticket_exec opteron) ticket_init n h (l, c)" and "threads h \<subseteq> T" and "few T"
    and "ticket_role (c t) = Waiting k"
  shows "can_reach (ticket_exec opteron) (\<lambda>l c. ticket_role (c t) = Holding)
    (4 * card (ahead_of (tk_curr l) (ticket_role \<circ> c) k) + 1) l c"
  using ticket.reachable_progress [OF assms] by (simp only: Suc_numeral semiring_norm numeral_eq_iff)

lemma ticket_lock_progress_witness:
  "\<exists>l c. run ticket_start (ticket_exec True) ticket_init (length lock_demo) [(0, Call Acquire), (1, Call Acquire)] (l, c)
     \<and> (\<exists>m. can_reach (ticket_exec True) (\<lambda>l c. ticket_role (c 1) = Holding) m l c)"
proof -
  have "\<exists>l c. run ticket_start (ticket_exec True) ticket_init (length lock_demo)
       [(0, Call Acquire), (1, Call Acquire)] (l, c) \<and> ticket_role (c 1) = Waiting 1"
    by (rule replay_exhibits) (simp add: lock_demo_def ticket_init_def split: prod.splits)
  then obtain l c where r: "run ticket_start (ticket_exec True) ticket_init (length lock_demo)
       [(0, Call Acquire), (1, Call Acquire)] (l, c)" and w: "ticket_role (c 1) = Waiting 1" by blast
  have "can_reach (ticket_exec True) (\<lambda>l c. ticket_role (c 1) = Holding)
      (4 * card (ahead_of (tk_curr l) (ticket_role \<circ> c) 1) + 1) l c"
    using ticket_lock_progress [OF r, of "{0, 1}", OF _ _ w] by (simp add: threads_def few_def)
  with r show ?thesis by blast
qed

end
