(* ===== verification/Optik_Ticket.thy ===== *)
theory Optik_Ticket
  imports Lock_Protocol
begin

text \<open>
  The OPTIK lock built on a ticket lock, \<^verbatim>\<open>include/optik.h\<close> with \<^verbatim>\<open>OPTIK_VERSION == OPTIK_TICKET\<close>: the lock
  word is a pair of 32-bit counters, the version (the ticket being served) and the next ticket. Every
  function of the header is modelled; the client of the last part acquires in each of the six ways
  and releases with \<^verbatim>\<open>optik_unlock\<close>. It is an instance of the ticket protocol: mutual exclusion, service
  in order and progress hold while there are fewer threads than tickets. The functions that delete
  the lock and \<^verbatim>\<open>optik_revert\<close> leave the protocol; what they do is stated by lemmas of their own.
\<close>

section \<open>The code\<close>

record optikt =
  ot_version :: "32 word"
  ot_ticket :: "32 word"

type_synonym ('p, 'r) optikt_outcome = "(optikt, 'p, 'r) outcome"

definition optikt_init :: optikt where
  "optikt_init = \<lparr>ot_version = 0, ot_ticket = 0\<rparr>"

text \<open>The union's 64-bit view: the version is the low half (x86-64 is little-endian).\<close>

definition to_uint64 :: "optikt \<Rightarrow> 64 word" where
  "to_uint64 ol = ucast (ot_version ol) + push_bit 32 (ucast (ot_ticket ol))"

definition of_uint64 :: "64 word \<Rightarrow> optikt" where
  "of_uint64 w = \<lparr>ot_version = ucast w, ot_ticket = ucast (drop_bit 32 w)\<rparr>"

definition optikt_is_same_version :: "optikt \<Rightarrow> optikt \<Rightarrow> bool" where
  "optikt_is_same_version v1 v2 \<longleftrightarrow> to_uint64 v1 = to_uint64 v2"

definition optikt_is_locked :: "optikt \<Rightarrow> bool" where
  "optikt_is_locked ol \<longleftrightarrow> ot_ticket ol \<noteq> ot_version ol"

definition optikt_is_deleted :: "optikt \<Rightarrow> bool" where
  "optikt_is_deleted ol \<longleftrightarrow> ot_ticket ol < ot_version ol"

definition optikt_get_version :: "optikt \<Rightarrow> 32 word" where
  "optikt_get_version ol = ot_version ol"

definition optikt_get_n_locked :: "optikt \<Rightarrow> 32 word" where
  "optikt_get_n_locked ol = ot_version ol"

definition optikt_num_queued :: "optikt \<Rightarrow> int" where
  "optikt_num_queued ol = sint (ot_ticket ol - ot_version ol)"

text \<open>Compare and swap on the 64-bit view compares both counters.\<close>

definition optikt_cas :: "optikt \<Rightarrow> optikt \<Rightarrow> optikt \<Rightarrow> optikt \<times> optikt" where
  "optikt_cas ol olo oln = (if ol = olo then oln else ol, ol)"

datatype optikt_try = TTry_Check | TTry_CAS

fun optikt_trylock_version :: "optikt \<Rightarrow> optikt \<Rightarrow> optikt_try \<Rightarrow> (optikt_try, int) optikt_outcome" where
  "optikt_trylock_version ol_old ol TTry_Check =
     (let version = ot_version ol_old
      in Next ol (if version \<noteq> ot_ticket ol_old \<or> version \<noteq> ot_ticket ol then Finished 0 else At TTry_CAS))"
| "optikt_trylock_version ol_old ol TTry_CAS =
     (let olo = ol_old; oln = ol_old\<lparr>ot_ticket := ot_ticket ol_old + 1\<rparr>; (ol', old) = optikt_cas ol olo oln
      in Next ol' (Finished (if old = olo then 1 else 0)))"

fun optikt_trylock_vdelete :: "optikt \<Rightarrow> optikt \<Rightarrow> optikt_try \<Rightarrow> (optikt_try, int) optikt_outcome" where
  "optikt_trylock_vdelete ol_old ol TTry_Check =
     (let version = ot_version ol_old
      in Next ol (if version \<noteq> ot_ticket ol_old \<or> version \<noteq> ot_ticket ol then Finished 0 else At TTry_CAS))"
| "optikt_trylock_vdelete ol_old ol TTry_CAS =
     (let olo = ol_old; oln = ol_old\<lparr>ot_ticket := ot_version ol_old - 1\<rparr>; (ol', old) = optikt_cas ol olo oln
      in Next ol' (Finished (if old = olo then 1 else 0)))"

datatype optikt_trylock_pc = TL_Version | TL_Ticket "32 word" | TL_CAS "32 word"

fun optikt_trylock :: "optikt \<Rightarrow> optikt_trylock_pc \<Rightarrow> (optikt_trylock_pc, int) optikt_outcome" where
  "optikt_trylock ol TL_Version = Next ol (At (TL_Ticket (ot_version ol)))"
| "optikt_trylock ol (TL_Ticket version) =
     Next ol (if ot_ticket ol \<noteq> version then Finished 0 else At (TL_CAS version))"
| "optikt_trylock ol (TL_CAS version) =
     (let olo = \<lparr>ot_version = version, ot_ticket = version\<rparr>;
          oln = \<lparr>ot_version = version, ot_ticket = version + 1\<rparr>;
          (ol', old) = optikt_cas ol olo oln
      in Next ol' (Finished (if old = olo then 1 else 0)))"

text \<open>The four blocking functions draw a ticket and wait until it is the version.\<close>

datatype optikt_wait = TW_Draw | TW_Wait "32 word"

fun optikt_lock :: "optikt \<Rightarrow> optikt_wait \<Rightarrow> (optikt_wait, int) optikt_outcome" where
  "optikt_lock ol TW_Draw = Next (ol\<lparr>ot_ticket := ot_ticket ol + 1\<rparr>) (At (TW_Wait (ot_ticket ol)))"
| "optikt_lock ol (TW_Wait ticket) = Next ol (if ticket \<noteq> ot_version ol then At (TW_Wait ticket) else Finished 1)"

fun optikt_lock_backoff :: "optikt \<Rightarrow> optikt_wait \<Rightarrow> (optikt_wait, int) optikt_outcome" where
  "optikt_lock_backoff ol TW_Draw = Next (ol\<lparr>ot_ticket := ot_ticket ol + 1\<rparr>) (At (TW_Wait (ot_ticket ol)))"
| "optikt_lock_backoff ol (TW_Wait ticket) =
     (let distance = ticket - ot_version ol in Next ol (if distance = 0 then Finished 1 else At (TW_Wait ticket)))"

fun optikt_lock_version :: "optikt \<Rightarrow> optikt \<Rightarrow> optikt_wait \<Rightarrow> (optikt_wait, int) optikt_outcome" where
  "optikt_lock_version ol_old ol TW_Draw =
     Next (ol\<lparr>ot_ticket := ot_ticket ol + 1\<rparr>) (At (TW_Wait (ot_ticket ol)))"
| "optikt_lock_version ol_old ol (TW_Wait ticket) =
     Next ol (if ticket \<noteq> ot_version ol then At (TW_Wait ticket)
       else Finished (if ot_version ol_old = ticket then 1 else 0))"

fun optikt_lock_version_backoff :: "optikt \<Rightarrow> optikt \<Rightarrow> optikt_wait \<Rightarrow> (optikt_wait, int) optikt_outcome" where
  "optikt_lock_version_backoff ol_old ol TW_Draw =
     Next (ol\<lparr>ot_ticket := ot_ticket ol + 1\<rparr>) (At (TW_Wait (ot_ticket ol)))"
| "optikt_lock_version_backoff ol_old ol (TW_Wait ticket) =
     (let distance = ticket - ot_version ol
      in Next ol (if distance = 0 then Finished (if ot_version ol_old = ticket then 1 else 0)
        else At (TW_Wait ticket)))"

text \<open>Deletion: the holder sets the version to \<^verbatim>\<open>INT_MAX\<close>.\<close>

definition OT_INT_MAX :: "32 word" where "OT_INT_MAX = 2147483647"

datatype optikt_delete = TD_Check | TD_Draw | TD_Wait "32 word" | TD_Recheck "32 word" | TD_Mark

fun optikt_lock_vdelete :: "optikt \<Rightarrow> optikt_delete \<Rightarrow> (optikt_delete, int) optikt_outcome" where
  "optikt_lock_vdelete ol TD_Check = Next ol (if ot_version ol = OT_INT_MAX then Finished 0 else At TD_Draw)"
| "optikt_lock_vdelete ol TD_Draw = Next (ol\<lparr>ot_ticket := ot_ticket ol + 1\<rparr>) (At (TD_Wait (ot_ticket ol)))"
| "optikt_lock_vdelete ol (TD_Wait ticket) =
     Next ol (At (if ticket \<noteq> ot_version ol then TD_Recheck ticket else TD_Mark))"
| "optikt_lock_vdelete ol (TD_Recheck ticket) =
     Next ol (if ot_version ol = OT_INT_MAX then Finished 0 else At (TD_Wait ticket))"
| "optikt_lock_vdelete ol TD_Mark = Next (ol\<lparr>ot_version := OT_INT_MAX\<rparr>) (Finished 1)"

fun optikt_lock_if_not_deleted :: "optikt \<Rightarrow> optikt_delete \<Rightarrow> (optikt_delete, int) optikt_outcome" where
  "optikt_lock_if_not_deleted ol TD_Check = Next ol (if ot_version ol = OT_INT_MAX then Finished 0 else At TD_Draw)"
| "optikt_lock_if_not_deleted ol TD_Draw =
     Next (ol\<lparr>ot_ticket := ot_ticket ol + 1\<rparr>) (At (TD_Wait (ot_ticket ol)))"
| "optikt_lock_if_not_deleted ol (TD_Wait ticket) =
     Next ol (if ticket \<noteq> ot_version ol then At (TD_Recheck ticket) else Finished 1)"
| "optikt_lock_if_not_deleted ol (TD_Recheck ticket) =
     Next ol (if ot_version ol = OT_INT_MAX then Finished 0 else At (TD_Wait ticket))"
| "optikt_lock_if_not_deleted ol TD_Mark = Blocked"

text \<open>\<^verbatim>\<open>ol->version++\<close> on a volatile field is a load and a store; \<^verbatim>\<open>optik_unlockv\<close> increments the 64-bit
  view atomically and returns it; \<^verbatim>\<open>optik_revert\<close> gives the ticket back.\<close>

datatype optikt_unlock_pc = TU_Read | TU_Write "32 word"

fun optikt_unlock :: "optikt \<Rightarrow> optikt_unlock_pc \<Rightarrow> (optikt_unlock_pc, unit) optikt_outcome" where
  "optikt_unlock ol TU_Read = Next ol (At (TU_Write (ot_version ol)))"
| "optikt_unlock ol (TU_Write v) = Next (ol\<lparr>ot_version := v + 1\<rparr>) (Finished ())"

definition optikt_unlockv :: "optikt \<Rightarrow> optikt \<times> optikt" where
  "optikt_unlockv ol = (let w = to_uint64 ol + 1 in (of_uint64 w, of_uint64 w))"

definition optikt_revert :: "optikt \<Rightarrow> optikt" where
  "optikt_revert ol = ol\<lparr>ot_ticket := ot_ticket ol - 1\<rparr>"

section \<open>A client\<close>

text \<open>Acquire in one of the ways, run a critical section, release. \<open>OT_Crit\<close> remembers the version the
  acquisition was to validate and its result; a thread that \<^verbatim>\<open>optik_lock_version\<close> tells that the version
  changed holds the lock all the same.\<close>

datatype optikt_op = OT_Lock bool | OT_Lock_Version bool optikt | OT_Trylock | OT_Trylock_Version optikt

datatype optikt_pc =
    OTC_Lock bool optikt_wait
  | OTC_Lock_Version bool optikt optikt_wait
  | OTC_Trylock optikt_trylock_pc
  | OTC_Trylock_Version optikt optikt_try
  | OT_Crit "optikt option" int
  | OTC_Unlock int optikt_unlock_pc

fun optikt_start :: "optikt_op \<Rightarrow> optikt_pc option" where
  "optikt_start (OT_Lock backoff) = Some (OTC_Lock backoff TW_Draw)"
| "optikt_start (OT_Lock_Version backoff v) = Some (OTC_Lock_Version backoff v TW_Draw)"
| "optikt_start OT_Trylock = Some (OTC_Trylock TL_Version)"
| "optikt_start (OT_Trylock_Version v) = Some (OTC_Trylock_Version v TTry_Check)"

fun optikt_exec :: "tid \<Rightarrow> ptr \<Rightarrow> optikt \<Rightarrow> optikt_pc \<Rightarrow> (optikt_pc, int) optikt_outcome" where
  "optikt_exec t p ol (OTC_Lock b x) =
     within (OTC_Lock b) (\<lambda>r. At (OT_Crit None r)) ((if b then optikt_lock_backoff else optikt_lock) ol x)"
| "optikt_exec t p ol (OTC_Lock_Version b v x) =
     within (OTC_Lock_Version b v) (\<lambda>r. At (OT_Crit (Some v) r))
       ((if b then optikt_lock_version_backoff else optikt_lock_version) v ol x)"
| "optikt_exec t p ol (OTC_Trylock x) =
     within OTC_Trylock (\<lambda>r. if r \<noteq> 0 then At (OT_Crit None r) else Finished 0) (optikt_trylock ol x)"
| "optikt_exec t p ol (OTC_Trylock_Version v x) =
     within (OTC_Trylock_Version v) (\<lambda>r. if r \<noteq> 0 then At (OT_Crit (Some v) r) else Finished 0)
       (optikt_trylock_version v ol x)"
| "optikt_exec t p ol (OT_Crit v r) = Next ol (At (OTC_Unlock r TU_Read))"
| "optikt_exec t p ol (OTC_Unlock r x) = within (OTC_Unlock r) (\<lambda>_. Finished r) (optikt_unlock ol x)"

section \<open>The protocol\<close>

fun optikt_role :: "(optikt_pc, int) control \<Rightarrow> 32 word role" where
  "optikt_role (At (OTC_Lock b (TW_Wait k))) = Waiting k"
| "optikt_role (At (OTC_Lock_Version b v (TW_Wait k))) = Waiting k"
| "optikt_role (At (OT_Crit v r)) = Holding"
| "optikt_role (At (OTC_Unlock r x)) = Holding"
| "optikt_role x = Out"

text \<open>What a thread knows of the lock: the holder, that the version is the one it read, and that its
  result says whether the version is the one it was to validate.\<close>

fun optikt_local :: "optikt \<Rightarrow> (optikt_pc, int) control \<Rightarrow> bool" where
  "optikt_local ol (At (OTC_Unlock r (TU_Write v))) = (v = ot_version ol)"
| "optikt_local ol (At (OTC_Trylock_Version v TTry_CAS)) = (ot_version v = ot_ticket v)"
| "optikt_local ol (At (OT_Crit (Some v) r)) = (r \<noteq> 0 \<longleftrightarrow> ot_version v = ot_version ol)"
| "optikt_local ol x = True"

fun optikt_left :: "(optikt_pc, int) control \<Rightarrow> nat" where
  "optikt_left (At (OT_Crit v r)) = 3"
| "optikt_left (At (OTC_Unlock r TU_Read)) = 2"
| "optikt_left (At (OTC_Unlock r (TU_Write v))) = 1"
| "optikt_left x = 0"

lemma optikt_pc_exhaust:
  obtains b where "x = OTC_Lock b TW_Draw" | b k where "x = OTC_Lock b (TW_Wait k)"
  | b v where "x = OTC_Lock_Version b v TW_Draw" | b v k where "x = OTC_Lock_Version b v (TW_Wait k)"
  | "x = OTC_Trylock TL_Version" | k where "x = OTC_Trylock (TL_Ticket k)" | k where "x = OTC_Trylock (TL_CAS k)"
  | v where "x = OTC_Trylock_Version v TTry_Check" | v where "x = OTC_Trylock_Version v TTry_CAS"
  | r where "x = OT_Crit None r" | v r where "x = OT_Crit (Some v) r"
  | r where "x = OTC_Unlock r TU_Read" | r v where "x = OTC_Unlock r (TU_Write v)"
proof (cases x)
  case (OTC_Lock b w)
  then show thesis by (cases w) (use that(1,2) in auto)
next
  case (OTC_Lock_Version b v w)
  then show thesis by (cases w) (use that(3,4) in auto)
next
  case (OTC_Trylock w)
  then show thesis by (cases w) (use that(5,6,7) in auto)
next
  case (OTC_Trylock_Version v w)
  then show thesis by (cases w) (use that(8,9) in auto)
next
  case (OT_Crit v r)
  then show thesis by (cases v) (use that(10,11) in auto)
next
  case (OTC_Unlock r w)
  then show thesis by (cases w) (use that(12,13) in auto)
qed

interpretation optikt: ticket_protocol_progress optikt_start optikt_exec optikt_init T
    ot_ticket ot_version optikt_role optikt_local optikt_left 3 for T
proof
  fix op x
  assume "optikt_start op = Some x"
  then show "optikt_role (At x) = Out" "optikt_local s (At x)" for s by (cases op; auto)+
next
  fix t p s x s' y
  assume *: "optikt_exec t p s x = Next s' y"
  show "optikt_local s (At x) \<Longrightarrow> optikt_local s' y"
    using * by (cases x rule: optikt_pc_exhaust) (auto simp: optikt_cas_def Let_def split: if_splits)
  show "optikt_local s z \<Longrightarrow> ot_version s' = ot_version s \<or> optikt_role z \<noteq> Holding \<Longrightarrow> optikt_local s' z" for z
    by (cases "(s, z)" rule: optikt_local.cases) auto
  show "optikt_local s (At x) \<Longrightarrow>
        ot_ticket s' = ot_ticket s \<and> ot_version s' = ot_version s \<and> optikt_role y = optikt_role (At x) \<or>
        ot_ticket s' = ot_ticket s + 1 \<and> ot_version s' = ot_version s \<and> optikt_role (At x) = Out \<and> optikt_role y = Waiting (ot_ticket s) \<or>
        ot_ticket s' = ot_ticket s \<and> ot_version s' = ot_version s \<and> optikt_role (At x) = Waiting (ot_version s) \<and> optikt_role y = Holding \<or>
        ot_ticket s' = ot_ticket s + 1 \<and> ot_version s' = ot_version s \<and> ot_ticket s = ot_version s \<and> optikt_role (At x) = Out \<and> optikt_role y = Holding \<or>
        ot_ticket s' = ot_ticket s \<and> ot_version s' = ot_version s + 1 \<and> optikt_role (At x) = Holding \<and> optikt_role y = Out"
    using * by (cases x rule: optikt_pc_exhaust) (auto simp: optikt_cas_def Let_def split: if_splits)
next
  fix x s t p
  show "optikt_role (At x) = Waiting (ot_version s) \<Longrightarrow>
      \<exists>y. optikt_exec t p s x = Next s y \<and> optikt_role y = Holding \<and> optikt_left y \<le> 3"
    by (cases x rule: optikt_pc_exhaust) (auto simp: Let_def)
  show "optikt_role (At x) = Holding \<Longrightarrow> optikt_local s (At x) \<Longrightarrow>
      0 < optikt_left (At x) \<and> optikt_left (At x) \<le> 3 \<and>
      (\<exists>s' y. optikt_exec t p s x = Next s' y \<and> (ot_version s' = ot_version s + 1 \<and> optikt_role y = Out \<or>
         ot_version s' = ot_version s \<and> optikt_role y = Holding \<and> optikt_left y < optikt_left (At x)))"
    by (cases x rule: optikt_pc_exhaust) auto
qed (simp_all add: optikt_init_def)


section \<open>Mutual exclusion, order and validation\<close>

text \<open>C16: on the OPTIK ticket lock at most one thread is in the critical section, waiting threads are
  served in the order of their tickets, and a thread that acquired the lock against a version was told
  exactly whether the version had changed; this survives the wrap-around of the counters.\<close>

lemma optik_ticket_correct:
  assumes "run optikt_start optikt_exec optikt_init n h (l, c)" and "threads h \<subseteq> T" and "few T"
  shows "(\<forall>t u. optikt_role (c t) = Holding \<longrightarrow> optikt_role (c u) = Holding \<longrightarrow> t = u) \<and>
    (\<forall>t k. optikt_role (c t) = Waiting k \<longrightarrow>
       card (ahead_of (ot_version l) (optikt_role \<circ> c) k) = unat (k - ot_version l)) \<and>
    (\<forall>t v r. c t = At (OT_Crit (Some v) r) \<longrightarrow> (r \<noteq> 0 \<longleftrightarrow> ot_version v = ot_version l))"
proof -
  have "r \<noteq> 0 \<longleftrightarrow> ot_version v = ot_version l" if "c t = At (OT_Crit (Some v) r)" for t v r
    using optikt.reachable_loc [OF assms, of t] that by simp
  then show ?thesis using optikt.reachable_fifo [OF assms] by blast
qed

text \<open>Thread 1 validates version 0 after thread 0 has released the lock once.\<close>

definition optikt_demo :: "optikt_op command list" where
  "optikt_demo =
     [Do_Call 0 OT_Trylock, Do_Call 1 (OT_Lock_Version False optikt_init)] @
     replicate 3 (Do_Step 0 0) @ replicate 2 (Do_Step 1 0) @ replicate 3 (Do_Step 0 0) @ [Do_Step 1 0]"

lemma optik_ticket_correct_witness:
  "\<exists>l c. run optikt_start optikt_exec optikt_init (length optikt_demo)
       [(0, Call OT_Trylock), (1, Call (OT_Lock_Version False optikt_init))] (l, c)
     \<and> c 1 = At (OT_Crit (Some optikt_init) 0) \<and> ot_version l \<noteq> ot_version optikt_init"
proof -
  have "\<exists>l c. run optikt_start optikt_exec optikt_init (length optikt_demo)
       [(0, Call OT_Trylock), (1, Call (OT_Lock_Version False optikt_init))] (l, c)
     \<and> c 1 = At (OT_Crit (Some optikt_init) 0)"
    by (rule replay_exhibits) (simp add: optikt_demo_def optikt_init_def optikt_cas_def numeral_eq_Suc)
  then obtain l c where r: "run optikt_start optikt_exec optikt_init (length optikt_demo)
       [(0, Call OT_Trylock), (1, Call (OT_Lock_Version False optikt_init))] (l, c)"
      and c: "c 1 = At (OT_Crit (Some optikt_init) 0)" by blast
  have "ot_version optikt_init \<noteq> ot_version l"
  proof -
    have "threads [(0, Call OT_Trylock), (1, Call (OT_Lock_Version False optikt_init))] \<subseteq> {0, 1}" "few {0, 1}"
      by (simp_all add: threads_def few_def)
    then show ?thesis
      using optik_ticket_correct [OF r, of "{0, 1}", THEN conjunct2, THEN conjunct2] c by fastforce
  qed
  with r c show ?thesis by metis
qed

text \<open>Every waiting thread can be led to the lock.\<close>

lemma optik_ticket_progress:
  assumes "run optikt_start optikt_exec optikt_init n h (l, c)" and "threads h \<subseteq> T" and "few T"
    and "optikt_role (c t) = Waiting k"
  shows "can_reach optikt_exec (\<lambda>l c. optikt_role (c t) = Holding)
    (4 * card (ahead_of (ot_version l) (optikt_role \<circ> c) k) + 1) l c"
  using optikt.reachable_progress [OF assms] by (simp only: Suc_numeral semiring_norm numeral_eq_iff)

section \<open>Outside the protocol\<close>

text \<open>The states that can follow a state when the threads \<open>T\<close> go on with the locking protocol.\<close>

definition optikt_later :: "tid set \<Rightarrow> (optikt, optikt_pc, int) config \<Rightarrow> (optikt, optikt_pc, int) config \<Rightarrow> bool" where
  "optikt_later T = rtranclp (\<lambda>k k'. \<exists>t \<in> T. \<exists>e. thread_step optikt_start optikt_exec k t e k')"

text \<open>A dead lock: nobody holds it and nobody has the ticket that is being served, and there are no more
  tickets out than threads that wait.\<close>

definition optikt_waiting :: "(tid \<Rightarrow> (optikt_pc, int) control) \<Rightarrow> tid set" where
  "optikt_waiting c = {t. \<exists>k. optikt_role (c t) = Waiting k}"

definition optikt_dead :: "tid set \<Rightarrow> 32 word \<Rightarrow> optikt \<Rightarrow> (tid \<Rightarrow> (optikt_pc, int) control) \<Rightarrow> bool" where
  "optikt_dead T v l c \<longleftrightarrow> ot_version l = v \<and> ot_ticket l \<noteq> v \<and> (\<forall>t. optikt_local l (c t)) \<and>
     (\<forall>t. c t \<noteq> Idle \<longrightarrow> t \<in> T) \<and> (\<forall>t. optikt_role (c t) \<noteq> Holding \<and> optikt_role (c t) \<noteq> Waiting v) \<and>
     unat (ot_ticket l - v) \<le> card (optikt_waiting c)"

lemma optikt_deadD:
  assumes "optikt_dead T v l c"
  shows "ot_version l = v" and "ot_ticket l \<noteq> v" and "optikt_local l (c t)" and "c t \<noteq> Idle \<Longrightarrow> t \<in> T"
    and "optikt_role (c t) \<noteq> Holding" and "optikt_role (c t) \<noteq> Waiting v" and "unat (ot_ticket l - v) \<le> card (optikt_waiting c)"
  using assms by (auto simp: optikt_dead_def)

lemma optikt_dead_draw:
  assumes dead: "optikt_dead T v l c" and few: "few T" and t: "t \<in> T" "optikt_role (c t) = Out"
    and y: "optikt_role y = Waiting k" and l': "ot_ticket l' = ot_ticket l + 1"
  shows "ot_ticket l' \<noteq> v" and "unat (ot_ticket l' - v) \<le> card (optikt_waiting (c(t := y)))"
proof -
  note d = optikt_deadD [OF dead]
  have "s \<in> T" if "s \<in> optikt_waiting c" for s
    using that d(4) [of s] by (cases "c s = Idle") (auto simp: optikt_waiting_def)
  then have sub: "insert t (optikt_waiting c) \<subseteq> T" using t(1) by blast
  have w: "optikt_waiting (c(t := y)) = insert t (optikt_waiting c)" using y by (auto simp: optikt_waiting_def)
  have "t \<notin> optikt_waiting c" using t(2) by (simp add: optikt_waiting_def)
  then have card: "card (insert t (optikt_waiting c)) = Suc (card (optikt_waiting c))"
    using sub few by (intro card_insert_disjoint) (auto simp: few_def dest: finite_subset)
  have "card (insert t (optikt_waiting c)) < 2 ^ 32" using few card_mono [OF _ sub] unfolding few_def by linarith
  then have "Suc (unat (ot_ticket l - v)) < 2 ^ LENGTH(32)" using card d(7) by simp
  then have u: "unat ((ot_ticket l - v) + 1) = Suc (unat (ot_ticket l - v))" by (rule unat_Suc_word)
  have e: "ot_ticket l' - v = (ot_ticket l - v) + 1" by (simp add: l')
  show "unat (ot_ticket l' - v) \<le> card (optikt_waiting (c(t := y)))" unfolding e u w card using d(7) by simp
  show "ot_ticket l' \<noteq> v" using e u by auto
qed

lemma optikt_dead_step:
  assumes dead: "optikt_dead T v l c" and few: "few T" and t: "t \<in> T"
    and st: "thread_step optikt_start optikt_exec (l, c) t e (l', c')"
  shows "optikt_dead T v l' c'"
  using st
proof (cases rule: thread_step.cases)
  case (step_call op x)
  note d = optikt_deadD [OF dead]
  have "optikt_waiting c' = optikt_waiting c"
    using step_call optikt.role_rest by (auto simp: optikt_waiting_def)
  then show ?thesis
    using d t step_call optikt.role_rest(3) [OF step_call(5)] optikt.loc_rest(2) [OF step_call(5)] by (simp add: optikt_dead_def)
next
  case (step_exec x p y)
  note d = optikt_deadD [OF dead]
  have x: "optikt_local l (At x)" "optikt_role (At x) \<noteq> Holding" "optikt_role (At x) \<noteq> Waiting v"
    using d(3,5,6) [of t] step_exec(3) by simp_all
  from optikt.ticket_step [OF step_exec(4) x(1)] x(2,3) d(1,2) consider
      "ot_ticket l' = ot_ticket l" "ot_version l' = v" "optikt_role y = optikt_role (At x)"
    | "ot_ticket l' = ot_ticket l + 1" "ot_version l' = v" "optikt_role (At x) = Out" "optikt_role y = Waiting (ot_ticket l)"
    by auto
  then have r: "ot_version l' = v \<and> optikt_role y \<noteq> Holding \<and> optikt_role y \<noteq> Waiting v \<and>
      ot_ticket l' \<noteq> v \<and> unat (ot_ticket l' - v) \<le> card (optikt_waiting c')"
  proof cases
    case 1
    then have "optikt_waiting c' = optikt_waiting c" using step_exec by (auto simp: optikt_waiting_def)
    then show ?thesis using 1 x d(2,7) by simp
  next
    case 2
    have "optikt_role (c t) = Out" using 2(3) step_exec(3) by simp
    from optikt_dead_draw [OF dead few t this 2(4,1)] 2 d(2) show ?thesis using step_exec(2) by simp
  qed
  have "optikt_local l' (c' u)" for u
    using optikt.loc_step [OF step_exec(4) x(1)] optikt.loc_stable [OF step_exec(4) d(3) [of u]] r(1) d(1) step_exec(2) by simp
  then show ?thesis using r d t step_exec by (simp add: optikt_dead_def)
next
  case (step_return r)
  note d = optikt_deadD [OF dead]
  have "optikt_waiting c' = optikt_waiting c"
    using step_return optikt.role_rest by (auto simp: optikt_waiting_def)
  then show ?thesis using d step_return optikt.role_rest(1) optikt.loc_rest(1) by (simp add: optikt_dead_def)
qed

lemma optikt_dead_later:
  assumes "optikt_later T (l, c) (l', c')" and "optikt_dead T v l c" and "few T"
  shows "optikt_dead T v l' c'"
  using assms(1) unfolding optikt_later_def
proof (induction "(l', c')" arbitrary: l' c' rule: rtranclp_induct)
  case base
  then show ?case using assms(2) by simp
next
  case (step k)
  obtain l1 c1 where k: "k = (l1, c1)" by force
  from step(2) obtain t e where "t \<in> T" "thread_step optikt_start optikt_exec (l1, c1) t e (l', c')" unfolding k by blast
  then show ?case using optikt_dead_step [OF step(3) [OF k] assms(3)] by blast
qed

text \<open>The holder gives its ticket back though another thread waits.\<close>

lemma optikt_revert_dead:
  assumes run: "run optikt_start optikt_exec optikt_init n h (l, c)" and T: "threads h \<subseteq> T" and few: "few T"
    and u: "c u = At (OT_Crit v r)" and t: "optikt_role (c t) = Waiting k"
  shows "optikt_dead T (ot_version l) (optikt_revert l) (c(u := Finished r))"
proof -
  obtain Q where inv: "optikt.lock_inv T l c" and qu: "optikt.queue_of l c Q" by (rule optikt.reachable_queue [OF run T few])
  have ok: "ticket_ok (ot_ticket l) (ot_version l) (optikt_role \<circ> c) Q" and len: "length Q < 2 ^ 32"
    using qu by (simp_all add: optikt.queue_of_def)
  have "(optikt_role \<circ> c) u = Holding" using u by simp
  from ticket_holding [OF ok this] obtain Q' where Q: "Q = u # Q'" .
  have d: "distinct Q" and set: "set Q = {t. optikt_role (c t) \<noteq> Out}" and tk: "ot_ticket l = ot_version l + of_nat (length Q)"
    and turn: "\<And>i. i < length Q \<Longrightarrow> optikt_role (c (Q ! i)) = Waiting (ot_version l + of_nat i) \<or> i = 0 \<and> optikt_role (c (Q ! i)) = Holding"
    using ok by (auto simp: ticket_ok_def)
  have small: "unat (of_nat i :: 32 word) = i" if "i \<le> length Q" for i
    using that len by (simp add: unsigned_of_nat take_bit_nat_eq_self_iff)
  have rest: "\<exists>i. 0 < i \<and> i < length Q \<and> Q ! i = s \<and> optikt_role (c s) = Waiting (ot_version l + of_nat i)" if "s \<in> set Q'" for s
  proof -
    from that obtain i where "i < length Q'" "Q' ! i = s" by (auto simp: in_set_conv_nth)
    then show ?thesis using turn [of "Suc i"] by (intro exI [of _ "Suc i"]) (simp add: Q)
  qed
  have wait: "optikt_waiting (c(u := Finished r)) = set Q'"
    using rest set u d by (auto simp: optikt_waiting_def Q)
  have "t \<noteq> u" using t u by auto
  moreover have "t \<in> set Q" unfolding set using t by simp
  ultimately have "t \<in> set Q'" by (simp add: Q)
  then have pos: "0 < length Q'" by (cases Q') auto
  have e: "ot_ticket (optikt_revert l) - ot_version l = of_nat (length Q')" by (simp add: optikt_revert_def tk Q)
  then have un: "unat (ot_ticket (optikt_revert l) - ot_version l) = length Q'" using small [of "length Q'"] by (simp add: Q)
  show ?thesis
    unfolding optikt_dead_def
  proof (intro conjI allI impI)
    show "ot_version (optikt_revert l) = ot_version l" by (simp add: optikt_revert_def)
    show "ot_ticket (optikt_revert l) \<noteq> ot_version l" using un pos by auto
    show "unat (ot_ticket (optikt_revert l) - ot_version l) \<le> card (optikt_waiting (c(u := Finished r)))"
      using d unfolding un wait by (simp add: Q distinct_card)
    have "optikt_local (optikt_revert l) z" if "optikt_local l z" for z
      using that by (cases "(l, z)" rule: optikt_local.cases) (auto simp: optikt_revert_def)
    moreover have "optikt_local l (c s)" for s using inv by (simp add: optikt.lock_inv_def)
    ultimately show "optikt_local (optikt_revert l) ((c(u := Finished r)) s)" for s by simp
    show "s \<in> T" if "(c(u := Finished r)) s \<noteq> Idle" for s
      using that inv u by (auto simp: optikt.lock_inv_def split: if_splits)
    show "optikt_role ((c(u := Finished r)) s) \<noteq> Holding" for s
      using ticket_exclusive [OF ok, of s u] u by auto
    show "optikt_role ((c(u := Finished r)) s) \<noteq> Waiting (ot_version l)" for s
    proof (cases "s \<in> set Q'")
      case True
      then obtain i where i: "0 < i" "i < length Q" "optikt_role (c s) = Waiting (ot_version l + of_nat i)" using rest by blast
      have "(of_nat i :: 32 word) \<noteq> 0" using small [of i] i(1,2) by (metis less_imp_le neq0_conv unat_0)
      then show ?thesis using i(3) by auto
    next
      case False
      then have "s = u \<or> s \<notin> set Q" by (simp add: Q)
      then have "s = u \<or> optikt_role (c s) = Out" unfolding set by simp
      then show ?thesis by auto
    qed
  qed
qed

text \<open>C17: \<^verbatim>\<open>optik_revert\<close> on a lock for which another thread waits kills the lock: from every reachable state
  in which one thread is in the critical section and another waits, when the holder reverts instead of
  unlocking, the lock stays locked at the same version in every state that can follow, however the
  threads go on with the locking functions, and none of them is ever in the critical section again.\<close>

theorem optik_ticket_revert_stuck:
  assumes "run optikt_start optikt_exec optikt_init n h (l, c)" and "threads h \<subseteq> T" and "few T"
    and "c u = At (OT_Crit v r)" and "optikt_role (c t) = Waiting k"
    and "optikt_later T (optikt_revert l, c(u := Finished r)) (l', c')"
  shows "optikt_is_locked l' \<and> ot_version l' = ot_version l \<and> (\<forall>s. optikt_role (c' s) \<noteq> Holding)"
  using optikt_deadD [OF optikt_dead_later [OF assms(6) optikt_revert_dead [OF assms(1-5)] assms(3)]]
  by (simp add: optikt_is_locked_def)

text \<open>Thread 0 takes the lock, thread 1 draws a ticket, thread 0 reverts; then thread 1 looks at the version once
  more.\<close>

definition optikt_stuck :: "optikt_op command list" where
  "optikt_stuck = [Do_Call 0 (OT_Lock False), Do_Call 1 (OT_Lock False), Do_Step 0 0, Do_Step 0 0, Do_Step 1 0]"

theorem optik_ticket_revert_stuck_witness:
  "\<exists>l c. run optikt_start optikt_exec optikt_init (length optikt_stuck) [(0, Call (OT_Lock False)), (1, Call (OT_Lock False))] (l, c)
     \<and> c 0 = At (OT_Crit None 1) \<and> c 1 = At (OTC_Lock False (TW_Wait 1))
     \<and> optikt_is_locked (optikt_revert l) \<and> ot_version (optikt_revert l) = ot_version l"
proof -
  have "\<exists>l c. run optikt_start optikt_exec optikt_init (length optikt_stuck) [(0, Call (OT_Lock False)), (1, Call (OT_Lock False))] (l, c)
     \<and> c 0 = At (OT_Crit None 1) \<and> c 1 = At (OTC_Lock False (TW_Wait 1))"
    by (rule replay_exhibits) (simp add: optikt_stuck_def optikt_init_def)
  then obtain l c where r: "run optikt_start optikt_exec optikt_init (length optikt_stuck)
        [(0, Call (OT_Lock False)), (1, Call (OT_Lock False))] (l, c)"
      and c: "c 0 = At (OT_Crit None 1)" "c 1 = At (OTC_Lock False (TW_Wait 1))" by blast
  have T: "threads [(0, Call (OT_Lock False)), (1, Call (OT_Lock False))] \<subseteq> {0, 1}" "few {0, 1}"
    by (simp_all add: threads_def few_def)
  have "optikt_later {0, 1} (optikt_revert l, c(0 := Finished 1)) (optikt_revert l, c(0 := Finished 1))"
    by (simp add: optikt_later_def)
  from optik_ticket_revert_stuck [OF r T c(1) _ this, of 1 1] c r show ?thesis by auto
qed

text \<open>A deleted lock refuses the functions that ask for it.\<close>

lemma optikt_deleted_refuses:
  assumes "ot_version l = OT_INT_MAX"
  shows "optikt_lock_vdelete l TD_Check = Next l (Finished 0)"
    and "optikt_lock_if_not_deleted l TD_Check = Next l (Finished 0)"
    and "optikt_lock_vdelete l (TD_Recheck k) = Next l (Finished 0)"
  using assms by simp_all

text \<open>\<^verbatim>\<open>optik_trylock_vdelete\<close> marks the lock by a ticket below the version, except at version 0, where
  the ticket wraps to the largest number and \<^verbatim>\<open>optik_is_deleted\<close> does not recognise it.\<close>

lemma optikt_trylock_vdelete_mark:
  assumes "optikt_trylock_vdelete v v TTry_CAS = Next l' y"
  shows "optikt_is_deleted l' \<longleftrightarrow> ot_version v \<noteq> 0"
proof -
  have l': "l' = v\<lparr>ot_ticket := ot_version v - 1\<rparr>" using assms by (simp add: optikt_cas_def)
  have "ot_version v - 1 < ot_version v \<longleftrightarrow> ot_version v \<noteq> 0"
  proof (cases "ot_version v = 0")
    case False
    then have "unat (ot_version v - 1) = unat (ot_version v) - 1" "0 < unat (ot_version v)"
      by (simp_all add: unat_minus_one unat_gt_0)
    then show ?thesis using False by (simp add: word_less_nat_alt)
  qed simp
  then show ?thesis by (simp add: l' optikt_is_deleted_def)
qed

text \<open>The 64-bit view.\<close>

lemma unat_to_uint64: "unat (to_uint64 ol) = unat (ot_version ol) + 2 ^ 32 * unat (ot_ticket ol)"
proof -
  have v: "unat (ot_version ol) < 2 ^ LENGTH(32)" and t: "unat (ot_ticket ol) < 2 ^ LENGTH(32)"
    by (rule unsigned_less)+
  have ut: "unat (ucast (ot_ticket ol) :: 64 word) = unat (ot_ticket ol)"
      "unat (ucast (ot_version ol) :: 64 word) = unat (ot_version ol)"
    using v t by (simp_all add: unsigned_ucast_eq take_bit_nat_eq_self_iff)
  have "unat (push_bit 32 (ucast (ot_ticket ol) :: 64 word)) = 2 ^ 32 * unat (ot_ticket ol)"
    using t by (simp only: unsigned_push_bit_eq ut) (simp add: push_bit_eq_mult take_bit_eq_mod)
  then show ?thesis
    using v t ut by (simp only: to_uint64_def unat_word_ariths(1)) simp
qed

lemma of_uint64_eq:
  assumes "unat w = v + 2 ^ 32 * k" and "v < 2 ^ 32" and "k < 2 ^ 32"
  shows "of_uint64 w = \<lparr>ot_version = word_of_nat v, ot_ticket = word_of_nat k\<rparr>"
proof -
  have 1: "unat (ucast w :: 32 word) = v"
    using assms by (simp add: unsigned_ucast_eq take_bit_eq_mod)
  have "unat (drop_bit 32 w) = unat w div 2 ^ 32"
    by (simp only: unat_drop_bit_eq) (rule drop_bit_eq_div)
  then have 2: "unat (ucast (drop_bit 32 w) :: 32 word) = k"
    using assms by (simp only: unsigned_ucast_eq take_bit_eq_mod) simp
  have "x = word_of_nat n" if "unat x = n" for x :: "32 word" and n
    unfolding that [symmetric] by simp
  from this [OF 1] this [OF 2] show ?thesis by (simp only: of_uint64_def)
qed

lemma of_to_uint64: "of_uint64 (to_uint64 ol) = ol"
proof -
  have "unat (ot_version ol) < 2 ^ LENGTH(32)" "unat (ot_ticket ol) < 2 ^ LENGTH(32)"
    by (rule unsigned_less)+
  then show ?thesis using of_uint64_eq [OF unat_to_uint64] by simp
qed

text \<open>\<^verbatim>\<open>optik_unlockv\<close> releases the lock, except when the version is the largest number: the carry
  then reaches the ticket, and a lock that was held with nobody waiting stays locked.\<close>

lemma optik_ticket_unlockv:
  "(ot_version ol \<noteq> -1 \<longrightarrow> fst (optikt_unlockv ol) = ol\<lparr>ot_version := ot_version ol + 1\<rparr>) \<and>
   (ot_version ol = -1 \<longrightarrow> ot_ticket ol = 0 \<longrightarrow>
      fst (optikt_unlockv ol) = \<lparr>ot_version = 0, ot_ticket = 1\<rparr> \<and> optikt_is_locked (fst (optikt_unlockv ol)))"
proof -
  let ?v = "unat (ot_version ol)" and ?k = "unat (ot_ticket ol)"
  have b: "?v < 2 ^ 32" "?k < 2 ^ 32"
    using unsigned_less [of "ot_version ol"] unsigned_less [of "ot_ticket ol"] by simp_all
  have "?v + 2 ^ 32 * ?k < 2 ^ 64" using b by simp
  have max: "unat (-1 :: 32 word) = 2 ^ 32 - 1" by (simp add: unsigned_minus_1_eq_mask mask_eq_exp_minus_1)
  have 1: "fst (optikt_unlockv ol) = ol\<lparr>ot_version := ot_version ol + 1\<rparr>" if "ot_version ol \<noteq> -1"
  proof -
    have "?v \<noteq> 2 ^ 32 - 1" using that max by (metis unsigned_word_eqI)
    then have v: "?v + 1 < 2 ^ 32" using b by simp
    then have "unat (to_uint64 ol + 1) = (?v + 1) + 2 ^ 32 * ?k"
      using b by (subst unat_Suc_word) (simp_all add: unat_to_uint64)
    from of_uint64_eq [OF this v b(2)] show ?thesis by (simp add: optikt_unlockv_def)
  qed
  have 2: "fst (optikt_unlockv ol) = \<lparr>ot_version = 0, ot_ticket = 1\<rparr>" if "ot_version ol = -1" "ot_ticket ol = 0"
  proof -
    have "unat (to_uint64 ol + 1) = 0 + 2 ^ 32 * 1"
      using that max by (subst unat_Suc_word) (simp_all add: unat_to_uint64)
    from of_uint64_eq [OF this] show ?thesis by (simp add: optikt_unlockv_def)
  qed
  show ?thesis using 1 2 by (auto simp: optikt_is_locked_def)
qed

lemma optik_ticket_unlockv_witness:
  "optikt_is_locked (fst (optikt_unlockv \<lparr>ot_version = -1, ot_ticket = 0\<rparr>)) \<and>
   fst (optikt_unlockv \<lparr>ot_version = 0, ot_ticket = 1\<rparr>) = \<lparr>ot_version = 1, ot_ticket = 1\<rparr>"
  using optik_ticket_unlockv [of "\<lparr>ot_version = -1, ot_ticket = 0\<rparr>"]
    optik_ticket_unlockv [of "\<lparr>ot_version = 0, ot_ticket = 1\<rparr>"] by (simp add: optikt_is_locked_def)

end
