(* ===== verification/Optik_Separate.thy ===== *)
theory Optik_Separate
  imports Lock_Protocol
begin

text \<open>
  The OPTIK lock with a separate version, \<^verbatim>\<open>include/optik.h\<close> with \<^verbatim>\<open>OPTIK_VERSION == OPTIK_SEPARATE\<close>: a
  lock flag and a version counter, 32 bits each. Every function of the header is modelled, with a
  client that acquires in each way and releases with \<^verbatim>\<open>optik_unlock\<close> (which \<^verbatim>\<open>optik_revert\<close> calls). The
  flag gives mutual exclusion, and the version is read under the lock by \<^verbatim>\<open>optik_trylock_version\<close>;
  \<^verbatim>\<open>optik_lock_version\<close> compares a version it read before it took the lock, and a run shows that it can
  validate a version that has changed.
\<close>

section \<open>The code\<close>

record optiks =
  os_lock :: "32 word"
  os_version :: "32 word"

definition OPTIKS_LOCKED :: "32 word" where "OPTIKS_LOCKED = 1"
definition OPTIKS_FREE :: "32 word" where "OPTIKS_FREE = 0"

type_synonym ('p, 'r) optiks_outcome = "(optiks, 'p, 'r) outcome"

definition optiks_is_locked :: "optiks \<Rightarrow> bool" where
  "optiks_is_locked ol \<longleftrightarrow> os_lock ol = OPTIKS_LOCKED"

definition optiks_get_version :: "optiks \<Rightarrow> 32 word" where
  "optiks_get_version ol = os_version ol"

definition optiks_get_n_locked :: "optiks \<Rightarrow> 32 word" where
  "optiks_get_n_locked ol = os_version ol"

definition optiks_init :: optiks where
  "optiks_init = \<lparr>os_lock = OPTIKS_FREE, os_version = 0\<rparr>"

definition optiks_is_same_version :: "optiks \<Rightarrow> optiks \<Rightarrow> bool" where
  "optiks_is_same_version v1 v2 \<longleftrightarrow> os_version v1 = os_version v2"

text \<open>\<^verbatim>\<open>ol_old = *ol\<close> copies the two fields; the functions that only test the flag are modelled by the
  load of the flag, and \<^verbatim>\<open>optik_lock_version\<close>, which uses the version too, by two loads.\<close>

datatype optiks_lock_pc = SL_Read | SL_CAS

fun optiks_lock :: "optiks \<Rightarrow> optiks_lock_pc \<Rightarrow> (optiks_lock_pc, int) optiks_outcome" where
  "optiks_lock ol SL_Read = Next ol (At (if optiks_is_locked ol then SL_Read else SL_CAS))"
| "optiks_lock ol SL_CAS =
     (if os_lock ol = 0 then Next (ol\<lparr>os_lock := 1\<rparr>) (Finished 1) else Next ol (At SL_Read))"

definition optiks_lock_backoff :: "optiks \<Rightarrow> optiks_lock_pc \<Rightarrow> (optiks_lock_pc, int) optiks_outcome" where
  "optiks_lock_backoff = optiks_lock"

datatype optiks_try_pc = ST_Lock optiks_lock_pc | ST_Check | ST_Free

fun optiks_trylock_version :: "optiks \<Rightarrow> optiks \<Rightarrow> optiks_try_pc \<Rightarrow> (optiks_try_pc, int) optiks_outcome" where
  "optiks_trylock_version ol_old ol (ST_Lock x) = within ST_Lock (\<lambda>_. At ST_Check) (optiks_lock ol x)"
| "optiks_trylock_version ol_old ol ST_Check =
     Next ol (if os_version ol \<noteq> os_version ol_old then At ST_Free else Finished 1)"
| "optiks_trylock_version ol_old ol ST_Free = Next (ol\<lparr>os_lock := OPTIKS_FREE\<rparr>) (Finished 0)"

datatype optiks_version_pc = SV_Read_Lock | SV_Read_Version "32 word" | SV_CAS "32 word"

fun optiks_lock_version :: "optiks \<Rightarrow> optiks \<Rightarrow> optiks_version_pc \<Rightarrow> (optiks_version_pc, int) optiks_outcome" where
  "optiks_lock_version ol_old ol SV_Read_Lock = Next ol (At (SV_Read_Version (os_lock ol)))"
| "optiks_lock_version ol_old ol (SV_Read_Version lock) =
     Next ol (At (if lock = OPTIKS_LOCKED then SV_Read_Lock else SV_CAS (os_version ol)))"
| "optiks_lock_version ol_old ol (SV_CAS cur_version) =
     (if os_lock ol = 0
      then Next (ol\<lparr>os_lock := 1\<rparr>) (Finished (if cur_version = os_version ol_old then 1 else 0))
      else Next ol (At SV_Read_Lock))"

definition optiks_lock_version_backoff :: "optiks \<Rightarrow> optiks \<Rightarrow> optiks_version_pc \<Rightarrow>
    (optiks_version_pc, int) optiks_outcome" where
  "optiks_lock_version_backoff = optiks_lock_version"

fun optiks_trylock :: "optiks \<Rightarrow> optiks_lock_pc \<Rightarrow> (optiks_lock_pc, int) optiks_outcome" where
  "optiks_trylock ol SL_Read = Next ol (if optiks_is_locked ol then Finished 0 else At SL_CAS)"
| "optiks_trylock ol SL_CAS =
     (if os_lock ol = 0 then Next (ol\<lparr>os_lock := 1\<rparr>) (Finished 1) else Next ol (Finished 0))"

text \<open>\<^verbatim>\<open>ol->version++\<close>, a load and a store, then \<^verbatim>\<open>ol->lock = 0\<close>. \<^verbatim>\<open>optik_revert\<close> is the same function.\<close>

datatype optiks_unlock_pc = SU_Read | SU_Write "32 word" | SU_Free

fun optiks_unlock :: "optiks \<Rightarrow> optiks_unlock_pc \<Rightarrow> (optiks_unlock_pc, unit) optiks_outcome" where
  "optiks_unlock ol SU_Read = Next ol (At (SU_Write (os_version ol)))"
| "optiks_unlock ol (SU_Write v) = Next (ol\<lparr>os_version := v + 1\<rparr>) (At SU_Free)"
| "optiks_unlock ol SU_Free = Next (ol\<lparr>os_lock := 0\<rparr>) (Finished ())"

definition optiks_revert :: "optiks \<Rightarrow> optiks_unlock_pc \<Rightarrow> (optiks_unlock_pc, unit) optiks_outcome" where
  "optiks_revert = optiks_unlock"

section \<open>A client\<close>

datatype optiks_op = OS_Lock bool | OS_Lock_Version bool optiks | OS_Trylock | OS_Trylock_Version optiks

datatype optiks_pc =
    OSC_Lock bool optiks_lock_pc
  | OSC_Lock_Version bool optiks optiks_version_pc
  | OSC_Trylock optiks_lock_pc
  | OSC_Trylock_Version optiks optiks_try_pc
  | OS_Crit "optiks option" int       \<comment> \<open>the version validated under the lock, the result\<close>
  | OSC_Unlock int optiks_unlock_pc

fun optiks_start :: "optiks_op \<Rightarrow> optiks_pc option" where
  "optiks_start (OS_Lock b) = Some (OSC_Lock b SL_Read)"
| "optiks_start (OS_Lock_Version b v) = Some (OSC_Lock_Version b v SV_Read_Lock)"
| "optiks_start OS_Trylock = Some (OSC_Trylock SL_Read)"
| "optiks_start (OS_Trylock_Version v) = Some (OSC_Trylock_Version v (ST_Lock SL_Read))"

fun optiks_exec :: "tid \<Rightarrow> ptr \<Rightarrow> optiks \<Rightarrow> optiks_pc \<Rightarrow> (optiks_pc, int) optiks_outcome" where
  "optiks_exec t p ol (OSC_Lock b x) =
     within (OSC_Lock b) (\<lambda>r. At (OS_Crit None r)) ((if b then optiks_lock_backoff else optiks_lock) ol x)"
| "optiks_exec t p ol (OSC_Lock_Version b v x) =
     within (OSC_Lock_Version b v) (\<lambda>r. At (OS_Crit None r))
       ((if b then optiks_lock_version_backoff else optiks_lock_version) v ol x)"
| "optiks_exec t p ol (OSC_Trylock x) =
     within OSC_Trylock (\<lambda>r. if r \<noteq> 0 then At (OS_Crit None r) else Finished 0) (optiks_trylock ol x)"
| "optiks_exec t p ol (OSC_Trylock_Version v x) =
     within (OSC_Trylock_Version v) (\<lambda>r. if r \<noteq> 0 then At (OS_Crit (Some v) r) else Finished 0)
       (optiks_trylock_version v ol x)"
| "optiks_exec t p ol (OS_Crit v r) = Next ol (At (OSC_Unlock r SU_Read))"
| "optiks_exec t p ol (OSC_Unlock r x) = within (OSC_Unlock r) (\<lambda>_. Finished r) (optiks_unlock ol x)"

section \<open>The invariant\<close>

fun optiks_holds :: "(optiks_pc, int) control \<Rightarrow> bool" where
  "optiks_holds (At (OSC_Trylock_Version v ST_Check)) = True"
| "optiks_holds (At (OSC_Trylock_Version v ST_Free)) = True"
| "optiks_holds (At (OS_Crit v r)) = True"
| "optiks_holds (At (OSC_Unlock r x)) = True"
| "optiks_holds x = False"

text \<open>The holder knows the version: it is the one its validation compared.\<close>

fun optiks_local :: "optiks \<Rightarrow> (optiks_pc, int) control \<Rightarrow> bool" where
  "optiks_local ol (At (OS_Crit (Some v) r)) = (os_version v = os_version ol)"
| "optiks_local ol (At (OSC_Unlock r (SU_Write v))) = (v = os_version ol)"
| "optiks_local ol x = True"

definition optiks_inv :: "optiks \<Rightarrow> (tid \<Rightarrow> (optiks_pc, int) control) \<Rightarrow> bool" where
  "optiks_inv ol c \<longleftrightarrow> os_lock ol \<in> {OPTIKS_FREE, OPTIKS_LOCKED} \<and>
     flag_ok (os_lock ol = OPTIKS_LOCKED) (optiks_holds \<circ> c) \<and> (\<forall>t. optiks_local ol (c t))"

lemma optiks_pc_exhaust:
  obtains b where "x = OSC_Lock b SL_Read" | b where "x = OSC_Lock b SL_CAS"
  | b v where "x = OSC_Lock_Version b v SV_Read_Lock" | b v k where "x = OSC_Lock_Version b v (SV_Read_Version k)"
  | b v k where "x = OSC_Lock_Version b v (SV_CAS k)"
  | "x = OSC_Trylock SL_Read" | "x = OSC_Trylock SL_CAS"
  | v where "x = OSC_Trylock_Version v (ST_Lock SL_Read)" | v where "x = OSC_Trylock_Version v (ST_Lock SL_CAS)"
  | v where "x = OSC_Trylock_Version v ST_Check" | v where "x = OSC_Trylock_Version v ST_Free"
  | v r where "x = OS_Crit v r"
  | r where "x = OSC_Unlock r SU_Read" | r v where "x = OSC_Unlock r (SU_Write v)" | r where "x = OSC_Unlock r SU_Free"
proof (cases x)
  case (OSC_Lock b w)
  then show thesis by (cases w) (use that(1,2) in auto)
next
  case (OSC_Lock_Version b v w)
  then show thesis by (cases w) (use that(3,4,5) in auto)
next
  case (OSC_Trylock w)
  then show thesis by (cases w) (use that(6,7) in auto)
next
  case (OSC_Trylock_Version v w)
  then show thesis
  proof (cases w)
    case (ST_Lock y)
    then show thesis using OSC_Trylock_Version by (cases y) (use that(8,9) in auto)
  qed (use that(10,11) OSC_Trylock_Version in auto)
next
  case (OS_Crit v r)
  then show thesis using that(12) by auto
next
  case (OSC_Unlock r w)
  then show thesis by (cases w) (use that(13,14,15) in auto)
qed

text \<open>What a step does to the flag and the version.\<close>

lemma optiks_step:
  assumes "optiks_exec t p s x = Next s' y" and "optiks_local s (At x)" and "os_lock s \<in> {0, 1}"
  shows "optiks_local s' y"
    and "s' = s \<and> optiks_holds y = optiks_holds (At x) \<or>
      os_lock s = 0 \<and> s' = s\<lparr>os_lock := 1\<rparr> \<and> optiks_holds y \<and> \<not> optiks_holds (At x) \<or>
      s' = s\<lparr>os_lock := 0\<rparr> \<and> \<not> optiks_holds y \<and> optiks_holds (At x) \<or>
      s' = s\<lparr>os_version := os_version s + 1\<rparr> \<and> optiks_holds y \<and> optiks_holds (At x)"
  using assms by (atomize (full), cases x rule: optiks_pc_exhaust)
    (auto simp: optiks_is_locked_def OPTIKS_FREE_def OPTIKS_LOCKED_def optiks_lock_backoff_def
      optiks_lock_version_backoff_def split: if_splits)

lemma optiks_local_stable:
  "optiks_local s z \<Longrightarrow> os_version s' = os_version s \<or> \<not> optiks_holds z \<Longrightarrow> optiks_local s' z"
  by (cases "(s, z)" rule: optiks_local.cases) auto

lemma optiks_inv_exec:
  assumes "optiks_inv s c" and c: "c t = At x" and ex: "optiks_exec t p s x = Next s' y"
  shows "optiks_inv s' (c(t := y))"
proof -
  let ?f = "optiks_holds \<circ> c"
  have loc: "optiks_local s (c u)" and lock: "os_lock s \<in> {0, 1}"
      and flag: "flag_ok (os_lock s = 1) ?f" for u
    using assms(1) by (auto simp: optiks_inv_def OPTIKS_FREE_def OPTIKS_LOCKED_def)
  have "optiks_local s (At x)" using loc [of t] c by simp
  note step = optiks_step [OF ex this lock]
  have "os_lock s' \<in> {0, 1} \<and> flag_ok (os_lock s' = 1) (?f(t := optiks_holds y))"
    using step(2)
  proof (elim disjE conjE)
    assume "s' = s" "optiks_holds y = optiks_holds (At x)"
    then show ?thesis using flag_keep [OF flag, of t "optiks_holds y"] lock c by simp
  next
    assume "os_lock s = 0" "s' = s\<lparr>os_lock := 1\<rparr>" "optiks_holds y"
    then show ?thesis using flag_acquire [of ?f t] flag by simp
  next
    assume "s' = s\<lparr>os_lock := 0\<rparr>" "\<not> optiks_holds y" "optiks_holds (At x)"
    then show ?thesis using flag_release [OF flag, of t] c by simp
  next
    assume "s' = s\<lparr>os_version := os_version s + 1\<rparr>" "optiks_holds y" "optiks_holds (At x)"
    then show ?thesis using flag_keep [OF flag, of t "optiks_holds y"] lock c by simp
  qed
  moreover have "optiks_local s' (c u)" if "u \<noteq> t" for u
  proof (rule optiks_local_stable [OF loc])
    have "optiks_holds (c t)" if "os_version s' \<noteq> os_version s"
      using step(2) that c by auto
    then show "os_version s' = os_version s \<or> \<not> optiks_holds (c u)"
      using flag_exclusive [OF flag, of t u] that by auto
  qed
  ultimately show ?thesis
    using step(1) unfolding optiks_inv_def comp_upd OPTIKS_FREE_def OPTIKS_LOCKED_def by simp
qed

interpretation optiks: run_invariant optiks_start optiks_exec optiks_init UNIV optiks_inv
proof
  show "optiks_inv optiks_init (\<lambda>_. Idle)"
    using flag_init by (simp add: optiks_inv_def optiks_init_def OPTIKS_FREE_def OPTIKS_LOCKED_def comp_def)
next
  fix s t x op and c :: "tid \<Rightarrow> (optiks_pc, int) control"
  assume *: "optiks_inv s c" "c t = Idle" "optiks_start op = Some x"
  then show "optiks_inv s (c(t := At x))"
    by (cases op) (auto simp: optiks_inv_def comp_upd intro!: flag_keep)
next
  fix s t r and c :: "tid \<Rightarrow> (optiks_pc, int) control"
  assume *: "optiks_inv s c" "c t = Finished r"
  then show "optiks_inv s (c(t := Idle))"
    by (auto simp: optiks_inv_def comp_upd intro!: flag_keep)
qed (rule optiks_inv_exec)

section \<open>Mutual exclusion and validation\<close>

text \<open>C18: on the OPTIK lock with a separate version at most one thread holds the lock, the flag says
  whether one does, and while a thread that \<^verbatim>\<open>optik_trylock_version\<close> let in is inside, the version is the
  one it validated.\<close>

lemma optik_separate_correct:
  assumes "run optiks_start optiks_exec optiks_init n h (l, c)"
  shows "(os_lock l = OPTIKS_LOCKED \<longleftrightarrow> (\<exists>t. optiks_holds (c t))) \<and>
    (\<forall>t u. optiks_holds (c t) \<longrightarrow> optiks_holds (c u) \<longrightarrow> t = u) \<and>
    (\<forall>t v r. c t = At (OS_Crit (Some v) r) \<longrightarrow> os_version v = os_version l)"
proof -
  have inv: "optiks_inv l c" using optiks.invariant [OF assms] by simp
  have "os_version v = os_version l" if "c t = At (OS_Crit (Some v) r)" for t v r
    using inv that unfolding optiks_inv_def by (metis optiks_local.simps(1))
  then show ?thesis using inv by (auto simp: optiks_inv_def flag_ok_def)
qed

definition optiks_demo :: "optiks_op command list" where
  "optiks_demo = Do_Call 0 (OS_Trylock_Version optiks_init) # replicate 3 (Do_Step 0 0)"

lemma optik_separate_correct_witness:
  "\<exists>l c. run optiks_start optiks_exec optiks_init (length optiks_demo)
       [(0, Call (OS_Trylock_Version optiks_init))] (l, c)
     \<and> c 0 = At (OS_Crit (Some optiks_init) 1) \<and> os_lock l = OPTIKS_LOCKED"
proof -
  have "\<exists>l c. run optiks_start optiks_exec optiks_init (length optiks_demo)
       [(0, Call (OS_Trylock_Version optiks_init))] (l, c) \<and> c 0 = At (OS_Crit (Some optiks_init) 1)"
    by (rule replay_exhibits) (simp add: optiks_demo_def optiks_init_def optiks_is_locked_def
        OPTIKS_FREE_def OPTIKS_LOCKED_def numeral_eq_Suc)
  then obtain l c where r: "run optiks_start optiks_exec optiks_init (length optiks_demo)
       [(0, Call (OS_Trylock_Version optiks_init))] (l, c)" and c: "c 0 = At (OS_Crit (Some optiks_init) 1)"
    by blast
  have "os_lock l = OPTIKS_LOCKED"
    using optik_separate_correct [OF r] c by (metis optiks_holds.simps(3))
  with r c show ?thesis by blast
qed

definition optiks_stale :: "optiks_op command list" where
  "optiks_stale =
     [Do_Call 1 (OS_Lock_Version False optiks_init)] @ replicate 2 (Do_Step 1 0) @
     [Do_Call 0 (OS_Lock False)] @ replicate 6 (Do_Step 0 0) @ [Do_Step 1 0]"

text \<open>\<^verbatim>\<open>optik_lock_version\<close> can return 1 although the version has changed: thread 1 reads a free lock
  and version 0, thread 0 takes the lock and releases it with version 1, then the compare-and-swap of
  thread 1, which looks at the flag only, succeeds and its result compares the stale version.\<close>

lemma optik_separate_lock_version_stale:
  "\<exists>l c. run optiks_start optiks_exec optiks_init (length optiks_stale)
       [(1, Call (OS_Lock_Version False optiks_init)), (0, Call (OS_Lock False))] (l, c)
     \<and> c 1 = At (OS_Crit None 1) \<and> os_version l \<noteq> os_version optiks_init"
  by (rule replay_exhibits) (simp add: optiks_stale_def optiks_init_def optiks_is_locked_def
      OPTIKS_FREE_def OPTIKS_LOCKED_def numeral_eq_Suc)

end
