(* ===== verification/LinkedList_Copy.thy ===== *)
theory LinkedList_Copy
  imports Search_Spec
begin

text \<open>
  The copy-on-write list: the arrays of \<^verbatim>\<open>src/aux/ll_array.h\<close> and the operations of
  \<^verbatim>\<open>src/algorithms/linkedlist_copy.h\<close>. An update copies the whole array under the lock and publishes
  the copy by one pointer assignment; a search reads the pointer once and scans that array without
  the lock. One iteration of a scanning or copying loop is one step: the array it reads was published
  and the one it writes is private, so no other thread changes either (which the invariant shows).

  The space for the nodes is that of the code: \<^verbatim>\<open>nodes\<close> is computed by a cast that binds tighter than
  the addition, so it starts \<open>16\<close> nodes after the header instead of \<open>16\<close> bytes, and the last of the
  \<^verbatim>\<open>array_ll_fixed_size\<close> nodes lie outside the block. Accesses outside the block fault.
\<close>

section \<open>Arrays\<close>

record ('k, 'v) node_ll =
  nd_key :: 'k
  nd_val :: 'v

text \<open>\<open>None\<close> is a node that has been allocated and not written.\<close>

record ('k, 'v) ll_array =
  la_size :: "64 word"
  la_nodes :: "('k, 'v) node_ll option list"

text \<open>The number of nodes that lie inside the block: \<open>nsize\<close> is \<^verbatim>\<open>sizeof(node_ll<K,V>)\<close>, \<open>fixed\<close> is
  \<^verbatim>\<open>array_ll_fixed_size\<close>, and \<^verbatim>\<open>sizeof(ll_array<K,V>)\<close> is 16.\<close>

definition ll_array_slots :: "nat \<Rightarrow> nat \<Rightarrow> nat" where
  "ll_array_slots nsize fixed = (16 + fixed * nsize - 16 * nsize) div nsize"

definition initialize_ll_array :: "nat \<Rightarrow> 64 word \<Rightarrow> ('k, 'v) ll_array" where
  "initialize_ll_array slots sz = \<lparr>la_size = sz, la_nodes = replicate slots None\<rparr>"

definition allocate_ll_array :: "nat \<Rightarrow> 64 word \<Rightarrow> ('k, 'v) ll_array" where
  "allocate_ll_array slots sz = \<lparr>la_size = sz, la_nodes = replicate slots None\<rparr>"

text \<open>Reading and writing \<^verbatim>\<open>nodes[i]\<close>.\<close>

definition la_read :: "('k, 'v) ll_array \<Rightarrow> nat \<Rightarrow> (('k, 'v) node_ll \<Rightarrow> ('s, 'l, 'r) outcome) \<Rightarrow> ('s, 'l, 'r) outcome" where
  "la_read a i f = (if i < length (la_nodes a)
     then (case la_nodes a ! i of None \<Rightarrow> Fault | Some n \<Rightarrow> f n) else Fault)"

definition la_write :: "('k, 'v) ll_array \<Rightarrow> nat \<Rightarrow> ('k, 'v) node_ll \<Rightarrow> (('k, 'v) ll_array \<Rightarrow> ('s, 'l, 'r) outcome) \<Rightarrow>
    ('s, 'l, 'r) outcome" where
  "la_write a i n f = (if i < length (la_nodes a) then f (a\<lparr>la_nodes := (la_nodes a)[i := Some n]\<rparr>) else Fault)"

section \<open>The code\<close>

record ('k, 'v) cow =
  cw_array :: ptr
  cw_lock :: "tid option"
  cw_mem :: "('k, 'v) ll_array store"

abbreviation cow_cells :: "('k, 'v) cow \<Rightarrow> ptr \<Rightarrow> ('k, 'v) ll_array option" where
  "cow_cells s \<equiv> cells (cw_mem s)"

definition cow_init :: "nat \<Rightarrow> ptr \<Rightarrow> ('k, 'v) cow" where
  "cow_init slots p =
     \<lparr>cw_array = p, cw_lock = None, cw_mem = put_cell p (initialize_ll_array slots 0) empty_store\<rparr>"

datatype cow_search_pc =
    CS_Read             \<comment> \<open>\<^verbatim>\<open>current_list = cow->array\<close>\<close>
  | CS_Loop ptr nat     \<comment> \<open>the loop at node \<^verbatim>\<open>i\<close>\<close>

fun cow_search :: "('k, 'v::zero) cow \<Rightarrow> 'k \<Rightarrow> cow_search_pc \<Rightarrow> (('k, 'v) cow, cow_search_pc, 'v) outcome" where
  "cow_search s key CS_Read = Next s (At (CS_Loop (cw_array s) 0))"
| "cow_search s key (CS_Loop l i) =
     deref (cow_cells s) l (\<lambda>a.
       if i < unat (la_size a)
       then la_read a i (\<lambda>n. Next s (if nd_key n = key then Finished (nd_val n) else At (CS_Loop l (Suc i))))
       else Next s (Finished 0))"

datatype cow_insert_pc =
    CI_Search cow_search_pc   \<comment> \<open>\<^verbatim>\<open>search(key) != 0\<close> when \<^verbatim>\<open>RO_FAIL\<close> is set\<close>
  | CI_Lock                   \<comment> \<open>\<^verbatim>\<open>LOCK_A(cow->lock)\<close>\<close>
  | CI_Old                    \<comment> \<open>\<^verbatim>\<open>all_old = cow->array\<close>\<close>
  | CI_Alloc ptr              \<comment> \<open>\<^verbatim>\<open>all_new = allocate_ll_array(all_old->size + 1)\<close>\<close>
  | CI_Copy ptr ptr nat       \<comment> \<open>the copying loop at node \<^verbatim>\<open>i\<close>\<close>
  | CI_Put ptr ptr nat        \<comment> \<open>\<^verbatim>\<open>all_new->nodes[i] = (key, value)\<close>\<close>
  | CI_Publish ptr ptr        \<comment> \<open>\<^verbatim>\<open>cow->array = all_new\<close>\<close>
  | CI_Unlock ptr int         \<comment> \<open>\<^verbatim>\<open>UNLOCK_A\<close>; the array to delete and the result\<close>
  | CI_Free ptr int           \<comment> \<open>\<^verbatim>\<open>cpy_delete_copy\<close>\<close>

datatype 'v cow_remove_pc =
    CR_Search cow_search_pc        \<comment> \<open>\<^verbatim>\<open>search(key) == 0\<close> when \<^verbatim>\<open>RO_FAIL\<close> is set\<close>
  | CR_Lock                        \<comment> \<open>\<^verbatim>\<open>LOCK_A(cow->lock)\<close>\<close>
  | CR_Old                         \<comment> \<open>\<^verbatim>\<open>all_old = cow->array\<close>\<close>
  | CR_Alloc ptr                   \<comment> \<open>\<^verbatim>\<open>all_new = allocate_ll_array(all_old->size - 1)\<close>\<close>
  | CR_Copy ptr ptr nat nat 'v     \<comment> \<open>the copying loop at nodes \<^verbatim>\<open>i\<close> and \<^verbatim>\<open>n\<close>, with \<^verbatim>\<open>removed\<close>\<close>
  | CR_Publish ptr ptr 'v          \<comment> \<open>\<^verbatim>\<open>if (removed) cow->array = all_new\<close>\<close>
  | CR_Unlock ptr 'v               \<comment> \<open>\<^verbatim>\<open>UNLOCK_A\<close>; \<^verbatim>\<open>to_delete\<close> and the result\<close>
  | CR_Free ptr 'v                 \<comment> \<open>\<^verbatim>\<open>cpy_delete_copy\<close>\<close>

datatype ('k, 'v) cow_pc =
    CSearch 'k cow_search_pc
  | CInsert 'k 'v cow_insert_pc
  | CRemove 'k "'v cow_remove_pc"

type_synonym ('k, 'v) cow_outcome = "(('k, 'v) cow, ('k, 'v) cow_pc, 'v map_ret) outcome"

definition cpy_delete_copy :: "('k, 'v) cow \<Rightarrow> ptr \<Rightarrow> 'v map_ret \<Rightarrow> ('k, 'v) cow_outcome" where
  "cpy_delete_copy s p r = release (cw_mem s) p (\<lambda>m. Next (s\<lparr>cw_mem := m\<rparr>) (Finished r))"

fun cow_insert :: "nat \<Rightarrow> tid \<Rightarrow> ptr \<Rightarrow> ('k, 'v::zero) cow \<Rightarrow> 'k \<Rightarrow> 'v \<Rightarrow> cow_insert_pc \<Rightarrow> ('k, 'v) cow_outcome" where
  "cow_insert slots t p s key v (CI_Search x) =
     within (\<lambda>x. CInsert key v (CI_Search x))
       (\<lambda>r. if r \<noteq> 0 then Finished (Ret_Int 0) else At (CInsert key v CI_Lock)) (cow_search s key x)"
| "cow_insert slots t p s key v CI_Lock =
     (if cw_lock s = None then Next (s\<lparr>cw_lock := Some t\<rparr>) (At (CInsert key v CI_Old)) else Blocked)"
| "cow_insert slots t p s key v CI_Old = Next s (At (CInsert key v (CI_Alloc (cw_array s))))"
| "cow_insert slots t p s key v (CI_Alloc old) =
     deref (cow_cells s) old (\<lambda>a. alloc (cow_cells s) p
       (Next (s\<lparr>cw_mem := put_cell p (allocate_ll_array slots (la_size a + 1)) (cw_mem s)\<rparr>)
         (At (CInsert key v (CI_Copy old p 0)))))"
| "cow_insert slots t p s key v (CI_Copy old new i) =
     deref (cow_cells s) old (\<lambda>a.
       if i < unat (la_size a)
       then la_read a i (\<lambda>n.
         if nd_key n = key then Next s (At (CInsert key v (CI_Unlock new 0)))
         else deref (cow_cells s) new (\<lambda>b. la_write b i n (\<lambda>b.
           Next (s\<lparr>cw_mem := put_cell new b (cw_mem s)\<rparr>) (At (CInsert key v (CI_Copy old new (Suc i)))))))
       else Next s (At (CInsert key v (CI_Put old new i))))"
| "cow_insert slots t p s key v (CI_Put old new i) =
     deref (cow_cells s) new (\<lambda>b. la_write b i \<lparr>nd_key = key, nd_val = v\<rparr> (\<lambda>b.
       Next (s\<lparr>cw_mem := put_cell new b (cw_mem s)\<rparr>) (At (CInsert key v (CI_Publish old new)))))"
| "cow_insert slots t p s key v (CI_Publish old new) =
     Next (s\<lparr>cw_array := new\<rparr>) (At (CInsert key v (CI_Unlock old 1)))"
| "cow_insert slots t p s key v (CI_Unlock d r) =
     Next (s\<lparr>cw_lock := None\<rparr>) (At (CInsert key v (CI_Free d r)))"
| "cow_insert slots t p s key v (CI_Free d r) = cpy_delete_copy s d (Ret_Int r)"

fun cow_remove :: "nat \<Rightarrow> tid \<Rightarrow> ptr \<Rightarrow> ('k, 'v::zero) cow \<Rightarrow> 'k \<Rightarrow> 'v cow_remove_pc \<Rightarrow> ('k, 'v) cow_outcome" where
  "cow_remove slots t p s key (CR_Search x) =
     within (\<lambda>x. CRemove key (CR_Search x))
       (\<lambda>r. if r = 0 then Finished (Ret_Val 0) else At (CRemove key CR_Lock)) (cow_search s key x)"
| "cow_remove slots t p s key CR_Lock =
     (if cw_lock s = None then Next (s\<lparr>cw_lock := Some t\<rparr>) (At (CRemove key CR_Old)) else Blocked)"
| "cow_remove slots t p s key CR_Old = Next s (At (CRemove key (CR_Alloc (cw_array s))))"
| "cow_remove slots t p s key (CR_Alloc old) =
     deref (cow_cells s) old (\<lambda>a. alloc (cow_cells s) p
       (Next (s\<lparr>cw_mem := put_cell p (allocate_ll_array slots (la_size a - 1)) (cw_mem s)\<rparr>)
         (At (CRemove key (CR_Copy old p 0 0 0)))))"
| "cow_remove slots t p s key (CR_Copy old new i n removed) =
     deref (cow_cells s) old (\<lambda>a.
       if i < unat (la_size a)
       then la_read a i (\<lambda>x.
         if nd_key x = key then Next s (At (CRemove key (CR_Copy old new (Suc i) n (nd_val x))))
         else deref (cow_cells s) new (\<lambda>b. la_write b n x (\<lambda>b.
           Next (s\<lparr>cw_mem := put_cell new b (cw_mem s)\<rparr>)
             (At (CRemove key (CR_Copy old new (Suc i) (Suc n) removed))))))
       else Next s (At (CRemove key (CR_Publish old new removed))))"
| "cow_remove slots t p s key (CR_Publish old new removed) =
     (if removed \<noteq> 0
      then Next (s\<lparr>cw_array := new\<rparr>) (At (CRemove key (CR_Unlock old removed)))
      else Next s (At (CRemove key (CR_Unlock new removed))))"
| "cow_remove slots t p s key (CR_Unlock d removed) =
     Next (s\<lparr>cw_lock := None\<rparr>) (At (CRemove key (CR_Free d removed)))"
| "cow_remove slots t p s key (CR_Free d removed) = cpy_delete_copy s d (Ret_Val removed)"

text \<open>\<^verbatim>\<open>return cow->array->size\<close>, a \<^verbatim>\<open>size_t\<close> returned as an \<^verbatim>\<open>int\<close>.\<close>

definition cow_length :: "('k, 'v) cow \<Rightarrow> int option" where
  "cow_length s = map_option (\<lambda>a. sint (ucast (la_size a) :: 32 word)) (cow_cells s (cw_array s))"

text \<open>The entry points. A value 0 stands for absence in the interface: \<^verbatim>\<open>remove\<close> would not remove a key
  bound to it, so inserting it is outside the contract.\<close>

fun cow_start :: "bool \<Rightarrow> ('k, 'v::zero) map_op \<Rightarrow> ('k, 'v) cow_pc option" where
  "cow_start ro_fail (Search k) = Some (CSearch k CS_Read)"
| "cow_start ro_fail (Insert k v) =
     (if v = 0 then None else Some (CInsert k v (if ro_fail then CI_Search CS_Read else CI_Lock)))"
| "cow_start ro_fail (Delete k) = Some (CRemove k (if ro_fail then CR_Search CS_Read else CR_Lock))"

fun cow_exec :: "nat \<Rightarrow> tid \<Rightarrow> ptr \<Rightarrow> ('k, 'v::zero) cow \<Rightarrow> ('k, 'v) cow_pc \<Rightarrow> ('k, 'v) cow_outcome" where
  "cow_exec slots t p s (CSearch k x) = within (CSearch k) (\<lambda>r. Finished (Ret_Val r)) (cow_search s k x)"
| "cow_exec slots t p s (CInsert k v x) = cow_insert slots t p s k v x"
| "cow_exec slots t p s (CRemove k x) = cow_remove slots t p s k x"

section \<open>The invariant\<close>

fun cow_own :: "(('k, 'v) cow_pc, 'v map_ret) control \<Rightarrow> unit ownership" where
  "cow_own (At (CInsert k v CI_Old)) = holding {} {} {()}"
| "cow_own (At (CInsert k v (CI_Alloc old))) = holding {} {} {()}"
| "cow_own (At (CInsert k v (CI_Copy old new i))) = holding {new} {} {()}"
| "cow_own (At (CInsert k v (CI_Put old new i))) = holding {new} {} {()}"
| "cow_own (At (CInsert k v (CI_Publish old new))) = holding {new} {} {()}"
| "cow_own (At (CInsert k v (CI_Unlock d r))) = holding {} {d} {()}"
| "cow_own (At (CInsert k v (CI_Free d r))) = holding {} {d} {}"
| "cow_own (At (CRemove k CR_Old)) = holding {} {} {()}"
| "cow_own (At (CRemove k (CR_Alloc old))) = holding {} {} {()}"
| "cow_own (At (CRemove k (CR_Copy old new i n x))) = holding {new} {} {()}"
| "cow_own (At (CRemove k (CR_Publish old new x))) = holding {new} {} {()}"
| "cow_own (At (CRemove k (CR_Unlock d x))) = holding {} {d} {()}"
| "cow_own (At (CRemove k (CR_Free d x))) = holding {} {d} {}"
| "cow_own _ = none_owned"

text \<open>An array holds a list of bindings.\<close>

definition node_of :: "'k \<times> 'v \<Rightarrow> ('k, 'v) node_ll" where
  "node_of x = \<lparr>nd_key = fst x, nd_val = snd x\<rparr>"

lemma node_of_simps [simp]: "nd_key (node_of x) = fst x" "nd_val (node_of x) = snd x"
  by (simp_all add: node_of_def)

definition holds_nodes :: "('k, 'v) ll_array \<Rightarrow> ('k \<times> 'v) list \<Rightarrow> bool" where
  "holds_nodes a xs \<longleftrightarrow> length xs \<le> length (la_nodes a) \<and> (\<forall>i < length xs. la_nodes a ! i = Some (node_of (xs ! i)))"

definition array_at :: "('k, 'v) ll_array store \<Rightarrow> ptr \<Rightarrow> ('k \<times> 'v) list \<Rightarrow> bool" where
  "array_at m p xs \<longleftrightarrow> (\<exists>a. cells m p = Some a \<and> unat (la_size a) = length xs \<and> holds_nodes a xs)"

definition cow_map :: "('k, 'v::zero) cow \<Rightarrow> ('k \<times> 'v) list \<Rightarrow> ('k \<rightharpoonup> 'v) \<Rightarrow> bool" where
  "cow_map s xs a \<longleftrightarrow> array_at (cw_mem s) (cw_array s) xs \<and> distinct (map fst xs) \<and> a = map_of xs \<and> 0 \<notin> snd ` set xs"

definition cow_SI :: "nat \<Rightarrow> ('k, 'v::zero) cow \<Rightarrow> ('k \<rightharpoonup> 'v) \<Rightarrow> (tid \<Rightarrow> unit ownership) \<Rightarrow> bool" where
  "cow_SI n s a w \<longleftrightarrow> partition_ok (cw_mem s) {cw_array s} w \<and> locks_ok (\<lambda>_. cw_lock s) w \<and>
     (\<exists>xs. cow_map s xs a \<and> length xs \<le> n)"

text \<open>A scan that has reached node \<open>i\<close> of an array: the array never changes again, and the answer it
  gives was right when the pointer was read.\<close>

definition cow_scan :: "('k, 'v::zero) cow \<Rightarrow> (tid \<Rightarrow> unit ownership) \<Rightarrow> ('k, 'v) map_op \<Rightarrow>
    (('k, 'v) map_op, 'v map_ret) ghost \<Rightarrow> ptr \<Rightarrow> nat \<Rightarrow> bool" where
  "cow_scan s w op g l i \<longleftrightarrow> published (cw_mem s) w l \<and>
     (\<exists>xs. array_at (cw_mem s) l xs \<and> i \<le> length xs \<and> (\<forall>j<i. fst (xs ! j) \<noteq> op_key op) \<and> 0 \<notin> snd ` set xs \<and>
       (case map_of xs (op_key op) of None \<Rightarrow> seen_absent g | Some v \<Rightarrow> seen_present g v))"

text \<open>The copy of the holder of the lock: what it has written to the new array, and its size.\<close>

definition cow_copy :: "nat \<Rightarrow> ('k, 'v) cow \<Rightarrow> ptr \<Rightarrow> ptr \<Rightarrow> (('k \<times> 'v) list \<Rightarrow> ('k \<times> 'v) list \<Rightarrow> 64 word \<Rightarrow> bool) \<Rightarrow> bool" where
  "cow_copy slots s old new P \<longleftrightarrow> old = cw_array s \<and>
     (\<exists>xs ys b. array_at (cw_mem s) old xs \<and> cow_cells s new = Some b \<and> length (la_nodes b) = slots \<and> holds_nodes b ys \<and>
        P xs ys (la_size b))"

definition ci_copied :: "'k \<Rightarrow> nat \<Rightarrow> ('k \<times> 'v) list \<Rightarrow> ('k \<times> 'v) list \<Rightarrow> 64 word \<Rightarrow> bool" where
  "ci_copied k i xs ys n \<longleftrightarrow> i \<le> length xs \<and> ys = take i xs \<and> k \<notin> fst ` set ys \<and> n = of_nat (length xs) + 1"

definition cr_copied :: "'k \<Rightarrow> nat \<Rightarrow> nat \<Rightarrow> 'v::zero \<Rightarrow> ('k \<times> 'v) list \<Rightarrow> ('k \<times> 'v) list \<Rightarrow> 64 word \<Rightarrow> bool" where
  "cr_copied k i n r xs ys m \<longleftrightarrow> i \<le> length xs \<and> ys = filter (\<lambda>x. fst x \<noteq> k) (take i xs) \<and> n = length ys \<and>
     m = of_nat (length xs) - 1 \<and> r = val_or_zero (map_of (take i xs) k)"

fun cow_LI :: "nat \<Rightarrow> tid \<Rightarrow> ('k, 'v::zero) cow \<Rightarrow> ('k \<rightharpoonup> 'v) \<Rightarrow> (tid \<Rightarrow> unit ownership) \<Rightarrow>
    (('k, 'v) cow_pc, 'v map_ret) control \<Rightarrow> (('k, 'v) map_op, 'v map_ret) ghost \<Rightarrow> bool" where
  "cow_LI slots t s a w Idle g = (g = Quiet)"
| "cow_LI slots t s a w (Finished r) g = returns g r"
| "cow_LI slots t s a w (At (CSearch k CS_Read)) g = pending (Search k) g"
| "cow_LI slots t s a w (At (CSearch k (CS_Loop l i))) g = (pending (Search k) g \<and> cow_scan s w (Search k) g l i)"
| "cow_LI slots t s a w (At (CInsert k v (CI_Search CS_Read))) g = (pending (Insert k v) g \<and> v \<noteq> 0)"
| "cow_LI slots t s a w (At (CInsert k v (CI_Search (CS_Loop l i)))) g =
     (pending (Insert k v) g \<and> v \<noteq> 0 \<and> cow_scan s w (Insert k v) g l i)"
| "cow_LI slots t s a w (At (CInsert k v CI_Lock)) g = (pending (Insert k v) g \<and> v \<noteq> 0)"
| "cow_LI slots t s a w (At (CInsert k v CI_Old)) g = (pending (Insert k v) g \<and> v \<noteq> 0)"
| "cow_LI slots t s a w (At (CInsert k v (CI_Alloc old))) g = (pending (Insert k v) g \<and> v \<noteq> 0 \<and> old = cw_array s)"
| "cow_LI slots t s a w (At (CInsert k v (CI_Copy old new i))) g =
     (pending (Insert k v) g \<and> v \<noteq> 0 \<and> cow_copy slots s old new (ci_copied k i))"
| "cow_LI slots t s a w (At (CInsert k v (CI_Put old new i))) g =
     (pending (Insert k v) g \<and> v \<noteq> 0 \<and> cow_copy slots s old new (\<lambda>xs ys n. ci_copied k i xs ys n \<and> i = length xs))"
| "cow_LI slots t s a w (At (CInsert k v (CI_Publish old new))) g =
     (pending (Insert k v) g \<and> v \<noteq> 0 \<and>
      cow_copy slots s old new (\<lambda>xs ys n. ys = xs @ [(k, v)] \<and> k \<notin> fst ` set xs \<and> n = of_nat (length xs) + 1))"
| "cow_LI slots t s a w (At (CInsert k v (CI_Unlock d r))) g = returns g (Ret_Int r)"
| "cow_LI slots t s a w (At (CInsert k v (CI_Free d r))) g = returns g (Ret_Int r)"
| "cow_LI slots t s a w (At (CRemove k (CR_Search CS_Read))) g = pending (Delete k) g"
| "cow_LI slots t s a w (At (CRemove k (CR_Search (CS_Loop l i)))) g = (pending (Delete k) g \<and> cow_scan s w (Delete k) g l i)"
| "cow_LI slots t s a w (At (CRemove k CR_Lock)) g = pending (Delete k) g"
| "cow_LI slots t s a w (At (CRemove k CR_Old)) g = pending (Delete k) g"
| "cow_LI slots t s a w (At (CRemove k (CR_Alloc old))) g = (pending (Delete k) g \<and> old = cw_array s)"
| "cow_LI slots t s a w (At (CRemove k (CR_Copy old new i n r))) g =
     (pending (Delete k) g \<and> cow_copy slots s old new (cr_copied k i n r))"
| "cow_LI slots t s a w (At (CRemove k (CR_Publish old new r))) g =
     (pending (Delete k) g \<and> cow_copy slots s old new (\<lambda>xs ys m. \<exists>n. cr_copied k (length xs) n r xs ys m))"
| "cow_LI slots t s a w (At (CRemove k (CR_Unlock d r))) g = returns g (Ret_Val r)"
| "cow_LI slots t s a w (At (CRemove k (CR_Free d r))) g = returns g (Ret_Val r)"

text \<open>The runs considered: shorter than the number of nodes in an array, and the first array is
  somewhere.\<close>

definition cow_run_ok :: "nat \<Rightarrow> ptr \<Rightarrow> nat \<Rightarrow> bool" where
  "cow_run_ok slots p n \<longleftrightarrow> p \<noteq> NULL \<and> n < slots \<and> slots < 2 ^ 31"

lemma cow_SI_mono: "cow_SI n s a w \<Longrightarrow> cow_SI (Suc n) s a w"
  unfolding cow_SI_def using le_SucI by blast


section \<open>Interference\<close>

text \<open>A step leaves published arrays and the private arrays of the others alone, and publishes only under
  the lock.\<close>

definition cow_effect :: "tid \<Rightarrow> ('k, 'v) cow \<Rightarrow> (tid \<Rightarrow> unit ownership) \<Rightarrow> ('k, 'v) cow \<Rightarrow> (tid \<Rightarrow> unit ownership) \<Rightarrow> bool" where
  "cow_effect t s w s' w' \<longleftrightarrow>
     (\<forall>p. published (cw_mem s) w p \<longrightarrow> published (cw_mem s') w' p \<and> cow_cells s' p = cow_cells s p) \<and>
     (\<forall>u p. u \<noteq> t \<longrightarrow> p \<in> private_nodes (w u) \<longrightarrow> cow_cells s' p = cow_cells s p) \<and>
     (cw_array s' = cw_array s \<or> () \<in> held (w t))"

lemma cow_scan_stable:
  assumes "cow_effect t s w s' w'" and "cow_scan s w op g l i"
  shows "cow_scan s' w' op (observe map_spec a' g) l i"
proof -
  from assms(2) obtain xs where xs: "published (cw_mem s) w l" "array_at (cw_mem s) l xs" "i \<le> length xs"
      "\<forall>j<i. fst (xs ! j) \<noteq> op_key op" "0 \<notin> snd ` set xs"
      "case map_of xs (op_key op) of None \<Rightarrow> seen_absent g | Some v \<Rightarrow> seen_present g v"
    unfolding cow_scan_def by blast
  have "published (cw_mem s') w' l" "array_at (cw_mem s') l xs"
    using assms(1) xs(1,2) unfolding cow_effect_def array_at_def by auto
  moreover have "case map_of xs (op_key op) of None \<Rightarrow> seen_absent (observe map_spec a' g)
      | Some v \<Rightarrow> seen_present (observe map_spec a' g) v"
    using xs(6) by (auto split: option.splits intro: seen_absent_observe seen_present_observe)
  ultimately show ?thesis using xs(3-5) unfolding cow_scan_def by blast
qed

lemma cow_copy_stable:
  assumes "cow_SI n s a w" and "cow_effect t s w s' w'" and "u \<noteq> t" and "w u = holding {new} {} {()}"
    and "cow_copy slots s old new P"
  shows "cow_copy slots s' old new P"
proof -
  from assms(5) obtain xs ys b where *: "old = cw_array s" "array_at (cw_mem s) old xs" "cow_cells s new = Some b"
      "length (la_nodes b) = slots" "holds_nodes b ys" "P xs ys (la_size b)"
    unfolding cow_copy_def by blast
  have pt: "partition_ok (cw_mem s) {cw_array s} w" and lk: "locks_ok (\<lambda>_. cw_lock s) w"
    using assms(1) unfolding cow_SI_def by blast+
  have "() \<notin> held (w t)" using locks_exclusive [OF lk, of "()" u t] assms(3,4) by simp
  then have "cw_array s' = cw_array s" using assms(2) unfolding cow_effect_def by blast
  moreover have "cow_cells s' new = cow_cells s new" using assms(2-4) unfolding cow_effect_def by simp
  moreover have "published (cw_mem s) w old" using published_live [OF pt] *(1) by simp
  then have "cow_cells s' old = cow_cells s old" using assms(2) unfolding cow_effect_def by blast
  ultimately show ?thesis using * unfolding cow_copy_def array_at_def by auto
qed

lemma cow_stable:
  assumes SI: "cow_SI n s a w" and eff: "cow_effect t s w s' w'" and ut: "u \<noteq> t" and own: "w u = cow_own z"
    and LI: "cow_LI slots u s a w z g"
  shows "cow_LI slots u s' a' w' z (observe map_spec a' g)"
proof (cases z)
  case (At x)
  have array: "cw_array s' = cw_array s" if "() \<in> held (w u)"
  proof -
    have "locks_ok (\<lambda>_. cw_lock s) w" using SI unfolding cow_SI_def by blast
    from locks_exclusive [OF this that, of t] show ?thesis using ut eff unfolding cow_effect_def by blast
  qed
  note copy = cow_copy_stable [OF SI eff ut] and keep = pending_observe returns_observe cow_scan_stable [OF eff]
  show ?thesis
  proof (cases x)
    case (CSearch k pc)
    show ?thesis using LI unfolding At CSearch by (cases pc) (auto intro: keep)
  next
    case (CInsert k v pc)
    show ?thesis
    proof (cases pc)
      case (CI_Search q)
      show ?thesis using LI unfolding At CInsert CI_Search by (cases q) (auto intro: keep)
    qed (use LI own At CInsert array in \<open>auto intro: keep copy\<close>)
  next
    case (CRemove k pc)
    show ?thesis
    proof (cases pc)
      case (CR_Search q)
      show ?thesis using LI unfolding At CRemove CR_Search by (cases q) (auto intro: keep)
    qed (use LI own At CRemove array in \<open>auto intro: keep copy\<close>)
  qed
qed (use LI in \<open>auto intro: returns_observe\<close>)

section \<open>Steps\<close>

abbreviation cow_ok :: "nat \<Rightarrow> nat \<Rightarrow> tid \<Rightarrow> ('k, 'v::zero) cow \<Rightarrow> ('k \<rightharpoonup> 'v) \<Rightarrow> (tid \<Rightarrow> unit ownership) \<Rightarrow>
    (('k, 'v) map_op, 'v map_ret) ghost \<Rightarrow> ('k, 'v) cow \<Rightarrow> (('k, 'v) cow_pc, 'v map_ret) control \<Rightarrow> bool" where
  "cow_ok slots \<equiv> step_ok map_spec cow_own cow_SI (cow_LI slots)"

lemma cow_okI:
  assumes "cow_SI n s a w" and "advance map_spec a g a' g'" and "cow_SI (Suc n) s' a' (w(t := cow_own y))"
    and "cow_LI slots t s' a' (w(t := cow_own y)) y g'" and "cow_effect t s w s' (w(t := cow_own y))"
  shows "cow_ok slots n t s a w g s' y"
  by (rule step_okI [where own = cow_own and SI = cow_SI and LI = "cow_LI slots", OF assms(2-4)]) (rule cow_stable [OF assms(1,5)])

lemma cow_local:
  assumes "cow_SI n s a w" and "cow_own y = w t" and "cow_LI slots t s a w y g"
  shows "cow_ok slots n t s a w g s y"
  using step_ok_local [where own = cow_own and SI = cow_SI] cow_SI_mono assms by blast

lemma cow_map_mem:
  "cells m (cw_array s) = cow_cells s (cw_array s) \<Longrightarrow> cow_map (s\<lparr>cw_mem := m\<rparr>) xs a = cow_map s xs a"
  by (simp add: cow_map_def array_at_def)

lemma cow_map_lock: "cow_map (s\<lparr>cw_lock := l\<rparr>) xs a = cow_map s xs a"
  by (simp add: cow_map_def)

text \<open>Locking, unlocking, giving up a private array.\<close>

lemma cow_lock_step:
  assumes SI: "cow_SI n s a w" and "cw_lock s = None" and "w t = none_owned" and y: "cow_own y = holding {} {} {()}"
    and LI: "\<And>s' w'. cw_array s' = cw_array s \<Longrightarrow> cow_LI slots t s' a w' y g"
  shows "cow_ok slots n t s a w g (s\<lparr>cw_lock := Some t\<rparr>) y"
proof (rule cow_okI [OF SI advance_stay])
  have "partition_ok (cw_mem s) {cw_array s} (w(t := cow_own y))" "locks_ok (\<lambda>_::unit. Some t) (w(t := cow_own y))"
    using SI assms(2) y by (auto simp: cow_SI_def intro: partition_keep lock_taken)
  then show "cow_SI (Suc n) (s\<lparr>cw_lock := Some t\<rparr>) a (w(t := cow_own y))"
    using cow_SI_mono [OF SI] by (simp add: cow_SI_def cow_map_lock)
  show "cow_effect t s w (s\<lparr>cw_lock := Some t\<rparr>) (w(t := cow_own y))"
    using y by (auto simp: cow_effect_def published_def)
  show "cow_LI slots t (s\<lparr>cw_lock := Some t\<rparr>) a (w(t := cow_own y)) y g" by (rule LI) simp
qed

lemma cow_unlock_step:
  assumes SI: "cow_SI n s a w" and "w t = holding {} {d} {()}" and y: "cow_own y = holding {} {d} {}"
    and LI: "\<And>s' w'. cow_LI slots t s' a w' y g"
  shows "cow_ok slots n t s a w g (s\<lparr>cw_lock := None\<rparr>) y"
proof (rule cow_okI [OF SI advance_stay _ LI])
  have "partition_ok (cw_mem s) {cw_array s} (w(t := cow_own y))" "locks_ok (\<lambda>_::unit. None) (w(t := cow_own y))"
    using SI assms(2) y by (auto simp: cow_SI_def intro: partition_keep lock_freed)
  then show "cow_SI (Suc n) (s\<lparr>cw_lock := None\<rparr>) a (w(t := cow_own y))"
    using cow_SI_mono [OF SI] by (simp add: cow_SI_def cow_map_lock)
  show "cow_effect t s w (s\<lparr>cw_lock := None\<rparr>) (w(t := cow_own y))"
    using y by (auto simp: cow_effect_def published_def)
qed

lemma cow_give_up_step:
  assumes SI: "cow_SI n s a w" and "w t = holding {d} {} {()}" and y: "cow_own y = holding {} {d} {()}"
    and LI: "\<And>s' w'. cow_LI slots t s' a w' y g"
  shows "cow_ok slots n t s a w g s y"
proof (rule cow_okI [OF SI advance_stay _ LI])
  have "partition_ok (cw_mem s) {cw_array s} (w(t := cow_own y))" "locks_ok (\<lambda>_::unit. cw_lock s) (w(t := cow_own y))"
    using SI assms(2) y by (auto simp: cow_SI_def intro: partition_keep lock_same)
  then show "cow_SI (Suc n) s a (w(t := cow_own y))" using cow_SI_mono [OF SI] by (simp add: cow_SI_def)
  show "cow_effect t s w s (w(t := cow_own y))" using y by (auto simp: cow_effect_def published_def)
qed

text \<open>Allocating, writing and releasing.\<close>

lemma cow_alloc_step:
  assumes SI: "cow_SI n s a w" and fr: "fresh (cow_cells s) p" and "w t = holding {} {} {()}"
    and y: "cow_own y = holding {p} {} {()}"
    and LI: "\<And>w'. cow_cells s (cw_array s) \<noteq> None \<Longrightarrow> p \<noteq> cw_array s \<Longrightarrow>
      cow_LI slots t (s\<lparr>cw_mem := put_cell p b (cw_mem s)\<rparr>) a w' y g"
  shows "cow_ok slots n t s a w g (s\<lparr>cw_mem := put_cell p b (cw_mem s)\<rparr>) y"
proof -
  have pt: "partition_ok (cw_mem s) {cw_array s} w" using SI by (simp add: cow_SI_def)
  have p: "p \<noteq> cw_array s" "cow_cells s p = None" "\<And>u. p \<notin> owned (w u)"
    using partition_fresh [OF pt fr] fr by (auto simp: fresh_def)
  have c: "cow_cells s (cw_array s) \<noteq> None" using partition_live [OF pt] by simp
  show ?thesis
  proof (rule cow_okI [OF SI advance_stay _ LI [OF c p(1)]])
    have "partition_ok (put_cell p b (cw_mem s)) {cw_array s} (w(t := cow_own y))"
      using partition_allocate [OF pt fr, of "cow_own y" t] y by simp
    moreover have "locks_ok (\<lambda>_::unit. cw_lock s) (w(t := cow_own y))"
      using SI assms(3) y by (auto simp: cow_SI_def intro: lock_same)
    ultimately show "cow_SI (Suc n) (s\<lparr>cw_mem := put_cell p b (cw_mem s)\<rparr>) a (w(t := cow_own y))"
      using cow_SI_mono [OF SI] p(1) by (simp add: cow_SI_def cow_map_mem)
    show "cow_effect t s w (s\<lparr>cw_mem := put_cell p b (cw_mem s)\<rparr>) (w(t := cow_own y))"
      using y p(2,3) private_owned unfolding cow_effect_def published_def by auto
  qed
qed

lemma cow_write_step:
  assumes SI: "cow_SI n s a w" and "w t = holding {p} {} {()}" and y: "cow_own y = holding {p} {} {()}"
    and LI: "\<And>w'. p \<noteq> cw_array s \<Longrightarrow> cow_LI slots t (s\<lparr>cw_mem := put_cell p b (cw_mem s)\<rparr>) a w' y g"
  shows "cow_ok slots n t s a w g (s\<lparr>cw_mem := put_cell p b (cw_mem s)\<rparr>) y"
proof -
  have pt: "partition_ok (cw_mem s) {cw_array s} w" using SI by (simp add: cow_SI_def)
  have p: "p \<noteq> cw_array s" "cow_cells s p \<noteq> None" "\<And>u. u \<noteq> t \<Longrightarrow> p \<notin> owned (w u)"
    using partition_owned [OF pt, of p t] assms(2) by auto
  have w: "w(t := cow_own y) = w" using assms(2) y by auto
  show ?thesis
  proof (rule cow_okI [OF SI advance_stay _ LI [OF p(1)]], unfold w)
    show "cow_SI (Suc n) (s\<lparr>cw_mem := put_cell p b (cw_mem s)\<rparr>) a w"
      using cow_SI_mono [OF SI] p(1) partition_write [OF pt p(2)] by (simp add: cow_SI_def cow_map_mem)
    show "cow_effect t s w (s\<lparr>cw_mem := put_cell p b (cw_mem s)\<rparr>) w"
      using assms(2) p(3) private_owned unfolding cow_effect_def published_def by (auto dest: spec [of _ t])
  qed
qed

lemma cow_release_step:
  assumes SI: "cow_SI n s a w" and "w t = holding {} {p} {}" and "returns g r"
    and "cpy_delete_copy s p r = Next s' y"
  shows "cow_ok slots n t s a w g s' y"
proof -
  have pt: "partition_ok (cw_mem s) {cw_array s} w" using SI by (simp add: cow_SI_def)
  have *: "s' = s\<lparr>cw_mem := (cw_mem s)\<lparr>released := insert p (released (cw_mem s))\<rparr>\<rparr>" "y = Finished r"
    using assms(4) by (simp_all add: cpy_delete_copy_def)
  show ?thesis
    unfolding *
  proof (rule cow_okI [OF SI advance_stay])
    have "partition_ok ((cw_mem s)\<lparr>released := insert p (released (cw_mem s))\<rparr>) {cw_array s} (w(t := none_owned))"
      using assms(2) by (intro partition_release [OF pt]) simp_all
    moreover have "locks_ok (\<lambda>_::unit. cw_lock s) (w(t := none_owned))"
      using SI assms(2) by (auto simp: cow_SI_def intro: lock_same)
    ultimately show "cow_SI (Suc n) (s\<lparr>cw_mem := (cw_mem s)\<lparr>released := insert p (released (cw_mem s))\<rparr>\<rparr>) a
        (w(t := cow_own (Finished r)))"
      using cow_SI_mono [OF SI] by (simp add: cow_SI_def cow_map_mem)
    show "cow_LI slots t (s\<lparr>cw_mem := (cw_mem s)\<lparr>released := insert p (released (cw_mem s))\<rparr>\<rparr>) a
        (w(t := cow_own (Finished r))) (Finished r) g" using assms(3) by simp
    show "cow_effect t s w (s\<lparr>cw_mem := (cw_mem s)\<lparr>released := insert p (released (cw_mem s))\<rparr>\<rparr>)
        (w(t := cow_own (Finished r)))"
      by (auto simp: cow_effect_def published_def)
  qed
qed

text \<open>Publishing.\<close>

lemma cow_publish_step:
  assumes SI: "cow_SI n s a w" and "w t = holding {new} {} {()}" and y: "cow_own y = holding {} {cw_array s} {()}"
    and "array_at (cw_mem s) new ys" and "distinct (map fst ys)" and "0 \<notin> snd ` set ys" and "length ys \<le> Suc n"
    and "map_spec op a = (map_of ys, r)" and g: "g = Open op W"
    and LI: "\<And>s' w'. cow_LI slots t s' (map_of ys) w' y (Closed r)"
  shows "cow_ok slots n t s a w g (s\<lparr>cw_array := new\<rparr>) y"
  unfolding g
proof (rule cow_okI [OF SI advance_lin [where spec = map_spec and op = op, OF assms(8)] _ LI])
  have pt: "partition_ok (cw_mem s) {cw_array s} w" using SI by (simp add: cow_SI_def)
  have ne: "new \<noteq> cw_array s" using partition_owned [OF pt, of new t] assms(2) by auto
  have "partition_ok (cw_mem s) (insert new {cw_array s}) (w(t := holding {} {} {()}))"
    using assms(2) by (intro partition_publish [OF pt]) simp_all
  then have "partition_ok (cw_mem s) (insert new {cw_array s} - {cw_array s})
      ((w(t := holding {} {} {()}))(t := cow_own y))"
    using y by (intro partition_retire) simp_all
  moreover have "insert new {cw_array s} - {cw_array s} = {new}" using ne by auto
  ultimately have "partition_ok (cw_mem s) {new} (w(t := cow_own y))" by simp
  moreover have "locks_ok (\<lambda>_::unit. cw_lock s) (w(t := cow_own y))"
    using SI assms(2) y by (auto simp: cow_SI_def intro: lock_same)
  moreover have "cow_map (s\<lparr>cw_array := new\<rparr>) ys (map_of ys)" using assms(4-6) by (simp add: cow_map_def)
  ultimately show "cow_SI (Suc n) (s\<lparr>cw_array := new\<rparr>) (map_of ys) (w(t := cow_own y))"
    using assms(7) by (auto simp: cow_SI_def)
  show "cow_effect t s w (s\<lparr>cw_array := new\<rparr>) (w(t := cow_own y))"
    using assms(2) y by (auto simp: cow_effect_def published_def)
qed


text \<open>Reading.\<close>

lemma array_read:
  assumes "array_at m p xs" and "cells m p = Some b" and "i < length xs"
  shows "la_read b i f = f (node_of (xs ! i))"
  using assms by (auto simp: array_at_def holds_nodes_def la_read_def)

lemma array_size: "array_at m p xs \<Longrightarrow> cells m p = Some b \<Longrightarrow> unat (la_size b) = length xs"
  by (auto simp: array_at_def)

lemma array_size_word:
  assumes "array_at m p xs" and "cells m p = Some b"
  shows "la_size b = word_of_nat (length xs)"
  unfolding array_size [OF assms, symmetric] by simp

lemma array_unique: "array_at m p xs \<Longrightarrow> array_at m p ys \<Longrightarrow> xs = ys"
  by (auto simp: array_at_def holds_nodes_def node_of_def intro!: nth_equalityI prod_eqI)

lemma map_of_scan:
  assumes "i < length xs" and "\<forall>j<i. fst (xs ! j) \<noteq> k" and "fst (xs ! i) = k"
  shows "map_of xs k = Some (snd (xs ! i))"
  using assms
proof (induction xs arbitrary: i)
  case (Cons x xs)
  show ?case
  proof (cases i)
    case 0
    then show ?thesis using Cons.prems by (cases x) simp
  next
    case (Suc j)
    then have "fst x \<noteq> k" using Cons.prems(2) by auto
    moreover have "map_of xs k = Some (snd (xs ! j))" using Cons.prems Suc by (intro Cons.IH) auto
    ultimately show ?thesis using Suc by (cases x) simp
  qed
qed simp

lemma map_of_filter_key: "map_of (filter (\<lambda>x. fst x \<noteq> k) xs) = (map_of xs)(k := None)"
  by (induction xs) (auto simp: fun_eq_iff)

lemma map_of_no_key: "\<forall>j<length xs. fst (xs ! j) \<noteq> k \<Longrightarrow> map_of xs k = None"
  by (fastforce simp: map_of_eq_None_iff in_set_conv_nth)

lemma cow_scan_start:
  assumes "cow_SI n s a w" and "observed map_spec a g" and "pending op g"
  shows "cow_scan s w op g (cw_array s) 0"
proof -
  obtain xs where xs: "cow_map s xs a" and pt: "partition_ok (cw_mem s) {cw_array s} w"
    using assms(1) unfolding cow_SI_def by blast
  obtain W where W: "g = Open op W" using assms(3) by (auto simp: pending_def)
  have "case map_of xs (op_key op) of None \<Rightarrow> seen_absent g | Some v \<Rightarrow> seen_present g v"
    using assms(2) xs unfolding W cow_map_def by (auto split: option.splits intro: seen_absentI seen_presentI)
  moreover have "published (cw_mem s) w (cw_array s)" using published_live [OF pt] by simp
  ultimately show ?thesis using xs unfolding cow_scan_def cow_map_def by auto
qed

text \<open>What a step of \<^verbatim>\<open>search\<close> does.\<close>

lemma cow_search_step:
  assumes scan: "\<And>l i. x = CS_Loop l i \<Longrightarrow> cow_scan s w op g l i" and "cow_SI n s a w" and "observed map_spec a g"
    and "pending op g"
  obtains l i where "cow_search s (op_key op) x = Next s (At (CS_Loop l i))" "cow_scan s w op g l i"
  | v where "cow_search s (op_key op) x = Next s (Finished v)" "v \<noteq> 0" "seen_present g v"
  | "cow_search s (op_key op) x = Next s (Finished 0)" "seen_absent g"
proof (cases x)
  case CS_Read
  then show thesis using that(1) cow_scan_start [OF assms(2-4)] by simp
next
  case (CS_Loop l i)
  from scan [OF this] obtain xs b where xs: "published (cw_mem s) w l" "array_at (cw_mem s) l xs" "i \<le> length xs"
      "\<forall>j<i. fst (xs ! j) \<noteq> op_key op" "0 \<notin> snd ` set xs"
      "case map_of xs (op_key op) of None \<Rightarrow> seen_absent g | Some v \<Rightarrow> seen_present g v"
      and b: "cow_cells s l = Some b"
    unfolding cow_scan_def array_at_def by blast
  note size = array_size [OF xs(2) b] and read = array_read [OF xs(2) b]
  show thesis
  proof (cases "i < length xs")
    case True
    show thesis
    proof (cases "fst (xs ! i) = op_key op")
      case eq: True
      have "map_of xs (op_key op) = Some (snd (xs ! i))" by (rule map_of_scan [OF True xs(4) eq])
      then have "seen_present g (snd (xs ! i))" using xs(6) by simp
      moreover have "snd (xs ! i) \<noteq> 0" using xs(5) True nth_mem by force
      moreover have "cow_search s (op_key op) x = Next s (Finished (snd (xs ! i)))"
        using CS_Loop b size True eq by (simp add: read [OF True])
      ultimately show thesis using that(2) by blast
    next
      case ne: False
      have "\<forall>j<Suc i. fst (xs ! j) \<noteq> op_key op" using ne xs(4) less_Suc_eq by simp
      then have "cow_scan s w op g l (Suc i)" using xs True unfolding cow_scan_def by (intro conjI exI [of _ xs]) auto
      moreover have "cow_search s (op_key op) x = Next s (At (CS_Loop l (Suc i)))"
        using CS_Loop b size True ne by (simp add: read [OF True])
      ultimately show thesis using that(1) by blast
    qed
  next
    case False
    then have "map_of xs (op_key op) = None" using xs(3,4) by (intro map_of_no_key) simp
    then show thesis using that(3) CS_Loop b size False xs(6) by simp
  qed
qed

lemma returns_present: "seen_present g v \<Longrightarrow> pending (Search k) g \<Longrightarrow> returns g (Ret_Val v)"
  "seen_present g v \<Longrightarrow> pending (Insert k x) g \<Longrightarrow> returns g (Ret_Int 0)"
  by (auto simp: pending_def)

lemma returns_absent: "seen_absent g \<Longrightarrow> pending (Search k) g \<Longrightarrow> returns g (Ret_Val 0)"
  "seen_absent g \<Longrightarrow> pending (Delete k) g \<Longrightarrow> returns g (Ret_Val 0)"
  by (auto simp: pending_def)

text \<open>The answers of the holder of the lock, which sees the map itself.\<close>

lemma cow_found:
  assumes "observed map_spec a g" and "pending op g" and "a (op_key op) = Some v"
  shows "seen_present g v"
  using assms seen_presentI by (auto simp: pending_def)

lemma cow_missing:
  assumes "observed map_spec a g" and "pending op g" and "a (op_key op) = None"
  shows "seen_absent g"
  using assms seen_absentI by (auto simp: pending_def)

lemma holds_nodes_snoc:
  assumes "holds_nodes b ys" and "length ys < length (la_nodes b)" and "i = length ys"
  shows "holds_nodes (b\<lparr>la_nodes := (la_nodes b)[i := Some (node_of x)]\<rparr>) (ys @ [x])"
  using assms by (auto simp: holds_nodes_def nth_append nth_list_update less_Suc_eq)

lemma allocated_holds: "holds_nodes (allocate_ll_array slots sz) []"
  by (simp add: holds_nodes_def)


lemma cow_scan_cases:
  assumes "cow_SI n s a w" and "observed map_spec a g" and "pending op g" and own: "w t = none_owned"
    and scan: "\<And>l i. x = CS_Loop l i \<Longrightarrow> cow_scan s w op g l i"
    and "within f r (cow_search s (op_key op) x) = Next s' y"
    and loop: "\<And>l i. cow_own (At (f (CS_Loop l i))) = none_owned \<and>
        (cow_scan s w op g l i \<longrightarrow> cow_LI slots t s a w (At (f (CS_Loop l i))) g)"
    and found: "\<And>v. v \<noteq> 0 \<Longrightarrow> seen_present g v \<Longrightarrow> cow_own (r v) = none_owned \<and> cow_LI slots t s a w (r v) g"
    and missing: "seen_absent g \<Longrightarrow> cow_own (r 0) = none_owned \<and> cow_LI slots t s a w (r 0) g"
  shows "cow_ok slots n t s a w g s' y"
  using scan assms(1-3)
proof (rule cow_search_step)
  fix l i
  assume *: "cow_search s (op_key op) x = Next s (At (CS_Loop l i))" "cow_scan s w op g l i"
  then have "s' = s" "y = At (f (CS_Loop l i))" using assms(6) by simp_all
  then show ?thesis using *(2) loop [of l i] own by (auto intro: cow_local [OF assms(1)])
next
  fix v
  assume *: "cow_search s (op_key op) x = Next s (Finished v)" "v \<noteq> 0" "seen_present g v"
  then have "s' = s" "y = r v" using assms(6) by simp_all
  then show ?thesis using found [OF *(2,3)] own by (auto intro: cow_local [OF assms(1)])
next
  assume *: "cow_search s (op_key op) x = Next s (Finished 0)" "seen_absent g"
  then have "s' = s" "y = r 0" using assms(6) by simp_all
  then show ?thesis using missing [OF *(2)] own by (auto intro: cow_local [OF assms(1)])
qed

lemma cow_copyE:
  assumes "cow_SI n s a w" and "cow_copy slots s old new P"
  obtains xs ys b c where "old = cw_array s" "cow_map s xs a" "length xs \<le> n" "array_at (cw_mem s) old xs"
    "cow_cells s old = Some c" "cow_cells s new = Some b" "length (la_nodes b) = slots" "holds_nodes b ys" "P xs ys (la_size b)"
proof -
  from assms(2) obtain xs ys b where *: "old = cw_array s" "array_at (cw_mem s) old xs" "cow_cells s new = Some b"
      "length (la_nodes b) = slots" "holds_nodes b ys" "P xs ys (la_size b)"
    unfolding cow_copy_def by blast
  moreover obtain c where "cow_cells s old = Some c" using *(2) by (auto simp: array_at_def)
  moreover obtain zs where "cow_map s zs a" "length zs \<le> n" using assms(1) unfolding cow_SI_def by blast
  moreover from this have "zs = xs" using array_unique *(1,2) unfolding cow_map_def by blast
  ultimately show thesis using that by blast
qed

lemma cow_copyI:
  assumes "old = cw_array s" and "array_at (cw_mem s) old xs" and "new \<noteq> old" and "length (la_nodes b) = slots"
    and "holds_nodes b ys" and "P xs ys (la_size b)"
  shows "cow_copy slots (s\<lparr>cw_mem := put_cell new b (cw_mem s)\<rparr>) old new P"
proof -
  have "array_at (put_cell new b (cw_mem s)) old xs" using assms(2,3) by (simp add: array_at_def)
  then show ?thesis using assms unfolding cow_copy_def by (intro conjI exI [of _ xs] exI [of _ ys] exI [of _ b]) simp_all
qed

lemma cow_insert_step:
  assumes inb: "cow_run_ok slots q (Suc n)" and SI: "cow_SI n s a w" and LI: "cow_LI slots t s a w (At (CInsert k v pc)) g"
    and obs: "observed map_spec a g" and own: "w t = cow_own (At (CInsert k v pc))"
    and ex: "cow_insert slots t p s k v pc = Next s' y"
  shows "cow_ok slots n t s a w g s' y"
proof (cases pc)
  case (CI_Search x)
  have pend: "pending (Insert k v) g" "v \<noteq> 0" using LI CI_Search by (cases x; simp)+
  show ?thesis
    by (rule cow_scan_cases [OF SI obs pend(1), where x = x and f = "\<lambda>x. CInsert k v (CI_Search x)"])
      (use LI own ex CI_Search pend in \<open>auto simp: returns_present\<close>)
next
  case CI_Lock
  then have *: "cw_lock s = None" "s' = s\<lparr>cw_lock := Some t\<rparr>" "y = At (CInsert k v CI_Old)"
    using ex by (auto split: if_splits)
  then show ?thesis using LI own CI_Lock by (auto intro!: cow_lock_step [OF SI])
next
  case CI_Old
  then have "s' = s" "y = At (CInsert k v (CI_Alloc (cw_array s)))" using ex by auto
  then show ?thesis using CI_Old LI own by (auto intro!: cow_local [OF SI])
next
  case (CI_Alloc old)
  obtain xs where xs: "cow_map s xs a" using SI unfolding cow_SI_def by blast
  from ex CI_Alloc obtain c where c: "cow_cells s old = Some c" "fresh (cow_cells s) p"
      "s' = s\<lparr>cw_mem := put_cell p (allocate_ll_array slots (la_size c + 1)) (cw_mem s)\<rparr>"
      "y = At (CInsert k v (CI_Copy old p 0))" by auto
  have old: "old = cw_array s" "pending (Insert k v) g" "v \<noteq> 0" using LI CI_Alloc by simp_all
  have "array_at (cw_mem s) old xs" using xs old(1) by (simp add: cow_map_def)
  moreover from this have "la_size c = of_nat (length xs)" using array_size_word c(1) by blast
  ultimately show ?thesis
    unfolding c(3,4) using own CI_Alloc old
    by (intro cow_alloc_step [OF SI c(2)])
      (auto intro!: cow_copyI [where xs = xs and ys = "[]"] allocated_holds simp: ci_copied_def allocate_ll_array_def holds_nodes_def)
next
  case (CI_Copy old new i)
  have L: "pending (Insert k v) g" "v \<noteq> 0" "cow_copy slots s old new (ci_copied k i)" using LI CI_Copy by simp_all
  obtain xs ys b c where *: "old = cw_array s" "cow_map s xs a" "length xs \<le> n" "array_at (cw_mem s) old xs"
      "cow_cells s old = Some c" "cow_cells s new = Some b" "length (la_nodes b) = slots" "holds_nodes b ys"
      "ci_copied k i xs ys (la_size b)"
    using cow_copyE [OF SI L(3)] .
  have i: "i \<le> length xs" "ys = take i xs" "k \<notin> fst ` set ys" "la_size b = of_nat (length xs) + 1"
    using *(9) unfolding ci_copied_def by blast+
  note size = array_size [OF *(4,5)] and read = array_read [OF *(4,5)]
  have n: "n < slots" using inb by (simp add: cow_run_ok_def)
  show ?thesis
  proof (cases "i < length xs")
    case True
    show ?thesis
    proof (cases "fst (xs ! i) = k")
      case eq: True
      have "(k, snd (xs ! i)) \<in> set xs" using True eq by (metis nth_mem prod.collapse)
      then have "a k = Some (snd (xs ! i))" using *(2) by (simp add: cow_map_def)
      then have "seen_present g (snd (xs ! i))" using cow_found [OF obs L(1)] by simp
      then have "returns g (Ret_Int 0)" using L(1) by (rule returns_present(2))
      moreover have "s' = s" "y = At (CInsert k v (CI_Unlock new 0))"
        using ex CI_Copy *(5) size True eq by (simp_all add: read [OF True])
      ultimately show ?thesis using own CI_Copy by (auto intro!: cow_give_up_step [OF SI])
    next
      case ne: False
      have lt: "length ys < length (la_nodes b)" using True i *(3,7) n by simp
      have e: "s' = s\<lparr>cw_mem := put_cell new (b\<lparr>la_nodes := (la_nodes b)[i := Some (node_of (xs ! i))]\<rparr>) (cw_mem s)\<rparr>"
          "y = At (CInsert k v (CI_Copy old new (Suc i)))"
        using ex CI_Copy *(5,6,7) size True ne lt i(2) n *(3) by (simp_all add: la_write_def read [OF True])
      have "ci_copied k (Suc i) xs (ys @ [xs ! i]) (la_size b)"
        using True ne i by (simp add: ci_copied_def take_Suc_conv_app_nth)
      moreover have "holds_nodes (b\<lparr>la_nodes := (la_nodes b)[i := Some (node_of (xs ! i))]\<rparr>) (ys @ [xs ! i])"
        using lt i True by (intro holds_nodes_snoc [OF *(8)]) simp_all
      ultimately show ?thesis
        unfolding e using own CI_Copy L(1,2) *(1,4,7)
        by (intro cow_write_step [OF SI]) (auto intro!: cow_copyI [where xs = xs and ys = "ys @ [xs ! i]"])
    qed
  next
    case False
    then have "s' = s" "y = At (CInsert k v (CI_Put old new i))" using ex CI_Copy *(5) size by simp_all
    moreover have "cow_copy slots s old new (\<lambda>xs ys n. ci_copied k i xs ys n \<and> i = length xs)"
      using * False i(1) unfolding cow_copy_def by (intro conjI exI [of _ xs] exI [of _ ys] exI [of _ b]) auto
    ultimately show ?thesis using own CI_Copy L(1,2) by (auto intro!: cow_local [OF SI])
  qed
next
  case (CI_Put old new i)
  have L: "pending (Insert k v) g" "v \<noteq> 0" "cow_copy slots s old new (\<lambda>xs ys n. ci_copied k i xs ys n \<and> i = length xs)"
    using LI CI_Put by simp_all
  obtain xs ys b c where *: "old = cw_array s" "cow_map s xs a" "length xs \<le> n" "array_at (cw_mem s) old xs"
      "cow_cells s old = Some c" "cow_cells s new = Some b" "length (la_nodes b) = slots" "holds_nodes b ys"
      "ci_copied k i xs ys (la_size b) \<and> i = length xs"
    using cow_copyE [OF SI L(3)] .
  have i: "i = length xs" "ys = xs" "k \<notin> fst ` set xs" "la_size b = of_nat (length xs) + 1"
    using *(9) unfolding ci_copied_def by auto
  have lt: "length ys < length (la_nodes b)" using inb i *(3,7) by (simp add: cow_run_ok_def)
  have e: "s' = s\<lparr>cw_mem := put_cell new (b\<lparr>la_nodes := (la_nodes b)[i := Some (node_of (k, v))]\<rparr>) (cw_mem s)\<rparr>"
      "y = At (CInsert k v (CI_Publish old new))"
    using ex CI_Put *(6) lt i by (simp_all add: la_write_def node_of_def)
  have "holds_nodes (b\<lparr>la_nodes := (la_nodes b)[i := Some (node_of (k, v))]\<rparr>) (ys @ [(k, v)])"
    using lt i by (intro holds_nodes_snoc [OF *(8)]) simp_all
  then show ?thesis
    unfolding e using own CI_Put L(1,2) *(1,4,7) i
    by (intro cow_write_step [OF SI]) (auto intro!: cow_copyI [where xs = xs and ys = "ys @ [(k, v)]"])
next
  case (CI_Publish old new)
  have L: "pending (Insert k v) g" "v \<noteq> 0" "cow_copy slots s old new
      (\<lambda>xs ys n. ys = xs @ [(k, v)] \<and> k \<notin> fst ` set xs \<and> n = of_nat (length xs) + 1)"
    using LI CI_Publish by simp_all
  obtain xs ys b c where *: "old = cw_array s" "cow_map s xs a" "length xs \<le> n" "cow_cells s new = Some b"
      "holds_nodes b ys" "ys = xs @ [(k, v)] \<and> k \<notin> fst ` set xs \<and> la_size b = of_nat (length xs) + 1"
    using cow_copyE [OF SI L(3)] .
  obtain W where W: "g = Open (Insert k v) W" using L(1) by (auto simp: pending_def)
  have n: "Suc n < 2 ^ 31" using inb by (simp add: cow_run_ok_def)
  have "unat (la_size b) = Suc (length xs)"
  proof -
    have "la_size b = word_of_nat (Suc (length xs))" using *(6) by simp
    moreover have "Suc (length xs) < 2 ^ 64" using *(3) n by simp
    ultimately show ?thesis by (simp only: unsigned_of_nat take_bit_nat_eq_self_iff len_num0 of_nat_id) (simp add: take_bit_nat_eq_self_iff)
  qed
  then have arr: "array_at (cw_mem s) new ys" using *(4-6) by (simp add: array_at_def)
  have m: "a = map_of xs" "distinct (map fst xs)" "0 \<notin> snd ` set xs" using *(2) by (simp_all add: cow_map_def)
  have "map_of xs k = None" using *(6) by (simp add: map_of_eq_None_iff)
  then have "map_of ys = a(k \<mapsto> v)" using *(6) m(1) by (auto simp: map_add_def fun_eq_iff split: option.splits)
  then have sp: "map_spec (Insert k v) a = (map_of ys, Ret_Int 1)" using m(1) \<open>map_of xs k = None\<close> by simp
  have e: "s' = s\<lparr>cw_array := new\<rparr>" "y = At (CInsert k v (CI_Unlock old 1))" using ex CI_Publish by simp_all
  show ?thesis
    unfolding e
    by (rule cow_publish_step [OF SI _ _ arr _ _ _ sp W]) (use own CI_Publish *(1,3,6) m L(2) in auto)
next
  case (CI_Unlock d r)
  then show ?thesis using LI own ex by (auto intro!: cow_unlock_step [OF SI])
next
  case (CI_Free d r)
  then show ?thesis using LI own ex by (intro cow_release_step [OF SI]) simp_all
qed


lemma cow_remove_step:
  assumes inb: "cow_run_ok slots q (Suc n)" and SI: "cow_SI n s a w" and LI: "cow_LI slots t s a w (At (CRemove k pc)) g"
    and obs: "observed map_spec a g" and own: "w t = cow_own (At (CRemove k pc))"
    and ex: "cow_remove slots t p s k pc = Next s' y"
  shows "cow_ok slots n t s a w g s' y"
proof (cases pc)
  case (CR_Search x)
  have pend: "pending (Delete k) g" using LI CR_Search by (cases x) simp_all
  show ?thesis
    by (rule cow_scan_cases [OF SI obs pend, where x = x and f = "\<lambda>x. CRemove k (CR_Search x)"])
      (use LI own ex CR_Search pend in \<open>auto simp: returns_absent\<close>)
next
  case CR_Lock
  then have *: "cw_lock s = None" "s' = s\<lparr>cw_lock := Some t\<rparr>" "y = At (CRemove k CR_Old)"
    using ex by (auto split: if_splits)
  then show ?thesis using LI own CR_Lock by (auto intro!: cow_lock_step [OF SI])
next
  case CR_Old
  then have "s' = s" "y = At (CRemove k (CR_Alloc (cw_array s)))" using ex by auto
  then show ?thesis using CR_Old LI own by (auto intro!: cow_local [OF SI])
next
  case (CR_Alloc old)
  obtain xs where xs: "cow_map s xs a" using SI unfolding cow_SI_def by blast
  from ex CR_Alloc obtain c where c: "cow_cells s old = Some c" "fresh (cow_cells s) p"
      "s' = s\<lparr>cw_mem := put_cell p (allocate_ll_array slots (la_size c - 1)) (cw_mem s)\<rparr>"
      "y = At (CRemove k (CR_Copy old p 0 0 0))" by auto
  have old: "old = cw_array s" "pending (Delete k) g" using LI CR_Alloc by simp_all
  have "array_at (cw_mem s) old xs" using xs old(1) by (simp add: cow_map_def)
  moreover from this have "la_size c = of_nat (length xs)" using array_size_word c(1) by blast
  ultimately show ?thesis
    unfolding c(3,4) using own CR_Alloc old
    by (intro cow_alloc_step [OF SI c(2)])
      (auto intro!: cow_copyI [where xs = xs and ys = "[]"] allocated_holds simp: cr_copied_def allocate_ll_array_def holds_nodes_def)
next
  case (CR_Copy old new i m r)
  have L: "pending (Delete k) g" "cow_copy slots s old new (cr_copied k i m r)" using LI CR_Copy by simp_all
  obtain xs ys b c where *: "old = cw_array s" "cow_map s xs a" "length xs \<le> n" "array_at (cw_mem s) old xs"
      "cow_cells s old = Some c" "cow_cells s new = Some b" "length (la_nodes b) = slots" "holds_nodes b ys"
      "cr_copied k i m r xs ys (la_size b)"
    using cow_copyE [OF SI L(2)] .
  have i: "i \<le> length xs" "ys = filter (\<lambda>x. fst x \<noteq> k) (take i xs)" "m = length ys"
      "la_size b = of_nat (length xs) - 1" "r = val_or_zero (map_of (take i xs) k)"
    using *(9) by (simp_all add: cr_copied_def)
  have dist: "distinct (map fst xs)" using *(2) by (simp add: cow_map_def)
  note size = array_size [OF *(4,5)] and read = array_read [OF *(4,5)]
  have n: "n < slots" using inb by (simp add: cow_run_ok_def)
  show ?thesis
  proof (cases "i < length xs")
    case True
    have take: "take (Suc i) xs = take i xs @ [xs ! i]" by (rule take_Suc_conv_app_nth [OF True])
    have notin: "fst (xs ! i) \<notin> fst ` set (take i xs)"
    proof -
      have "distinct (map fst (take (Suc i) xs))" using dist by (simp add: distinct_take flip: take_map)
      then show ?thesis by (simp add: take)
    qed
    show ?thesis
    proof (cases "fst (xs ! i) = k")
      case eq: True
      have "map_of (take i xs) k = None" using notin eq by (simp add: map_of_eq_None_iff)
      then have "map_of (take i xs @ [(k, v)]) k = Some v" for v by (simp add: map_add_def)
      moreover have "take (Suc i) xs = take i xs @ [(k, snd (xs ! i))]" using take eq by (cases "xs ! i") simp
      ultimately have "map_of (take (Suc i) xs) k = Some (snd (xs ! i))" by (simp only:)
      then have "cr_copied k (Suc i) m (snd (xs ! i)) xs ys (la_size b)"
        using i True eq by (simp add: cr_copied_def take)
      then have "cow_copy slots s old new (cr_copied k (Suc i) m (snd (xs ! i)))"
        using * unfolding cow_copy_def by (intro conjI exI [of _ xs] exI [of _ ys] exI [of _ b])
      moreover have "s' = s" "y = At (CRemove k (CR_Copy old new (Suc i) m (snd (xs ! i))))"
        using ex CR_Copy *(5) size True eq by (simp_all add: read [OF True])
      ultimately show ?thesis using own CR_Copy L(1) by (auto intro!: cow_local [OF SI])
    next
      case ne: False
      have "length ys \<le> i" using i(1,2) length_filter_le [of "\<lambda>x. fst x \<noteq> k" "take i xs"] by simp
      then have lt: "length ys < length (la_nodes b)" using True *(3,7) n by simp
      have e: "s' = s\<lparr>cw_mem := put_cell new (b\<lparr>la_nodes := (la_nodes b)[m := Some (node_of (xs ! i))]\<rparr>) (cw_mem s)\<rparr>"
          "y = At (CRemove k (CR_Copy old new (Suc i) (Suc m) r))"
        using ex CR_Copy *(5,6) size True ne lt i(3) by (simp_all add: la_write_def read [OF True])
      have "[xs ! i] = [(fst (xs ! i), snd (xs ! i))]" by simp
      then have "map_of (take (Suc i) xs) k = map_of (take i xs) k"
        using ne by (simp add: take map_add_def split: option.splits)
      then have "cr_copied k (Suc i) (Suc m) r xs (ys @ [xs ! i]) (la_size b)"
        using True ne i by (simp add: cr_copied_def take)
      moreover have "holds_nodes (b\<lparr>la_nodes := (la_nodes b)[m := Some (node_of (xs ! i))]\<rparr>) (ys @ [xs ! i])"
        using lt i(3) by (intro holds_nodes_snoc [OF *(8)]) simp_all
      ultimately show ?thesis
        unfolding e using own CR_Copy L(1) *(1,4,7)
        by (intro cow_write_step [OF SI]) (auto intro!: cow_copyI [where xs = xs and ys = "ys @ [xs ! i]"])
    qed
  next
    case False
    then have "s' = s" "y = At (CRemove k (CR_Publish old new r))" using ex CR_Copy *(5) size by simp_all
    moreover have "cow_copy slots s old new (\<lambda>xs ys m. \<exists>n. cr_copied k (length xs) n r xs ys m)"
      using * False i(1) unfolding cow_copy_def by (intro conjI exI [of _ xs] exI [of _ ys] exI [of _ b]) auto
    ultimately show ?thesis using own CR_Copy L(1) by (auto intro!: cow_local [OF SI])
  qed
next
  case (CR_Publish old new r)
  have L: "pending (Delete k) g" "cow_copy slots s old new (\<lambda>xs ys m. \<exists>n. cr_copied k (length xs) n r xs ys m)"
    using LI CR_Publish by simp_all
  obtain xs ys b c where *: "old = cw_array s" "cow_map s xs a" "length xs \<le> n" "cow_cells s new = Some b"
      "holds_nodes b ys" "\<exists>n. cr_copied k (length xs) n r xs ys (la_size b)"
    using cow_copyE [OF SI L(2)] .
  have i: "ys = filter (\<lambda>x. fst x \<noteq> k) xs" "la_size b = of_nat (length xs) - 1" "r = val_or_zero (map_of xs k)"
    using *(6) by (auto simp: cr_copied_def)
  have m: "a = map_of xs" "distinct (map fst xs)" "0 \<notin> snd ` set xs" using *(2) by (simp_all add: cow_map_def)
  show ?thesis
  proof (cases "map_of xs k")
    case None
    then have "r = 0" using i(3) by simp
    have "seen_absent g" using cow_missing [OF obs L(1)] None m(1) by simp
    then have "returns g (Ret_Val r)" using L(1) unfolding \<open>r = 0\<close> by (rule returns_absent(2))
    moreover have "s' = s" "y = At (CRemove k (CR_Unlock new r))" using ex CR_Publish \<open>r = 0\<close> by simp_all
    ultimately show ?thesis using own CR_Publish by (auto intro!: cow_give_up_step [OF SI])
  next
    case (Some v)
    have "r = v" using i(3) Some by simp
    have kv: "(k, v) \<in> set xs" using Some map_of_SomeD by force
    then have "v \<noteq> 0" using m(3) by force
    obtain W where W: "g = Open (Delete k) W" using L(1) by (auto simp: pending_def)
    have len: "Suc (length ys) = length xs"
    proof -
      obtain us vs where xs: "xs = us @ (k, v) # vs" using kv by (meson split_list)
      then have "k \<notin> fst ` set us" "k \<notin> fst ` set vs" using m(2) by auto
      then have "filter (\<lambda>x. fst x \<noteq> k) us = us" "filter (\<lambda>x. fst x \<noteq> k) vs = vs"
        by (auto simp: filter_id_conv image_iff)
      then show ?thesis by (simp add: i(1) xs)
    qed
    have "la_size b = word_of_nat (length ys)" using i(2) by (simp flip: len)
    moreover have "length ys < 2 ^ 64" using inb *(3) len by (simp add: cow_run_ok_def)
    ultimately have "unat (la_size b) = length ys" by (simp add: unsigned_of_nat take_bit_nat_eq_self_iff)
    then have arr: "array_at (cw_mem s) new ys" using *(4,5) by (simp add: array_at_def)
    have "map_of ys = a(k := None)"
      unfolding i(1) m(1) by (rule map_of_filter_key)
    then have sp: "map_spec (Delete k) a = (map_of ys, Ret_Val r)" using m(1) Some \<open>r = v\<close> by simp
    have d: "distinct (map fst ys)" "0 \<notin> snd ` set ys"
      using m(2,3) unfolding i(1) by (auto simp: distinct_map_filter)
    have e: "s' = s\<lparr>cw_array := new\<rparr>" "y = At (CRemove k (CR_Unlock old r))"
      using ex CR_Publish \<open>r = v\<close> \<open>v \<noteq> 0\<close> by simp_all
    show ?thesis
      unfolding e
      by (rule cow_publish_step [OF SI _ _ arr d _ sp W]) (use own CR_Publish *(1,3) len in auto)
  qed
next
  case (CR_Unlock d r)
  then show ?thesis using LI own ex by (auto intro!: cow_unlock_step [OF SI])
next
  case (CR_Free d r)
  then show ?thesis using LI own ex by (intro cow_release_step [OF SI]) simp_all
qed


lemma cow_SI_init:
  fixes slots :: nat
  assumes "cow_run_ok slots p 0"
  shows "cow_SI 0 (cow_init slots p :: ('k, 'v::zero) cow) Map.empty (\<lambda>_. none_owned)"
proof -
  let ?s = "cow_init slots p :: ('k, 'v) cow"
  have "p \<noteq> NULL" using assms by (simp add: cow_run_ok_def)
  then have "partition_ok (cw_mem ?s) {cw_array ?s} (\<lambda>_. none_owned)"
    by (intro partition_init) (simp_all add: cow_init_def)
  moreover have "cow_map ?s [] Map.empty"
    by (simp add: cow_map_def array_at_def cow_init_def initialize_ll_array_def holds_nodes_def)
  ultimately show ?thesis by (auto simp: cow_SI_def cow_init_def intro: locks_init)
qed

lemma cow_safe:
  assumes inb: "cow_run_ok slots q n" and SI: "cow_SI n s a w" and LI: "cow_LI slots t s a w (At x) g" and own: "w t = cow_own (At x)"
  shows "cow_exec slots t p s x \<noteq> Fault"
proof -
  have pt: "partition_ok (cw_mem s) {cw_array s} w" using SI by (simp add: cow_SI_def)
  have search: "cow_search s (op_key op) y \<noteq> Fault" if "\<And>l i. y = CS_Loop l i \<Longrightarrow> cow_scan s w op g l i" for op y
  proof (cases y)
    case (CS_Loop l i)
    from that [OF this] obtain xs b where "array_at (cw_mem s) l xs" "cow_cells s l = Some b"
      unfolding cow_scan_def array_at_def by blast
    then show ?thesis using CS_Loop array_size [of "cw_mem s" l xs b] by (auto simp: array_read)
  qed simp
  have within: "within f r z \<noteq> Fault" if "z \<noteq> Fault" for f r and z :: "(('k, 'v) cow, cow_search_pc, 'v) outcome"
    using that by (cases "(f, r, z)" rule: within.cases) auto
  have copy: "\<exists>xs ys b c. cow_map s xs a \<and> length xs \<le> n \<and> array_at (cw_mem s) old xs \<and> cow_cells s old = Some c \<and>
      unat (la_size c) = length xs \<and> cow_cells s new = Some b \<and> length (la_nodes b) = slots \<and> P xs ys (la_size b)"
    if "cow_copy slots s old new P" for old new P
    using cow_copyE [OF SI that] array_size by metis
  have live: "cow_cells s (cw_array s) \<noteq> None" using partition_live [OF pt] by simp
  have free: "cow_cells s d \<noteq> None \<and> d \<notin> released (cw_mem s)" if "d \<in> owned (w t)" for d
    using partition_owned [OF pt that] by simp
  have n: "n < slots" using inb by (simp add: cow_run_ok_def)
  show ?thesis
  proof (cases x)
    case (CSearch k pc)
    then show ?thesis using search [of pc "Search k"] LI by (cases pc) (auto intro!: within)
  next
    case (CInsert k v pc)
    show ?thesis
    proof (cases pc)
      case (CI_Search y)
      then show ?thesis using search [of y "Insert k v"] LI CInsert by (cases y) (auto intro!: within)
    next
      case (CI_Alloc old)
      then show ?thesis using LI CInsert live by (auto split: option.splits)
    next
      case (CI_Copy old new i)
      then obtain xs b c where "length xs \<le> n" "array_at (cw_mem s) old xs" "cow_cells s old = Some c"
          "unat (la_size c) = length xs" "cow_cells s new = Some b" "length (la_nodes b) = slots"
        using LI CInsert copy [of old new "ci_copied k i"] by auto
      then show ?thesis using CInsert CI_Copy n by (auto simp: array_read la_write_def)
    next
      case (CI_Put old new i)
      then have "cow_copy slots s old new (\<lambda>xs ys n. ci_copied k i xs ys n \<and> i = length xs)"
        using LI CInsert by simp
      from copy [OF this] obtain b where "i \<le> n" "cow_cells s new = Some b" "length (la_nodes b) = slots" by auto
      then show ?thesis using CInsert CI_Put n by (auto simp: la_write_def)
    next
      case (CI_Free d r)
      then show ?thesis using CInsert free [of d] own by (auto simp: cpy_delete_copy_def)
    qed (use CInsert in auto)
  next
    case (CRemove k pc)
    show ?thesis
    proof (cases pc)
      case (CR_Search y)
      then show ?thesis using search [of y "Delete k"] LI CRemove by (cases y) (auto intro!: within)
    next
      case (CR_Alloc old)
      then show ?thesis using LI CRemove live by (auto split: option.splits)
    next
      case (CR_Copy old new i m r)
      then obtain xs ys b c where *: "length xs \<le> n" "array_at (cw_mem s) old xs" "cow_cells s old = Some c"
          "unat (la_size c) = length xs" "cow_cells s new = Some b" "length (la_nodes b) = slots" "cr_copied k i m r xs ys (la_size b)"
        using LI CRemove copy [of old new "cr_copied k i m r"] by auto
      have "m \<le> length xs" using *(7) length_filter_le [of "\<lambda>x. fst x \<noteq> k" "take i xs"] by (simp add: cr_copied_def)
      then show ?thesis using CRemove CR_Copy n * by (auto simp: array_read la_write_def)
    next
      case (CR_Free d r)
      then show ?thesis using CRemove free [of d] own by (auto simp: cpy_delete_copy_def)
    qed (use CRemove in auto)
  qed
qed

lemma cow_counts:
  assumes "cow_run_ok slots p n" and "cow_SI n s a w"
  shows "finite (dom a) \<and> cow_length s = Some (int (card (dom a)))"
proof -
  obtain xs where xs: "cow_map s xs a" "length xs \<le> n" using assms(2) unfolding cow_SI_def by blast
  then obtain b where b: "cow_cells s (cw_array s) = Some b" "unat (la_size b) = length xs"
      "a = map_of xs" "distinct (map fst xs)" unfolding cow_map_def array_at_def by blast
  have small: "length xs < 2 ^ 31" using xs(2) assms(1) by (simp add: cow_run_ok_def)
  have "uint (la_size b) = int (unat (la_size b))" by simp
  then have "uint (la_size b) = int (length xs)" by (simp only: b(2))
  then have u: "uint (ucast (la_size b) :: 32 word) = int (length xs)"
    using small by (simp add: unsigned_ucast_eq take_bit_int_eq_self_iff)
  have "sint (ucast (la_size b) :: 32 word) = int (length xs)"
    using small by (simp add: sint_uint u signed_take_bit_int_eq_self_iff)
  moreover have "card (dom a) = length xs"
    using b(3,4) by (simp add: dom_map_of_conv_image_fst) (metis distinct_card length_map list.set_map)
  ultimately show ?thesis using b(1,3) by (simp add: cow_length_def finite_dom_map_of)
qed

interpretation cow: thread_object map_spec Map.empty "cow_start ro_fail" "cow_exec slots"
  "cow_init slots p :: ('k, 'v::zero) cow" cow_own "cow_run_ok slots p" cow_SI "cow_LI slots"
  for ro_fail slots p
proof unfold_locales
  show "cow_run_ok slots p 0 \<Longrightarrow> cow_SI 0 (cow_init slots p :: ('k, 'v) cow) Map.empty (\<lambda>_. cow_own Idle)"
    using cow_SI_init by simp
  show "cow_exec slots t q s x \<noteq> Fault"
    if "cow_run_ok slots p n" "cow_SI n s a w" "cow_LI slots t s a w (At x) g" "w t = cow_own (At x)"
    for n t q x g a w and s :: "('k, 'v) cow"
    by (rule cow_safe [OF that])
  show "cow_ok slots n t s a w g s' y"
    if "cow_run_ok slots p (Suc n)" "cow_SI n s a w" "cow_LI slots t s a w (At x) g" "observed map_spec a g"
      "w t = cow_own (At x)" "cow_exec slots t q s x = Next s' y" for n t q x g a w s' y and s :: "('k, 'v) cow"
  proof (cases x)
    case (CSearch k z)
    have pend: "pending (Search k) g" using that(3) CSearch by (cases z) simp_all
    show ?thesis
      by (rule cow_scan_cases [OF that(2,4) pend, where x = z and f = "CSearch k" and r = "\<lambda>r. Finished (Ret_Val r)"])
        (use that CSearch pend in \<open>auto simp: returns_present returns_absent\<close>)
  next
    case (CInsert k v z)
    then show ?thesis using cow_insert_step [of slots p n s a w t k v z g q s' y] that by simp
  next
    case (CRemove k z)
    then show ?thesis using cow_remove_step [of slots p n s a w t k z g q s' y] that by simp
  qed
qed (auto simp: cow_run_ok_def pending_def intro: cow_SI_mono elim!: cow_start.elims split: if_splits)


section \<open>A concrete run\<close>

text \<open>Thread 0 inserts 5; thread 1 reads the old array before the new one is published, and finds
  nothing.\<close>

definition cow_demo :: "(64 word, int) map_op command list" where
  "cow_demo = [Do_Call 0 (Insert 5 50), Do_Call 1 (Search 5), Do_Step 0 0, Do_Step 0 0, Do_Step 0 2, Do_Step 1 0,
     Do_Step 0 0, Do_Step 0 0, Do_Step 0 0, Do_Step 0 0, Do_Step 0 0, Do_Return 0, Do_Step 1 0, Do_Return 1]"

definition cow_demo_history :: "((64 word, int) map_op, int map_ret) history" where
  "cow_demo_history = [(0, Call (Insert 5 50)), (1, Call (Search 5)), (0, Return (Ret_Int 1)), (1, Return (Ret_Val 0))]"

lemma cow_demo_run:
  "\<exists>s c. run (cow_start False) (cow_exec (ll_array_slots 16 40)) (cow_init (ll_array_slots 16 40) 1)
     (length cow_demo) cow_demo_history (s, c) \<and> cow_length s = Some 1"
  unfolding cow_demo_history_def
  by (rule replay_exhibits)
    (simp add: cow_demo_def cow_init_def initialize_ll_array_def allocate_ll_array_def ll_array_slots_def
      la_read_def la_write_def cpy_delete_copy_def release_def cow_length_def put_cell_def empty_store_def fresh_def alloc_def)

lemma cow_demo_ok: "cow_run_ok (ll_array_slots 16 40) 1 (length cow_demo)"
  by (simp add: cow_run_ok_def ll_array_slots_def cow_demo_def)

section \<open>Properties\<close>

text \<open>C29: every concurrent run of the copy-on-write list, with or without the read-only test before an
  update, in which no value 0 is inserted (\<open>cow_start\<close> admits no such call: the code accepts it and can then not
  remove the key) and that is shorter than the number of nodes its arrays have room for (against an
  overflow the code has no test) is linearizable with respect to the map specification.\<close>

theorem cow_linearizable:
  assumes "run (cow_start ro_fail) (cow_exec (ll_array_slots nsize fixed))
      (cow_init (ll_array_slots nsize fixed) p :: ('k, 'v::zero) cow) n h k"
    and "cow_run_ok (ll_array_slots nsize fixed) p n"
  shows "linearizable map_spec Map.empty h"
  by (rule cow.linearizable [OF assms])

theorem cow_linearizable_witness: "linearizable map_spec Map.empty cow_demo_history"
  using cow_demo_run cow_linearizable [OF _ cow_demo_ok] by blast

text \<open>In every reachable state of the copy-on-write list \<^verbatim>\<open>length()\<close> is the number of keys the
  history so far has left, and no step reads a node that was never written or touches memory outside
  an array.\<close>

theorem cow_length_safe:
  assumes "run (cow_start ro_fail) (cow_exec (ll_array_slots nsize fixed))
      (cow_init (ll_array_slots nsize fixed) p :: ('k, 'v::zero) cow) n h (s, c)"
    and "cow_run_ok (ll_array_slots nsize fixed) p n"
  shows "(\<exists>a. linearizes_to map_spec Map.empty h a \<and> cow_length s = Some (int (card (dom a)))) \<and>
    (\<forall>u q x. c u = At x \<longrightarrow> cow_exec (ll_array_slots nsize fixed) u q s x \<noteq> Fault)"
proof -
  obtain a where a: "linearizes_to map_spec Map.empty h a" "cow_SI n s a (cow_own \<circ> c)"
    using cow.reachable_SI [OF assms] by blast
  show ?thesis using cow_counts [OF assms(2) a(2)] a(1) cow.no_fault [OF assms] by blast
qed

theorem cow_length_safe_witness:
  "\<exists>s c a. run (cow_start False) (cow_exec (ll_array_slots 16 40)) (cow_init (ll_array_slots 16 40) 1)
     (length cow_demo) cow_demo_history (s, c) \<and> linearizes_to map_spec Map.empty cow_demo_history a
     \<and> cow_length s = Some (int (card (dom a)))"
  using cow_demo_run cow_length_safe [OF _ cow_demo_ok] by blast

text \<open>The arrays have room for 15 nodes less than \<^verbatim>\<open>array_ll_fixed_size\<close> when a node has 16 bytes.\<close>

lemma ll_array_slots_16: "16 \<le> fixed \<Longrightarrow> ll_array_slots 16 fixed = fixed - 15"
  by (simp add: ll_array_slots_def)

end
