(* ===== verification/Hashtable_Copy.thy ===== *)
theory Hashtable_Copy
  imports Hashtable_Buckets LinkedList_Copy
begin

text \<open>
  The hash table \<^verbatim>\<open>src/algorithms/hashtable_copy.h\<close>: buckets are copy-on-write lists, one lock and one
  array per bucket. Its constructor takes the number of buckets as a \<^verbatim>\<open>size_t\<close> and not as an \<^verbatim>\<open>int\<close>; the
  loops over the buckets count with an \<^verbatim>\<open>int\<close>, so the model is for fewer than \<open>2 ^ 31\<close> of them, where
  both constructors agree. \<open>p i\<close> is the address of the first array of bucket \<open>i\<close>.
\<close>

section \<open>The code\<close>

type_synonym ('k, 'v) hashtable_copy = "('k, 'v) cow hashtable"

definition hashtable_copy_init :: "nat \<Rightarrow> 64 word \<Rightarrow> (nat \<Rightarrow> ptr) \<Rightarrow> ('k, 'v) hashtable_copy" where
  "hashtable_copy_init slots num_buckets p =
     \<lparr>ht_maxlen = ucast num_buckets, ht_hash = num_buckets - 1,
      ht_buckets = map (\<lambda>i. cow_init slots (p i)) [0..<unat num_buckets]\<rparr>"

definition hashtable_copy_start :: "bool \<Rightarrow> ('k, 'v::zero) map_op \<Rightarrow> (('k, 'v) map_op, ('k, 'v) cow_pc) ht_pc option" where
  "hashtable_copy_start ro_fail = ht_start (cow_start ro_fail)"

definition hashtable_copy_exec :: "nat \<Rightarrow> ('k \<Rightarrow> 32 word) \<Rightarrow>
    (('k, 'v::zero) hashtable_copy, (('k, 'v) map_op, ('k, 'v) cow_pc) ht_pc, 'v map_ret) exec" where
  "hashtable_copy_exec slots hasher = ht_exec hasher (cow_exec slots)"

definition hashtable_copy_length :: "('k, 'v) hashtable_copy \<Rightarrow> int option" where
  "hashtable_copy_length = ht_length cow_length"

text \<open>\<^verbatim>\<open>LinkedListCopy\<close> declares no destructor: \<^verbatim>\<open>delete buckets[i]\<close> gives back the object and leaves its lock
  and its array allocated.\<close>

definition hashtable_copy_destroy :: "('k, 'v) hashtable_copy \<Rightarrow> ('k, 'v) ll_array store list option" where
  "hashtable_copy_destroy = ht_destroy (\<lambda>i b. Some (cw_mem b))"

section \<open>Correctness\<close>

lemma sint_ucast_small:
  fixes w :: "64 word"
  assumes "unat w < 2 ^ 31"
  shows "sint (ucast w :: 32 word) = int (unat w)"
proof -
  define n where "n = unat w"
  then have n: "uint w = int n" "unat w = n" by simp_all
  with assms have small: "n < 2 ^ 31" by simp
  have u: "uint (ucast w :: 32 word) = int n"
    using small by (simp add: unsigned_ucast_eq n take_bit_int_eq_self_iff)
  show ?thesis
    using small by (simp add: sint_uint u n signed_take_bit_int_eq_self_iff)
qed

lemma hashtable_copy_init_eq:
  assumes "0 < unat num" and "unat num < 2 ^ 31"
  shows "hashtable_copy_init slots num p = ht_init (ucast num) (\<lambda>i. cow_init slots (p i))"
proof -
  have s: "sint (ucast num :: 32 word) = int (unat num)" by (rule sint_ucast_small [OF assms(2)])
  have "unat (scast (ucast num - 1 :: 32 word) :: 64 word) = unat num - 1"
    using ht_mask_unat [of "ucast num"] assms(1) unfolding s nat_int of_nat_0_less_iff by blast
  moreover have "unat (num - 1) = unat num - 1" using assms(1) unat_minus_one [of num] unat_0 by fastforce
  ultimately have "(scast (ucast num - 1 :: 32 word) :: 64 word) = num - 1" by (metis word_unat_eq_iff)
  then show ?thesis by (simp only: hashtable_copy_init_def ht_init_def s nat_int)
qed

interpretation hashtable_copy: counting_table map_spec maxlen hasher "cow_start ro_fail" "cow_exec slots"
  "\<lambda>i. cow_init slots (p i) :: ('k, 'v::zero) cow" cow_own "\<lambda>i. cow_run_ok slots (p i)"
  cow_SI "cow_LI slots" cow_length
  for maxlen and hasher :: "'k \<Rightarrow> 32 word" and ro_fail slots p
  by unfold_locales (rule local_map_spec | rule cow_counts, assumption+ | simp)+

lemmas hashtable_copy_defs = hashtable_copy_start_def hashtable_copy_exec_def
  hashtable_copy_length_def

definition copy_table_ok :: "nat \<Rightarrow> 64 word \<Rightarrow> (nat \<Rightarrow> ptr) \<Rightarrow> nat \<Rightarrow> bool" where
  "copy_table_ok slots num p n \<longleftrightarrow> 0 < unat num \<and> unat num < 2 ^ 31 \<and> (\<forall>i<unat num. cow_run_ok slots (p i) n)"

section \<open>A concrete run\<close>

text \<open>Two buckets: thread 0 inserts 5 and thread 1 inserts 8, in different buckets, each under the lock of
  its bucket.\<close>

definition hashtable_copy_demo :: "(64 word, int) map_op command list" where
  "hashtable_copy_demo = [Do_Call 0 (Insert 5 50), Do_Call 1 (Insert 8 80),
     Do_Step 0 0, Do_Step 1 0, Do_Step 0 0, Do_Step 1 0, Do_Step 0 0, Do_Step 1 0, Do_Step 0 2, Do_Step 1 2,
     Do_Step 0 0, Do_Step 1 0, Do_Step 0 0, Do_Step 1 0, Do_Step 0 0, Do_Step 1 0, Do_Step 0 0, Do_Step 1 0,
     Do_Step 0 0, Do_Step 1 0, Do_Return 0, Do_Return 1]"

definition hashtable_copy_demo_history :: "((64 word, int) map_op, int map_ret) history" where
  "hashtable_copy_demo_history =
     [(0, Call (Insert 5 50)), (1, Call (Insert 8 80)), (0, Return (Ret_Int 1)), (1, Return (Ret_Int 1))]"

lemma copy_up2: "[0..<2] = [0, 1::nat]"
  by (simp add: numeral_2_eq_2)

lemma hashtable_copy_demo_run:
  "\<exists>s c. run (hashtable_copy_start False) (hashtable_copy_exec (ll_array_slots 16 40) key_hasher)
       (hashtable_copy_init (ll_array_slots 16 40) 2 (\<lambda>_. 1)) (length hashtable_copy_demo) hashtable_copy_demo_history (s, c)
     \<and> hashtable_copy_length s = Some 2"
  unfolding hashtable_copy_demo_history_def
  by (rule replay_exhibits)
    (simp add: hashtable_copy_demo_def hashtable_copy_start_def hashtable_copy_exec_def hashtable_copy_init_def
      hashtable_copy_length_def ht_start_def ht_addr_def key_hasher_def ht_length_def
      cow_init_def initialize_ll_array_def allocate_ll_array_def ll_array_slots_def la_read_def la_write_def
      cpy_delete_copy_def cow_length_def release_def fresh_def alloc_def put_cell_def empty_store_def copy_up2)

lemma hashtable_copy_demo_ok: "copy_table_ok (ll_array_slots 16 40) 2 (\<lambda>_. 1) (length hashtable_copy_demo)"
  by (simp add: copy_table_ok_def cow_run_ok_def ll_array_slots_def hashtable_copy_demo_def)

section \<open>Properties\<close>

text \<open>C30: every concurrent run of the hash table of copy-on-write lists with fewer than 2^31 buckets, in which no
  value 0 is inserted (\<open>cow_start\<close> admits no such call: a key with this value could not be removed) and
  that has fewer steps than an array has slots (so that no bucket overflows, against which the code has no
  test), is linearizable with respect to the map specification, \<^verbatim>\<open>length()\<close> is the number of keys the
  linearized history has left, and no step indexes outside of the table or of an array.\<close>

theorem hashtable_copy_correct:
  fixes slots :: nat and num :: "64 word" and p :: "nat \<Rightarrow> ptr"
  assumes "run (hashtable_copy_start ro_fail) (hashtable_copy_exec slots hasher)
      (hashtable_copy_init slots num p :: ('k, 'v::zero) hashtable_copy) n h (s, c)"
    and "copy_table_ok slots num p n"
  shows "linearizable map_spec Map.empty h
    \<and> (\<exists>a. linearizes_to map_spec Map.empty h a \<and> hashtable_copy_length s = Some (int (card (dom a))))
    \<and> (\<forall>u q x. c u = At x \<longrightarrow> hashtable_copy_exec slots hasher u q s x \<noteq> Fault)"
proof -
  have num: "0 < unat num" "unat num < 2 ^ 31" using assms(2) by (simp_all add: copy_table_ok_def)
  note r = assms(1) [unfolded hashtable_copy_defs hashtable_copy_init_eq [OF num]]
  have i: "hashtable_copy.table_inb (ucast num) slots p n"
    unfolding hashtable_copy.table_inb_def sint_ucast_small [OF num(2)] nat_int
    using assms(2) num(1) unfolding copy_table_ok_def of_nat_0_less_iff by blast
  from hashtable_copy.table.linearizable [unfolded table_spec_map, OF r i] hashtable_copy.table.reachable_SI [unfolded table_spec_map, OF r i]
    hashtable_copy.table_length [OF _ i] hashtable_copy.table.no_fault [OF r i]
  show ?thesis unfolding hashtable_copy_defs by blast
qed

theorem hashtable_copy_correct_witness:
  "linearizable map_spec Map.empty hashtable_copy_demo_history"
  using hashtable_copy_demo_run hashtable_copy_correct [OF _ hashtable_copy_demo_ok] by blast

end
