(* ===== verification/Array_Map_Optik.thy ===== *)
theory Array_Map_Optik
  imports Search_Spec Optik_Integer
begin

text \<open>
  The array map with one OPTIK lock, \<^verbatim>\<open>src/algorithms/array_map_optik.h\<close>: an unordered array of a fixed
  number of slots, a slot with key 0 being free. \<^verbatim>\<open>search\<close> scans the keys without a lock and validates
  the value it found; \<^verbatim>\<open>insert\<close> and \<^verbatim>\<open>remove\<close> scan without a lock and enter the critical section only
  if the version is unchanged. The answers that an operation gives without validation (\<open>absent\<close>, and
  \<open>present\<close> for \<^verbatim>\<open>insert\<close>) are linearized by the evidence the scan has met. \<^verbatim>\<open>insert\<close> writes the key
  before the value, both under the lock; it takes effect with the key.
\<close>

section \<open>The code\<close>

record ('k, 'v) key_val =
  kv_key :: 'k
  kv_val :: 'v

record ('k, 'v) amap =
  am_array :: "('k, 'v) key_val list"
  am_size :: "64 word"
  am_lock :: "64 word"

definition amap_init :: "32 word \<Rightarrow> ('k::zero, 'v::zero) amap" where
  "amap_init sz = \<lparr>am_array = replicate (nat (sint sz)) \<lparr>kv_key = 0, kv_val = 0\<rparr>,
     am_size = scast sz, am_lock = optik_init\<rparr>"

text \<open>Access to \<^verbatim>\<open>map->array[i]\<close>; outside of the array it is a fault.\<close>

definition am_slot :: "('k, 'v) amap \<Rightarrow> nat \<Rightarrow> (('k, 'v) key_val \<Rightarrow> ('s, 'l, 'r) outcome) \<Rightarrow> ('s, 'l, 'r) outcome" where
  "am_slot s i f = (if i < length (am_array s) then f (am_array s ! i) else Fault)"

definition am_put :: "('k, 'v) amap \<Rightarrow> nat \<Rightarrow> ('k, 'v) key_val \<Rightarrow> ('k, 'v) amap" where
  "am_put s i e = s\<lparr>am_array := (am_array s)[i := e]\<rparr>"

datatype 'v am_search_pc =
    AS_Version                  \<comment> \<open>\<^verbatim>\<open>version = optik_get_version_wait(map->lock)\<close>\<close>
  | AS_Key "64 word" nat        \<comment> \<open>the loop at slot \<^verbatim>\<open>i\<close>\<close>
  | AS_Val "64 word" nat        \<comment> \<open>\<^verbatim>\<open>val = map->array[i].val\<close>\<close>
  | AS_Check "64 word" 'v       \<comment> \<open>\<^verbatim>\<open>optik_is_same_version(version, *map->lock)\<close>\<close>

text \<open>\<open>None\<close> is \<^verbatim>\<open>free_idx == -1\<close>.\<close>

datatype am_insert_pc =
    AI_Version                                   \<comment> \<open>\<^verbatim>\<open>version = *map->lock\<close>\<close>
  | AI_Key "64 word" nat "nat option"            \<comment> \<open>the loop at slot \<^verbatim>\<open>i\<close>, with \<^verbatim>\<open>free_idx\<close>\<close>
  | AI_Try "64 word" "nat option" optik_try_pc   \<comment> \<open>\<^verbatim>\<open>optik_trylock_version(map->lock, version)\<close>\<close>
  | AI_Put_Key nat                               \<comment> \<open>\<^verbatim>\<open>map->array[free_idx].key = key\<close>\<close>
  | AI_Put_Val nat                               \<comment> \<open>\<^verbatim>\<open>map->array[free_idx].val = val\<close>\<close>
  | AI_Unlock int optik_unlock_pc                \<comment> \<open>\<^verbatim>\<open>optik_unlock(map->lock)\<close>; \<^verbatim>\<open>res\<close>\<close>

datatype 'v am_remove_pc =
    AR_Version                            \<comment> \<open>\<^verbatim>\<open>version = *map->lock\<close>\<close>
  | AR_Key "64 word" nat                  \<comment> \<open>the loop at slot \<^verbatim>\<open>i\<close>\<close>
  | AR_Try "64 word" nat optik_try_pc     \<comment> \<open>\<^verbatim>\<open>optik_trylock_version(map->lock, version)\<close>\<close>
  | AR_Val nat                            \<comment> \<open>\<^verbatim>\<open>val = map->array[i].val\<close>\<close>
  | AR_Clear nat 'v                       \<comment> \<open>\<^verbatim>\<open>map->array[i].key = 0\<close>\<close>
  | AR_Unlock 'v optik_unlock_pc          \<comment> \<open>\<^verbatim>\<open>optik_unlock(map->lock)\<close>; \<^verbatim>\<open>val\<close>\<close>

datatype ('k, 'v) am_pc = ASearch 'k "'v am_search_pc" | AInsert 'k 'v am_insert_pc | ARemove 'k "'v am_remove_pc"

type_synonym ('k, 'v) am_outcome = "(('k, 'v) amap, ('k, 'v) am_pc, 'v map_ret) outcome"

text \<open>A step of an operation on the lock word.\<close>

fun on_lock :: "('k, 'v) amap \<Rightarrow> (64 word, 'p, 'q) outcome \<Rightarrow> (('k, 'v) amap, 'p, 'q) outcome" where
  "on_lock s (Next l y) = Next (s\<lparr>am_lock := l\<rparr>) y"
| "on_lock s Blocked = Blocked"
| "on_lock s Fault = Fault"

fun am_search :: "('k::zero, 'v::zero) amap \<Rightarrow> 'k \<Rightarrow> 'v am_search_pc \<Rightarrow> ('k, 'v) am_outcome" where
  "am_search s k AS_Version =
     within (\<lambda>_. ASearch k AS_Version) (\<lambda>v. At (ASearch k (AS_Key v 0)))
       (on_lock s (optik_get_version_wait (am_lock s) ()))"
| "am_search s k (AS_Key ver i) =
     (if i < unat (am_size s)
      then am_slot s i (\<lambda>e. Next s (At (ASearch k (if kv_key e = k then AS_Val ver i else AS_Key ver (Suc i)))))
      else Next s (Finished (Ret_Val 0)))"
| "am_search s k (AS_Val ver i) = am_slot s i (\<lambda>e. Next s (At (ASearch k (AS_Check ver (kv_val e)))))"
| "am_search s k (AS_Check ver v) =
     Next s (if optik_is_same_version ver (am_lock s) then Finished (Ret_Val v) else At (ASearch k AS_Version))"

fun am_insert :: "('k::zero, 'v::zero) amap \<Rightarrow> 'k \<Rightarrow> 'v \<Rightarrow> am_insert_pc \<Rightarrow> ('k, 'v) am_outcome" where
  "am_insert s k v AI_Version = Next s (At (AInsert k v (AI_Key (am_lock s) 0 None)))"
| "am_insert s k v (AI_Key ver i free) =
     (if i < unat (am_size s)
      then am_slot s i (\<lambda>e.
        if kv_key e = k then Next s (Finished (Ret_Int 0))
        else Next s (At (AInsert k v (AI_Key ver (Suc i) (if kv_key e = 0 then Some i else free)))))
      else Next s (At (AInsert k v (AI_Try ver free Try_Check))))"
| "am_insert s k v (AI_Try ver free pc) =
     within (\<lambda>pc. AInsert k v (AI_Try ver free pc))
       (\<lambda>ok. At (AInsert k v (if \<not> ok then AI_Version
          else (case free of Some i \<Rightarrow> AI_Put_Key i | None \<Rightarrow> AI_Unlock 0 Unlock_Read))))
       (on_lock s (optik_trylock_version ver (am_lock s) pc))"
| "am_insert s k v (AI_Put_Key i) =
     am_slot s i (\<lambda>e. Next (am_put s i (e\<lparr>kv_key := k\<rparr>)) (At (AInsert k v (AI_Put_Val i))))"
| "am_insert s k v (AI_Put_Val i) =
     am_slot s i (\<lambda>e. Next (am_put s i (e\<lparr>kv_val := v\<rparr>)) (At (AInsert k v (AI_Unlock 1 Unlock_Read))))"
| "am_insert s k v (AI_Unlock r pc) =
     within (\<lambda>pc. AInsert k v (AI_Unlock r pc)) (\<lambda>_. Finished (Ret_Int r)) (on_lock s (optik_unlock (am_lock s) pc))"

fun am_remove :: "('k::zero, 'v::zero) amap \<Rightarrow> 'k \<Rightarrow> 'v am_remove_pc \<Rightarrow> ('k, 'v) am_outcome" where
  "am_remove s k AR_Version = Next s (At (ARemove k (AR_Key (am_lock s) 0)))"
| "am_remove s k (AR_Key ver i) =
     (if i < unat (am_size s)
      then am_slot s i (\<lambda>e. Next s (At (ARemove k (if kv_key e = k then AR_Try ver i Try_Check else AR_Key ver (Suc i)))))
      else Next s (Finished (Ret_Val 0)))"
| "am_remove s k (AR_Try ver i pc) =
     within (\<lambda>pc. ARemove k (AR_Try ver i pc)) (\<lambda>ok. At (ARemove k (if ok then AR_Val i else AR_Version)))
       (on_lock s (optik_trylock_version ver (am_lock s) pc))"
| "am_remove s k (AR_Val i) = am_slot s i (\<lambda>e. Next s (At (ARemove k (AR_Clear i (kv_val e)))))"
| "am_remove s k (AR_Clear i v) =
     am_slot s i (\<lambda>e. Next (am_put s i (e\<lparr>kv_key := 0\<rparr>)) (At (ARemove k (AR_Unlock v Unlock_Read))))"
| "am_remove s k (AR_Unlock v pc) =
     within (\<lambda>pc. ARemove k (AR_Unlock v pc)) (\<lambda>_. Finished (Ret_Val v)) (on_lock s (optik_unlock (am_lock s) pc))"

fun am_length_loop :: "('k::zero, 'v) key_val list \<Rightarrow> int \<Rightarrow> int" where
  "am_length_loop [] count = count"
| "am_length_loop (e # es) count = am_length_loop es (count + (if kv_key e \<noteq> 0 then 1 else 0))"

definition am_length :: "('k::zero, 'v) amap \<Rightarrow> int option" where
  "am_length s = (if unat (am_size s) \<le> length (am_array s)
     then Some (am_length_loop (take (unat (am_size s)) (am_array s)) 0) else None)"

text \<open>The entry points. Key 0 marks a free slot and is outside the contract.\<close>

fun am_entry :: "('k, 'v) map_op \<Rightarrow> ('k, 'v) am_pc" where
  "am_entry (Search k) = ASearch k AS_Version"
| "am_entry (Insert k v) = AInsert k v AI_Version"
| "am_entry (Delete k) = ARemove k AR_Version"

definition am_start :: "('k::zero, 'v) map_op \<Rightarrow> ('k, 'v) am_pc option" where
  "am_start op = (if op_key op = 0 then None else Some (am_entry op))"

fun am_exec :: "tid \<Rightarrow> ptr \<Rightarrow> ('k::zero, 'v::zero) amap \<Rightarrow> ('k, 'v) am_pc \<Rightarrow> ('k, 'v) am_outcome" where
  "am_exec t p s (ASearch k x) = am_search s k x"
| "am_exec t p s (AInsert k v x) = am_insert s k v x"
| "am_exec t p s (ARemove k x) = am_remove s k x"

section \<open>The invariant\<close>

fun am_own :: "(('k, 'v) am_pc, 'v map_ret) control \<Rightarrow> unit ownership" where
  "am_own (At (AInsert k v (AI_Put_Key i))) = holding {} {} {()}"
| "am_own (At (AInsert k v (AI_Put_Val i))) = holding {} {} {()}"
| "am_own (At (AInsert k v (AI_Unlock r pc))) = holding {} {} {()}"
| "am_own (At (ARemove k (AR_Val i))) = holding {} {} {()}"
| "am_own (At (ARemove k (AR_Clear i v))) = holding {} {} {()}"
| "am_own (At (ARemove k (AR_Unlock v pc))) = holding {} {} {()}"
| "am_own _ = none_owned"

abbreviation am_key :: "('k, 'v) amap \<Rightarrow> nat \<Rightarrow> 'k" where
  "am_key s i \<equiv> kv_key (am_array s ! i)"

abbreviation am_val :: "('k, 'v) amap \<Rightarrow> nat \<Rightarrow> 'v" where
  "am_val s i \<equiv> kv_val (am_array s ! i)"

abbreviation am_cap :: "('k, 'v) amap \<Rightarrow> nat" where
  "am_cap s \<equiv> length (am_array s)"

text \<open>The keys in the slots are the keys of the map, each in one slot; the values agree except, while the
  lock is held, in the slot that is being written.\<close>

definition am_keys :: "('k::zero, 'v) amap \<Rightarrow> ('k \<rightharpoonup> 'v) \<Rightarrow> bool" where
  "am_keys s a \<longleftrightarrow> (\<forall>k. a k \<noteq> None \<longleftrightarrow> k \<noteq> 0 \<and> (\<exists>i<am_cap s. am_key s i = k)) \<and>
     (\<forall>i<am_cap s. \<forall>j<am_cap s. am_key s i = am_key s j \<longrightarrow> am_key s i \<noteq> 0 \<longrightarrow> i = j)"

definition am_vals :: "('k::zero, 'v) amap \<Rightarrow> ('k \<rightharpoonup> 'v) \<Rightarrow> (nat \<Rightarrow> bool) \<Rightarrow> bool" where
  "am_vals s a P \<longleftrightarrow> (\<forall>i<am_cap s. am_key s i \<noteq> 0 \<longrightarrow> P i \<longrightarrow> a (am_key s i) = Some (am_val s i))"

definition am_SI :: "nat \<Rightarrow> nat \<Rightarrow> ('k::zero, 'v) amap \<Rightarrow> ('k \<rightharpoonup> 'v) \<Rightarrow> (tid \<Rightarrow> unit ownership) \<Rightarrow> bool" where
  "am_SI c n s a w \<longleftrightarrow> unat (am_size s) = c \<and> am_cap s = c \<and> am_keys s a \<and>
     (\<not> optik_is_locked (am_lock s) \<longrightarrow> am_vals s a (\<lambda>_. True)) \<and>
     unat (am_lock s) \<le> n \<and> optik_held_ok (am_lock s) () w"

text \<open>What holds if the version is still the one that was read.\<close>

definition am_snap :: "('k, 'v) amap \<Rightarrow> 64 word \<Rightarrow> bool \<Rightarrow> bool" where
  "am_snap s ver P \<longleftrightarrow> unat ver \<le> unat (am_lock s) \<and> (am_lock s = ver \<longrightarrow> \<not> optik_is_locked ver \<longrightarrow> P)"

text \<open>A scan for a key: it has been absent at some moment, or it is in a slot still to be visited.\<close>

definition am_ahead :: "('k, 'v::zero) amap \<Rightarrow> 'k \<Rightarrow> nat \<Rightarrow> (('k, 'v) map_op, 'v map_ret) ghost \<Rightarrow> bool" where
  "am_ahead s k i g \<longleftrightarrow> returns g (Ret_Val 0) \<or> (\<exists>j<am_cap s. i \<le> j \<and> am_key s j = k)"

definition am_scanned :: "('k::zero, 'v) amap \<Rightarrow> 'k \<Rightarrow> nat \<Rightarrow> nat option \<Rightarrow> bool" where
  "am_scanned s k i free \<longleftrightarrow> i \<le> am_cap s \<and> (\<forall>j<i. am_key s j \<noteq> k) \<and>
     (case free of None \<Rightarrow> \<forall>j<i. am_key s j \<noteq> 0 | Some f \<Rightarrow> f < i \<and> am_key s f = 0)"

fun am_LI :: "tid \<Rightarrow> ('k::zero, 'v::zero) amap \<Rightarrow> ('k \<rightharpoonup> 'v) \<Rightarrow> (tid \<Rightarrow> unit ownership) \<Rightarrow>
    (('k, 'v) am_pc, 'v map_ret) control \<Rightarrow> (('k, 'v) map_op, 'v map_ret) ghost \<Rightarrow> bool" where
  "am_LI t s a w Idle g = (g = Quiet)"
| "am_LI t s a w (Finished r) g = returns g r"
| "am_LI t s a w (At (ASearch k AS_Version)) g = (pending (Search k) g \<and> k \<noteq> 0)"
| "am_LI t s a w (At (ASearch k (AS_Key ver i))) g =
     (pending (Search k) g \<and> k \<noteq> 0 \<and> \<not> optik_is_locked ver \<and> am_snap s ver True \<and> am_ahead s k i g)"
| "am_LI t s a w (At (ASearch k (AS_Val ver i))) g =
     (pending (Search k) g \<and> k \<noteq> 0 \<and> \<not> optik_is_locked ver \<and> i < am_cap s \<and> am_snap s ver (am_key s i = k))"
| "am_LI t s a w (At (ASearch k (AS_Check ver v))) g =
     (pending (Search k) g \<and> k \<noteq> 0 \<and> \<not> optik_is_locked ver \<and> am_snap s ver (a k = Some v))"
| "am_LI t s a w (At (AInsert k v AI_Version)) g = (pending (Insert k v) g \<and> k \<noteq> 0)"
| "am_LI t s a w (At (AInsert k v (AI_Key ver i free))) g =
     (pending (Insert k v) g \<and> k \<noteq> 0 \<and> i \<le> am_cap s \<and> am_snap s ver (am_scanned s k i free))"
| "am_LI t s a w (At (AInsert k v (AI_Try ver free pc))) g =
     (pending (Insert k v) g \<and> k \<noteq> 0 \<and> am_snap s ver (am_scanned s k (am_cap s) free) \<and>
      (pc = Try_CAS \<longrightarrow> \<not> optik_is_locked ver))"
| "am_LI t s a w (At (AInsert k v (AI_Put_Key i))) g =
     (pending (Insert k v) g \<and> k \<noteq> 0 \<and> am_vals s a (\<lambda>_. True) \<and> a k = None \<and> i < am_cap s \<and> am_key s i = 0)"
| "am_LI t s a w (At (AInsert k v (AI_Put_Val i))) g =
     (g = Closed (Ret_Int 1) \<and> am_vals s a (\<lambda>j. j \<noteq> i) \<and> i < am_cap s \<and> am_key s i = k \<and> a k = Some v)"
| "am_LI t s a w (At (AInsert k v (AI_Unlock r pc))) g =
     (returns g (Ret_Int r) \<and> am_vals s a (\<lambda>_. True) \<and> (\<forall>x. pc = Unlock_Write x \<longrightarrow> x = am_lock s))"
| "am_LI t s a w (At (ARemove k AR_Version)) g = (pending (Delete k) g \<and> k \<noteq> 0)"
| "am_LI t s a w (At (ARemove k (AR_Key ver i))) g =
     (pending (Delete k) g \<and> k \<noteq> 0 \<and> am_snap s ver True \<and> am_ahead s k i g)"
| "am_LI t s a w (At (ARemove k (AR_Try ver i pc))) g =
     (pending (Delete k) g \<and> k \<noteq> 0 \<and> i < am_cap s \<and> am_snap s ver (am_key s i = k) \<and> (pc = Try_CAS \<longrightarrow> \<not> optik_is_locked ver))"
| "am_LI t s a w (At (ARemove k (AR_Val i))) g =
     (pending (Delete k) g \<and> k \<noteq> 0 \<and> am_vals s a (\<lambda>_. True) \<and> i < am_cap s \<and> am_key s i = k)"
| "am_LI t s a w (At (ARemove k (AR_Clear i v))) g =
     (pending (Delete k) g \<and> k \<noteq> 0 \<and> am_vals s a (\<lambda>_. True) \<and> i < am_cap s \<and> am_key s i = k \<and> a k = Some v)"
| "am_LI t s a w (At (ARemove k (AR_Unlock v pc))) g =
     (g = Closed (Ret_Val v) \<and> am_vals s a (\<lambda>_. True) \<and> (\<forall>x. pc = Unlock_Write x \<longrightarrow> x = am_lock s))"

lemma am_SI_mono: "am_SI c n s a w \<Longrightarrow> am_SI c (Suc n) s a w"
  by (simp add: am_SI_def)

section \<open>Interference\<close>

definition am_effect :: "tid \<Rightarrow> ('k::zero, 'v) amap \<Rightarrow> ('k \<rightharpoonup> 'v) \<Rightarrow> (tid \<Rightarrow> unit ownership) \<Rightarrow> ('k, 'v) amap \<Rightarrow>
    ('k \<rightharpoonup> 'v) \<Rightarrow> bool" where
  "am_effect t s a w s' a' \<longleftrightarrow> am_cap s' = am_cap s \<and> unat (am_lock s) \<le> unat (am_lock s') \<and>
     (am_array s' = am_array s \<and> a' = a \<or> () \<in> held (w t) \<and> am_lock s' = am_lock s) \<and>
     (\<forall>j<am_cap s. am_key s j \<noteq> 0 \<longrightarrow> am_key s' j = am_key s j \<or> a' (am_key s j) = None) \<and>
     (am_lock s' = am_lock s \<or> (\<forall>u. u \<noteq> t \<longrightarrow> () \<notin> held (w u)))"

lemma pending_returns:
  "pending op g \<Longrightarrow> observed spec a g \<Longrightarrow> spec op a = (a, r) \<Longrightarrow> returns g r"
  by (auto simp: pending_def legal_def)

lemma pending_returns_observe:
  "pending op g \<Longrightarrow> spec op a = (a, r) \<Longrightarrow> returns (observe spec a g) r"
  by (auto simp: pending_def legal_def)

lemma am_ahead_stable:
  assumes "am_effect t s a w s' a'" and "am_ahead s k i g" and "k \<noteq> 0" and "pending op g"
    and "a' k = None \<Longrightarrow> bounded_map_spec c op a' = (a', Ret_Val 0)"
  shows "am_ahead s' k i (observe (bounded_map_spec c) a' g)"
proof (cases "returns g (Ret_Val 0)")
  case True
  then show ?thesis by (simp add: am_ahead_def returns_observe)
next
  case False
  with assms(2) obtain j where j: "j < am_cap s" "i \<le> j" "am_key s j = k" unfolding am_ahead_def by blast
  then have "am_key s' j = k \<or> a' k = None" and "am_cap s' = am_cap s"
    using assms(1,3) unfolding am_effect_def by auto
  then show ?thesis
    using j assms(4,5) pending_returns_observe [of op g "bounded_map_spec c" a'] unfolding am_ahead_def by auto
qed

lemma am_snap_stable:
  assumes SI: "am_SI c n s a w" and eff: "am_effect t s a w s' a'" and "am_snap s ver P"
    and "am_array s' = am_array s \<Longrightarrow> a' = a \<Longrightarrow> P \<Longrightarrow> Q"
  shows "am_snap s' ver Q"
proof -
  have mono: "unat (am_lock s) \<le> unat (am_lock s')" using eff by (simp add: am_effect_def)
  have Q if "am_lock s' = ver" "\<not> optik_is_locked ver"
  proof -
    have ver: "am_lock s = ver" using mono that assms(3) by (simp add: am_snap_def word_unat_eq_iff)
    then have "() \<notin> held (w t)" using SI that(2) optik_held_free unfolding am_SI_def by metis
    then show ?thesis using eff assms(3,4) that ver unfolding am_effect_def am_snap_def by blast
  qed
  then show ?thesis using mono assms(3) unfolding am_snap_def by auto
qed

lemma am_scanned_cong: "am_array s' = am_array s \<Longrightarrow> am_scanned s' k i free = am_scanned s k i free"
  by (cases free) (simp_all add: am_scanned_def)

lemma am_stable:
  assumes SI: "am_SI c n s a w" and eff: "am_effect t s a w s' a'" and ut: "u \<noteq> t" and own: "w u = am_own z"
    and LI: "am_LI u s a w z g"
  shows "am_LI u s' a' w' z (observe (bounded_map_spec c) a' g)"
proof (cases z)
  case (At x)
  have cap: "am_cap s' = am_cap s" using eff by (simp add: am_effect_def)
  have hk: "optik_held_ok (am_lock s) () w" using SI by (simp add: am_SI_def)
  have holds: "am_array s' = am_array s \<and> a' = a \<and> am_lock s' = am_lock s" if "() \<in> held (w u)"
    using optik_held_exclusive [OF hk that, of t] ut eff that unfolding am_effect_def by metis
  have vals: "am_vals s' a P" if "am_vals s a P" "am_array s' = am_array s" for P
    using that by (simp add: am_vals_def)
  note snap = am_snap_stable [OF SI eff]
  have ver: "am_snap s' v True" if "am_snap s v True" for v
    by (rule snap [OF that]) simp
  have key: "am_snap s' v (am_key s' i = k)" if "am_snap s v (am_key s i = k)" for v i k
    by (rule snap [OF that]) simp
  have val: "am_snap s' v (a' k = r)" if "am_snap s v (a k = r)" for v k r
    by (rule snap [OF that]) simp
  have scan: "am_snap s' v (am_scanned s' k i free)" if "am_snap s v (am_scanned s k i free)" for v k i free
    by (rule snap [OF that]) (simp add: am_scanned_cong [of s' s])
  have ahead: "am_ahead s' k i (observe (bounded_map_spec c) a' g)"
    if "am_ahead s k i g" "k \<noteq> 0" "pending (Search k) g \<or> pending (Delete k) g" for k i
    using that(3)
    by (elim disjE) (erule am_ahead_stable [OF eff that(1,2)], simp)+
  note keep = pending_observe returns_observe
  show ?thesis
  proof (cases x)
    case (ASearch k pc)
    show ?thesis using LI ver ahead key val cap unfolding At ASearch by (cases pc) (simp_all add: keep)
  next
    case (AInsert k v pc)
    show ?thesis using LI own holds vals scan cap unfolding At AInsert by (cases pc) (simp_all add: keep)
  next
    case (ARemove k pc)
    show ?thesis using LI own holds vals ver ahead key cap unfolding At ARemove by (cases pc) (simp_all add: keep)
  qed
qed (use LI in \<open>auto intro: returns_observe\<close>)


section \<open>Steps\<close>

abbreviation am_ok :: "nat \<Rightarrow> nat \<Rightarrow> tid \<Rightarrow> ('k::zero, 'v::zero) amap \<Rightarrow> ('k \<rightharpoonup> 'v) \<Rightarrow> (tid \<Rightarrow> unit ownership) \<Rightarrow>
    (('k, 'v) map_op, 'v map_ret) ghost \<Rightarrow> ('k, 'v) amap \<Rightarrow> (('k, 'v) am_pc, 'v map_ret) control \<Rightarrow> bool" where
  "am_ok c \<equiv> step_ok (bounded_map_spec c) am_own (am_SI c) am_LI"

lemma am_okI:
  assumes "am_SI c n s a w" and "advance (bounded_map_spec c) a g a' g'" and "am_SI c (Suc n) s' a' (w(t := am_own y))"
    and "am_LI t s' a' (w(t := am_own y)) y g'" and "am_effect t s a w s' a'"
  shows "am_ok c n t s a w g s' y"
  by (rule step_okI [where own = am_own and SI = "am_SI c" and LI = am_LI, OF assms(2-4)]) (rule am_stable [OF assms(1,5)])

lemma am_local:
  assumes "am_SI c n s a w" and "am_own y = w t" and "am_LI t s a w y g"
  shows "am_ok c n t s a w g s y"
  using step_ok_local [where own = am_own and SI = "am_SI c" and LI = am_LI] am_SI_mono assms by blast

text \<open>Taking the lock at a validated version, and giving it back.\<close>

lemma am_acquire:
  assumes SI: "am_SI c n s a w" and "\<not> optik_is_locked (am_lock s)" and y: "am_own y = holding {} {} {()}"
    and LI: "\<And>w'. am_vals s a (\<lambda>_. True) \<Longrightarrow> am_LI t (s\<lparr>am_lock := am_lock s + 1\<rparr>) a w' y g"
  shows "am_ok c n t s a w g (s\<lparr>am_lock := am_lock s + 1\<rparr>) y"
proof (rule am_okI [OF SI advance_stay _ LI])
  have l: "unat (am_lock s + 1) = Suc (unat (am_lock s))" by (rule unat_unlocked_Suc [OF assms(2)])
  have h: "optik_held_ok (am_lock s) () w" using SI by (simp add: am_SI_def)
  show "am_SI c (Suc n) (s\<lparr>am_lock := am_lock s + 1\<rparr>) a (w(t := am_own y))"
    using SI l optik_held_acquire [OF h assms(2)] optik_locked_Suc [OF assms(2)] y
    by (simp add: am_SI_def am_keys_def)
  show "am_vals s a (\<lambda>_. True)" using SI assms(2) by (simp add: am_SI_def)
  show "am_effect t s a w (s\<lparr>am_lock := am_lock s + 1\<rparr>) a"
    using l optik_held_free [OF h assms(2)] by (simp add: am_effect_def)
qed

lemma am_release:
  assumes inb: "Suc n < 2 ^ 63" and SI: "am_SI c n s a w" and w: "w t = holding {} {} {()}" and y: "am_own y = none_owned"
    and "am_vals s a (\<lambda>_. True)" and LI: "\<And>s' w'. am_LI t s' a w' y g"
  shows "am_ok c n t s a w g (s\<lparr>am_lock := am_lock s + 1\<rparr>) y"
proof (rule am_okI [OF SI advance_stay _ LI])
  have n: "Suc (unat (am_lock s)) < 2 ^ 64" using SI inb by (simp add: am_SI_def)
  then have l: "unat (am_lock s + 1) = Suc (unat (am_lock s))" by (intro unat_Suc_word) simp
  have h: "optik_held_ok (am_lock s) () w" using SI by (simp add: am_SI_def)
  show "am_SI c (Suc n) (s\<lparr>am_lock := am_lock s + 1\<rparr>) a (w(t := am_own y))"
    using SI l optik_held_release [OF h _ n] w y assms(5) by (simp add: am_SI_def am_keys_def am_vals_def)
  show "am_effect t s a w (s\<lparr>am_lock := am_lock s + 1\<rparr>) a"
    using l optik_held_exclusive [OF h, of t] w by (simp add: am_effect_def)
qed

lemma am_try_cases:
  assumes "within f k (on_lock s (optik_trylock_version ver (am_lock s) pc)) = Next s' y"
    and "pc = Try_CAS \<longrightarrow> \<not> optik_is_locked ver"
  obtains (refuse) "s' = s" "y = k False"
  | (checked) "s' = s" "y = At (f Try_CAS)" "\<not> optik_is_locked ver"
  | (taken) "s' = s\<lparr>am_lock := am_lock s + 1\<rparr>" "y = k True" "\<not> optik_is_locked ver" "am_lock s = ver"
proof (cases pc)
  case Try_Check
  then show ?thesis using assms(1) that(1,2) by (auto split: if_splits)
next
  case Try_CAS
  then show ?thesis using assms that(1,3) by (cases "am_lock s = ver") auto
qed

lemma am_unlock_cases:
  assumes "within f k (on_lock s (optik_unlock (am_lock s) pc)) = Next s' y"
  obtains (rd) "s' = s" "y = At (f (Unlock_Write (am_lock s)))"
  | (wr) x where "pc = Unlock_Write x" "s' = s\<lparr>am_lock := x + 1\<rparr>" "y = k ()"
  using assms by (cases pc) auto

text \<open>Keys and values of the slots under the three writes.\<close>

lemma am_put_simps [simp]:
  "am_cap (am_put s i e) = am_cap s" "am_lock (am_put s i e) = am_lock s" "am_size (am_put s i e) = am_size s"
  "j < am_cap s \<Longrightarrow> am_array (am_put s i e) ! j = (if j = i then e else am_array s ! j)"
  by (auto simp: am_put_def nth_list_update)

lemma am_put_key: "j < am_cap s \<Longrightarrow> am_key (am_put s i e) j = (if j = i then kv_key e else am_key s j)"
  by simp

lemma am_keysI:
  assumes "\<And>k. a k \<noteq> None \<longleftrightarrow> k \<noteq> 0 \<and> (\<exists>i<am_cap s. am_key s i = k)"
    and "\<And>i j. i < am_cap s \<Longrightarrow> j < am_cap s \<Longrightarrow> am_key s i = am_key s j \<Longrightarrow> am_key s i \<noteq> 0 \<Longrightarrow> i = j"
  shows "am_keys s a"
  unfolding am_keys_def using assms by blast

lemma am_keysD:
  assumes "am_keys s a"
  shows "a k \<noteq> None \<longleftrightarrow> k \<noteq> 0 \<and> (\<exists>i<am_cap s. am_key s i = k)"
    and "i < am_cap s \<Longrightarrow> j < am_cap s \<Longrightarrow> am_key s i = am_key s j \<Longrightarrow> am_key s i \<noteq> 0 \<Longrightarrow> i = j"
  using assms unfolding am_keys_def by blast+

lemma am_absent: "am_keys s a \<Longrightarrow> (\<And>i. i < am_cap s \<Longrightarrow> am_key s i \<noteq> k) \<Longrightarrow> a k = None"
  using am_keysD(1) [of s a k] by blast

lemma am_present: "am_keys s a \<Longrightarrow> i < am_cap s \<Longrightarrow> am_key s i = k \<Longrightarrow> k \<noteq> 0 \<Longrightarrow> \<exists>v. a k = Some v"
  using am_keysD(1) [of s a k] by blast

lemma am_keys_put_key:
  assumes keys: "am_keys s a" and k: "a k = None" "k \<noteq> 0" and i: "i < am_cap s" "am_key s i = 0" and e: "kv_key e = k"
  shows "am_keys (am_put s i e) (a(k \<mapsto> v))"
proof (rule am_keysI)
  have free: "am_key s j \<noteq> k" if "j < am_cap s" for j using am_keysD(1) [OF keys, of k] k that by blast
  show "(a(k \<mapsto> v)) x \<noteq> None \<longleftrightarrow> x \<noteq> 0 \<and> (\<exists>j<am_cap (am_put s i e). am_key (am_put s i e) j = x)" for x
  proof (cases "x = k")
    case True
    then show ?thesis using k(2) i(1) e by (auto intro!: exI [of _ i])
  next
    case False
    then have "(\<exists>j<am_cap (am_put s i e). am_key (am_put s i e) j = x) \<longleftrightarrow> (\<exists>j<am_cap s. j \<noteq> i \<and> am_key s j = x)"
      using i(1) e by (metis am_put_key am_put_simps(1))
    then show ?thesis using am_keysD(1) [OF keys, of x] i(2) False by auto
  qed
  show "p = q" if "p < am_cap (am_put s i e)" "q < am_cap (am_put s i e)" "am_key (am_put s i e) p = am_key (am_put s i e) q"
      "am_key (am_put s i e) p \<noteq> 0" for p q
    using that e free am_keysD(2) [OF keys, of p q] by (metis am_put_key am_put_simps(1))
qed

lemma am_keys_clear:
  assumes keys: "am_keys s a" and k: "k \<noteq> 0" and i: "i < am_cap s" "am_key s i = k" and e: "kv_key e = 0"
  shows "am_keys (am_put s i e) (a(k := None))"
proof (rule am_keysI)
  have only: "j = i" if "j < am_cap s" "am_key s j = k" for j using am_keysD(2) [OF keys, of j i] k i that by simp
  show "(a(k := None)) x \<noteq> None \<longleftrightarrow> x \<noteq> 0 \<and> (\<exists>j<am_cap (am_put s i e). am_key (am_put s i e) j = x)" for x
    using am_keysD(1) [OF keys, of x] e i(2) only by (metis am_put_key am_put_simps(1) fun_upd_apply)
  show "p = q" if "p < am_cap (am_put s i e)" "q < am_cap (am_put s i e)" "am_key (am_put s i e) p = am_key (am_put s i e) q"
      "am_key (am_put s i e) p \<noteq> 0" for p q
    using that e am_keysD(2) [OF keys, of p q] by (metis am_put_key am_put_simps(1))
qed

lemma am_keys_put_val:
  assumes "am_keys s a" and "kv_key e = am_key s i"
  shows "am_keys (am_put s i e) a"
proof -
  have key: "am_key (am_put s i e) j = am_key s j" if "j < am_cap s" for j using that assms(2) by simp
  show ?thesis
    by (rule am_keysI) (use am_keysD [OF assms(1)] key in \<open>auto simp del: am_put_simps(4)\<close>)
qed

text \<open>The number of keys of the map is the number of slots in use.\<close>

lemma am_keys_card:
  assumes "am_keys s a"
  shows "finite (dom a)" and "card (dom a) = card {i. i < am_cap s \<and> am_key s i \<noteq> 0}"
proof -
  let ?I = "{i. i < am_cap s \<and> am_key s i \<noteq> 0}"
  have d: "dom a = am_key s ` ?I" using am_keysD(1) [OF assms] by (auto simp: dom_def image_iff)
  then show "finite (dom a)" by simp
  have "inj_on (am_key s) ?I" by (rule inj_onI) (use am_keysD(2) [OF assms] in auto)
  then show "card (dom a) = card ?I" unfolding d by (rule card_image)
qed

lemma am_not_full:
  assumes "am_keys s a" and "i < am_cap s" and "am_key s i = 0"
  shows "card (dom a) < am_cap s"
proof -
  have "{i. i < am_cap s \<and> am_key s i \<noteq> 0} \<subset> {..<am_cap s}" using assms(2,3) by auto
  then have "card {i. i < am_cap s \<and> am_key s i \<noteq> 0} < card {..<am_cap s}" by (intro psubset_card_mono) auto
  then show ?thesis using am_keys_card(2) [OF assms(1)] by simp
qed

lemma am_full:
  assumes "am_keys s a" and "\<And>i. i < am_cap s \<Longrightarrow> am_key s i \<noteq> 0"
  shows "card (dom a) = am_cap s"
proof -
  have "{i. i < am_cap s \<and> am_key s i \<noteq> 0} = {..<am_cap s}" using assms(2) by auto
  then show ?thesis using am_keys_card(2) [OF assms(1)] by simp
qed


lemma am_snapI: "unat ver \<le> unat (am_lock s) \<Longrightarrow> (am_lock s = ver \<Longrightarrow> \<not> optik_is_locked ver \<Longrightarrow> P) \<Longrightarrow> am_snap s ver P"
  by (simp add: am_snap_def)

lemma am_snapD: "am_snap s ver P \<Longrightarrow> am_lock s = ver \<Longrightarrow> \<not> optik_is_locked ver \<Longrightarrow> P"
  by (simp add: am_snap_def)

lemma am_snap_mp: "am_snap s ver P \<Longrightarrow> (P \<Longrightarrow> am_lock s = ver \<Longrightarrow> \<not> optik_is_locked ver \<Longrightarrow> Q) \<Longrightarrow> am_snap s ver Q"
  by (simp add: am_snap_def)

lemma am_snap_now: "am_snap s (am_lock s) P \<longleftrightarrow> (\<not> optik_is_locked (am_lock s) \<longrightarrow> P)"
  by (simp add: am_snap_def)

lemma am_ahead_start:
  assumes "am_keys s a" and "k \<noteq> 0" and "pending op g" and "observed spec a g"
    and "a k = None \<Longrightarrow> spec op a = (a, Ret_Val 0)"
  shows "am_ahead s k 0 g"
proof (cases "a k")
  case None
  then show ?thesis using pending_returns [OF assms(3,4)] assms(5) by (simp add: am_ahead_def)
next
  case (Some v)
  then show ?thesis using am_keysD(1) [OF assms(1), of k] by (auto simp: am_ahead_def)
qed

lemma am_ahead_next: "am_ahead s k i g \<Longrightarrow> am_key s i \<noteq> k \<Longrightarrow> am_ahead s k (Suc i) g"
  unfolding am_ahead_def using le_antisym not_less_eq_eq by metis

lemma am_ahead_end: "am_ahead s k i g \<Longrightarrow> am_cap s \<le> i \<Longrightarrow> returns g (Ret_Val 0)"
  unfolding am_ahead_def by auto

lemma am_scanned_next:
  assumes "am_scanned s k i free" and "i < am_cap s" and "am_key s i \<noteq> k"
  shows "am_scanned s k (Suc i) (if am_key s i = 0 then Some i else free)"
  using assms by (cases free) (auto simp: am_scanned_def less_Suc_eq)

lemma am_search_step:
  assumes SI: "am_SI c n s a w" and LI: "am_LI t s a w (At (ASearch k pc)) g" and obs: "observed (bounded_map_spec c) a g"
    and own: "w t = am_own (At (ASearch k pc))" and ex: "am_search s k pc = Next s' y"
  shows "am_ok c n t s a w g s' y"
proof -
  have keys: "am_keys s a" and cap: "unat (am_size s) = am_cap s" using SI by (simp_all add: am_SI_def)
  have same: "s\<lparr>am_lock := am_lock s\<rparr> = s" by simp
  have s': "s' = s" and l: "am_own y = w t" and L: "am_LI t s a w y g"
  proof -
    have "s' = s \<and> am_own y = w t \<and> am_LI t s a w y g"
    proof (cases pc)
      case AS_Version
      have "am_ahead s k 0 g"
        by (rule am_ahead_start [OF keys _ _ obs, of k "Search k"]) (use LI AS_Version in simp_all)
      then show ?thesis using LI own ex AS_Version by (cases "optik_is_locked (am_lock s)") (auto simp: am_snap_now)
    next
      case (AS_Key ver i)
      show ?thesis
      proof (cases "i < am_cap s")
        case True
        then show ?thesis using LI own ex AS_Key cap am_ahead_next [of s k i g]
          by (cases "am_key s i = k") (auto simp: am_slot_def elim: am_snap_mp)
      next
        case False
        then show ?thesis using LI own ex AS_Key cap am_ahead_end [of s k i g] by auto
      qed
    next
      case (AS_Val ver i)
      have L: "k \<noteq> 0" "i < am_cap s" "am_snap s ver (am_key s i = k)" using LI AS_Val by simp_all
      have "am_snap s ver (a k = Some (am_val s i))"
        by (rule am_snap_mp [OF L(3)]) (use SI L(1,2) in \<open>auto simp: am_SI_def am_vals_def\<close>)
      then show ?thesis using LI own ex AS_Val by (auto simp: am_slot_def)
    next
      case (AS_Check ver v)
      show ?thesis
      proof (cases "am_lock s = ver")
        case True
        then have "a k = Some v" using LI AS_Check am_snapD [of s ver "a k = Some v"] by simp
        then have "returns g (Ret_Val v)" using LI AS_Check pending_returns [OF _ obs, of "Search k"] by simp
        then show ?thesis using own ex AS_Check True by (auto simp: optik_is_same_version_def)
      next
        case False
        then show ?thesis using LI own ex AS_Check by (auto simp: optik_is_same_version_def)
      qed
    qed
    then show "s' = s" "am_own y = w t" "am_LI t s a w y g" by blast+
  qed
  show ?thesis unfolding s' by (rule am_local [OF SI l L])
qed

lemma am_insert_step:
  assumes inb: "Suc n < 2 ^ 63" and SI: "am_SI c n s a w" and LI: "am_LI t s a w (At (AInsert k v pc)) g"
    and obs: "observed (bounded_map_spec c) a g" and own: "w t = am_own (At (AInsert k v pc))"
    and ex: "am_insert s k v pc = Next s' y"
  shows "am_ok c n t s a w g s' y"
proof (cases pc)
  case AI_Version
  have "s' = s" "y = At (AInsert k v (AI_Key (am_lock s) 0 None))" using ex AI_Version by auto
  then show ?thesis using LI own AI_Version
    by (auto intro!: am_local [OF SI] simp: am_snap_now am_scanned_def)
next
  case (AI_Key ver i free)
  have keys: "am_keys s a" and cap: "unat (am_size s) = am_cap s" using SI by (simp_all add: am_SI_def)
  have L: "pending (Insert k v) g" "k \<noteq> 0" "i \<le> am_cap s" "am_snap s ver (am_scanned s k i free)" using LI AI_Key by simp_all
  show ?thesis
  proof (cases "i < am_cap s")
    case lt: True
    show ?thesis
    proof (cases "am_key s i = k")
      case True
      then obtain x where "a k = Some x" using am_present [OF keys lt _ L(2)] by blast
      then have "returns g (Ret_Int 0)" using pending_returns [OF L(1) obs] by simp
      moreover have "s' = s" "y = Finished (Ret_Int 0)" using ex AI_Key cap lt True by (simp_all add: am_slot_def)
      ultimately show ?thesis using own AI_Key by (auto intro!: am_local [OF SI])
    next
      case False
      have "am_snap s ver (am_scanned s k (Suc i) (if am_key s i = 0 then Some i else free))"
        by (rule am_snap_mp [OF L(4)]) (rule am_scanned_next [OF _ lt False])
      moreover have "s' = s" "y = At (AInsert k v (AI_Key ver (Suc i) (if am_key s i = 0 then Some i else free)))"
        using ex AI_Key cap lt False by (auto simp: am_slot_def)
      ultimately show ?thesis using own AI_Key L lt by (auto intro!: am_local [OF SI])
    qed
  next
    case False
    then have "s' = s" "y = At (AInsert k v (AI_Try ver free Try_Check))" "i = am_cap s" using ex AI_Key cap L(3) by simp_all
    then show ?thesis using own AI_Key L by (auto intro!: am_local [OF SI])
  qed
next
  case (AI_Try ver free q)
  have L: "pending (Insert k v) g" "k \<noteq> 0" "am_snap s ver (am_scanned s k (am_cap s) free)"
    "q = Try_CAS \<longrightarrow> \<not> optik_is_locked ver" using LI AI_Try by simp_all
  from ex AI_Try have ex': "within (\<lambda>pc. AInsert k v (AI_Try ver free pc))
       (\<lambda>ok. At (AInsert k v (if \<not> ok then AI_Version
          else (case free of Some i \<Rightarrow> AI_Put_Key i | None \<Rightarrow> AI_Unlock 0 Unlock_Read))))
       (on_lock s (optik_trylock_version ver (am_lock s) q)) = Next s' y" by simp
  from ex' L(4) show ?thesis
  proof (cases rule: am_try_cases)
    case taken
    then have sc: "am_scanned s k (am_cap s) free" using L(3) am_snapD by blast
    have keys: "am_keys s a" and c: "am_cap s = c" using SI by (simp_all add: am_SI_def)
    have none: "a k = None" using am_absent [OF keys] sc unfolding am_scanned_def by blast
    show ?thesis
    proof (cases free)
      case None
      then have "card (dom a) = c" using am_full [OF keys] sc c by (simp add: am_scanned_def)
      then have "returns g (Ret_Int 0)" using none pending_returns [OF L(1) obs] by simp
      then show ?thesis unfolding taken(1,2) using None taken(3,4) by (intro am_acquire [OF SI]) (auto simp: am_vals_def)
    next
      case (Some i)
      then have "i < am_cap s" "am_key s i = 0" using sc by (simp_all add: am_scanned_def)
      then show ?thesis unfolding taken(1,2) using Some taken(3,4) none L by (intro am_acquire [OF SI]) (auto simp: am_vals_def)
    qed
  qed (use own AI_Try L in \<open>auto intro!: am_local [OF SI]\<close>)
next
  case (AI_Put_Key i)
  have keys: "am_keys s a" and c: "am_cap s = c" using SI by (simp_all add: am_SI_def)
  have L: "pending (Insert k v) g" "k \<noteq> 0" "am_vals s a (\<lambda>_. True)" "a k = None" "i < am_cap s" "am_key s i = 0"
    using LI AI_Put_Key by simp_all
  let ?e = "(am_array s ! i)\<lparr>kv_key := k\<rparr>"
  have e: "s' = am_put s i ?e" "y = At (AInsert k v (AI_Put_Val i))" using ex AI_Put_Key L(5) by (simp_all add: am_slot_def)
  obtain W where W: "g = Open (Insert k v) W" using L(1) by (auto simp: pending_def)
  have "card (dom a) < c" using am_not_full [OF keys L(5,6)] c by simp
  then have sp: "bounded_map_spec c (Insert k v) a = (a(k \<mapsto> v), Ret_Int 1)" using L(4) by simp
  have K: "am_keys (am_put s i ?e) (a(k \<mapsto> v))" by (rule am_keys_put_key [OF keys L(4,2,5,6)]) simp
  have free: "am_key s j \<noteq> k" if "j < am_cap s" for j using am_keysD(1) [OF keys, of k] L(2,4) that by blast
  have V: "am_vals (am_put s i ?e) (a(k \<mapsto> v)) (\<lambda>j. j \<noteq> i)" using L(3) free by (auto simp: am_vals_def)
  have h: "optik_held_ok (am_lock s) () w" using SI by (simp add: am_SI_def)
  have lk: "optik_is_locked (am_lock s)" using optik_held_locked [OF h, of t] own AI_Put_Key by simp
  show ?thesis
    unfolding e
  proof (rule am_okI [OF SI])
    show "advance (bounded_map_spec c) a g (a(k \<mapsto> v)) (Closed (Ret_Int 1))" unfolding W by (rule advance_lin, rule sp)
    show "am_SI c (Suc n) (am_put s i ?e) (a(k \<mapsto> v)) (w(t := am_own (At (AInsert k v (AI_Put_Val i)))))"
      using SI K lk optik_held_keep [OF h] own AI_Put_Key by (simp add: am_SI_def)
    show "am_effect t s a w (am_put s i ?e) (a(k \<mapsto> v))" using own AI_Put_Key L(6) by (auto simp: am_effect_def)
  qed (use V L(5) in simp)
next
  case (AI_Put_Val i)
  have keys: "am_keys s a" and h: "optik_held_ok (am_lock s) () w" using SI by (simp_all add: am_SI_def)
  have L: "g = Closed (Ret_Int 1)" "am_vals s a (\<lambda>j. j \<noteq> i)" "i < am_cap s" "am_key s i = k" "a k = Some v"
    using LI AI_Put_Val by simp_all
  let ?e = "(am_array s ! i)\<lparr>kv_val := v\<rparr>"
  have e: "s' = am_put s i ?e" "y = At (AInsert k v (AI_Unlock 1 Unlock_Read))" using ex AI_Put_Val L(3) by (simp_all add: am_slot_def)
  have K: "am_keys (am_put s i ?e) a" by (rule am_keys_put_val [OF keys]) simp
  have V: "am_vals (am_put s i ?e) a (\<lambda>_. True)" using L by (auto simp: am_vals_def)
  have lk: "optik_is_locked (am_lock s)" using optik_held_locked [OF h, of t] own AI_Put_Val by simp
  show ?thesis
    unfolding e
  proof (rule am_okI [OF SI advance_stay])
    show "am_SI c (Suc n) (am_put s i ?e) a (w(t := am_own (At (AInsert k v (AI_Unlock 1 Unlock_Read)))))"
      using SI K lk optik_held_keep [OF h] own AI_Put_Val by (simp add: am_SI_def)
    show "am_effect t s a w (am_put s i ?e) a" using own AI_Put_Val by (auto simp: am_effect_def)
  qed (use V L(1) in simp)
next
  case (AI_Unlock r q)
  from ex AI_Unlock have "within (\<lambda>pc. AInsert k v (AI_Unlock r pc)) (\<lambda>_. Finished (Ret_Int r))
      (on_lock s (optik_unlock (am_lock s) q)) = Next s' y" by simp
  then show ?thesis
  proof (cases rule: am_unlock_cases)
    case rd
    then show ?thesis using LI own AI_Unlock by (auto intro!: am_local [OF SI])
  next
    case (wr x)
    then show ?thesis using LI own AI_Unlock by (auto intro!: am_release [OF inb SI])
  qed
qed


lemma am_remove_step:
  assumes inb: "Suc n < 2 ^ 63" and SI: "am_SI c n s a w" and LI: "am_LI t s a w (At (ARemove k pc)) g"
    and obs: "observed (bounded_map_spec c) a g" and own: "w t = am_own (At (ARemove k pc))"
    and ex: "am_remove s k pc = Next s' y"
  shows "am_ok c n t s a w g s' y"
proof (cases pc)
  case AR_Version
  have keys: "am_keys s a" using SI by (simp add: am_SI_def)
  have "am_ahead s k 0 g"
    by (rule am_ahead_start [OF keys _ _ obs, of k "Delete k"]) (use LI AR_Version in simp_all)
  moreover have "s' = s" "y = At (ARemove k (AR_Key (am_lock s) 0))" using ex AR_Version by auto
  ultimately show ?thesis using LI own AR_Version by (auto intro!: am_local [OF SI] simp: am_snap_now)
next
  case (AR_Key ver i)
  have cap: "unat (am_size s) = am_cap s" using SI by (simp add: am_SI_def)
  have L: "pending (Delete k) g" "k \<noteq> 0" "am_snap s ver True" "am_ahead s k i g" using LI AR_Key by simp_all
  show ?thesis
  proof (cases "i < am_cap s")
    case lt: True
    show ?thesis
    proof (cases "am_key s i = k")
      case True
      moreover have "s' = s" "y = At (ARemove k (AR_Try ver i Try_Check))" using ex AR_Key cap lt True by (simp_all add: am_slot_def)
      ultimately show ?thesis using own AR_Key L lt by (auto intro!: am_local [OF SI] elim: am_snap_mp)
    next
      case False
      moreover have "s' = s" "y = At (ARemove k (AR_Key ver (Suc i)))" using ex AR_Key cap lt False by (simp_all add: am_slot_def)
      ultimately show ?thesis using own AR_Key L am_ahead_next [OF L(4)] by (auto intro!: am_local [OF SI])
    qed
  next
    case False
    then have "s' = s" "y = Finished (Ret_Val 0)" using ex AR_Key cap by simp_all
    then show ?thesis using own AR_Key am_ahead_end [OF L(4)] False by (auto intro!: am_local [OF SI])
  qed
next
  case (AR_Try ver i q)
  have L: "pending (Delete k) g" "k \<noteq> 0" "i < am_cap s" "am_snap s ver (am_key s i = k)"
    "q = Try_CAS \<longrightarrow> \<not> optik_is_locked ver" using LI AR_Try by simp_all
  from ex AR_Try have ex': "within (\<lambda>pc. ARemove k (AR_Try ver i pc)) (\<lambda>ok. At (ARemove k (if ok then AR_Val i else AR_Version)))
       (on_lock s (optik_trylock_version ver (am_lock s) q)) = Next s' y" by simp
  from ex' L(5) show ?thesis
  proof (cases rule: am_try_cases)
    case taken
    then have "am_key s i = k" using L(4) am_snapD by blast
    then show ?thesis unfolding taken(1,2) using taken(3,4) L by (intro am_acquire [OF SI]) (auto simp: am_vals_def)
  qed (use own AR_Try L in \<open>auto intro!: am_local [OF SI]\<close>)
next
  case (AR_Val i)
  have L: "pending (Delete k) g" "k \<noteq> 0" "am_vals s a (\<lambda>_. True)" "i < am_cap s" "am_key s i = k" using LI AR_Val by simp_all
  then have "a k = Some (am_val s i)" by (auto simp: am_vals_def)
  moreover have "s' = s" "y = At (ARemove k (AR_Clear i (am_val s i)))" using ex AR_Val L(4) by (auto simp: am_slot_def)
  ultimately show ?thesis using own AR_Val L by (auto intro!: am_local [OF SI])
next
  case (AR_Clear i v)
  have keys: "am_keys s a" using SI by (simp_all add: am_SI_def)
  have L: "pending (Delete k) g" "k \<noteq> 0" "am_vals s a (\<lambda>_. True)" "i < am_cap s" "am_key s i = k" "a k = Some v"
    using LI AR_Clear by simp_all
  let ?e = "(am_array s ! i)\<lparr>kv_key := 0\<rparr>"
  have e: "s' = am_put s i ?e" "y = At (ARemove k (AR_Unlock v Unlock_Read))" using ex AR_Clear L(4) by (simp_all add: am_slot_def)
  obtain W where W: "g = Open (Delete k) W" using L(1) by (auto simp: pending_def)
  have sp: "bounded_map_spec c (Delete k) a = (a(k := None), Ret_Val v)" using L(6) by simp
  have K: "am_keys (am_put s i ?e) (a(k := None))" by (rule am_keys_clear [OF keys L(2,4,5)]) simp
  have only: "j = i" if "j < am_cap s" "am_key s j = k" for j using am_keysD(2) [OF keys, of j i] L(2,4,5) that by simp
  have V: "am_vals (am_put s i ?e) (a(k := None)) (\<lambda>_. True)" using L(3) only by (auto simp: am_vals_def)
  have h: "optik_held_ok (am_lock s) () w" using SI by (simp add: am_SI_def)
  have lk: "optik_is_locked (am_lock s)" using optik_held_locked [OF h, of t] own AR_Clear by simp
  show ?thesis
    unfolding e
  proof (rule am_okI [OF SI])
    show "advance (bounded_map_spec c) a g (a(k := None)) (Closed (Ret_Val v))" unfolding W by (rule advance_lin, rule sp)
    show "am_SI c (Suc n) (am_put s i ?e) (a(k := None)) (w(t := am_own (At (ARemove k (AR_Unlock v Unlock_Read)))))"
      using SI K lk optik_held_keep [OF h] own AR_Clear by (simp add: am_SI_def)
    show "am_effect t s a w (am_put s i ?e) (a(k := None))" using own AR_Clear L(5) by (auto simp: am_effect_def)
  qed (use V in simp)
next
  case (AR_Unlock v q)
  from ex AR_Unlock have "within (\<lambda>pc. ARemove k (AR_Unlock v pc)) (\<lambda>_. Finished (Ret_Val v))
      (on_lock s (optik_unlock (am_lock s) q)) = Next s' y" by simp
  then show ?thesis
  proof (cases rule: am_unlock_cases)
    case rd
    then show ?thesis using LI own AR_Unlock by (auto intro!: am_local [OF SI])
  next
    case (wr x)
    then show ?thesis using LI own AR_Unlock by (auto intro!: am_release [OF inb SI])
  qed
qed

lemma within_Fault: "within f k z = Fault \<longleftrightarrow> z = Fault"
  by (cases "(f, k, z)" rule: within.cases) auto

lemma on_lock_Fault: "on_lock s z = Fault \<longleftrightarrow> z = Fault"
  by (cases "(s, z)" rule: on_lock.cases) auto

lemma am_safe:
  assumes SI: "am_SI c n s a w" and LI: "am_LI t s a w (At x) g"
  shows "am_exec t p s x \<noteq> Fault"
proof -
  have cap: "unat (am_size s) = am_cap s" using SI by (simp add: am_SI_def)
  have trylock: "optik_trylock_version ver l pc \<noteq> Fault" for ver l pc by (cases pc) auto
  have unlock: "optik_unlock l pc \<noteq> Fault" for l pc by (cases pc) auto
  show ?thesis
  proof (cases x)
    case (ASearch k pc)
    then show ?thesis using LI cap by (cases pc) (auto simp: within_Fault on_lock_Fault am_slot_def)
  next
    case (AInsert k v pc)
    then show ?thesis using LI cap trylock unlock by (cases pc) (auto simp: within_Fault on_lock_Fault am_slot_def)
  next
    case (ARemove k pc)
    then show ?thesis using LI cap trylock unlock by (cases pc) (auto simp: within_Fault on_lock_Fault am_slot_def)
  qed
qed

lemma scast_size:
  fixes n :: "32 word"
  assumes "0 \<le> sint n"
  shows "unat (scast n :: 64 word) = nat (sint n)"
proof -
  have lt: "sint n < 2 ^ 31" using sint_less [of n] by simp
  have "uint (scast n :: 64 word) = uint (word_of_int (sint n) :: 64 word)" by (simp only: scast_eq)
  also have "\<dots> = take_bit 64 (sint n)" by (simp only: uint_word_of_int_eq) simp
  also have "\<dots> = sint n" by (rule take_bit_int_eq_self) (use assms lt in auto)
  finally show ?thesis by (simp add: unat_eq_nat_uint)
qed

lemma am_SI_init:
  assumes "0 \<le> sint sz"
  shows "am_SI (nat (sint sz)) 0 (amap_init sz) Map.empty (\<lambda>_. none_owned)"
  using assms by (simp add: am_SI_def amap_init_def scast_size am_keys_def am_vals_def optik_init_def optik_held_ok_def
      optik_is_locked_odd)

lemma am_length_loop_count: "am_length_loop xs c = c + int (card {i. i < length xs \<and> kv_key (xs ! i) \<noteq> 0})"
proof (induction xs arbitrary: c)
  case (Cons e es)
  let ?I = "{i. i < length es \<and> kv_key (es ! i) \<noteq> 0}"
  have "{i. i < length (e # es) \<and> kv_key ((e # es) ! i) \<noteq> 0} = (if kv_key e \<noteq> 0 then {0} else {}) \<union> Suc ` ?I" (is "?J = ?K")
  proof (rule set_eqI)
    show "i \<in> ?J \<longleftrightarrow> i \<in> ?K" for i by (cases i) auto
  qed
  moreover have "card (Suc ` ?I) = card ?I" by (rule card_image) simp
  moreover have "card ({0} \<union> Suc ` ?I) = 1 + card (Suc ` ?I)" by (subst card_Un_disjoint) auto
  ultimately have "card ?J = (if kv_key e \<noteq> 0 then 1 else 0) + card ?I"
    by (cases "kv_key e = 0") (simp_all only: if_True if_False simp_thms Un_empty_left add_0)
  then show ?case by (simp add: Cons.IH)
qed simp

lemma am_counts:
  assumes "am_SI c n s a w"
  shows "finite (dom a) \<and> am_length s = Some (int (card (dom a)))"
proof -
  have keys: "am_keys s a" and cap: "unat (am_size s) = am_cap s" using assms by (simp_all add: am_SI_def)
  then show ?thesis using am_keys_card [OF keys] by (simp add: am_length_def am_length_loop_count)
qed

interpretation amap: thread_object "bounded_map_spec (nat (sint sz))" Map.empty am_start am_exec
  "amap_init sz :: ('k::zero, 'v::zero) amap" am_own "\<lambda>n. 0 \<le> sint sz \<and> n < 2 ^ 63" "am_SI (nat (sint sz))" am_LI
  for sz
proof unfold_locales
  fix n t p x g a w s' y and s :: "('k, 'v) amap"
  show "am_exec t p s x \<noteq> Fault" if "am_SI (nat (sint sz)) n s a w" "am_LI t s a w (At x) g"
    by (rule am_safe [OF that])
  show "am_ok (nat (sint sz)) n t s a w g s' y"
    if "0 \<le> sint sz \<and> Suc n < 2 ^ 63" "am_SI (nat (sint sz)) n s a w" "am_LI t s a w (At x) g"
      "observed (bounded_map_spec (nat (sint sz))) a g" "w t = am_own (At x)" "am_exec t p s x = Next s' y"
    using that am_search_step [of "nat (sint sz)" n s a w t _ _ g s' y] am_insert_step [of n "nat (sint sz)" s a w t _ _ _ g s' y]
      am_remove_step [of n "nat (sint sz)" s a w t _ _ g s' y] by (cases x) simp_all
next
  fix op :: "('k, 'v) map_op" and x n a w t and s :: "('k, 'v) amap"
  show "am_own (At x) = am_own Idle" if "am_start op = Some x" using that by (cases op) (auto simp: am_start_def split: if_splits)
  show "am_LI t s a w (At x) (Open op (legal (bounded_map_spec (nat (sint sz))) op a))" if "am_start op = Some x"
    using that by (cases op) (auto simp: am_start_def split: if_splits)
qed (auto simp: am_SI_init intro: am_SI_mono)


section \<open>A concrete run\<close>

text \<open>One slot. Thread 1 begins a search for 5 while thread 0 inserts it; it sees the key before the value
  has been written, fails the validation and starts again; thread 2 then finds the map full.\<close>

definition amap_demo :: "(64 word, int) map_op command list" where
  "amap_demo = [Do_Call 0 (Insert 5 50), Do_Call 1 (Search 5), Do_Step 1 0, Do_Step 0 0, Do_Step 0 0, Do_Step 0 0,
     Do_Step 0 0, Do_Step 0 0, Do_Step 0 0, Do_Step 1 0, Do_Step 1 0, Do_Step 1 0, Do_Step 0 0, Do_Step 0 0, Do_Step 0 0,
     Do_Return 0, Do_Step 1 0, Do_Step 1 0, Do_Step 1 0, Do_Step 1 0, Do_Return 1,
     Do_Call 2 (Insert 7 70), Do_Step 2 0, Do_Step 2 0, Do_Step 2 0, Do_Step 2 0, Do_Step 2 0, Do_Step 2 0, Do_Step 2 0,
     Do_Return 2]"

definition amap_demo_history :: "((64 word, int) map_op, int map_ret) history" where
  "amap_demo_history = [(0, Call (Insert 5 50)), (1, Call (Search 5)), (0, Return (Ret_Int 1)), (1, Return (Ret_Val 50)),
     (2, Call (Insert 7 70)), (2, Return (Ret_Int 0))]"

lemma amap_demo_run:
  "\<exists>s c. run am_start am_exec (amap_init 1) (length amap_demo) amap_demo_history (s, c) \<and> am_length s = Some 1"
  unfolding amap_demo_history_def
  by (rule replay_exhibits)
    (simp add: amap_demo_def am_start_def amap_init_def am_slot_def am_put_def am_length_def optik_init_def
      optik_is_locked_def OPTIK_LOCKED_def optik_is_same_version_def CAS_val_def)

section \<open>Properties\<close>

text \<open>C31: every concurrent run of the array map, for any size of the array and keys other than 0, is
  linearizable with respect to a map with room for that many keys: an insertion of a new key fails
  exactly when the map is full.\<close>

theorem amap_linearizable:
  assumes "run am_start am_exec (amap_init sz :: ('k::zero, 'v::zero) amap) n h k" and "0 \<le> sint sz" and "n < 2 ^ 63"
  shows "linearizable (bounded_map_spec (nat (sint sz))) Map.empty h"
  using amap.linearizable [OF assms(1)] assms(2,3) by simp

theorem amap_linearizable_witness: "linearizable (bounded_map_spec 1) Map.empty amap_demo_history"
proof -
  obtain s c where "run am_start am_exec (amap_init 1) (length amap_demo) amap_demo_history (s, c)"
    using amap_demo_run by blast
  from amap_linearizable [OF this] show ?thesis by (simp add: amap_demo_def)
qed

text \<open>In every reachable state of the array map \<^verbatim>\<open>length()\<close> is the number of keys the history so far
  has left, at most the size of the array, and no step indexes outside of the array.\<close>

theorem amap_length_safe:
  assumes "run am_start am_exec (amap_init sz :: ('k::zero, 'v::zero) amap) n h (s, c)" and "0 \<le> sint sz" and "n < 2 ^ 63"
  shows "(\<exists>a. linearizes_to (bounded_map_spec (nat (sint sz))) Map.empty h a \<and> am_length s = Some (int (card (dom a)))
      \<and> card (dom a) \<le> nat (sint sz)) \<and> (\<forall>u p x. c u = At x \<longrightarrow> am_exec u p s x \<noteq> Fault)"
proof -
  have ok: "0 \<le> sint sz \<and> n < 2 ^ 63" using assms by simp
  obtain a where a: "linearizes_to (bounded_map_spec (nat (sint sz))) Map.empty h a" "am_SI (nat (sint sz)) n s a (am_own \<circ> c)"
    using amap.reachable_SI [OF assms(1) ok] by blast
  have "card {i. i < am_cap s \<and> am_key s i \<noteq> 0} \<le> card {..<am_cap s}" by (rule card_mono) auto
  then have "card (dom a) \<le> nat (sint sz)" using a(2) am_keys_card(2) [of s a] by (simp add: am_SI_def)
  with am_counts [OF a(2)] a(1) amap.no_fault [OF assms(1) ok] show ?thesis by blast
qed

theorem amap_length_safe_witness:
  "\<exists>s c a. run am_start am_exec (amap_init 1) (length amap_demo) amap_demo_history (s, c)
     \<and> linearizes_to (bounded_map_spec 1) Map.empty amap_demo_history a \<and> am_length s = Some (int (card (dom a)))"
proof -
  obtain s c where r: "run am_start am_exec (amap_init 1) (length amap_demo) amap_demo_history (s, c)"
    using amap_demo_run by blast
  from amap_length_safe [OF r] r show ?thesis by (auto simp: amap_demo_def)
qed

end
