(* ===== verification/Hashtable_ArrayMap.thy ===== *)
theory Hashtable_ArrayMap
  imports Hashtable_Buckets Array_Map_Optik
begin

text \<open>
  The hash table \<^verbatim>\<open>src/algorithms/hashtable_optik_arraymap.h\<close>: buckets are array maps of a fixed size, so
  an insertion fails when the bucket of the key is full, whatever room the other buckets have. That is
  the specification \<open>bounded_table_spec\<close>.
\<close>

section \<open>The code\<close>

type_synonym ('k, 'v) hashtable_arraymap = "('k, 'v) amap hashtable"

definition hashtable_arraymap_init :: "32 word \<Rightarrow> 32 word \<Rightarrow> ('k::zero, 'v::zero) hashtable_arraymap" where
  "hashtable_arraymap_init max_ht_length max_bu_length = ht_init max_ht_length (\<lambda>i. amap_init max_bu_length)"

definition hashtable_arraymap_start :: "('k::zero, 'v::zero) map_op \<Rightarrow> (('k, 'v) map_op, ('k, 'v) am_pc) ht_pc option" where
  "hashtable_arraymap_start = ht_start am_start"

definition hashtable_arraymap_exec :: "('k::zero \<Rightarrow> 32 word) \<Rightarrow>
    (('k, 'v::zero) hashtable_arraymap, (('k, 'v) map_op, ('k, 'v) am_pc) ht_pc, 'v map_ret) exec" where
  "hashtable_arraymap_exec hasher = ht_exec hasher am_exec"

definition hashtable_arraymap_length :: "('k::zero, 'v) hashtable_arraymap \<Rightarrow> int option" where
  "hashtable_arraymap_length = ht_length am_length"

text \<open>The destructor of a bucket frees its array, its lock and itself.\<close>

definition hashtable_arraymap_destroy :: "('k, 'v) hashtable_arraymap \<Rightarrow> unit list option" where
  "hashtable_arraymap_destroy = ht_destroy (\<lambda>i b. Some ())"

section \<open>Correctness\<close>

text \<open>The bucket of a key, and the map with room for \<open>c\<close> keys per bucket.\<close>

definition key_bucket :: "32 word \<Rightarrow> ('k \<Rightarrow> 32 word) \<Rightarrow> 'k \<Rightarrow> nat" where
  "key_bucket maxlen hasher k = unat (ht_addr (scast (maxlen - 1)) (hasher k))"

fun bounded_table_spec :: "('k \<Rightarrow> nat) \<Rightarrow> nat \<Rightarrow> (('k, 'v::zero) map_op, 'k \<rightharpoonup> 'v, 'v map_ret) seq_spec" where
  "bounded_table_spec f c (Insert k v) a =
     (case a k of
        None \<Rightarrow> if card {x \<in> dom a. f x = f k} < c then (a(k \<mapsto> v), Ret_Int 1) else (a, Ret_Int 0)
      | Some _ \<Rightarrow> (a, Ret_Int 0))"
| "bounded_table_spec f c op a = map_spec op a"

lemma table_spec_bounded: "table_spec f (bounded_map_spec c) = bounded_table_spec f c"
proof (intro ext)
  fix op :: "('a, 'b) map_op" and a
  show "table_spec f (bounded_map_spec c) op a = bounded_table_spec f c op a"
  proof (cases op)
    case (Insert k v)
    have "dom (part f a (f k)) = {x \<in> dom a. f x = f k}" by (auto simp: part_def split: if_splits)
    then show ?thesis
      by (auto simp: Insert table_spec_def part_def replace_part_def fun_eq_iff split: option.splits if_splits)
  next
    case (Search k)
    then show ?thesis by (simp add: table_spec_def) (simp add: part_def)
  next
    case (Delete k)
    have "replace_part f a (f k) ((part f a (f k))(k := None)) = a(k := None)"
      by (auto simp: part_def replace_part_def fun_eq_iff)
    moreover have "part f a (f k) k = a k" by (simp add: part_def)
    ultimately show ?thesis by (auto simp: Delete table_spec_def split: option.splits)
  qed
qed

interpretation hashtable_arraymap: counting_table "bounded_map_spec (nat (sint sz))" maxlen hasher am_start am_exec
  "\<lambda>i. amap_init sz :: ('k::zero, 'v::zero) amap" am_own "\<lambda>i n. 0 \<le> sint sz \<and> n < 2 ^ 63"
  "am_SI (nat (sint sz))" am_LI am_length
  for sz maxlen and hasher :: "'k::zero \<Rightarrow> 32 word"
  by unfold_locales (rule local_bounded_map_spec | rule am_counts, assumption | simp)+

lemmas hashtable_arraymap_defs = hashtable_arraymap_start_def hashtable_arraymap_exec_def hashtable_arraymap_init_def
  hashtable_arraymap_length_def

section \<open>A concrete run\<close>

text \<open>Two buckets of one slot: 5 goes to bucket 1, then 7 does not fit there while bucket 0 is empty.\<close>

definition hashtable_arraymap_demo :: "(64 word, int) map_op command list" where
  "hashtable_arraymap_demo = [Do_Call 0 (Insert 5 50),
     Do_Step 0 0, Do_Step 0 0, Do_Step 0 0, Do_Step 0 0, Do_Step 0 0, Do_Step 0 0, Do_Step 0 0, Do_Step 0 0, Do_Step 0 0, Do_Step 0 0,
     Do_Return 0, Do_Call 1 (Insert 7 70),
     Do_Step 1 0, Do_Step 1 0, Do_Step 1 0, Do_Step 1 0, Do_Step 1 0, Do_Step 1 0, Do_Step 1 0, Do_Step 1 0, Do_Return 1]"

definition hashtable_arraymap_demo_history :: "((64 word, int) map_op, int map_ret) history" where
  "hashtable_arraymap_demo_history =
     [(0, Call (Insert 5 50)), (0, Return (Ret_Int 1)), (1, Call (Insert 7 70)), (1, Return (Ret_Int 0))]"

lemma arraymap_up2: "[0..<2] = [0, 1::nat]"
  by (simp add: numeral_2_eq_2)

lemma hashtable_arraymap_demo_run:
  "\<exists>s c. run hashtable_arraymap_start (hashtable_arraymap_exec key_hasher) (hashtable_arraymap_init 2 1)
       (length hashtable_arraymap_demo) hashtable_arraymap_demo_history (s, c)
     \<and> hashtable_arraymap_length s = Some 1"
  unfolding hashtable_arraymap_demo_history_def
  by (rule replay_exhibits)
    (simp add: hashtable_arraymap_demo_def hashtable_arraymap_defs ht_start_def ht_init_def ht_addr_def key_hasher_def
      ht_length_def am_start_def amap_init_def am_slot_def am_put_def am_length_def optik_init_def
      optik_is_locked_def OPTIK_LOCKED_def optik_is_same_version_def CAS_val_def arraymap_up2)

section \<open>Properties\<close>

text \<open>C32: every concurrent run of the hash table of array maps on keys other than 0 (which the array takes for an
  empty slot; \<open>am_start\<close> admits no call with it), for a positive number of buckets and of fewer than 2^63
  steps, is linearizable with respect to a map with room for \<^verbatim>\<open>max_bu_length\<close> keys per bucket,
  \<^verbatim>\<open>length()\<close> is the number of keys of the linearized map, and no step indexes outside of the table or of a
  bucket.\<close>

theorem hashtable_arraymap_correct:
  fixes sz maxlen :: "32 word" and hasher :: "'k::zero \<Rightarrow> 32 word"
  assumes "run hashtable_arraymap_start (hashtable_arraymap_exec hasher)
      (hashtable_arraymap_init maxlen sz :: ('k, 'v::zero) hashtable_arraymap) n h (s, c)"
    and "0 < sint maxlen" and "0 \<le> sint sz" and "n < 2 ^ 63"
  shows "linearizable (bounded_table_spec (key_bucket maxlen hasher) (nat (sint sz))) Map.empty h
    \<and> (\<exists>a. linearizes_to (bounded_table_spec (key_bucket maxlen hasher) (nat (sint sz))) Map.empty h a \<and> hashtable_arraymap_length s = Some (int (card (dom a))))
    \<and> (\<forall>u q x. c u = At x \<longrightarrow> hashtable_arraymap_exec hasher u q s x \<noteq> Fault)"
proof -
  note r = assms(1) [unfolded hashtable_arraymap_defs]
  have i: "hashtable_arraymap.table_inb maxlen sz n"
    unfolding hashtable_arraymap.table_inb_def using assms(2-4) by simp
  have spec: "hashtable_arraymap.tspec sz maxlen hasher = bounded_table_spec (key_bucket maxlen hasher) (nat (sint sz))"
    by (simp add: table_spec_bounded hashtable_arraymap.bucket_of_def [abs_def] key_bucket_def [abs_def])
  from hashtable_arraymap.table.linearizable [OF r i] hashtable_arraymap.table.reachable_SI [OF r i]
    hashtable_arraymap.table_length [OF _ i] hashtable_arraymap.table.no_fault [OF r i]
  show ?thesis unfolding hashtable_arraymap_defs spec by blast
qed

theorem hashtable_arraymap_correct_witness:
  "linearizable (bounded_table_spec (key_bucket 2 key_hasher) 1) Map.empty hashtable_arraymap_demo_history"
proof -
  obtain s c where "run hashtable_arraymap_start (hashtable_arraymap_exec key_hasher) (hashtable_arraymap_init 2 1)
       (length hashtable_arraymap_demo) hashtable_arraymap_demo_history (s, c)" using hashtable_arraymap_demo_run by blast
  from hashtable_arraymap_correct [OF this] show ?thesis by (simp add: hashtable_arraymap_demo_def)
qed

end
