(* ===== verification/LinkedList_Optik.thy ===== *)
theory LinkedList_Optik
  imports List_Steps Optik_Integer
begin

text \<open>
  The sorted list with one OPTIK lock per node, \<^verbatim>\<open>src/algorithms/linkedlist_optik.h\<close>, on the nodes of
  \<^verbatim>\<open>src/aux/ll_optik.h\<close>. Traversals take no lock and remember the version of the predecessor (and, in
  \<^verbatim>\<open>remove\<close>, of the node) from before they read its pointer. \<^verbatim>\<open>insert\<close> locks the predecessor at that
  version; \<^verbatim>\<open>remove\<close> locks the predecessor and the node, or gives the first lock back by
  \<^verbatim>\<open>optik_revert\<close>, which restores the version. A removed node stays locked for ever, so that no thread
  can validate against it.
\<close>

section \<open>Nodes\<close>

record ('k, 'v) ll_optik = "('k, 'v) ll_simple" +
  lo_lock :: "64 word"

definition initialize_ll_optik :: "'k \<Rightarrow> 'v \<Rightarrow> ptr \<Rightarrow> ('k, 'v) ll_optik" where
  "initialize_ll_optik k v p = \<lparr>ll_key = k, ll_val = v, ll_next = p, lo_lock = optik_init\<rparr>"

definition allocate_ll_optik :: "'k \<Rightarrow> 'v \<Rightarrow> ptr \<Rightarrow> ('k, 'v) ll_optik" where
  "allocate_ll_optik k v p = \<lparr>ll_key = k, ll_val = v, ll_next = p, lo_lock = optik_init\<rparr>"

definition ll_optik_release :: "('k, 'v) ll_optik store \<Rightarrow> ptr \<Rightarrow>
    (('k, 'v) ll_optik store \<Rightarrow> ('s, 'l, 'r) outcome) \<Rightarrow> ('s, 'l, 'r) outcome" where
  "ll_optik_release m p k = release m p k"

lemmas ll_optik_defs = initialize_ll_optik_def allocate_ll_optik_def ll_optik_release_def

section \<open>The code\<close>

record ('k, 'v) olist =
  ol_head :: ptr
  ol_mem :: "('k, 'v) ll_optik store"

abbreviation ol_cells :: "('k, 'v) olist \<Rightarrow> ptr \<Rightarrow> ('k, 'v) ll_optik option" where
  "ol_cells s \<equiv> cells (ol_mem s)"

definition ol_init :: "'k \<Rightarrow> 'k \<Rightarrow> ptr \<Rightarrow> ptr \<Rightarrow> ('k, 'v::zero) olist" where
  "ol_init kmin kmax h t = \<lparr>ol_head = h,
     ol_mem = put_cell h (initialize_ll_optik kmin 0 t) (put_cell t (initialize_ll_optik kmax 0 NULL) empty_store)\<rparr>"

datatype 'k ol_search_pc =
    OS_Head 'k                  \<comment> \<open>\<^verbatim>\<open>curr = head\<close>\<close>
  | OS_Key 'k ptr               \<comment> \<open>\<^verbatim>\<open>curr->key < key\<close>\<close>
  | OS_Next 'k ptr              \<comment> \<open>\<^verbatim>\<open>curr = curr->next\<close>\<close>
  | OS_Test 'k ptr              \<comment> \<open>\<^verbatim>\<open>curr->key == key\<close>\<close>
  | OS_Val 'k ptr               \<comment> \<open>\<^verbatim>\<open>res = curr->val\<close>\<close>

datatype ('k, 'v) ol_insert_pc =
    OI_Head 'k 'v                               \<comment> \<open>\<^verbatim>\<open>curr = head\<close>\<close>
  | OI_Ver 'k 'v ptr                            \<comment> \<open>\<^verbatim>\<open>curr_ver = curr->lock\<close>\<close>
  | OI_Next 'k 'v "64 word" ptr                 \<comment> \<open>\<^verbatim>\<open>pred = curr; pred_ver = curr_ver; curr = curr->next\<close>\<close>
  | OI_Key 'k 'v "64 word" ptr ptr              \<comment> \<open>\<^verbatim>\<open>curr->key < key\<close>\<close>
  | OI_Test 'k 'v "64 word" ptr ptr             \<comment> \<open>\<^verbatim>\<open>curr->key == key\<close>\<close>
  | OI_Alloc 'k 'v "64 word" ptr ptr            \<comment> \<open>allocate \<^verbatim>\<open>newnode\<close> with next \<^verbatim>\<open>curr\<close>\<close>
  | OI_Try 'k 'v "64 word" ptr ptr optik_try_pc \<comment> \<open>\<^verbatim>\<open>optik_trylock_version(&pred->lock, pred_ver)\<close>\<close>
  | OI_Free 'k 'v ptr                           \<comment> \<open>release \<^verbatim>\<open>newnode\<close>, restart\<close>
  | OI_Link 'k 'v ptr ptr                       \<comment> \<open>\<^verbatim>\<open>pred->next = newnode\<close>\<close>
  | OI_Unlock ptr optik_unlock_pc               \<comment> \<open>\<^verbatim>\<open>optik_unlock(&pred->lock)\<close>\<close>

datatype ('k, 'v) ol_remove_pc =
    OR_Head 'k                                          \<comment> \<open>\<^verbatim>\<open>curr = head\<close>\<close>
  | OR_Ver0 'k ptr                                      \<comment> \<open>\<^verbatim>\<open>curr_ver = curr->lock\<close>, before the loop\<close>
  | OR_Next 'k "64 word" ptr                            \<comment> \<open>\<^verbatim>\<open>pred = curr; pred_ver = curr_ver; curr = curr->next\<close>\<close>
  | OR_Ver 'k "64 word" ptr ptr                         \<comment> \<open>\<^verbatim>\<open>curr_ver = curr->lock\<close>\<close>
  | OR_Key 'k "64 word" ptr "64 word" ptr               \<comment> \<open>\<^verbatim>\<open>curr->key < key\<close>\<close>
  | OR_Test 'k "64 word" ptr "64 word" ptr              \<comment> \<open>\<^verbatim>\<open>curr->key != key\<close>\<close>
  | OR_CNext 'k "64 word" ptr "64 word" ptr             \<comment> \<open>\<^verbatim>\<open>cnxt = curr->next\<close>\<close>
  | OR_Try1 'k "64 word" ptr "64 word" ptr ptr optik_try_pc  \<comment> \<open>\<^verbatim>\<open>optik_trylock_version(&pred->lock, pred_ver)\<close>\<close>
  | OR_Try2 'k ptr "64 word" ptr ptr optik_try_pc       \<comment> \<open>\<^verbatim>\<open>optik_trylock_version(&curr->lock, curr_ver)\<close>\<close>
  | OR_Revert 'k ptr                                    \<comment> \<open>\<^verbatim>\<open>optik_revert(&pred->lock)\<close>\<close>
  | OR_Unlink 'k ptr ptr ptr                            \<comment> \<open>\<^verbatim>\<open>pred->next = cnxt\<close>\<close>
  | OR_Unlock ptr ptr optik_unlock_pc                   \<comment> \<open>\<^verbatim>\<open>optik_unlock(&pred->lock)\<close>\<close>
  | OR_Val ptr                                          \<comment> \<open>\<^verbatim>\<open>result = curr->val\<close>\<close>
  | OR_Free ptr 'v                                      \<comment> \<open>release \<^verbatim>\<open>curr\<close>, return\<close>

datatype ('k, 'v) ol_pc = OSearch "'k ol_search_pc" | OInsert "('k, 'v) ol_insert_pc" | ORemove "('k, 'v) ol_remove_pc"

type_synonym ('k, 'v) ol_outcome = "(('k, 'v) olist, ('k, 'v) ol_pc, 'v map_ret) outcome"

text \<open>A step of an operation on the lock word of a node.\<close>

definition on_node :: "('k, 'v) olist \<Rightarrow> ptr \<Rightarrow> (64 word \<Rightarrow> (64 word, 'p, 'q) outcome) \<Rightarrow> (('k, 'v) olist, 'p, 'q) outcome" where
  "on_node s p f = deref (ol_cells s) p (\<lambda>n. case f (lo_lock n) of
     Next l y \<Rightarrow> Next (s\<lparr>ol_mem := put_cell p (n\<lparr>lo_lock := l\<rparr>) (ol_mem s)\<rparr>) y
   | Blocked \<Rightarrow> Blocked
   | Fault \<Rightarrow> Fault)"

fun ol_search :: "('k::linorder, 'v::zero) olist \<Rightarrow> 'k ol_search_pc \<Rightarrow> ('k, 'v) ol_outcome" where
  "ol_search s (OS_Head k) = Next s (At (OSearch (OS_Key k (ol_head s))))"
| "ol_search s (OS_Key k cur) =
     deref (ol_cells s) cur (\<lambda>n. Next s (At (OSearch (if ll_key n < k then OS_Next k cur else OS_Test k cur))))"
| "ol_search s (OS_Next k cur) = deref (ol_cells s) cur (\<lambda>n. Next s (At (OSearch (OS_Key k (ll_next n)))))"
| "ol_search s (OS_Test k cur) =
     deref (ol_cells s) cur (\<lambda>n. Next s (if ll_key n = k then At (OSearch (OS_Val k cur)) else Finished (Ret_Val 0)))"
| "ol_search s (OS_Val k cur) = deref (ol_cells s) cur (\<lambda>n. Next s (Finished (Ret_Val (ll_val n))))"

fun ol_insert :: "ptr \<Rightarrow> ('k::linorder, 'v::zero) olist \<Rightarrow> ('k, 'v) ol_insert_pc \<Rightarrow> ('k, 'v) ol_outcome" where
  "ol_insert p s (OI_Head k v) = Next s (At (OInsert (OI_Ver k v (ol_head s))))"
| "ol_insert p s (OI_Ver k v cur) =
     deref (ol_cells s) cur (\<lambda>n. Next s (At (OInsert (OI_Next k v (lo_lock n) cur))))"
| "ol_insert p s (OI_Next k v ver cur) =
     deref (ol_cells s) cur (\<lambda>n. Next s (At (OInsert (OI_Key k v ver cur (ll_next n)))))"
| "ol_insert p s (OI_Key k v ver pred cur) =
     deref (ol_cells s) cur (\<lambda>n.
       Next s (At (OInsert (if ll_key n < k then OI_Ver k v cur else OI_Test k v ver pred cur))))"
| "ol_insert p s (OI_Test k v ver pred cur) =
     deref (ol_cells s) cur (\<lambda>n.
       Next s (if ll_key n = k then Finished (Ret_Int 0) else At (OInsert (OI_Alloc k v ver pred cur))))"
| "ol_insert p s (OI_Alloc k v ver pred cur) =
     alloc (ol_cells s) p
       (Next (s\<lparr>ol_mem := put_cell p (allocate_ll_optik k v cur) (ol_mem s)\<rparr>)
          (At (OInsert (OI_Try k v ver p pred Try_Check))))"
| "ol_insert p s (OI_Try k v ver newnode pred pc) =
     within (\<lambda>pc. OInsert (OI_Try k v ver newnode pred pc))
       (\<lambda>ok. At (OInsert (if ok then OI_Link k v newnode pred else OI_Free k v newnode)))
       (on_node s pred (\<lambda>l. optik_trylock_version ver l pc))"
| "ol_insert p s (OI_Free k v newnode) =
     ll_optik_release (ol_mem s) newnode (\<lambda>m. Next (s\<lparr>ol_mem := m\<rparr>) (At (OInsert (OI_Head k v))))"
| "ol_insert p s (OI_Link k v newnode pred) =
     deref (ol_cells s) pred (\<lambda>n.
       Next (s\<lparr>ol_mem := put_cell pred (n\<lparr>ll_next := newnode\<rparr>) (ol_mem s)\<rparr>) (At (OInsert (OI_Unlock pred Unlock_Read))))"
| "ol_insert p s (OI_Unlock pred pc) =
     within (\<lambda>pc. OInsert (OI_Unlock pred pc)) (\<lambda>_. Finished (Ret_Int 1)) (on_node s pred (\<lambda>l. optik_unlock l pc))"

fun ol_remove :: "('k::linorder, 'v::zero) olist \<Rightarrow> ('k, 'v) ol_remove_pc \<Rightarrow> ('k, 'v) ol_outcome" where
  "ol_remove s (OR_Head k) = Next s (At (ORemove (OR_Ver0 k (ol_head s))))"
| "ol_remove s (OR_Ver0 k cur) = deref (ol_cells s) cur (\<lambda>n. Next s (At (ORemove (OR_Next k (lo_lock n) cur))))"
| "ol_remove s (OR_Next k ver cur) =
     deref (ol_cells s) cur (\<lambda>n. Next s (At (ORemove (OR_Ver k ver cur (ll_next n)))))"
| "ol_remove s (OR_Ver k ver pred cur) =
     deref (ol_cells s) cur (\<lambda>n. Next s (At (ORemove (OR_Key k ver pred (lo_lock n) cur))))"
| "ol_remove s (OR_Key k ver pred cver cur) =
     deref (ol_cells s) cur (\<lambda>n.
       Next s (At (ORemove (if ll_key n < k then OR_Next k cver cur else OR_Test k ver pred cver cur))))"
| "ol_remove s (OR_Test k ver pred cver cur) =
     deref (ol_cells s) cur (\<lambda>n.
       Next s (if ll_key n \<noteq> k then Finished (Ret_Val 0) else At (ORemove (OR_CNext k ver pred cver cur))))"
| "ol_remove s (OR_CNext k ver pred cver cur) =
     deref (ol_cells s) cur (\<lambda>n. Next s (At (ORemove (OR_Try1 k ver pred cver cur (ll_next n) Try_Check))))"
| "ol_remove s (OR_Try1 k ver pred cver cur cnxt pc) =
     within (\<lambda>pc. ORemove (OR_Try1 k ver pred cver cur cnxt pc))
       (\<lambda>ok. At (ORemove (if ok then OR_Try2 k pred cver cur cnxt Try_Check else OR_Head k)))
       (on_node s pred (\<lambda>l. optik_trylock_version ver l pc))"
| "ol_remove s (OR_Try2 k pred cver cur cnxt pc) =
     within (\<lambda>pc. ORemove (OR_Try2 k pred cver cur cnxt pc))
       (\<lambda>ok. At (ORemove (if ok then OR_Unlink k pred cur cnxt else OR_Revert k pred)))
       (on_node s cur (\<lambda>l. optik_trylock_version cver l pc))"
| "ol_remove s (OR_Revert k pred) =
     deref (ol_cells s) pred (\<lambda>n.
       Next (s\<lparr>ol_mem := put_cell pred (n\<lparr>lo_lock := optik_revert (lo_lock n)\<rparr>) (ol_mem s)\<rparr>) (At (ORemove (OR_Head k))))"
| "ol_remove s (OR_Unlink k pred cur cnxt) =
     deref (ol_cells s) pred (\<lambda>n.
       Next (s\<lparr>ol_mem := put_cell pred (n\<lparr>ll_next := cnxt\<rparr>) (ol_mem s)\<rparr>) (At (ORemove (OR_Unlock pred cur Unlock_Read))))"
| "ol_remove s (OR_Unlock pred cur pc) =
     within (\<lambda>pc. ORemove (OR_Unlock pred cur pc)) (\<lambda>_. At (ORemove (OR_Val cur))) (on_node s pred (\<lambda>l. optik_unlock l pc))"
| "ol_remove s (OR_Val cur) = deref (ol_cells s) cur (\<lambda>n. Next s (At (ORemove (OR_Free cur (ll_val n)))))"
| "ol_remove s (OR_Free cur result) =
     ll_optik_release (ol_mem s) cur (\<lambda>m. Next (s\<lparr>ol_mem := m\<rparr>) (Finished (Ret_Val result)))"

definition ol_length :: "('k, 'v) olist \<Rightarrow> int option" where
  "ol_length s = ll_length (ol_cells s) (ol_head s)"

definition ol_destroy :: "bool \<Rightarrow> ptr set \<Rightarrow> ('k, 'v) olist \<Rightarrow> ('k, 'v) ll_optik store option" where
  "ol_destroy gc heap s = ll_destroy_loop (ll_simple_delete gc heap) (ol_mem s) (ol_head s)"

fun ol_entry :: "('k, 'v) map_op \<Rightarrow> ('k, 'v) ol_pc" where
  "ol_entry (Search k) = OSearch (OS_Head k)"
| "ol_entry (Insert k v) = OInsert (OI_Head k v)"
| "ol_entry (Delete k) = ORemove (OR_Head k)"

definition ol_start :: "'k::linorder \<Rightarrow> 'k \<Rightarrow> ('k, 'v) map_op \<Rightarrow> ('k, 'v) ol_pc option" where
  "ol_start kmin kmax op = (if kmin < op_key op \<and> op_key op < kmax then Some (ol_entry op) else None)"

fun ol_exec :: "tid \<Rightarrow> ptr \<Rightarrow> ('k::linorder, 'v::zero) olist \<Rightarrow> ('k, 'v) ol_pc \<Rightarrow> ('k, 'v) ol_outcome" where
  "ol_exec t p s (OSearch x) = ol_search s x"
| "ol_exec t p s (OInsert x) = ol_insert p s x"
| "ol_exec t p s (ORemove x) = ol_remove s x"

section \<open>The invariant\<close>

text \<open>What a thread claims of the lock of a node: it holds it; it holds it and has not changed the node, so
  that it may still give it back with the old version.\<close>

datatype claim = Locked ptr | Clean ptr

fun ol_own :: "(('k, 'v) ol_pc, 'v map_ret) control \<Rightarrow> claim ownership" where
  "ol_own (At (OInsert (OI_Try k v ver x p pc))) = holding {x} {} {}"
| "ol_own (At (OInsert (OI_Free k v x))) = holding {x} {} {}"
| "ol_own (At (OInsert (OI_Link k v x p))) = holding {x} {} {Locked p}"
| "ol_own (At (OInsert (OI_Unlock p pc))) = holding {} {} {Locked p}"
| "ol_own (At (ORemove (OR_Try2 k p cver c d pc))) = holding {} {} {Locked p, Clean p}"
| "ol_own (At (ORemove (OR_Revert k p))) = holding {} {} {Locked p, Clean p}"
| "ol_own (At (ORemove (OR_Unlink k p c d))) = holding {} {} {Locked p, Locked c}"
| "ol_own (At (ORemove (OR_Unlock p c pc))) = holding {} {c} {Locked p}"
| "ol_own (At (ORemove (OR_Val c))) = holding {} {c} {}"
| "ol_own (At (ORemove (OR_Free c v))) = holding {} {c} {}"
| "ol_own _ = none_owned"

abbreviation ol_live :: "('k, 'v) olist \<Rightarrow> ptr set" where
  "ol_live s \<equiv> ll_live (ol_mem s) (ol_head s)"

abbreviation ol_nodes :: "('k, 'v) olist \<Rightarrow> ptr set" where
  "ol_nodes s \<equiv> nodes_from (ol_cells s) ll_next (ol_head s)"

definition ol_lock :: "('k, 'v) olist \<Rightarrow> ptr \<Rightarrow> 64 word" where
  "ol_lock s p = (case ol_cells s p of None \<Rightarrow> 0 | Some n \<Rightarrow> lo_lock n)"

lemma ol_lock_Some [simp]: "ol_cells s p = Some n \<Longrightarrow> ol_lock s p = lo_lock n"
  by (simp add: ol_lock_def)

text \<open>A node that can be met: it is in the list, or it was removed and is locked for ever.\<close>

definition ol_good :: "('k, 'v) olist \<Rightarrow> (tid \<Rightarrow> claim ownership) \<Rightarrow> ptr \<Rightarrow> bool" where
  "ol_good s w p \<longleftrightarrow> published (ol_mem s) w p \<and> (p \<in> ol_nodes s \<or> optik_is_locked (ol_lock s p))"

definition ol_claims :: "('k, 'v) olist \<Rightarrow> (tid \<Rightarrow> claim ownership) \<Rightarrow> bool" where
  "ol_claims s w \<longleftrightarrow> (\<forall>t p. Locked p \<in> held (w t) \<longrightarrow> p \<in> ol_nodes s \<and> optik_is_locked (ol_lock s p)) \<and>
     (\<forall>t u p. Locked p \<in> held (w t) \<longrightarrow> Locked p \<in> held (w u) \<longrightarrow> t = u) \<and>
     (\<forall>t p. Clean p \<in> held (w t) \<longrightarrow> Locked p \<in> held (w t))"

definition ol_SI :: "'k::linorder \<Rightarrow> 'k \<Rightarrow> nat \<Rightarrow> ('k, 'v) olist \<Rightarrow> ('k \<rightharpoonup> 'v) \<Rightarrow> (tid \<Rightarrow> claim ownership) \<Rightarrow> bool" where
  "ol_SI kmin kmax n s a w \<longleftrightarrow> slist kmin kmax (ol_mem s) w (ol_head s) (ol_live s) a \<and>
     (\<forall>p. unat (ol_lock s p) \<le> n) \<and> ol_claims s w \<and>
     (\<forall>p q. ol_good s w p \<longrightarrow> nm_of (ol_cells s) p = Some q \<longrightarrow> q \<noteq> NULL \<longrightarrow> ol_good s w q)"

abbreviation ol_at :: "('k, 'v::zero) olist \<Rightarrow> (tid \<Rightarrow> claim ownership) \<Rightarrow> ('k, 'v) map_op \<Rightarrow>
    (('k, 'v) map_op, 'v map_ret) ghost \<Rightarrow> ptr \<Rightarrow> bool" where
  "ol_at s w op g c \<equiv> list_at (ol_mem s) w (ol_live s) op g c"

abbreviation ol_node :: "('k, 'v) olist \<Rightarrow> (tid \<Rightarrow> claim ownership) \<Rightarrow> ptr \<Rightarrow> ('k \<Rightarrow> bool) \<Rightarrow> bool" where
  "ol_node s w p P \<equiv> list_node (ol_mem s) w p P"

text \<open>\<open>p\<close> is in the list and (in \<open>ol_adj\<close>) points to \<open>c\<close>; what holds of \<open>p\<close> if its version is still \<open>ver\<close>, or
  is held by a thread that may yet restore it.\<close>

abbreviation ol_in :: "('k, 'v) olist \<Rightarrow> ptr \<Rightarrow> bool" where
  "ol_in s p \<equiv> p \<in> ol_nodes s"

definition ol_adj :: "('k, 'v) olist \<Rightarrow> ptr \<Rightarrow> ptr \<Rightarrow> bool" where
  "ol_adj s p c \<longleftrightarrow> p \<in> ol_nodes s \<and> nm_of (ol_cells s) p = Some c"

definition at_version :: "('k, 'v) olist \<Rightarrow> (tid \<Rightarrow> claim ownership) \<Rightarrow> ptr \<Rightarrow> 64 word \<Rightarrow> bool" where
  "at_version s w p ver \<longleftrightarrow> ol_lock s p = ver \<or> ol_lock s p = ver + 1 \<and> (\<exists>u. Clean p \<in> held (w u))"

definition ol_snap :: "('k, 'v) olist \<Rightarrow> (tid \<Rightarrow> claim ownership) \<Rightarrow> ptr \<Rightarrow> 64 word \<Rightarrow> bool \<Rightarrow> bool" where
  "ol_snap s w p ver P \<longleftrightarrow> published (ol_mem s) w p \<and> unat ver div 2 \<le> unat (ol_lock s p) div 2 \<and>
     (\<not> optik_is_locked ver \<longrightarrow> at_version s w p ver \<longrightarrow> P)"

text \<open>The new node of an insertion, to be linked before a node with a larger key.\<close>

definition ol_new :: "('k::linorder, 'v) olist \<Rightarrow> (tid \<Rightarrow> claim ownership) \<Rightarrow> 'k \<Rightarrow> 'v \<Rightarrow> ptr \<Rightarrow> (ptr \<Rightarrow> bool) \<Rightarrow> bool" where
  "ol_new s w k v x P \<longleftrightarrow>
     (\<exists>c. ol_cells s x = Some (allocate_ll_optik k v c) \<and> ol_node s w c (\<lambda>x. k < x) \<and> P c)"

lemma ol_new_mono: "ol_new s w k v x P \<Longrightarrow> (\<And>c. P c \<Longrightarrow> Q c) \<Longrightarrow> ol_new s w k v x Q"
  unfolding ol_new_def by blast

fun ol_LI :: "'k::linorder \<Rightarrow> 'k \<Rightarrow> tid \<Rightarrow> ('k, 'v::zero) olist \<Rightarrow> ('k \<rightharpoonup> 'v) \<Rightarrow> (tid \<Rightarrow> claim ownership) \<Rightarrow>
    (('k, 'v) ol_pc, 'v map_ret) control \<Rightarrow> (('k, 'v) map_op, 'v map_ret) ghost \<Rightarrow> bool" where
  "ol_LI kmin kmax t s a w Idle g = (g = Quiet)"
| "ol_LI kmin kmax t s a w (Finished r) g = returns g r"
| "ol_LI kmin kmax t s a w (At (OSearch (OS_Head k))) g = list_op kmin kmax (Search k) g"
| "ol_LI kmin kmax t s a w (At (OSearch (OS_Key k c))) g = (list_op kmin kmax (Search k) g \<and> ol_at s w (Search k) g c)"
| "ol_LI kmin kmax t s a w (At (OSearch (OS_Next k c))) g =
     (list_op kmin kmax (Search k) g \<and> ol_at s w (Search k) g c \<and> ol_node s w c (\<lambda>x. x < k))"
| "ol_LI kmin kmax t s a w (At (OSearch (OS_Test k c))) g =
     (list_op kmin kmax (Search k) g \<and> ol_at s w (Search k) g c \<and> ol_node s w c (\<lambda>x. k \<le> x))"
| "ol_LI kmin kmax t s a w (At (OSearch (OS_Val k c))) g =
     (list_op kmin kmax (Search k) g \<and> ol_at s w (Search k) g c \<and> ol_node s w c (\<lambda>x. x = k))"
| "ol_LI kmin kmax t s a w (At (OInsert (OI_Head k v))) g = list_op kmin kmax (Insert k v) g"
| "ol_LI kmin kmax t s a w (At (OInsert (OI_Ver k v c))) g =
     (list_op kmin kmax (Insert k v) g \<and> ol_at s w (Insert k v) g c \<and> ol_node s w c (\<lambda>x. x < k) \<and> ol_good s w c)"
| "ol_LI kmin kmax t s a w (At (OInsert (OI_Next k v ver c))) g =
     (list_op kmin kmax (Insert k v) g \<and> ol_at s w (Insert k v) g c \<and> ol_node s w c (\<lambda>x. x < k) \<and> ol_good s w c \<and>
      ol_snap s w c ver (ol_in s c))"
| "ol_LI kmin kmax t s a w (At (OInsert (OI_Key k v ver p c))) g =
     (list_op kmin kmax (Insert k v) g \<and> ol_at s w (Insert k v) g c \<and> ol_good s w c \<and> ol_node s w p (\<lambda>x. x < k) \<and>
      ol_snap s w p ver (ol_adj s p c))"
| "ol_LI kmin kmax t s a w (At (OInsert (OI_Test k v ver p c))) g =
     (list_op kmin kmax (Insert k v) g \<and> ol_at s w (Insert k v) g c \<and> ol_node s w p (\<lambda>x. x < k) \<and>
      ol_snap s w p ver (ol_adj s p c) \<and> ol_node s w c (\<lambda>x. k \<le> x))"
| "ol_LI kmin kmax t s a w (At (OInsert (OI_Alloc k v ver p c))) g =
     (list_op kmin kmax (Insert k v) g \<and> ol_node s w p (\<lambda>x. x < k) \<and> ol_snap s w p ver (ol_adj s p c) \<and> ol_node s w c (\<lambda>x. k < x))"
| "ol_LI kmin kmax t s a w (At (OInsert (OI_Try k v ver x p pc))) g =
     (list_op kmin kmax (Insert k v) g \<and> ol_node s w p (\<lambda>x. x < k) \<and> ol_new s w k v x (\<lambda>c. ol_snap s w p ver (ol_adj s p c)) \<and>
      (pc = Try_CAS \<longrightarrow> \<not> optik_is_locked ver))"
| "ol_LI kmin kmax t s a w (At (OInsert (OI_Free k v x))) g =
     (list_op kmin kmax (Insert k v) g \<and> ol_new s w k v x (\<lambda>_. True))"
| "ol_LI kmin kmax t s a w (At (OInsert (OI_Link k v x p))) g =
     (list_op kmin kmax (Insert k v) g \<and> ol_node s w p (\<lambda>x. x < k) \<and> ol_new s w k v x (ol_adj s p))"
| "ol_LI kmin kmax t s a w (At (OInsert (OI_Unlock p pc))) g =
     (g = Closed (Ret_Int 1) \<and> (\<forall>x. pc = Unlock_Write x \<longrightarrow> x = ol_lock s p))"
| "ol_LI kmin kmax t s a w (At (ORemove (OR_Head k))) g = list_op kmin kmax (Delete k) g"
| "ol_LI kmin kmax t s a w (At (ORemove (OR_Ver0 k c))) g =
     (list_op kmin kmax (Delete k) g \<and> ol_at s w (Delete k) g c \<and> ol_node s w c (\<lambda>x. x < k) \<and> ol_good s w c)"
| "ol_LI kmin kmax t s a w (At (ORemove (OR_Next k ver c))) g =
     (list_op kmin kmax (Delete k) g \<and> ol_at s w (Delete k) g c \<and> ol_node s w c (\<lambda>x. x < k) \<and> ol_good s w c \<and>
      ol_snap s w c ver (ol_in s c))"
| "ol_LI kmin kmax t s a w (At (ORemove (OR_Ver k ver p c))) g =
     (list_op kmin kmax (Delete k) g \<and> ol_at s w (Delete k) g c \<and> ol_good s w c \<and> ol_node s w p (\<lambda>x. x < k) \<and>
      ol_snap s w p ver (ol_adj s p c))"
| "ol_LI kmin kmax t s a w (At (ORemove (OR_Key k ver p cver c))) g =
     (list_op kmin kmax (Delete k) g \<and> ol_at s w (Delete k) g c \<and> ol_good s w c \<and> ol_node s w p (\<lambda>x. x < k) \<and>
      ol_snap s w p ver (ol_adj s p c) \<and> ol_snap s w c cver (ol_in s c))"
| "ol_LI kmin kmax t s a w (At (ORemove (OR_Test k ver p cver c))) g =
     (list_op kmin kmax (Delete k) g \<and> ol_at s w (Delete k) g c \<and> ol_node s w p (\<lambda>x. x < k) \<and>
      ol_snap s w p ver (ol_adj s p c) \<and> ol_snap s w c cver (ol_in s c) \<and> ol_node s w c (\<lambda>x. k \<le> x))"
| "ol_LI kmin kmax t s a w (At (ORemove (OR_CNext k ver p cver c))) g =
     (list_op kmin kmax (Delete k) g \<and> ol_node s w p (\<lambda>x. x < k) \<and>
      ol_snap s w p ver (ol_adj s p c) \<and> ol_snap s w c cver (ol_in s c) \<and> ol_node s w c (\<lambda>x. x = k))"
| "ol_LI kmin kmax t s a w (At (ORemove (OR_Try1 k ver p cver c d pc))) g =
     (list_op kmin kmax (Delete k) g \<and> ol_node s w p (\<lambda>x. x < k) \<and> ol_snap s w p ver (ol_adj s p c) \<and>
      ol_snap s w c cver (ol_adj s c d) \<and> ol_node s w c (\<lambda>x. x = k) \<and> (pc = Try_CAS \<longrightarrow> \<not> optik_is_locked ver))"
| "ol_LI kmin kmax t s a w (At (ORemove (OR_Try2 k p cver c d pc))) g =
     (list_op kmin kmax (Delete k) g \<and> ol_node s w p (\<lambda>x. x < k) \<and> ol_adj s p c \<and>
      ol_snap s w c cver (ol_adj s c d) \<and> ol_node s w c (\<lambda>x. x = k) \<and> (pc = Try_CAS \<longrightarrow> \<not> optik_is_locked cver))"
| "ol_LI kmin kmax t s a w (At (ORemove (OR_Revert k p))) g = list_op kmin kmax (Delete k) g"
| "ol_LI kmin kmax t s a w (At (ORemove (OR_Unlink k p c d))) g =
     (list_op kmin kmax (Delete k) g \<and> ol_node s w p (\<lambda>x. x < k) \<and> ol_adj s p c \<and> ol_adj s c d \<and> ol_node s w c (\<lambda>x. x = k))"
| "ol_LI kmin kmax t s a w (At (ORemove (OR_Unlock p c pc))) g =
     (list_result (ol_mem s) w c g \<and> (\<forall>x. pc = Unlock_Write x \<longrightarrow> x = ol_lock s p))"
| "ol_LI kmin kmax t s a w (At (ORemove (OR_Val c))) g = list_result (ol_mem s) w c g"
| "ol_LI kmin kmax t s a w (At (ORemove (OR_Free c v))) g = (g = Closed (Ret_Val v))"

lemma ol_SI_mono: "ol_SI kmin kmax n s a w \<Longrightarrow> ol_SI kmin kmax (Suc n) s a w"
  using le_SucI unfolding ol_SI_def by blast


section \<open>Interference\<close>

text \<open>What a step of \<open>t\<close> does to a published node: it changes the pointer of the node, or takes it out of
  the list, only under its lock and for good; and it moves the lock word only by taking the lock, by
  releasing it, or by restoring the version of a node it has not changed.\<close>

definition node_effect :: "tid \<Rightarrow> ('k, 'v) olist \<Rightarrow> (tid \<Rightarrow> claim ownership) \<Rightarrow> ('k, 'v) olist \<Rightarrow>
    (tid \<Rightarrow> claim ownership) \<Rightarrow> ptr \<Rightarrow> bool" where
  "node_effect t s w s' w' p \<longleftrightarrow>
     (nm_of (ol_cells s') p = nm_of (ol_cells s) p \<and> (ol_in s p \<longrightarrow> ol_in s' p) \<or>
      Locked p \<in> held (w t) \<and> Clean p \<notin> held (w t) \<and> ol_lock s' p = ol_lock s p) \<and>
     (ol_lock s' p = ol_lock s p \<and> (Clean p \<in> held (w' t) \<longrightarrow> Clean p \<in> held (w t)) \<or>
      \<not> optik_is_locked (ol_lock s p) \<and> ol_lock s' p = ol_lock s p + 1 \<or>
      Locked p \<in> held (w t) \<and> unat (ol_lock s' p) = Suc (unat (ol_lock s p)) \<or>
      Clean p \<in> held (w t) \<and> ol_lock s' p = ol_lock s p - 1)"

definition ol_effect :: "tid \<Rightarrow> ('k::linorder, 'v::zero) olist \<Rightarrow> ('k \<rightharpoonup> 'v) \<Rightarrow> (tid \<Rightarrow> claim ownership) \<Rightarrow>
    ('k, 'v) olist \<Rightarrow> ('k \<rightharpoonup> 'v) \<Rightarrow> (tid \<Rightarrow> claim ownership) \<Rightarrow> bool" where
  "ol_effect t s a w s' a' w' \<longleftrightarrow>
     list_effect t (ol_mem s) w (ol_live s) a (ol_mem s') w' (ol_live s') a' \<and>
     (\<forall>p. published (ol_mem s) w p \<longrightarrow> node_effect t s w s' w' p \<and> (ol_good s w p \<longrightarrow> ol_good s' w' p)) \<and>
     (\<forall>u. u \<noteq> t \<longrightarrow> w' u = w u)"

lemma ol_claimsD:
  assumes "ol_claims s w"
  shows "Locked p \<in> held (w t) \<Longrightarrow> ol_in s p" and "Locked p \<in> held (w t) \<Longrightarrow> optik_is_locked (ol_lock s p)"
    and "Locked p \<in> held (w t) \<Longrightarrow> u \<noteq> t \<Longrightarrow> Locked p \<notin> held (w u)"
    and "Clean p \<in> held (w t) \<Longrightarrow> Locked p \<in> held (w t)"
  using assms unfolding ol_claims_def by blast+

text \<open>The lock word after a step, as a number.\<close>

lemma node_effect_lock:
  assumes cl: "ol_claims s w" and eff: "node_effect t s w s' w' p"
  shows "unat (ol_lock s' p) = unat (ol_lock s p) \<and> (Clean p \<in> held (w' t) \<longrightarrow> Clean p \<in> held (w t)) \<or>
    even (unat (ol_lock s p)) \<and> unat (ol_lock s' p) = Suc (unat (ol_lock s p)) \<or>
    odd (unat (ol_lock s p)) \<and> unat (ol_lock s' p) = Suc (unat (ol_lock s p)) \<and> Locked p \<in> held (w t) \<or>
    odd (unat (ol_lock s p)) \<and> Suc (unat (ol_lock s' p)) = unat (ol_lock s p) \<and> Clean p \<in> held (w t)"
proof -
  let ?l = "ol_lock s p"
  have odd: "odd (unat ?l)" if "Locked p \<in> held (w t)" using ol_claimsD(2) [OF cl that] by (simp add: optik_is_locked_odd)
  consider "ol_lock s' p = ?l" "Clean p \<in> held (w' t) \<longrightarrow> Clean p \<in> held (w t)"
    | "\<not> optik_is_locked ?l" "ol_lock s' p = ?l + 1"
    | "Locked p \<in> held (w t)" "unat (ol_lock s' p) = Suc (unat ?l)"
    | "Clean p \<in> held (w t)" "ol_lock s' p = ?l - 1"
    using eff unfolding node_effect_def by blast
  then show ?thesis
  proof cases
    case 2
    then show ?thesis using unat_unlocked_Suc [OF 2(1)] by (simp add: optik_is_locked_odd)
  next
    case 4
    have o: "odd (unat ?l)" by (rule odd [OF ol_claimsD(4) [OF cl 4(1)]])
    then have "?l \<noteq> 0" by auto
    then have "unat (?l - 1) = unat ?l - 1" by (rule unat_minus_one)
    moreover have "unat ?l \<noteq> 0" using o by (intro notI) simp
    ultimately have "Suc (unat (ol_lock s' p)) = unat ?l" using 4(2) by simp
    then show ?thesis using o 4(1) by blast
  qed (use odd in auto)
qed

lemma unat_eq_even_Suc: "\<not> optik_is_locked ver \<Longrightarrow> l = ver + 1 \<longleftrightarrow> unat l = Suc (unat ver)"
  using unat_unlocked_Suc [of ver] by (auto simp: word_unat_eq_iff)

lemma ol_snap_stable:
  assumes cl: "ol_claims s w" and eff: "node_effect t s w s' w' p" and others: "\<And>u. u \<noteq> t \<Longrightarrow> w' u = w u"
    and pub: "published (ol_mem s') w' p" and snap: "ol_snap s w p ver P"
    and mp: "nm_of (ol_cells s') p = nm_of (ol_cells s) p \<Longrightarrow> ol_in s p \<longrightarrow> ol_in s' p \<Longrightarrow> P \<Longrightarrow> Q"
  shows "ol_snap s' w' p ver Q"
proof -
  let ?l = "unat (ol_lock s p)" and ?l' = "unat (ol_lock s' p)" and ?v = "unat ver"
  note lk = node_effect_lock [OF cl eff]
  have le: "?v div 2 \<le> ?l div 2" using snap by (simp add: ol_snap_def)
  have arith: "?l' = ?l \<or> ?l' = Suc ?l \<or> odd ?l \<and> Suc ?l' = ?l" using lk by blast
  have le': "?v div 2 \<le> ?l' div 2" using le arith by presburger
  have Q if ver: "\<not> optik_is_locked ver" and at: "at_version s' w' p ver"
  proof -
    have ev: "even ?v" using ver by (simp add: optik_is_locked_odd)
    have at': "?l' = ?v \<or> ?l' = Suc ?v \<and> (\<exists>u. Clean p \<in> held (w' u))"
      using at unfolding at_version_def unat_eq_even_Suc [OF ver] by (auto simp: word_unat_eq_iff)
    have "(?l = ?v \<or> ?l = Suc ?v \<and> (\<exists>u. Clean p \<in> held (w u))) \<and> (Locked p \<in> held (w t) \<longrightarrow> Clean p \<in> held (w t))"
    proof (cases "?l = ?v")
      case True
      then have "Locked p \<notin> held (w t)" using ol_claimsD(2) [OF cl, of p t] ev by (auto simp: optik_is_locked_odd)
      with True show ?thesis by blast
    next
      case False
      moreover have "?l' = ?v \<or> ?l' = Suc ?v" using at' by blast
      ultimately have "?l = Suc ?v" using arith le ev by presburger
      then have odd: "odd ?l" using ev by simp
      have "Clean p \<in> held (w t) \<or> (\<exists>u. u \<noteq> t \<and> Clean p \<in> held (w u))"
      proof (cases "?l' = ?v")
        case True
        then show ?thesis using lk odd \<open>?l = Suc ?v\<close> by auto
      next
        case False
        then obtain u where u: "?l' = ?l" "Clean p \<in> held (w' u)" using at' \<open>?l = Suc ?v\<close> by auto
        then have "Clean p \<in> held (w' t) \<longrightarrow> Clean p \<in> held (w t)" using lk by simp
        then show ?thesis using u(2) others by (cases "u = t") auto
      qed
      then show ?thesis using \<open>?l = Suc ?v\<close> ol_claimsD(3,4) [OF cl] by blast
    qed
    then have "at_version s w p ver" and c: "Locked p \<in> held (w t) \<longrightarrow> Clean p \<in> held (w t)"
      unfolding at_version_def unat_eq_even_Suc [OF ver] by (auto simp: word_unat_eq_iff)
    then have P using snap ver by (simp add: ol_snap_def)
    then show Q using mp eff c unfolding node_effect_def by blast
  qed
  then show ?thesis using le' pub by (simp add: ol_snap_def)
qed

text \<open>The holder of a lock is not disturbed.\<close>

lemma ol_held_stable:
  assumes cl: "ol_claims s w" and eff: "node_effect t s w s' w' p" and u: "Locked p \<in> held (w u)" "u \<noteq> t"
  shows "nm_of (ol_cells s') p = nm_of (ol_cells s) p" and "ol_in s' p" and "ol_lock s' p = ol_lock s p"
proof -
  have t: "Locked p \<notin> held (w t)" "Clean p \<notin> held (w t)" using ol_claimsD(3,4) [OF cl] u by blast+
  have lk: "optik_is_locked (ol_lock s p)" and inn: "ol_in s p" using ol_claimsD(1,2) [OF cl u(1)] by blast+
  show "nm_of (ol_cells s') p = nm_of (ol_cells s) p" "ol_in s' p" "ol_lock s' p = ol_lock s p"
    using eff t lk inn unfolding node_effect_def by blast+
qed

lemma ol_stable:
  fixes s :: "('k::linorder, 'v::zero) olist"
  assumes SI: "ol_SI kmin kmax n s a w" and eff: "ol_effect t s a w s' a' w'"
    and ut: "u \<noteq> t" and own: "w u = ol_own z" and obs: "observed map_spec a g" and LI: "ol_LI kmin kmax u s a w z g"
  shows "ol_LI kmin kmax u s' a' w' z (observe map_spec a' g)"
proof -
  have le: "list_effect t (ol_mem s) w (ol_live s) a (ol_mem s') w' (ol_live s') a'"
    and ne: "\<And>p. published (ol_mem s) w p \<Longrightarrow> node_effect t s w s' w' p"
    and gd: "\<And>p. ol_good s w p \<Longrightarrow> ol_good s' w' p" and others: "\<And>u. u \<noteq> t \<Longrightarrow> w' u = w u"
    using eff unfolding ol_effect_def ol_good_def by blast+
  have cl: "ol_claims s w" using SI by (simp add: ol_SI_def)
  note op = list_op_stable [of kmin kmax _ g a'] and node = effect_node [OF le] and val = effect_result [OF le]
  have at: "ol_at s' w' op' (observe map_spec a' g) p" if "list_op kmin kmax op' g" "ol_at s w op' g p" for op' p
    using effect_at [OF le obs that] .
  have snap: "ol_snap s' w' p ver Q"
    if "ol_snap s w p ver P" "nm_of (ol_cells s') p = nm_of (ol_cells s) p \<Longrightarrow> ol_in s p \<longrightarrow> ol_in s' p \<Longrightarrow> P \<Longrightarrow> Q" for p ver P Q
  proof -
    have "published (ol_mem s) w p" using that(1) by (simp add: ol_snap_def)
    from ol_snap_stable [OF cl ne [OF this] others effect_published [OF le this] that] show ?thesis .
  qed
  have sin: "ol_snap s' w' p ver (ol_in s' p)" if "ol_snap s w p ver (ol_in s p)" for p ver
    by (rule snap [OF that]) blast
  have sadj: "ol_snap s' w' p ver (ol_adj s' p c)" if "ol_snap s w p ver (ol_adj s p c)" for p ver c
    by (rule snap [OF that]) (simp add: ol_adj_def)
  have hold: "ol_lock s' p = ol_lock s p \<and> (ol_adj s p c \<longrightarrow> ol_adj s' p c)" if "Locked p \<in> held (w u)" for p c
  proof -
    have "published (ol_mem s) w p"
      using SI slist_published ol_claimsD(1) [OF cl that] unfolding ol_SI_def by blast
    from ol_held_stable [OF cl ne [OF this] that ut] show ?thesis by (simp add: ol_adj_def)
  qed
  have new: "ol_new s' w' k v x Q" if "ol_new s w k v x P" "x \<in> private_nodes (w u)" "\<And>c. P c \<Longrightarrow> Q c" for k v x P Q
    using that effect_private [OF le ut that(2)] node unfolding ol_new_def by metis
  note keep = op at node gd sin sadj val
  show ?thesis
  proof (cases z)
    case (At x)
    show ?thesis
    proof (cases x)
      case (OSearch pc)
      show ?thesis using LI own op at node unfolding At OSearch by (cases pc) auto
    next
      case (OInsert pc)
      show ?thesis
      proof (cases pc)
        case (OI_Try k v vr x p tpc)
        then show ?thesis
          using LI own keep new [of k v x "\<lambda>c. ol_snap s w p vr (ol_adj s p c)" "\<lambda>c. ol_snap s' w' p vr (ol_adj s' p c)"]
          unfolding At OInsert by auto
      next
        case (OI_Free k v x)
        then show ?thesis using LI own keep new [of k v x "\<lambda>_. True" "\<lambda>_. True"] unfolding At OInsert by auto
      next
        case (OI_Link k v x p)
        then show ?thesis using LI own keep new [of k v x "ol_adj s p" "ol_adj s' p"] hold [of p]
          unfolding At OInsert by auto
      next
        case (OI_Unlock p upc)
        then show ?thesis using LI own hold [of p] unfolding At OInsert by auto
      qed (use LI keep in \<open>auto simp: At OInsert\<close>)
    next
      case (ORemove pc)
      show ?thesis
      proof (cases pc)
        case (OR_Try2 k p cver c d q)
        then show ?thesis using LI own keep hold [of p c] unfolding At ORemove by auto
      next
        case (OR_Unlink k p c d)
        then show ?thesis using LI own keep hold [of p c] hold [of c d] unfolding At ORemove by auto
      next
        case (OR_Unlock p c upc)
        then show ?thesis using LI own keep hold [of p] unfolding At ORemove by auto
      qed (use LI keep in \<open>auto simp: At ORemove\<close>)
    qed
  qed (use LI in \<open>auto simp: returns_observe\<close>)
qed


section \<open>Kinds of steps\<close>

abbreviation ol_ok :: "'k::linorder \<Rightarrow> 'k \<Rightarrow> nat \<Rightarrow> tid \<Rightarrow> ('k, 'v::zero) olist \<Rightarrow> ('k \<rightharpoonup> 'v) \<Rightarrow> (tid \<Rightarrow> claim ownership) \<Rightarrow>
    (('k, 'v) map_op, 'v map_ret) ghost \<Rightarrow> ('k, 'v) olist \<Rightarrow> (('k, 'v) ol_pc, 'v map_ret) control \<Rightarrow> bool" where
  "ol_ok kmin kmax \<equiv> step_ok map_spec ol_own (ol_SI kmin kmax) (ol_LI kmin kmax)"

lemma ol_step_ok:
  fixes s :: "('k::linorder, 'v::zero) olist"
  assumes adv: "advance map_spec a g a' g'" and SI: "ol_SI kmin kmax n s a w"
    and LI': "ol_LI kmin kmax t s' a' (w(t := ol_own y)) y g'"
    and sl: "slist kmin kmax (ol_mem s') (w(t := ol_own y)) (ol_head s') (ol_live s') a'"
    and le: "list_effect t (ol_mem s) w (ol_live s) a (ol_mem s') (w(t := ol_own y)) (ol_live s') a'"
    and bound: "\<And>p. unat (ol_lock s' p) \<le> Suc n" and cl: "ol_claims s' (w(t := ol_own y))"
    and ne: "\<And>p. published (ol_mem s) w p \<Longrightarrow> node_effect t s w s' (w(t := ol_own y)) p"
    and good: "\<And>p. ol_good s w p \<Longrightarrow> ol_good s' (w(t := ol_own y)) p"
    and closed: "\<And>p q. ol_good s' (w(t := ol_own y)) p \<Longrightarrow> nm_of (ol_cells s') p = Some q \<Longrightarrow> q \<noteq> NULL \<Longrightarrow>
        ol_good s' (w(t := ol_own y)) q"
  shows "ol_ok kmin kmax n t s a w g s' y"
proof (rule step_okI [where own = ol_own and SI = "ol_SI kmin kmax" and LI = "ol_LI kmin kmax", OF adv _ LI'])
  show "ol_SI kmin kmax (Suc n) s' a' (w(t := ol_own y))" using sl bound cl closed unfolding ol_SI_def by blast
  have "ol_effect t s a w s' a' (w(t := ol_own y))" using le ne good unfolding ol_effect_def by simp
  from ol_stable [OF SI this]
  show "\<And>u z gu. u \<noteq> t \<Longrightarrow> w u = ol_own z \<Longrightarrow> observed map_spec a gu \<Longrightarrow> ol_LI kmin kmax u s a w z gu \<Longrightarrow>
      ol_LI kmin kmax u s' a' (w(t := ol_own y)) z (observe map_spec a' gu)" .
qed

lemmas ol_local = step_ok_local [where own = ol_own and SI = "ol_SI kmin kmax" and LI = "ol_LI kmin kmax" for kmin kmax]

lemma ol_SI_D:
  assumes "ol_SI kmin kmax n s a w"
  shows "slist kmin kmax (ol_mem s) w (ol_head s) (ol_live s) a" and "ol_claims s w" and "unat (ol_lock s p) \<le> n"
    and "ol_good s w p \<Longrightarrow> nm_of (ol_cells s) p = Some q \<Longrightarrow> q \<noteq> NULL \<Longrightarrow> ol_good s w q"
  using assms unfolding ol_SI_def by blast+

text \<open>A write of the lock word of a node in the list.\<close>

lemma ol_lock_write:
  assumes SI: "ol_SI kmin kmax n s a w" and inn: "ol_in s p" and nd: "ol_cells s p = Some nd"
    and x: "private_nodes (ol_own y) = private_nodes (w t)" "owned (ol_own y) \<subseteq> owned (w t)"
    and s': "s' = s\<lparr>ol_mem := put_cell p (nd\<lparr>lo_lock := l\<rparr>) (ol_mem s)\<rparr>"
    and l: "\<not> optik_is_locked (lo_lock nd) \<and> l = lo_lock nd + 1 \<or> Locked p \<in> held (w t) \<and> unat l = Suc (unat (lo_lock nd)) \<or>
       Clean p \<in> held (w t) \<and> l = lo_lock nd - 1"
    and bound: "unat l \<le> Suc n" and clean: "\<And>q. q \<noteq> p \<Longrightarrow> Clean q \<in> held (ol_own y) \<Longrightarrow> Clean q \<in> held (w t)"
    and cl: "ol_claims s' (w(t := ol_own y))"
    and LI': "list_effect t (ol_mem s) w (ol_live s) a (ol_mem s') (w(t := ol_own y)) (ol_live s') a \<Longrightarrow>
       ol_nodes s' = ol_nodes s \<Longrightarrow> nm_of (ol_cells s') = nm_of (ol_cells s) \<Longrightarrow>
       (\<And>q. published (ol_mem s) w q \<Longrightarrow> node_effect t s w s' (w(t := ol_own y)) q) \<Longrightarrow>
       ol_LI kmin kmax t s' a (w(t := ol_own y)) y g"
  shows "ol_ok kmin kmax n t s a w g s' y"
proof -
  note si = ol_SI_D [OF SI]
  have pub: "published (ol_mem s) w p" by (rule slist_published [OF si(1) inn])
  note wr = list_write [OF si(1) nd, where n' = "nd\<lparr>lo_lock := l\<rparr>" and t = t and x = "ol_own y"]
  have sl: "slist kmin kmax (ol_mem s') (w(t := ol_own y)) (ol_head s') (ol_live s') a"
    and le: "list_effect t (ol_mem s) w (ol_live s) a (ol_mem s') (w(t := ol_own y)) (ol_live s') a"
    and nodes: "ol_nodes s' = ol_nodes s" and nm: "nm_of (ol_cells s') = nm_of (ol_cells s)"
    using wr x pub by (simp_all add: s')
  have lock: "ol_lock s' q = (if q = p then l else ol_lock s q)" for q by (simp add: ol_lock_def s')
  have published: "published (ol_mem s') (w(t := ol_own y)) q \<longleftrightarrow> published (ol_mem s) w q" for q
    using x(1) nd unfolding published_def by (auto simp: s')
  have good: "ol_good s' (w(t := ol_own y)) q \<longleftrightarrow> ol_good s w q" for q
    using inn pub by (auto simp: ol_good_def published nodes lock)
  have ne: "node_effect t s w s' (w(t := ol_own y)) q" for q
    using l clean nd unfolding node_effect_def by (auto simp: nm nodes lock)
  show ?thesis
  proof (rule ol_step_ok [OF advance_stay SI LI' sl le _ cl ne])
    show "unat (ol_lock s' q) \<le> Suc n" for q using bound si(3) [of q] by (auto simp: lock)
    show "ol_good s' (w(t := ol_own y)) q" if "ol_good s w q" for q using that good by simp
    show "ol_good s' (w(t := ol_own y)) r" if "ol_good s' (w(t := ol_own y)) q" "nm_of (ol_cells s') q = Some r" "r \<noteq> NULL" for q r
      using si(4) [of q r] that by (simp add: good nm)
  qed (use le nodes nm ne in simp_all)
qed

lemma ol_claims_take:
  assumes cl: "ol_claims s w" and inn: "ol_in s p" and free: "\<not> optik_is_locked (ol_lock s p)"
    and nodes: "ol_nodes s' = ol_nodes s" and lock: "\<And>q. ol_lock s' q = (if q = p then ol_lock s p + 1 else ol_lock s q)"
    and x: "\<And>q. Locked q \<in> held x \<longleftrightarrow> q = p \<or> Locked q \<in> held (w t)" "\<And>q. Clean q \<in> held x \<Longrightarrow> Locked q \<in> held x"
  shows "ol_claims s' (w(t := x))"
proof -
  have none: "Locked p \<notin> held (w u)" for u using ol_claimsD(2) [OF cl] free by blast
  show ?thesis
    using cl inn none x optik_locked_Suc [OF free] unfolding ol_claims_def nodes by (auto simp: lock)
qed

lemma ol_claims_give:
  assumes cl: "ol_claims s w" and mine: "Locked p \<in> held (w t)"
    and nodes: "ol_nodes s' = ol_nodes s" and lock: "\<And>q. q \<noteq> p \<Longrightarrow> ol_lock s' q = ol_lock s q"
    and x: "\<And>q. Locked q \<in> held x \<longleftrightarrow> q \<noteq> p \<and> Locked q \<in> held (w t)" "\<And>q. Clean q \<in> held x \<Longrightarrow> Locked q \<in> held x"
  shows "ol_claims s' (w(t := x))"
proof -
  have none: "Locked p \<notin> held (w u)" if "u \<noteq> t" for u using ol_claimsD(3) [OF cl mine that] .
  have lk: "ol_lock s' q = ol_lock s q" if "Locked q \<in> held ((w(t := x)) u)" for q u
    using that none x(1) by (intro lock) (auto split: if_splits)
  show ?thesis
    using cl x lk none unfolding ol_claims_def nodes by (auto split: if_splits)
qed

text \<open>Steps on private and retired nodes.\<close>

lemma ol_aside:
  assumes SI: "ol_SI kmin kmax n s a w" and s': "s' = s\<lparr>ol_mem := m\<rparr>"
    and held: "held (ol_own y) = held (w t)"
    and sl: "slist kmin kmax m (w(t := ol_own y)) (ol_head s) (ol_live s) a"
    and le: "list_effect t (ol_mem s) w (ol_live s) a m (w(t := ol_own y)) (ol_live s) a"
    and nodes: "lnodes m (ol_head s) = ol_nodes s" "ll_live m (ol_head s) = ol_live s"
      "\<And>p. published (ol_mem s) w p \<Longrightarrow> cells m p = ol_cells s p"
    and new: "\<And>p. published m (w(t := ol_own y)) p \<Longrightarrow> \<not> published (ol_mem s) w p \<Longrightarrow>
       p \<notin> ol_nodes s \<and> \<not> optik_is_locked (ol_lock s' p)"
    and lock: "\<And>p. unat (ol_lock s' p) \<le> Suc n"
    and LI': "(\<And>q. published (ol_mem s) w q \<Longrightarrow> node_effect t s w s' (w(t := ol_own y)) q) \<Longrightarrow>
       ol_LI kmin kmax t s' a (w(t := ol_own y)) y g"
  shows "ol_ok kmin kmax n t s a w g s' y"
proof -
  note si = ol_SI_D [OF SI]
  have lk: "ol_lock s' p = ol_lock s p" if "published (ol_mem s) w p" for p
    using nodes(3) [OF that] by (simp add: ol_lock_def s')
  have nm: "nm_of (ol_cells s') p = nm_of (ol_cells s) p" if "published (ol_mem s) w p" for p
    using nodes(3) [OF that] by (simp add: nm_of_def s')
  have ns: "ol_nodes s' = ol_nodes s" using nodes(1) by (simp add: s')
  have good: "ol_good s' (w(t := ol_own y)) q \<longleftrightarrow> ol_good s w q" for q
  proof (cases "published (ol_mem s) w q")
    case True
    then show ?thesis using effect_published [OF le True] lk [OF True] by (simp add: ol_good_def ns) (simp add: s')
  next
    case False
    then show ?thesis using new [of q] by (auto simp: ol_good_def ns) (simp_all add: s')
  qed
  have ne: "node_effect t s w s' (w(t := ol_own y)) q" if "published (ol_mem s) w q" for q
    using nm [OF that] lk [OF that] held by (simp add: node_effect_def ns)
  have hw: "held ((w(t := ol_own y)) u) = held (w u)" for u using held by simp
  show ?thesis
  proof (rule ol_step_ok [OF advance_stay SI LI' _ _ lock _ ne])
    show "slist kmin kmax (ol_mem s') (w(t := ol_own y)) (ol_head s') (ol_live s') a"
      "list_effect t (ol_mem s) w (ol_live s) a (ol_mem s') (w(t := ol_own y)) (ol_live s') a"
      using sl le nodes(2) by (simp_all add: s')
    have "ol_lock s' p = ol_lock s p" if "Locked p \<in> held (w u)" for p u
      using lk slist_published [OF si(1) ol_claimsD(1) [OF si(2) that]] by simp
    then show "ol_claims s' (w(t := ol_own y))" using si(2) unfolding ol_claims_def ns hw by metis
    show "ol_good s' (w(t := ol_own y)) q" if "ol_good s w q" for q using that good by simp
    show "ol_good s' (w(t := ol_own y)) r" if "ol_good s' (w(t := ol_own y)) q" "nm_of (ol_cells s') q = Some r" "r \<noteq> NULL" for q r
      using si(4) [of q r] that nm [of q] good by (simp add: ol_good_def)
  qed (use ne in simp_all)
qed


section \<open>Operations on the lock words\<close>

lemma put_cell_same: "cells m p = Some n \<Longrightarrow> put_cell p n m = m"
  by (simp add: put_cell_def fun_upd_idem)

lemma ol_try_cases:
  assumes ex: "within f k (on_node s p (\<lambda>l. optik_trylock_version ver l pc)) = Next s' y"
    and pc: "pc = Try_CAS \<longrightarrow> \<not> optik_is_locked ver"
  obtains (refuse) "s' = s" "y = k False"
  | (checked) "s' = s" "y = At (f Try_CAS)" "\<not> optik_is_locked ver"
  | (taken) nd where "ol_cells s p = Some nd" "lo_lock nd = ver" "\<not> optik_is_locked ver"
      "s' = s\<lparr>ol_mem := put_cell p (nd\<lparr>lo_lock := lo_lock nd + 1\<rparr>) (ol_mem s)\<rparr>" "y = k True"
proof (cases "ol_cells s p")
  case None
  then show ?thesis using ex by (simp add: on_node_def)
next
  case (Some nd)
  have same: "s\<lparr>ol_mem := put_cell p (nd\<lparr>lo_lock := lo_lock nd\<rparr>) (ol_mem s)\<rparr> = s" by (simp add: put_cell_same Some)
  show ?thesis
  proof (cases pc)
    case Try_Check
    then show ?thesis using ex that(1,2) Some same by (auto simp: on_node_def split: if_splits)
  next
    case Try_CAS
    then show ?thesis using ex pc that(1) that(3) [OF Some] Some same
      by (cases "lo_lock nd = ver") (auto simp: on_node_def)
  qed
qed

lemma ol_unlock_cases:
  assumes ex: "within f k (on_node s p (\<lambda>l. optik_unlock l pc)) = Next s' y"
  obtains (rd) "s' = s" "y = At (f (Unlock_Write (ol_lock s p)))"
  | (wr) x nd where "pc = Unlock_Write x" "ol_cells s p = Some nd"
      "s' = s\<lparr>ol_mem := put_cell p (nd\<lparr>lo_lock := x + 1\<rparr>) (ol_mem s)\<rparr>" "y = k ()"
proof (cases "ol_cells s p")
  case None
  then show ?thesis using ex by (simp add: on_node_def)
next
  case (Some nd)
  have same: "s\<lparr>ol_mem := put_cell p (nd\<lparr>lo_lock := lo_lock nd\<rparr>) (ol_mem s)\<rparr> = s" by (simp add: put_cell_same Some)
  show ?thesis using ex that(1) that(2) [OF _ Some] Some same by (cases pc) (auto simp: on_node_def)
qed

text \<open>Releasing the lock of a node.\<close>

lemma ol_unlock_step:
  assumes inb: "Suc n < 2 ^ 62" and SI: "ol_SI kmin kmax n s a w" and mine: "Locked p \<in> held (w t)" and nd: "ol_cells s p = Some nd"
    and x: "private_nodes (ol_own y) = private_nodes (w t)" "owned (ol_own y) \<subseteq> owned (w t)"
      "\<And>q. Locked q \<in> held (ol_own y) \<longleftrightarrow> q \<noteq> p \<and> Locked q \<in> held (w t)" "\<And>q. Clean q \<notin> held (ol_own y)"
    and s': "s' = s\<lparr>ol_mem := put_cell p (nd\<lparr>lo_lock := ol_lock s p + 1\<rparr>) (ol_mem s)\<rparr>"
    and LI': "list_effect t (ol_mem s) w (ol_live s) a (ol_mem s') (w(t := ol_own y)) (ol_live s') a \<Longrightarrow>
       ol_LI kmin kmax t s' a (w(t := ol_own y)) y g"
  shows "ol_ok kmin kmax n t s a w g s' y"
proof -
  note si = ol_SI_D [OF SI]
  have l: "unat (lo_lock nd) \<le> n" using si(3) [of p] nd by simp
  then have Suc: "unat (lo_lock nd + 1) = Suc (unat (lo_lock nd))" using inb by (intro unat_Suc_word) simp
  have inn: "ol_in s p" by (rule ol_claimsD(1) [OF si(2) mine])
  have pub: "published (ol_mem s) w p" by (rule slist_published [OF si(1) inn])
  note wr = list_write [OF si(1) nd, where n' = "nd\<lparr>lo_lock := ol_lock s p + 1\<rparr>" and t = t and x = "ol_own y"]
  have cl: "ol_claims s' (w(t := ol_own y))"
    by (rule ol_claims_give [OF si(2) mine]) (use x wr pub s' in \<open>auto simp: ol_lock_def\<close>)
  show ?thesis
    by (rule ol_lock_write [OF SI inn nd x(1,2) s']) (use mine nd Suc l x(4) cl LI' in auto)
qed

section \<open>The steps\<close>

lemma ol_search_step:
  assumes SI: "ol_SI kmin kmax n s a w" and LI: "ol_LI kmin kmax t s a w (At (OSearch x)) g"
    and obs: "observed map_spec a g"
    and own: "w t = ol_own (At (OSearch x))" and ex: "ol_search s x = Next s' y"
  shows "ol_ok kmin kmax n t s a w g s' y"
proof -
  note loc = ol_local [OF ol_SI_mono [OF SI]]
  note sl = ol_SI_D(1) [OF SI]
  show ?thesis
  proof (cases x)
    case (OS_Head k)
    then show ?thesis using loc ex LI own slist_at_head [OF sl _ obs, of "Search k"] by auto
  next
    case (OS_Key k c)
    with ex obtain nd where nd: "ol_cells s c = Some nd" "s' = s"
      "y = At (OSearch (if ll_key nd < k then OS_Next k c else OS_Test k c))" by auto
    then show ?thesis using LI own OS_Key by (auto simp: list_node_def list_at_def intro!: loc)
  next
    case (OS_Next k c)
    with ex obtain nd where nd: "ol_cells s c = Some nd" "s' = s" "y = At (OSearch (OS_Key k (ll_next nd)))" by auto
    have "ll_key nd < op_key (Search k)" "op_key (Search k) < kmax"
      using LI OS_Next nd(1) by (auto simp: list_node_def list_op_def)
    from slist_at_next [OF sl _ nd(1) this] LI OS_Next nd own show ?thesis by (auto intro!: loc)
  next
    case (OS_Test k c)
    with ex obtain nd where nd: "ol_cells s c = Some nd" "s' = s"
      "y = (if ll_key nd = k then At (OSearch (OS_Val k c)) else Finished (Ret_Val 0))" by auto
    show ?thesis
    proof (cases "ll_key nd = k")
      case True
      then show ?thesis using nd LI OS_Test own by (auto simp: list_node_def intro!: loc)
    next
      case False
      then have "k < ll_key nd" using LI OS_Test nd(1) by (auto simp: list_node_def)
      from LI OS_Test obtain W where W: "g = Open (Search k) W" by (auto simp: list_op_def)
      have "list_ahead (ol_mem s) w (ol_live s) (Search k) g c" using LI OS_Test list_at_ahead by fastforce
      from slist_absent [OF sl this nd(1)] \<open>k < ll_key nd\<close> False nd own OS_Test W show ?thesis
        by (auto intro!: loc)
    qed
  next
    case (OS_Val k c)
    with ex obtain nd where nd: "ol_cells s c = Some nd" "s' = s" "y = Finished (Ret_Val (ll_val nd))" by auto
    from LI OS_Val obtain W where W: "g = Open (Search k) W" by (auto simp: list_op_def)
    have "seen_present (Open (Search k) W) (ll_val nd)"
      by (rule slist_present [OF sl _ nd(1)]) (use LI OS_Val nd W obs in \<open>auto simp: list_node_def\<close>)
    then show ?thesis using nd W own OS_Val by (auto intro!: loc)
  qed
qed

text \<open>Moving on: what is known of the next node, and of a node whose version has just been read.\<close>

lemma ol_at_next:
  assumes sl: "slist kmin kmax (ol_mem s) w (ol_head s) (ol_live s) a" and op: "list_op kmin kmax op g"
    and at: "ol_at s w op g c" and k: "ol_node s w c (\<lambda>x. x < op_key op)" and nd: "ol_cells s c = Some nd"
  shows "ol_at s w op g (ll_next nd)"
  using slist_at_next [OF sl at nd] k op nd by (auto simp: list_node_def list_op_def)

lemma ol_good_next:
  assumes SI: "ol_SI kmin kmax n s a w" and op: "list_op kmin kmax op g" and good: "ol_good s w c"
    and k: "ol_node s w c (\<lambda>x. x < op_key op)" and nd: "ol_cells s c = Some nd"
  shows "ol_good s w (ll_next nd)"
proof -
  have "published (ol_mem s) w c" "ll_key nd < kmax" using k nd op by (auto simp: list_node_def list_op_def)
  from slist_next(2) [OF ol_SI_D(1) [OF SI] this(1) nd this(2)] ol_SI_D(4) [OF SI good] nd show ?thesis by simp
qed

lemma ol_read_version:
  assumes good: "ol_good s w c" and cl: "ol_claims s w" and nd: "ol_cells s c = Some nd"
  shows "ol_snap s w c (lo_lock nd) (ol_in s c)"
proof -
  have "ol_in s c" if "\<not> optik_is_locked (lo_lock nd)" using good that nd by (simp add: ol_good_def)
  then show ?thesis using good nd by (simp add: ol_snap_def ol_good_def)
qed

lemma ol_snap_next:
  assumes "ol_snap s w c ver (ol_in s c)" and "ol_cells s c = Some nd"
  shows "ol_snap s w c ver (ol_adj s c (ll_next nd))"
  using assms by (simp add: ol_snap_def ol_adj_def)

lemma ol_snapD: "ol_snap s w p ver P \<Longrightarrow> \<not> optik_is_locked ver \<Longrightarrow> ol_lock s p = ver \<Longrightarrow> P"
  by (simp add: ol_snap_def at_version_def)

lemma ol_head_facts:
  assumes SI: "ol_SI kmin kmax n s a w" and op: "list_op kmin kmax op g" and obs: "observed map_spec a g"
  shows "ol_at s w op g (ol_head s)" and "ol_node s w (ol_head s) (\<lambda>x. x < op_key op)" and "ol_good s w (ol_head s)"
proof -
  note sl = ol_SI_D(1) [OF SI]
  show "ol_at s w op g (ol_head s)" by (rule slist_at_head [OF sl op obs])
  show "ol_node s w (ol_head s) (\<lambda>x. x < op_key op)"
    using slist_head_node [OF sl] op by (auto simp: list_node_def list_op_def)
  show "ol_good s w (ol_head s)" using slist_head [OF sl] slist_published [OF sl slist_head [OF sl]] by (simp add: ol_good_def)
qed


lemma ol_link_step:
  assumes SI: "ol_SI kmin kmax n s a w" and own: "w t = holding {x} {} {Locked q}" and nd: "ol_cells s q = Some nd"
    and adj: "ol_adj s q c" and nx: "ol_cells s x = Some (allocate_ll_optik k v c)"
    and kq: "ol_node s w q (\<lambda>z. z < k)" and kc: "ol_node s w c (\<lambda>z. k < z)"
    and g: "g = Open (Insert k v) W" and s': "s' = s\<lparr>ol_mem := put_cell q (nd\<lparr>ll_next := x\<rparr>) (ol_mem s)\<rparr>"
    and y: "y = At (OInsert (OI_Unlock q Unlock_Read))"
  shows "ol_ok kmin kmax n t s a w g s' y"
proof -
  note si = ol_SI_D [OF SI]
  have q: "ol_in s q" "ll_next nd = c" using adj nd by (auto simp: ol_adj_def)
  obtain nc where nc: "ol_cells s (ll_next nd) = Some nc" "k < ll_key nc" using kc q(2) by (auto simp: list_node_def)
  have kn: "ll_key nd < k" using kq nd by (auto simp: list_node_def)
  note lk = list_link [OF si(1) q(1) nd nx, where t = t and x = "ol_own y" and n' = "nd\<lparr>ll_next := x\<rparr>" and nc = nc
      and m' = "ol_mem s'" and a' = "a(k \<mapsto> v)"]
  have sl: "slist kmin kmax (ol_mem s') (w(t := ol_own y)) (ol_head s') (ol_live s') (a(k \<mapsto> v))"
    and le: "list_effect t (ol_mem s) w (ol_live s) a (ol_mem s') (w(t := ol_own y)) (ol_live s') (a(k \<mapsto> v))"
    and nodes: "ol_nodes s' = insert x (ol_nodes s)" and nm: "nm_of (ol_cells s') = (nm_of (ol_cells s))(q := Some x)"
    and none: "a k = None"
    using lk own nc kn q(2) by (simp_all add: allocate_ll_optik_def s' y)
  have lock: "ol_lock s' p = ol_lock s p" for p using nd by (simp add: ol_lock_def s')
  have xq: "x \<noteq> q" using nx nd kn by (auto simp: allocate_ll_optik_def)
  have xp: "x \<in> owned (w t)" using own by simp
  have others: "x \<notin> private_nodes (w u)" if "u \<noteq> t" for u
    using partition_owned [OF slist_partition [OF si(1)] xp, of u] that by blast
  have pub: "published (ol_mem s') (w(t := ol_own y)) p \<longleftrightarrow> published (ol_mem s) w p \<or> p = x" for p
  proof -
    have "private_nodes ((w(t := ol_own y)) u) = private_nodes (w u) - {x}" for u using own others [of u] by (auto simp: y)
    then show ?thesis using nd nx xq unfolding published_def by (auto simp: s')
  qed
  have good: "ol_good s' (w(t := ol_own y)) p \<longleftrightarrow> ol_good s w p \<or> p = x" for p
    using slist_published [OF si(1)] by (auto simp: ol_good_def pub nodes lock)
  have cx: "ol_good s w c"
    using slist_next_in [OF si(1) q(1) nd] q(2) kn nc si(1) slist_published [OF si(1)]
      slist_next(2) [OF si(1) slist_published [OF si(1) q(1)] nd] si(4) [of q c]
    by (metis (no_types, lifting) adj kc list_node_def ol_adj_def ol_good_def option.distinct(1) slist_NULL)
  have adv: "advance map_spec a g (a(k \<mapsto> v)) (Closed (Ret_Int 1))" using none by (auto simp: g)
  show ?thesis
  proof (rule ol_step_ok [OF adv SI _ sl le])
    show "ol_claims s' (w(t := ol_own y))"
      using si(2) own q(1) ol_claimsD(2) [OF si(2), of q t] unfolding ol_claims_def nodes lock by (auto simp: y split: if_splits)
    show "node_effect t s w s' (w(t := ol_own y)) p" for p
      using own by (auto simp: node_effect_def nm lock nodes y)
    show "ol_good s' (w(t := ol_own y)) p" if "ol_good s w p" for p using that good by blast
    show "ol_good s' (w(t := ol_own y)) r" if "ol_good s' (w(t := ol_own y)) p" "nm_of (ol_cells s') p = Some r" "r \<noteq> NULL" for p r
    proof -
      consider "p = q" | "p = x" | "p \<noteq> q" "p \<noteq> x" by blast
      then show ?thesis
      proof cases
        case 1
        then have "r = x" using that(2) by (simp add: nm)
        then show ?thesis by (simp only: good simp_thms)
      next
        case 2
        then have "r = c" using that(2) nx xq by (simp add: nm allocate_ll_optik_def)
        then show ?thesis using cx good by simp
      next
        case 3
        then show ?thesis using that si(4) [of p r] by (simp add: good nm)
      qed
    qed
    show "unat (ol_lock s' p) \<le> Suc n" for p using si(3) [of p] by (simp add: lock)
  qed (simp add: y)
qed

lemma ol_unlink_step:
  assumes SI: "ol_SI kmin kmax n s a w" and own: "w t = holding {} {} {Locked q, Locked c}" and nd: "ol_cells s q = Some nd"
    and adj: "ol_adj s q c" "ol_adj s c d" and kq: "ol_node s w q (\<lambda>z. z < k)" and kc: "ol_node s w c (\<lambda>z. z = k)"
    and k: "kmin < k" "k < kmax" and g: "g = Open (Delete k) W"
    and s': "s' = s\<lparr>ol_mem := put_cell q (nd\<lparr>ll_next := d\<rparr>) (ol_mem s)\<rparr>"
    and y: "y = At (ORemove (OR_Unlock q c Unlock_Read))"
  shows "ol_ok kmin kmax n t s a w g s' y"
proof -
  note si = ol_SI_D [OF SI]
  have q: "ol_in s q" "ll_next nd = c" using adj nd by (auto simp: ol_adj_def)
  obtain nc where nc: "ol_cells s c = Some nc" "ll_key nc = k" "ll_next nc = d" using kc adj(2) by (auto simp: list_node_def ol_adj_def)
  have qc: "q \<noteq> c" using kq kc by (auto simp: list_node_def)
  note rm = list_remove [OF si(1) q(1) nd q(2) nc(1), where t = t and x = "ol_own y" and n' = "nd\<lparr>ll_next := d\<rparr>"
      and m' = "ol_mem s'" and a' = "a(k := None)"]
  have sl: "slist kmin kmax (ol_mem s') (w(t := ol_own y)) (ol_head s') (ol_live s') (a(k := None))"
    and le: "list_effect t (ol_mem s) w (ol_live s) a (ol_mem s') (w(t := ol_own y)) (ol_live s') (a(k := None))"
    and nodes: "ol_nodes s' = ol_nodes s - {c}" and nm: "nm_of (ol_cells s') = (nm_of (ol_cells s))(q := Some d)"
    and some: "a k = Some (ll_val nc)"
    using rm own nc k by (simp_all add: s' y)
  have lock: "ol_lock s' p = ol_lock s p" for p using nd by (simp add: ol_lock_def s')
  have pub: "published (ol_mem s') (w(t := ol_own y)) p \<longleftrightarrow> published (ol_mem s) w p" for p
  proof -
    have "private_nodes ((w(t := ol_own y)) u) = private_nodes (w u)" for u using own by (simp add: y)
    then show ?thesis using nd unfolding published_def by (auto simp: s')
  qed
  have mine: "Locked c \<in> held (w t)" using own by simp
  have lc: "optik_is_locked (ol_lock s c)" by (rule ol_claimsD(2) [OF si(2) mine])
  have good: "ol_good s' (w(t := ol_own y)) p \<longleftrightarrow> ol_good s w p" for p
    using lc by (auto simp: ol_good_def pub nodes lock)
  have adv: "advance map_spec a g (a(k := None)) (Closed (Ret_Val (ll_val nc)))" using some by (auto simp: g)
  show ?thesis
  proof (rule ol_step_ok [OF adv SI _ sl le])
    show "ol_claims s' (w(t := ol_own y))"
      using si(2) own qc q(1) ol_claimsD(3) [OF si(2) mine] ol_claimsD(2) [OF si(2), of q t] unfolding ol_claims_def nodes lock by (auto simp: y split: if_splits)
    show "node_effect t s w s' (w(t := ol_own y)) p" for p
      using own by (auto simp: node_effect_def nm lock nodes y)
    show "ol_good s' (w(t := ol_own y)) p" if "ol_good s w p" for p using that good by blast
    show "ol_good s' (w(t := ol_own y)) r" if "ol_good s' (w(t := ol_own y)) p" "nm_of (ol_cells s') p = Some r" "r \<noteq> NULL" for p r
    proof (cases "p = q")
      case True
      then have "r = d" using that(2) by (simp add: nm)
      moreover have "ol_good s w c" using adj(2) slist_published [OF si(1)] by (simp add: ol_good_def ol_adj_def)
      ultimately show ?thesis using si(4) [of c d] adj(2) that(3) by (simp add: good ol_adj_def)
    next
      case False
      then show ?thesis using that si(4) [of p r] by (simp add: good nm)
    qed
    show "unat (ol_lock s' p) \<le> Suc n" for p using si(3) [of p] by (simp add: lock)
    have pc: "published (ol_mem s) w c" using kc by (simp add: list_node_def)
    show "ol_LI kmin kmax t s' (a(k := None)) (w(t := ol_own y)) y (Closed (Ret_Val (ll_val nc)))"
      using effect_published [OF le pc] effect_cell [OF le pc nc(1)] by (auto simp: list_result_def y)
  qed
qed


lemma ol_insert_step:
  assumes inb: "Suc n < 2 ^ 62" and SI: "ol_SI kmin kmax n s a w" and LI: "ol_LI kmin kmax t s a w (At (OInsert x)) g"
    and obs: "observed map_spec a g"
    and own: "w t = ol_own (At (OInsert x))" and ex: "ol_insert p s x = Next s' y"
  shows "ol_ok kmin kmax n t s a w g s' y"
proof -
  note loc = ol_local [OF ol_SI_mono [OF SI]]
  note si = ol_SI_D [OF SI]
  note sl = si(1)
  show ?thesis
  proof (cases x)
    case (OI_Head k v)
    then have "s' = s" "y = At (OInsert (OI_Ver k v (ol_head s)))" using ex by auto
    then show ?thesis using OI_Head LI own ol_head_facts [OF SI _ obs, of "Insert k v"] by (auto intro!: loc)
  next
    case (OI_Ver k v c)
    with ex obtain nd where nd: "ol_cells s c = Some nd" "s' = s" "y = At (OInsert (OI_Next k v (lo_lock nd) c))" by auto
    then show ?thesis using LI own OI_Ver ol_read_version [OF _ si(2) nd(1)] by (auto intro!: loc)
  next
    case (OI_Next k v ver c)
    with ex obtain nd where nd: "ol_cells s c = Some nd" "s' = s" "y = At (OInsert (OI_Key k v ver c (ll_next nd)))" by auto
    then show ?thesis
      using LI OI_Next own ol_at_next [OF sl, of "Insert k v" g c nd] ol_good_next [OF SI, of "Insert k v" g c nd]
        ol_snap_next [of s w c ver nd] by (auto intro!: loc)
  next
    case (OI_Key k v ver q c)
    with ex obtain nd where nd: "ol_cells s c = Some nd" "s' = s"
      "y = At (OInsert (if ll_key nd < k then OI_Ver k v c else OI_Test k v ver q c))" by auto
    have "published (ol_mem s) w c" using LI OI_Key by (auto simp: list_at_def)
    then show ?thesis using LI OI_Key own nd by (auto simp: list_node_def intro!: loc)
  next
    case (OI_Test k v ver q c)
    with ex obtain nd where nd: "ol_cells s c = Some nd" "s' = s"
      "y = (if ll_key nd = k then Finished (Ret_Int 0) else At (OInsert (OI_Alloc k v ver q c)))" by auto
    from LI OI_Test obtain W where W: "g = Open (Insert k v) W" by (auto simp: list_op_def)
    show ?thesis
    proof (cases "ll_key nd = k")
      case True
      have "seen_present (Open (Insert k v) W) (ll_val nd)"
        by (rule slist_present [OF sl _ nd(1)]) (use LI OI_Test True W obs in auto)
      then show ?thesis using nd W own OI_Test True by (auto intro!: loc)
    next
      case False
      then show ?thesis using nd LI own OI_Test by (auto simp: list_node_def intro!: loc)
    qed
  next
    case (OI_Alloc k v ver q c)
    with ex have fr: "fresh (ol_cells s) p" and s': "s' = s\<lparr>ol_mem := put_cell p (allocate_ll_optik k v c) (ol_mem s)\<rparr>"
      and y: "y = At (OInsert (OI_Try k v ver p q Try_Check))" by auto
    have x: "private_nodes (ol_own y) = insert p (private_nodes (w t))" "owned (ol_own y) \<subseteq> insert p (owned (w t))"
      using own OI_Alloc by (auto simp: y)
    note al = list_alloc [OF sl fr x, where n = "allocate_ll_optik k v c"]
    from LI OI_Alloc have q: "ol_node s w q (\<lambda>x. x < k)" "ol_snap s w q ver (ol_adj s q c)" "ol_node s w c (\<lambda>x. k < x)"
      and op: "list_op kmin kmax (Insert k v) g" by auto
    have pn: "ol_cells s p = None" using fr by (simp add: fresh_def)
    have same: "cells (put_cell p (allocate_ll_optik k v c) (ol_mem s)) r = ol_cells s r" if "published (ol_mem s) w r" for r
      using that pn by (auto simp: published_def)
    show ?thesis
    proof (rule ol_aside [OF SI s' _ al(1,2,3,4) same])
      show "held (ol_own y) = held (w t)" using own OI_Alloc y by simp
      show "unat (ol_lock s' r) \<le> Suc n" for r
        using si(3) [of r] by (auto simp: ol_lock_def s' allocate_ll_optik_def optik_init_def)
      show "r \<notin> ol_nodes s \<and> \<not> optik_is_locked (ol_lock s' r)"
        if "published (put_cell p (allocate_ll_optik k v c) (ol_mem s)) (w(t := ol_own y)) r" "\<not> published (ol_mem s) w r" for r
      proof -
        have "r \<notin> private_nodes ((w(t := ol_own y)) t)" using that(1) unfolding published_def by blast
        then have "r \<noteq> p" using x(1) by auto
        then show ?thesis using that x(1) by (auto simp: published_def split: if_splits)
      qed
      assume ne: "\<And>r. published (ol_mem s) w r \<Longrightarrow> node_effect t s w s' (w(t := ol_own y)) r"
      have pq: "published (ol_mem s) w q" using q(1) by (simp add: list_node_def)
      have "ol_snap s' (w(t := ol_own y)) q ver (ol_adj s' q c)"
        by (rule ol_snap_stable [OF si(2) ne [OF pq] _ _ q(2)]) (use effect_published [OF al(2) pq] in \<open>auto simp: ol_adj_def s'\<close>)
      then have "ol_new s' (w(t := ol_own y)) k v p (\<lambda>c. ol_snap s' (w(t := ol_own y)) q ver (ol_adj s' q c))"
        using effect_node [OF al(2) q(3)] by (auto simp: ol_new_def s')
      then show "ol_LI kmin kmax t s' a (w(t := ol_own y)) y g"
        using effect_node [OF al(2) q(1)] op by (simp add: y s')
    qed
  next
    case (OI_Try k v ver new q pc)
    have L: "list_op kmin kmax (Insert k v) g" "ol_node s w q (\<lambda>x. x < k)" "ol_new s w k v new (\<lambda>c. ol_snap s w q ver (ol_adj s q c))"
      "pc = Try_CAS \<longrightarrow> \<not> optik_is_locked ver" using LI OI_Try by auto
    from ex OI_Try have "within (\<lambda>pc. OInsert (OI_Try k v ver new q pc))
       (\<lambda>ok. At (OInsert (if ok then OI_Link k v new q else OI_Free k v new)))
       (on_node s q (\<lambda>l. optik_trylock_version ver l pc)) = Next s' y" by simp
    from this L(4) show ?thesis
    proof (cases rule: ol_try_cases)
      case (taken nd)
      then have y: "y = At (OInsert (OI_Link k v new q))" by simp
      obtain c where c: "ol_cells s new = Some (allocate_ll_optik k v c)" "ol_node s w c (\<lambda>x. k < x)" "ol_snap s w q ver (ol_adj s q c)"
        using L(3) unfolding ol_new_def by blast
      have lkq: "ol_lock s q = ver" using taken(1,2) by simp
      have adj: "ol_adj s q c" by (rule ol_snapD [OF c(3) taken(3) lkq])
      then have inn: "ol_in s q" by (simp add: ol_adj_def)
      have xq: "new \<noteq> q" using own OI_Try L(2) by (auto simp: list_node_def published_def dest!: spec [of _ t])
      have cl: "ol_claims s' (w(t := ol_own y))"
      proof (rule ol_claims_take [OF si(2) inn])
        show "\<not> optik_is_locked (ol_lock s q)" using taken(3) lkq by simp
        show "ol_nodes s' = ol_nodes s"
          using list_write(3) [OF sl taken(1), where n' = "nd\<lparr>lo_lock := lo_lock nd + 1\<rparr>" and t = t and x = "w t"] L(2)
          by (simp add: taken(4) list_node_def)
      qed (use own OI_Try taken y in \<open>auto simp: ol_lock_def\<close>)
      show ?thesis
      proof (rule ol_lock_write [OF SI inn taken(1) _ _ taken(4) _ _ _ cl])
        show "unat (lo_lock nd + 1) \<le> Suc n" using unat_unlocked_Suc [of "lo_lock nd"] taken(2,3) si(3) [of q] lkq by simp
        assume eff: "list_effect t (ol_mem s) w (ol_live s) a (ol_mem s') (w(t := ol_own y)) (ol_live s') a"
          and nodes: "ol_nodes s' = ol_nodes s" and nm: "nm_of (ol_cells s') = nm_of (ol_cells s)"
        have "ol_new s' (w(t := ol_own y)) k v new (ol_adj s' q)"
          using c(1) xq adj effect_node [OF eff c(2)] nodes nm unfolding ol_new_def ol_adj_def by (auto simp: taken(4))
        then show "ol_LI kmin kmax t s' a (w(t := ol_own y)) y g" using L(1) effect_node [OF eff L(2)] by (simp add: y)
      qed (use own OI_Try y taken(2,3) in auto)
    qed (use L own OI_Try in \<open>auto intro!: loc elim: ol_new_mono\<close>)
  next
    case (OI_Free k v new)
    then have ow: "w t = holding {new} {} {}" using own by simp
    from ex OI_Free have s': "s' = s\<lparr>ol_mem := (ol_mem s)\<lparr>released := insert new (released (ol_mem s))\<rparr>\<rparr>"
      and y: "y = At (OInsert (OI_Head k v))" by (auto simp: ll_optik_defs)
    from LI OI_Free obtain c where c: "ol_cells s new = Some (allocate_ll_optik k v c)" "ol_node s w c (\<lambda>x. k < x)"
      and op: "list_op kmin kmax (Insert k v) g" by (auto simp: ol_new_def)
    note di = list_discard [OF sl _ c(1) _ _ _ refl, of t "ol_own y"]
    have notin: "new \<notin> ol_nodes s" using partition_owned [OF slist_partition [OF sl], of new t] ow by simp
    show ?thesis
    proof (rule ol_aside [OF SI s'])
      show "r \<notin> ol_nodes s \<and> \<not> optik_is_locked (ol_lock s' r)"
        if new: "published ((ol_mem s)\<lparr>released := insert new (released (ol_mem s))\<rparr>) (w(t := ol_own y)) r" "\<not> published (ol_mem s) w r" for r
      proof -
        have "ol_cells s r \<noteq> None" using new(1) by (simp add: published_def)
        then obtain u where u: "r \<in> private_nodes (w u)" using new(2) unfolding published_def by blast
        have "r \<notin> private_nodes ((w(t := ol_own y)) u)" using new(1) unfolding published_def by blast
        then have "r = new" using u ow by (cases "u = t") auto
        then show ?thesis using notin c(1) by (simp add: ol_lock_def s' allocate_ll_optik_def optik_init_def optik_is_locked_def)
      qed
      show "unat (ol_lock s' r) \<le> Suc n" for r using si(3) [of r] by (simp add: ol_lock_def s')
    qed (use di ow c(2) op y in \<open>auto simp: allocate_ll_optik_def ll_live_def\<close>)
  next
    case (OI_Link k v new q)
    then have ow: "w t = holding {new} {} {Locked q}" using own by simp
    from ex OI_Link obtain nd where nd: "ol_cells s q = Some nd"
      and s': "s' = s\<lparr>ol_mem := put_cell q (nd\<lparr>ll_next := new\<rparr>) (ol_mem s)\<rparr>" and y: "y = At (OInsert (OI_Unlock q Unlock_Read))"
      by auto
    from LI OI_Link obtain c where c: "ol_cells s new = Some (allocate_ll_optik k v c)" "ol_node s w c (\<lambda>x. k < x)" "ol_adj s q c"
      by (auto simp: ol_new_def)
    from LI OI_Link obtain W where W: "g = Open (Insert k v) W" by (auto simp: list_op_def)
    have "ol_node s w q (\<lambda>x. x < k)" using LI OI_Link by simp
    from ol_link_step [OF SI ow nd c(3,1) this c(2) W s' y] show ?thesis .
  next
    case (OI_Unlock q pc)
    from ex OI_Unlock have "within (\<lambda>pc. OInsert (OI_Unlock q pc)) (\<lambda>_. Finished (Ret_Int 1)) (on_node s q (\<lambda>l. optik_unlock l pc)) = Next s' y"
      by simp
    then show ?thesis
    proof (cases rule: ol_unlock_cases)
      case rd
      then show ?thesis using LI own OI_Unlock by (auto intro!: loc)
    next
      case (wr z nd)
      then have "s' = s\<lparr>ol_mem := put_cell q (nd\<lparr>lo_lock := ol_lock s q + 1\<rparr>) (ol_mem s)\<rparr>" using LI OI_Unlock by simp
      from ol_unlock_step [OF inb SI _ wr(2) _ _ _ _ this] show ?thesis using LI own OI_Unlock wr(4) by simp
    qed
  qed
qed


lemma ol_remove_step:
  assumes inb: "Suc n < 2 ^ 62" and SI: "ol_SI kmin kmax n s a w" and LI: "ol_LI kmin kmax t s a w (At (ORemove x)) g"
    and obs: "observed map_spec a g"
    and own: "w t = ol_own (At (ORemove x))" and ex: "ol_remove s x = Next s' y"
  shows "ol_ok kmin kmax n t s a w g s' y"
proof -
  note loc = ol_local [OF ol_SI_mono [OF SI]]
  note si = ol_SI_D [OF SI]
  note sl = si(1)
  show ?thesis
  proof (cases x)
    case (OR_Head k)
    then have "s' = s" "y = At (ORemove (OR_Ver0 k (ol_head s)))" using ex by auto
    then show ?thesis using OR_Head LI own ol_head_facts [OF SI _ obs, of "Delete k"] by (auto intro!: loc)
  next
    case (OR_Ver0 k c)
    with ex obtain nd where nd: "ol_cells s c = Some nd" "s' = s" "y = At (ORemove (OR_Next k (lo_lock nd) c))" by auto
    then show ?thesis using LI own OR_Ver0 ol_read_version [OF _ si(2) nd(1)] by (auto intro!: loc)
  next
    case (OR_Next k ver c)
    with ex obtain nd where nd: "ol_cells s c = Some nd" "s' = s" "y = At (ORemove (OR_Ver k ver c (ll_next nd)))" by auto
    then show ?thesis
      using LI OR_Next own ol_at_next [OF sl, of "Delete k" g c nd] ol_good_next [OF SI, of "Delete k" g c nd]
        ol_snap_next [of s w c ver nd] by (auto intro!: loc)
  next
    case (OR_Ver k ver q c)
    with ex obtain nd where nd: "ol_cells s c = Some nd" "s' = s" "y = At (ORemove (OR_Key k ver q (lo_lock nd) c))" by auto
    then show ?thesis using LI own OR_Ver ol_read_version [OF _ si(2) nd(1)] by (auto intro!: loc)
  next
    case (OR_Key k ver q cver c)
    with ex obtain nd where nd: "ol_cells s c = Some nd" "s' = s"
      "y = At (ORemove (if ll_key nd < k then OR_Next k cver c else OR_Test k ver q cver c))" by auto
    have "published (ol_mem s) w c" using LI OR_Key by (auto simp: list_at_def)
    then show ?thesis using LI OR_Key own nd by (auto simp: list_node_def intro!: loc)
  next
    case (OR_Test k ver q cver c)
    with ex obtain nd where nd: "ol_cells s c = Some nd" "s' = s"
      "y = (if ll_key nd \<noteq> k then Finished (Ret_Val 0) else At (ORemove (OR_CNext k ver q cver c)))" by auto
    from LI OR_Test obtain W where W: "g = Open (Delete k) W" by (auto simp: list_op_def)
    show ?thesis
    proof (cases "ll_key nd = k")
      case True
      then show ?thesis using nd LI own OR_Test by (auto simp: list_node_def intro!: loc)
    next
      case False
      then have "k < ll_key nd" using LI OR_Test nd(1) by (auto simp: list_node_def)
      moreover have "list_ahead (ol_mem s) w (ol_live s) (Delete k) g c" using LI OR_Test list_at_ahead by fastforce
      ultimately have "seen_absent g" using slist_absent [OF sl _ nd(1), of "Delete k" g] by simp
      then show ?thesis using False nd own OR_Test W by (auto intro!: loc)
    qed
  next
    case (OR_CNext k ver q cver c)
    with ex obtain nd where nd: "ol_cells s c = Some nd" "s' = s"
      "y = At (ORemove (OR_Try1 k ver q cver c (ll_next nd) Try_Check))" by auto
    then show ?thesis using LI own OR_CNext ol_snap_next [of s w c cver nd] by (auto intro!: loc)
  next
    case (OR_Try1 k ver q cver c d pc)
    have L: "list_op kmin kmax (Delete k) g" "ol_node s w q (\<lambda>x. x < k)" "ol_snap s w q ver (ol_adj s q c)"
      "ol_snap s w c cver (ol_adj s c d)" "ol_node s w c (\<lambda>x. x = k)" "pc = Try_CAS \<longrightarrow> \<not> optik_is_locked ver"
      using LI OR_Try1 by simp_all
    from ex OR_Try1 have "within (\<lambda>pc. ORemove (OR_Try1 k ver q cver c d pc))
       (\<lambda>ok. At (ORemove (if ok then OR_Try2 k q cver c d Try_Check else OR_Head k)))
       (on_node s q (\<lambda>l. optik_trylock_version ver l pc)) = Next s' y" by simp
    from this L(6) show ?thesis
    proof (cases rule: ol_try_cases)
      case (taken nd)
      then have y: "y = At (ORemove (OR_Try2 k q cver c d Try_Check))" by simp
      have lkq: "ol_lock s q = ver" using taken(1,2) by simp
      have adj: "ol_adj s q c" by (rule ol_snapD [OF L(3) taken(3) lkq])
      then have inn: "ol_in s q" by (simp add: ol_adj_def)
      have pc: "published (ol_mem s) w c" using L(5) by (simp add: list_node_def)
      have cl: "ol_claims s' (w(t := ol_own y))"
      proof (rule ol_claims_take [OF si(2) inn])
        show "\<not> optik_is_locked (ol_lock s q)" using taken(3) lkq by simp
        show "ol_nodes s' = ol_nodes s"
          using list_write(3) [OF sl taken(1), where n' = "nd\<lparr>lo_lock := lo_lock nd + 1\<rparr>" and t = t and x = "w t"] L(2)
          by (simp add: taken(4) list_node_def)
      qed (use own OR_Try1 taken y in \<open>auto simp: ol_lock_def\<close>)
      show ?thesis
      proof (rule ol_lock_write [OF SI inn taken(1) _ _ taken(4) _ _ _ cl])
        show "unat (lo_lock nd + 1) \<le> Suc n" using unat_unlocked_Suc [of "lo_lock nd"] taken(2,3) si(3) [of q] lkq by simp
        assume eff: "list_effect t (ol_mem s) w (ol_live s) a (ol_mem s') (w(t := ol_own y)) (ol_live s') a"
          and nodes: "ol_nodes s' = ol_nodes s" and nm: "nm_of (ol_cells s') = nm_of (ol_cells s)"
          and ne: "\<And>r. published (ol_mem s) w r \<Longrightarrow> node_effect t s w s' (w(t := ol_own y)) r"
        have "ol_snap s' (w(t := ol_own y)) c cver (ol_adj s' c d)"
          by (rule ol_snap_stable [OF si(2) ne [OF pc] _ effect_published [OF eff pc] L(4)]) (auto simp: ol_adj_def)
        moreover have "ol_adj s' q c" using adj nodes nm by (simp add: ol_adj_def)
        ultimately show "ol_LI kmin kmax t s' a (w(t := ol_own y)) y g"
          using L(1) effect_node [OF eff L(2)] effect_node [OF eff L(5)] by (simp add: y)
      qed (use own OR_Try1 y taken(2,3) in auto)
    qed (use L own OR_Try1 in \<open>auto intro!: loc\<close>)
  next
    case (OR_Try2 k q cver c d pc)
    have L: "list_op kmin kmax (Delete k) g" "ol_node s w q (\<lambda>x. x < k)" "ol_adj s q c"
      "ol_snap s w c cver (ol_adj s c d)" "ol_node s w c (\<lambda>x. x = k)" "pc = Try_CAS \<longrightarrow> \<not> optik_is_locked cver"
      using LI OR_Try2 by simp_all
    from ex OR_Try2 have "within (\<lambda>pc. ORemove (OR_Try2 k q cver c d pc))
       (\<lambda>ok. At (ORemove (if ok then OR_Unlink k q c d else OR_Revert k q)))
       (on_node s c (\<lambda>l. optik_trylock_version cver l pc)) = Next s' y" by simp
    from this L(6) show ?thesis
    proof (cases rule: ol_try_cases)
      case (taken nd)
      then have y: "y = At (ORemove (OR_Unlink k q c d))" by simp
      have lkc: "ol_lock s c = cver" using taken(1,2) by simp
      have adj: "ol_adj s c d" by (rule ol_snapD [OF L(4) taken(3) lkc])
      then have inn: "ol_in s c" by (simp add: ol_adj_def)
      have qc: "q \<noteq> c" using L(2,5) by (auto simp: list_node_def)
      have cl: "ol_claims s' (w(t := ol_own y))"
      proof (rule ol_claims_take [OF si(2) inn])
        show "\<not> optik_is_locked (ol_lock s c)" using taken(3) lkc by simp
        show "ol_nodes s' = ol_nodes s"
          using list_write(3) [OF sl taken(1), where n' = "nd\<lparr>lo_lock := lo_lock nd + 1\<rparr>" and t = t and x = "w t"] L(5)
          by (simp add: taken(4) list_node_def)
      qed (use own OR_Try2 taken y in \<open>auto simp: ol_lock_def\<close>)
      show ?thesis
      proof (rule ol_lock_write [OF SI inn taken(1) _ _ taken(4) _ _ _ cl])
        show "unat (lo_lock nd + 1) \<le> Suc n" using unat_unlocked_Suc [of "lo_lock nd"] taken(2,3) si(3) [of c] lkc by simp
        assume eff: "list_effect t (ol_mem s) w (ol_live s) a (ol_mem s') (w(t := ol_own y)) (ol_live s') a"
          and nodes: "ol_nodes s' = ol_nodes s" and nm: "nm_of (ol_cells s') = nm_of (ol_cells s)"
        show "ol_LI kmin kmax t s' a (w(t := ol_own y)) y g"
          using L(1,3) adj nodes nm effect_node [OF eff L(2)] effect_node [OF eff L(5)] by (simp add: y ol_adj_def)
      qed (use own OR_Try2 y taken(2,3) in auto)
    qed (use L own OR_Try2 in \<open>auto intro!: loc\<close>)
  next
    case (OR_Revert k q)
    then have mine: "Locked q \<in> held (w t)" and clean: "Clean q \<in> held (w t)" using own by simp_all
    from ex OR_Revert obtain nd where nd: "ol_cells s q = Some nd"
      and s': "s' = s\<lparr>ol_mem := put_cell q (nd\<lparr>lo_lock := lo_lock nd - 1\<rparr>) (ol_mem s)\<rparr>" and y: "y = At (ORemove (OR_Head k))"
      by (auto simp: optik_revert_def)
    have inn: "ol_in s q" by (rule ol_claimsD(1) [OF si(2) mine])
    have pq: "published (ol_mem s) w q" by (rule slist_published [OF sl inn])
    have cl: "ol_claims s' (w(t := ol_own y))"
    proof (rule ol_claims_give [OF si(2) mine])
      show "ol_nodes s' = ol_nodes s"
        using list_write(3) [OF sl nd, where n' = "nd\<lparr>lo_lock := lo_lock nd - 1\<rparr>" and t = t and x = "w t"] pq by (simp add: s')
    qed (use own OR_Revert y s' in \<open>auto simp: ol_lock_def\<close>)
    have "odd (unat (lo_lock nd))" using ol_claimsD(2) [OF si(2) mine] nd by (simp add: optik_is_locked_odd)
    then have "lo_lock nd \<noteq> 0" by auto
    then have "unat (lo_lock nd - 1) \<le> Suc n" using unat_minus_one [of "lo_lock nd"] si(3) [of q] nd by simp
    then show ?thesis
      by (rule ol_lock_write [OF SI inn nd _ _ s' _ _ _ cl, rotated 3]) (use own OR_Revert y clean LI in auto)
  next
    case (OR_Unlink k q c d)
    then have ow: "w t = holding {} {} {Locked q, Locked c}" using own by simp
    from LI OR_Unlink have L: "ol_adj s q c" "ol_adj s c d" "ol_node s w q (\<lambda>x. x < k)" "ol_node s w c (\<lambda>x. x = k)"
      and k: "kmin < k" "k < kmax" by (auto simp: list_op_def)
    from LI OR_Unlink obtain W where W: "g = Open (Delete k) W" by (auto simp: list_op_def)
    from ex OR_Unlink obtain nd where nd: "ol_cells s q = Some nd"
      and s': "s' = s\<lparr>ol_mem := put_cell q (nd\<lparr>ll_next := d\<rparr>) (ol_mem s)\<rparr>" and y: "y = At (ORemove (OR_Unlock q c Unlock_Read))"
      by auto
    show ?thesis by (rule ol_unlink_step [OF SI ow nd L k W s' y])
  next
    case (OR_Unlock q c pc)
    from ex OR_Unlock have "within (\<lambda>pc. ORemove (OR_Unlock q c pc)) (\<lambda>_. At (ORemove (OR_Val c))) (on_node s q (\<lambda>l. optik_unlock l pc)) = Next s' y"
      by simp
    then show ?thesis
    proof (cases rule: ol_unlock_cases)
      case rd
      then show ?thesis using LI own OR_Unlock by (auto intro!: loc)
    next
      case (wr z nd)
      then have s': "s' = s\<lparr>ol_mem := put_cell q (nd\<lparr>lo_lock := ol_lock s q + 1\<rparr>) (ol_mem s)\<rparr>" using LI OR_Unlock by simp
      have res: "list_result (ol_mem s) w c g" using LI OR_Unlock by simp
      have g: "observe map_spec a g = g" using res by (auto simp: list_result_def)
      have er: "list_result (ol_mem s') w' c g" if "list_effect t (ol_mem s) w l a (ol_mem s') w' l' a" for w' l l'
        using effect_result [OF that res] g by simp
      show ?thesis
        by (rule ol_unlock_step [OF inb SI _ wr(2) _ _ _ _ s']) (use own OR_Unlock wr(4) er in auto)
    qed
  next
    case (OR_Val c)
    with ex obtain nd where "ol_cells s c = Some nd" "s' = s" "y = At (ORemove (OR_Free c (ll_val nd)))" by auto
    then show ?thesis using LI own OR_Val by (auto simp: list_result_def intro!: loc)
  next
    case (OR_Free c v)
    then have ow: "w t = holding {} {c} {}" using own by simp
    from ex OR_Free have s': "s' = s\<lparr>ol_mem := (ol_mem s)\<lparr>released := insert c (released (ol_mem s))\<rparr>\<rparr>"
      and y: "y = Finished (Ret_Val v)" by (auto simp: ll_optik_defs)
    note re = list_release [OF sl _ _ _ refl, of c t "ol_own y"]
    have pub: "published ((ol_mem s)\<lparr>released := insert c (released (ol_mem s))\<rparr>) (w(t := ol_own y)) r \<longleftrightarrow> published (ol_mem s) w r" for r
    proof -
      have "private_nodes ((w(t := ol_own y)) u) = private_nodes (w u)" for u using ow by (simp add: y)
      then show ?thesis by (simp add: published_def)
    qed
    show ?thesis
    proof (rule ol_aside [OF SI s'])
      show "unat (ol_lock s' r) \<le> Suc n" for r using si(3) [of r] by (simp add: ol_lock_def s')
    qed (use re ow LI OR_Free y pub in \<open>auto simp: ll_live_def\<close>)
  qed
qed

lemma ol_safe:
  assumes SI: "ol_SI kmin kmax n s a w" and LI: "ol_LI kmin kmax t s a w (At x) g" and own: "w t = ol_own (At x)"
  shows "ol_exec t p s x \<noteq> Fault"
proof -
  note si = ol_SI_D [OF SI]
  have ow: "ol_cells s q \<noteq> None \<and> q \<notin> released (ol_mem s)" if "q \<in> owned (w t)" for q
    using partition_owned [OF slist_partition [OF si(1)] that] by blast
  have pub: "\<exists>n. ol_cells s q = Some n" if "published (ol_mem s) w q" for q
    using that by (rule published_cell)
  have mine: "\<exists>n. ol_cells s q = Some n" if "Locked q \<in> held (w t)" for q
    using pub [OF slist_published [OF si(1) ol_claimsD(1) [OF si(2) that]]] .
  have wi: "within f k z = Fault \<longleftrightarrow> z = Fault" for f k and z :: "(('k, 'v) olist, 'p, 'q) outcome"
    by (cases "(f, k, z)" rule: within.cases) auto
  have trylock: "on_node s q (\<lambda>l. optik_trylock_version ver l pc) \<noteq> Fault" if "\<exists>n. ol_cells s q = Some n" for q ver pc
    using that by (cases pc) (auto simp: on_node_def)
  have unlock: "on_node s q (\<lambda>l. optik_unlock l pc) \<noteq> Fault" if "\<exists>n. ol_cells s q = Some n" for q pc
    using that by (cases pc) (auto simp: on_node_def)
  show ?thesis
  proof (cases x)
    case (OSearch z)
    then show ?thesis using LI pub by (cases z) (auto simp: list_at_def list_node_def)
  next
    case (OInsert z)
    then show ?thesis using LI pub own ow mine trylock unlock
      by (cases z) (auto simp: list_at_def list_node_def ll_optik_defs wi)
  next
    case (ORemove z)
    then show ?thesis using LI pub own ow mine trylock unlock
      by (cases z) (auto simp: list_at_def list_node_def list_result_def ll_optik_defs wi)
  qed
qed

lemma ol_call:
  assumes "ol_start kmin kmax op = Some x"
  shows "ol_own (At x) = ol_own Idle"
    and "ol_LI kmin kmax t s a w (At x) (Open op (legal map_spec op a))"
  using assms by (cases op; auto simp: ol_start_def list_op_def split: if_splits)+

lemma ol_SI_init:
  assumes "h \<noteq> NULL" "t \<noteq> NULL" "h \<noteq> t" "kmin < kmax"
  shows "ol_SI kmin kmax 0 (ol_init kmin kmax h t :: ('k::linorder, 'v::zero) olist) Map.empty (\<lambda>_. ol_own Idle)"
proof -
  let ?s = "ol_init kmin kmax h t :: ('k, 'v) olist"
  have c: "cells (ol_mem ?s) = [h \<mapsto> initialize_ll_optik kmin 0 t, t \<mapsto> initialize_ll_optik kmax 0 NULL]"
    using assms(3) by (auto simp: ol_init_def empty_store_def fun_eq_iff)
  note si = slist_init [OF assms(1-3) this, of kmin kmax]
  have sl: "slist kmin kmax (ol_mem ?s) (\<lambda>_. none_owned :: claim ownership) h {} Map.empty" "ol_live ?s = {}"
    using si assms(4) by (simp_all add: ol_init_def initialize_ll_optik_def)
  have next_cases: "q = t" if "nm_of (cells (ol_mem ?s)) p = Some q" "q \<noteq> NULL" for p q
    using that by (auto simp: c nm_of_def initialize_ll_optik_def split: if_splits)
  have "path (cells (ol_mem ?s)) ll_next (ol_head ?s) [h, t] NULL"
    using c assms by (auto simp: ol_init_def initialize_ll_optik_def)
  then have nodes: "ol_nodes ?s = set [h, t]" by (rule nodes_from_path)
  have lock: "ol_lock ?s p = 0" for p
    by (simp add: ol_lock_def c initialize_ll_optik_def optik_init_def)
  have "published (ol_mem ?s) (\<lambda>_. none_owned :: claim ownership) t" by (simp add: published_def c)
  then have "ol_good ?s (\<lambda>_. none_owned) q" if "nm_of (ol_cells ?s) p = Some q" "q \<noteq> NULL" for p q
    using next_cases [OF that] by (simp add: ol_good_def nodes)
  moreover have "ol_claims ?s (\<lambda>_. none_owned)" by (simp add: ol_claims_def)
  moreover have "ol_head ?s = h" by (simp add: ol_init_def)
  ultimately show ?thesis using sl lock by (simp add: ol_SI_def)
qed

interpretation optik_list: thread_object map_spec Map.empty "ol_start kmin kmax" ol_exec "ol_init kmin kmax h t"
  ol_own "list_run_ok kmin kmax h t" "ol_SI kmin kmax" "ol_LI kmin kmax" for kmin kmax :: "'k::linorder" and h t
proof unfold_locales
  fix n s a w u x g p s' y
  assume "list_run_ok kmin kmax h t (Suc n)" and "ol_SI kmin kmax n s a w" and "ol_LI kmin kmax u s a w (At x) g"
    and "observed map_spec a g" and "w u = ol_own (At x)" and "ol_exec u p s x = Next s' y"
  then show "step_ok map_spec ol_own (ol_SI kmin kmax) (ol_LI kmin kmax) n u s a w g s' y"
    by (cases x) (auto simp: list_run_ok_def intro: ol_search_step ol_insert_step ol_remove_step)
qed (auto simp: list_run_ok_def intro: ol_SI_init [simplified] ol_SI_mono dest: ol_call ol_safe)

section \<open>A concrete run\<close>

text \<open>Thread 0 inserts 5; thread 1 finds the node to remove; thread 0 links 7 behind it, so thread 1, which
  has locked the predecessor, cannot lock the node at its version: it gives the first lock back by
  \<^verbatim>\<open>optik_revert\<close> and starts again.\<close>

definition ol_demo :: "(int, int) map_op command list" where
  "ol_demo = [Do_Call 0 (Insert 5 50)] @ steps_of 0 5 @ [Do_Step 0 3] @ steps_of 0 5 @ [Do_Return 0, Do_Call 1 (Delete 5)] @
     steps_of 1 7 @ [Do_Call 0 (Insert 7 70)] @ steps_of 0 8 @ [Do_Step 0 4] @ steps_of 0 5 @ [Do_Return 0] @
     steps_of 1 20 @ [Do_Return 1]"

definition ol_demo_history :: "((int, int) map_op, int map_ret) history" where
  "ol_demo_history = [(0, Call (Insert 5 50)), (0, Return (Ret_Int 1)), (1, Call (Delete 5)), (0, Call (Insert 7 70)),
     (0, Return (Ret_Int 1)), (1, Return (Ret_Val 50))]"

lemma ol_demo_run:
  "\<exists>s c. run (ol_start 0 10) ol_exec (ol_init 0 10 1 2) (length ol_demo) ol_demo_history (s, c)
     \<and> ol_length s = Some 1"
  unfolding ol_demo_history_def
  by (rule replay_exhibits)
    (simp add: ol_demo_def ol_start_def ol_init_def on_node_def optik_init_def optik_is_locked_def OPTIK_LOCKED_def
      optik_revert_def ol_length_def ll_optik_defs ll_length_def ll_length_loop.simps fresh_def alloc_def put_cell_def
      empty_store_def release_def replicate_binary)

section \<open>Properties\<close>

lemma ol_counts:
  assumes "list_run_ok kmin kmax h t n" and "ol_SI kmin kmax n s a w"
  shows "finite (dom a) \<and> ol_length s = Some (int (card (dom a)))"
proof -
  note sl = ol_SI_D(1) [OF assms(2)]
  show ?thesis using slist_finite [OF sl] slist_length [OF sl] assms(1) by (simp add: ol_length_def list_run_ok_def)
qed

lemma ol_destroys:
  "ol_SI kmin kmax n s a w \<Longrightarrow> ol_destroy gc heap s = freed_or_undefined gc heap (ol_mem s) (ol_nodes s)"
  using slist_destroy [OF ol_SI_D(1)] by (simp add: ol_destroy_def)

text \<open>C24: every concurrent run of the list with one OPTIK lock per node, of fewer than 2^62 steps and on keys
  strictly between those of the sentinels, is linearizable with respect to the map specification; in
  the reached state \<^verbatim>\<open>length()\<close> is the number of keys of the abstract map, and no thread is about to
  dereference a pointer that is not a node or to release a node twice.\<close>

theorem optik_list_correct:
  assumes "run (ol_start kmin kmax) ol_exec (ol_init kmin kmax h t) n hist (s, c)" and "list_run_ok kmin kmax h t n"
  shows "linearizable map_spec Map.empty hist
    \<and> (\<exists>a. linearizes_to map_spec Map.empty hist a \<and> ol_length s = Some (int (card (dom a))))
    \<and> (\<forall>u p x. c u = At x \<longrightarrow> ol_exec u p s x \<noteq> Fault)"
  using optik_list.linearizable [OF assms] optik_list.reachable_SI [OF assms] ol_counts [OF assms(2)]
    optik_list.no_fault [OF assms] by blast

theorem optik_list_correct_witness: "linearizable map_spec Map.empty ol_demo_history"
proof -
  have "list_run_ok (0::int) 10 1 2 (length ol_demo)" by (simp add: list_run_ok_def ol_demo_def)
  with ol_demo_run show ?thesis using optik_list_correct by blast
qed

text \<open>C25: in every reachable state of the list the locks work as claimed: a node whose lock a thread holds is
  in the list, its version is odd, no other thread holds it, and a thread that is about to give a lock
  back by \<^verbatim>\<open>optik_revert\<close> holds it.\<close>

theorem optik_list_locks:
  assumes "run (ol_start kmin kmax) ol_exec (ol_init kmin kmax h t) n hist (s, c)" and "list_run_ok kmin kmax h t n"
  shows "(\<forall>u p. Locked p \<in> held (ol_own (c u)) \<longrightarrow> p \<in> ol_nodes s \<and> optik_is_locked (ol_lock s p))
    \<and> (\<forall>u v p. Locked p \<in> held (ol_own (c u)) \<longrightarrow> Locked p \<in> held (ol_own (c v)) \<longrightarrow> u = v)
    \<and> (\<forall>u k p. c u = At (ORemove (OR_Revert k p)) \<longrightarrow> optik_is_locked (ol_lock s p))"
proof -
  from optik_list.reachable_SI [OF assms] obtain a where "ol_SI kmin kmax n s a (ol_own \<circ> c)" by blast
  then have cl: "ol_claims s (ol_own \<circ> c)" by (rule ol_SI_D)
  note cl = ol_claimsD [OF this, unfolded o_apply]
  have "optik_is_locked (ol_lock s p)" if "c u = At (ORemove (OR_Revert k p))" for u k p
    using cl(2) [of p u] that by simp
  moreover have "u = v" if "Locked p \<in> held (ol_own (c u))" "Locked p \<in> held (ol_own (c v))" for u v p
    using cl(3) [of p v u] that by blast
  ultimately show ?thesis using cl(1,2) by blast
qed

theorem optik_list_locks_witness:
  "\<exists>s c. run (ol_start 0 10) ol_exec (ol_init 0 10 1 2) (length ol_demo) ol_demo_history (s, c)
     \<and> (\<forall>u k p. c u = At (ORemove (OR_Revert k p)) \<longrightarrow> optik_is_locked (ol_lock s p))"
proof -
  have "list_run_ok (0::int) 10 1 2 (length ol_demo)" by (simp add: list_run_ok_def ol_demo_def)
  with ol_demo_run show ?thesis using optik_list_locks by blast
qed

end
