(* ===== verification/Hashtable_OptikGL.thy ===== *)
theory Hashtable_OptikGL
  imports Hashtable_Optik LinkedList_Optik
begin

text \<open>
  The hash table \<^verbatim>\<open>src/algorithms/hashtable_optik_gl.h\<close>: in spite of its name its buckets are the lists
  with one OPTIK lock per node (\<^verbatim>\<open>LinkedListOptik\<close>).
\<close>

section \<open>The code\<close>

type_synonym ('k, 'v) hashtable_optik_gl = "('k, 'v) olist hashtable"

definition hashtable_optik_gl_init :: "32 word \<Rightarrow> 'k \<Rightarrow> 'k \<Rightarrow> (nat \<Rightarrow> ptr) \<Rightarrow> (nat \<Rightarrow> ptr) \<Rightarrow> ('k, 'v::zero) hashtable_optik_gl" where
  "hashtable_optik_gl_init maxlen kmin kmax h t = ht_init maxlen (\<lambda>i. ol_init kmin kmax (h i) (t i))"

definition hashtable_optik_gl_start :: "'k::linorder \<Rightarrow> 'k \<Rightarrow> ('k, 'v) map_op \<Rightarrow> (('k, 'v) map_op, ('k, 'v) ol_pc) ht_pc option" where
  "hashtable_optik_gl_start kmin kmax = ht_start (ol_start kmin kmax)"

definition hashtable_optik_gl_exec :: "('k::linorder \<Rightarrow> 32 word) \<Rightarrow>
    (('k, 'v::zero) hashtable_optik_gl, (('k, 'v) map_op, ('k, 'v) ol_pc) ht_pc, 'v map_ret) exec" where
  "hashtable_optik_gl_exec hasher = ht_exec hasher ol_exec"

definition hashtable_optik_gl_length :: "('k, 'v) hashtable_optik_gl \<Rightarrow> int option" where
  "hashtable_optik_gl_length = ht_length ol_length"

definition hashtable_optik_gl_destroy :: "bool \<Rightarrow> (nat \<Rightarrow> ptr set) \<Rightarrow> ('k, 'v) hashtable_optik_gl \<Rightarrow> ('k, 'v) ll_optik store list option" where
  "hashtable_optik_gl_destroy gc heap = ht_destroy (\<lambda>i. ol_destroy gc (heap i))"

lemmas hashtable_optik_gl_defs = hashtable_optik_gl_start_def hashtable_optik_gl_exec_def hashtable_optik_gl_init_def
  hashtable_optik_gl_length_def

section \<open>Correctness\<close>

interpretation hashtable_optik_gl: counting_table map_spec maxlen hasher "ol_start kmin kmax" ol_exec
  "\<lambda>i. ol_init kmin kmax (h i) (t i)" ol_own "\<lambda>i. list_run_ok kmin kmax (h i) (t i)"
  "ol_SI kmin kmax" "ol_LI kmin kmax" ol_length
  for maxlen and hasher :: "'k::linorder \<Rightarrow> 32 word" and kmin kmax h t
  by unfold_locales (rule local_map_spec | rule ol_counts, assumption+)+

section \<open>A concrete run\<close>

definition hashtable_optik_gl_demo :: "(64 word, int) map_op command list" where
  "hashtable_optik_gl_demo = [Do_Call 0 (Insert 5 50), Do_Call 1 (Insert 8 80)] @ steps_of 0 6 @ steps_of 1 6 @
     [Do_Step 0 3, Do_Step 1 3] @ steps_of 0 5 @ steps_of 1 5 @ [Do_Return 0, Do_Return 1]"

definition hashtable_optik_gl_demo_history :: "((64 word, int) map_op, int map_ret) history" where
  "hashtable_optik_gl_demo_history =
     [(0, Call (Insert 5 50)), (1, Call (Insert 8 80)), (0, Return (Ret_Int 1)), (1, Return (Ret_Int 1))]"

lemma hashtable_optik_gl_demo_run:
  "\<exists>s c. run (hashtable_optik_gl_start 0 10) (hashtable_optik_gl_exec key_hasher) (hashtable_optik_gl_init 2 0 10 (\<lambda>_. 1) (\<lambda>_. 2))
       (length hashtable_optik_gl_demo) hashtable_optik_gl_demo_history (s, c)
     \<and> hashtable_optik_gl_length s = Some 2"
  unfolding hashtable_optik_gl_demo_history_def
  by (rule replay_exhibits)
    (simp add: hashtable_optik_gl_demo_def hashtable_optik_gl_defs ht_start_def ht_init_def ht_addr_def key_hasher_def ht_length_def
      ol_start_def ol_init_def on_node_def optik_init_def optik_is_locked_def OPTIK_LOCKED_def ol_length_def
      ll_optik_defs ll_length_def ll_length_loop.simps fresh_def alloc_def put_cell_def empty_store_def
      release_def up2 replicate_binary)

lemma hashtable_optik_gl_demo_ok: "table_run_ok 2 (0 :: 64 word) 10 (\<lambda>_. 1) (\<lambda>_. 2) (length hashtable_optik_gl_demo)"
  by (simp add: table_run_ok_def list_run_ok_def hashtable_optik_gl_demo_def)

section \<open>Properties\<close>

text \<open>C26: every concurrent run of the hash table of lists with one OPTIK lock per node, for any number of
  buckets, any hash function and keys between the sentinels of the buckets, is linearizable with respect
  to the map specification; \<^verbatim>\<open>length()\<close> of the reached state is the number of keys of the abstract map, and
  no thread is about to index outside of the bucket array, to dereference a pointer that is not a node, or to release a node twice.\<close>

theorem hashtable_optik_gl_correct:
  assumes "run (hashtable_optik_gl_start kmin kmax) (hashtable_optik_gl_exec hasher) (hashtable_optik_gl_init maxlen kmin kmax h t) n hist (s, c)"
    and "table_run_ok maxlen kmin kmax h t n"
  shows "linearizable map_spec Map.empty hist
    \<and> (\<exists>a. linearizes_to map_spec Map.empty hist a \<and> hashtable_optik_gl_length s = Some (int (card (dom a))))
    \<and> (\<forall>u p x. c u = At x \<longrightarrow> hashtable_optik_gl_exec hasher u p s x \<noteq> Fault)"
proof -
  note r = assms(1) [unfolded hashtable_optik_gl_defs]
  have i: "hashtable_optik_gl.table_inb TYPE('a) maxlen kmin kmax h t n"
    using assms(2) by (simp add: hashtable_optik_gl.table_inb_def table_run_ok_def)
  from hashtable_optik_gl.table.linearizable [unfolded table_spec_map, OF r i]
    hashtable_optik_gl.table.reachable_SI [unfolded table_spec_map, OF r i] hashtable_optik_gl.table_length [OF _ i]
    hashtable_optik_gl.table.no_fault [OF r i]
  show ?thesis unfolding hashtable_optik_gl_defs by blast
qed

theorem hashtable_optik_gl_correct_witness: "linearizable map_spec Map.empty hashtable_optik_gl_demo_history"
  using hashtable_optik_gl_demo_run hashtable_optik_gl_correct [OF _ hashtable_optik_gl_demo_ok] by blast

end
