(* ===== verification/LinkedList_Lazy.thy ===== *)
theory LinkedList_Lazy
  imports List_Steps
begin

text \<open>
  The lazy list, \<^verbatim>\<open>src/algorithms/linkedlist_lazy.h\<close>, on the nodes of \<^verbatim>\<open>src/aux/ll_marked.h\<close>: a removal
  first marks the node and then unlinks it; updates lock the predecessor (and the node) and validate
  that both are unmarked and adjacent; \<^verbatim>\<open>search\<close> takes no lock and tests the mark. The build without
  \<^verbatim>\<open>LL_GLOBAL_LOCK\<close> is modelled, a node lock as the thread that holds it (\<^verbatim>\<open>Spin_Locks\<close> treats the locks
  themselves). \<open>ro\<close> is the build option \<^verbatim>\<open>LAZY_RO_FAIL == 1\<close>, \<open>gc\<close> the option \<^verbatim>\<open>GC == 1\<close>, without which
  \<^verbatim>\<open>ll_marked_release\<close> does nothing. With \<^verbatim>\<open>GC == 1\<close> \<^verbatim>\<open>remove\<close> unlocks the node after it has released it, against
  the contract of the allocator (\<open>release\<close>): the lemmas hold in the model of both builds, the property is
  stated for \<^verbatim>\<open>GC == 0\<close>.
\<close>

section \<open>Nodes\<close>

record ('k, 'v) ll_marked = "('k, 'v) ll_simple" +
  lm_marked :: "8 word"
  lm_lock :: "tid option"

definition allocate_ll_marked :: "'k \<Rightarrow> 'v \<Rightarrow> ptr \<Rightarrow> ('k, 'v) ll_marked" where
  "allocate_ll_marked k v p = \<lparr>ll_key = k, ll_val = v, ll_next = p, lm_marked = 0, lm_lock = None\<rparr>"

definition initialize_ll_marked :: "'k \<Rightarrow> 'v \<Rightarrow> ptr \<Rightarrow> ('k, 'v) ll_marked" where
  "initialize_ll_marked k v p = \<lparr>ll_key = k, ll_val = v, ll_next = p, lm_marked = 0, lm_lock = None\<rparr>"

definition ll_marked_release :: "('k, 'v) ll_marked store \<Rightarrow> ptr \<Rightarrow>
    (('k, 'v) ll_marked store \<Rightarrow> ('s, 'l, 'r) outcome) \<Rightarrow> ('s, 'l, 'r) outcome" where
  "ll_marked_release m p k = release m p k"

lemmas ll_marked_defs = allocate_ll_marked_def initialize_ll_marked_def ll_marked_release_def

section \<open>The code\<close>

record ('k, 'v) lazy =
  lz_head :: ptr
  lz_mem :: "('k, 'v) ll_marked store"

abbreviation lz_cells :: "('k, 'v) lazy \<Rightarrow> ptr \<Rightarrow> ('k, 'v) ll_marked option" where
  "lz_cells s \<equiv> cells (lz_mem s)"

definition lz_init :: "'k \<Rightarrow> 'k \<Rightarrow> ptr \<Rightarrow> ptr \<Rightarrow> ('k, 'v::zero) lazy" where
  "lz_init kmin kmax h t = \<lparr>lz_head = h,
     lz_mem = put_cell h (initialize_ll_marked kmin 0 t) (put_cell t (initialize_ll_marked kmax 0 NULL) empty_store)\<rparr>"

datatype 'k lz_search_pc =
    ZS_Head 'k                \<comment> \<open>\<^verbatim>\<open>curr = head\<close>\<close>
  | ZS_Key 'k ptr             \<comment> \<open>\<^verbatim>\<open>curr->key < key\<close>\<close>
  | ZS_Next 'k ptr            \<comment> \<open>\<^verbatim>\<open>curr = curr->next\<close>\<close>
  | ZS_Test 'k ptr            \<comment> \<open>\<^verbatim>\<open>curr->key == key\<close>\<close>
  | ZS_Mark 'k ptr            \<comment> \<open>\<^verbatim>\<open>!curr->marked\<close>\<close>
  | ZS_Val 'k ptr             \<comment> \<open>\<^verbatim>\<open>res = curr->val\<close>\<close>

datatype ('k, 'v) lz_insert_pc =
    ZI_Head 'k 'v             \<comment> \<open>\<^verbatim>\<open>pred = head\<close>\<close>
  | ZI_Next 'k 'v ptr         \<comment> \<open>\<^verbatim>\<open>curr = pred->next\<close>\<close>
  | ZI_Key 'k 'v ptr ptr      \<comment> \<open>\<^verbatim>\<open>curr->key < key\<close>, then \<^verbatim>\<open>pred = curr\<close>\<close>
  | ZI_RO 'k 'v ptr ptr       \<comment> \<open>\<^verbatim>\<open>LAZY_RO_FAIL\<close>: \<^verbatim>\<open>curr->key == key\<close>\<close>
  | ZI_RO_Mark 'k 'v ptr      \<comment> \<open>\<^verbatim>\<open>LAZY_RO_FAIL\<close>: \<^verbatim>\<open>curr->marked\<close>\<close>
  | ZI_Lock 'k 'v ptr ptr     \<comment> \<open>\<^verbatim>\<open>LOCK(ND_GET_LOCK(pred))\<close>\<close>
  | ZI_Mark_P 'k 'v ptr ptr   \<comment> \<open>\<^verbatim>\<open>parse_validate\<close>: \<^verbatim>\<open>!pred->marked\<close>\<close>
  | ZI_Mark_C 'k 'v ptr ptr   \<comment> \<open>\<^verbatim>\<open>parse_validate\<close>: \<^verbatim>\<open>!curr->marked\<close>\<close>
  | ZI_Adj 'k 'v ptr ptr      \<comment> \<open>\<^verbatim>\<open>parse_validate\<close>: \<^verbatim>\<open>pred->next == curr\<close>\<close>
  | ZI_Test 'k 'v ptr ptr     \<comment> \<open>\<^verbatim>\<open>result = (curr->key != key)\<close>\<close>
  | ZI_Alloc 'k 'v ptr ptr    \<comment> \<open>allocate \<^verbatim>\<open>newnode\<close> with next \<^verbatim>\<open>curr\<close>\<close>
  | ZI_Link 'k 'v ptr ptr     \<comment> \<open>\<^verbatim>\<open>pred->next = newnode\<close>\<close>
  | ZI_Unlock 'k 'v ptr int   \<comment> \<open>\<^verbatim>\<open>UNLOCK(ND_GET_LOCK(pred))\<close>, then \<^verbatim>\<open>while (result < 0)\<close>\<close>

datatype ('k, 'v) lz_remove_pc =
    ZR_Head 'k                  \<comment> \<open>\<^verbatim>\<open>pred = head\<close>\<close>
  | ZR_Next 'k ptr              \<comment> \<open>\<^verbatim>\<open>curr = pred->next\<close>\<close>
  | ZR_Key 'k ptr ptr           \<comment> \<open>\<^verbatim>\<open>curr->key < key\<close>, then \<^verbatim>\<open>pred = curr\<close>\<close>
  | ZR_RO 'k ptr ptr            \<comment> \<open>\<^verbatim>\<open>LAZY_RO_FAIL\<close>: \<^verbatim>\<open>curr->key != key\<close>\<close>
  | ZR_Lock_P 'k ptr ptr        \<comment> \<open>\<^verbatim>\<open>LOCK(ND_GET_LOCK(pred))\<close>\<close>
  | ZR_Lock_C 'k ptr ptr        \<comment> \<open>\<^verbatim>\<open>LOCK(ND_GET_LOCK(curr))\<close>\<close>
  | ZR_Mark_P 'k ptr ptr        \<comment> \<open>\<^verbatim>\<open>parse_validate\<close>: \<^verbatim>\<open>!pred->marked\<close>\<close>
  | ZR_Mark_C 'k ptr ptr        \<comment> \<open>\<^verbatim>\<open>parse_validate\<close>: \<^verbatim>\<open>!curr->marked\<close>\<close>
  | ZR_Adj 'k ptr ptr           \<comment> \<open>\<^verbatim>\<open>parse_validate\<close>: \<^verbatim>\<open>pred->next == curr\<close>\<close>
  | ZR_Test 'k ptr ptr          \<comment> \<open>\<^verbatim>\<open>key == curr->key\<close>\<close>
  | ZR_Val 'k ptr ptr           \<comment> \<open>\<^verbatim>\<open>result = curr->val\<close>\<close>
  | ZR_CNext 'k ptr ptr 'v      \<comment> \<open>\<^verbatim>\<open>c_next = curr->next\<close>\<close>
  | ZR_Set 'k ptr ptr ptr 'v    \<comment> \<open>\<^verbatim>\<open>curr->marked = 1\<close>\<close>
  | ZR_Unlink 'k ptr ptr ptr 'v \<comment> \<open>\<^verbatim>\<open>pred->next = c_next\<close>\<close>
  | ZR_Free 'k ptr ptr 'v       \<comment> \<open>\<^verbatim>\<open>GC\<close>: release \<^verbatim>\<open>curr\<close>\<close>
  | ZR_Unlock_C 'k ptr ptr "'v option"  \<comment> \<open>\<^verbatim>\<open>UNLOCK(ND_GET_LOCK(curr))\<close>; the result if \<^verbatim>\<open>done\<close>\<close>
  | ZR_Unlock_P 'k ptr "'v option"      \<comment> \<open>\<^verbatim>\<open>UNLOCK(ND_GET_LOCK(pred))\<close>, then \<^verbatim>\<open>while (!done)\<close>\<close>

datatype ('k, 'v) lz_pc = ZSearch "'k lz_search_pc" | ZInsert "('k, 'v) lz_insert_pc" | ZRemove "('k, 'v) lz_remove_pc"

type_synonym ('k, 'v) lz_outcome = "(('k, 'v) lazy, ('k, 'v) lz_pc, 'v map_ret) outcome"

text \<open>The lock of a node: to take it is possible only when it is free.\<close>

definition lz_acquire :: "tid \<Rightarrow> ('k, 'v) lazy \<Rightarrow> ptr \<Rightarrow> ('k, 'v) lz_pc \<Rightarrow> ('k, 'v) lz_outcome" where
  "lz_acquire t s p x = deref (lz_cells s) p (\<lambda>n.
     if lm_lock n = None then Next (s\<lparr>lz_mem := put_cell p (n\<lparr>lm_lock := Some t\<rparr>) (lz_mem s)\<rparr>) (At x) else Blocked)"

definition lz_unlock :: "('k, 'v) lazy \<Rightarrow> ptr \<Rightarrow> (('k, 'v) lz_pc, 'v map_ret) control \<Rightarrow> ('k, 'v) lz_outcome" where
  "lz_unlock s p y = deref (lz_cells s) p (\<lambda>n. Next (s\<lparr>lz_mem := put_cell p (n\<lparr>lm_lock := None\<rparr>) (lz_mem s)\<rparr>) y)"

fun lz_search :: "('k::linorder, 'v::zero) lazy \<Rightarrow> 'k lz_search_pc \<Rightarrow> ('k, 'v) lz_outcome" where
  "lz_search s (ZS_Head k) = Next s (At (ZSearch (ZS_Key k (lz_head s))))"
| "lz_search s (ZS_Key k cur) =
     deref (lz_cells s) cur (\<lambda>n. Next s (At (ZSearch (if ll_key n < k then ZS_Next k cur else ZS_Test k cur))))"
| "lz_search s (ZS_Next k cur) = deref (lz_cells s) cur (\<lambda>n. Next s (At (ZSearch (ZS_Key k (ll_next n)))))"
| "lz_search s (ZS_Test k cur) =
     deref (lz_cells s) cur (\<lambda>n. Next s (if ll_key n = k then At (ZSearch (ZS_Mark k cur)) else Finished (Ret_Val 0)))"
| "lz_search s (ZS_Mark k cur) =
     deref (lz_cells s) cur (\<lambda>n. Next s (if lm_marked n = 0 then At (ZSearch (ZS_Val k cur)) else Finished (Ret_Val 0)))"
| "lz_search s (ZS_Val k cur) = deref (lz_cells s) cur (\<lambda>n. Next s (Finished (Ret_Val (ll_val n))))"

fun lz_insert :: "bool \<Rightarrow> tid \<Rightarrow> ptr \<Rightarrow> ('k::linorder, 'v::zero) lazy \<Rightarrow> ('k, 'v) lz_insert_pc \<Rightarrow> ('k, 'v) lz_outcome" where
  "lz_insert ro t p s (ZI_Head k v) = Next s (At (ZInsert (ZI_Next k v (lz_head s))))"
| "lz_insert ro t p s (ZI_Next k v pred) =
     deref (lz_cells s) pred (\<lambda>n. Next s (At (ZInsert (ZI_Key k v pred (ll_next n)))))"
| "lz_insert ro t p s (ZI_Key k v pred cur) =
     deref (lz_cells s) cur (\<lambda>n. Next s (At (ZInsert
       (if ll_key n < k then ZI_Next k v cur else if ro then ZI_RO k v pred cur else ZI_Lock k v pred cur))))"
| "lz_insert ro t p s (ZI_RO k v pred cur) =
     deref (lz_cells s) cur (\<lambda>n.
       Next s (At (ZInsert (if ll_key n = k then ZI_RO_Mark k v cur else ZI_Lock k v pred cur))))"
| "lz_insert ro t p s (ZI_RO_Mark k v cur) =
     deref (lz_cells s) cur (\<lambda>n.
       Next s (if lm_marked n \<noteq> 0 then At (ZInsert (ZI_Head k v)) else Finished (Ret_Int 0)))"
| "lz_insert ro t p s (ZI_Lock k v pred cur) = lz_acquire t s pred (ZInsert (ZI_Mark_P k v pred cur))"
| "lz_insert ro t p s (ZI_Mark_P k v pred cur) =
     deref (lz_cells s) pred (\<lambda>n.
       Next s (At (ZInsert (if lm_marked n = 0 then ZI_Mark_C k v pred cur else ZI_Unlock k v pred (-1)))))"
| "lz_insert ro t p s (ZI_Mark_C k v pred cur) =
     deref (lz_cells s) cur (\<lambda>n.
       Next s (At (ZInsert (if lm_marked n = 0 then ZI_Adj k v pred cur else ZI_Unlock k v pred (-1)))))"
| "lz_insert ro t p s (ZI_Adj k v pred cur) =
     deref (lz_cells s) pred (\<lambda>n.
       Next s (At (ZInsert (if ll_next n = cur then ZI_Test k v pred cur else ZI_Unlock k v pred (-1)))))"
| "lz_insert ro t p s (ZI_Test k v pred cur) =
     deref (lz_cells s) cur (\<lambda>n.
       Next s (At (ZInsert (if ll_key n \<noteq> k then ZI_Alloc k v pred cur else ZI_Unlock k v pred 0))))"
| "lz_insert ro t p s (ZI_Alloc k v pred cur) =
     alloc (lz_cells s) p
       (Next (s\<lparr>lz_mem := put_cell p (allocate_ll_marked k v cur) (lz_mem s)\<rparr>) (At (ZInsert (ZI_Link k v pred p))))"
| "lz_insert ro t p s (ZI_Link k v pred newnode) =
     deref (lz_cells s) pred (\<lambda>n.
       Next (s\<lparr>lz_mem := put_cell pred (n\<lparr>ll_next := newnode\<rparr>) (lz_mem s)\<rparr>) (At (ZInsert (ZI_Unlock k v pred 1))))"
| "lz_insert ro t p s (ZI_Unlock k v pred result) =
     lz_unlock s pred (if result < 0 then At (ZInsert (ZI_Head k v)) else Finished (Ret_Int result))"

fun lz_remove :: "bool \<Rightarrow> bool \<Rightarrow> tid \<Rightarrow> ('k::linorder, 'v::zero) lazy \<Rightarrow> ('k, 'v) lz_remove_pc \<Rightarrow> ('k, 'v) lz_outcome" where
  "lz_remove gc ro t s (ZR_Head k) = Next s (At (ZRemove (ZR_Next k (lz_head s))))"
| "lz_remove gc ro t s (ZR_Next k pred) =
     deref (lz_cells s) pred (\<lambda>n. Next s (At (ZRemove (ZR_Key k pred (ll_next n)))))"
| "lz_remove gc ro t s (ZR_Key k pred cur) =
     deref (lz_cells s) cur (\<lambda>n. Next s (At (ZRemove
       (if ll_key n < k then ZR_Next k cur else if ro then ZR_RO k pred cur else ZR_Lock_P k pred cur))))"
| "lz_remove gc ro t s (ZR_RO k pred cur) =
     deref (lz_cells s) cur (\<lambda>n.
       Next s (if ll_key n \<noteq> k then Finished (Ret_Val 0) else At (ZRemove (ZR_Lock_P k pred cur))))"
| "lz_remove gc ro t s (ZR_Lock_P k pred cur) = lz_acquire t s pred (ZRemove (ZR_Lock_C k pred cur))"
| "lz_remove gc ro t s (ZR_Lock_C k pred cur) = lz_acquire t s cur (ZRemove (ZR_Mark_P k pred cur))"
| "lz_remove gc ro t s (ZR_Mark_P k pred cur) =
     deref (lz_cells s) pred (\<lambda>n.
       Next s (At (ZRemove (if lm_marked n = 0 then ZR_Mark_C k pred cur else ZR_Unlock_C k pred cur None))))"
| "lz_remove gc ro t s (ZR_Mark_C k pred cur) =
     deref (lz_cells s) cur (\<lambda>n.
       Next s (At (ZRemove (if lm_marked n = 0 then ZR_Adj k pred cur else ZR_Unlock_C k pred cur None))))"
| "lz_remove gc ro t s (ZR_Adj k pred cur) =
     deref (lz_cells s) pred (\<lambda>n.
       Next s (At (ZRemove (if ll_next n = cur then ZR_Test k pred cur else ZR_Unlock_C k pred cur None))))"
| "lz_remove gc ro t s (ZR_Test k pred cur) =
     deref (lz_cells s) cur (\<lambda>n.
       Next s (At (ZRemove (if k = ll_key n then ZR_Val k pred cur else ZR_Unlock_C k pred cur (Some 0)))))"
| "lz_remove gc ro t s (ZR_Val k pred cur) =
     deref (lz_cells s) cur (\<lambda>n. Next s (At (ZRemove (ZR_CNext k pred cur (ll_val n)))))"
| "lz_remove gc ro t s (ZR_CNext k pred cur r) =
     deref (lz_cells s) cur (\<lambda>n. Next s (At (ZRemove (ZR_Set k pred cur (ll_next n) r))))"
| "lz_remove gc ro t s (ZR_Set k pred cur cnxt r) =
     deref (lz_cells s) cur (\<lambda>n.
       Next (s\<lparr>lz_mem := put_cell cur (n\<lparr>lm_marked := 1\<rparr>) (lz_mem s)\<rparr>) (At (ZRemove (ZR_Unlink k pred cur cnxt r))))"
| "lz_remove gc ro t s (ZR_Unlink k pred cur cnxt r) =
     deref (lz_cells s) pred (\<lambda>n.
       Next (s\<lparr>lz_mem := put_cell pred (n\<lparr>ll_next := cnxt\<rparr>) (lz_mem s)\<rparr>)
         (At (ZRemove (if gc then ZR_Free k pred cur r else ZR_Unlock_C k pred cur (Some r)))))"
| "lz_remove gc ro t s (ZR_Free k pred cur r) =
     ll_marked_release (lz_mem s) cur (\<lambda>m. Next (s\<lparr>lz_mem := m\<rparr>) (At (ZRemove (ZR_Unlock_C k pred cur (Some r)))))"
| "lz_remove gc ro t s (ZR_Unlock_C k pred cur res) = lz_unlock s cur (At (ZRemove (ZR_Unlock_P k pred res)))"
| "lz_remove gc ro t s (ZR_Unlock_P k pred res) =
     lz_unlock s pred (case res of None \<Rightarrow> At (ZRemove (ZR_Head k)) | Some r \<Rightarrow> Finished (Ret_Val r))"

definition lz_length :: "('k, 'v) lazy \<Rightarrow> int option" where
  "lz_length s = ll_length (lz_cells s) (lz_head s)"

definition lz_destroy :: "bool \<Rightarrow> ptr set \<Rightarrow> ('k, 'v) lazy \<Rightarrow> ('k, 'v) ll_marked store option" where
  "lz_destroy gc heap s = ll_destroy_loop (ll_simple_delete gc heap) (lz_mem s) (lz_head s)"

fun lz_entry :: "('k, 'v) map_op \<Rightarrow> ('k, 'v) lz_pc" where
  "lz_entry (Search k) = ZSearch (ZS_Head k)"
| "lz_entry (Insert k v) = ZInsert (ZI_Head k v)"
| "lz_entry (Delete k) = ZRemove (ZR_Head k)"

definition lz_start :: "'k::linorder \<Rightarrow> 'k \<Rightarrow> ('k, 'v) map_op \<Rightarrow> ('k, 'v) lz_pc option" where
  "lz_start kmin kmax op = (if kmin < op_key op \<and> op_key op < kmax then Some (lz_entry op) else None)"

fun lz_exec :: "bool \<Rightarrow> bool \<Rightarrow> tid \<Rightarrow> ptr \<Rightarrow> ('k::linorder, 'v::zero) lazy \<Rightarrow> ('k, 'v) lz_pc \<Rightarrow> ('k, 'v) lz_outcome" where
  "lz_exec gc ro t p s (ZSearch x) = lz_search s x"
| "lz_exec gc ro t p s (ZInsert x) = lz_insert ro t p s x"
| "lz_exec gc ro t p s (ZRemove x) = lz_remove gc ro t s x"

section \<open>The invariant\<close>

text \<open>What a thread claims of a node: it holds its lock; it has marked it and is about to unlink it.\<close>

datatype lz_claim = Owns ptr | Unlinking ptr

fun lz_own :: "(('k, 'v) lz_pc, 'v map_ret) control \<Rightarrow> lz_claim ownership" where
  "lz_own (At (ZInsert (ZI_Mark_P k v p c))) = holding {} {} {Owns p}"
| "lz_own (At (ZInsert (ZI_Mark_C k v p c))) = holding {} {} {Owns p}"
| "lz_own (At (ZInsert (ZI_Adj k v p c))) = holding {} {} {Owns p}"
| "lz_own (At (ZInsert (ZI_Test k v p c))) = holding {} {} {Owns p}"
| "lz_own (At (ZInsert (ZI_Alloc k v p c))) = holding {} {} {Owns p}"
| "lz_own (At (ZInsert (ZI_Link k v p x))) = holding {x} {} {Owns p}"
| "lz_own (At (ZInsert (ZI_Unlock k v p r))) = holding {} {} {Owns p}"
| "lz_own (At (ZRemove (ZR_Lock_C k p c))) = holding {} {} {Owns p}"
| "lz_own (At (ZRemove (ZR_Mark_P k p c))) = holding {} {} {Owns p, Owns c}"
| "lz_own (At (ZRemove (ZR_Mark_C k p c))) = holding {} {} {Owns p, Owns c}"
| "lz_own (At (ZRemove (ZR_Adj k p c))) = holding {} {} {Owns p, Owns c}"
| "lz_own (At (ZRemove (ZR_Test k p c))) = holding {} {} {Owns p, Owns c}"
| "lz_own (At (ZRemove (ZR_Val k p c))) = holding {} {} {Owns p, Owns c}"
| "lz_own (At (ZRemove (ZR_CNext k p c r))) = holding {} {} {Owns p, Owns c}"
| "lz_own (At (ZRemove (ZR_Set k p c d r))) = holding {} {} {Owns p, Owns c}"
| "lz_own (At (ZRemove (ZR_Unlink k p c d r))) = holding {} {} {Owns p, Owns c, Unlinking c}"
| "lz_own (At (ZRemove (ZR_Free k p c r))) = holding {} {c} {Owns p, Owns c}"
| "lz_own (At (ZRemove (ZR_Unlock_C k p c res))) = holding {} {} {Owns p, Owns c}"
| "lz_own (At (ZRemove (ZR_Unlock_P k p res))) = holding {} {} {Owns p}"
| "lz_own _ = none_owned"

abbreviation lz_nodes :: "('k, 'v) lazy \<Rightarrow> ptr set" where
  "lz_nodes s \<equiv> nodes_from (lz_cells s) ll_next (lz_head s)"

definition lz_lock :: "('k, 'v) lazy \<Rightarrow> ptr \<Rightarrow> tid option" where
  "lz_lock s p = Option.bind (lz_cells s p) lm_lock"

definition lz_clean :: "('k, 'v) lazy \<Rightarrow> ptr \<Rightarrow> bool" where
  "lz_clean s p \<longleftrightarrow> (\<exists>n. lz_cells s p = Some n \<and> lm_marked n = 0)"

lemma lz_cell_simps [simp]:
  "lz_cells s p = Some n \<Longrightarrow> lz_lock s p = lm_lock n"
  "lz_cells s p = Some n \<Longrightarrow> lz_clean s p \<longleftrightarrow> lm_marked n = 0"
  by (simp_all add: lz_lock_def lz_clean_def)

text \<open>The nodes that carry the map: those in the list, between the sentinels, without a mark.\<close>

definition lz_live :: "('k, 'v) lazy \<Rightarrow> ptr set" where
  "lz_live s = {p \<in> ll_live (lz_mem s) (lz_head s). lz_clean s p}"

definition lz_SI :: "'k::linorder \<Rightarrow> 'k \<Rightarrow> nat \<Rightarrow> ('k, 'v) lazy \<Rightarrow> ('k \<rightharpoonup> 'v) \<Rightarrow> (tid \<Rightarrow> lz_claim ownership) \<Rightarrow> bool" where
  "lz_SI kmin kmax n s a w \<longleftrightarrow> slist kmin kmax (lz_mem s) w (lz_head s) (lz_live s) a \<and>
     (\<forall>t p. Owns p \<in> held (w t) \<longleftrightarrow> lz_lock s p = Some t) \<and>
     (\<forall>p. published (lz_mem s) w p \<longrightarrow> lz_clean s p \<longrightarrow> p \<in> lz_nodes s) \<and>
     (\<forall>p \<in> lz_nodes s. lz_clean s p \<or> (\<exists>t. Unlinking p \<in> held (w t)))"

abbreviation lz_ahead :: "('k, 'v::zero) lazy \<Rightarrow> (tid \<Rightarrow> lz_claim ownership) \<Rightarrow> ('k, 'v) map_op \<Rightarrow>
    (('k, 'v) map_op, 'v map_ret) ghost \<Rightarrow> ptr \<Rightarrow> bool" where
  "lz_ahead s w op g c \<equiv> list_ahead (lz_mem s) w (lz_live s) op g c"

abbreviation lz_node :: "('k, 'v) lazy \<Rightarrow> (tid \<Rightarrow> lz_claim ownership) \<Rightarrow> ptr \<Rightarrow> ('k \<Rightarrow> bool) \<Rightarrow> bool" where
  "lz_node s w p P \<equiv> list_node (lz_mem s) w p P"

text \<open>A node that was seen live with the key: its value may be returned.\<close>

definition lz_found :: "('k, 'v::zero) lazy \<Rightarrow> (tid \<Rightarrow> lz_claim ownership) \<Rightarrow> 'k \<Rightarrow>
    (('k, 'v) map_op, 'v map_ret) ghost \<Rightarrow> ptr \<Rightarrow> bool" where
  "lz_found s w k g c \<longleftrightarrow> published (lz_mem s) w c \<and>
     (\<exists>n. lz_cells s c = Some n \<and> (ll_key n = k \<longrightarrow> seen_present g (ll_val n)))"

text \<open>A node that the thread has locked: its mark and its pointer.\<close>

definition lz_mine :: "('k, 'v) lazy \<Rightarrow> tid \<Rightarrow> ptr \<Rightarrow> bool" where
  "lz_mine s t p \<longleftrightarrow> lz_lock s p = Some t \<and> p \<in> lz_nodes s \<and> lz_clean s p"

definition lz_points :: "('k, 'v) lazy \<Rightarrow> tid \<Rightarrow> ptr \<Rightarrow> ptr \<Rightarrow> bool" where
  "lz_points s t p c \<longleftrightarrow> lz_lock s p = Some t \<and> nm_of (lz_cells s) p = Some c"

definition lz_gone :: "('k, 'v) lazy \<Rightarrow> tid \<Rightarrow> ptr \<Rightarrow> bool" where
  "lz_gone s t p \<longleftrightarrow> lz_lock s p = Some t \<and> \<not> lz_clean s p"

definition lz_val :: "('k, 'v) lazy \<Rightarrow> (tid \<Rightarrow> lz_claim ownership) \<Rightarrow> ptr \<Rightarrow> 'k \<Rightarrow> 'v \<Rightarrow> bool" where
  "lz_val s w c k r \<longleftrightarrow> published (lz_mem s) w c \<and> kv_of (lz_cells s) c = Some (k, r)"

fun lz_LI :: "'k::linorder \<Rightarrow> 'k \<Rightarrow> tid \<Rightarrow> ('k, 'v::zero) lazy \<Rightarrow> ('k \<rightharpoonup> 'v) \<Rightarrow> (tid \<Rightarrow> lz_claim ownership) \<Rightarrow>
    (('k, 'v) lz_pc, 'v map_ret) control \<Rightarrow> (('k, 'v) map_op, 'v map_ret) ghost \<Rightarrow> bool" where
  "lz_LI kmin kmax t s a w Idle g = (g = Quiet)"
| "lz_LI kmin kmax t s a w (Finished r) g = returns g r"
| "lz_LI kmin kmax t s a w (At (ZSearch (ZS_Head k))) g = list_op kmin kmax (Search k) g"
| "lz_LI kmin kmax t s a w (At (ZSearch (ZS_Key k c))) g = (list_op kmin kmax (Search k) g \<and> lz_ahead s w (Search k) g c)"
| "lz_LI kmin kmax t s a w (At (ZSearch (ZS_Next k c))) g =
     (list_op kmin kmax (Search k) g \<and> lz_ahead s w (Search k) g c \<and> lz_node s w c (\<lambda>x. x < k))"
| "lz_LI kmin kmax t s a w (At (ZSearch (ZS_Test k c))) g =
     (list_op kmin kmax (Search k) g \<and> lz_ahead s w (Search k) g c \<and> lz_node s w c (\<lambda>x. k \<le> x))"
| "lz_LI kmin kmax t s a w (At (ZSearch (ZS_Mark k c))) g =
     (list_op kmin kmax (Search k) g \<and> lz_ahead s w (Search k) g c \<and> lz_node s w c (\<lambda>x. x = k))"
| "lz_LI kmin kmax t s a w (At (ZSearch (ZS_Val k c))) g =
     (list_op kmin kmax (Search k) g \<and> lz_found s w k g c \<and> lz_node s w c (\<lambda>x. x = k))"
| "lz_LI kmin kmax t s a w (At (ZInsert (ZI_Head k v))) g = list_op kmin kmax (Insert k v) g"
| "lz_LI kmin kmax t s a w (At (ZInsert (ZI_Next k v p))) g = (list_op kmin kmax (Insert k v) g \<and> lz_node s w p (\<lambda>x. x < k))"
| "lz_LI kmin kmax t s a w (At (ZInsert (ZI_Key k v p c))) g =
     (list_op kmin kmax (Insert k v) g \<and> lz_node s w p (\<lambda>x. x < k) \<and> lz_node s w c (\<lambda>x. True))"
| "lz_LI kmin kmax t s a w (At (ZInsert (ZI_RO k v p c))) g =
     (list_op kmin kmax (Insert k v) g \<and> lz_node s w p (\<lambda>x. x < k) \<and> lz_node s w c (\<lambda>x. k \<le> x))"
| "lz_LI kmin kmax t s a w (At (ZInsert (ZI_RO_Mark k v c))) g = (list_op kmin kmax (Insert k v) g \<and> lz_node s w c (\<lambda>x. x = k))"
| "lz_LI kmin kmax t s a w (At (ZInsert (ZI_Lock k v p c))) g =
     (list_op kmin kmax (Insert k v) g \<and> lz_node s w p (\<lambda>x. x < k) \<and> lz_node s w c (\<lambda>x. k \<le> x))"
| "lz_LI kmin kmax t s a w (At (ZInsert (ZI_Mark_P k v p c))) g =
     (list_op kmin kmax (Insert k v) g \<and> lz_node s w p (\<lambda>x. x < k) \<and> lz_node s w c (\<lambda>x. k \<le> x))"
| "lz_LI kmin kmax t s a w (At (ZInsert (ZI_Mark_C k v p c))) g =
     (list_op kmin kmax (Insert k v) g \<and> lz_node s w p (\<lambda>x. x < k) \<and> lz_node s w c (\<lambda>x. k \<le> x) \<and> lz_mine s t p)"
| "lz_LI kmin kmax t s a w (At (ZInsert (ZI_Adj k v p c))) g =
     (list_op kmin kmax (Insert k v) g \<and> lz_node s w p (\<lambda>x. x < k) \<and> lz_node s w c (\<lambda>x. k \<le> x) \<and> lz_mine s t p \<and> lz_found s w k g c)"
| "lz_LI kmin kmax t s a w (At (ZInsert (ZI_Test k v p c))) g =
     (list_op kmin kmax (Insert k v) g \<and> lz_node s w p (\<lambda>x. x < k) \<and> lz_node s w c (\<lambda>x. k \<le> x) \<and> lz_mine s t p \<and> lz_found s w k g c \<and>
      lz_points s t p c)"
| "lz_LI kmin kmax t s a w (At (ZInsert (ZI_Alloc k v p c))) g =
     (list_op kmin kmax (Insert k v) g \<and> lz_node s w p (\<lambda>x. x < k) \<and> lz_node s w c (\<lambda>x. k < x) \<and> lz_mine s t p \<and> lz_points s t p c)"
| "lz_LI kmin kmax t s a w (At (ZInsert (ZI_Link k v p x))) g =
     (list_op kmin kmax (Insert k v) g \<and> lz_node s w p (\<lambda>x. x < k) \<and> lz_mine s t p \<and>
      (\<exists>c. lz_cells s x = Some (allocate_ll_marked k v c) \<and> lz_node s w c (\<lambda>x. k < x) \<and> lz_points s t p c))"
| "lz_LI kmin kmax t s a w (At (ZInsert (ZI_Unlock k v p r))) g =
     (lz_node s w p (\<lambda>x. x < k) \<and> (if r < 0 then list_op kmin kmax (Insert k v) g else returns g (Ret_Int r)))"
| "lz_LI kmin kmax t s a w (At (ZRemove (ZR_Head k))) g = list_op kmin kmax (Delete k) g"
| "lz_LI kmin kmax t s a w (At (ZRemove (ZR_Next k p))) g =
     (list_op kmin kmax (Delete k) g \<and> lz_node s w p (\<lambda>x. x < k) \<and> lz_ahead s w (Delete k) g p)"
| "lz_LI kmin kmax t s a w (At (ZRemove (ZR_Key k p c))) g =
     (list_op kmin kmax (Delete k) g \<and> lz_node s w p (\<lambda>x. x < k) \<and> lz_ahead s w (Delete k) g c)"
| "lz_LI kmin kmax t s a w (At (ZRemove (ZR_RO k p c))) g =
     (list_op kmin kmax (Delete k) g \<and> lz_node s w p (\<lambda>x. x < k) \<and> lz_ahead s w (Delete k) g c \<and> lz_node s w c (\<lambda>x. k \<le> x))"
| "lz_LI kmin kmax t s a w (At (ZRemove (ZR_Lock_P k p c))) g =
     (list_op kmin kmax (Delete k) g \<and> lz_node s w p (\<lambda>x. x < k) \<and> lz_ahead s w (Delete k) g c \<and> lz_node s w c (\<lambda>x. k \<le> x))"
| "lz_LI kmin kmax t s a w (At (ZRemove (ZR_Lock_C k p c))) g =
     (list_op kmin kmax (Delete k) g \<and> lz_node s w p (\<lambda>x. x < k) \<and> lz_ahead s w (Delete k) g c \<and> lz_node s w c (\<lambda>x. k \<le> x))"
| "lz_LI kmin kmax t s a w (At (ZRemove (ZR_Mark_P k p c))) g =
     (list_op kmin kmax (Delete k) g \<and> lz_node s w p (\<lambda>x. x < k) \<and> lz_ahead s w (Delete k) g c \<and> lz_node s w c (\<lambda>x. k \<le> x))"
| "lz_LI kmin kmax t s a w (At (ZRemove (ZR_Mark_C k p c))) g =
     (list_op kmin kmax (Delete k) g \<and> lz_node s w p (\<lambda>x. x < k) \<and> lz_ahead s w (Delete k) g c \<and> lz_node s w c (\<lambda>x. k \<le> x) \<and>
      lz_mine s t p)"
| "lz_LI kmin kmax t s a w (At (ZRemove (ZR_Adj k p c))) g =
     (list_op kmin kmax (Delete k) g \<and> lz_node s w p (\<lambda>x. x < k) \<and> lz_ahead s w (Delete k) g c \<and> lz_node s w c (\<lambda>x. k \<le> x) \<and>
      lz_mine s t p \<and> lz_mine s t c)"
| "lz_LI kmin kmax t s a w (At (ZRemove (ZR_Test k p c))) g =
     (list_op kmin kmax (Delete k) g \<and> lz_node s w p (\<lambda>x. x < k) \<and> lz_ahead s w (Delete k) g c \<and> lz_node s w c (\<lambda>x. k \<le> x) \<and>
      lz_mine s t p \<and> lz_mine s t c \<and> lz_points s t p c)"
| "lz_LI kmin kmax t s a w (At (ZRemove (ZR_Val k p c))) g =
     (list_op kmin kmax (Delete k) g \<and> lz_node s w p (\<lambda>x. x < k) \<and> lz_node s w c (\<lambda>x. x = k) \<and>
      lz_mine s t p \<and> lz_mine s t c \<and> lz_points s t p c)"
| "lz_LI kmin kmax t s a w (At (ZRemove (ZR_CNext k p c r))) g =
     (list_op kmin kmax (Delete k) g \<and> lz_node s w p (\<lambda>x. x < k) \<and> lz_val s w c k r \<and>
      lz_mine s t p \<and> lz_mine s t c \<and> lz_points s t p c)"
| "lz_LI kmin kmax t s a w (At (ZRemove (ZR_Set k p c d r))) g =
     (list_op kmin kmax (Delete k) g \<and> lz_node s w p (\<lambda>x. x < k) \<and> lz_val s w c k r \<and>
      lz_mine s t p \<and> lz_mine s t c \<and> lz_points s t p c \<and> lz_points s t c d)"
| "lz_LI kmin kmax t s a w (At (ZRemove (ZR_Unlink k p c d r))) g =
     (kmin < k \<and> k < kmax \<and> g = Closed (Ret_Val r) \<and> lz_node s w p (\<lambda>x. x < k) \<and> lz_val s w c k r \<and>
      lz_mine s t p \<and> lz_gone s t c \<and> lz_points s t p c \<and> lz_points s t c d)"
| "lz_LI kmin kmax t s a w (At (ZRemove (ZR_Free k p c r))) g = 
     (g = Closed (Ret_Val r) \<and> lz_node s w p (\<lambda>x. x < k) \<and> lz_node s w c (\<lambda>x. k \<le> x))"
| "lz_LI kmin kmax t s a w (At (ZRemove (ZR_Unlock_C k p c res))) g =
     (lz_node s w p (\<lambda>x. x < k) \<and> lz_node s w c (\<lambda>x. k \<le> x) \<and> (case res of None \<Rightarrow> list_op kmin kmax (Delete k) g | Some r \<Rightarrow> returns g (Ret_Val r)))"
| "lz_LI kmin kmax t s a w (At (ZRemove (ZR_Unlock_P k p res))) g =
     (lz_node s w p (\<lambda>x. x < k) \<and> (case res of None \<Rightarrow> list_op kmin kmax (Delete k) g | Some r \<Rightarrow> returns g (Ret_Val r)))"

lemma lz_SI_mono: "lz_SI kmin kmax n s a w \<Longrightarrow> lz_SI kmin kmax (Suc n) s a w"
  unfolding lz_SI_def by blast

section \<open>Interference\<close>

text \<open>A step of another thread leaves a node whose lock one holds alone: it stays locked, in the list if it
  was, with its mark and its pointer.\<close>

definition lz_frame :: "tid \<Rightarrow> ('k, 'v) lazy \<Rightarrow> ('k, 'v) lazy \<Rightarrow> bool" where
  "lz_frame u s s' \<longleftrightarrow> (\<forall>p. lz_lock s p = Some u \<longrightarrow> lz_lock s' p = Some u \<and> (lz_clean s' p \<longleftrightarrow> lz_clean s p) \<and>
     nm_of (lz_cells s') p = nm_of (lz_cells s) p \<and> (p \<in> lz_nodes s \<longrightarrow> p \<in> lz_nodes s'))"

lemma lz_SI_D:
  assumes "lz_SI kmin kmax n s a w"
  shows "slist kmin kmax (lz_mem s) w (lz_head s) (lz_live s) a"
    and "Owns p \<in> held (w t) \<longleftrightarrow> lz_lock s p = Some t"
    and "published (lz_mem s) w p \<Longrightarrow> lz_clean s p \<Longrightarrow> p \<in> lz_nodes s"
    and "p \<in> lz_nodes s \<Longrightarrow> lz_clean s p \<or> (\<exists>t. Unlinking p \<in> held (w t))"
  using assms unfolding lz_SI_def by blast+

lemma lz_lock_cell: "lz_lock s p = Some t \<Longrightarrow> \<exists>n. lz_cells s p = Some n \<and> lm_lock n = Some t"
  by (cases "lz_cells s p") (auto simp: lz_lock_def)

lemma lz_found_stable:
  assumes "list_effect t (lz_mem s) w live a (lz_mem s') w' live' a'" and "lz_found s w k g c"
  shows "lz_found s' w' k (observe map_spec a' g) c"
proof -
  from assms(2) obtain n where n: "published (lz_mem s) w c" "lz_cells s c = Some n" "ll_key n = k \<longrightarrow> seen_present g (ll_val n)"
    by (auto simp: lz_found_def)
  from effect_cell [OF assms(1) n(1,2)] effect_published [OF assms(1) n(1)] n(3) show ?thesis
    by (auto simp: lz_found_def seen_present_observe)
qed

lemma lz_val_stable:
  "list_effect t (lz_mem s) w live a (lz_mem s') w' live' a' \<Longrightarrow> lz_val s w c k r \<Longrightarrow> lz_val s' w' c k r"
  using effect_kv effect_published unfolding lz_val_def by fastforce

lemma lz_stable:
  fixes s :: "('k::linorder, 'v::zero) lazy"
  assumes le: "list_effect t (lz_mem s) w (lz_live s) a (lz_mem s') w' (lz_live s') a'" and fr: "lz_frame u s s'"
    and ut: "u \<noteq> t" and own: "w u = lz_own z" and obs: "observed map_spec a g" and LI: "lz_LI kmin kmax u s a w z g"
  shows "lz_LI kmin kmax u s' a' w' z (observe map_spec a' g)"
proof -
  note op = list_op_stable [of kmin kmax _ g a'] and node = effect_node [OF le] and found = lz_found_stable [OF le]
    and val = lz_val_stable [OF le]
  have ahead: "lz_ahead s' w' op' (observe map_spec a' g) p" if "list_op kmin kmax op' g" "lz_ahead s w op' g p" for op' p
    using effect_ahead [OF le obs that] .
  have mine: "lz_mine s u p \<Longrightarrow> lz_mine s' u p" and gone: "lz_gone s u p \<Longrightarrow> lz_gone s' u p"
    and points: "lz_points s u p c \<Longrightarrow> lz_points s' u p c" for p c
    using fr unfolding lz_frame_def lz_mine_def lz_gone_def lz_points_def by auto
  have new: "lz_cells s' x = lz_cells s x" if "x \<in> private_nodes (w u)" for x
    using effect_private [OF le ut that] .
  note keep = op ahead node found val mine gone points
  show ?thesis
  proof (cases z)
    case (At x)
    show ?thesis
    proof (cases x)
      case (ZSearch pc)
      show ?thesis using LI keep unfolding At ZSearch by (cases pc) auto
    next
      case (ZInsert pc)
      show ?thesis
      proof (cases pc)
        case (ZI_Link k v p x)
        then have "lz_cells s' x = lz_cells s x" using new own by (simp add: At ZInsert)
        then show ?thesis using LI keep unfolding At ZInsert ZI_Link by auto
      qed (use LI keep returns_observe in \<open>auto simp: At ZInsert\<close>)
    next
      case (ZRemove pc)
      show ?thesis using LI keep returns_observe unfolding At ZRemove by (cases pc) (auto split: option.splits)
    qed
  qed (use LI in \<open>auto simp: returns_observe\<close>)
qed

section \<open>Kinds of steps\<close>

abbreviation lz_ok :: "'k::linorder \<Rightarrow> 'k \<Rightarrow> nat \<Rightarrow> tid \<Rightarrow> ('k, 'v::zero) lazy \<Rightarrow> ('k \<rightharpoonup> 'v) \<Rightarrow> (tid \<Rightarrow> lz_claim ownership) \<Rightarrow>
    (('k, 'v) map_op, 'v map_ret) ghost \<Rightarrow> ('k, 'v) lazy \<Rightarrow> (('k, 'v) lz_pc, 'v map_ret) control \<Rightarrow> bool" where
  "lz_ok kmin kmax \<equiv> step_ok map_spec lz_own (lz_SI kmin kmax) (lz_LI kmin kmax)"

lemma lz_step_ok:
  fixes s :: "('k::linorder, 'v::zero) lazy"
  assumes adv: "advance map_spec a g a' g'"
    and LI': "lz_LI kmin kmax t s' a' (w(t := lz_own y)) y g'"
    and sl: "slist kmin kmax (lz_mem s') (w(t := lz_own y)) (lz_head s') (lz_live s') a'"
    and le: "list_effect t (lz_mem s) w (lz_live s) a (lz_mem s') (w(t := lz_own y)) (lz_live s') a'"
    and locks: "\<And>u p. Owns p \<in> held ((w(t := lz_own y)) u) \<longleftrightarrow> lz_lock s' p = Some u"
    and clean: "\<And>p. published (lz_mem s') (w(t := lz_own y)) p \<Longrightarrow> lz_clean s' p \<Longrightarrow> p \<in> lz_nodes s'"
    and marked: "\<And>p. p \<in> lz_nodes s' \<Longrightarrow> lz_clean s' p \<or> (\<exists>u. Unlinking p \<in> held ((w(t := lz_own y)) u))"
    and fr: "\<And>u. u \<noteq> t \<Longrightarrow> lz_frame u s s'"
  shows "lz_ok kmin kmax n t s a w g s' y"
proof (rule step_okI [where own = lz_own and SI = "lz_SI kmin kmax" and LI = "lz_LI kmin kmax", OF adv _ LI'])
  show "lz_SI kmin kmax (Suc n) s' a' (w(t := lz_own y))" using sl locks clean marked unfolding lz_SI_def by blast
  show "\<And>u z gu. u \<noteq> t \<Longrightarrow> w u = lz_own z \<Longrightarrow> observed map_spec a gu \<Longrightarrow> lz_LI kmin kmax u s a w z gu \<Longrightarrow>
      lz_LI kmin kmax u s' a' (w(t := lz_own y)) z (observe map_spec a' gu)"
    using lz_stable [OF le fr] by blast
qed

lemmas lz_local = step_ok_local [where own = lz_own and SI = "lz_SI kmin kmax" and LI = "lz_LI kmin kmax" for kmin kmax]

text \<open>Taking or giving the lock of a node.\<close>

lemma lz_lock_step:
  assumes SI: "lz_SI kmin kmax n s a w" and nd: "lz_cells s p = Some nd" and p: "published (lz_mem s) w p"
    and l: "lm_lock nd = None \<and> l = Some t \<or> lm_lock nd = Some t \<and> l = None"
    and x: "private_nodes (lz_own y) = private_nodes (w t)" "owned (lz_own y) = owned (w t)"
      "\<And>q. Owns q \<in> held (lz_own y) \<longleftrightarrow> (if q = p then l = Some t else Owns q \<in> held (w t))"
      "\<And>q. Unlinking q \<in> held (lz_own y) \<longleftrightarrow> Unlinking q \<in> held (w t)"
    and s': "s' = s\<lparr>lz_mem := put_cell p (nd\<lparr>lm_lock := l\<rparr>) (lz_mem s)\<rparr>"
    and LI': "list_effect t (lz_mem s) w (lz_live s) a (lz_mem s') (w(t := lz_own y)) (lz_live s') a \<Longrightarrow>
       lz_nodes s' = lz_nodes s \<Longrightarrow> lz_LI kmin kmax t s' a (w(t := lz_own y)) y g"
  shows "lz_ok kmin kmax n t s a w g s' y"
proof -
  note si = lz_SI_D [OF SI]
  note wr = list_write [OF si(1) nd, where n' = "nd\<lparr>lm_lock := l\<rparr>" and t = t and x = "lz_own y"]
  have clean: "lz_clean s' q \<longleftrightarrow> lz_clean s q" and lock: "lz_lock s' q = (if q = p then l else lz_lock s q)" for q
    using nd by (auto simp: lz_clean_def lz_lock_def s')
  have nodes: "lz_nodes s' = lz_nodes s" and nm: "nm_of (lz_cells s') = nm_of (lz_cells s)"
    using wr p x by (simp_all add: s')
  have live: "lz_live s' = lz_live s"
    using wr p x clean by (simp add: lz_live_def s')
  have pub: "published (lz_mem s') (w(t := lz_own y)) q \<longleftrightarrow> published (lz_mem s) w q" for q
    using published_put_cell [of "lz_mem s" p "lz_own y" w t] x(1) nd by (simp add: s')
  have le: "list_effect t (lz_mem s) w (lz_live s) a (lz_mem s') (w(t := lz_own y)) (lz_live s') a"
    unfolding live using wr p x by (simp add: s')
  show ?thesis
  proof (rule lz_step_ok [OF advance_stay LI' [OF le nodes] _ le])
    show "slist kmin kmax (lz_mem s') (w(t := lz_own y)) (lz_head s') (lz_live s') a"
      unfolding live using wr p x by (simp add: s')
    show "Owns q \<in> held ((w(t := lz_own y)) u) \<longleftrightarrow> lz_lock s' q = Some u" for u q
      using si(2) [of q u] x(3) [of q] l nd by (auto simp: lock)
    show "q \<in> lz_nodes s'" if "published (lz_mem s') (w(t := lz_own y)) q" "lz_clean s' q" for q
      using si(3) that by (simp add: pub clean nodes)
    show "lz_clean s' q \<or> (\<exists>u. Unlinking q \<in> held ((w(t := lz_own y)) u))" if "q \<in> lz_nodes s'" for q
    proof -
      have "Unlinking q \<in> held ((w(t := lz_own y)) u) \<longleftrightarrow> Unlinking q \<in> held (w u)" for u using x(4) by simp
      then show ?thesis using si(4) [of q] that unfolding clean nodes by blast
    qed
    show "lz_frame u s s'" if "u \<noteq> t" for u
      using l nd that by (auto simp: lz_frame_def lock clean nodes nm)
  qed
qed

text \<open>Steps that leave the published nodes alone.\<close>

lemma lz_aside:
  assumes SI: "lz_SI kmin kmax n s a w" and s': "s' = s\<lparr>lz_mem := m\<rparr>"
    and x: "held (lz_own y) = held (w t)"
    and sl: "slist kmin kmax m (w(t := lz_own y)) (lz_head s) (lz_live s) a"
    and le: "list_effect t (lz_mem s) w (lz_live s) a m (w(t := lz_own y)) (lz_live s) a"
    and nodes: "lnodes m (lz_head s) = lz_nodes s" "ll_live m (lz_head s) = ll_live (lz_mem s) (lz_head s)"
      "\<And>q. lz_cells s q \<noteq> None \<Longrightarrow> cells m q = lz_cells s q"
      "\<And>q n. lz_cells s q = None \<Longrightarrow> cells m q = Some n \<Longrightarrow> lm_lock n = None"
    and pub: "\<And>q. published m (w(t := lz_own y)) q \<longleftrightarrow> published (lz_mem s) w q"
    and LI': "lz_LI kmin kmax t s' a (w(t := lz_own y)) y g"
  shows "lz_ok kmin kmax n t s a w g s' y"
proof -
  note si = lz_SI_D [OF SI]
  have lock: "lz_lock s' q = lz_lock s q" for q
    using nodes(3,4) [of q] by (cases "lz_cells s q"; cases "cells m q") (auto simp: lz_lock_def s')
  have old: "lz_clean s' q \<longleftrightarrow> lz_clean s q" "nm_of (lz_cells s') q = nm_of (lz_cells s) q"
    if "lz_cells s q \<noteq> None" for q
    using nodes(3) [OF that] by (simp_all add: lz_clean_def nm_of_def s')
  have ns: "lz_nodes s' = lz_nodes s" using nodes(1) by (simp add: s')
  have cell: "lz_cells s q \<noteq> None" if "q \<in> lz_nodes s" for q
    using slist_published [OF si(1) that] by (simp add: published_def)
  have "ll_live (lz_mem s) (lz_head s) \<subseteq> lz_nodes s" by (auto simp: ll_live_def)
  then have live: "lz_live s' = lz_live s" using nodes(2) cell old by (auto simp: lz_live_def s')
  show ?thesis
  proof (rule lz_step_ok [OF advance_stay LI'])
    show "slist kmin kmax (lz_mem s') (w(t := lz_own y)) (lz_head s') (lz_live s') a"
      "list_effect t (lz_mem s) w (lz_live s) a (lz_mem s') (w(t := lz_own y)) (lz_live s') a"
      unfolding live using sl le by (simp_all add: s')
    show "Owns q \<in> held ((w(t := lz_own y)) u) \<longleftrightarrow> lz_lock s' q = Some u" for u q
      using si(2) x by (simp add: lock)
    show "q \<in> lz_nodes s'" if "published (lz_mem s') (w(t := lz_own y)) q" "lz_clean s' q" for q
    proof -
      have "published (lz_mem s) w q" using that(1) pub by (simp add: s')
      then show ?thesis using si(3) [of q] old(1) [of q] that(2) by (simp add: published_def ns)
    qed
    show "lz_clean s' q \<or> (\<exists>u. Unlinking q \<in> held ((w(t := lz_own y)) u))" if "q \<in> lz_nodes s'" for q
    proof -
      have "held ((w(t := lz_own y)) u) = held (w u)" for u using x by simp
      then show ?thesis using si(4) [of q] that old(1) [OF cell] unfolding ns by blast
    qed
    show "lz_frame u s s'" if "u \<noteq> t" for u
      using lz_lock_cell [of s _ u] old by (auto simp: lz_frame_def lock ns)
  qed
qed

section \<open>What a thread knows\<close>

lemma lz_liveI:
  assumes SI: "lz_SI kmin kmax n s a w" and c: "published (lz_mem s) w c" "lz_cells s c = Some nd" "lm_marked nd = 0"
    and k: "kmin < ll_key nd" "ll_key nd < kmax"
  shows "c \<in> lz_live s" and "c \<in> lz_nodes s"
proof -
  note si = lz_SI_D [OF SI]
  show inn: "c \<in> lz_nodes s" using si(3) [OF c(1)] c by simp
  have "c \<noteq> lz_head s" using slist_head_node [OF si(1)] c(2) k(1) by (auto simp: list_node_def)
  moreover have "nm_of (lz_cells s) c \<noteq> Some NULL" using slist_next(2) [OF si(1) c(1,2) k(2)] c(2) by simp
  ultimately show "c \<in> lz_live s" using inn c(2,3) by (simp add: lz_live_def ll_live_def)
qed

lemma lz_foundI:
  assumes SI: "lz_SI kmin kmax n s a w" and c: "published (lz_mem s) w c" "lz_cells s c = Some nd" "lm_marked nd = 0"
    and op: "list_op kmin kmax op g" "op_key op = k" and obs: "observed map_spec a g"
  shows "lz_found s w k g c"
proof -
  note si = lz_SI_D [OF SI]
  from op(1) obtain W where g: "g = Open op W" "kmin < op_key op" "op_key op < kmax" by (rule list_opE)
  have "seen_present g (ll_val nd)" if "ll_key nd = k"
    using slist_live_present [OF si(1) lz_liveI(1) [OF SI c] c(2), of op W] that op(2) g obs by simp
  then show ?thesis using c by (simp add: lz_found_def)
qed

lemma lz_marked_absent:
  assumes SI: "lz_SI kmin kmax n s a w" and at: "lz_ahead s w op g c" and c: "lz_cells s c = Some nd" "lm_marked nd \<noteq> 0"
    and k: "ll_key nd = op_key op"
  shows "seen_absent g"
proof (rule slist_dead_absent [OF lz_SI_D(1) [OF SI] at c(1) k])
  show "c \<notin> lz_live s" using c by (simp add: lz_live_def)
qed

lemma lz_larger_absent:
  assumes SI: "lz_SI kmin kmax n s a w" and at: "lz_ahead s w op g c" and c: "lz_cells s c = Some nd"
    and node: "lz_node s w c (\<lambda>x. op_key op \<le> x)" and k: "ll_key nd \<noteq> op_key op"
  shows "seen_absent g"
proof -
  have "op_key op < ll_key nd" using node c k by (auto simp: list_node_def)
  then show ?thesis by (rule slist_absent [OF lz_SI_D(1) [OF SI] at c])
qed

lemma lz_next_node:
  assumes SI: "lz_SI kmin kmax n s a w" and op: "list_op kmin kmax op g" and p: "lz_node s w p (\<lambda>x. x < op_key op)"
    and nd: "lz_cells s p = Some nd"
  shows "lz_node s w (ll_next nd) (\<lambda>_. True)"
    and "lz_ahead s w op g p \<Longrightarrow> lz_ahead s w op g (ll_next nd)"
proof -
  have k: "ll_key nd < op_key op" "op_key op < kmax" "published (lz_mem s) w p"
    using p nd op by (auto simp: list_node_def list_op_def)
  have "ll_key nd < kmax" using k(1,2) by simp
  from slist_next(1) [OF lz_SI_D(1) [OF SI] k(3) nd this]
  show "lz_node s w (ll_next nd) (\<lambda>_. True)" by (auto simp: list_node_def)
  show "lz_ahead s w op g (ll_next nd)" if "lz_ahead s w op g p"
    by (rule slist_ahead_next [OF lz_SI_D(1) [OF SI] that nd k(1,2)])
qed

lemma lz_ahead_cell: "lz_ahead s w op g c \<Longrightarrow> \<exists>n. lz_cells s c = Some n"
  by (auto simp: list_ahead_def published_def)

lemma lz_ahead_pub: "lz_ahead s w op g c \<Longrightarrow> published (lz_mem s) w c"
  by (simp add: list_ahead_def)

lemma lz_head_facts:
  assumes SI: "lz_SI kmin kmax n s a w" and op: "list_op kmin kmax op g" and obs: "observed map_spec a g"
  shows "lz_ahead s w op g (lz_head s)" and "lz_node s w (lz_head s) (\<lambda>x. x < op_key op)"
proof -
  from op obtain W where g: "g = Open op W" "kmin < op_key op" by (rule list_opE)
  show "lz_ahead s w op g (lz_head s)"
    using slist_ahead_head [OF lz_SI_D(1) [OF SI]] obs unfolding g(1) by blast
  show "lz_node s w (lz_head s) (\<lambda>x. x < op_key op)"
    using slist_head_node [OF lz_SI_D(1) [OF SI]] g(2) by (auto simp: list_node_def)
qed

section \<open>The steps that change the list\<close>

text \<open>A new node is linked behind a locked, validated predecessor.\<close>

lemma lz_link_step:
  assumes SI: "lz_SI kmin kmax n s a w" and own: "w t = holding {x} {} {Owns p}" and nd: "lz_cells s p = Some nd"
    and p: "lz_mine s t p" "lz_points s t p c" "lz_node s w p (\<lambda>x. x < k)"
    and x: "lz_cells s x = Some (allocate_ll_marked k v c)" "lz_node s w c (\<lambda>x. k < x)" and g: "g = Open (Insert k v) W"
    and s': "s' = s\<lparr>lz_mem := put_cell p (nd\<lparr>ll_next := x\<rparr>) (lz_mem s)\<rparr>" and y: "y = At (ZInsert (ZI_Unlock k v p 1))"
  shows "lz_ok kmin kmax n t s a w g s' y"
proof -
  note si = lz_SI_D [OF SI]
  let ?a = "a(k \<mapsto> v)"
  have inn: "p \<in> lz_nodes s" and nx: "ll_next nd = c" and lkp: "lz_lock s p = Some t"
    using p nd by (auto simp: lz_mine_def lz_points_def)
  obtain nc where nc: "lz_cells s c = Some nc" "k < ll_key nc" using x(2) by (auto simp: list_node_def)
  have kp: "ll_key nd < k" using p(3) nd by (simp add: list_node_def)
  have ln: "slist kmin kmax (lz_mem s') (w(t := lz_own y)) (lz_head s) (insert x (lz_live s)) ?a"
    "list_effect t (lz_mem s) w (lz_live s) a (lz_mem s') (w(t := lz_own y)) (insert x (lz_live s)) ?a"
    "lnodes (lz_mem s') (lz_head s) = insert x (lz_nodes s)"
    "ll_live (lz_mem s') (lz_head s) = insert x (ll_live (lz_mem s) (lz_head s))"
    "nm_of (cells (lz_mem s')) = (nm_of (lz_cells s))(p := Some x)" "a k = None"
    using list_link [OF si(1) inn nd x(1), where t = t and n' = "nd\<lparr>ll_next := x\<rparr>" and x = "lz_own y" and nc = nc
        and m' = "lz_mem s'" and a' = ?a] own nc kp nx by (simp_all add: y s' ll_marked_defs)
  have xp: "x \<noteq> p" using partition_owned [OF slist_partition [OF si(1)], of x t] own inn by auto
  have clean: "lz_clean s' q \<longleftrightarrow> lz_clean s q" and lock: "lz_lock s' q = lz_lock s q" for q
    using nd by (auto simp: lz_clean_def lz_lock_def s')
  have cx: "lz_clean s x" using x(1) by (simp add: ll_marked_defs)
  have live: "lz_live s' = insert x (lz_live s)" using ln(4) clean cx by (auto simp: lz_live_def s')
  have nodes: "lz_nodes s' = insert x (lz_nodes s)" using ln(3) by (simp add: s')
  have pub: "published (lz_mem s') (w(t := lz_own y)) q \<Longrightarrow> published (lz_mem s) w q \<or> q = x" for q
    using published_put_new [of "lz_mem s" p "lz_own y" w t x] own nd by (simp add: s' y)
  show ?thesis
  proof (rule lz_step_ok [where a' = ?a and g' = "Closed (Ret_Int 1)"])
    show "advance map_spec a g ?a (Closed (Ret_Int 1))" unfolding g by (rule advance_lin) (simp add: ln(6))
    show "slist kmin kmax (lz_mem s') (w(t := lz_own y)) (lz_head s') (lz_live s') ?a"
      "list_effect t (lz_mem s) w (lz_live s) a (lz_mem s') (w(t := lz_own y)) (lz_live s') ?a"
      unfolding live using ln(1,2) by (simp_all add: s')
    show "Owns q \<in> held ((w(t := lz_own y)) u) \<longleftrightarrow> lz_lock s' q = Some u" for u q
      using si(2) [of q u] own by (cases "u = t") (auto simp: lock y)
    show "q \<in> lz_nodes s'" if "published (lz_mem s') (w(t := lz_own y)) q" "lz_clean s' q" for q
      using pub [OF that(1)] that(2) si(3) [of q] by (auto simp: nodes clean)
    show "lz_clean s' q \<or> (\<exists>u. Unlinking q \<in> held ((w(t := lz_own y)) u))" if "q \<in> lz_nodes s'" for q
    proof -
      have "Unlinking q \<in> held ((w(t := lz_own y)) u)" if "Unlinking q \<in> held (w u)" for u
        using that own by (auto simp: y split: if_splits)
      then show ?thesis using si(4) [of q] that cx unfolding nodes clean by blast
    qed
    show "lz_frame u s s'" if "u \<noteq> t" for u
      using that lkp ln(5) by (auto simp: lz_frame_def lock clean nodes)
  qed (use effect_node [OF ln(2) p(3)] in \<open>simp add: y s'\<close>)
qed

text \<open>The mark of a node is set: the removal takes effect.\<close>

lemma lz_mark_step:
  assumes SI: "lz_SI kmin kmax n s a w" and own: "w t = holding {} {} {Owns p, Owns c}" and nd: "lz_cells s c = Some nd"
    and p: "lz_mine s t p" "lz_points s t p c" "lz_node s w p (\<lambda>x. x < k)"
    and c: "lz_mine s t c" "lz_points s t c d" "lz_val s w c k r" and g: "g = Open (Delete k) W" and k: "kmin < k" "k < kmax"
    and s': "s' = s\<lparr>lz_mem := put_cell c (nd\<lparr>lm_marked := 1\<rparr>) (lz_mem s)\<rparr>" and y: "y = At (ZRemove (ZR_Unlink k p c d r))"
  shows "lz_ok kmin kmax n t s a w g s' y"
proof -
  note si = lz_SI_D [OF SI]
  let ?a = "a(k := None)"
  have kv: "ll_key nd = k" "ll_val nd = r" "published (lz_mem s) w c" using c(3) nd by (auto simp: lz_val_def)
  have m0: "lm_marked nd = 0" using c(1) nd by (simp add: lz_mine_def)
  have cl: "c \<in> lz_live s" by (rule lz_liveI [OF SI kv(3) nd m0]) (use kv k in simp_all)
  have pc: "p \<noteq> c" using p(3) kv(1) nd by (auto simp: list_node_def)
  note mk = list_mark [OF si(1) cl nd, where n' = "nd\<lparr>lm_marked := 1\<rparr>" and t = t and x = "lz_own y"]
  have clean: "lz_clean s' q \<longleftrightarrow> q \<noteq> c \<and> lz_clean s q" and lock: "lz_lock s' q = lz_lock s q" for q
    using nd by (auto simp: lz_clean_def lz_lock_def s')
  have nodes: "lz_nodes s' = lz_nodes s" and nm: "nm_of (lz_cells s') = nm_of (lz_cells s)"
    and le: "list_effect t (lz_mem s) w (lz_live s) a (lz_mem s') (w(t := lz_own y)) (lz_live s - {c}) ?a"
    and sl: "slist kmin kmax (lz_mem s') (w(t := lz_own y)) (lz_head s) (lz_live s - {c}) ?a" and ak: "a k = Some r"
    using mk own kv by (simp_all add: s' y)
  have "ll_live (lz_mem s') (lz_head s) = ll_live (lz_mem s) (lz_head s)"
    using nodes nm by (simp add: ll_live_def s')
  then have live: "lz_live s' = lz_live s - {c}" using clean by (auto simp: lz_live_def s')
  have pub: "published (lz_mem s') (w(t := lz_own y)) q \<longleftrightarrow> published (lz_mem s) w q" for q
    using published_put_cell [of "lz_mem s" c "lz_own y" w t] own nd by (simp add: s' y)
  have lkc: "lz_lock s c = Some t" using c(1) by (simp add: lz_mine_def)
  show ?thesis
  proof (rule lz_step_ok [where a' = ?a and g' = "Closed (Ret_Val r)"])
    show "advance map_spec a g ?a (Closed (Ret_Val r))" unfolding g by (rule advance_lin) (simp add: ak)
    show "slist kmin kmax (lz_mem s') (w(t := lz_own y)) (lz_head s') (lz_live s') ?a"
      "list_effect t (lz_mem s) w (lz_live s) a (lz_mem s') (w(t := lz_own y)) (lz_live s') ?a"
      unfolding live using sl le by (simp_all add: s')
    show "Owns q \<in> held ((w(t := lz_own y)) u) \<longleftrightarrow> lz_lock s' q = Some u" for u q
      using si(2) [of q u] own by (auto simp: lock y)
    show "q \<in> lz_nodes s'" if "published (lz_mem s') (w(t := lz_own y)) q" "lz_clean s' q" for q
      using that si(3) [of q] by (auto simp: pub nodes clean)
    show "lz_clean s' q \<or> (\<exists>u. Unlinking q \<in> held ((w(t := lz_own y)) u))" if "q \<in> lz_nodes s'" for q
    proof -
      have "Unlinking q \<in> held ((w(t := lz_own y)) u)" if "Unlinking q \<in> held (w u)" for u
        using that own by (auto simp: y split: if_splits)
      moreover have "Unlinking c \<in> held ((w(t := lz_own y)) t)" by (simp add: y)
      ultimately show ?thesis using si(4) [of q] that unfolding nodes clean by blast
    qed
    show "lz_frame u s s'" if "u \<noteq> t" for u
      using that lkc by (auto simp: lz_frame_def lock clean nodes nm)
    show "lz_LI kmin kmax t s' ?a (w(t := lz_own y)) y (Closed (Ret_Val r))"
      using p c k pc effect_node [OF le p(3)] lz_val_stable [OF le c(3)]
      by (simp add: y lz_mine_def lz_points_def lz_gone_def lock clean nodes nm)
  qed
qed

text \<open>The marked node is unlinked.\<close>

lemma lz_unlink_step:
  assumes SI: "lz_SI kmin kmax n s a w" and own: "w t = holding {} {} {Owns p, Owns c, Unlinking c}" and nd: "lz_cells s p = Some nd"
    and p: "lz_mine s t p" "lz_points s t p c" "lz_node s w p (\<lambda>x. x < k)"
    and c: "lz_gone s t c" "lz_points s t c d" "lz_val s w c k r" and k: "k < kmax" and g: "g = Closed (Ret_Val r)"
    and s': "s' = s\<lparr>lz_mem := put_cell p (nd\<lparr>ll_next := d\<rparr>) (lz_mem s)\<rparr>"
    and y: "y = At (ZRemove (if gc then ZR_Free k p c r else ZR_Unlock_C k p c (Some r)))"
  shows "lz_ok kmin kmax n t s a w g s' y"
proof -
  note si = lz_SI_D [OF SI]
  obtain nc where nc: "lz_cells s c = Some nc" "ll_next nc = d" "ll_key nc = k"
    using c by (auto simp: lz_points_def lz_val_def nm_of_def kv_of_def)
  have inn: "p \<in> lz_nodes s" and nx: "ll_next nd = c" and lkp: "lz_lock s p = Some t"
    using p nd by (auto simp: lz_mine_def lz_points_def)
  have dirty: "\<not> lz_clean s c" and lkc: "lz_lock s c = Some t" using c(1) by (simp_all add: lz_gone_def)
  have pc: "p \<noteq> c" using p(3) nc by (auto simp: list_node_def)
  have cl: "c \<notin> lz_live s" using dirty by (simp add: lz_live_def)
  note un = list_bypass [OF si(1) si(1) subset_refl inn nd nx cl nc(1), where n' = "nd\<lparr>ll_next := d\<rparr>" and t = t and x = "lz_own y"]
  have clean: "lz_clean s' q \<longleftrightarrow> lz_clean s q" and lock: "lz_lock s' q = lz_lock s q" for q
    using nd by (auto simp: lz_clean_def lz_lock_def s')
  have nodes: "lz_nodes s' = lz_nodes s - {c}" and nm: "nm_of (lz_cells s') = (nm_of (lz_cells s))(p := Some d)"
    and le: "list_effect t (lz_mem s) w (lz_live s) a (lz_mem s') (w(t := lz_own y)) (lz_live s) a"
    and sl: "slist kmin kmax (lz_mem s') (w(t := lz_own y)) (lz_head s) (lz_live s) a"
    and lv: "ll_live (lz_mem s') (lz_head s) = ll_live (lz_mem s) (lz_head s) - {c}"
    using un own nc k by (simp_all add: s' y)
  have live: "lz_live s' = lz_live s" using lv clean cl by (auto simp: lz_live_def s')
  have pub: "published (lz_mem s') (w(t := lz_own y)) q \<longleftrightarrow> published (lz_mem s) w q" for q
    using published_put_cell [of "lz_mem s" p "lz_own y" w t] own nd by (simp add: s' y)
  show ?thesis
  proof (rule lz_step_ok [OF advance_stay])
    show "slist kmin kmax (lz_mem s') (w(t := lz_own y)) (lz_head s') (lz_live s') a"
      "list_effect t (lz_mem s) w (lz_live s) a (lz_mem s') (w(t := lz_own y)) (lz_live s') a"
      unfolding live using sl le by (simp_all add: s')
    show "Owns q \<in> held ((w(t := lz_own y)) u) \<longleftrightarrow> lz_lock s' q = Some u" for u q
      using si(2) [of q u] own by (auto simp: lock y)
    show "q \<in> lz_nodes s'" if "published (lz_mem s') (w(t := lz_own y)) q" "lz_clean s' q" for q
      using that si(3) [of q] dirty by (auto simp: pub nodes clean)
    show "lz_clean s' q \<or> (\<exists>u. Unlinking q \<in> held ((w(t := lz_own y)) u))" if "q \<in> lz_nodes s'" for q
    proof -
      have "Unlinking q \<in> held ((w(t := lz_own y)) u)" if "Unlinking q \<in> held (w u)" "q \<noteq> c" for u
        using that own by (auto simp: y split: if_splits)
      then show ?thesis using si(4) [of q] that unfolding nodes clean by blast
    qed
    show "lz_frame u s s'" if "u \<noteq> t" for u
      using that lkp lkc by (auto simp: lz_frame_def lock clean nodes nm)
    show "lz_LI kmin kmax t s' a (w(t := lz_own y)) y g"
      using g effect_node [OF le p(3)] lz_val_stable [OF le c(3)] by (auto simp: y lz_val_def list_node_def kv_of_def)
  qed
qed

section \<open>The steps\<close>

lemma lz_acquire_Next:
  assumes "lz_acquire t s p x = Next s' y"
  obtains nd where "lz_cells s p = Some nd" "lm_lock nd = None" "y = At x"
    "s' = s\<lparr>lz_mem := put_cell p (nd\<lparr>lm_lock := Some t\<rparr>) (lz_mem s)\<rparr>"
  using assms by (auto simp: lz_acquire_def split: if_splits)

lemma lz_unlock_Next:
  assumes "lz_unlock s p z = Next s' y"
  obtains nd where "lz_cells s p = Some nd" "y = z" "s' = s\<lparr>lz_mem := put_cell p (nd\<lparr>lm_lock := None\<rparr>) (lz_mem s)\<rparr>"
  using assms by (auto simp: lz_unlock_def)

text \<open>A lock is taken: the thread owns what it owned before, and the lock.\<close>

lemma lz_acquire_step:
  assumes SI: "lz_SI kmin kmax n s a w" and p: "published (lz_mem s) w p" and ex: "lz_acquire t s p x = Next s' y"
    and own: "private_nodes (w t) = {}" "retired_nodes (w t) = {}" "lz_own (At x) = holding {} {} (insert (Owns p) (held (w t)))"
      "\<And>q. Unlinking q \<notin> held (w t)"
    and LI': "\<And>s'. list_effect t (lz_mem s) w (lz_live s) a (lz_mem s') (w(t := lz_own (At x))) (lz_live s') a \<Longrightarrow>
       lz_LI kmin kmax t s' a (w(t := lz_own (At x))) (At x) g"
  shows "lz_ok kmin kmax n t s a w g s' y"
proof -
  from ex obtain nd where nd: "lz_cells s p = Some nd" "lm_lock nd = None" and y: "y = At x"
    and s': "s' = s\<lparr>lz_mem := put_cell p (nd\<lparr>lm_lock := Some t\<rparr>) (lz_mem s)\<rparr>" by (rule lz_acquire_Next)
  show ?thesis
    by (rule lz_lock_step [OF SI nd(1) p _ _ _ _ _ s']) (use own nd(2) LI' y in \<open>auto simp: owned_def\<close>)
qed

lemma lz_release_step:
  assumes SI: "lz_SI kmin kmax n s a w" and mine: "Owns p \<in> held (w t)" and ex: "lz_unlock s p z = Next s' y"
    and own: "private_nodes (w t) = {}" "retired_nodes (w t) = {}" "lz_own z = holding {} {} (held (w t) - {Owns p})"
      "\<And>q. Unlinking q \<notin> held (w t)"
    and LI': "\<And>s'. list_effect t (lz_mem s) w (lz_live s) a (lz_mem s') (w(t := lz_own z)) (lz_live s') a \<Longrightarrow>
       lz_LI kmin kmax t s' a (w(t := lz_own z)) z g"
    and p: "published (lz_mem s) w p"
  shows "lz_ok kmin kmax n t s a w g s' y"
proof -
  note si = lz_SI_D [OF SI]
  from ex obtain nd where nd: "lz_cells s p = Some nd" and y: "y = z"
    and s': "s' = s\<lparr>lz_mem := put_cell p (nd\<lparr>lm_lock := None\<rparr>) (lz_mem s)\<rparr>" by (rule lz_unlock_Next)
  have "lm_lock nd = Some t" using si(2) [of p t] mine nd by simp
  then show ?thesis
    by (intro lz_lock_step [OF SI nd p _ _ _ _ _ s']) (use own LI' y in \<open>auto simp: owned_def\<close>)
qed

text \<open>A locked node is published: private nodes are never locked.\<close>

lemma lz_owned_cell: "lz_SI kmin kmax n s a w \<Longrightarrow> Owns p \<in> held (w t) \<Longrightarrow> \<exists>nd. lz_cells s p = Some nd \<and> lm_lock nd = Some t"
  using lz_SI_D(2) lz_lock_cell by blast

lemma lz_search_step:
  assumes SI: "lz_SI kmin kmax n s a w" and LI: "lz_LI kmin kmax t s a w (At (ZSearch x)) g" and obs: "observed map_spec a g"
    and own: "w t = lz_own (At (ZSearch x))" and ex: "lz_search s x = Next s' y"
  shows "lz_ok kmin kmax n t s a w g s' y"
proof -
  note loc = lz_local [OF lz_SI_mono [OF SI]]
  show ?thesis
  proof (cases x)
    case (ZS_Head k)
    then have "s' = s" "y = At (ZSearch (ZS_Key k (lz_head s)))" using ex by auto
    then show ?thesis using ZS_Head LI own lz_head_facts(1) [OF SI _ obs, of "Search k"] by (auto intro!: loc)
  next
    case (ZS_Key k c)
    with ex obtain nd where nd: "lz_cells s c = Some nd" "s' = s"
      "y = At (ZSearch (if ll_key nd < k then ZS_Next k c else ZS_Test k c))" by auto
    then show ?thesis using ZS_Key LI own lz_ahead_pub [of s w "Search k" g c] by (auto simp: list_node_def intro!: loc)
  next
    case (ZS_Next k c)
    with ex obtain nd where nd: "lz_cells s c = Some nd" "s' = s" "y = At (ZSearch (ZS_Key k (ll_next nd)))" by auto
    then show ?thesis using ZS_Next LI own lz_next_node(2) [OF SI, of "Search k" g c nd] by (auto intro!: loc)
  next
    case (ZS_Test k c)
    with ex obtain nd where nd: "lz_cells s c = Some nd" "s' = s"
      "y = (if ll_key nd = k then At (ZSearch (ZS_Mark k c)) else Finished (Ret_Val 0))" by auto
    show ?thesis
    proof (cases "ll_key nd = k")
      case True
      then show ?thesis using nd ZS_Test LI own by (auto simp: list_node_def intro!: loc)
    next
      case False
      then have "seen_absent g" using lz_larger_absent [OF SI, of "Search k" g c nd] nd(1) LI ZS_Test by auto
      then show ?thesis using nd False ZS_Test LI own by (auto simp: list_op_def intro!: loc)
    qed
  next
    case (ZS_Mark k c)
    with ex obtain nd where nd: "lz_cells s c = Some nd" "s' = s"
      "y = (if lm_marked nd = 0 then At (ZSearch (ZS_Val k c)) else Finished (Ret_Val 0))" by auto
    have c: "published (lz_mem s) w c" "ll_key nd = k" "list_op kmin kmax (Search k) g" "lz_ahead s w (Search k) g c"
      using LI ZS_Mark nd(1) by (auto simp: list_node_def)
    show ?thesis
    proof (cases "lm_marked nd = 0")
      case True
      from lz_foundI [OF SI c(1) nd(1) True c(3) _ obs, of k] show ?thesis
        using nd True c ZS_Mark LI own by (auto intro!: loc)
    next
      case False
      then have "seen_absent g" using lz_marked_absent [OF SI c(4) nd(1) False] c by simp
      then show ?thesis using nd False c ZS_Mark LI own by (auto simp: list_op_def intro!: loc)
    qed
  next
    case (ZS_Val k c)
    with ex obtain nd where nd: "lz_cells s c = Some nd" "s' = s" "y = Finished (Ret_Val (ll_val nd))" by auto
    then show ?thesis using LI own ZS_Val by (auto simp: lz_found_def list_node_def list_op_def intro!: loc)
  qed
qed

lemma lz_insert_step:
  assumes SI: "lz_SI kmin kmax n s a w" and LI: "lz_LI kmin kmax t s a w (At (ZInsert x)) g" and obs: "observed map_spec a g"
    and own: "w t = lz_own (At (ZInsert x))" and ex: "lz_insert ro t p s x = Next s' y"
  shows "lz_ok kmin kmax n t s a w g s' y"
proof -
  note loc = lz_local [OF lz_SI_mono [OF SI]]
  note si = lz_SI_D [OF SI]
  show ?thesis
  proof (cases x)
    case (ZI_Head k v)
    then have "s' = s" "y = At (ZInsert (ZI_Next k v (lz_head s)))" using ex by auto
    then show ?thesis using ZI_Head LI own lz_head_facts(2) [OF SI _ obs, of "Insert k v"] by (auto intro!: loc)
  next
    case (ZI_Next k v q)
    with ex obtain nd where nd: "lz_cells s q = Some nd" "s' = s" "y = At (ZInsert (ZI_Key k v q (ll_next nd)))" by auto
    then show ?thesis using ZI_Next LI own lz_next_node(1) [OF SI, of "Insert k v" g q nd] by (auto intro!: loc)
  next
    case (ZI_Key k v q c)
    with ex obtain nd where nd: "lz_cells s c = Some nd" "s' = s" "y = At (ZInsert
       (if ll_key nd < k then ZI_Next k v c else if ro then ZI_RO k v q c else ZI_Lock k v q c))" by auto
    then show ?thesis using ZI_Key LI own by (auto simp: list_node_def intro!: loc)
  next
    case (ZI_RO k v q c)
    with ex obtain nd where nd: "lz_cells s c = Some nd" "s' = s"
      "y = At (ZInsert (if ll_key nd = k then ZI_RO_Mark k v c else ZI_Lock k v q c))" by auto
    then show ?thesis using ZI_RO LI own by (auto simp: list_node_def intro!: loc)
  next
    case (ZI_RO_Mark k v c)
    with ex obtain nd where nd: "lz_cells s c = Some nd" "s' = s"
      "y = (if lm_marked nd \<noteq> 0 then At (ZInsert (ZI_Head k v)) else Finished (Ret_Int 0))" by auto
    have c: "published (lz_mem s) w c" "ll_key nd = k" "list_op kmin kmax (Insert k v) g"
      using LI ZI_RO_Mark nd(1) by (auto simp: list_node_def)
    show ?thesis
    proof (cases "lm_marked nd = 0")
      case True
      from lz_foundI [OF SI c(1) nd(1) True c(3) _ obs, of k] have "seen_present g (ll_val nd)"
        using nd(1) c(2) by (simp add: lz_found_def)
      then show ?thesis using nd True c ZI_RO_Mark LI own by (auto simp: list_op_def intro!: loc)
    next
      case False
      then show ?thesis using nd c ZI_RO_Mark LI own by (auto intro!: loc)
    qed
  next
    case (ZI_Lock k v q c)
    have "lz_acquire t s q (ZInsert (ZI_Mark_P k v q c)) = Next s' y" using ex ZI_Lock by simp
    then show ?thesis
      by (intro lz_acquire_step [OF SI]) (use LI ZI_Lock own in \<open>auto dest: effect_node list_node_published\<close>)
  next
    case (ZI_Mark_P k v q c)
    with ex obtain nd where nd: "lz_cells s q = Some nd" "s' = s"
      "y = At (ZInsert (if lm_marked nd = 0 then ZI_Mark_C k v q c else ZI_Unlock k v q (-1)))" by auto
    have "lz_lock s q = Some t" using si(2) [of q t] own ZI_Mark_P by simp
    then show ?thesis using nd ZI_Mark_P LI own si(3) [of q] by (auto simp: lz_mine_def list_node_def intro!: loc)
  next
    case (ZI_Mark_C k v q c)
    with ex obtain nd where nd: "lz_cells s c = Some nd" "s' = s"
      "y = At (ZInsert (if lm_marked nd = 0 then ZI_Adj k v q c else ZI_Unlock k v q (-1)))" by auto
    have c: "published (lz_mem s) w c" "list_op kmin kmax (Insert k v) g" using LI ZI_Mark_C by (auto simp: list_node_def)
    show ?thesis
    proof (cases "lm_marked nd = 0")
      case True
      then show ?thesis using nd ZI_Mark_C LI own lz_foundI [OF SI c(1) nd(1) True c(2) _ obs, of k] by (auto intro!: loc)
    next
      case False
      then show ?thesis using nd ZI_Mark_C LI own by (auto intro!: loc)
    qed
  next
    case (ZI_Adj k v q c)
    with ex obtain nd where nd: "lz_cells s q = Some nd" "s' = s"
      "y = At (ZInsert (if ll_next nd = c then ZI_Test k v q c else ZI_Unlock k v q (-1)))" by auto
    then show ?thesis using ZI_Adj LI own by (auto simp: lz_mine_def lz_points_def intro!: loc)
  next
    case (ZI_Test k v q c)
    with ex obtain nd where nd: "lz_cells s c = Some nd" "s' = s"
      "y = At (ZInsert (if ll_key nd \<noteq> k then ZI_Alloc k v q c else ZI_Unlock k v q 0))" by auto
    then show ?thesis using ZI_Test LI own by (auto simp: list_node_def lz_found_def list_op_def intro!: loc)
  next
    case (ZI_Alloc k v q c)
    then have ow: "w t = holding {} {} {Owns q}" using own by simp
    let ?n = "allocate_ll_marked k v c"
    from ex ZI_Alloc have fr: "fresh (lz_cells s) p" and s': "s' = s\<lparr>lz_mem := put_cell p ?n (lz_mem s)\<rparr>"
      and y: "y = At (ZInsert (ZI_Link k v q p))" by auto
    have np: "lz_cells s p = None" using fr by (simp add: fresh_def)
    note al = list_alloc [OF si(1) fr, where t = t and x = "lz_own y" and n = ?n]
    have le: "list_effect t (lz_mem s) w (lz_live s) a (lz_mem s') (w(t := lz_own y)) (lz_live s) a"
      using al ow by (simp add: s' y)
    have pp: "p \<notin> private_nodes (w u)" for u
      using partition_fresh [OF slist_partition [OF si(1)] fr, of u] by blast
    have pub: "published (put_cell p ?n (lz_mem s)) (w(t := lz_own y)) r \<longleftrightarrow> published (lz_mem s) w r" for r
      using published_alloc_cell [of "lz_mem s" p w "lz_own y" t] ow np pp by (simp add: y)
    have lk: "lz_lock s' r = lz_lock s r" for r using np by (auto simp: lz_lock_def s' allocate_ll_marked_def)
    have qp: "q \<noteq> p" "c \<noteq> p" using LI ZI_Alloc np by (auto simp: list_node_def)
    then have keep: "lz_mine s' t q" "lz_points s' t q c"
      using LI ZI_Alloc al(3) ow by (auto simp: lz_mine_def lz_points_def lk lz_clean_def nm_of_def s' y)
    show ?thesis
    proof (rule lz_aside [OF SI s'])
      show "lz_LI kmin kmax t s' a (w(t := lz_own y)) y g"
        using LI ZI_Alloc keep effect_node [OF le] unfolding y by (auto simp: s')
    qed (use al ow np pub in \<open>auto simp: y allocate_ll_marked_def split: if_splits\<close>)
  next
    case (ZI_Link k v q r)
    then have ow: "w t = holding {r} {} {Owns q}" using own by simp
    from ex ZI_Link obtain nd where nd: "lz_cells s q = Some nd"
      and s': "s' = s\<lparr>lz_mem := put_cell q (nd\<lparr>ll_next := r\<rparr>) (lz_mem s)\<rparr>" and y: "y = At (ZInsert (ZI_Unlock k v q 1))"
      by auto
    from LI ZI_Link obtain c W where "lz_cells s r = Some (allocate_ll_marked k v c)" "lz_node s w c (\<lambda>x. k < x)" "lz_points s t q c"
      "lz_mine s t q" "lz_node s w q (\<lambda>x. x < k)" "g = Open (Insert k v) W" by (auto simp: list_op_def)
    from lz_link_step [OF SI ow nd this(4,3,5,1,2,6) s' y] show ?thesis .
  next
    case (ZI_Unlock k v q r)
    have ex': "lz_unlock s q (if r < 0 then At (ZInsert (ZI_Head k v)) else Finished (Ret_Int r)) = Next s' y"
      using ex ZI_Unlock by simp
    show ?thesis
      by (rule lz_release_step [OF SI _ ex'])
        (use LI own ZI_Unlock in \<open>auto dest: effect_node list_node_published split: if_splits\<close>)
  qed
qed

lemma lz_remove_step:
  assumes SI: "lz_SI kmin kmax n s a w" and LI: "lz_LI kmin kmax t s a w (At (ZRemove x)) g" and obs: "observed map_spec a g"
    and own: "w t = lz_own (At (ZRemove x))" and ex: "lz_remove gc ro t s x = Next s' y"
  shows "lz_ok kmin kmax n t s a w g s' y"
proof -
  note loc = lz_local [OF lz_SI_mono [OF SI]]
  note si = lz_SI_D [OF SI]
  have at: "lz_ahead s' w' op g c"
    if "list_effect t (lz_mem s) w (lz_live s) a (lz_mem s') w' (lz_live s') a" "list_op kmin kmax op g" "lz_ahead s w op g c" for s' w' op c
    using effect_ahead [OF that(1) obs that(2,3)] by (simp add: observe_observed [OF obs])
  show ?thesis
  proof (cases x)
    case (ZR_Head k)
    then have "s' = s" "y = At (ZRemove (ZR_Next k (lz_head s)))" using ex by auto
    then show ?thesis using ZR_Head LI own lz_head_facts [OF SI _ obs, of "Delete k"] by (auto intro!: loc)
  next
    case (ZR_Next k q)
    with ex obtain nd where nd: "lz_cells s q = Some nd" "s' = s" "y = At (ZRemove (ZR_Key k q (ll_next nd)))" by auto
    then show ?thesis using ZR_Next LI own lz_next_node(2) [OF SI, of "Delete k" g q nd] by (auto intro!: loc)
  next
    case (ZR_Key k q c)
    with ex obtain nd where nd: "lz_cells s c = Some nd" "s' = s" "y = At (ZRemove
       (if ll_key nd < k then ZR_Next k c else if ro then ZR_RO k q c else ZR_Lock_P k q c))" by auto
    then show ?thesis using ZR_Key LI own lz_ahead_pub [of s w "Delete k" g c] by (auto simp: list_node_def intro!: loc)
  next
    case (ZR_RO k q c)
    with ex obtain nd where nd: "lz_cells s c = Some nd" "s' = s"
      "y = (if ll_key nd \<noteq> k then Finished (Ret_Val 0) else At (ZRemove (ZR_Lock_P k q c)))" by auto
    show ?thesis
    proof (cases "ll_key nd = k")
      case True
      then show ?thesis using nd ZR_RO LI own by (auto intro!: loc)
    next
      case False
      then have "seen_absent g" using lz_larger_absent [OF SI, of "Delete k" g c nd] nd(1) LI ZR_RO by auto
      then show ?thesis using nd False ZR_RO LI own by (auto simp: list_op_def intro!: loc)
    qed
  next
    case (ZR_Lock_P k q c)
    have "lz_acquire t s q (ZRemove (ZR_Lock_C k q c)) = Next s' y" using ex ZR_Lock_P by simp
    then show ?thesis
      by (intro lz_acquire_step [OF SI])
        (use LI ZR_Lock_P own in \<open>auto intro: effect_node at dest: list_node_published\<close>)
  next
    case (ZR_Lock_C k q c)
    have "lz_acquire t s c (ZRemove (ZR_Mark_P k q c)) = Next s' y" using ex ZR_Lock_C by simp
    then show ?thesis
      by (intro lz_acquire_step [OF SI])
        (use LI ZR_Lock_C own in \<open>auto intro: effect_node at dest: list_node_published\<close>)
  next
    case (ZR_Mark_P k q c)
    with ex obtain nd where nd: "lz_cells s q = Some nd" "s' = s"
      "y = At (ZRemove (if lm_marked nd = 0 then ZR_Mark_C k q c else ZR_Unlock_C k q c None))" by auto
    have "lz_lock s q = Some t" using si(2) [of q t] own ZR_Mark_P by simp
    then show ?thesis using nd ZR_Mark_P LI own si(3) [of q] by (auto simp: lz_mine_def list_node_def intro!: loc)
  next
    case (ZR_Mark_C k q c)
    with ex obtain nd where nd: "lz_cells s c = Some nd" "s' = s"
      "y = At (ZRemove (if lm_marked nd = 0 then ZR_Adj k q c else ZR_Unlock_C k q c None))" by auto
    have "lz_lock s c = Some t" using si(2) [of c t] own ZR_Mark_C by simp
    then show ?thesis using nd ZR_Mark_C LI own si(3) [of c] by (auto simp: lz_mine_def list_node_def intro!: loc)
  next
    case (ZR_Adj k q c)
    with ex obtain nd where nd: "lz_cells s q = Some nd" "s' = s"
      "y = At (ZRemove (if ll_next nd = c then ZR_Test k q c else ZR_Unlock_C k q c None))" by auto
    then show ?thesis using ZR_Adj LI own by (auto simp: lz_mine_def lz_points_def intro!: loc)
  next
    case (ZR_Test k q c)
    with ex obtain nd where nd: "lz_cells s c = Some nd" "s' = s"
      "y = At (ZRemove (if k = ll_key nd then ZR_Val k q c else ZR_Unlock_C k q c (Some 0)))" by auto
    show ?thesis
    proof (cases "k = ll_key nd")
      case True
      then show ?thesis using nd ZR_Test LI own by (auto simp: list_node_def intro!: loc)
    next
      case False
      then have "seen_absent g" using lz_larger_absent [OF SI, of "Delete k" g c nd] nd(1) LI ZR_Test by auto
      then show ?thesis using nd False ZR_Test LI own by (auto simp: list_op_def intro!: loc)
    qed
  next
    case (ZR_Val k q c)
    with ex obtain nd where nd: "lz_cells s c = Some nd" "s' = s" "y = At (ZRemove (ZR_CNext k q c (ll_val nd)))" by auto
    then show ?thesis using ZR_Val LI own by (auto simp: lz_val_def list_node_def intro!: loc)
  next
    case (ZR_CNext k q c r)
    with ex obtain nd where nd: "lz_cells s c = Some nd" "s' = s" "y = At (ZRemove (ZR_Set k q c (ll_next nd) r))" by auto
    then show ?thesis using ZR_CNext LI own by (auto simp: lz_points_def lz_mine_def intro!: loc)
  next
    case (ZR_Set k q c d r)
    then have ow: "w t = holding {} {} {Owns q, Owns c}" using own by simp
    from ex ZR_Set obtain nd where nd: "lz_cells s c = Some nd"
      and s': "s' = s\<lparr>lz_mem := put_cell c (nd\<lparr>lm_marked := 1\<rparr>) (lz_mem s)\<rparr>" and y: "y = At (ZRemove (ZR_Unlink k q c d r))"
      by auto
    from LI ZR_Set obtain W where W: "g = Open (Delete k) W" "kmin < k" "k < kmax"
      "lz_mine s t q" "lz_points s t q c" "lz_node s w q (\<lambda>x. x < k)" "lz_mine s t c" "lz_points s t c d" "lz_val s w c k r"
      by (auto simp: list_op_def)
    show ?thesis by (rule lz_mark_step [OF SI ow nd W(4-9,1-3) s' y])
  next
    case (ZR_Unlink k q c d r)
    then have ow: "w t = holding {} {} {Owns q, Owns c, Unlinking c}" using own by simp
    from ex ZR_Unlink obtain nd where nd: "lz_cells s q = Some nd"
      and s': "s' = s\<lparr>lz_mem := put_cell q (nd\<lparr>ll_next := d\<rparr>) (lz_mem s)\<rparr>"
      and y: "y = At (ZRemove (if gc then ZR_Free k q c r else ZR_Unlock_C k q c (Some r)))"
      by auto
    have W: "g = Closed (Ret_Val r)" "k < kmax" "lz_mine s t q" "lz_points s t q c" "lz_node s w q (\<lambda>x. x < k)"
      "lz_gone s t c" "lz_points s t c d" "lz_val s w c k r" using LI ZR_Unlink by auto
    show ?thesis by (rule lz_unlink_step [OF SI ow nd W(3-8,2,1) s' y])
  next
    case (ZR_Free k q c r)
    then have ow: "w t = holding {} {c} {Owns q, Owns c}" using own by simp
    from ex ZR_Free have s': "s' = s\<lparr>lz_mem := (lz_mem s)\<lparr>released := insert c (released (lz_mem s))\<rparr>\<rparr>"
      and y: "y = At (ZRemove (ZR_Unlock_C k q c (Some r)))" by (auto simp: ll_marked_defs)
    note re = list_release [OF si(1) _ _ _ refl, of c t "lz_own y"]
    have pub: "published ((lz_mem s)\<lparr>released := insert c (released (lz_mem s))\<rparr>) (w(t := lz_own y)) p \<longleftrightarrow> published (lz_mem s) w p" for p
    proof -
      have "private_nodes ((w(t := lz_own y)) u) = private_nodes (w u)" for u using ow by (simp add: y)
      then show ?thesis by (simp add: published_def)
    qed
    show ?thesis
    proof (rule lz_aside [OF SI s'])
      show "lz_LI kmin kmax t s' a (w(t := lz_own y)) y g"
        using LI ZR_Free pub by (simp add: y list_node_def s')
    qed (use re ow y pub in \<open>auto simp: ll_live_def\<close>)
  next
    case (ZR_Unlock_C k q c res)
    have ex': "lz_unlock s c (At (ZRemove (ZR_Unlock_P k q res))) = Next s' y" using ex ZR_Unlock_C by simp
    have qc: "q \<noteq> c" using LI ZR_Unlock_C by (auto simp: list_node_def)
    show ?thesis
      by (rule lz_release_step [OF SI _ ex'])
        (use LI own ZR_Unlock_C qc in \<open>auto dest: effect_node list_node_published split: option.splits\<close>)
  next
    case (ZR_Unlock_P k q res)
    have ex': "lz_unlock s q (case res of None \<Rightarrow> At (ZRemove (ZR_Head k)) | Some r \<Rightarrow> Finished (Ret_Val r)) = Next s' y"
      using ex ZR_Unlock_P by simp
    show ?thesis
      by (rule lz_release_step [OF SI _ ex'])
        (use LI own ZR_Unlock_P in \<open>auto dest: effect_node list_node_published split: option.splits\<close>)
  qed
qed

lemma lz_safe:
  assumes SI: "lz_SI kmin kmax n s a w" and LI: "lz_LI kmin kmax t s a w (At x) g" and own: "w t = lz_own (At x)"
  shows "lz_exec gc ro t p s x \<noteq> Fault"
proof -
  note si = lz_SI_D [OF SI]
  have ow: "lz_cells s q \<noteq> None \<and> q \<notin> released (lz_mem s)" if "q \<in> owned (w t)" for q
    using partition_owned [OF slist_partition [OF si(1)] that] by blast
  have pub: "\<exists>n. lz_cells s q = Some n" if "published (lz_mem s) w q" for q
    using that by (rule published_cell)
  have mine: "\<exists>n. lz_cells s q = Some n" if "Owns q \<in> held (w t)" for q
    using lz_owned_cell [OF SI that] by blast
  show ?thesis
  proof (cases x)
    case (ZSearch z)
    then show ?thesis using LI pub lz_ahead_cell by (cases z) (auto simp: list_node_def)
  next
    case (ZInsert z)
    then show ?thesis using LI pub own mine
      by (cases z) (auto simp: list_node_def lz_acquire_def lz_unlock_def ll_marked_defs split: if_splits)
  next
    case (ZRemove z)
    then show ?thesis using LI pub own mine ow lz_ahead_cell
      by (cases z) (auto simp: list_node_def lz_acquire_def lz_unlock_def ll_marked_defs split: if_splits)
  qed
qed

lemma lz_call:
  assumes "lz_start kmin kmax op = Some x"
  shows "lz_own (At x) = lz_own Idle"
    and "lz_LI kmin kmax t s a w (At x) (Open op (legal map_spec op a))"
  using assms by (cases op; auto simp: lz_start_def list_op_def split: if_splits)+

lemma lz_SI_init:
  assumes "h \<noteq> NULL" "t \<noteq> NULL" "h \<noteq> t" "kmin < kmax"
  shows "lz_SI kmin kmax 0 (lz_init kmin kmax h t :: ('k::linorder, 'v::zero) lazy) Map.empty (\<lambda>_. lz_own Idle)"
proof -
  let ?s = "lz_init kmin kmax h t :: ('k, 'v) lazy"
  have c: "cells (lz_mem ?s) = [h \<mapsto> initialize_ll_marked kmin 0 t, t \<mapsto> initialize_ll_marked kmax 0 NULL]"
    using assms(3) by (auto simp: lz_init_def empty_store_def fun_eq_iff)
  note si = slist_init [OF assms(1-3) this, of kmin kmax]
  have sl: "slist kmin kmax (lz_mem ?s) (\<lambda>_. none_owned :: lz_claim ownership) h {} Map.empty" "ll_live (lz_mem ?s) h = {}"
    using si assms(4) by (simp_all add: lz_init_def initialize_ll_marked_def)
  have "path (lz_cells ?s) ll_next (lz_head ?s) [h, t] NULL"
    using c assms by (auto simp: lz_init_def initialize_ll_marked_def)
  then have nodes: "lz_nodes ?s = set [h, t]" by (rule nodes_from_path)
  have lock: "lz_lock ?s p = None" for p by (simp add: lz_lock_def c initialize_ll_marked_def)
  have "lz_clean ?s p" if "p \<in> {h, t}" for p using that by (auto simp: lz_clean_def c initialize_ll_marked_def)
  moreover have "p \<in> {h, t}" if "published (lz_mem ?s) (\<lambda>_. none_owned :: lz_claim ownership) p" for p
    using that by (auto simp: published_def c split: if_splits)
  moreover have "lz_head ?s = h" by (simp add: lz_init_def)
  ultimately show ?thesis using sl lock nodes by (auto simp: lz_SI_def lz_live_def)
qed

interpretation lazy_list: thread_object map_spec Map.empty "lz_start kmin kmax" "lz_exec gc ro" "lz_init kmin kmax h t"
  lz_own "list_run_ok kmin kmax h t" "lz_SI kmin kmax" "lz_LI kmin kmax" for gc ro and kmin kmax :: "'k::linorder" and h t
proof unfold_locales
  fix n s a w u x g p s' y
  assume "list_run_ok kmin kmax h t (Suc n)" and "lz_SI kmin kmax n s a w" and "lz_LI kmin kmax u s a w (At x) g"
    and "observed map_spec a g" and "w u = lz_own (At x)" and "lz_exec gc ro u p s x = Next s' y"
  then show "step_ok map_spec lz_own (lz_SI kmin kmax) (lz_LI kmin kmax) n u s a w g s' y"
    by (cases x) (auto intro: lz_search_step lz_insert_step lz_remove_step)
qed (auto simp: list_run_ok_def intro: lz_SI_init [simplified] lz_SI_mono dest: lz_call lz_safe)

section \<open>A concrete run\<close>

text \<open>Thread 0 inserts 5; thread 1 removes it and stops between the mark and the unlinking; thread 0, which
  searches for 5, finds the marked node and returns 0; thread 1 ends its removal.\<close>

definition lz_demo :: "(int, int) map_op command list" where
  "lz_demo = [Do_Call 0 (Insert 5 50)] @ steps_of 0 8 @ [Do_Step 0 3] @ steps_of 0 2 @ [Do_Return 0, Do_Call 1 (Delete 5)] @
     steps_of 1 12 @ [Do_Call 0 (Search 5)] @ steps_of 0 6 @ [Do_Return 0] @ steps_of 1 3 @ [Do_Return 1]"

definition lz_demo_history :: "((int, int) map_op, int map_ret) history" where
  "lz_demo_history = [(0, Call (Insert 5 50)), (0, Return (Ret_Int 1)), (1, Call (Delete 5)), (0, Call (Search 5)),
     (0, Return (Ret_Val 0)), (1, Return (Ret_Val 50))]"

lemma lz_demo_run:
  "\<exists>s c. run (lz_start 0 10) (lz_exec False False) (lz_init 0 10 1 2) (length lz_demo) lz_demo_history (s, c)
     \<and> lz_length s = Some 0"
  unfolding lz_demo_history_def
  by (rule replay_exhibits)
    (simp add: lz_demo_def lz_start_def lz_init_def lz_acquire_def lz_unlock_def lz_length_def ll_marked_defs
      ll_length_def ll_length_loop.simps fresh_def alloc_def put_cell_def empty_store_def release_def replicate_binary)

section \<open>Properties\<close>

lemma lz_counts:
  assumes ok: "list_run_ok kmin kmax h t n" and SI: "lz_SI kmin kmax n s a w" and quiet: "\<And>u p. Unlinking p \<notin> held (w u)"
  shows "lz_length s = Some (int (card (dom a)))"
proof -
  note si = lz_SI_D [OF SI]
  have "lz_live s = ll_live (lz_mem s) (lz_head s)" using si(4) quiet by (auto simp: lz_live_def ll_live_def)
  then show ?thesis using slist_length [of kmin kmax "lz_mem s"] si(1) ok by (simp add: lz_length_def list_run_ok_def)
qed

lemma lz_destroys:
  "lz_SI kmin kmax n s a w \<Longrightarrow> lz_destroy gc heap s = freed_or_undefined gc heap (lz_mem s) (lz_nodes s)"
  using slist_destroy [OF lz_SI_D(1)] by (simp add: lz_destroy_def)

lemma lz_unlinking: "Unlinking q \<in> held (lz_own y) \<Longrightarrow> \<exists>k p d r. y = At (ZRemove (ZR_Unlink k p q d r))"
  by (cases y rule: lz_own.cases) auto

text \<open>C27: in the build without reclamation (\<^verbatim>\<open>GC == 0\<close>) every concurrent run of the lazy list, of fewer than
  2^62 steps and on keys strictly between those of the sentinels, with or without the read-only test of
  \<^verbatim>\<open>LAZY_RO_FAIL\<close>, is linearizable with respect to the map specification; in the reached state
  \<^verbatim>\<open>length()\<close> is the number of keys of the abstract map unless a thread stands between marking a node and
  unlinking it, and no thread is about to dereference a pointer that is not a node.\<close>

theorem lazy_list_correct:
  assumes "run (lz_start kmin kmax) (lz_exec False ro) (lz_init kmin kmax h t) n hist (s, c)" and "list_run_ok kmin kmax h t n"
  shows "linearizable map_spec Map.empty hist
    \<and> (\<exists>a. linearizes_to map_spec Map.empty hist a \<and>
        ((\<forall>u k p q d r. c u \<noteq> At (ZRemove (ZR_Unlink k p q d r))) \<longrightarrow> lz_length s = Some (int (card (dom a)))))
    \<and> (\<forall>u p x. c u = At x \<longrightarrow> lz_exec False ro u p s x \<noteq> Fault)"
proof -
  from lazy_list.reachable_SI [OF assms] obtain a where a: "linearizes_to map_spec Map.empty hist a"
    and SI: "lz_SI kmin kmax n s a (lz_own \<circ> c)" by blast
  have "lz_length s = Some (int (card (dom a)))" if "\<forall>u k p q d r. c u \<noteq> At (ZRemove (ZR_Unlink k p q d r))"
    by (rule lz_counts [OF assms(2) SI]) (use that lz_unlinking in fastforce)
  then show ?thesis
    using a lazy_list.linearizable [OF assms] lazy_list.no_fault [OF assms] by blast
qed

theorem lazy_list_correct_witness: "linearizable map_spec Map.empty lz_demo_history"
proof -
  have "list_run_ok (0::int) 10 1 2 (length lz_demo)" by (simp add: list_run_ok_def lz_demo_def)
  with lz_demo_run show ?thesis using lazy_list_correct by blast
qed

end
