(* ===== verification/LinkedList_Coupling.thy ===== *)
theory LinkedList_Coupling
  imports LinkedList_Lazy
begin

text \<open>
  The list with hand-over-hand locking, \<^verbatim>\<open>src/algorithms/linkedlist_coupling.h\<close>, on the nodes of
  \<^verbatim>\<open>src/aux/ll_marked.h\<close> (whose mark it does not use). Every operation, \<^verbatim>\<open>search\<close> included, walks down
  the list with the locks of two neighbours; \<^verbatim>\<open>remove\<close> frees the node at once. A freed node is one that has
  been \<open>released\<close>, and to touch it is a fault here; freed addresses are not handed out again. The build
  without \<^verbatim>\<open>LL_GLOBAL_LOCK\<close> is modelled.
\<close>

section \<open>The code\<close>

definition ll_marked_delete :: "('k, 'v) ll_marked store \<Rightarrow> ptr \<Rightarrow>
    (('k, 'v) ll_marked store \<Rightarrow> ('s, 'l, 'r) outcome) \<Rightarrow> ('s, 'l, 'r) outcome" where
  "ll_marked_delete m p k = release m p k"

record ('k, 'v) coupling =
  cp_head :: ptr
  cp_mem :: "('k, 'v) ll_marked store"

abbreviation cp_cells :: "('k, 'v) coupling \<Rightarrow> ptr \<Rightarrow> ('k, 'v) ll_marked option" where
  "cp_cells s \<equiv> cells (cp_mem s)"

definition cp_init :: "'k \<Rightarrow> 'k \<Rightarrow> ptr \<Rightarrow> ptr \<Rightarrow> ('k, 'v::zero) coupling" where
  "cp_init kmin kmax h t = \<lparr>cp_head = h,
     cp_mem = put_cell h (initialize_ll_marked kmin 0 t) (put_cell t (initialize_ll_marked kmax 0 NULL) empty_store)\<rparr>"

text \<open>The walk, with which the three operations begin.\<close>

datatype cp_walk_pc =
    CW_Lock_Head            \<comment> \<open>\<^verbatim>\<open>LOCK(ND_GET_LOCK(head)); curr = head\<close>\<close>
  | CW_Succ ptr             \<comment> \<open>the argument \<^verbatim>\<open>curr->next\<close> (or \<^verbatim>\<open>next->next\<close>, when \<^verbatim>\<open>curr = next\<close>) of \<^verbatim>\<open>LOCK\<close>\<close>
  | CW_Lock ptr ptr         \<comment> \<open>\<^verbatim>\<open>LOCK\<close>\<close>
  | CW_Next ptr ptr         \<comment> \<open>\<^verbatim>\<open>next = curr->next\<close>; the second is the node that was locked\<close>
  | CW_Key ptr ptr          \<comment> \<open>\<^verbatim>\<open>next->key < key\<close>\<close>
  | CW_Move ptr ptr         \<comment> \<open>\<^verbatim>\<open>UNLOCK(ND_GET_LOCK(curr)); curr = next\<close>\<close>

datatype ('k, 'v) cp_search_pc =
    CS_Test 'k ptr ptr          \<comment> \<open>\<^verbatim>\<open>key == next->key\<close>\<close>
  | CS_Val ptr ptr              \<comment> \<open>\<^verbatim>\<open>res = next->val\<close>\<close>
  | CS_Unlock_C ptr ptr 'v      \<comment> \<open>\<^verbatim>\<open>UNLOCK(ND_GET_LOCK(curr))\<close>\<close>
  | CS_Unlock_N ptr 'v          \<comment> \<open>\<^verbatim>\<open>UNLOCK(ND_GET_LOCK(next))\<close>, return\<close>

datatype ('k, 'v) cp_insert_pc =
    CI_Test 'k 'v ptr ptr       \<comment> \<open>\<^verbatim>\<open>found = (key == next->key)\<close>\<close>
  | CI_Alloc 'k 'v ptr ptr      \<comment> \<open>allocate \<^verbatim>\<open>newnode\<close>\<close>
  | CI_Link 'k 'v ptr ptr ptr   \<comment> \<open>\<^verbatim>\<open>curr->next = newnode\<close>\<close>
  | CI_Unlock_C ptr ptr bool    \<comment> \<open>\<^verbatim>\<open>UNLOCK(ND_GET_LOCK(curr))\<close>\<close>
  | CI_Unlock_N ptr bool        \<comment> \<open>\<^verbatim>\<open>UNLOCK(ND_GET_LOCK(next))\<close>, return \<^verbatim>\<open>!found\<close>\<close>

datatype ('k, 'v) cp_remove_pc =
    CR_Test 'k ptr ptr          \<comment> \<open>\<^verbatim>\<open>key == next->key\<close>\<close>
  | CR_Val 'k ptr ptr           \<comment> \<open>\<^verbatim>\<open>res = next->val\<close>\<close>
  | CR_Succ 'k ptr ptr 'v       \<comment> \<open>read \<^verbatim>\<open>next->next\<close>\<close>
  | CR_Unlink 'k ptr ptr ptr 'v \<comment> \<open>\<^verbatim>\<open>curr->next = next->next\<close>\<close>
  | CR_Unlock ptr ptr 'v        \<comment> \<open>\<^verbatim>\<open>UNLOCK(ND_GET_LOCK(next))\<close>\<close>
  | CR_Delete ptr ptr 'v        \<comment> \<open>\<^verbatim>\<open>ll_marked_delete(next)\<close>\<close>
  | CR_Last ptr 'v              \<comment> \<open>\<^verbatim>\<open>UNLOCK(ND_GET_LOCK(curr))\<close>, return\<close>
  | CR_Unlock_C ptr ptr         \<comment> \<open>not found: \<^verbatim>\<open>UNLOCK(ND_GET_LOCK(curr))\<close>\<close>
  | CR_Unlock_N ptr             \<comment> \<open>not found: \<^verbatim>\<open>UNLOCK(ND_GET_LOCK(next))\<close>, return 0\<close>

datatype ('k, 'v) cp_pc = CWalk "('k, 'v) map_op" cp_walk_pc | CSearch "('k, 'v) cp_search_pc"
  | CInsert "('k, 'v) cp_insert_pc" | CRemove "('k, 'v) cp_remove_pc"

type_synonym ('k, 'v) cp_outcome = "(('k, 'v) coupling, ('k, 'v) cp_pc, 'v map_ret) outcome"

definition cp_deref :: "('k, 'v) coupling \<Rightarrow> ptr \<Rightarrow> (('k, 'v) ll_marked \<Rightarrow> ('k, 'v) cp_outcome) \<Rightarrow> ('k, 'v) cp_outcome" where
  "cp_deref s p k = (if p \<in> released (cp_mem s) then Fault else deref (cp_cells s) p k)"

definition cp_acquire :: "tid \<Rightarrow> ('k, 'v) coupling \<Rightarrow> ptr \<Rightarrow> ('k, 'v) cp_pc \<Rightarrow> ('k, 'v) cp_outcome" where
  "cp_acquire t s p x = cp_deref s p (\<lambda>n.
     if lm_lock n = None then Next (s\<lparr>cp_mem := put_cell p (n\<lparr>lm_lock := Some t\<rparr>) (cp_mem s)\<rparr>) (At x) else Blocked)"

definition cp_unlock :: "('k, 'v) coupling \<Rightarrow> ptr \<Rightarrow> (('k, 'v) cp_pc, 'v map_ret) control \<Rightarrow> ('k, 'v) cp_outcome" where
  "cp_unlock s p y = cp_deref s p (\<lambda>n. Next (s\<lparr>cp_mem := put_cell p (n\<lparr>lm_lock := None\<rparr>) (cp_mem s)\<rparr>) y)"

text \<open>What follows the walk.\<close>

fun cp_after :: "('k, 'v) map_op \<Rightarrow> ptr \<Rightarrow> ptr \<Rightarrow> ('k, 'v) cp_pc" where
  "cp_after (Search k) cur nx = CSearch (CS_Test k cur nx)"
| "cp_after (Insert k v) cur nx = CInsert (CI_Test k v cur nx)"
| "cp_after (Delete k) cur nx = CRemove (CR_Test k cur nx)"

fun cp_walk :: "tid \<Rightarrow> ('k::linorder, 'v::zero) coupling \<Rightarrow> ('k, 'v) map_op \<Rightarrow> cp_walk_pc \<Rightarrow> ('k, 'v) cp_outcome" where
  "cp_walk t s op CW_Lock_Head = cp_acquire t s (cp_head s) (CWalk op (CW_Succ (cp_head s)))"
| "cp_walk t s op (CW_Succ cur) = cp_deref s cur (\<lambda>n. Next s (At (CWalk op (CW_Lock cur (ll_next n)))))"
| "cp_walk t s op (CW_Lock cur nx) = cp_acquire t s nx (CWalk op (CW_Next cur nx))"
| "cp_walk t s op (CW_Next cur l) = cp_deref s cur (\<lambda>n. Next s (At (CWalk op (CW_Key cur (ll_next n)))))"
| "cp_walk t s op (CW_Key cur nx) =
     cp_deref s nx (\<lambda>n. Next s (At (if ll_key n < op_key op then CWalk op (CW_Move cur nx) else cp_after op cur nx)))"
| "cp_walk t s op (CW_Move cur nx) = cp_unlock s cur (At (CWalk op (CW_Succ nx)))"

fun cp_search :: "('k::linorder, 'v::zero) coupling \<Rightarrow> ('k, 'v) cp_search_pc \<Rightarrow> ('k, 'v) cp_outcome" where
  "cp_search s (CS_Test k cur nx) =
     cp_deref s nx (\<lambda>n. Next s (At (CSearch (if k = ll_key n then CS_Val cur nx else CS_Unlock_C cur nx 0))))"
| "cp_search s (CS_Val cur nx) = cp_deref s nx (\<lambda>n. Next s (At (CSearch (CS_Unlock_C cur nx (ll_val n)))))"
| "cp_search s (CS_Unlock_C cur nx res) = cp_unlock s cur (At (CSearch (CS_Unlock_N nx res)))"
| "cp_search s (CS_Unlock_N nx res) = cp_unlock s nx (Finished (Ret_Val res))"

fun cp_insert :: "ptr \<Rightarrow> ('k::linorder, 'v::zero) coupling \<Rightarrow> ('k, 'v) cp_insert_pc \<Rightarrow> ('k, 'v) cp_outcome" where
  "cp_insert p s (CI_Test k v cur nx) =
     cp_deref s nx (\<lambda>n. Next s (At (CInsert (if k = ll_key n then CI_Unlock_C cur nx True else CI_Alloc k v cur nx))))"
| "cp_insert p s (CI_Alloc k v cur nx) =
     alloc (cp_cells s) p
       (Next (s\<lparr>cp_mem := put_cell p (initialize_ll_marked k v nx) (cp_mem s)\<rparr>) (At (CInsert (CI_Link k v cur nx p))))"
| "cp_insert p s (CI_Link k v cur nx newnode) =
     cp_deref s cur (\<lambda>n. Next (s\<lparr>cp_mem := put_cell cur (n\<lparr>ll_next := newnode\<rparr>) (cp_mem s)\<rparr>)
       (At (CInsert (CI_Unlock_C cur nx False))))"
| "cp_insert p s (CI_Unlock_C cur nx found) = cp_unlock s cur (At (CInsert (CI_Unlock_N nx found)))"
| "cp_insert p s (CI_Unlock_N nx found) = cp_unlock s nx (Finished (Ret_Int (if found then 0 else 1)))"

fun cp_remove :: "('k::linorder, 'v::zero) coupling \<Rightarrow> ('k, 'v) cp_remove_pc \<Rightarrow> ('k, 'v) cp_outcome" where
  "cp_remove s (CR_Test k cur nx) =
     cp_deref s nx (\<lambda>n. Next s (At (CRemove (if k = ll_key n then CR_Val k cur nx else CR_Unlock_C cur nx))))"
| "cp_remove s (CR_Val k cur nx) = cp_deref s nx (\<lambda>n. Next s (At (CRemove (CR_Succ k cur nx (ll_val n)))))"
| "cp_remove s (CR_Succ k cur nx res) = cp_deref s nx (\<lambda>n. Next s (At (CRemove (CR_Unlink k cur nx (ll_next n) res))))"
| "cp_remove s (CR_Unlink k cur nx d res) =
     cp_deref s cur (\<lambda>n. Next (s\<lparr>cp_mem := put_cell cur (n\<lparr>ll_next := d\<rparr>) (cp_mem s)\<rparr>) (At (CRemove (CR_Unlock cur nx res))))"
| "cp_remove s (CR_Unlock cur nx res) = cp_unlock s nx (At (CRemove (CR_Delete cur nx res)))"
| "cp_remove s (CR_Delete cur nx res) =
     ll_marked_delete (cp_mem s) nx (\<lambda>m. Next (s\<lparr>cp_mem := m\<rparr>) (At (CRemove (CR_Last cur res))))"
| "cp_remove s (CR_Last cur res) = cp_unlock s cur (Finished (Ret_Val res))"
| "cp_remove s (CR_Unlock_C cur nx) = cp_unlock s cur (At (CRemove (CR_Unlock_N nx)))"
| "cp_remove s (CR_Unlock_N nx) = cp_unlock s nx (Finished (Ret_Val 0))"

definition cp_length :: "('k, 'v) coupling \<Rightarrow> int option" where
  "cp_length s = ll_length (cp_cells s) (cp_head s)"

definition cp_destroy :: "('k, 'v) coupling \<Rightarrow> ('k, 'v) ll_marked store option" where
  "cp_destroy s = ll_destroy_loop (ll_simple_delete True UNIV) (cp_mem s) (cp_head s)"

definition cp_start :: "'k::linorder \<Rightarrow> 'k \<Rightarrow> ('k, 'v) map_op \<Rightarrow> ('k, 'v) cp_pc option" where
  "cp_start kmin kmax op = (if kmin < op_key op \<and> op_key op < kmax then Some (CWalk op CW_Lock_Head) else None)"

fun cp_exec :: "tid \<Rightarrow> ptr \<Rightarrow> ('k::linorder, 'v::zero) coupling \<Rightarrow> ('k, 'v) cp_pc \<Rightarrow> ('k, 'v) cp_outcome" where
  "cp_exec t p s (CWalk op x) = cp_walk t s op x"
| "cp_exec t p s (CSearch x) = cp_search s x"
| "cp_exec t p s (CInsert x) = cp_insert p s x"
| "cp_exec t p s (CRemove x) = cp_remove s x"

lemma cp_deref_Next [simp]:
  "cp_deref s p k = Next s' y \<longleftrightarrow> p \<notin> released (cp_mem s) \<and> (\<exists>n. cp_cells s p = Some n \<and> k n = Next s' y)"
  by (simp add: cp_deref_def)

lemma cp_deref_Fault [simp]:
  "cp_deref s p k = Fault \<longleftrightarrow> p \<in> released (cp_mem s) \<or> cp_cells s p = None \<or> (\<exists>n. cp_cells s p = Some n \<and> k n = Fault)"
  by (auto simp: cp_deref_def)

section \<open>The invariant\<close>

text \<open>A thread claims the nodes whose locks it holds.\<close>

fun cp_own :: "(('k, 'v) cp_pc, 'v map_ret) control \<Rightarrow> ptr ownership" where
  "cp_own (At (CWalk op (CW_Succ c))) = holding {} {} {c}"
| "cp_own (At (CWalk op (CW_Lock c d))) = holding {} {} {c}"
| "cp_own (At (CWalk op (CW_Next c d))) = holding {} {} {c, d}"
| "cp_own (At (CWalk op (CW_Key c d))) = holding {} {} {c, d}"
| "cp_own (At (CWalk op (CW_Move c d))) = holding {} {} {c, d}"
| "cp_own (At (CSearch (CS_Test k c d))) = holding {} {} {c, d}"
| "cp_own (At (CSearch (CS_Val c d))) = holding {} {} {c, d}"
| "cp_own (At (CSearch (CS_Unlock_C c d r))) = holding {} {} {c, d}"
| "cp_own (At (CSearch (CS_Unlock_N d r))) = holding {} {} {d}"
| "cp_own (At (CInsert (CI_Test k v c d))) = holding {} {} {c, d}"
| "cp_own (At (CInsert (CI_Alloc k v c d))) = holding {} {} {c, d}"
| "cp_own (At (CInsert (CI_Link k v c d x))) = holding {x} {} {c, d}"
| "cp_own (At (CInsert (CI_Unlock_C c d f))) = holding {} {} {c, d}"
| "cp_own (At (CInsert (CI_Unlock_N d f))) = holding {} {} {d}"
| "cp_own (At (CRemove (CR_Test k c d))) = holding {} {} {c, d}"
| "cp_own (At (CRemove (CR_Val k c d))) = holding {} {} {c, d}"
| "cp_own (At (CRemove (CR_Succ k c d r))) = holding {} {} {c, d}"
| "cp_own (At (CRemove (CR_Unlink k c d e r))) = holding {} {} {c, d}"
| "cp_own (At (CRemove (CR_Unlock c d r))) = holding {} {d} {c, d}"
| "cp_own (At (CRemove (CR_Delete c d r))) = holding {} {d} {c}"
| "cp_own (At (CRemove (CR_Last c r))) = holding {} {} {c}"
| "cp_own (At (CRemove (CR_Unlock_C c d))) = holding {} {} {c, d}"
| "cp_own (At (CRemove (CR_Unlock_N d))) = holding {} {} {d}"
| "cp_own _ = none_owned"

abbreviation cp_nodes :: "('k, 'v) coupling \<Rightarrow> ptr set" where
  "cp_nodes s \<equiv> nodes_from (cp_cells s) ll_next (cp_head s)"

abbreviation cp_live :: "('k, 'v) coupling \<Rightarrow> ptr set" where
  "cp_live s \<equiv> ll_live (cp_mem s) (cp_head s)"

definition cp_lock :: "('k, 'v) coupling \<Rightarrow> ptr \<Rightarrow> tid option" where
  "cp_lock s p = Option.bind (cp_cells s p) lm_lock"

lemma cp_lock_Some [simp]: "cp_cells s p = Some n \<Longrightarrow> cp_lock s p = lm_lock n"
  by (simp add: cp_lock_def)

definition cp_SI :: "'k::linorder \<Rightarrow> 'k \<Rightarrow> nat \<Rightarrow> ('k, 'v) coupling \<Rightarrow> ('k \<rightharpoonup> 'v) \<Rightarrow> (tid \<Rightarrow> ptr ownership) \<Rightarrow> bool" where
  "cp_SI kmin kmax n s a w \<longleftrightarrow> slist kmin kmax (cp_mem s) w (cp_head s) (cp_live s) a \<and> locks_ok (cp_lock s) w \<and>
     (\<forall>t p. p \<in> held (w t) \<longrightarrow> p \<in> cp_nodes s \<or> p \<in> retired_nodes (w t))"

abbreviation cp_node :: "('k, 'v) coupling \<Rightarrow> (tid \<Rightarrow> ptr ownership) \<Rightarrow> ptr \<Rightarrow> ('k \<Rightarrow> bool) \<Rightarrow> bool" where
  "cp_node s w p P \<equiv> list_node (cp_mem s) w p P"

definition cp_points :: "('k, 'v) coupling \<Rightarrow> tid \<Rightarrow> ptr \<Rightarrow> ptr \<Rightarrow> bool" where
  "cp_points s t p c \<longleftrightarrow> cp_lock s p = Some t \<and> nm_of (cp_cells s) p = Some c"

definition cp_val :: "('k, 'v) coupling \<Rightarrow> (tid \<Rightarrow> ptr ownership) \<Rightarrow> ptr \<Rightarrow> 'k \<Rightarrow> 'v \<Rightarrow> bool" where
  "cp_val s w c k r \<longleftrightarrow> published (cp_mem s) w c \<and> kv_of (cp_cells s) c = Some (k, r)"

fun cp_LI :: "'k::linorder \<Rightarrow> 'k \<Rightarrow> tid \<Rightarrow> ('k, 'v::zero) coupling \<Rightarrow> ('k \<rightharpoonup> 'v) \<Rightarrow> (tid \<Rightarrow> ptr ownership) \<Rightarrow>
    (('k, 'v) cp_pc, 'v map_ret) control \<Rightarrow> (('k, 'v) map_op, 'v map_ret) ghost \<Rightarrow> bool" where
  "cp_LI kmin kmax t s a w Idle g = (g = Quiet)"
| "cp_LI kmin kmax t s a w (Finished r) g = returns g r"
| "cp_LI kmin kmax t s a w (At (CWalk op CW_Lock_Head)) g = list_op kmin kmax op g"
| "cp_LI kmin kmax t s a w (At (CWalk op (CW_Succ c))) g = (list_op kmin kmax op g \<and> cp_node s w c (\<lambda>x. x < op_key op))"
| "cp_LI kmin kmax t s a w (At (CWalk op (CW_Lock c d))) g =
     (list_op kmin kmax op g \<and> cp_node s w c (\<lambda>x. x < op_key op) \<and> cp_points s t c d)"
| "cp_LI kmin kmax t s a w (At (CWalk op (CW_Next c d))) g =
     (list_op kmin kmax op g \<and> cp_node s w c (\<lambda>x. x < op_key op) \<and> cp_points s t c d)"
| "cp_LI kmin kmax t s a w (At (CWalk op (CW_Key c d))) g =
     (list_op kmin kmax op g \<and> cp_node s w c (\<lambda>x. x < op_key op) \<and> cp_points s t c d)"
| "cp_LI kmin kmax t s a w (At (CWalk op (CW_Move c d))) g =
     (list_op kmin kmax op g \<and> cp_node s w c (\<lambda>x. x < op_key op) \<and> cp_node s w d (\<lambda>x. x < op_key op) \<and> c \<noteq> d)"
| "cp_LI kmin kmax t s a w (At (CSearch (CS_Test k c d))) g =
     (list_op kmin kmax (Search k) g \<and> cp_node s w c (\<lambda>x. x < k) \<and> cp_node s w d (\<lambda>x. k \<le> x) \<and> cp_points s t c d)"
| "cp_LI kmin kmax t s a w (At (CSearch (CS_Val c d))) g = (\<exists>k r. cp_val s w d k r \<and> returns g (Ret_Val r) \<and> c \<noteq> d)"
| "cp_LI kmin kmax t s a w (At (CSearch (CS_Unlock_C c d r))) g = (c \<noteq> d \<and> returns g (Ret_Val r))"
| "cp_LI kmin kmax t s a w (At (CSearch (CS_Unlock_N d r))) g = returns g (Ret_Val r)"
| "cp_LI kmin kmax t s a w (At (CInsert (CI_Test k v c d))) g =
     (list_op kmin kmax (Insert k v) g \<and> cp_node s w c (\<lambda>x. x < k) \<and> cp_node s w d (\<lambda>x. k \<le> x) \<and> cp_points s t c d)"
| "cp_LI kmin kmax t s a w (At (CInsert (CI_Alloc k v c d))) g =
     (list_op kmin kmax (Insert k v) g \<and> cp_node s w c (\<lambda>x. x < k) \<and> cp_node s w d (\<lambda>x. k < x) \<and> cp_points s t c d)"
| "cp_LI kmin kmax t s a w (At (CInsert (CI_Link k v c d x))) g =
     (list_op kmin kmax (Insert k v) g \<and> cp_node s w c (\<lambda>x. x < k) \<and> cp_node s w d (\<lambda>x. k < x) \<and> cp_points s t c d \<and>
      cp_cells s x = Some (initialize_ll_marked k v d))"
| "cp_LI kmin kmax t s a w (At (CInsert (CI_Unlock_C c d f))) g = (c \<noteq> d \<and> returns g (Ret_Int (if f then 0 else 1)))"
| "cp_LI kmin kmax t s a w (At (CInsert (CI_Unlock_N d f))) g = returns g (Ret_Int (if f then 0 else 1))"
| "cp_LI kmin kmax t s a w (At (CRemove (CR_Test k c d))) g =
     (list_op kmin kmax (Delete k) g \<and> cp_node s w c (\<lambda>x. x < k) \<and> cp_node s w d (\<lambda>x. k \<le> x) \<and> cp_points s t c d)"
| "cp_LI kmin kmax t s a w (At (CRemove (CR_Val k c d))) g =
     (list_op kmin kmax (Delete k) g \<and> cp_node s w c (\<lambda>x. x < k) \<and> cp_node s w d (\<lambda>x. x = k) \<and> cp_points s t c d)"
| "cp_LI kmin kmax t s a w (At (CRemove (CR_Succ k c d r))) g =
     (list_op kmin kmax (Delete k) g \<and> cp_node s w c (\<lambda>x. x < k) \<and> cp_val s w d k r \<and> cp_points s t c d)"
| "cp_LI kmin kmax t s a w (At (CRemove (CR_Unlink k c d e r))) g =
     (list_op kmin kmax (Delete k) g \<and> cp_node s w c (\<lambda>x. x < k) \<and> cp_val s w d k r \<and> cp_points s t c d \<and> cp_points s t d e)"
| "cp_LI kmin kmax t s a w (At (CRemove (CR_Unlock c d r))) g = (c \<noteq> d \<and> returns g (Ret_Val r))"
| "cp_LI kmin kmax t s a w (At (CRemove (CR_Delete c d r))) g = (c \<noteq> d \<and> returns g (Ret_Val r))"
| "cp_LI kmin kmax t s a w (At (CRemove (CR_Last c r))) g = returns g (Ret_Val r)"
| "cp_LI kmin kmax t s a w (At (CRemove (CR_Unlock_C c d))) g = (c \<noteq> d \<and> returns g (Ret_Val 0))"
| "cp_LI kmin kmax t s a w (At (CRemove (CR_Unlock_N d))) g = returns g (Ret_Val 0)"

lemma cp_SI_mono: "cp_SI kmin kmax n s a w \<Longrightarrow> cp_SI kmin kmax (Suc n) s a w"
  unfolding cp_SI_def by blast

lemma cp_SI_D:
  assumes "cp_SI kmin kmax n s a w"
  shows "slist kmin kmax (cp_mem s) w (cp_head s) (cp_live s) a"
    and "p \<in> held (w t) \<longleftrightarrow> cp_lock s p = Some t"
    and "p \<in> held (w t) \<Longrightarrow> p \<in> cp_nodes s \<or> p \<in> retired_nodes (w t)"
  using assms unfolding cp_SI_def locks_ok_def by blast+

text \<open>A node that a thread holds is allocated, has not been freed, and is no private node.\<close>

lemma cp_held_node:
  assumes SI: "cp_SI kmin kmax n s a w" and p: "p \<in> held (w t)"
  shows "\<exists>nd. cp_cells s p = Some nd \<and> lm_lock nd = Some t" and "p \<notin> released (cp_mem s)"
    and "private_nodes (w t) = {} \<Longrightarrow> published (cp_mem s) w p"
proof -
  note si = cp_SI_D [OF SI]
  show "\<exists>nd. cp_cells s p = Some nd \<and> lm_lock nd = Some t"
    using si(2) [of p t] p by (cases "cp_cells s p") (auto simp: cp_lock_def)
  show "p \<notin> released (cp_mem s)"
    using si(3) [OF p] partition_live [OF slist_partition [OF si(1)]] partition_owned [OF slist_partition [OF si(1)], of p t]
    by blast
  assume none: "private_nodes (w t) = {}"
  show "published (cp_mem s) w p"
  proof (cases "p \<in> cp_nodes s")
    case False
    then have own: "p \<in> owned (w t)" using si(3) [OF p] by blast
    have "p \<notin> private_nodes (w u)" for u
      using partition_owned [OF slist_partition [OF si(1)] own, of u] none by (cases "u = t") blast+
    then show ?thesis using partition_owned [OF slist_partition [OF si(1)] own] by (simp add: published_def)
  qed (rule slist_published [OF si(1)])
qed

section \<open>Interference\<close>

definition cp_frame :: "tid \<Rightarrow> ('k, 'v) coupling \<Rightarrow> ('k, 'v) coupling \<Rightarrow> bool" where
  "cp_frame u s s' \<longleftrightarrow> (\<forall>p. cp_lock s p = Some u \<longrightarrow> cp_lock s' p = Some u \<and> nm_of (cp_cells s') p = nm_of (cp_cells s) p)"

lemma cp_val_stable:
  "list_effect t (cp_mem s) w live a (cp_mem s') w' live' a' \<Longrightarrow> cp_val s w c k r \<Longrightarrow> cp_val s' w' c k r"
  using effect_kv effect_published unfolding cp_val_def by fastforce

lemma cp_stable:
  fixes s :: "('k::linorder, 'v::zero) coupling"
  assumes le: "list_effect t (cp_mem s) w (cp_live s) a (cp_mem s') w' (cp_live s') a'" and fr: "cp_frame u s s'"
    and ut: "u \<noteq> t" and own: "w u = cp_own z" and obs: "observed map_spec a g" and LI: "cp_LI kmin kmax u s a w z g"
  shows "cp_LI kmin kmax u s' a' w' z (observe map_spec a' g)"
proof -
  note op = list_op_stable [of kmin kmax _ g a'] and node = effect_node [OF le] and val = cp_val_stable [OF le]
  have points: "cp_points s u p c \<Longrightarrow> cp_points s' u p c" for p c
    using fr unfolding cp_frame_def cp_points_def by auto
  have ret: "returns g r \<Longrightarrow> returns (observe map_spec a' g) r" for r by (rule returns_observe)
  note keep = op node val points ret
  show ?thesis
  proof (cases z)
    case (At x)
    show ?thesis
    proof (cases x)
      case (CWalk op' pc)
      show ?thesis using LI keep unfolding At CWalk by (cases pc) auto
    next
      case (CSearch pc)
      show ?thesis
      proof (cases pc)
        case (CS_Val c d)
        then show ?thesis using LI val ret unfolding At CSearch by fastforce
      qed (use LI keep in \<open>auto simp: At CSearch\<close>)
    next
      case (CInsert pc)
      show ?thesis
      proof (cases pc)
        case (CI_Link k v c d x)
        then have "cp_cells s' x = cp_cells s x" using own effect_private [OF le ut] by (simp add: At CInsert)
        then show ?thesis using LI keep unfolding At CInsert CI_Link by auto
      qed (use LI keep in \<open>auto simp: At CInsert\<close>)
    next
      case (CRemove pc)
      show ?thesis using LI keep unfolding At CRemove by (cases pc) auto
    qed
  qed (use LI in \<open>auto simp: returns_observe\<close>)
qed

section \<open>Kinds of steps\<close>

abbreviation cp_ok :: "'k::linorder \<Rightarrow> 'k \<Rightarrow> nat \<Rightarrow> tid \<Rightarrow> ('k, 'v::zero) coupling \<Rightarrow> ('k \<rightharpoonup> 'v) \<Rightarrow> (tid \<Rightarrow> ptr ownership) \<Rightarrow>
    (('k, 'v) map_op, 'v map_ret) ghost \<Rightarrow> ('k, 'v) coupling \<Rightarrow> (('k, 'v) cp_pc, 'v map_ret) control \<Rightarrow> bool" where
  "cp_ok kmin kmax \<equiv> step_ok map_spec cp_own (cp_SI kmin kmax) (cp_LI kmin kmax)"

lemma cp_step_ok:
  fixes s :: "('k::linorder, 'v::zero) coupling"
  assumes adv: "advance map_spec a g a' g'"
    and LI': "cp_LI kmin kmax t s' a' (w(t := cp_own y)) y g'"
    and sl: "slist kmin kmax (cp_mem s') (w(t := cp_own y)) (cp_head s') (cp_live s') a'"
    and le: "list_effect t (cp_mem s) w (cp_live s) a (cp_mem s') (w(t := cp_own y)) (cp_live s') a'"
    and locks: "\<And>u p. p \<in> held ((w(t := cp_own y)) u) \<longleftrightarrow> cp_lock s' p = Some u"
    and inn: "\<And>u p. p \<in> held ((w(t := cp_own y)) u) \<Longrightarrow> p \<in> cp_nodes s' \<or> p \<in> retired_nodes ((w(t := cp_own y)) u)"
    and fr: "\<And>u. u \<noteq> t \<Longrightarrow> cp_frame u s s'"
  shows "cp_ok kmin kmax n t s a w g s' y"
proof (rule step_okI [where own = cp_own and SI = "cp_SI kmin kmax" and LI = "cp_LI kmin kmax", OF adv _ LI'])
  show "cp_SI kmin kmax (Suc n) s' a' (w(t := cp_own y))" using sl locks inn unfolding cp_SI_def locks_ok_def by blast
  show "\<And>u z gu. u \<noteq> t \<Longrightarrow> w u = cp_own z \<Longrightarrow> observed map_spec a gu \<Longrightarrow> cp_LI kmin kmax u s a w z gu \<Longrightarrow>
      cp_LI kmin kmax u s' a' (w(t := cp_own y)) z (observe map_spec a' gu)"
    using cp_stable [OF le fr] by blast
qed

lemmas cp_local = step_ok_local [where own = cp_own and SI = "cp_SI kmin kmax" and LI = "cp_LI kmin kmax" for kmin kmax]

text \<open>Taking or giving the lock of a node.\<close>

lemma cp_lock_step:
  assumes SI: "cp_SI kmin kmax n s a w" and nd: "cp_cells s p = Some nd" and p: "published (cp_mem s) w p"
    and l: "lm_lock nd = None \<and> l = Some t \<and> p \<in> cp_nodes s \<or> lm_lock nd = Some t \<and> l = None"
    and x: "private_nodes (cp_own y) = private_nodes (w t)" "retired_nodes (cp_own y) = retired_nodes (w t)"
      "\<And>q. q \<in> held (cp_own y) \<longleftrightarrow> (if q = p then l = Some t else q \<in> held (w t))"
    and s': "s' = s\<lparr>cp_mem := put_cell p (nd\<lparr>lm_lock := l\<rparr>) (cp_mem s)\<rparr>"
    and LI': "list_effect t (cp_mem s) w (cp_live s) a (cp_mem s') (w(t := cp_own y)) (cp_live s') a \<Longrightarrow>
       (\<And>q c. cp_lock s q = Some t \<Longrightarrow> nm_of (cp_cells s) q = Some c \<Longrightarrow> q \<noteq> p \<Longrightarrow> cp_points s' t q c) \<Longrightarrow>
       cp_LI kmin kmax t s' a (w(t := cp_own y)) y g"
  shows "cp_ok kmin kmax n t s a w g s' y"
proof -
  note si = cp_SI_D [OF SI]
  have own: "owned (cp_own y) = owned (w t)" using x by (simp add: owned_def)
  note wr = list_write [OF si(1) nd, where n' = "nd\<lparr>lm_lock := l\<rparr>" and t = t and x = "cp_own y"]
  have lock: "cp_lock s' q = (if q = p then l else cp_lock s q)" for q by (simp add: cp_lock_def s')
  have nodes: "cp_nodes s' = cp_nodes s" and nm: "nm_of (cp_cells s') = nm_of (cp_cells s)" and live: "cp_live s' = cp_live s"
    using wr p x own by (simp_all add: s')
  have le: "list_effect t (cp_mem s) w (cp_live s) a (cp_mem s') (w(t := cp_own y)) (cp_live s') a"
    unfolding live using wr p x own by (simp add: s')
  show ?thesis
  proof (rule cp_step_ok [OF advance_stay LI' [OF le] _ le])
    show "cp_points s' t q c" if "cp_lock s q = Some t" "nm_of (cp_cells s) q = Some c" "q \<noteq> p" for q c
      using that by (simp add: cp_points_def lock nm)
    show "slist kmin kmax (cp_mem s') (w(t := cp_own y)) (cp_head s') (cp_live s') a"
      unfolding live using wr p x own by (simp add: s')
    show "q \<in> held ((w(t := cp_own y)) u) \<longleftrightarrow> cp_lock s' q = Some u" for u q
      using si(2) [of q u] x(3) [of q] l nd by (auto simp: lock)
    show "q \<in> cp_nodes s' \<or> q \<in> retired_nodes ((w(t := cp_own y)) u)" if "q \<in> held ((w(t := cp_own y)) u)" for u q
      using si(3) [of q u] that x l by (auto simp: nodes split: if_splits)
    show "cp_frame u s s'" if "u \<noteq> t" for u
      using l nd that by (auto simp: cp_frame_def lock nm)
  qed
qed

lemma cp_acquire_step:
  assumes SI: "cp_SI kmin kmax n s a w" and inn: "p \<in> cp_nodes s" and ex: "cp_acquire t s p x = Next s' y"
    and own: "private_nodes (w t) = {}" "retired_nodes (w t) = {}" "cp_own (At x) = holding {} {} (insert p (held (w t)))"
    and LI': "\<And>s'. list_effect t (cp_mem s) w (cp_live s) a (cp_mem s') (w(t := cp_own (At x))) (cp_live s') a \<Longrightarrow>
       (\<And>q c. cp_points s t q c \<Longrightarrow> cp_points s' t q c) \<Longrightarrow> cp_LI kmin kmax t s' a (w(t := cp_own (At x))) (At x) g"
  shows "cp_ok kmin kmax n t s a w g s' y"
proof -
  from ex obtain nd where nd: "cp_cells s p = Some nd" "lm_lock nd = None" and y: "y = At x"
    and s': "s' = s\<lparr>cp_mem := put_cell p (nd\<lparr>lm_lock := Some t\<rparr>) (cp_mem s)\<rparr>"
    by (auto simp: cp_acquire_def split: if_splits)
  have pub: "published (cp_mem s) w p" by (rule slist_published [OF cp_SI_D(1) [OF SI] inn])
  have free: "cp_lock s p \<noteq> Some t" using nd by simp
  show ?thesis
  proof (rule cp_lock_step [OF SI nd(1) pub _ _ _ _ s'])
    assume le: "list_effect t (cp_mem s) w (cp_live s) a (cp_mem s') (w(t := cp_own y)) (cp_live s') a"
      and pts: "\<And>q c. cp_lock s q = Some t \<Longrightarrow> nm_of (cp_cells s) q = Some c \<Longrightarrow> q \<noteq> p \<Longrightarrow> cp_points s' t q c"
    show "cp_LI kmin kmax t s' a (w(t := cp_own y)) y g"
      using LI' [of s'] le pts free unfolding y cp_points_def by blast
  qed (use own nd(2) inn y in auto)
qed

lemma cp_release_step:
  assumes SI: "cp_SI kmin kmax n s a w" and mine: "p \<in> held (w t)" and ex: "cp_unlock s p z = Next s' y"
    and own: "private_nodes (w t) = {}" "cp_own z = holding {} (retired_nodes (w t)) (held (w t) - {p})"
    and LI': "\<And>s'. list_effect t (cp_mem s) w (cp_live s) a (cp_mem s') (w(t := cp_own z)) (cp_live s') a \<Longrightarrow>
       cp_LI kmin kmax t s' a (w(t := cp_own z)) z g"
  shows "cp_ok kmin kmax n t s a w g s' y"
proof -
  from ex obtain nd where nd: "cp_cells s p = Some nd" and y: "y = z"
    and s': "s' = s\<lparr>cp_mem := put_cell p (nd\<lparr>lm_lock := None\<rparr>) (cp_mem s)\<rparr>" by (auto simp: cp_unlock_def)
  have "lm_lock nd = Some t" using cp_held_node(1) [OF SI mine] nd by simp
  then show ?thesis
    by (intro cp_lock_step [OF SI nd cp_held_node(3) [OF SI mine own(1)] _ _ _ _ s']) (use own LI' y in auto)
qed

section \<open>The steps\<close>

lemma cp_lock_node:
  "cp_SI kmin kmax n s a w \<Longrightarrow> p \<in> held (w t) \<Longrightarrow> retired_nodes (w t) = {} \<Longrightarrow> p \<in> cp_nodes s \<and> cp_lock s p = Some t"
  using cp_SI_D(2,3) by blast

lemma cp_next_node:
  assumes SI: "cp_SI kmin kmax n s a w" and c: "c \<in> cp_nodes s" and op: "list_op kmin kmax op g"
    and k: "cp_node s w c (\<lambda>x. x < op_key op)" and nd: "cp_cells s c = Some nd"
  shows "ll_next nd \<in> cp_nodes s" and "cp_node s w (ll_next nd) (\<lambda>x. ll_key nd < x)" and "ll_next nd \<noteq> c"
proof -
  note sl = cp_SI_D(1) [OF SI]
  have "ll_key nd < kmax" using k nd op by (auto simp: list_node_def list_op_def)
  from slist_next_in [OF sl c nd this] slist_next(1) [OF sl slist_published [OF sl c] nd this]
  show "ll_next nd \<in> cp_nodes s" "cp_node s w (ll_next nd) (\<lambda>x. ll_key nd < x)" .
  then show "ll_next nd \<noteq> c" using nd by (auto simp: list_node_def)
qed

text \<open>Between two locked neighbours the map is known.\<close>

lemma cp_absent:
  assumes SI: "cp_SI kmin kmax n s a w" and c: "c \<in> cp_nodes s" "cp_node s w c (\<lambda>x. x < k)"
    and d: "nm_of (cp_cells s) c = Some d" "cp_node s w d (\<lambda>x. k < x)"
  shows "a k = None"
proof -
  obtain nc nd where "cp_cells s c = Some nc" "ll_key nc < k" "cp_cells s (ll_next nc) = Some nd" "k < ll_key nd"
    using c(2) d by (auto simp: list_node_def)
  then show ?thesis using slist_absent_now [OF cp_SI_D(1) [OF SI] c(1)] by blast
qed

lemma cp_present:
  assumes SI: "cp_SI kmin kmax n s a w" and d: "d \<in> cp_nodes s" "cp_cells s d = Some nd" and k: "kmin < ll_key nd" "ll_key nd < kmax"
  shows "a (ll_key nd) = Some (ll_val nd)"
  using slist_present_now [OF cp_SI_D(1) [OF SI] slist_plain_live [OF cp_SI_D(1) [OF SI] d k] d(2)] .

lemma cp_points_in:
  assumes SI: "cp_SI kmin kmax n s a w" and c: "c \<in> cp_nodes s" and op: "list_op kmin kmax op g"
    and k: "cp_node s w c (\<lambda>x. x < op_key op)" and pt: "cp_points s t c d"
  shows "d \<in> cp_nodes s" and "c \<noteq> d"
proof -
  obtain nd where "cp_cells s c = Some nd" "ll_next nd = d" using pt by (auto simp: cp_points_def nm_of_def)
  with cp_next_node [OF SI c op k] show "d \<in> cp_nodes s" "c \<noteq> d" by auto
qed

lemma cp_walk_step:
  assumes SI: "cp_SI kmin kmax n s a w" and LI: "cp_LI kmin kmax t s a w (At (CWalk op x)) g" and obs: "observed map_spec a g"
    and own: "w t = cp_own (At (CWalk op x))" and ex: "cp_walk t s op x = Next s' y"
  shows "cp_ok kmin kmax n t s a w g s' y"
proof -
  note loc = cp_local [OF cp_SI_mono [OF SI]]
  note si = cp_SI_D [OF SI]
  show ?thesis
  proof (cases x)
    case CW_Lock_Head
    have ex': "cp_acquire t s (cp_head s) (CWalk op (CW_Succ (cp_head s))) = Next s' y" using ex CW_Lock_Head by simp
    have "cp_node s w (cp_head s) (\<lambda>x. x < op_key op)"
      using slist_head_node [OF si(1)] LI CW_Lock_Head by (auto simp: list_node_def list_op_def)
    then show ?thesis
      by (intro cp_acquire_step [OF SI slist_head [OF si(1)] ex'])
        (use LI own CW_Lock_Head in \<open>auto intro: effect_node\<close>)
  next
    case (CW_Succ c)
    with ex obtain nd where nd: "cp_cells s c = Some nd" "s' = s" "y = At (CWalk op (CW_Lock c (ll_next nd)))" by auto
    then show ?thesis using LI own CW_Succ si(2) [of c t] by (auto simp: cp_points_def intro!: loc)
  next
    case (CW_Lock c d)
    have ex': "cp_acquire t s d (CWalk op (CW_Next c d)) = Next s' y" using ex CW_Lock by simp
    have c: "c \<in> cp_nodes s" using cp_lock_node [OF SI, of c t] own CW_Lock by simp
    have "d \<in> cp_nodes s" using cp_points_in(1) [OF SI c, of op g t d] LI CW_Lock by simp
    then show ?thesis
      by (intro cp_acquire_step [OF SI _ ex']) (use LI own CW_Lock in \<open>auto intro: effect_node\<close>)
  next
    case (CW_Next c d)
    with ex obtain nd where nd: "cp_cells s c = Some nd" "s' = s" "y = At (CWalk op (CW_Key c (ll_next nd)))" by auto
    then show ?thesis using LI own CW_Next by (auto simp: cp_points_def intro!: loc)
  next
    case (CW_Key c d)
    with ex obtain nd where nd: "cp_cells s d = Some nd" "s' = s"
      "y = At (if ll_key nd < op_key op then CWalk op (CW_Move c d) else cp_after op c d)" by auto
    have c: "c \<in> cp_nodes s" using cp_lock_node [OF SI, of c t] own CW_Key by simp
    have d: "d \<in> cp_nodes s" "c \<noteq> d" using cp_points_in [OF SI c, of op g t d] LI CW_Key by simp_all
    have pub: "published (cp_mem s) w d" by (rule slist_published [OF si(1) d(1)])
    show ?thesis
    proof (cases "ll_key nd < op_key op")
      case True
      then show ?thesis using nd pub d LI own CW_Key by (auto simp: list_node_def intro!: loc)
    next
      case False
      then show ?thesis using nd pub LI own CW_Key by (cases op) (auto simp: list_node_def intro!: loc)
    qed
  next
    case (CW_Move c d)
    have ex': "cp_unlock s c (At (CWalk op (CW_Succ d))) = Next s' y" using ex CW_Move by simp
    show ?thesis
      by (rule cp_release_step [OF SI _ ex']) (use LI own CW_Move in \<open>auto intro: effect_node\<close>)
  qed
qed

lemma cp_search_step:
  assumes SI: "cp_SI kmin kmax n s a w" and LI: "cp_LI kmin kmax t s a w (At (CSearch x)) g" and obs: "observed map_spec a g"
    and own: "w t = cp_own (At (CSearch x))" and ex: "cp_search s x = Next s' y"
  shows "cp_ok kmin kmax n t s a w g s' y"
proof -
  note loc = cp_local [OF cp_SI_mono [OF SI]]
  show ?thesis
  proof (cases x)
    case (CS_Test k c d)
    with ex obtain nd where nd: "cp_cells s d = Some nd" "s' = s"
      "y = At (CSearch (if k = ll_key nd then CS_Val c d else CS_Unlock_C c d 0))" by auto
    from LI CS_Test obtain W where g: "g = Open (Search k) W" "kmin < k" "k < kmax" and node: "cp_node s w c (\<lambda>x. x < k)"
      "cp_node s w d (\<lambda>x. k \<le> x)" and pt: "cp_points s t c d" by (auto simp: list_op_def)
    have inn: "c \<in> cp_nodes s" "d \<in> cp_nodes s" using cp_lock_node [OF SI, of _ t] own CS_Test by simp_all
    have cd: "c \<noteq> d" using node by (auto simp: list_node_def)
    show ?thesis
    proof (cases "k = ll_key nd")
      case True
      then have "a k = Some (ll_val nd)" using cp_present [OF SI inn(2) nd(1)] g by simp
      then have "returns g (Ret_Val (ll_val nd))" using seen_presentI [of a "Search k" W] obs g(1) by simp
      then show ?thesis using nd True node(2) cd own CS_Test by (auto simp: cp_val_def list_node_def intro!: loc)
    next
      case False
      then have "cp_node s w d (\<lambda>x. k < x)" using node(2) nd(1) by (auto simp: list_node_def)
      then have "a k = None" using cp_absent [OF SI inn(1) node(1)] pt by (simp add: cp_points_def)
      then have "returns g (Ret_Val 0)" using seen_absentI [of a "Search k" W] obs g(1) by simp
      then show ?thesis using nd False cd own CS_Test by (auto intro!: loc)
    qed
  next
    case (CS_Val c d)
    with ex obtain nd where nd: "cp_cells s d = Some nd" "s' = s" "y = At (CSearch (CS_Unlock_C c d (ll_val nd)))" by auto
    then show ?thesis using LI own CS_Val by (auto simp: cp_val_def intro!: loc)
  next
    case (CS_Unlock_C c d r)
    have ex': "cp_unlock s c (At (CSearch (CS_Unlock_N d r))) = Next s' y" using ex CS_Unlock_C by simp
    show ?thesis by (rule cp_release_step [OF SI _ ex']) (use LI own CS_Unlock_C in auto)
  next
    case (CS_Unlock_N d r)
    have ex': "cp_unlock s d (Finished (Ret_Val r)) = Next s' y" using ex CS_Unlock_N by simp
    show ?thesis by (rule cp_release_step [OF SI _ ex']) (use LI own CS_Unlock_N in auto)
  qed
qed

lemma cp_insert_step:
  assumes SI: "cp_SI kmin kmax n s a w" and LI: "cp_LI kmin kmax t s a w (At (CInsert x)) g" and obs: "observed map_spec a g"
    and own: "w t = cp_own (At (CInsert x))" and ex: "cp_insert p s x = Next s' y"
  shows "cp_ok kmin kmax n t s a w g s' y"
proof -
  note loc = cp_local [OF cp_SI_mono [OF SI]]
  note si = cp_SI_D [OF SI]
  show ?thesis
  proof (cases x)
    case (CI_Test k v c d)
    with ex obtain nd where nd: "cp_cells s d = Some nd" "s' = s"
      "y = At (CInsert (if k = ll_key nd then CI_Unlock_C c d True else CI_Alloc k v c d))" by auto
    from LI CI_Test obtain W where g: "g = Open (Insert k v) W" "kmin < k" "k < kmax" and node: "cp_node s w c (\<lambda>x. x < k)"
      "cp_node s w d (\<lambda>x. k \<le> x)" by (auto simp: list_op_def)
    have inn: "d \<in> cp_nodes s" using cp_lock_node [OF SI, of _ t] own CI_Test by simp
    have cd: "c \<noteq> d" using node by (auto simp: list_node_def)
    show ?thesis
    proof (cases "k = ll_key nd")
      case True
      then have "a k = Some (ll_val nd)" using cp_present [OF SI inn nd(1)] g by simp
      then have "returns g (Ret_Int 0)" using seen_presentI [of a "Insert k v" W] obs g(1) by simp
      then show ?thesis using nd True cd own CI_Test by (auto intro!: loc)
    next
      case False
      then show ?thesis using nd LI own CI_Test by (auto simp: list_node_def intro!: loc)
    qed
  next
    case (CI_Alloc k v c d)
    then have ow: "w t = holding {} {} {c, d}" using own by simp
    let ?n = "initialize_ll_marked k v d"
    from ex CI_Alloc have fr: "fresh (cp_cells s) p" and s': "s' = s\<lparr>cp_mem := put_cell p ?n (cp_mem s)\<rparr>"
      and y: "y = At (CInsert (CI_Link k v c d p))" by auto
    have np: "cp_cells s p = None" using fr by (simp add: fresh_def)
    note al = list_alloc [OF si(1) fr, where t = t and x = "cp_own y" and n = ?n]
    have lock: "cp_lock s' r = cp_lock s r" for r using np by (auto simp: cp_lock_def s' initialize_ll_marked_def)
    have nm: "cp_lock s r = Some u \<Longrightarrow> nm_of (cp_cells s') r = nm_of (cp_cells s) r" for r u
      using np by (auto simp: nm_of_def s' cp_lock_def)
    have live: "cp_live s' = cp_live s" and nodes: "cp_nodes s' = cp_nodes s" using al ow by (simp_all add: s' y)
    have le: "list_effect t (cp_mem s) w (cp_live s) a (cp_mem s') (w(t := cp_own y)) (cp_live s') a"
      unfolding live using al ow by (simp add: s' y)
    have pt: "cp_points s' t c d" using LI CI_Alloc nm lock by (simp add: cp_points_def)
    show ?thesis
    proof (rule cp_step_ok [OF advance_stay _ _ le])
      show "cp_LI kmin kmax t s' a (w(t := cp_own y)) y g"
        using LI CI_Alloc pt effect_node [OF le] unfolding y by (auto simp: s')
      show "slist kmin kmax (cp_mem s') (w(t := cp_own y)) (cp_head s') (cp_live s') a"
        unfolding live using al ow by (simp add: s' y)
      show "q \<in> held ((w(t := cp_own y)) u) \<longleftrightarrow> cp_lock s' q = Some u" for u q
        using si(2) [of q u] ow by (cases "u = t") (auto simp: lock y)
      show "q \<in> cp_nodes s' \<or> q \<in> retired_nodes ((w(t := cp_own y)) u)" if "q \<in> held ((w(t := cp_own y)) u)" for u q
        using si(3) [of q u] that ow by (auto simp: nodes y split: if_splits)
      show "cp_frame u s s'" for u using nm by (simp add: cp_frame_def lock)
    qed
  next
    case (CI_Link k v c d r)
    then have ow: "w t = holding {r} {} {c, d}" using own by simp
    from ex CI_Link obtain nc where nc: "cp_cells s c = Some nc"
      and s': "s' = s\<lparr>cp_mem := put_cell c (nc\<lparr>ll_next := r\<rparr>) (cp_mem s)\<rparr>" and y: "y = At (CInsert (CI_Unlock_C c d False))"
      by auto
    from LI CI_Link obtain W where g: "g = Open (Insert k v) W" and node: "cp_node s w c (\<lambda>x. x < k)" "cp_node s w d (\<lambda>x. k < x)"
      and pt: "cp_points s t c d" and new: "cp_cells s r = Some (initialize_ll_marked k v d)" by (auto simp: list_op_def)
    let ?a = "a(k \<mapsto> v)"
    have inn: "c \<in> cp_nodes s" and lkc: "cp_lock s c = Some t" using cp_lock_node [OF SI, of c t] ow by simp_all
    obtain nd where nd: "cp_cells s d = Some nd" "k < ll_key nd" using node(2) by (auto simp: list_node_def)
    have kc: "ll_key nc < k" "ll_next nc = d" "c \<noteq> d" using node pt nc by (auto simp: list_node_def cp_points_def)
    note ln = list_link [OF si(1) inn nc new, where t = t and n' = "nc\<lparr>ll_next := r\<rparr>" and x = "cp_own y" and nc = nd
        and m' = "cp_mem s'" and a' = ?a]
    have lock: "cp_lock s' q = cp_lock s q" for q using nc by (auto simp: cp_lock_def s')
    have live: "cp_live s' = insert r (cp_live s)" and nodes: "cp_nodes s' = insert r (cp_nodes s)"
      and nm: "nm_of (cp_cells s') = (nm_of (cp_cells s))(c := Some r)" and ak: "a k = None"
      using ln ow nd kc by (simp_all add: s' y initialize_ll_marked_def)
    have le: "list_effect t (cp_mem s) w (cp_live s) a (cp_mem s') (w(t := cp_own y)) (cp_live s') ?a"
      and sl: "slist kmin kmax (cp_mem s') (w(t := cp_own y)) (cp_head s') (cp_live s') ?a"
      unfolding live using ln ow nd kc by (simp_all add: s' y initialize_ll_marked_def)
    show ?thesis
    proof (rule cp_step_ok [where a' = ?a and g' = "Closed (Ret_Int 1)", OF _ _ sl le])
      show "advance map_spec a g ?a (Closed (Ret_Int 1))" unfolding g by (rule advance_lin) (simp add: ak)
      show "q \<in> held ((w(t := cp_own y)) u) \<longleftrightarrow> cp_lock s' q = Some u" for u q
        using si(2) [of q u] ow by (cases "u = t") (auto simp: lock y)
      show "q \<in> cp_nodes s' \<or> q \<in> retired_nodes ((w(t := cp_own y)) u)" if "q \<in> held ((w(t := cp_own y)) u)" for u q
        using si(3) [of q u] that ow by (auto simp: nodes y split: if_splits)
      show "cp_frame u s s'" if "u \<noteq> t" for u using that lkc by (auto simp: cp_frame_def lock nm)
    qed (use kc in \<open>simp add: y\<close>)
  next
    case (CI_Unlock_C c d f)
    have ex': "cp_unlock s c (At (CInsert (CI_Unlock_N d f))) = Next s' y" using ex CI_Unlock_C by simp
    show ?thesis by (rule cp_release_step [OF SI _ ex']) (use LI own CI_Unlock_C in auto)
  next
    case (CI_Unlock_N d f)
    have ex': "cp_unlock s d (Finished (Ret_Int (if f then 0 else 1))) = Next s' y" using ex CI_Unlock_N by simp
    show ?thesis by (rule cp_release_step [OF SI _ ex']) (use LI own CI_Unlock_N in auto)
  qed
qed

lemma cp_remove_step:
  assumes SI: "cp_SI kmin kmax n s a w" and LI: "cp_LI kmin kmax t s a w (At (CRemove x)) g" and obs: "observed map_spec a g"
    and own: "w t = cp_own (At (CRemove x))" and ex: "cp_remove s x = Next s' y"
  shows "cp_ok kmin kmax n t s a w g s' y"
proof -
  note loc = cp_local [OF cp_SI_mono [OF SI]]
  note si = cp_SI_D [OF SI]
  show ?thesis
  proof (cases x)
    case (CR_Test k c d)
    with ex obtain nd where nd: "cp_cells s d = Some nd" "s' = s"
      "y = At (CRemove (if k = ll_key nd then CR_Val k c d else CR_Unlock_C c d))" by auto
    from LI CR_Test obtain W where g: "g = Open (Delete k) W" and node: "cp_node s w c (\<lambda>x. x < k)"
      "cp_node s w d (\<lambda>x. k \<le> x)" and pt: "cp_points s t c d" by (auto simp: list_op_def)
    have inn: "c \<in> cp_nodes s" using cp_lock_node [OF SI, of _ t] own CR_Test by simp
    have cd: "c \<noteq> d" using node by (auto simp: list_node_def)
    show ?thesis
    proof (cases "k = ll_key nd")
      case True
      then show ?thesis using nd LI own CR_Test by (auto simp: list_node_def intro!: loc)
    next
      case False
      then have "cp_node s w d (\<lambda>x. k < x)" using node(2) nd(1) by (auto simp: list_node_def)
      then have "a k = None" using cp_absent [OF SI inn node(1)] pt by (simp add: cp_points_def)
      then have "returns g (Ret_Val 0)" using seen_absentI [of a "Delete k" W] obs g(1) by simp
      then show ?thesis using nd False cd own CR_Test by (auto intro!: loc)
    qed
  next
    case (CR_Val k c d)
    with ex obtain nd where nd: "cp_cells s d = Some nd" "s' = s" "y = At (CRemove (CR_Succ k c d (ll_val nd)))" by auto
    then show ?thesis using LI own CR_Val by (auto simp: cp_val_def list_node_def intro!: loc)
  next
    case (CR_Succ k c d r)
    with ex obtain nd where nd: "cp_cells s d = Some nd" "s' = s" "y = At (CRemove (CR_Unlink k c d (ll_next nd) r))" by auto
    then show ?thesis using LI own CR_Succ si(2) [of d t] by (auto simp: cp_points_def intro!: loc)
  next
    case (CR_Unlink k c d e r)
    then have ow: "w t = holding {} {} {c, d}" using own by simp
    from ex CR_Unlink obtain nc where nc: "cp_cells s c = Some nc"
      and s': "s' = s\<lparr>cp_mem := put_cell c (nc\<lparr>ll_next := e\<rparr>) (cp_mem s)\<rparr>" and y: "y = At (CRemove (CR_Unlock c d r))"
      by auto
    from LI CR_Unlink obtain W where g: "g = Open (Delete k) W" "kmin < k" "k < kmax" and node: "cp_node s w c (\<lambda>x. x < k)"
      and pt: "cp_points s t c d" "cp_points s t d e" and val: "cp_val s w d k r" by (auto simp: list_op_def)
    let ?a = "a(k := None)"
    have inn: "c \<in> cp_nodes s" and lk: "cp_lock s c = Some t" "cp_lock s d = Some t"
      using cp_lock_node [OF SI, of _ t] ow by simp_all
    obtain nd where nd: "cp_cells s d = Some nd" "ll_key nd = k" "ll_val nd = r" "ll_next nd = e"
      using val pt(2) by (auto simp: cp_val_def cp_points_def kv_of_def)
    have kc: "ll_next nc = d" "c \<noteq> d" using node pt(1) nc nd by (auto simp: list_node_def cp_points_def)
    note rm = list_remove [OF si(1) inn nc kc(1) nd(1), where t = t and n' = "nc\<lparr>ll_next := e\<rparr>" and x = "cp_own y"
        and m' = "cp_mem s'" and a' = ?a]
    have lock: "cp_lock s' q = cp_lock s q" for q using nc by (auto simp: cp_lock_def s')
    have nodes: "cp_nodes s' = cp_nodes s - {d}"
      and nm: "nm_of (cp_cells s') = (nm_of (cp_cells s))(c := Some e)" and ak: "a k = Some r"
      and le: "list_effect t (cp_mem s) w (cp_live s) a (cp_mem s') (w(t := cp_own y)) (cp_live s') ?a"
      and sl: "slist kmin kmax (cp_mem s') (w(t := cp_own y)) (cp_head s') (cp_live s') ?a"
      using rm ow nd g by (simp_all add: s' y)
    show ?thesis
    proof (rule cp_step_ok [where a' = ?a and g' = "Closed (Ret_Val r)", OF _ _ sl le])
      show "advance map_spec a g ?a (Closed (Ret_Val r))" unfolding g(1) by (rule advance_lin) (simp add: ak)
      show "q \<in> held ((w(t := cp_own y)) u) \<longleftrightarrow> cp_lock s' q = Some u" for u q
        using si(2) [of q u] ow by (cases "u = t") (auto simp: lock y)
      show "q \<in> cp_nodes s' \<or> q \<in> retired_nodes ((w(t := cp_own y)) u)" if "q \<in> held ((w(t := cp_own y)) u)" for u q
      proof (cases "u = t")
        case True
        then show ?thesis using that kc inn by (auto simp: nodes y)
      next
        case False
        then have "q \<in> held (w u)" using that by simp
        then have "q \<noteq> d" using si(2) [of d u] lk False by auto
        then show ?thesis using si(3) [OF \<open>q \<in> held (w u)\<close>] False by (auto simp: nodes)
      qed
      show "cp_frame u s s'" if "u \<noteq> t" for u using that lk by (auto simp: cp_frame_def lock nm)
    qed (use kc in \<open>simp add: y\<close>)
  next
    case (CR_Unlock c d r)
    have ex': "cp_unlock s d (At (CRemove (CR_Delete c d r))) = Next s' y" using ex CR_Unlock by simp
    show ?thesis by (rule cp_release_step [OF SI _ ex']) (use LI own CR_Unlock in auto)
  next
    case (CR_Delete c d r)
    then have ow: "w t = holding {} {d} {c}" using own by simp
    from ex CR_Delete have s': "s' = s\<lparr>cp_mem := (cp_mem s)\<lparr>released := insert d (released (cp_mem s))\<rparr>\<rparr>"
      and y: "y = At (CRemove (CR_Last c r))" by (auto simp: ll_marked_delete_def)
    note re = list_release [OF si(1) _ _ _ refl, of d t "cp_own y"]
    have same: "cp_cells s' = cp_cells s" "cp_head s' = cp_head s" by (simp_all add: s')
    have live: "cp_live s' = cp_live s" by (simp add: s' ll_live_def)
    have lock: "cp_lock s' = cp_lock s" by (simp add: cp_lock_def fun_eq_iff same)
    have c: "c \<noteq> d" using LI CR_Delete by simp
    show ?thesis
    proof (rule cp_step_ok [OF advance_stay])
      show "cp_LI kmin kmax t s' a (w(t := cp_own y)) y g" using LI CR_Delete by (simp add: y)
      show "slist kmin kmax (cp_mem s') (w(t := cp_own y)) (cp_head s') (cp_live s') a"
        "list_effect t (cp_mem s) w (cp_live s) a (cp_mem s') (w(t := cp_own y)) (cp_live s') a"
        unfolding live using re ow by (simp_all add: s' y)
      show "q \<in> held ((w(t := cp_own y)) u) \<longleftrightarrow> cp_lock s' q = Some u" for u q
        using si(2) [of q u] ow by (cases "u = t") (auto simp: lock y)
      show "q \<in> cp_nodes s' \<or> q \<in> retired_nodes ((w(t := cp_own y)) u)" if "q \<in> held ((w(t := cp_own y)) u)" for u q
        using si(3) [of q u] that ow c by (auto simp: same y split: if_splits)
      show "cp_frame u s s'" for u by (simp add: cp_frame_def lock same)
    qed
  next
    case (CR_Last c r)
    have ex': "cp_unlock s c (Finished (Ret_Val r)) = Next s' y" using ex CR_Last by simp
    show ?thesis by (rule cp_release_step [OF SI _ ex']) (use LI own CR_Last in auto)
  next
    case (CR_Unlock_C c d)
    have ex': "cp_unlock s c (At (CRemove (CR_Unlock_N d))) = Next s' y" using ex CR_Unlock_C by simp
    show ?thesis by (rule cp_release_step [OF SI _ ex']) (use LI own CR_Unlock_C in auto)
  next
    case (CR_Unlock_N d)
    have ex': "cp_unlock s d (Finished (Ret_Val 0)) = Next s' y" using ex CR_Unlock_N by simp
    show ?thesis by (rule cp_release_step [OF SI _ ex']) (use LI own CR_Unlock_N in auto)
  qed
qed

lemma cp_safe:
  assumes SI: "cp_SI kmin kmax n s a w" and LI: "cp_LI kmin kmax t s a w (At x) g" and own: "w t = cp_own (At x)"
  shows "cp_exec t p s x \<noteq> Fault"
proof -
  note si = cp_SI_D [OF SI]
  have held: "\<exists>n. cp_cells s q = Some n" "q \<notin> released (cp_mem s)" if "q \<in> held (w t)" for q
    using cp_held_node(1,2) [OF SI that] by blast+
  have inn: "\<exists>n. cp_cells s q = Some n" "q \<notin> released (cp_mem s)" if "q \<in> cp_nodes s" for q
    using partition_live [OF slist_partition [OF si(1)] that] by auto
  have ow: "\<exists>n. cp_cells s q = Some n" "q \<notin> released (cp_mem s)" if "q \<in> owned (w t)" for q
    using partition_owned [OF slist_partition [OF si(1)] that] by auto
  show ?thesis
  proof (cases x)
    case (CWalk op z)
    have succ: "\<exists>n. cp_cells s d = Some n" "d \<notin> released (cp_mem s)" if "z = CW_Lock c d" for c d
    proof -
      have "c \<in> cp_nodes s" using cp_lock_node [OF SI, of c t] own that CWalk by simp
      then have "d \<in> cp_nodes s" using cp_points_in(1) [OF SI, of c op g t d] LI that CWalk by simp
      then show "\<exists>n. cp_cells s d = Some n" "d \<notin> released (cp_mem s)" using inn by blast+
    qed
    show ?thesis using own held inn [OF slist_head [OF si(1)]] succ
      by (cases z) (auto simp: CWalk cp_acquire_def cp_unlock_def split: if_splits)
  next
    case (CSearch z)
    then show ?thesis using own held by (cases z) (auto simp: cp_unlock_def)
  next
    case (CInsert z)
    then show ?thesis using own held by (cases z) (auto simp: cp_unlock_def)
  next
    case (CRemove z)
    then show ?thesis using own held ow by (cases z) (auto simp: cp_unlock_def ll_marked_delete_def)
  qed
qed

lemma cp_call:
  assumes "cp_start kmin kmax op = Some x"
  shows "cp_own (At x) = cp_own Idle"
    and "cp_LI kmin kmax t s a w (At x) (Open op (legal map_spec op a))"
  using assms by (auto simp: cp_start_def list_op_def split: if_splits)

lemma cp_SI_init:
  assumes "h \<noteq> NULL" "t \<noteq> NULL" "h \<noteq> t" "kmin < kmax"
  shows "cp_SI kmin kmax 0 (cp_init kmin kmax h t :: ('k::linorder, 'v::zero) coupling) Map.empty (\<lambda>_. cp_own Idle)"
proof -
  let ?s = "cp_init kmin kmax h t :: ('k, 'v) coupling"
  have c: "cells (cp_mem ?s) = [h \<mapsto> initialize_ll_marked kmin 0 t, t \<mapsto> initialize_ll_marked kmax 0 NULL]"
    using assms(3) by (auto simp: cp_init_def empty_store_def fun_eq_iff)
  note si = slist_init [OF assms(1-3) this, of kmin kmax]
  have sl: "slist kmin kmax (cp_mem ?s) (\<lambda>_. none_owned :: ptr ownership) h {} Map.empty" "cp_live ?s = {}"
    using si assms(4) by (simp_all add: cp_init_def initialize_ll_marked_def)
  moreover have "cp_lock ?s p = None" for p by (simp add: cp_lock_def c initialize_ll_marked_def)
  moreover have "cp_head ?s = h" by (simp add: cp_init_def)
  ultimately show ?thesis by (simp add: cp_SI_def locks_ok_def)
qed

interpretation coupling_list: thread_object map_spec Map.empty "cp_start kmin kmax" cp_exec "cp_init kmin kmax h t"
  cp_own "list_run_ok kmin kmax h t" "cp_SI kmin kmax" "cp_LI kmin kmax" for kmin kmax :: "'k::linorder" and h t
proof unfold_locales
  fix n s a w u x g p s' y
  assume "list_run_ok kmin kmax h t (Suc n)" and "cp_SI kmin kmax n s a w" and "cp_LI kmin kmax u s a w (At x) g"
    and "observed map_spec a g" and "w u = cp_own (At x)" and "cp_exec u p s x = Next s' y"
  then show "step_ok map_spec cp_own (cp_SI kmin kmax) (cp_LI kmin kmax) n u s a w g s' y"
    by (cases x) (auto intro: cp_walk_step cp_search_step cp_insert_step cp_remove_step)
qed (auto simp: list_run_ok_def intro: cp_SI_init [simplified] cp_SI_mono dest: cp_call cp_safe)

section \<open>A concrete run\<close>

text \<open>Thread 0 inserts 5; thread 1 starts to remove it and holds the locks of the head and of the node, so that
  thread 0, which searches for 5, waits at the head; thread 1 frees the node, and thread 0 does not find it.\<close>

definition cp_demo :: "(int, int) map_op command list" where
  "cp_demo = [Do_Call 0 (Insert 5 50)] @ steps_of 0 6 @ [Do_Step 0 3] @ steps_of 0 3 @ [Do_Return 0, Do_Call 1 (Delete 5),
     Do_Call 0 (Search 5)] @ steps_of 1 12 @ steps_of 0 8 @ [Do_Return 0, Do_Return 1]"

definition cp_demo_history :: "((int, int) map_op, int map_ret) history" where
  "cp_demo_history = [(0, Call (Insert 5 50)), (0, Return (Ret_Int 1)), (1, Call (Delete 5)), (0, Call (Search 5)),
     (0, Return (Ret_Val 0)), (1, Return (Ret_Val 50))]"

lemma cp_demo_run:
  "\<exists>s c. run (cp_start 0 10) cp_exec (cp_init 0 10 1 2) (length cp_demo) cp_demo_history (s, c)
     \<and> cp_length s = Some 0"
  unfolding cp_demo_history_def
  by (rule replay_exhibits)
    (simp add: cp_demo_def cp_start_def cp_init_def cp_acquire_def cp_unlock_def cp_deref_def cp_length_def ll_marked_defs
      ll_marked_delete_def ll_length_def ll_length_loop.simps fresh_def alloc_def put_cell_def empty_store_def release_def
      replicate_binary)

section \<open>Properties\<close>

text \<open>C28: every concurrent run of the list with hand-over-hand locking, on keys strictly between those of the
  sentinels, is linearizable with respect to the map specification; in the reached state \<^verbatim>\<open>length()\<close> is the
  number of keys of the abstract map, the destructor frees exactly the linked nodes, no lock has two
  holders, and no thread is about to touch a node that was freed, though \<^verbatim>\<open>remove\<close> frees nodes at once.\<close>

theorem coupling_list_correct:
  assumes "run (cp_start kmin kmax) cp_exec (cp_init kmin kmax h t) n hist (s, c)" and "list_run_ok kmin kmax h t n"
  shows "linearizable map_spec Map.empty hist
    \<and> (\<exists>a. linearizes_to map_spec Map.empty hist a \<and> cp_length s = Some (int (card (dom a))))
    \<and> cp_destroy s = Some ((cp_mem s)\<lparr>cells := cp_cells s |` (- cp_nodes s)\<rparr>)
    \<and> (\<forall>u v p. p \<in> held (cp_own (c u)) \<longrightarrow> p \<in> held (cp_own (c v)) \<longrightarrow> u = v)
    \<and> (\<forall>u p x. c u = At x \<longrightarrow> cp_exec u p s x \<noteq> Fault)"
proof -
  from coupling_list.reachable_SI [OF assms] obtain a where a: "linearizes_to map_spec Map.empty hist a"
    and SI: "cp_SI kmin kmax n s a (cp_own \<circ> c)" by blast
  note si = cp_SI_D [OF SI]
  have "cp_length s = Some (int (card (dom a)))"
    using slist_length [OF si(1)] assms(2) by (simp add: cp_length_def list_run_ok_def)
  moreover have "u = v" if "p \<in> held (cp_own (c u))" "p \<in> held (cp_own (c v))" for u v p
    using si(2) [of p u] si(2) [of p v] that by simp
  ultimately show ?thesis
    using a slist_destroy [OF si(1)] coupling_list.linearizable [OF assms] coupling_list.no_fault [OF assms]
    unfolding cp_destroy_def by (simp add: freed_or_undefined_def cells_freed_def) blast
qed

theorem coupling_list_correct_witness: "linearizable map_spec Map.empty cp_demo_history"
proof -
  have "list_run_ok (0::int) 10 1 2 (length cp_demo)" by (simp add: list_run_ok_def cp_demo_def)
  with cp_demo_run show ?thesis using coupling_list_correct by blast
qed

end
