(* ===== verification/Skiplist_Seq.thy ===== *)
theory Skiplist_Seq
  imports LinkedList_Seq Random_Utils
begin

text \<open>
  The sequential skip list, \<^verbatim>\<open>src/algorithms/skiplist_seq.h\<close>, on the nodes of \<^verbatim>\<open>src/aux/sl_simple.h\<close>, in the
  build with \<^verbatim>\<open>GC == 1\<close>. A node is an object of \<^verbatim>\<open>size_pad_32\<close> bytes, so its array \<^verbatim>\<open>next\<close> has a number of
  slots that follows from the sizes; a slot that was not written yet, an index behind the last slot (or
  behind \<^verbatim>\<open>MAXLEVEL\<close> in \<^verbatim>\<open>preds\<close> and \<^verbatim>\<open>succs\<close>), an address without a node and a released node all make the
  model answer \<open>None\<close>. \<open>sz\<close> is \<^verbatim>\<open>sizeof(sl_simple<K,V>)\<close>. The destructor is not modelled: it calls
  \<^verbatim>\<open>sl_delete_node\<close>, which exists nowhere.
\<close>

unbundle bit_operations_syntax

section \<open>Nodes\<close>

record ('k, 'v) sl_simple =
  sl_key :: 'k
  sl_val :: 'v
  sl_deleted :: "32 word"
  sl_toplevel :: "32 word"
  sl_next :: "ptr option list"

text \<open>The bytes \<^verbatim>\<open>allocate_sl_simple_unlinked\<close> asks for, and the slots of \<^verbatim>\<open>next\<close> they have room for, which begin
  at \<open>sz - 8\<close>.\<close>

definition sl_node_size :: "32 word \<Rightarrow> bool \<Rightarrow> nat" where
  "sl_node_size size_pad_32 transactional =
     (let node_size = unat size_pad_32; node_size_rm = node_size mod 64
      in if transactional \<and> node_size_rm \<noteq> 0 then node_size + (64 - node_size_rm) else node_size)"

definition sl_slots :: "nat \<Rightarrow> nat \<Rightarrow> nat" where
  "sl_slots sz node_size = (node_size - (sz - 8)) div 8"

definition allocate_sl_simple_unlinked :: "nat \<Rightarrow> 'k \<Rightarrow> 'v \<Rightarrow> 32 word \<Rightarrow> 32 word \<Rightarrow> bool \<Rightarrow> ('k, 'v) sl_simple" where
  "allocate_sl_simple_unlinked sz k v size_pad_32 toplevel transactional =
     \<lparr>sl_key = k, sl_val = v, sl_deleted = 0, sl_toplevel = toplevel,
      sl_next = replicate (sl_slots sz (sl_node_size size_pad_32 transactional)) None\<rparr>"

definition array_get :: "'a option list \<Rightarrow> nat \<Rightarrow> 'a option" where
  "array_get xs i = (if i < length xs then xs ! i else None)"

definition array_put :: "'a option list \<Rightarrow> nat \<Rightarrow> 'a \<Rightarrow> 'a option list option" where
  "array_put xs i x = (if i < length xs then Some (xs[i := Some x]) else None)"

text \<open>\<^verbatim>\<open>for (int i=0; i < levelmax; i++) node->next[i] = next\<close>.\<close>

fun sl_fill :: "'a option list \<Rightarrow> nat \<Rightarrow> nat \<Rightarrow> 'a \<Rightarrow> 'a option list option" where
  "sl_fill xs i 0 x = Some xs"
| "sl_fill xs i (Suc n) x = Option.bind (array_put xs i x) (\<lambda>ys. sl_fill ys (Suc i) n x)"

definition allocate_sl_simple :: "nat \<Rightarrow> 'k \<Rightarrow> 'v \<Rightarrow> ptr \<Rightarrow> 32 word \<Rightarrow> 32 word \<Rightarrow> 32 word \<Rightarrow> bool \<Rightarrow> ('k, 'v) sl_simple option" where
  "allocate_sl_simple sz k v nxt levelmax size_pad_32 toplevel transactional =
     (let node = allocate_sl_simple_unlinked sz k v size_pad_32 toplevel transactional
      in map_option (\<lambda>ns. node\<lparr>sl_next := ns\<rparr>) (sl_fill (sl_next node) 0 (unat levelmax) nxt))"

definition sl_simple_delete :: "('k, 'v) sl_simple store \<Rightarrow> ptr \<Rightarrow> ('k, 'v) sl_simple store option" where
  "sl_simple_delete m p =
     (if cells m p = None \<or> p \<in> released m then None else Some (m\<lparr>released := insert p (released m)\<rparr>))"

text \<open>The mark is the lowest bit of an address.\<close>

definition is_marked :: "ptr \<Rightarrow> bool" where "is_marked p \<longleftrightarrow> p AND 1 \<noteq> 0"
definition set_mark :: "ptr \<Rightarrow> ptr" where "set_mark p = p OR 1"
definition unset_mark :: "ptr \<Rightarrow> ptr" where "unset_mark p = p AND NOT 1"

section \<open>The skip list\<close>

definition MAXLEVEL :: nat where "MAXLEVEL = 32"

record ('k, 'v) skiplist =
  sk_head :: ptr
  sk_levelmax :: "32 word"
  sk_size_pad :: "32 word"
  sk_mem :: "('k, 'v) sl_simple store"

text \<open>\<^verbatim>\<open>while (size_pad_32 & 31) size_pad_32++\<close>.\<close>

lemma and_31_word: "unat ((x::32 word) AND 31) = unat x mod 32"
proof -
  have "x AND 31 = take_bit 5 x" by (simp add: take_bit_eq_mask mask_eq_exp_minus_1)
  moreover have "unat (take_bit 5 x) = take_bit 5 (unat x)" by (rule unsigned_take_bit_eq)
  ultimately show ?thesis by (simp only: take_bit_eq_mod) simp
qed

lemma unat_Suc_mod_32: "unat ((x::32 word) + 1) mod 32 = (unat x + 1) mod 32"
proof -
  have "unat (x + 1) = (unat x + 1) mod 2 ^ 32" by (simp add: unat_word_ariths)
  then show ?thesis by (simp add: mod_mod_cancel)
qed

lemma pad_measure:
  fixes x y :: nat
  assumes "x mod 32 \<noteq> 0" and "y mod 32 = (x + 1) mod 32"
  shows "(32 - y mod 32) mod 32 < (32 - x mod 32) mod 32"
proof (cases "x mod 32 = 31")
  case True
  then show ?thesis using assms(2) by (simp add: mod_Suc)
next
  case False
  moreover have "x mod 32 < 32" by simp
  ultimately show ?thesis using assms by (simp add: mod_Suc)
qed

function sk_pad_up :: "32 word \<Rightarrow> 32 word" where
  "sk_pad_up x = (if x AND 31 \<noteq> 0 then sk_pad_up (x + 1) else x)"
  by auto
termination
proof (relation "measure (\<lambda>x. (32 - unat x mod 32) mod 32)")
  fix x :: "32 word" assume "x AND 31 \<noteq> 0"
  then have "unat x mod 32 \<noteq> 0" using and_31_word [of x] by (metis unat_0 word_unat_eq_iff)
  from pad_measure [OF this unat_Suc_mod_32] show "(x + 1, x) \<in> measure (\<lambda>x. (32 - unat x mod 32) mod 32)" by simp
qed simp

declare sk_pad_up.simps [simp del]

definition sk_init :: "nat \<Rightarrow> 'k \<Rightarrow> 'k \<Rightarrow> 32 word \<Rightarrow> ptr \<Rightarrow> ptr \<Rightarrow> ('k, 'v::zero) skiplist option" where
  "sk_init sz kmin kmax level_max h t =
     (let pad = sk_pad_up (of_nat sz + level_max * 8)
      in Option.bind (allocate_sl_simple sz kmax 0 NULL level_max pad level_max True) (\<lambda>max.
         map_option (\<lambda>min. \<lparr>sk_head = h, sk_levelmax = level_max, sk_size_pad = pad,
             sk_mem = put_cell h min (put_cell t max empty_store)\<rparr>)
           (allocate_sl_simple sz kmin 0 t level_max pad level_max True)))"

text \<open>Access to a node, and to a slot of it.\<close>

definition sl_node :: "('k, 'v) sl_simple store \<Rightarrow> ptr \<Rightarrow> ('k, 'v) sl_simple option" where
  "sl_node m p = (if p \<in> released m then None else cells m p)"

definition sl_get :: "('k, 'v) sl_simple store \<Rightarrow> ptr \<Rightarrow> nat \<Rightarrow> ptr option" where
  "sl_get m p i = Option.bind (sl_node m p) (\<lambda>n. array_get (sl_next n) i)"

definition sl_put :: "('k, 'v) sl_simple store \<Rightarrow> ptr \<Rightarrow> nat \<Rightarrow> ptr \<Rightarrow> ('k, 'v) sl_simple store option" where
  "sl_put m p i q = Option.bind (sl_node m p) (\<lambda>n.
     map_option (\<lambda>ns. put_cell p (n\<lparr>sl_next := ns\<rparr>) m) (array_put (sl_next n) i q))"

text \<open>\<^verbatim>\<open>while (next->key < key) { node = next; next = node->next[i]; }\<close>.\<close>

partial_function (option) sk_walk :: "('k::linorder, 'v) sl_simple store \<Rightarrow> 'k \<Rightarrow> nat \<Rightarrow> ptr \<Rightarrow> ptr \<Rightarrow> (ptr \<times> ptr) option" where
  "sk_walk m key i node nxt = do {
     n \<leftarrow> sl_node m nxt;
     if sl_key n < key then Option.bind (sl_get m nxt i) (sk_walk m key i nxt) else Some (node, nxt) }"

text \<open>The loops over the levels, from \<open>i - 1\<close> down to 0: in \<^verbatim>\<open>search\<close>, and with the neighbours in \<^verbatim>\<open>insert\<close>
  and \<^verbatim>\<open>remove\<close>.\<close>

fun sk_descend :: "('k::linorder, 'v) sl_simple store \<Rightarrow> 'k \<Rightarrow> ptr \<Rightarrow> nat \<Rightarrow> ptr option" where
  "sk_descend m key node 0 = Some node"
| "sk_descend m key node (Suc i) = do {
     nxt \<leftarrow> sl_get m node i;
     (node, nxt) \<leftarrow> sk_walk m key i node nxt;
     sk_descend m key node i }"

type_synonym neighbours = "ptr option list \<times> ptr option list"

fun sk_find :: "('k::linorder, 'v) sl_simple store \<Rightarrow> 'k \<Rightarrow> ptr \<Rightarrow> ptr \<Rightarrow> neighbours \<Rightarrow> nat \<Rightarrow> (ptr \<times> ptr \<times> neighbours) option" where
  "sk_find m key node nxt ps 0 = Some (node, nxt, ps)"
| "sk_find m key node nxt ps (Suc i) = do {
     nxt \<leftarrow> sl_get m node i;
     (node, nxt) \<leftarrow> sk_walk m key i node nxt;
     preds \<leftarrow> array_put (fst ps) i node;
     s \<leftarrow> sl_get m node i;
     succs \<leftarrow> array_put (snd ps) i s;
     sk_find m key node nxt (preds, succs) i }"

definition sk_search :: "('k::linorder, 'v::zero) skiplist \<Rightarrow> 'k \<Rightarrow> 'v option" where
  "sk_search s key = do {
     hd \<leftarrow> sl_node (sk_mem s) (sk_head s);
     node \<leftarrow> sk_descend (sk_mem s) key (sk_head s) (unat (sl_toplevel hd));
     node \<leftarrow> sl_get (sk_mem s) node 0;
     n \<leftarrow> sl_node (sk_mem s) node;
     Some (if sl_key n = key then sl_val n else 0) }"

fun sk_link :: "('k, 'v) sl_simple store \<Rightarrow> ptr \<Rightarrow> neighbours \<Rightarrow> nat \<Rightarrow> nat \<Rightarrow> ('k, 'v) sl_simple store option" where
  "sk_link m node ps i 0 = Some m"
| "sk_link m node ps i (Suc n) = do {
     s \<leftarrow> array_get (snd ps) i;
     m \<leftarrow> sl_put m node i s;
     p \<leftarrow> array_get (fst ps) i;
     m \<leftarrow> sl_put m p i node;
     sk_link m node ps (Suc i) n }"

definition no_neighbours :: neighbours where
  "no_neighbours = (replicate MAXLEVEL None, replicate MAXLEVEL None)"

text \<open>\<open>p\<close> is the address that the allocation returns, \<open>sd\<close> the seeds of the thread.\<close>

definition sk_insert :: "nat \<Rightarrow> ptr \<Rightarrow> seeds \<Rightarrow> ('k::linorder, 'v::zero) skiplist \<Rightarrow> 'k \<Rightarrow> 'v \<Rightarrow> (('k, 'v) skiplist \<times> seeds \<times> int) option" where
  "sk_insert sz p sd s key val = do {
     hd \<leftarrow> sl_node (sk_mem s) (sk_head s);
     (node, nxt, ps) \<leftarrow> sk_find (sk_mem s) key (sk_head s) NULL no_neighbours (unat (sl_toplevel hd));
     node \<leftarrow> sl_get (sk_mem s) node 0;
     n \<leftarrow> sl_node (sk_mem s) node;
     if sl_key n \<noteq> key then do {
       let (l, sd') = get_rand_level coin101 (sk_levelmax s) sd;
       m \<leftarrow> sk_link (put_cell p (allocate_sl_simple_unlinked sz key val (sk_size_pad s) l False) (sk_mem s)) p ps 0 (unat l);
       Some (s\<lparr>sk_mem := m\<rparr>, sd', 1) }
     else Some (s, sd, 0) }"

text \<open>\<^verbatim>\<open>for (int i=0; i<head->toplevel; i++) if (succs[i]->key == key) preds[i]->next[i] = succs[i]->next[i]\<close>.\<close>

fun sk_unlink :: "('k, 'v) sl_simple store \<Rightarrow> 'k \<Rightarrow> neighbours \<Rightarrow> nat \<Rightarrow> nat \<Rightarrow> ('k, 'v) sl_simple store option" where
  "sk_unlink m key ps i 0 = Some m"
| "sk_unlink m key ps i (Suc n) = do {
     s \<leftarrow> array_get (snd ps) i;
     ns \<leftarrow> sl_node m s;
     m \<leftarrow> (if sl_key ns = key then do {
            q \<leftarrow> sl_get m s i;
            p \<leftarrow> array_get (fst ps) i;
            sl_put m p i q }
          else Some m);
     sk_unlink m key ps (Suc i) n }"

definition sk_remove :: "('k::linorder, 'v::zero) skiplist \<Rightarrow> 'k \<Rightarrow> (('k, 'v) skiplist \<times> 'v) option" where
  "sk_remove s key = do {
     hd \<leftarrow> sl_node (sk_mem s) (sk_head s);
     (node, nxt, ps) \<leftarrow> sk_find (sk_mem s) key (sk_head s) NULL no_neighbours (unat (sl_toplevel hd));
     n \<leftarrow> sl_node (sk_mem s) nxt;
     if sl_key n = key then do {
       m \<leftarrow> sk_unlink (sk_mem s) key ps 0 (unat (sl_toplevel hd));
       m \<leftarrow> sl_simple_delete m nxt;
       Some (s\<lparr>sk_mem := m\<rparr>, sl_val n) }
     else Some (s, 0) }"

partial_function (option) sk_length_loop :: "('k, 'v) sl_simple store \<Rightarrow> ptr \<Rightarrow> int \<Rightarrow> int option" where
  "sk_length_loop m node count = do {
     q \<leftarrow> sl_get m node 0;
     if q \<noteq> NULL then sk_length_loop m (unset_mark q) (if is_marked q then count else count + 1) else Some count }"

definition sk_length :: "('k, 'v) skiplist \<Rightarrow> int option" where
  "sk_length s = Option.bind (sl_get (sk_mem s) (sk_head s) 0) (\<lambda>q. sk_length_loop (sk_mem s) (unset_mark q) 0)"

text \<open>One operation, and a sequence of them with the addresses their allocations return.\<close>

fun sk_op :: "nat \<Rightarrow> ptr \<Rightarrow> seeds \<Rightarrow> ('k::linorder, 'v::zero) skiplist \<Rightarrow> ('k, 'v) map_op \<Rightarrow> (('k, 'v) skiplist \<times> seeds \<times> 'v map_ret) option" where
  "sk_op sz p sd s (Search k) = map_option (\<lambda>v. (s, sd, Ret_Val v)) (sk_search s k)"
| "sk_op sz p sd s (Insert k v) = map_option (\<lambda>(s', sd', r). (s', sd', Ret_Int r)) (sk_insert sz p sd s k v)"
| "sk_op sz p sd s (Delete k) = map_option (\<lambda>(s', v). (s', sd, Ret_Val v)) (sk_remove s k)"

fun sk_ops :: "nat \<Rightarrow> seeds \<Rightarrow> ('k::linorder, 'v::zero) skiplist \<Rightarrow> (('k, 'v) map_op \<times> ptr) list \<Rightarrow> (('k, 'v) skiplist \<times> 'v map_ret list) option" where
  "sk_ops sz sd s [] = Some (s, [])"
| "sk_ops sz sd s ((op, p) # ops) = do {
     (s', sd', r) \<leftarrow> sk_op sz p sd s op;
     (s'', rs) \<leftarrow> sk_ops sz sd' s' ops;
     Some (s'', r # rs) }"

section \<open>The invariant\<close>

text \<open>The node \<open>p\<close> can be read, and has been written up to the level \<open>i\<close>.\<close>

abbreviation sl_next_at :: "nat \<Rightarrow> ('k, 'v) sl_simple \<Rightarrow> ptr" where
  "sl_next_at i n \<equiv> (case array_get (sl_next n) i of None \<Rightarrow> NULL | Some p \<Rightarrow> p)"

definition sl_has :: "('k, 'v) sl_simple store \<Rightarrow> nat \<Rightarrow> ptr \<Rightarrow> bool" where
  "sl_has m i p \<longleftrightarrow> p \<notin> released m \<and> (\<exists>n. cells m p = Some n \<and> array_get (sl_next n) i \<noteq> None)"

definition sl_k :: "('k, 'v) sl_simple store \<Rightarrow> ptr \<Rightarrow> 'k" where "sl_k m p = sl_key (the (cells m p))"
definition sl_v :: "('k, 'v) sl_simple store \<Rightarrow> ptr \<Rightarrow> 'v" where "sl_v m p = sl_val (the (cells m p))"
definition sl_top :: "('k, 'v) sl_simple store \<Rightarrow> ptr \<Rightarrow> nat" where "sl_top m p = unat (sl_toplevel (the (cells m p)))"

lemma sl_get_has: "sl_has m i p \<Longrightarrow> sl_get m p i = Some (sl_next_at i (the (cells m p)))"
  by (auto simp: sl_has_def sl_get_def sl_node_def)

lemma sl_node_has: "sl_has m i p \<Longrightarrow> sl_node m p = Some (the (cells m p))"
  by (auto simp: sl_has_def sl_node_def)

text \<open>The list of level \<open>i\<close>.\<close>

abbreviation level :: "('k, 'v) sl_simple store \<Rightarrow> nat \<Rightarrow> ptr list \<Rightarrow> ptr list" where
  "level m i ps \<equiv> filter (\<lambda>p. i < sl_top m p) ps"

definition sk_list :: "'k::linorder \<Rightarrow> 'k \<Rightarrow> nat \<Rightarrow> ('k, 'v) sl_simple store \<Rightarrow> ptr \<Rightarrow> ptr list \<Rightarrow> ptr \<Rightarrow> bool" where
  "sk_list kmin kmax L m head xs tail \<longleftrightarrow>
     (\<forall>p \<in> set (head # xs @ [tail]). even p \<and> 1 \<le> sl_top m p \<and> sl_top m p \<le> L \<and> (\<forall>i < sl_top m p. sl_has m i p)) \<and>
     sorted_wrt (\<lambda>p q. sl_k m p < sl_k m q) (head # xs @ [tail]) \<and>
     sl_k m head = kmin \<and> sl_k m tail = kmax \<and> sl_top m head = L \<and> sl_top m tail = L \<and>
     (\<forall>i < L. path (cells m) (sl_next_at i) head (level m i (head # xs @ [tail])) NULL)"

definition sk_binds :: "('k, 'v) sl_simple store \<Rightarrow> ptr list \<Rightarrow> ('k \<rightharpoonup> 'v) \<Rightarrow> bool" where
  "sk_binds m xs a \<longleftrightarrow> (\<forall>k v. a k = Some v \<longleftrightarrow> (\<exists>p \<in> set xs. sl_k m p = k \<and> sl_v m p = v))"

text \<open>\<open>slots\<close> is the number of slots that a new node gets.\<close>

definition sk_ok :: "nat \<Rightarrow> 'k::linorder \<Rightarrow> 'k \<Rightarrow> ('k, 'v) skiplist \<Rightarrow> ('k \<rightharpoonup> 'v) \<Rightarrow> bool" where
  "sk_ok sz kmin kmax s a \<longleftrightarrow>
     1 \<le> unat (sk_levelmax s) \<and> unat (sk_levelmax s) \<le> MAXLEVEL \<and>
     unat (sk_levelmax s) \<le> sl_slots sz (sl_node_size (sk_size_pad s) False) \<and>
     released (sk_mem s) \<subseteq> dom (cells (sk_mem s)) \<and>
     (\<exists>xs tail. sk_list kmin kmax (unat (sk_levelmax s)) (sk_mem s) (sk_head s) xs tail \<and> sk_binds (sk_mem s) xs a)"

section \<open>The walk on a level\<close>

lemma sk_walk_path:
  assumes "path (cells m) (sl_next_at i) p (p # bs @ c # cs) NULL"
    and "\<forall>q \<in> set (p # bs @ [c]). sl_has m i q" and "\<forall>q \<in> set bs. sl_k m q < k" and "k \<le> sl_k m c"
  shows "\<exists>q. sl_get m p i = Some q \<and> sk_walk m k i p q = Some (last (p # bs), c) \<and> sl_get m (last (p # bs)) i = Some c"
  using assms
proof (induction bs arbitrary: p)
  case Nil
  then have "sl_get m p i = Some c" using sl_get_has [of m i p] by auto
  moreover have "sk_walk m k i p c = Some (p, c)"
    using Nil sl_node_has [of m i c] leD by (subst sk_walk.simps) (auto simp: sl_k_def)
  ultimately show ?case by simp
next
  case (Cons b bs)
  then have g: "sl_get m p i = Some b" using sl_get_has [of m i p] by auto
  have "path (cells m) (sl_next_at i) b (b # bs @ c # cs) NULL" using Cons.prems(1) by auto
  from Cons.IH [OF this] Cons.prems obtain q where q: "sl_get m b i = Some q" "sk_walk m k i b q = Some (last (b # bs), c)"
    "sl_get m (last (b # bs)) i = Some c" by auto
  moreover have "sk_walk m k i p b = sk_walk m k i b q"
    using Cons.prems(2,3) sl_node_has [of m i b] q(1) by (subst sk_walk.simps) (simp add: sl_k_def)
  ultimately show ?case using g by simp
qed

text \<open>The nodes with keys below \<open>k\<close>, and the others.\<close>

definition sk_split :: "'k::linorder \<Rightarrow> 'k \<Rightarrow> nat \<Rightarrow> ('k, 'v) sl_simple store \<Rightarrow> ptr \<Rightarrow> ptr list \<Rightarrow> ptr list \<Rightarrow> ptr \<Rightarrow> 'k \<Rightarrow> bool" where
  "sk_split kmin kmax L m head us vs tail k \<longleftrightarrow> sk_list kmin kmax L m head (us @ vs) tail \<and> 1 \<le> L \<and>
     (\<forall>p \<in> set (head # us). sl_k m p < k) \<and> (\<forall>p \<in> set (vs @ [tail]). k \<le> sl_k m p)"

lemma sk_splitE:
  assumes sk: "sk_list kmin kmax L m head xs tail" and k: "kmin < k" "k < kmax" and L: "1 \<le> L"
  obtains us vs where "xs = us @ vs" and "sk_split kmin kmax L m head us vs tail k"
proof
  let ?P = "\<lambda>p. sl_k m p < k"
  show "xs = takeWhile ?P xs @ dropWhile ?P xs" by simp
  have so: "sorted_wrt (\<lambda>p q. sl_k m p < sl_k m q) (takeWhile ?P xs @ dropWhile ?P xs)"
    and hd: "sl_k m head = kmin" and tl: "sl_k m tail = kmax"
    using sk by (simp_all add: sk_list_def sorted_wrt_append)
  have "\<forall>p \<in> set (head # takeWhile ?P xs). sl_k m p < k" using hd k(1) by (auto dest: set_takeWhileD)
  moreover have "k \<le> sl_k m p" if "p \<in> set (dropWhile ?P xs)" for p
  proof -
    from that obtain y ys where y: "dropWhile ?P xs = y # ys" by (cases "dropWhile ?P xs") auto
    then have "k \<le> sl_k m y" using hd_dropWhile [of ?P xs] by auto
    moreover have "p = y \<or> sl_k m y < sl_k m p" using so that unfolding y by (auto simp: sorted_wrt_append)
    ultimately show ?thesis by auto
  qed
  ultimately show "sk_split kmin kmax L m head (takeWhile ?P xs) (dropWhile ?P xs) tail k"
    using sk tl k(2) L by (auto simp: sk_split_def)
qed

text \<open>The neighbours of \<open>k\<close> on level \<open>i\<close>.\<close>

definition sk_pred :: "('k, 'v) sl_simple store \<Rightarrow> nat \<Rightarrow> ptr \<Rightarrow> ptr list \<Rightarrow> ptr" where
  "sk_pred m i head us = last (level m i (head # us))"

definition sk_succ :: "('k, 'v) sl_simple store \<Rightarrow> nat \<Rightarrow> ptr list \<Rightarrow> ptr \<Rightarrow> ptr" where
  "sk_succ m i vs tail = List.hd (level m i (vs @ [tail]))"

lemma sk_level_split:
  assumes sp: "sk_split kmin kmax L m head us vs tail k" and i: "i < L"
  shows "\<exists>as bs. level m i (head # us) = as @ [sk_pred m i head us] \<and> level m i (vs @ [tail]) = sk_succ m i vs tail # bs \<and>
      path (cells m) (sl_next_at i) head (as @ sk_pred m i head us # sk_succ m i vs tail # bs) NULL"
    and "sk_pred m i head us \<in> set (head # us)" and "i < sl_top m (sk_pred m i head us)"
    and "sk_succ m i vs tail \<in> set (vs @ [tail])" and "i < sl_top m (sk_succ m i vs tail)"
    and "sl_get m (sk_pred m i head us) i = Some (sk_succ m i vs tail)"
proof -
  have sk: "sk_list kmin kmax L m head (us @ vs) tail" using sp by (simp add: sk_split_def)
  have top: "sl_top m head = L" "sl_top m tail = L" using sk by (simp_all add: sk_list_def)
  have ne: "level m i (head # us) \<noteq> []" "level m i (vs @ [tail]) \<noteq> []" using top i by simp_all
  then obtain as where as: "level m i (head # us) = as @ [sk_pred m i head us]"
    unfolding sk_pred_def by (metis append_butlast_last_id)
  from ne obtain bs where bs: "level m i (vs @ [tail]) = sk_succ m i vs tail # bs"
    unfolding sk_succ_def by (metis list.exhaust_sel)
  have "level m i (head # (us @ vs) @ [tail]) = level m i (head # us) @ level m i (vs @ [tail])" by simp
  then have pth: "path (cells m) (sl_next_at i) head (as @ sk_pred m i head us # sk_succ m i vs tail # bs) NULL"
    using sk i as bs unfolding sk_list_def by (metis append.assoc append_Cons append_Nil)
  with as bs show "\<exists>as bs. level m i (head # us) = as @ [sk_pred m i head us] \<and> level m i (vs @ [tail]) = sk_succ m i vs tail # bs \<and>
      path (cells m) (sl_next_at i) head (as @ sk_pred m i head us # sk_succ m i vs tail # bs) NULL" by blast
  have "sk_pred m i head us \<in> set (level m i (head # us))" "sk_succ m i vs tail \<in> set (level m i (vs @ [tail]))"
    using as bs by simp_all
  then show p: "sk_pred m i head us \<in> set (head # us)" "i < sl_top m (sk_pred m i head us)"
    and "sk_succ m i vs tail \<in> set (vs @ [tail])" "i < sl_top m (sk_succ m i vs tail)"
    unfolding set_filter by simp_all
  have "sl_has m i (sk_pred m i head us)" using sk p by (auto simp: sk_list_def)
  then show "sl_get m (sk_pred m i head us) i = Some (sk_succ m i vs tail)"
    using pth sl_get_has by (fastforce simp: path_append)
qed

lemma sk_walk_level:
  assumes sp: "sk_split kmin kmax L m head us vs tail k" and i: "i < L" and p: "p \<in> set (head # us)" "i < sl_top m p"
  shows "\<exists>q. sl_get m p i = Some q \<and> sk_walk m k i p q = Some (sk_pred m i head us, sk_succ m i vs tail)"
proof -
  have sk: "sk_list kmin kmax L m head (us @ vs) tail" and us: "\<forall>q \<in> set (head # us). sl_k m q < k"
    and vs: "\<forall>q \<in> set (vs @ [tail]). k \<le> sl_k m q" using sp by (simp_all add: sk_split_def)
  have has: "sl_has m i q" if "q \<in> set (head # us @ vs @ [tail])" "i < sl_top m q" for q
    using sk that by (auto simp: sk_list_def)
  note lv = sk_level_split [OF sp i]
  from lv(1) obtain as bs where as: "level m i (head # us) = as @ [sk_pred m i head us]"
    and pth: "path (cells m) (sl_next_at i) head (as @ sk_pred m i head us # sk_succ m i vs tail # bs) NULL" by blast
  have "p \<in> set (level m i (head # us))" using p unfolding set_filter by simp
  then obtain cs ds where cs: "level m i (head # us) = cs @ p # ds" by (meson split_list)
  have la: "last (p # ds) = sk_pred m i head us" using as cs by (metis last_append last_snoc list.distinct(1))
  have eq: "as @ [sk_pred m i head us] = cs @ p # ds" using as cs by simp
  have "path (cells m) (sl_next_at i) head ((as @ [sk_pred m i head us]) @ sk_succ m i vs tail # bs) NULL" using pth by simp
  then have "path (cells m) (sl_next_at i) p (p # ds @ sk_succ m i vs tail # bs) NULL" unfolding eq by (auto simp: path_append)
  moreover have "set (p # ds) \<subseteq> set (level m i (head # us))" unfolding cs by auto
  then have ds: "\<forall>q \<in> set (p # ds). q \<in> set (head # us) \<and> i < sl_top m q" unfolding set_filter by blast
  then have "\<forall>q \<in> set (p # ds @ [sk_succ m i vs tail]). sl_has m i q" using has lv(4,5) by auto
  moreover have "\<forall>q \<in> set ds. sl_k m q < k" using ds us by auto
  moreover have "k \<le> sl_k m (sk_succ m i vs tail)" using vs lv(4) by auto
  ultimately show ?thesis using sk_walk_path [of m i p ds] la by metis
qed

lemma sk_descend_ok:
  assumes sp: "sk_split kmin kmax L m head us vs tail k" and "p \<in> set (head # us)" and "i \<le> sl_top m p" and "i \<le> L" and "1 \<le> i"
  shows "sk_descend m k p i = Some (sk_pred m 0 head us)"
  using assms(2-)
proof (induction i arbitrary: p)
  case (Suc i)
  from Suc.prems have i: "i < sl_top m p" "i < L" by simp_all
  from sk_walk_level [OF sp i(2) Suc.prems(1) i(1)] obtain q where q: "sl_get m p i = Some q"
    "sk_walk m k i p q = Some (sk_pred m i head us, sk_succ m i vs tail)" by blast
  show ?case
  proof (cases i)
    case 0
    then show ?thesis using q by simp
  next
    case (Suc j)
    then have "sk_descend m k (sk_pred m i head us) i = Some (sk_pred m 0 head us)"
      using Suc.IH sk_level_split(2,3) [OF sp i(2)] i(2) by simp
    then show ?thesis using q by simp
  qed
qed simp

lemma sk_find_ok:
  assumes sp: "sk_split kmin kmax L m head us vs tail k" and "p \<in> set (head # us)" and "i \<le> sl_top m p" and "i \<le> L"
    and "L \<le> length (fst ps)" and "L \<le> length (snd ps)"
  shows "\<exists>ps'. sk_find m k p nx ps i = Some (if i = 0 then p else sk_pred m 0 head us, if i = 0 then nx else sk_succ m 0 vs tail, ps') \<and>
    (\<forall>j < i. array_get (fst ps') j = Some (sk_pred m j head us) \<and> array_get (snd ps') j = Some (sk_succ m j vs tail)) \<and>
    (\<forall>j \<ge> i. array_get (fst ps') j = array_get (fst ps) j \<and> array_get (snd ps') j = array_get (snd ps) j)"
  using assms(2-)
proof (induction i arbitrary: p nx ps)
  case (Suc i)
  from Suc.prems have i: "i < sl_top m p" "i < L" by simp_all
  from sk_walk_level [OF sp i(2) Suc.prems(1) i(1)] obtain q where q: "sl_get m p i = Some q"
    "sk_walk m k i p q = Some (sk_pred m i head us, sk_succ m i vs tail)" by blast
  let ?p = "(fst ps)[i := Some (sk_pred m i head us)]" and ?s = "(snd ps)[i := Some (sk_succ m i vs tail)]"
  note lv = sk_level_split [OF sp i(2)]
  have "i \<le> sl_top m (sk_pred m i head us)" "i \<le> L" "L \<le> length (fst (?p, ?s))" "L \<le> length (snd (?p, ?s))"
    using lv(3) i Suc.prems by simp_all
  from Suc.IH [OF lv(2) this, of "sk_succ m i vs tail"] obtain ps' where
    ps': "sk_find m k (sk_pred m i head us) (sk_succ m i vs tail) (?p, ?s) i =
      Some (if i = 0 then sk_pred m i head us else sk_pred m 0 head us, if i = 0 then sk_succ m i vs tail else sk_succ m 0 vs tail, ps')"
    "\<forall>j < i. array_get (fst ps') j = Some (sk_pred m j head us) \<and> array_get (snd ps') j = Some (sk_succ m j vs tail)"
    "\<forall>j \<ge> i. array_get (fst ps') j = array_get ?p j \<and> array_get (snd ps') j = array_get ?s j" by auto
  have "sk_find m k p nx ps (Suc i) = sk_find m k (sk_pred m i head us) (sk_succ m i vs tail) (?p, ?s) i"
    using q lv(6) i Suc.prems by (simp add: array_put_def)
  then have f: "sk_find m k p nx ps (Suc i) = Some (sk_pred m 0 head us, sk_succ m 0 vs tail, ps')" using ps'(1) by (cases i) auto
  have "array_get (fst ps') j = Some (sk_pred m j head us) \<and> array_get (snd ps') j = Some (sk_succ m j vs tail)" if "j < Suc i" for j
    using ps'(2,3) that i Suc.prems by (cases "j = i") (auto simp: array_get_def)
  moreover have "array_get (fst ps') j = array_get (fst ps) j \<and> array_get (snd ps') j = array_get (snd ps) j" if "j \<ge> Suc i" for j
    using ps'(3) that by (auto simp: array_get_def)
  ultimately show ?case using f by auto
qed simp


section \<open>Writing slots\<close>

definition sl_room :: "('k, 'v) sl_simple store \<Rightarrow> nat \<Rightarrow> ptr \<Rightarrow> bool" where
  "sl_room m i p \<longleftrightarrow> p \<notin> released m \<and> (\<exists>n. cells m p = Some n \<and> i < length (sl_next n))"

lemma sl_has_room: "sl_has m i p \<Longrightarrow> sl_room m i p"
  by (auto simp: sl_has_def sl_room_def array_get_def split: if_splits)

text \<open>What writes to slots leave alone.\<close>

definition sk_same :: "('k, 'v) sl_simple store \<Rightarrow> ('k, 'v) sl_simple store \<Rightarrow> bool" where
  "sk_same m m' \<longleftrightarrow> sl_k m' = sl_k m \<and> sl_v m' = sl_v m \<and> sl_top m' = sl_top m \<and> released m' = released m \<and>
     dom (cells m') = dom (cells m) \<and> (\<forall>i p. sl_has m i p \<longrightarrow> sl_has m' i p) \<and> (\<forall>i p. sl_room m i p \<longrightarrow> sl_room m' i p)"

lemma sk_same_refl [simp]: "sk_same m m"
  by (simp add: sk_same_def)

lemma sk_same_trans: "sk_same m m1 \<Longrightarrow> sk_same m1 m2 \<Longrightarrow> sk_same m m2"
  by (simp add: sk_same_def)

text \<open>\<open>p->next[i] = q\<close> has made \<open>m'\<close> of \<open>m\<close>.\<close>

definition slot_put :: "('k, 'v) sl_simple store \<Rightarrow> ptr \<Rightarrow> nat \<Rightarrow> ptr \<Rightarrow> ('k, 'v) sl_simple store \<Rightarrow> bool" where
  "slot_put m p i q m' \<longleftrightarrow> sl_put m p i q = Some m' \<and> (\<exists>n. p \<notin> released m \<and> cells m p = Some n \<and> i < length (sl_next n) \<and>
     m' = put_cell p (n\<lparr>sl_next := (sl_next n)[i := Some q]\<rparr>) m)"

lemma sl_put_ok: "sl_room m i p \<Longrightarrow> \<exists>m'. slot_put m p i q m'"
  by (auto simp: sl_room_def slot_put_def sl_put_def sl_node_def array_put_def)

lemma slot_putD:
  assumes "slot_put m p i q m'"
  shows "sl_put m p i q = Some m'" and "sk_same m m'" and "sl_has m' i p" and "y \<noteq> p \<Longrightarrow> cells m' y = cells m y"
    and "\<exists>n. cells m' p = Some n \<and> sl_next_at i n = q"
    and "j \<noteq> i \<Longrightarrow> path (cells m) (sl_next_at j) a xs b \<Longrightarrow> path (cells m') (sl_next_at j) a xs b"
proof -
  from assms obtain n where n: "p \<notin> released m" "cells m p = Some n" "i < length (sl_next n)"
    and m': "m' = put_cell p (n\<lparr>sl_next := (sl_next n)[i := Some q]\<rparr>) m" by (auto simp: slot_put_def)
  let ?n = "n\<lparr>sl_next := (sl_next n)[i := Some q]\<rparr>"
  have slot: "array_get ((sl_next n)[i := Some q]) j = (if j = i then Some q else array_get (sl_next n) j)" for j
    using n(3) by (simp add: array_get_def)
  show "sl_put m p i q = Some m'" using assms by (simp add: slot_put_def)
  show "sk_same m m'"
    using n slot by (auto simp: m' sk_same_def sl_k_def sl_v_def sl_top_def sl_has_def sl_room_def fun_eq_iff)
  show "sl_has m' i p" using n slot by (simp add: m' sl_has_def)
  show "y \<noteq> p \<Longrightarrow> cells m' y = cells m y" by (simp add: m')
  show "\<exists>n. cells m' p = Some n \<and> sl_next_at i n = q" using slot by (simp add: m')
  show "path (cells m') (sl_next_at j) a xs b" if "j \<noteq> i" "path (cells m) (sl_next_at j) a xs b"
    by (rule path_cong [OF that(2)]) (use that(1) n slot in \<open>simp add: m'\<close>)
qed

lemma path_insert:
  assumes "path h nx a (as @ y # c # bs) NULL" and "h' y = Some n" "nx n = x" and "h' x = Some n'" "nx n' = c"
    and "x \<noteq> NULL" and "x \<notin> set (as @ y # c # bs)" and other: "\<And>z. z \<noteq> x \<Longrightarrow> z \<noteq> y \<Longrightarrow> h' z = h z"
  shows "path h' nx a (as @ y # x # c # bs) NULL"
proof -
  have "y \<notin> set as" "y \<notin> set (c # bs)" using path_distinct [OF assms(1)] by auto
  then have eq: "h' z = h z" if "z \<in> set as \<union> set (c # bs)" for z using that assms(7) by (intro other) auto
  have p: "path h nx a as y" "y \<noteq> NULL" "path h nx c (c # bs) NULL" using assms(1) by (auto simp: path_append)
  have "path h' nx a as y" by (rule path_cong [OF p(1)]) (use eq in simp)
  moreover have "path h' nx c (c # bs) NULL"
  proof (rule path_cong [OF p(3)])
    fix z assume "z \<in> set (c # bs)"
    then have "h' z = h z" by (intro eq) blast
    then show "map_option nx (h' z) = map_option nx (h z)" by simp
  qed
  ultimately show ?thesis using assms(2-6) p(2) by (auto simp: path_append)
qed

lemma path_remove:
  assumes "path h nx a (as @ y # c # bs) NULL" and "h c = Some nc" and "h' y = Some n" "nx n = nx nc"
    and other: "\<And>z. z \<noteq> y \<Longrightarrow> h' z = h z"
  shows "path h' nx a (as @ y # bs) NULL"
proof -
  have "y \<notin> set as" "y \<notin> set bs" using path_distinct [OF assms(1)] by auto
  then have eq: "h' z = h z" if "z \<in> set as \<union> set bs" for z using that by (intro other) auto
  have p: "path h nx a as y" "y \<noteq> NULL" "path h nx (nx nc) bs NULL" using assms(1,2) by (auto simp: path_append)
  have "path h' nx a as y" by (rule path_cong [OF p(1)]) (use eq in simp)
  moreover have "path h' nx (nx nc) bs NULL" by (rule path_cong [OF p(3)]) (simp add: eq)
  ultimately show ?thesis using assms(3,4) p(2) by (auto simp: path_append)
qed

text \<open>The loop that links a node on the levels from \<open>j\<close> on.\<close>

lemma sk_link_ok:
  assumes "\<forall>i < L. path (cells m) (sl_next_at i) head
      (if i < j then as i @ pr i # x # su i # bs i else as i @ pr i # su i # bs i) NULL"
    and "\<forall>i < L. sl_room m i x \<and> sl_room m i (pr i) \<and> x \<notin> set (as i @ pr i # su i # bs i)" and "x \<noteq> NULL"
    and "\<forall>i < L. array_get (fst ps) i = Some (pr i) \<and> array_get (snd ps) i = Some (su i)" and "j + n \<le> L"
  shows "\<exists>m'. sk_link m x ps j n = Some m' \<and> sk_same m m' \<and> (\<forall>i. j \<le> i \<longrightarrow> i < j + n \<longrightarrow> sl_has m' i x) \<and>
    (\<forall>i < L. path (cells m') (sl_next_at i) head
      (if i < j + n then as i @ pr i # x # su i # bs i else as i @ pr i # su i # bs i) NULL)"
  using assms
proof (induction n arbitrary: m j)
  case (Suc n)
  from Suc.prems(5) have j: "j < L" by simp
  from Suc.prems(2) j have room: "sl_room m j x" and px: "pr j \<noteq> x" "x \<notin> set (as j @ pr j # su j # bs j)" by auto
  from sl_put_ok [OF room, of "su j"] obtain m1 where m1: "slot_put m x j (su j) m1" by blast
  note d1 = slot_putD [OF m1]
  have "sl_room m1 j (pr j)" using Suc.prems(2) j d1(2) by (auto simp: sk_same_def)
  from sl_put_ok [OF this, of x] obtain m2 where m2: "slot_put m1 (pr j) j x m2" by blast
  note d2 = slot_putD [OF m2]
  from d1(5) obtain n1 where n1: "cells m1 x = Some n1" "sl_next_at j n1 = su j" by blast
  from d2(5) obtain n2 where n2: "cells m2 (pr j) = Some n2" "sl_next_at j n2 = x" by blast
  have same: "sk_same m m2" by (rule sk_same_trans [OF d1(2) d2(2)])
  have has: "sl_has m2 j x" using d1(3) d2(2) by (simp add: sk_same_def)
  have "path (cells m) (sl_next_at j) head (as j @ pr j # su j # bs j) NULL" using Suc.prems(1) [rule_format, OF j] by simp
  then have pj: "path (cells m2) (sl_next_at j) head (as j @ pr j # x # su j # bs j) NULL"
    by (rule path_insert [where nx = "sl_next_at j" and h = "cells m" and h' = "cells m2" and y = "pr j" and x = x and c = "su j" and as = "as j" and bs = "bs j" and n = n2 and n' = n1, OF _ n2 _ n1(2) Suc.prems(3) px(2)]) (use n1(1) d1(4) d2(4) px(1) in simp_all)
  have A: "\<forall>i < L. path (cells m2) (sl_next_at i) head
      (if i < Suc j then as i @ pr i # x # su i # bs i else as i @ pr i # su i # bs i) NULL"
  proof (intro allI impI)
    fix i assume i: "i < L"
    show "path (cells m2) (sl_next_at i) head
      (if i < Suc j then as i @ pr i # x # su i # bs i else as i @ pr i # su i # bs i) NULL"
    proof (cases "i = j")
      case False
      then have "i < Suc j \<longleftrightarrow> i < j" by auto
      then show ?thesis using Suc.prems(1) i d2(6) [OF False d1(6) [OF False]] by simp
    qed (use pj in simp)
  qed
  have B: "\<forall>i < L. sl_room m2 i x \<and> sl_room m2 i (pr i) \<and> x \<notin> set (as i @ pr i # su i # bs i)"
    using Suc.prems(2) same by (auto simp: sk_same_def)
  have C: "Suc j + n \<le> L" using Suc.prems(5) by simp
  from Suc.IH [OF A B Suc.prems(3,4) C] obtain m' where m': "sk_link m2 x ps (Suc j) n = Some m'" "sk_same m2 m'"
    "\<forall>i. Suc j \<le> i \<longrightarrow> i < Suc j + n \<longrightarrow> sl_has m' i x"
    "\<forall>i < L. path (cells m') (sl_next_at i) head
      (if i < Suc j + n then as i @ pr i # x # su i # bs i else as i @ pr i # su i # bs i) NULL"
    by (elim exE conjE) (rule that; assumption)
  have "sk_link m x ps j (Suc n) = Some m'" using d1(1) d2(1) m'(1) Suc.prems(4) j by simp
  moreover have "sk_same m m'" by (rule sk_same_trans [OF same m'(2)])
  moreover have "sl_has m' i x" if "j \<le> i" "i < j + Suc n" for i
    using m'(2,3) has that by (cases "i = j") (auto simp: sk_same_def)
  ultimately show ?case using m'(4) by auto
qed auto

text \<open>The loop that unlinks the node \<open>c\<close>, on the levels on which it is.\<close>

lemma sk_unlink_ok:
  assumes "\<forall>i < L. path (cells m) (sl_next_at i) head
      (if i < j \<and> su i = c then as i @ pr i # bs i else as i @ pr i # su i # bs i) NULL"
    and "\<forall>i < L. sl_has m i (su i) \<and> sl_room m i (pr i) \<and> pr i \<noteq> c \<and> (sl_k m (su i) = k \<longleftrightarrow> su i = c)"
    and "\<forall>i < L. array_get (fst ps) i = Some (pr i) \<and> array_get (snd ps) i = Some (su i)" and "j + n = L"
  shows "\<exists>m'. sk_unlink m k ps j n = Some m' \<and> sk_same m m' \<and>
    (\<forall>i < L. path (cells m') (sl_next_at i) head
      (if su i = c then as i @ pr i # bs i else as i @ pr i # su i # bs i) NULL)"
  using assms
proof (induction n arbitrary: m j)
  case 0
  then show ?case by auto
next
  case (Suc n)
  from Suc.prems(4) have j: "j < L" by simp
  with Suc.prems(2) have hs: "sl_has m j (su j)" and rp: "sl_room m j (pr j)" and pc: "pr j \<noteq> c"
    and kc: "sl_k m (su j) = k \<longleftrightarrow> su j = c" by auto
  note nd = sl_node_has [OF hs]
  let ?step = "if sl_k m (su j) = k then do {q \<leftarrow> sl_get m (su j) j; p \<leftarrow> array_get (fst ps) j; sl_put m p j q} else Some m"
  obtain m1 where m1: "?step = Some m1" "sk_same m m1"
      "path (cells m1) (sl_next_at j) head (if su j = c then as j @ pr j # bs j else as j @ pr j # su j # bs j) NULL"
      and oth: "\<And>i xs. i \<noteq> j \<Longrightarrow> path (cells m) (sl_next_at i) head xs NULL \<Longrightarrow> path (cells m1) (sl_next_at i) head xs NULL"
  proof (cases "su j = c")
    case True
    from sl_put_ok [OF rp, of "sl_next_at j (the (cells m c))"] obtain m1 where
      m1: "slot_put m (pr j) j (sl_next_at j (the (cells m c))) m1" by blast
    note d1 = slot_putD [OF m1]
    from d1(5) obtain n1 where n1: "cells m1 (pr j) = Some n1" "sl_next_at j n1 = sl_next_at j (the (cells m c))" by blast
    have "path (cells m) (sl_next_at j) head (as j @ pr j # c # bs j) NULL" using Suc.prems(1) [rule_format, OF j] True by simp
    moreover have "cells m c = Some (the (cells m c))" using hs True by (auto simp: sl_has_def)
    ultimately have p1: "path (cells m1) (sl_next_at j) head (as j @ pr j # bs j) NULL"
      by (rule path_remove [where nx = "sl_next_at j" and h = "cells m" and h' = "cells m1" and y = "pr j" and c = c and nc = "the (cells m c)" and n = n1, OF _ _ n1]) (rule d1(4))
    show ?thesis
      by (rule that [OF _ d1(2)]) (use d1(1,6) p1 True kc sl_get_has [OF hs] Suc.prems(3) j in simp_all)
  next
    case False
    then show ?thesis using that [of m] kc Suc.prems(1) j by auto
  qed
  have A: "\<forall>i < L. path (cells m1) (sl_next_at i) head
      (if i < Suc j \<and> su i = c then as i @ pr i # bs i else as i @ pr i # su i # bs i) NULL"
  proof (intro allI impI)
    fix i assume i: "i < L"
    show "path (cells m1) (sl_next_at i) head
      (if i < Suc j \<and> su i = c then as i @ pr i # bs i else as i @ pr i # su i # bs i) NULL"
    proof (cases "i = j")
      case False
      then have "i < Suc j \<longleftrightarrow> i < j" by auto
      then show ?thesis using Suc.prems(1) i oth [OF False] by simp
    next
      case True
      then show ?thesis using m1(3) by (cases "su j = c") simp_all
    qed
  qed
  have B: "\<forall>i < L. sl_has m1 i (su i) \<and> sl_room m1 i (pr i) \<and> pr i \<noteq> c \<and> (sl_k m1 (su i) = k \<longleftrightarrow> su i = c)"
    using Suc.prems(2) m1(2) by (auto simp: sk_same_def)
  have C: "Suc j + n = L" using Suc.prems(4) by simp
  from Suc.IH [OF A B Suc.prems(3) C] obtain m' where m': "sk_unlink m1 k ps (Suc j) n = Some m'" "sk_same m1 m'"
    "\<forall>i < L. path (cells m') (sl_next_at i) head (if su i = c then as i @ pr i # bs i else as i @ pr i # su i # bs i) NULL"
    by (elim exE conjE) (rule that; assumption)
  have "sk_unlink m k ps j (Suc n) = Some m'" using m1(1) m'(1) nd Suc.prems(3) j by (simp add: sl_k_def)
  then show ?case using sk_same_trans [OF m1(2) m'(2)] m'(3) by blast
qed


section \<open>The operations\<close>

lemma sk_listD:
  assumes "sk_list kmin kmax L m head xs tail"
  shows "sl_top m head = L" and "sl_top m tail = L" and "sl_k m head = kmin" and "sl_k m tail = kmax"
    and "p \<in> set (head # xs @ [tail]) \<Longrightarrow> even p \<and> 1 \<le> sl_top m p \<and> sl_top m p \<le> L"
    and "p \<in> set (head # xs @ [tail]) \<Longrightarrow> i < sl_top m p \<Longrightarrow> sl_has m i p"
    and "p \<in> set (head # xs @ [tail]) \<Longrightarrow> sl_node m p = Some (the (cells m p))"
    and "p \<in> set (head # xs @ [tail]) \<Longrightarrow> cells m p \<noteq> None \<and> p \<notin> released m"
proof -
  show 1: "sl_top m head = L" "sl_top m tail = L" "sl_k m head = kmin" "sl_k m tail = kmax"
    "p \<in> set (head # xs @ [tail]) \<Longrightarrow> even p \<and> 1 \<le> sl_top m p \<and> sl_top m p \<le> L"
    "p \<in> set (head # xs @ [tail]) \<Longrightarrow> i < sl_top m p \<Longrightarrow> sl_has m i p" for p i
    using assms by (auto simp: sk_list_def)
  show "sl_node m p = Some (the (cells m p))" "cells m p \<noteq> None \<and> p \<notin> released m" if "p \<in> set (head # xs @ [tail])"
    using 1(5) [OF that] 1(6) [OF that, of 0] sl_node_has [of m 0 p] by (auto simp: sl_has_def)
qed

lemma sk_level_0:
  assumes sp: "sk_split kmin kmax L m head us vs tail k"
  shows "sk_pred m 0 head us = last (head # us)" and "sk_succ m 0 vs tail = hd (vs @ [tail])"
proof -
  have sk: "sk_list kmin kmax L m head (us @ vs) tail" using sp by (simp add: sk_split_def)
  have "level m 0 (head # us) = head # us" "level m 0 (vs @ [tail]) = vs @ [tail]"
    using sk_listD(5) [OF sk] by (auto simp: filter_id_conv Suc_le_eq)
  then show "sk_pred m 0 head us = last (head # us)" "sk_succ m 0 vs tail = hd (vs @ [tail])"
    by (simp_all only: sk_pred_def sk_succ_def)
qed

text \<open>What is bound to \<open>k\<close> is decided by the successor on level 0.\<close>

lemma sk_found:
  assumes sp: "sk_split kmin kmax L m head us vs tail k" and b: "sk_binds m (us @ vs) a" and k: "k < kmax"
  defines "c \<equiv> hd (vs @ [tail])"
  shows "if sl_k m c = k then a k = Some (sl_v m c) \<and> (\<exists>vs'. vs = c # vs') else k < sl_k m c \<and> a k = None"
proof -
  have sk: "sk_list kmin kmax L m head (us @ vs) tail" and us: "\<forall>q \<in> set (head # us). sl_k m q < k"
    and vs: "\<forall>q \<in> set (vs @ [tail]). k \<le> sl_k m q" using sp by (simp_all add: sk_split_def)
  have so: "sorted_wrt (\<lambda>p q. sl_k m p < sl_k m q) (vs @ [tail])"
    using sk by (auto simp: sk_list_def sorted_wrt_append)
  have c: "c \<in> set (vs @ [tail])" unfolding c_def by (cases vs) auto
  show ?thesis
  proof (cases "sl_k m c = k")
    case True
    then have "vs \<noteq> []" using k sk_listD(4) [OF sk] by (auto simp: c_def)
    then obtain vs' where "vs = c # vs'" by (cases vs) (auto simp: c_def)
    then show ?thesis using True b unfolding sk_binds_def by auto
  next
    case False
    then have lt: "k < sl_k m c" using vs c by force
    have "k < sl_k m p" if "p \<in> set vs" for p
      using that so lt by (cases vs) (auto simp: c_def)
    then have "a k = None" using b us unfolding sk_binds_def by (metis Un_iff less_irrefl list.set_intros(2) option.exhaust set_append)
    then show ?thesis using False lt by simp
  qed
qed

lemma sk_okE:
  assumes "sk_ok sz kmin kmax s a" and "kmin < k" "k < kmax"
  obtains us vs tail where "sk_split kmin kmax (unat (sk_levelmax s)) (sk_mem s) (sk_head s) us vs tail k"
    and "sk_list kmin kmax (unat (sk_levelmax s)) (sk_mem s) (sk_head s) (us @ vs) tail"
    and "sk_binds (sk_mem s) (us @ vs) a" and "sl_node (sk_mem s) (sk_head s) = Some (the (cells (sk_mem s) (sk_head s)))"
    and "unat (sl_toplevel (the (cells (sk_mem s) (sk_head s)))) = unat (sk_levelmax s)"
proof -
  from assms(1) obtain xs tail where sk: "sk_list kmin kmax (unat (sk_levelmax s)) (sk_mem s) (sk_head s) xs tail"
    and b: "sk_binds (sk_mem s) xs a" and L: "1 \<le> unat (sk_levelmax s)" by (auto simp: sk_ok_def)
  from sk_splitE [OF sk assms(2,3) L] obtain us vs where "xs = us @ vs"
    "sk_split kmin kmax (unat (sk_levelmax s)) (sk_mem s) (sk_head s) us vs tail k" by blast
  with sk b show ?thesis using that [of us vs tail] sk_listD(1,7) [OF sk] by (simp add: sl_top_def)
qed

lemma sk_search_ok:
  assumes ok: "sk_ok sz kmin kmax s a" and k: "kmin < k" "k < kmax"
  shows "sk_search s k = Some (val_or_zero (a k))"
proof -
  let ?L = "unat (sk_levelmax s)" and ?m = "sk_mem s" and ?h = "sk_head s"
  from sk_okE [OF assms] obtain us vs tail where sp: "sk_split kmin kmax ?L ?m ?h us vs tail k"
    and sk: "sk_list kmin kmax ?L ?m ?h (us @ vs) tail" and b: "sk_binds ?m (us @ vs) a"
    and hd: "sl_node ?m ?h = Some (the (cells ?m ?h))" "unat (sl_toplevel (the (cells ?m ?h))) = ?L" by blast
  have L: "0 < ?L" using ok by (simp add: sk_ok_def)
  have d: "sk_descend ?m k ?h ?L = Some (sk_pred ?m 0 ?h us)"
    using sk_descend_ok [OF sp, of ?h ?L] sk_listD(1) [OF sk] L by simp
  let ?c = "List.hd (vs @ [tail])"
  note lv = sk_level_split [OF sp L]
  have g: "sl_get ?m (sk_pred ?m 0 ?h us) 0 = Some ?c" using lv(6) sk_level_0(2) [OF sp] by simp
  have "?c \<in> set (?h # (us @ vs) @ [tail])" by (cases vs) auto
  then have "sl_node ?m ?c = Some (the (cells ?m ?c))" by (rule sk_listD(7) [OF sk])
  then have "sk_search s k = Some (if sl_k ?m ?c = k then sl_v ?m ?c else 0)"
    using d g hd by (simp add: sk_search_def sl_k_def sl_v_def)
  then show ?thesis using sk_found [OF sp b k(2)] by (auto split: if_splits)
qed

lemma sk_find_from_head:
  assumes sp: "sk_split kmin kmax L m head us vs tail k" and L: "L \<le> MAXLEVEL"
  shows "\<exists>ps. sk_find m k head NULL no_neighbours L = Some (sk_pred m 0 head us, hd (vs @ [tail]), ps) \<and>
    (\<forall>j < L. array_get (fst ps) j = Some (sk_pred m j head us) \<and> array_get (snd ps) j = Some (sk_succ m j vs tail))"
proof -
  have "sl_top m head = L" "1 \<le> L" using sp sk_listD(1) by (auto simp: sk_split_def)
  then show ?thesis
    using sk_find_ok [OF sp, of head L no_neighbours NULL] L sk_level_0(2) [OF sp]
    by (auto simp: no_neighbours_def)
qed


subsection \<open>Insertion\<close>

lemma sk_above:
  assumes sp: "sk_split kmin kmax L m head us vs tail k" and "k < sl_k m (hd (vs @ [tail]))" and "q \<in> set (vs @ [tail])"
  shows "k < sl_k m q"
proof -
  have "sorted_wrt (\<lambda>p q. sl_k m p < sl_k m q) (vs @ [tail])"
    using sp by (auto simp: sk_split_def sk_list_def sorted_wrt_append)
  then show ?thesis using assms(2,3) by (cases vs) auto
qed

lemma sk_insert_list:
  assumes sp: "sk_split kmin kmax L m head us vs tail k" and c: "k < sl_k m (hd (vs @ [tail]))"
    and p: "even p" "p \<notin> set (head # (us @ vs) @ [tail])" and l: "1 \<le> l" "l \<le> L"
    and m': "sl_k m' = (sl_k m)(p := k)" "sl_top m' = (sl_top m)(p := l)"
    and has: "\<And>i q. sl_has m i q \<Longrightarrow> sl_has m' i q" "\<And>i. i < l \<Longrightarrow> sl_has m' i p"
    and pth: "\<And>i. i < L \<Longrightarrow> path (cells m') (sl_next_at i) head
      (level m i (head # us) @ (if i < l then [p] else []) @ level m i (vs @ [tail])) NULL"
  shows "sk_list kmin kmax L m' head (us @ p # vs) tail"
proof -
  have sk: "sk_list kmin kmax L m head (us @ vs) tail" and us: "\<forall>q \<in> set (head # us). sl_k m q < k"
    using sp by (simp_all add: sk_split_def)
  note D = sk_listD [OF sk]
  have nodes: "even q \<and> 1 \<le> sl_top m' q \<and> sl_top m' q \<le> L \<and> (\<forall>i < sl_top m' q. sl_has m' i q)"
    if "q \<in> set (head # (us @ p # vs) @ [tail])" for q
  proof (cases "q = p")
    case False
    then have "q \<in> set (head # (us @ vs) @ [tail])" using that by auto
    then show ?thesis using D(5,6) has(1) False by (auto simp: m')
  qed (use p l has(2) in \<open>simp add: m'\<close>)
  have lt: "sorted_wrt (\<lambda>p q. sl_k m p < sl_k m q) ((head # us) @ (vs @ [tail]))" using sk by (auto simp: sk_list_def)
  have A: "sorted_wrt (\<lambda>p q. sl_k m' p < sl_k m' q) (head # us)" and B: "sorted_wrt (\<lambda>p q. sl_k m' p < sl_k m' q) (vs @ [tail])"
    by (rule sorted_wrt_mono_rel [where P = "\<lambda>p q. sl_k m p < sl_k m q"]; use p lt in \<open>auto simp: m' sorted_wrt_append\<close>)+
  have k': "sl_k m' p = k" "sl_k m' q = sl_k m q" if "q \<in> set (head # us) \<union> set (vs @ [tail])" for q using p that by (auto simp: m')
  have "sl_k m' x < sl_k m' y" if "x \<in> set (head # us)" "y \<in> set (vs @ [tail])" for x y
  proof -
    have "sl_k m x < sl_k m y" using lt that unfolding sorted_wrt_append by blast
    then show ?thesis using k'(2) [of x] k'(2) [of y] that by auto
  qed
  moreover have "sl_k m' x < sl_k m' p" if "x \<in> set (head # us)" for x using us k' [of x] that by auto
  moreover have "sl_k m' p < sl_k m' y" if "y \<in> set (vs @ [tail])" for y using sk_above [OF sp c that] k' [of y] that by auto
  ultimately have "sorted_wrt (\<lambda>p q. sl_k m' p < sl_k m' q) ((head # us) @ p # (vs @ [tail]))"
    using A B unfolding sorted_wrt_append [of _ "head # us"] sorted_wrt.simps(2) [of _ p] by (simp del: sorted_wrt.simps append.simps)
  moreover have "path (cells m') (sl_next_at i) head (level m' i (head # (us @ p # vs) @ [tail])) NULL" if "i < L" for i
  proof -
    have lev: "level m' i qs = level m i qs" if "p \<notin> set qs" for qs
      by (rule filter_cong [OF refl]) (use that in \<open>auto simp: m'\<close>)
    have "level m' i (head # us) = level m i (head # us)" by (rule lev) (use p in auto)
    moreover have "level m' i (vs @ [tail]) = level m i (vs @ [tail])" by (rule lev) (use p in auto)
    moreover have "level m' i ((head # us) @ p # vs @ [tail]) =
        level m' i (head # us) @ (if i < l then [p] else []) @ level m' i (vs @ [tail])"
      by (simp add: m')
    ultimately show ?thesis using pth [OF that] by simp
  qed
  ultimately show ?thesis unfolding sk_list_def using nodes D(1-4) p by (auto simp: m')
qed

lemma sk_insert_binds:
  assumes sp: "sk_split kmin kmax L m head us vs tail k" and c: "k < sl_k m (hd (vs @ [tail]))"
    and b: "sk_binds m (us @ vs) a" and p: "p \<notin> set (us @ vs)"
    and m': "sl_k m' = (sl_k m)(p := k)" "sl_v m' = (sl_v m)(p := v)"
  shows "sk_binds m' (us @ p # vs) (a(k \<mapsto> v))"
proof -
  have "sl_k m q \<noteq> k" if "q \<in> set (us @ vs)" for q
    using sp sk_above [OF sp c, of q] that by (auto simp: sk_split_def)
  moreover have "sl_k m' q = sl_k m q" "sl_v m' q = sl_v m q" if "q \<in> set (us @ vs)" for q using that p by (auto simp: m')
  ultimately show ?thesis using b unfolding sk_binds_def by (auto simp: m'(1) m'(2))
qed

lemma sk_level_path:
  assumes sp: "sk_split kmin kmax L m head us vs tail k" and i: "i < L"
  defines "as \<equiv> butlast (level m i (head # us))" and "bs \<equiv> tl (level m i (vs @ [tail]))"
  shows "path (cells m) (sl_next_at i) head (as @ sk_pred m i head us # sk_succ m i vs tail # bs) NULL"
    and "level m i (head # us) = as @ [sk_pred m i head us]" and "level m i (vs @ [tail]) = sk_succ m i vs tail # bs"
    and "set (as @ sk_pred m i head us # sk_succ m i vs tail # bs) \<subseteq> set (head # (us @ vs) @ [tail])"
    and "as @ sk_pred m i head us # xs = level m i (head # us) @ xs" and "sk_succ m i vs tail # bs = level m i (vs @ [tail])"
proof -
  from sk_level_split(1) [OF sp i] show a: "level m i (head # us) = as @ [sk_pred m i head us]"
    and b: "level m i (vs @ [tail]) = sk_succ m i vs tail # bs"
    and "path (cells m) (sl_next_at i) head (as @ sk_pred m i head us # sk_succ m i vs tail # bs) NULL"
    unfolding as_def bs_def by (metis butlast_snoc list.sel(3))+
  show "as @ sk_pred m i head us # xs = level m i (head # us) @ xs" for xs unfolding a by simp
  show "sk_succ m i vs tail # bs = level m i (vs @ [tail])" using b by simp
  have "set (level m i (head # us) @ level m i (vs @ [tail])) \<subseteq> set (head # (us @ vs) @ [tail])" by auto
  then show "set (as @ sk_pred m i head us # sk_succ m i vs tail # bs) \<subseteq> set (head # (us @ vs) @ [tail])" unfolding a b by simp
qed

lemma sk_insert_link:
  assumes sp: "sk_split kmin kmax L m head us vs tail k" and c: "k < sl_k m (hd (vs @ [tail]))"
    and p: "fresh (cells m) p" "even p" "p \<notin> released m" and l: "1 \<le> unat l" "unat l \<le> L"
    and slots: "L \<le> sl_slots sz (sl_node_size pad False)"
    and ps: "\<forall>j < L. array_get (fst ps) j = Some (sk_pred m j head us) \<and> array_get (snd ps) j = Some (sk_succ m j vs tail)"
    and b: "sk_binds m (us @ vs) a"
  shows "\<exists>m'. sk_link (put_cell p (allocate_sl_simple_unlinked sz k v pad l False) m) p ps 0 (unat l) = Some m' \<and>
    sk_list kmin kmax L m' head (us @ p # vs) tail \<and> sk_binds m' (us @ p # vs) (a(k \<mapsto> v)) \<and>
    released m' = released m \<and> dom (cells m') = insert p (dom (cells m))"
proof -
  let ?n = "allocate_sl_simple_unlinked sz k v pad l False"
  let ?m = "put_cell p ?n m" and ?as = "\<lambda>i. butlast (level m i (head # us))" and ?bs = "\<lambda>i. tl (level m i (vs @ [tail]))"
  let ?pr = "\<lambda>i. sk_pred m i head us" and ?su = "\<lambda>i. sk_succ m i vs tail"
  have sk: "sk_list kmin kmax L m head (us @ vs) tail" using sp by (simp add: sk_split_def)
  have pN: "p \<noteq> NULL" "cells m p = None" using p(1) by (auto simp: fresh_def)
  then have pn: "p \<notin> set (head # (us @ vs) @ [tail])" using sk_listD(8) [OF sk, of p] by blast
  note lv = sk_level_path [OF sp]
  have n: "sl_key ?n = k" "sl_val ?n = v" "sl_toplevel ?n = l" "L \<le> length (sl_next ?n)"
    using slots by (simp_all add: allocate_sl_simple_unlinked_def)
  have same: "sl_k ?m = (sl_k m)(p := k)" "sl_v ?m = (sl_v m)(p := v)" "sl_top ?m = (sl_top m)(p := unat l)"
    using n by (auto simp: sl_k_def sl_v_def sl_top_def)
  have has: "sl_has ?m i q" if "sl_has m i q" for i q using that pN by (auto simp: sl_has_def)
  have room: "sl_room ?m i p" if "i < L" for i using that n p(3) by (auto simp: sl_room_def)
  have A: "\<forall>i < L. path (cells ?m) (sl_next_at i) head
      (if i < 0 then ?as i @ ?pr i # p # ?su i # ?bs i else ?as i @ ?pr i # ?su i # ?bs i) NULL"
  proof (intro allI impI)
    fix i assume i: "i < L"
    have "p \<notin> set (?as i @ ?pr i # ?su i # ?bs i)" using lv(4) [OF i] pn by blast
    then show "path (cells ?m) (sl_next_at i) head
      (if i < 0 then ?as i @ ?pr i # p # ?su i # ?bs i else ?as i @ ?pr i # ?su i # ?bs i) NULL"
      using lv(1) [OF i] by (simp del: set_append)
  qed
  have B: "\<forall>i < L. sl_room ?m i p \<and> sl_room ?m i (?pr i) \<and> p \<notin> set (?as i @ ?pr i # ?su i # ?bs i)"
  proof (intro allI impI conjI)
    fix i assume i: "i < L"
    have "?pr i \<in> set (head # (us @ vs) @ [tail])" using sk_level_split(2) [OF sp i] by auto
    then have "sl_has m i (?pr i)" using sk_listD(6) [OF sk] sk_level_split(3) [OF sp i] by blast
    then show "sl_room ?m i (?pr i)" by (intro sl_has_room has)
    show "sl_room ?m i p" by (rule room [OF i])
    show "p \<notin> set (?as i @ ?pr i # ?su i # ?bs i)" using lv(4) [OF i] pn by blast
  qed
  have C: "0 + unat l \<le> L" using l by simp
  from sk_link_ok [where L = L and m = ?m and head = head and as = ?as and pr = ?pr and su = ?su and bs = ?bs, OF A B pN(1) ps C] obtain m' where m': "sk_link ?m p ps 0 (unat l) = Some m'" "sk_same ?m m'"
    "\<forall>i. 0 \<le> i \<longrightarrow> i < 0 + unat l \<longrightarrow> sl_has m' i p"
    "\<forall>i < L. path (cells m') (sl_next_at i) head
      (if i < 0 + unat l then ?as i @ ?pr i # p # ?su i # ?bs i else ?as i @ ?pr i # ?su i # ?bs i) NULL"
    by (elim exE conjE) (rule that; assumption)
  have k': "sl_k m' = (sl_k m)(p := k)" "sl_v m' = (sl_v m)(p := v)" "sl_top m' = (sl_top m)(p := unat l)"
    using m'(2) same by (simp_all add: sk_same_def)
  have pth: "path (cells m') (sl_next_at i) head (level m i (head # us) @ (if i < unat l then [p] else []) @ level m i (vs @ [tail])) NULL"
    if "i < L" for i
    using m'(4) [rule_format, OF that] by (cases "i < unat l") (simp_all only: lv(5,6) [OF that] add_0 if_True if_False append.simps)
  have "sk_list kmin kmax L m' head (us @ p # vs) tail"
    by (rule sk_insert_list [OF sp c p(2) pn l k'(1,3) _ _ pth]) (use m'(2,3) has in \<open>auto simp: sk_same_def\<close>)
  moreover have "sk_binds m' (us @ p # vs) (a(k \<mapsto> v))"
    by (rule sk_insert_binds [OF sp c b _ k'(1,2)]) (use pn in auto)
  moreover have "released m' = released m" "dom (cells m') = insert p (dom (cells m))"
    using m'(2) by (auto simp: sk_same_def)
  ultimately show ?thesis using m'(1) by blast
qed

lemma sk_insert_ok:
  assumes ok: "sk_ok sz kmin kmax s a" and k: "kmin < k" "k < kmax" and p: "fresh (cells (sk_mem s)) p" "even p"
  shows "\<exists>s' sd'. sk_insert sz p sd s k v = Some (s', sd', if a k = None then 1 else 0) \<and>
    sk_ok sz kmin kmax s' (if a k = None then a(k \<mapsto> v) else a) \<and> dom (cells (sk_mem s')) \<subseteq> insert p (dom (cells (sk_mem s)))"
proof -
  let ?L = "unat (sk_levelmax s)" and ?m = "sk_mem s" and ?h = "sk_head s"
  from sk_okE [OF assms(1-3)] obtain us vs tail where sp: "sk_split kmin kmax ?L ?m ?h us vs tail k"
    and sk: "sk_list kmin kmax ?L ?m ?h (us @ vs) tail" and b: "sk_binds ?m (us @ vs) a"
    and hd: "sl_node ?m ?h = Some (the (cells ?m ?h))" "unat (sl_toplevel (the (cells ?m ?h))) = ?L" by blast
  have L: "0 < ?L" "?L \<le> MAXLEVEL" "?L \<le> sl_slots sz (sl_node_size (sk_size_pad s) False)"
    and rel: "released ?m \<subseteq> dom (cells ?m)" using ok by (simp_all add: sk_ok_def)
  let ?c = "List.hd (vs @ [tail])"
  from sk_find_from_head [OF sp L(2)] obtain ps where
    ps: "sk_find ?m k ?h NULL no_neighbours ?L = Some (sk_pred ?m 0 ?h us, ?c, ps)"
    "\<forall>j < ?L. array_get (fst ps) j = Some (sk_pred ?m j ?h us) \<and> array_get (snd ps) j = Some (sk_succ ?m j vs tail)" by blast
  have g: "sl_get ?m (sk_pred ?m 0 ?h us) 0 = Some ?c" using sk_level_split(6) [OF sp L(1)] sk_level_0(2) [OF sp] by simp
  have "?c \<in> set (?h # (us @ vs) @ [tail])" by (cases vs) auto
  then have cn: "sl_node ?m ?c = Some (the (cells ?m ?c))" by (rule sk_listD(7) [OF sk])
  note fd = sk_found [OF sp b k(2)]
  show ?thesis
  proof (cases "sl_k ?m ?c = k")
    case True
    then show ?thesis using fd ps(1) g cn hd ok by (cases sd) (auto simp: sk_insert_def sl_k_def)
  next
    case False
    obtain l sd' where l: "get_rand_level coin101 (sk_levelmax s) sd = (l, sd')"
      by (cases "get_rand_level coin101 (sk_levelmax s) sd")
    then have lb: "1 \<le> unat l" "unat l \<le> ?L"
      using rand_level_within [of "sk_levelmax s" coin101 sd] L(1) by (simp_all add: unat_gt_0)
    have "k < sl_k ?m ?c" "a k = None" "p \<notin> released ?m" using fd False p(1) rel by (auto simp: fresh_def)
    from sk_insert_link [OF sp this(1) p(1,2) this(3) lb L(3) ps(2) b] obtain m' where
      m': "sk_link (put_cell p (allocate_sl_simple_unlinked sz k v (sk_size_pad s) l False) ?m) p ps 0 (unat l) = Some m'"
      "sk_list kmin kmax ?L m' ?h (us @ p # vs) tail" "sk_binds m' (us @ p # vs) (a(k \<mapsto> v))"
      "released m' = released ?m" "dom (cells m') = insert p (dom (cells ?m))" by blast
    have "sk_insert sz p sd s k v = Some (s\<lparr>sk_mem := m'\<rparr>, sd', 1)"
      using ps(1) g cn hd False l m'(1) by (simp add: sk_insert_def sl_k_def)
    moreover have "sk_ok sz kmin kmax (s\<lparr>sk_mem := m'\<rparr>) (a(k \<mapsto> v))"
      using m'(2-5) rel ok unfolding sk_ok_def by auto
    ultimately show ?thesis using \<open>a k = None\<close> m'(5) by (cases sd') auto
  qed
qed


subsection \<open>Removal\<close>

lemma sk_remove_list:
  assumes sk: "sk_list kmin kmax L m head (us @ c # vs) tail" and m': "sl_k m' = sl_k m" "sl_top m' = sl_top m"
    and has: "\<And>i q. sl_has m i q \<Longrightarrow> q \<noteq> c \<Longrightarrow> sl_has m' i q"
    and pth: "\<And>i. i < L \<Longrightarrow> path (cells m') (sl_next_at i) head (level m i (head # us) @ level m i (vs @ [tail])) NULL"
  shows "sk_list kmin kmax L m' head (us @ vs) tail"
proof -
  note D = sk_listD [OF sk]
  have so: "sorted_wrt (\<lambda>p q. sl_k m p < sl_k m q) ((head # us) @ c # (vs @ [tail]))" using sk by (auto simp: sk_list_def)
  have "sl_k m q \<noteq> sl_k m c" if "q \<in> set (head # (us @ vs) @ [tail])" for q
    using so that unfolding sorted_wrt_append by auto
  then have "q \<noteq> c" if "q \<in> set (head # (us @ vs) @ [tail])" for q using that by blast
  then have "even q \<and> 1 \<le> sl_top m' q \<and> sl_top m' q \<le> L \<and> (\<forall>i < sl_top m' q. sl_has m' i q)"
    if "q \<in> set (head # (us @ vs) @ [tail])" for q
    using D(5,6) [of q] has that by (auto simp: m')
  moreover have "sorted_wrt (\<lambda>p q. sl_k m' p < sl_k m' q) (head # (us @ vs) @ [tail])"
    using so by (auto simp: m' sorted_wrt_append)
  moreover have "level m' i (head # (us @ vs) @ [tail]) = level m i (head # us) @ level m i (vs @ [tail])" for i
    by (simp add: m')
  ultimately show ?thesis unfolding sk_list_def using D(1-4) pth by (simp only: m') simp
qed

lemma sk_remove_unlink:
  assumes sp: "sk_split kmin kmax L m head us (c # vs) tail k" and c: "sl_k m c = k"
    and ps: "\<forall>j < L. array_get (fst ps) j = Some (sk_pred m j head us) \<and> array_get (snd ps) j = Some (sk_succ m j (c # vs) tail)"
    and b: "sk_binds m (us @ c # vs) a" and rel: "released m \<subseteq> dom (cells m)"
  shows "\<exists>m1 m'. sk_unlink m k ps 0 L = Some m1 \<and> sl_simple_delete m1 c = Some m' \<and>
    sk_list kmin kmax L m' head (us @ vs) tail \<and> sk_binds m' (us @ vs) (a(k := None)) \<and>
    released m' \<subseteq> dom (cells m') \<and> dom (cells m') = dom (cells m)"
proof -
  let ?as = "\<lambda>i. butlast (level m i (head # us))" and ?bs = "\<lambda>i. tl (level m i ((c # vs) @ [tail]))"
  let ?pr = "\<lambda>i. sk_pred m i head us" and ?su = "\<lambda>i. sk_succ m i (c # vs) tail"
  have sk: "sk_list kmin kmax L m head (us @ c # vs) tail" and us: "\<forall>q \<in> set (head # us). sl_k m q < k" using sp by (simp_all add: sk_split_def)
  note lv = sk_level_path [OF sp] and D = sk_listD [OF sk]
  have so: "sorted_wrt (\<lambda>p q. sl_k m p < sl_k m q) (c # (vs @ [tail]))" using sk by (auto simp: sk_list_def sorted_wrt_append)
  then have above: "k < sl_k m q" if "q \<in> set (vs @ [tail])" for q using that c by auto
  have A: "\<forall>i < L. path (cells m) (sl_next_at i) head
      (if i < 0 \<and> ?su i = c then ?as i @ ?pr i # ?bs i else ?as i @ ?pr i # ?su i # ?bs i) NULL" using lv(1) by simp
  have B: "\<forall>i < L. sl_has m i (?su i) \<and> sl_room m i (?pr i) \<and> ?pr i \<noteq> c \<and> (sl_k m (?su i) = k \<longleftrightarrow> ?su i = c)"
  proof (intro allI impI conjI)
    fix i assume i: "i < L"
    note ls = sk_level_split [OF sp i]
    have "?pr i \<in> set (head # (us @ c # vs) @ [tail])" "?su i \<in> set (head # (us @ c # vs) @ [tail])" using ls(2,4) by auto
    then show "sl_room m i (?pr i)" "sl_has m i (?su i)" using D(6) ls(3,5) by (blast intro: sl_has_room)+
    show "?pr i \<noteq> c" using us ls(2) c by fastforce
    show "sl_k m (?su i) = k \<longleftrightarrow> ?su i = c" using ls(4) above c by fastforce
  qed
  from sk_unlink_ok [where L = L and m = m and head = head and as = ?as and pr = ?pr and su = ?su and bs = ?bs, OF A B ps add_0]
  obtain m1 where m1: "sk_unlink m k ps 0 L = Some m1" "sk_same m m1"
    "\<forall>i < L. path (cells m1) (sl_next_at i) head (if ?su i = c then ?as i @ ?pr i # ?bs i else ?as i @ ?pr i # ?su i # ?bs i) NULL"
    by (elim exE conjE) (rule that; assumption)
  let ?m = "m1\<lparr>released := insert c (released m1)\<rparr>"
  have cc: "cells m1 c \<noteq> None" "c \<notin> released m1" using D(8) [of c] m1(2) by (auto simp: sk_same_def dom_def set_eq_iff)
  then have del: "sl_simple_delete m1 c = Some ?m" by (simp add: sl_simple_delete_def)
  have same: "sl_k ?m = sl_k m" "sl_v ?m = sl_v m" "sl_top ?m = sl_top m" "dom (cells ?m) = dom (cells m)"
    using m1(2) by (simp_all add: sk_same_def sl_k_def sl_v_def sl_top_def fun_eq_iff)
  have c1: "cells ?m = cells m1" by simp
  have pth: "path (cells ?m) (sl_next_at i) head (level m i (head # us) @ level m i (vs @ [tail])) NULL" if "i < L" for i
  proof -
    note pi = m1(3) [rule_format, OF that]
    show ?thesis
    proof (cases "?su i = c")
      case True
      then have "?bs i = level m i (vs @ [tail])" using sk_level_split(5) [OF sp that] by auto
      then show ?thesis using pi lv(5) [OF that, of "?bs i"] unfolding c1 by (simp only: True if_True simp_thms)
    next
      case False
      then have "level m i ((c # vs) @ [tail]) = level m i (vs @ [tail])" by (auto simp: sk_succ_def)
      then show ?thesis using pi False lv(5,6) [OF that] unfolding c1 by (simp only: if_False simp_thms)
    qed
  qed
  have "sk_list kmin kmax L ?m head (us @ vs) tail"
    by (rule sk_remove_list [OF sk same(1,3) _ pth]) (use m1(2) in \<open>auto simp: sk_same_def sl_has_def\<close>)
  moreover have "sk_binds ?m (us @ vs) (a(k := None))"
  proof -
    have "sl_k m q \<noteq> k" if "q \<in> set (us @ vs)" for q using us above [of q] that by auto
    then show ?thesis using b c unfolding sk_binds_def same by auto
  qed
  moreover have "released ?m \<subseteq> dom (cells ?m)" using rel m1(2) cc by (auto simp: sk_same_def)
  ultimately show ?thesis using m1(1) del same(4) by blast
qed

lemma sk_remove_ok:
  assumes ok: "sk_ok sz kmin kmax s a" and k: "kmin < k" "k < kmax"
  shows "\<exists>s'. sk_remove s k = Some (s', val_or_zero (a k)) \<and> sk_ok sz kmin kmax s' (a(k := None)) \<and>
    dom (cells (sk_mem s')) = dom (cells (sk_mem s))"
proof -
  let ?L = "unat (sk_levelmax s)" and ?m = "sk_mem s" and ?h = "sk_head s"
  from sk_okE [OF assms(1-3)] obtain us vs tail where sp: "sk_split kmin kmax ?L ?m ?h us vs tail k"
    and sk: "sk_list kmin kmax ?L ?m ?h (us @ vs) tail" and b: "sk_binds ?m (us @ vs) a"
    and hd: "sl_node ?m ?h = Some (the (cells ?m ?h))" "unat (sl_toplevel (the (cells ?m ?h))) = ?L" by blast
  have L: "?L \<le> MAXLEVEL" and rel: "released ?m \<subseteq> dom (cells ?m)" using ok by (simp_all add: sk_ok_def)
  let ?c = "List.hd (vs @ [tail])"
  from sk_find_from_head [OF sp L] obtain ps where
    ps: "sk_find ?m k ?h NULL no_neighbours ?L = Some (sk_pred ?m 0 ?h us, ?c, ps)"
    "\<forall>j < ?L. array_get (fst ps) j = Some (sk_pred ?m j ?h us) \<and> array_get (snd ps) j = Some (sk_succ ?m j vs tail)" by blast
  have "?c \<in> set (?h # (us @ vs) @ [tail])" by (cases vs) auto
  then have cn: "sl_node ?m ?c = Some (the (cells ?m ?c))" by (rule sk_listD(7) [OF sk])
  note fd = sk_found [OF sp b k(2)]
  show ?thesis
  proof (cases "sl_k ?m ?c = k")
    case True
    then obtain c vs' where vs: "vs = c # vs'" and c: "?c = c" and ak: "a k = Some (sl_v ?m c)" "sl_k ?m c = k" using fd by auto
    from sk_remove_unlink [OF sp [unfolded vs] ak(2) ps(2) [unfolded vs] b [unfolded vs] rel] obtain m1 m' where
      m': "sk_unlink ?m k ps 0 ?L = Some m1" "sl_simple_delete m1 c = Some m'"
      "sk_list kmin kmax ?L m' ?h (us @ vs') tail" "sk_binds m' (us @ vs') (a(k := None))"
      "released m' \<subseteq> dom (cells m')" "dom (cells m') = dom (cells ?m)" by auto
    have "sk_remove s k = Some (s\<lparr>sk_mem := m'\<rparr>, sl_v ?m c)"
      using ps(1) cn hd True m'(1,2) unfolding c by (simp add: sk_remove_def sl_k_def sl_v_def)
    moreover have "sk_ok sz kmin kmax (s\<lparr>sk_mem := m'\<rparr>) (a(k := None))"
      using m'(3-5) ok unfolding sk_ok_def by auto
    ultimately show ?thesis using ak m'(6) by simp
  next
    case False
    then have "a k = None" using fd by auto
    moreover from this have "a(k := None) = a" by auto
    ultimately show ?thesis using False ps(1) cn hd ok by (simp add: sk_remove_def sl_k_def)
  qed
qed


subsection \<open>Length\<close>

lemma mark_even:
  assumes "even p"
  shows "\<not> is_marked p" and "unset_mark p = p"
proof -
  have b: "\<not> bit p 0" using assms by (simp add: bit_0)
  have "p AND 1 = 0" by (rule bit_eqI) (use b in \<open>auto simp: bit_and_iff bit_1_iff intro!: gr0I\<close>)
  then show "\<not> is_marked p" by (simp add: is_marked_def)
  show "unset_mark p = p" unfolding unset_mark_def
    by (rule bit_eqI) (use b in \<open>auto simp: bit_and_iff bit_not_iff bit_1_iff intro!: gr0I\<close>)
qed

lemma sk_length_loop_path:
  assumes "path (cells m) (sl_next_at 0) p (ps @ [q]) NULL" and "\<forall>x \<in> set (ps @ [q]). sl_has m 0 x \<and> even x"
  shows "sk_length_loop m p c = Some (c + int (length ps))"
  using assms
proof (induction ps arbitrary: p c)
  case Nil
  then have "sl_get m p 0 = Some NULL" using sl_get_has [of m 0 q] by auto
  then show ?case by (simp add: sk_length_loop.simps [of m p])
next
  case (Cons x xs)
  from Cons.prems(1) obtain n where n: "p = x" "cells m x = Some n" "path (cells m) (sl_next_at 0) (sl_next_at 0 n) (xs @ [q]) NULL" by auto
  then have nn: "sl_next_at 0 n \<noteq> NULL" by (cases xs) auto
  from n(3) have "sl_next_at 0 n \<in> set (xs @ [q])" by (cases xs) auto
  then have e: "even (sl_next_at 0 n)" using Cons.prems(2) by auto
  have "sl_get m p 0 = Some (sl_next_at 0 n)" using sl_get_has [of m 0 x] Cons.prems(2) n by simp
  then have "sk_length_loop m p c = sk_length_loop m (sl_next_at 0 n) (c + 1)"
    using nn mark_even [OF e] by (simp only: sk_length_loop.simps [of m p] Option.bind.bind_lunit) simp
  with Cons.IH [OF n(3)] Cons.prems(2) show ?case by simp
qed

lemma sk_length_ok:
  assumes ok: "sk_ok sz kmin kmax s a"
  shows "sk_length s = Some (int (card (dom a)))"
proof -
  let ?L = "unat (sk_levelmax s)" and ?m = "sk_mem s" and ?h = "sk_head s"
  from ok obtain xs tail where sk: "sk_list kmin kmax ?L ?m ?h xs tail" and b: "sk_binds ?m xs a" and L: "0 < ?L"
    by (auto simp: sk_ok_def)
  note D = sk_listD [OF sk]
  have has: "sl_has ?m 0 x \<and> even x" if "x \<in> set (?h # xs @ [tail])" for x using D(5) [OF that] D(6) [OF that, of 0] by auto
  have "level ?m 0 (?h # xs @ [tail]) = ?h # xs @ [tail]" using D(5) by (auto simp: filter_id_conv Suc_le_eq)
  then have pth: "path (cells ?m) (sl_next_at 0) ?h (?h # xs @ [tail]) NULL" using sk L unfolding sk_list_def by metis
  then obtain n where n: "cells ?m ?h = Some n" "path (cells ?m) (sl_next_at 0) (sl_next_at 0 n) (xs @ [tail]) NULL" by auto
  then have "sl_next_at 0 n \<in> set (xs @ [tail])" by (cases xs) auto
  then have e: "even (sl_next_at 0 n)" using has by auto
  have "sl_get ?m ?h 0 = Some (sl_next_at 0 n)" using sl_get_has [of ?m 0 ?h] has n by simp
  then have "sk_length s = Some (int (length xs))"
    using sk_length_loop_path [OF n(2)] has mark_even(2) [OF e] by (simp add: sk_length_def)
  moreover have "length xs = card (dom a)"
  proof -
    have "sorted_wrt (<) (map (sl_k ?m) xs)" using sk by (auto simp: sk_list_def sorted_wrt_map sorted_wrt_append)
    then have "distinct (map (sl_k ?m) xs)" by (simp add: strict_sorted_iff)
    moreover have "dom a = set (map (sl_k ?m) xs)" using b unfolding sk_binds_def dom_def by (auto simp: image_def)
    ultimately show ?thesis by (metis distinct_card length_map)
  qed
  ultimately show ?thesis by simp
qed

subsection \<open>The constructor\<close>

lemma sk_pad_up_bounds:
  "unat x \<le> B \<Longrightarrow> 32 dvd B \<Longrightarrow> B < 2 ^ 32 \<Longrightarrow> unat x \<le> unat (sk_pad_up x) \<and> unat (sk_pad_up x) \<le> B \<and> 32 dvd unat (sk_pad_up x)"
proof (induction x rule: sk_pad_up.induct)
  case (1 x)
  have d: "x AND 31 = 0 \<longleftrightarrow> 32 dvd unat x" using and_31_word [of x] by (metis dvd_eq_mod_eq_0 unat_0 word_unat_eq_iff)
  show ?case
  proof (cases "x AND 31 = 0")
    case True
    then show ?thesis using d 1 by (simp add: sk_pad_up.simps [of x])
  next
    case False
    then have "unat x \<noteq> B" using d 1 by auto
    then have "unat x < B" using 1 by simp
    then have "unat (x + 1) = Suc (unat x)" using 1 by (intro unat_Suc_word) simp
    then show ?thesis using 1 False \<open>unat x < B\<close> by (simp add: sk_pad_up.simps [of x])
  qed
qed

lemma sl_fill_ok:
  "i + n \<le> length xs \<Longrightarrow> \<exists>ys. sl_fill xs i n x = Some ys \<and> length ys = length xs \<and>
     (\<forall>j. array_get ys j = (if i \<le> j \<and> j < i + n then Some x else array_get xs j))"
proof (induction n arbitrary: i xs)
  case (Suc n)
  from Suc.IH [of "Suc i" "xs[i := Some x]"] Suc.prems obtain ys where
    "sl_fill (xs[i := Some x]) (Suc i) n x = Some ys" "length ys = length xs"
    "\<forall>j. array_get ys j = (if Suc i \<le> j \<and> j < Suc i + n then Some x else array_get (xs[i := Some x]) j)" by auto
  then show ?case using Suc.prems by (auto simp: array_put_def array_get_def not_less_eq_eq dest!: le_antisym)
qed auto

lemma allocate_sl_simple_ok:
  assumes "unat levelmax \<le> sl_slots sz (sl_node_size pad True)"
  shows "\<exists>n. allocate_sl_simple sz k v nxt levelmax pad lev True = Some n \<and> sl_key n = k \<and> sl_val n = v \<and> sl_toplevel n = lev \<and>
    (\<forall>i < unat levelmax. array_get (sl_next n) i = Some nxt)"
  using sl_fill_ok [of 0 "unat levelmax" "replicate (sl_slots sz (sl_node_size pad True)) None" nxt] assms
  by (auto simp: allocate_sl_simple_def allocate_sl_simple_unlinked_def Let_def)

lemma sk_slots:
  assumes "8 \<le> sz" and "sz + 8 * L \<le> unat pad"
  shows "L \<le> sl_slots sz (sl_node_size pad transactional)"
proof -
  have "unat pad mod 64 < 64" by simp
  then have "unat pad \<le> sl_node_size pad transactional" by (auto simp: sl_node_size_def Let_def)
  then have "8 * L \<le> sl_node_size pad transactional - (sz - 8)" using assms by simp
  then show ?thesis unfolding sl_slots_def by (simp add: less_eq_div_iff_mult_less_eq mult.commute)
qed

definition sk_sizes :: "nat \<Rightarrow> 32 word \<Rightarrow> bool" where
  "sk_sizes sz level_max \<longleftrightarrow> 8 \<le> sz \<and> sz < 2 ^ 31 \<and> 1 \<le> unat level_max \<and> unat level_max \<le> MAXLEVEL"

lemma sk_init_pad:
  assumes "sk_sizes sz level_max"
  shows "sz + 8 * unat level_max \<le> unat (sk_pad_up (of_nat sz + level_max * 8))"
proof -
  have l: "unat level_max \<le> 32" "sz < 2 ^ 31" using assms by (simp_all add: sk_sizes_def MAXLEVEL_def)
  have "unat (of_nat sz + level_max * 8 :: 32 word) = sz + unat level_max * 8"
    using l by (simp add: unat_word_ariths unat_of_nat)
  moreover have "unat (of_nat sz + level_max * 8 :: 32 word) \<le> 2 ^ 32 - 32" unfolding calculation using l by simp
  ultimately show ?thesis using sk_pad_up_bounds [of "of_nat sz + level_max * 8" "2 ^ 32 - 32"] by simp
qed

lemma sk_init_ok:
  fixes kmin :: "'k::linorder"
  assumes h: "h \<noteq> NULL" "t \<noteq> NULL" "h \<noteq> t" "even h" "even t" and k: "kmin < kmax" and sz: "sk_sizes sz level_max"
  shows "\<exists>s. sk_init sz kmin kmax level_max h t = Some (s :: ('k, 'v::zero) skiplist) \<and> sk_ok sz kmin kmax s Map.empty \<and>
    dom (cells (sk_mem s)) = {h, t}"
proof -
  let ?L = "unat level_max" and ?pad = "sk_pad_up (of_nat sz + level_max * 8)"
  have L: "1 \<le> ?L" "?L \<le> MAXLEVEL" "8 \<le> sz" using sz by (simp_all add: sk_sizes_def)
  note slots = sk_slots [OF L(3) sk_init_pad [OF sz]]
  from allocate_sl_simple_ok [OF slots, of kmax 0 NULL level_max] obtain mx where
    mx: "allocate_sl_simple sz kmax (0::'v) NULL level_max ?pad level_max True = Some mx" "sl_key mx = kmax"
    "sl_toplevel mx = level_max" "\<forall>i < ?L. array_get (sl_next mx) i = Some NULL" by blast
  from allocate_sl_simple_ok [OF slots, of kmin 0 t level_max] obtain mn where
    mn: "allocate_sl_simple sz kmin (0::'v) t level_max ?pad level_max True = Some mn" "sl_key mn = kmin"
    "sl_toplevel mn = level_max" "\<forall>i < ?L. array_get (sl_next mn) i = Some t" by blast
  let ?m = "put_cell h mn (put_cell t mx empty_store)"
  let ?s = "\<lparr>sk_head = h, sk_levelmax = level_max, sk_size_pad = ?pad, sk_mem = ?m\<rparr> :: ('k, 'v) skiplist"
  have "sk_list kmin kmax ?L ?m h [] t"
    unfolding sk_list_def using h k L mx mn
    by (auto simp: sl_has_def sl_k_def sl_top_def)
  then have "sk_ok sz kmin kmax ?s Map.empty"
    unfolding sk_ok_def using L slots [of False] by (auto simp: sk_binds_def intro!: exI [of _ "[]"])
  moreover have "sk_init sz kmin kmax level_max h t = Some ?s" using mx(1) mn(1) by (simp add: sk_init_def Let_def)
  moreover have "dom (cells (sk_mem ?s)) = {h, t}" by auto
  ultimately show ?thesis by blast
qed

section \<open>Programs\<close>

lemma sk_op_ok:
  assumes "sk_ok sz kmin kmax s a" and "kmin < op_key op" "op_key op < kmax" and "fresh (cells (sk_mem s)) p" "even p"
  shows "\<exists>s' sd' r a'. sk_op sz p sd s op = Some (s', sd', r) \<and> map_spec op a = (a', r) \<and> sk_ok sz kmin kmax s' a' \<and>
    dom (cells (sk_mem s')) \<subseteq> insert p (dom (cells (sk_mem s)))"
proof (cases op)
  case (Search k)
  then show ?thesis using sk_search_ok [OF assms(1), of k] assms(1,2,3) by (cases sd) auto
next
  case (Insert k v)
  then obtain s' sd' where "sk_insert sz p sd s k v = Some (s', sd', if a k = None then 1 else 0)"
    "sk_ok sz kmin kmax s' (if a k = None then a(k \<mapsto> v) else a)" "dom (cells (sk_mem s')) \<subseteq> insert p (dom (cells (sk_mem s)))"
    using sk_insert_ok [OF assms(1) _ _ assms(4,5), of k sd v] assms(2,3) by auto
  then show ?thesis using Insert by (cases sd'; cases "a k") auto
next
  case (Delete k)
  then obtain s' where s': "sk_remove s k = Some (s', val_or_zero (a k))" "sk_ok sz kmin kmax s' (a(k := None))"
    "dom (cells (sk_mem s')) = dom (cells (sk_mem s))"
    using sk_remove_ok [OF assms(1), of k] assms(2,3) by auto
  moreover have "a k = None \<Longrightarrow> a(k := None) = a" by auto
  ultimately show ?thesis using Delete by (cases sd; cases "a k") auto
qed

lemma sk_ops_ok:
  assumes "sk_ok sz kmin kmax s a" and "distinct (map snd ops)"
    and "\<forall>(op, p) \<in> set ops. kmin < op_key op \<and> op_key op < kmax \<and> fresh (cells (sk_mem s)) p \<and> even p"
  shows "\<exists>s' rs. sk_ops sz sd s ops = Some (s', rs) \<and> (\<exists>a'. spec_ops a (map fst ops) = (a', rs) \<and> sk_ok sz kmin kmax s' a')"
  using assms
proof (induction ops arbitrary: s a sd)
  case (Cons x ops)
  obtain op p where x: "x = (op, p)" by force
  from Cons.prems(3) x have key: "kmin < op_key op" "op_key op < kmax" and fr: "fresh (cells (sk_mem s)) p" "even p" by auto
  from sk_op_ok [OF Cons.prems(1) key fr, of sd] obtain s' sd' r a' where
    one: "sk_op sz p sd s op = Some (s', sd', r)" "map_spec op a = (a', r)" "sk_ok sz kmin kmax s' a'"
    "dom (cells (sk_mem s')) \<subseteq> insert p (dom (cells (sk_mem s)))" by blast
  have "fresh (cells (sk_mem s')) q" if "(op', q) \<in> set ops" for op' q
  proof -
    have "q \<noteq> p" using Cons.prems(2) that by (force simp: x)
    moreover have "fresh (cells (sk_mem s)) q" using Cons.prems(3) that by fastforce
    ultimately show ?thesis using one(4) unfolding fresh_def by blast
  qed
  then have "\<forall>(op, p) \<in> set ops. kmin < op_key op \<and> op_key op < kmax \<and> fresh (cells (sk_mem s')) p \<and> even p"
    using Cons.prems(3) by fastforce
  from Cons.IH [OF one(3) _ this, of sd'] Cons.prems(2) x one show ?case by auto
qed simp

section \<open>Properties\<close>

text \<open>C33: a program of operations on the sequential skip list, from the constructor on and whatever levels the
  generator draws, ends without an access to a missing or released node, to a slot that was not written or that
  lies outside of the object; it returns exactly the answers of the map specification, and \<^verbatim>\<open>length()\<close> then is the
  number of keys in the map.\<close>

theorem sk_program_correct:
  fixes ops :: "(('k::linorder, 'v::zero) map_op \<times> ptr) list"
  assumes "h \<noteq> NULL" "t \<noteq> NULL" "h \<noteq> t" "even h" "even t" "kmin < kmax" and "sk_sizes sz level_max"
    and "\<forall>(op, p) \<in> set ops. kmin < op_key op \<and> op_key op < kmax \<and> p \<notin> {NULL, h, t} \<and> even p" and "distinct (map snd ops)"
  shows "\<exists>s s'. sk_init sz kmin kmax level_max h t = Some s \<and>
    sk_ops sz sd s ops = Some (s', snd (spec_ops Map.empty (map fst ops))) \<and>
    sk_length s' = Some (int (card (dom (fst (spec_ops Map.empty (map fst ops))))))"
proof -
  from sk_init_ok [OF assms(1-7)] obtain s :: "('k, 'v) skiplist" where s: "sk_init sz kmin kmax level_max h t = Some s"
    "sk_ok sz kmin kmax s Map.empty" "dom (cells (sk_mem s)) = {h, t}" by blast
  have "\<forall>(op, p) \<in> set ops. kmin < op_key op \<and> op_key op < kmax \<and> fresh (cells (sk_mem s)) p \<and> even p"
    using assms(8) s(3) by (auto simp: fresh_def)
  from sk_ops_ok [OF s(2) assms(9) this, of sd] s(1) show ?thesis using sk_length_ok by fastforce
qed

theorem sk_program_correct_witness:
  "\<exists>s s'. sk_init 40 0 10 4 2 4 = Some s \<and>
     sk_ops 40 (1, 2, 3) s [(Insert 5 50, 6), (Insert 3 30, 8), (Insert 5 51, 10), (Delete 5, 12), (Search 5, 14), (Search 3, 16)]
       = Some (s' :: (int, int) skiplist, [Ret_Int 1, Ret_Int 1, Ret_Int 0, Ret_Val 50, Ret_Val 0, Ret_Val 30]) \<and>
     sk_length s' = Some 1"
  using sk_program_correct [of 2 4 "0::int" 10 40 4
      "[(Insert 5 (50::int), 6), (Insert 3 30, 8), (Insert 5 51, 10), (Delete 5, 12), (Search 5, 14), (Search 3, 16)]" "(1, 2, 3)"]
  by (simp add: sk_sizes_def MAXLEVEL_def)

end
