(* ===== verification/Linearizability_Check.thy ===== *)
theory Linearizability_Check
  imports Linearizability
begin

text \<open>
  A decision procedure for the failure of linearizability on one history. \<open>lins\<close> enumerates what a configuration can
  become when pending operations take effect, \<open>explore\<close> follows a history event by event. If nothing is left at
  the end, no placement of linearization points explains the history.
\<close>

type_synonym ('o, 'a, 'r) atomic = "'a \<times> (tid \<Rightarrow> ('o, 'r) phase)"

function lins :: "('o, 'a, 'r) seq_spec \<Rightarrow> tid list \<Rightarrow> ('o, 'a, 'r) atomic \<Rightarrow> ('o, 'a, 'r) atomic list" where
  "lins spec ts x = x # concat (map (\<lambda>t. case atomic_step spec (t, Lin) x of
       None \<Rightarrow> [] | Some y \<Rightarrow> lins spec (remove1 t ts) y) ts)"
  by auto
termination by (relation "measure (\<lambda>(spec, ts, x). length ts)") (auto simp: length_remove1 dest: length_pos_if_in_set)

declare lins.simps [simp del]

fun explore :: "('o, 'a, 'r) seq_spec \<Rightarrow> tid list \<Rightarrow> ('o, 'r) history \<Rightarrow> ('o, 'a, 'r) atomic list \<Rightarrow> ('o, 'a, 'r) atomic list" where
  "explore spec ts [] xs = xs"
| "explore spec ts ((t, e) # h) xs = explore spec ts h
     (List.map_filter (atomic_step spec (t, Ext e)) (concat (map (lins spec ts) xs)))"

definition pending_in :: "tid list \<Rightarrow> ('o, 'a, 'r) atomic \<Rightarrow> bool" where
  "pending_in ts x \<longleftrightarrow> (\<forall>t op. snd x t = Pending op \<longrightarrow> t \<in> set ts)"

lemma lins_refl: "x \<in> set (lins spec ts x)"
  unfolding lins.simps [of spec ts x] by (rule list.set_intros(1))

lemma lins_step:
  assumes "distinct ts" and "pending_in ts x" and "atomic_step spec (t, Lin) x = Some y"
  shows "pending_in (remove1 t ts) y" and "set (lins spec (remove1 t ts) y) \<subseteq> set (lins spec ts x)"
proof -
  obtain a f where x: "x = (a, f)" by force
  from assms(3) obtain op where op: "f t = Pending op" by (cases "f t") (auto simp: x)
  then have t: "t \<in> set ts" using assms(2) by (auto simp: pending_in_def x)
  have "y = (fst (spec op a), f(t := Done (snd (spec op a))))" using assms(3) op by (auto simp: x split: prod.splits)
  then show "pending_in (remove1 t ts) y" using assms(1,2) by (auto simp: pending_in_def x)
  show "set (lins spec (remove1 t ts) y) \<subseteq> set (lins spec ts x)"
  proof
    fix z assume "z \<in> set (lins spec (remove1 t ts) y)"
    then have "z \<in> set (case atomic_step spec (t, Lin) x of None \<Rightarrow> [] | Some y \<Rightarrow> lins spec (remove1 t ts) y)"
      by (simp only: assms(3) option.case)
    then show "z \<in> set (lins spec ts x)"
      unfolding lins.simps [of spec ts x] by (intro list.set_intros(2)) (use t in \<open>simp only: set_concat set_map, blast\<close>)
  qed
qed

lemma lins_complete:
  assumes "atomic_run spec (map (\<lambda>t. (t, Lin)) us) x = Some y" and "distinct ts" and "pending_in ts x"
  shows "y \<in> set (lins spec ts x) \<and> pending_in ts y"
  using assms
proof (induction us arbitrary: ts x)
  case Nil
  then show ?case using lins_refl [of x] by simp
next
  case (Cons t us)
  from Cons.prems(1) obtain x' where x': "atomic_step spec (t, Lin) x = Some x'"
    "atomic_run spec (map (\<lambda>t. (t, Lin)) us) x' = Some y" by (cases "atomic_step spec (t, Lin) x") auto
  note st = lins_step [OF Cons.prems(2,3) x'(1)]
  have "y \<in> set (lins spec (remove1 t ts) x') \<and> pending_in (remove1 t ts) y"
    by (rule Cons.IH [OF x'(2) _ st(1)]) (use Cons.prems(2) in simp)
  then show ?case using st(2) Cons.prems(2) by (auto simp: pending_in_def)
qed

lemma external_split:
  "external es = (t, e) # h \<Longrightarrow> \<exists>us es'. es = map (\<lambda>t. (t, Lin)) us @ (t, Ext e) # es' \<and> external es' = h"
proof (induction es rule: external.induct)
  case (2 u e' es)
  then show ?case by (intro exI [of _ "[]"] exI [of _ es]) auto
next
  case (3 u es)
  then obtain us es' where "es = map (\<lambda>t. (t, Lin)) us @ (t, Ext e) # es'" "external es' = h" by auto
  then show ?case by (intro exI [of _ "u # us"] exI [of _ es']) simp
qed simp

text \<open>Every run over the history passes through the configurations that \<open>explore\<close> finds.\<close>

lemma explore_complete:
  assumes "atomic_run spec es x = Some z" and "external es = h" and "distinct ts" and "pending_in ts x" and "x \<in> set xs"
    and "fst ` set h \<subseteq> set ts"
  shows "explore spec ts h xs \<noteq> []"
  using assms
proof (induction h arbitrary: es x xs)
  case (Cons d h)
  obtain t e where d: "d = (t, e)" by force
  from external_split [of es t e h] Cons.prems(2) d obtain us es' where
    es: "es = map (\<lambda>t. (t, Lin)) us @ (t, Ext e) # es'" "external es' = h" by auto
  from Cons.prems(1) obtain y where y: "atomic_run spec (map (\<lambda>t. (t, Lin)) us) x = Some y"
    "atomic_run spec ((t, Ext e) # es') y = Some z"
    unfolding es(1) atomic_run_append by (cases "atomic_run spec (map (\<lambda>t. (t, Lin)) us) x") auto
  then obtain y' where y': "atomic_step spec (t, Ext e) y = Some y'" "atomic_run spec es' y' = Some z"
    by (cases "atomic_step spec (t, Ext e) y") auto
  from lins_complete [OF y(1) Cons.prems(3,4)] have ly: "y \<in> set (lins spec ts x)" "pending_in ts y" by simp_all
  have "t \<in> set ts" using Cons.prems(6) d by simp
  then have "pending_in ts y'"
    using y'(1) ly(2) by (cases y; cases e) (auto simp: pending_in_def split: if_splits)
  moreover have "y' \<in> set (List.map_filter (atomic_step spec (t, Ext e)) (concat (map (lins spec ts) xs)))"
    using y'(1) ly(1) Cons.prems(5) by (force simp: List.map_filter_def)
  ultimately show ?case
    using Cons.IH [OF y'(2) es(2) Cons.prems(3)] Cons.prems(6) by (simp add: d)
qed auto

theorem explore_not_linearizable:
  assumes "explore spec ts h [(a0, \<lambda>_. Resting)] = []" and "distinct ts" and "fst ` set h \<subseteq> set ts"
  shows "\<not> linearizable spec a0 h"
proof
  assume "linearizable spec a0 h"
  then obtain es z where es: "external es = h" "atomic_run spec es (a0, \<lambda>_. Resting) = Some z"
    unfolding linearizable_def by blast
  have "pending_in ts (a0, \<lambda>_. Resting)" by (simp add: pending_in_def)
  from explore_complete [OF es(2,1) assms(2) this _ assms(3), of "[(a0, \<lambda>_. Resting)]"] assms(1) show False by simp
qed

end
