(* ===== verification/LinkedList_Pugh.thy ===== *)
theory LinkedList_Pugh
  imports List_Steps Linearizability_Check
begin

text \<open>
  Pugh's list, \<^verbatim>\<open>src/algorithms/linkedlist_pugh.h\<close>, on the nodes of \<^verbatim>\<open>src/aux/ll_locked.h\<close>. There are no marks:
  a removed node is redirected, its pointer leads back to its former predecessor, so that a thread that
  stands at it finds the way into the list again. Searches take no lock; updates lock the predecessor and
  move on from there. After it has released a node, \<^verbatim>\<open>remove\<close> accesses one node more, the predecessor it has
  locked before and unlocks at the end; it is shown that this node is still linked, so that the allocator
  cannot have reclaimed it. \<open>ro\<close> is the build option \<^verbatim>\<open>PUGH_RO_FAIL == 1\<close>; correctness is shown without it, and with
  it a run is exhibited in which \<^verbatim>\<open>remove\<close> misses a key that is there all the time.
\<close>

section \<open>The code\<close>

record ('k, 'v) ll_locked = "('k, 'v) ll_simple" +
  lk_lock :: "tid option"

definition allocate_ll_locked :: "'k \<Rightarrow> 'v \<Rightarrow> ptr \<Rightarrow> ('k, 'v) ll_locked" where
  "allocate_ll_locked k v p = \<lparr>ll_key = k, ll_val = v, ll_next = p, lk_lock = None\<rparr>"

definition initialize_ll_locked :: "'k \<Rightarrow> 'v \<Rightarrow> ptr \<Rightarrow> ('k, 'v) ll_locked" where
  "initialize_ll_locked k v p = \<lparr>ll_key = k, ll_val = v, ll_next = p, lk_lock = None\<rparr>"

definition ll_locked_release :: "('k, 'v) ll_locked store \<Rightarrow> ptr \<Rightarrow>
    (('k, 'v) ll_locked store \<Rightarrow> ('s, 'l, 'r) outcome) \<Rightarrow> ('s, 'l, 'r) outcome" where
  "ll_locked_release m p k = release m p k"

definition ll_locked_delete :: "bool \<Rightarrow> ptr set \<Rightarrow> ('k, 'v) ll_locked store \<Rightarrow> ptr \<Rightarrow> ('k, 'v) ll_locked store option" where
  "ll_locked_delete gc heap m p = (if gc then c_free heap m p else Some m)"

lemmas ll_locked_defs = allocate_ll_locked_def initialize_ll_locked_def ll_locked_release_def ll_locked_delete_def

record ('k, 'v) pugh =
  pg_head :: ptr
  pg_mem :: "('k, 'v) ll_locked store"

abbreviation pg_cells :: "('k, 'v) pugh \<Rightarrow> ptr \<Rightarrow> ('k, 'v) ll_locked option" where
  "pg_cells s \<equiv> cells (pg_mem s)"

definition pg_init :: "'k \<Rightarrow> 'k \<Rightarrow> ptr \<Rightarrow> ptr \<Rightarrow> ('k, 'v::zero) pugh" where
  "pg_init kmin kmax h t = \<lparr>pg_head = h,
     pg_mem = put_cell h (initialize_ll_locked kmin 0 t) (put_cell t (initialize_ll_locked kmax 0 NULL) empty_store)\<rparr>"

datatype 'k pg_search_pc =
    PS_Head 'k              \<comment> \<open>\<^verbatim>\<open>search_weak_right\<close>: \<^verbatim>\<open>succ = head->next\<close>\<close>
  | PS_Key 'k ptr           \<comment> \<open>\<^verbatim>\<open>succ->key < key\<close>\<close>
  | PS_Next 'k ptr          \<comment> \<open>\<^verbatim>\<open>succ = succ->next\<close>\<close>
  | PS_Test 'k ptr          \<comment> \<open>\<^verbatim>\<open>right->key == key\<close>\<close>
  | PS_Val 'k ptr           \<comment> \<open>return \<^verbatim>\<open>right->val\<close>\<close>

text \<open>\<^verbatim>\<open>search_weak_left\<close>, then \<^verbatim>\<open>search_strong\<close>, or \<^verbatim>\<open>search_strong_cond\<close> which begins with a test.\<close>

datatype pg_walk_pc =
    PW_Head                 \<comment> \<open>\<^verbatim>\<open>pred = head; succ = pred->next\<close>\<close>
  | PW_Key ptr ptr          \<comment> \<open>\<^verbatim>\<open>succ->key < key\<close>\<close>
  | PW_Next ptr             \<comment> \<open>\<^verbatim>\<open>pred = succ; succ = succ->next\<close>\<close>
  | PC_Next ptr             \<comment> \<open>\<^verbatim>\<open>search_strong_cond\<close>: \<^verbatim>\<open>succ = pred->next\<close>\<close>
  | PC_Test ptr ptr         \<comment> \<open>\<^verbatim>\<open>(succ->key == key) == equal\<close>: return 0\<close>
  | PL_Lock ptr             \<comment> \<open>\<^verbatim>\<open>LOCK(ND_GET_LOCK(pred))\<close>\<close>
  | PL_Next ptr             \<comment> \<open>\<^verbatim>\<open>succ = pred->next\<close>\<close>
  | PL_Key ptr ptr          \<comment> \<open>\<^verbatim>\<open>succ->key < key\<close>\<close>
  | PL_Unlock ptr ptr       \<comment> \<open>\<^verbatim>\<open>UNLOCK(ND_GET_LOCK(pred)); pred = succ\<close>\<close>

datatype ('k, 'v) pg_insert_pc =
    PI_Test 'k 'v ptr ptr   \<comment> \<open>\<^verbatim>\<open>right->key == key\<close>\<close>
  | PI_Read 'k 'v ptr       \<comment> \<open>read \<^verbatim>\<open>left->next\<close>\<close>
  | PI_Alloc 'k 'v ptr ptr  \<comment> \<open>\<^verbatim>\<open>allocate_ll_locked\<close>\<close>
  | PI_Link 'k 'v ptr ptr   \<comment> \<open>\<^verbatim>\<open>left->next = n\<close>\<close>
  | PI_Unlock ptr int       \<comment> \<open>\<^verbatim>\<open>UNLOCK(ND_GET_LOCK(left))\<close>, return \<^verbatim>\<open>result\<close>\<close>

datatype ('k, 'v) pg_remove_pc =
    PD_Test 'k ptr ptr          \<comment> \<open>\<^verbatim>\<open>right->key == key\<close>\<close>
  | PD_Lock 'k ptr ptr          \<comment> \<open>\<^verbatim>\<open>LOCK(ND_GET_LOCK(right))\<close>\<close>
  | PD_Val 'k ptr ptr           \<comment> \<open>\<^verbatim>\<open>result = right->val\<close>\<close>
  | PD_Succ 'k ptr ptr 'v       \<comment> \<open>read \<^verbatim>\<open>right->next\<close>\<close>
  | PD_Unlink 'k ptr ptr ptr 'v \<comment> \<open>\<^verbatim>\<open>left->next = right->next\<close>\<close>
  | PD_Back ptr ptr 'v          \<comment> \<open>\<^verbatim>\<open>right->next = left\<close>\<close>
  | PD_Unlock ptr ptr 'v        \<comment> \<open>\<^verbatim>\<open>UNLOCK(ND_GET_LOCK(right))\<close>\<close>
  | PD_Release ptr ptr 'v       \<comment> \<open>\<^verbatim>\<open>ll_locked_release(right)\<close>\<close>
  | PD_Last ptr 'v              \<comment> \<open>\<^verbatim>\<open>UNLOCK(ND_GET_LOCK(left))\<close>, return \<^verbatim>\<open>result\<close>\<close>

datatype ('k, 'v) pg_pc = PSearch "'k pg_search_pc" | PWalk "('k, 'v) map_op" pg_walk_pc
  | PInsert "('k, 'v) pg_insert_pc" | PRemove "('k, 'v) pg_remove_pc"

type_synonym ('k, 'v) pg_outcome = "(('k, 'v) pugh, ('k, 'v) pg_pc, 'v map_ret) outcome"

definition pg_lock :: "tid \<Rightarrow> ('k, 'v) pugh \<Rightarrow> ptr \<Rightarrow> ('k, 'v) pg_pc \<Rightarrow> ('k, 'v) pg_outcome" where
  "pg_lock t s p x = deref (pg_cells s) p (\<lambda>n.
     if lk_lock n = None then Next (s\<lparr>pg_mem := put_cell p (n\<lparr>lk_lock := Some t\<rparr>) (pg_mem s)\<rparr>) (At x) else Blocked)"

definition pg_unlock :: "('k, 'v) pugh \<Rightarrow> ptr \<Rightarrow> (('k, 'v) pg_pc, 'v map_ret) control \<Rightarrow> ('k, 'v) pg_outcome" where
  "pg_unlock s p y = deref (pg_cells s) p (\<lambda>n. Next (s\<lparr>pg_mem := put_cell p (n\<lparr>lk_lock := None\<rparr>) (pg_mem s)\<rparr>) y)"

definition pg_next :: "('k, 'v) pugh \<Rightarrow> ptr \<Rightarrow> (ptr \<Rightarrow> ('k, 'v) pg_pc) \<Rightarrow> ('k, 'v) pg_outcome" where
  "pg_next s p x = deref (pg_cells s) p (\<lambda>n. Next s (At (x (ll_next n))))"

definition pg_set_next :: "('k, 'v) pugh \<Rightarrow> ptr \<Rightarrow> ptr \<Rightarrow> ('k, 'v) pg_pc \<Rightarrow> ('k, 'v) pg_outcome" where
  "pg_set_next s p q x = deref (pg_cells s) p (\<lambda>n. Next (s\<lparr>pg_mem := put_cell p (n\<lparr>ll_next := q\<rparr>) (pg_mem s)\<rparr>) (At x))"

fun pg_search :: "('k::linorder, 'v::zero) pugh \<Rightarrow> 'k pg_search_pc \<Rightarrow> ('k, 'v) pg_outcome" where
  "pg_search s (PS_Head k) = pg_next s (pg_head s) (\<lambda>c. PSearch (PS_Key k c))"
| "pg_search s (PS_Key k c) =
     deref (pg_cells s) c (\<lambda>n. Next s (At (PSearch (if ll_key n < k then PS_Next k c else PS_Test k c))))"
| "pg_search s (PS_Next k c) = pg_next s c (\<lambda>d. PSearch (PS_Key k d))"
| "pg_search s (PS_Test k c) =
     deref (pg_cells s) c (\<lambda>n. Next s (if ll_key n = k then At (PSearch (PS_Val k c)) else Finished (Ret_Val 0)))"
| "pg_search s (PS_Val k c) = deref (pg_cells s) c (\<lambda>n. Next s (Finished (Ret_Val (ll_val n))))"

text \<open>The answer of \<^verbatim>\<open>search_strong_cond\<close> without a lock, if the key has been found (or not) as \<^verbatim>\<open>equal\<close> says, and
  what follows the walk.\<close>

fun pg_fail :: "('k, 'v::zero) map_op \<Rightarrow> bool \<Rightarrow> 'v map_ret option" where
  "pg_fail (Insert k v) found = (if found = True then Some (Ret_Int 0) else None)"
| "pg_fail (Delete k) found = (if found = False then Some (Ret_Val 0) else None)"
| "pg_fail (Search k) found = None"

fun pg_after :: "('k, 'v) map_op \<Rightarrow> ptr \<Rightarrow> ptr \<Rightarrow> ('k, 'v) pg_pc" where
  "pg_after (Insert k v) p c = PInsert (PI_Test k v p c)"
| "pg_after (Delete k) p c = PRemove (PD_Test k p c)"
| "pg_after (Search k) p c = PSearch (PS_Test k c)"

fun pg_walk :: "bool \<Rightarrow> tid \<Rightarrow> ('k::linorder, 'v::zero) pugh \<Rightarrow> ('k, 'v) map_op \<Rightarrow> pg_walk_pc \<Rightarrow> ('k, 'v) pg_outcome" where
  "pg_walk ro t s op PW_Head = pg_next s (pg_head s) (\<lambda>c. PWalk op (PW_Key (pg_head s) c))"
| "pg_walk ro t s op (PW_Key p c) =
     deref (pg_cells s) c (\<lambda>n. Next s (At (PWalk op (if ll_key n < op_key op then PW_Next c else if ro then PC_Next p else PL_Lock p))))"
| "pg_walk ro t s op (PW_Next c) = pg_next s c (\<lambda>d. PWalk op (PW_Key c d))"
| "pg_walk ro t s op (PC_Next p) = pg_next s p (\<lambda>c. PWalk op (PC_Test p c))"
| "pg_walk ro t s op (PC_Test p c) = deref (pg_cells s) c (\<lambda>n.
     Next s (case pg_fail op (ll_key n = op_key op) of Some r \<Rightarrow> Finished r | None \<Rightarrow> At (PWalk op (PL_Lock p))))"
| "pg_walk ro t s op (PL_Lock p) = pg_lock t s p (PWalk op (PL_Next p))"
| "pg_walk ro t s op (PL_Next p) = pg_next s p (\<lambda>c. PWalk op (PL_Key p c))"
| "pg_walk ro t s op (PL_Key p c) =
     deref (pg_cells s) c (\<lambda>n. Next s (At (if ll_key n < op_key op then PWalk op (PL_Unlock p c) else pg_after op p c)))"
| "pg_walk ro t s op (PL_Unlock p c) = pg_unlock s p (At (PWalk op (PL_Lock c)))"

fun pg_insert :: "ptr \<Rightarrow> ('k::linorder, 'v::zero) pugh \<Rightarrow> ('k, 'v) pg_insert_pc \<Rightarrow> ('k, 'v) pg_outcome" where
  "pg_insert x s (PI_Test k v p c) =
     deref (pg_cells s) c (\<lambda>n. Next s (At (PInsert (if ll_key n = k then PI_Unlock p 0 else PI_Read k v p))))"
| "pg_insert x s (PI_Read k v p) = pg_next s p (\<lambda>d. PInsert (PI_Alloc k v p d))"
| "pg_insert x s (PI_Alloc k v p d) =
     alloc (pg_cells s) x (Next (s\<lparr>pg_mem := put_cell x (allocate_ll_locked k v d) (pg_mem s)\<rparr>) (At (PInsert (PI_Link k v p x))))"
| "pg_insert x s (PI_Link k v p n) = pg_set_next s p n (PInsert (PI_Unlock p 1))"
| "pg_insert x s (PI_Unlock p r) = pg_unlock s p (Finished (Ret_Int r))"

fun pg_remove :: "tid \<Rightarrow> ('k::linorder, 'v::zero) pugh \<Rightarrow> ('k, 'v) pg_remove_pc \<Rightarrow> ('k, 'v) pg_outcome" where
  "pg_remove t s (PD_Test k p c) =
     deref (pg_cells s) c (\<lambda>n. Next s (At (PRemove (if ll_key n = k then PD_Lock k p c else PD_Last p 0))))"
| "pg_remove t s (PD_Lock k p c) = pg_lock t s c (PRemove (PD_Val k p c))"
| "pg_remove t s (PD_Val k p c) = deref (pg_cells s) c (\<lambda>n. Next s (At (PRemove (PD_Succ k p c (ll_val n)))))"
| "pg_remove t s (PD_Succ k p c v) = pg_next s c (\<lambda>d. PRemove (PD_Unlink k p c d v))"
| "pg_remove t s (PD_Unlink k p c d v) = pg_set_next s p d (PRemove (PD_Back p c v))"
| "pg_remove t s (PD_Back p c v) = pg_set_next s c p (PRemove (PD_Unlock p c v))"
| "pg_remove t s (PD_Unlock p c v) = pg_unlock s c (At (PRemove (PD_Release p c v)))"
| "pg_remove t s (PD_Release p c v) =
     ll_locked_release (pg_mem s) c (\<lambda>m. Next (s\<lparr>pg_mem := m\<rparr>) (At (PRemove (PD_Last p v))))"
| "pg_remove t s (PD_Last p v) = pg_unlock s p (Finished (Ret_Val v))"

definition pg_length :: "('k, 'v) pugh \<Rightarrow> int option" where
  "pg_length s = ll_length (pg_cells s) (pg_head s)"

definition pg_destroy :: "bool \<Rightarrow> ptr set \<Rightarrow> ('k, 'v) pugh \<Rightarrow> ('k, 'v) ll_locked store option" where
  "pg_destroy gc heap s = ll_destroy_loop (ll_locked_delete gc heap) (pg_mem s) (pg_head s)"

text \<open>The calls considered: keys between those of the sentinels and, if \<open>rm\<close> is False, no \<^verbatim>\<open>remove\<close>.\<close>

fun pg_start :: "bool \<Rightarrow> 'k::linorder \<Rightarrow> 'k \<Rightarrow> ('k, 'v) map_op \<Rightarrow> ('k, 'v) pg_pc option" where
  "pg_start rm kmin kmax (Search k) = (if kmin < k \<and> k < kmax then Some (PSearch (PS_Head k)) else None)"
| "pg_start rm kmin kmax (Insert k v) = (if kmin < k \<and> k < kmax then Some (PWalk (Insert k v) PW_Head) else None)"
| "pg_start rm kmin kmax (Delete k) = (if rm \<and> kmin < k \<and> k < kmax then Some (PWalk (Delete k) PW_Head) else None)"

fun pg_exec :: "bool \<Rightarrow> tid \<Rightarrow> ptr \<Rightarrow> ('k::linorder, 'v::zero) pugh \<Rightarrow> ('k, 'v) pg_pc \<Rightarrow> ('k, 'v) pg_outcome" where
  "pg_exec ro t x s (PSearch z) = pg_search s z"
| "pg_exec ro t x s (PWalk op z) = pg_walk ro t s op z"
| "pg_exec ro t x s (PInsert z) = pg_insert x s z"
| "pg_exec ro t x s (PRemove z) = pg_remove t s z"

lemma pg_next_Next [simp]: "pg_next s p x = Next s' y \<longleftrightarrow> (\<exists>n. pg_cells s p = Some n \<and> s' = s \<and> y = At (x (ll_next n)))"
  by (auto simp: pg_next_def)

lemma pg_next_Fault [simp]: "pg_next s p x = Fault \<longleftrightarrow> pg_cells s p = None"
  by (auto simp: pg_next_def)

section \<open>The nodes of the list, and the others\<close>

text \<open>Outside of the list keys need not grow along the pointers, so the invariant of \<open>List_Steps\<close> is stated for
  the nodes of the list alone.\<close>

definition list_view :: "('k, 'v, 'z) ll_simple_scheme store \<Rightarrow> ptr \<Rightarrow> ('k, 'v, 'z) ll_simple_scheme store" where
  "list_view m head = \<lparr>cells = cells m |` lnodes m head, released = {}\<rparr>"

definition plist :: "'k::linorder \<Rightarrow> 'k \<Rightarrow> ('k, 'v, 'z) ll_simple_scheme store \<Rightarrow> ptr \<Rightarrow> ('k \<rightharpoonup> 'v) \<Rightarrow> bool" where
  "plist kmin kmax m head a \<longleftrightarrow>
     slist kmin kmax (list_view m head) (\<lambda>_. none_owned :: unit ownership) head (ll_live (list_view m head) head) a"

lemma represents_cong:
  assumes "represents kv live a" and "\<And>q. q \<in> live \<Longrightarrow> kv' q = kv q"
  shows "represents kv' live a"
  using assms unfolding represents_def by simp

text \<open>Only the keys, values and pointers of the nodes of the list matter.\<close>

lemma plist_transfer:
  fixes m m' :: "('k::linorder, 'v, 'z) ll_simple_scheme store"
  assumes sl: "slist kmin kmax m w head (ll_live m head) a"
    and same: "\<And>p n. p \<in> lnodes m head \<Longrightarrow> cells m p = Some n \<Longrightarrow>
       \<exists>n'. cells m' p = Some n' \<and> ll_key n' = ll_key n \<and> ll_val n' = ll_val n \<and> ll_next n' = ll_next n"
  shows "plist kmin kmax m' head a" and "lnodes m' head = lnodes m head"
proof -
  from sl obtain ps tail where sl: "sorted_list kmin kmax m w head ps tail (ll_live m head) a" by (auto simp: slist_def)
  have nodes: "lnodes m head = set ps" by (rule sl_nodes_from [OF sl])
  have cell: "\<exists>n n'. cells m p = Some n \<and> cells m' p = Some n' \<and> ll_key n' = ll_key n \<and> ll_val n' = ll_val n \<and> ll_next n' = ll_next n"
    if "p \<in> set ps" for p using path_cells [OF sl_path [OF sl] that] same that nodes by metis
  have p1: "path (cells m') ll_next head ps NULL"
  proof (rule path_cong [OF sl_path [OF sl]])
    fix x assume "x \<in> set ps"
    with cell [OF this] show "map_option ll_next (cells m' x) = map_option ll_next (cells m x)" by auto
  qed
  then show nodes': "lnodes m' head = lnodes m head" unfolding nodes by (rule nodes_from_path)
  let ?v = "list_view m' head"
  have vc: "cells ?v p = (if p \<in> set ps then cells m' p else None)" for p
    by (simp add: list_view_def nodes' nodes)
  have pv: "path (cells ?v) ll_next head ps NULL"
    by (rule path_cong [OF p1]) (simp add: vc)
  have pub: "published ?v (\<lambda>_. none_owned :: unit ownership) p \<longleftrightarrow> p \<in> set ps" for p
    using cell [of p] by (auto simp: published_def vc)
  have kv: "kv_of (cells ?v) p = kv_of (cells m) p" if "p \<in> set ps" for p using cell [OF that] that by (auto simp: kv_of_def vc)
  have live: "ll_live ?v head = ll_live m head"
  proof -
    have "nm_of (cells ?v) p = nm_of (cells m) p" if "p \<in> set ps" for p using cell [OF that] that by (auto simp: nm_of_def vc)
    then show ?thesis using nodes_from_path [OF pv] nodes by (auto simp: ll_live_def)
  qed
  have sub: "ll_live m head \<subseteq> set ps" using sl_live [OF sl] by blast
  have "represents (kv_of (cells ?v)) (ll_live m head) a"
    by (rule represents_cong [OF sl_represents [OF sl]]) (use kv sub in blast)
  moreover have "if ll_next n = NULL then ll_key n = kmax else published ?v (\<lambda>_. none_owned :: unit ownership) (ll_next n) \<and>
      (\<exists>n'. cells ?v (ll_next n) = Some n' \<and> ll_key n < ll_key n')"
    if pn: "published ?v (\<lambda>_. none_owned :: unit ownership) p" "cells ?v p = Some n" for p n
  proof -
    have p: "p \<in> set ps" using pn(1) pub by simp
    then obtain n0 where n0: "cells m p = Some n0" "ll_key n = ll_key n0" "ll_next n = ll_next n0"
      using cell [OF p] pn(2) by (auto simp: vc)
    have ed: "if ll_next n0 = NULL then ll_key n0 = kmax
        else published m w (ll_next n0) \<and> (\<exists>n2. cells m (ll_next n0) = Some n2 \<and> ll_key n0 < ll_key n2)"
      using sl sl_published [OF sl p] n0(1) unfolding sorted_list_def by blast
    show ?thesis
    proof (cases "ll_next n0 = NULL")
      case False
      then have inn: "ll_next n0 \<in> set ps" by (rule sl_next_in [OF sl p n0(1)])
      then show ?thesis using ed False cell [OF inn] n0 pub by (auto simp: vc)
    qed (use ed n0 in simp)
  qed
  moreover have "partition_ok ?v (set ps) (\<lambda>_. none_owned :: unit ownership)"
    by (rule partition_init) (use cell path_cells [OF p1] in \<open>auto simp: vc simp del: split_paired_Ex\<close>, simp add: list_view_def)
  moreover have "\<exists>n. cells ?v head = Some n \<and> ll_key n = kmin"
    using sl_head [OF sl] cell [OF sl_head_in [OF sl]] sl_head_in [OF sl] by (auto simp: vc)
  moreover have "\<exists>n. cells ?v tail = Some n \<and> ll_key n = kmax"
  proof -
    have "tail \<in> set ps" "\<exists>n. cells m tail = Some n \<and> ll_key n = kmax" using sl unfolding sorted_list_def by auto
    then show ?thesis using cell [of tail] by (auto simp: vc)
  qed
  ultimately have "sorted_list kmin kmax ?v (\<lambda>_. none_owned :: unit ownership) head ps tail (ll_live ?v head) a"
    using sl pv sub unfolding sorted_list_def live by blast
  then show "plist kmin kmax m' head a" unfolding plist_def slist_def by blast
qed

lemma plist_view:
  assumes "plist kmin kmax m head a"
  shows "lnodes (list_view m head) head = lnodes m head"
    and "p \<in> lnodes m head \<Longrightarrow> cells (list_view m head) p = cells m p"
    and "p \<notin> lnodes m head \<Longrightarrow> cells (list_view m head) p = None"
proof -
  show v: "p \<in> lnodes m head \<Longrightarrow> cells (list_view m head) p = cells m p"
    and "p \<notin> lnodes m head \<Longrightarrow> cells (list_view m head) p = None" for p
    by (simp_all add: list_view_def)
  note sl = assms [unfolded plist_def]
  have "lnodes (list_view m head) head \<subseteq> lnodes m head"
  proof
    fix x assume "x \<in> lnodes (list_view m head) head"
    then have "cells (list_view m head) x \<noteq> None" using partition_live [OF slist_partition [OF sl]] by blast
    then show "x \<in> lnodes m head" by (auto simp: list_view_def restrict_map_def split: if_splits)
  qed
  then have "\<exists>n'. cells m p = Some n' \<and> ll_key n' = ll_key n \<and> ll_val n' = ll_val n \<and> ll_next n' = ll_next n"
    if "p \<in> lnodes (list_view m head) head" "cells (list_view m head) p = Some n" for p n
    using v(1) [of p] that by (auto dest: sym)
  from plist_transfer(2) [OF sl this] show "lnodes (list_view m head) head = lnodes m head" by simp
qed

lemma plist_keep:
  fixes m m' :: "('k::linorder, 'v, 'z) ll_simple_scheme store"
  assumes pl: "plist kmin kmax m head a"
    and same: "\<And>p n. p \<in> lnodes m head \<Longrightarrow> cells m p = Some n \<Longrightarrow>
       \<exists>n'. cells m' p = Some n' \<and> ll_key n' = ll_key n \<and> ll_val n' = ll_val n \<and> ll_next n' = ll_next n"
  shows "plist kmin kmax m' head a" and "lnodes m' head = lnodes m head"
proof -
  note v = plist_view [OF pl]
  have "\<exists>n'. cells m' p = Some n' \<and> ll_key n' = ll_key n \<and> ll_val n' = ll_val n \<and> ll_next n' = ll_next n"
    if "p \<in> lnodes (list_view m head) head" "cells (list_view m head) p = Some n" for p n
    using same [of p n] that v by simp
  from plist_transfer [OF pl [unfolded plist_def] this] show "plist kmin kmax m' head a" "lnodes m' head = lnodes m head"
    by (simp_all add: v(1))
qed

lemma plist_next:
  assumes pl: "plist kmin kmax m head a" and p: "p \<in> lnodes m head" and n: "cells m p = Some n" and k: "ll_key n < kmax"
  shows "ll_next n \<in> lnodes m head" and "\<exists>n'. cells m (ll_next n) = Some n' \<and> ll_key n < ll_key n'"
proof -
  note v = plist_view [OF pl] and sl = pl [unfolded plist_def]
  have vn: "cells (list_view m head) p = Some n" using v(2) [OF p] n by simp
  show inn: "ll_next n \<in> lnodes m head" using slist_next_in [OF sl _ vn k] p v(1) by simp
  have "published (list_view m head) (\<lambda>_. none_owned :: unit ownership) p" using slist_published [OF sl] p v(1) by simp
  from slist_next(1) [OF sl this vn k] show "\<exists>n'. cells m (ll_next n) = Some n' \<and> ll_key n < ll_key n'"
    using v(2) [OF inn] by (auto simp: list_node_def)
qed

lemma plist_absent:
  assumes pl: "plist kmin kmax m head a" and p: "p \<in> lnodes m head" and n: "cells m p = Some n" and k: "ll_key n < k" "k < kmax"
    and n': "cells m (ll_next n) = Some n'" "k < ll_key n'"
  shows "a k = None"
proof -
  note v = plist_view [OF pl] and sl = pl [unfolded plist_def]
  have "ll_key n < kmax" using k by simp
  from plist_next(1) [OF pl p n this] have "ll_next n \<in> lnodes m head" .
  then show ?thesis using slist_absent_now [OF sl _ _ _ k(1) n'(2), of p] p n n'(1) v by simp
qed

lemma plist_present:
  assumes pl: "plist kmin kmax m head a" and p: "p \<in> lnodes m head" and n: "cells m p = Some n" and k: "kmin < ll_key n" "ll_key n < kmax"
  shows "a (ll_key n) = Some (ll_val n)"
proof -
  note v = plist_view [OF pl] and sl = pl [unfolded plist_def]
  have vn: "cells (list_view m head) p = Some n" using v(2) [OF p] n by simp
  show ?thesis using slist_present_now [OF sl slist_plain_live [OF sl _ vn k] vn] p v(1) by simp
qed

lemma plist_head: "plist kmin kmax m head a \<Longrightarrow> head \<in> lnodes m head \<and> (\<exists>n. cells m head = Some n \<and> ll_key n = kmin)"
  using slist_head slist_head_node plist_view unfolding plist_def list_node_def by metis

lemma plist_link:
  fixes m :: "('k::linorder, 'v::zero, 'z) ll_simple_scheme store"
  assumes pl: "plist kmin kmax m head a" and p: "p \<in> lnodes m head" and n: "cells m p = Some n"
    and x: "cells m x = Some nx" "x \<notin> lnodes m head" "x \<noteq> NULL" "ll_next nx = ll_next n"
    and k: "ll_key n < ll_key nx" "ll_key nx < kmax" and nc: "cells m (ll_next n) = Some nc" "ll_key nx < ll_key nc"
    and n': "ll_key n' = ll_key n" "ll_val n' = ll_val n" "ll_next n' = x"
  shows "plist kmin kmax (put_cell p n' m) head (a(ll_key nx \<mapsto> ll_val nx))"
    and "lnodes (put_cell p n' m) head = insert x (lnodes m head)"
proof -
  note v = plist_view [OF pl] and sl = pl [unfolded plist_def]
  let ?v = "list_view m head" and ?w = "(\<lambda>_. none_owned)(0 := holding {x} {} {}) :: tid \<Rightarrow> unit ownership"
  have kn: "ll_key n < kmax" using k by simp
  note inn = plist_next(1) [OF pl p n kn]
  have px: "p \<noteq> x" "ll_next n \<noteq> x" using p inn x(2) by auto
  have fr: "fresh (cells ?v) x" using x v(3) by (simp add: fresh_def)
  note al = list_alloc [where t = 0 and x = "holding {x} {} {}" and n = nx, OF sl fr]
  let ?v1 = "put_cell x nx ?v"
  have sl1: "slist kmin kmax ?v1 ?w head (ll_live ?v1 head) a" and n1: "lnodes ?v1 head = lnodes m head"
    using al v(1) by simp_all
  have c1: "cells ?v1 p = Some n" "cells ?v1 (ll_next n) = Some nc" "cells ?v1 x = Some nx"
    using v(2) [OF p] v(2) [OF inn] n nc px by simp_all
  have pn: "p \<in> lnodes ?v1 head" using p n1 by simp
  have ln: "slist kmin kmax (put_cell p n' ?v1) (?w(0 := none_owned)) head (insert x (ll_live ?v1 head)) (a(ll_key nx \<mapsto> ll_val nx))"
    "lnodes (put_cell p n' ?v1) head = insert x (lnodes m head)"
    "ll_live (put_cell p n' ?v1) head = insert x (ll_live ?v1 head)"
    using list_link [where t = 0 and x = none_owned and n' = n' and nc = nc, OF sl1 pn c1(1) c1(3) _ x(4) k(1) c1(2) nc(2) n' _ _ refl refl]
    unfolding n1 by simp_all
  have "\<exists>n2. cells (put_cell p n' m) q = Some n2 \<and> ll_key n2 = ll_key nq \<and> ll_val n2 = ll_val nq \<and> ll_next n2 = ll_next nq"
    if "q \<in> lnodes (put_cell p n' ?v1) head" "cells (put_cell p n' ?v1) q = Some nq" for q nq
    using that v(2) [of q] x(1) px unfolding ln(2) by (auto split: if_splits dest: sym)
  from plist_transfer [OF _ this] ln
  show "plist kmin kmax (put_cell p n' m) head (a(ll_key nx \<mapsto> ll_val nx))"
    "lnodes (put_cell p n' m) head = insert x (lnodes m head)" by metis+
qed

lemma plist_unlink:
  fixes m :: "('k::linorder, 'v::zero, 'z) ll_simple_scheme store"
  assumes pl: "plist kmin kmax m head a" and p: "p \<in> lnodes m head" and n: "cells m p = Some n"
    and nc: "cells m (ll_next n) = Some nc" "kmin < ll_key nc" "ll_key nc < kmax" and kp: "ll_key n < kmax"
    and n': "ll_key n' = ll_key n" "ll_val n' = ll_val n" "ll_next n' = ll_next nc"
  shows "plist kmin kmax (put_cell p n' m) head (a(ll_key nc := None))"
    and "lnodes (put_cell p n' m) head = lnodes m head - {ll_next n}"
    and "a (ll_key nc) = Some (ll_val nc)"
proof -
  note v = plist_view [OF pl] and sl = pl [unfolded plist_def]
  let ?v = "list_view m head"
  note inn = plist_next(1) [OF pl p n kp]
  have c1: "cells ?v p = Some n" "cells ?v (ll_next n) = Some nc" using v(2) [OF p] v(2) [OF inn] n nc(1) by simp_all
  have rm: "slist kmin kmax (put_cell p n' ?v) ((\<lambda>_. none_owned :: unit ownership)(0 := holding {} {ll_next n} {})) head
      (ll_live (put_cell p n' ?v) head) (a(ll_key nc := None))"
    "lnodes (put_cell p n' ?v) head = lnodes m head - {ll_next n}"
    using list_remove [where t = 0 and x = "holding {} {ll_next n} {}" and n' = n'
        and m' = "put_cell p n' ?v" and a' = "a(ll_key nc := None)", OF sl _ c1(1) refl c1(2)] p v(1) nc n' by auto
  show "a (ll_key nc) = Some (ll_val nc)" by (rule plist_present [OF pl inn nc])
  have "\<exists>n2. cells (put_cell p n' m) q = Some n2 \<and> ll_key n2 = ll_key nq \<and> ll_val n2 = ll_val nq \<and> ll_next n2 = ll_next nq"
    if "q \<in> lnodes (put_cell p n' ?v) head" "cells (put_cell p n' ?v) q = Some nq" for q nq
    using that v(2) [of q] unfolding rm(2) by (auto split: if_splits dest: sym)
  from plist_transfer [OF rm(1) this] rm(2)
  show "plist kmin kmax (put_cell p n' m) head (a(ll_key nc := None))"
    "lnodes (put_cell p n' m) head = lnodes m head - {ll_next n}" by metis+
qed

lemma plist_path:
  assumes pl: "plist kmin kmax m head a"
  obtains ps tail where "sorted_list kmin kmax (list_view m head) (\<lambda>_. none_owned :: unit ownership) head ps tail
      (ll_live (list_view m head) head) a" and "path (cells m) ll_next head ps NULL" and "lnodes m head = set ps"
proof -
  note v = plist_view [OF pl]
  from pl obtain ps tail where s: "sorted_list kmin kmax (list_view m head) (\<lambda>_. none_owned :: unit ownership) head ps tail
      (ll_live (list_view m head) head) a" by (auto simp: plist_def slist_def)
  have pth: "path (cells m) ll_next head ps NULL"
  proof (rule path_cong [OF sl_path [OF s]])
    fix x assume "x \<in> set ps"
    then show "map_option ll_next (cells m x) = map_option ll_next (cells (list_view m head) x)"
      using sl_nodes_from [OF s] v by simp
  qed
  from that [OF s pth nodes_from_path [OF pth]] show thesis .
qed

lemma plist_destroy:
  assumes pl: "plist kmin kmax m head a" and part: "partition_ok m (lnodes m head) w"
  shows "ll_destroy_loop (ll_locked_delete gc heap) m head = freed_or_undefined gc heap m (lnodes m head)"
proof (rule plist_path [OF pl])
  have eq: "ll_locked_delete gc heap = (ll_simple_delete gc heap :: ('a, 'b) ll_locked store \<Rightarrow> _)"
    by (simp add: ll_locked_delete_def ll_simple_delete_def fun_eq_iff)
  fix ps assume ps: "path (cells m) ll_next head ps NULL" "lnodes m head = set ps"
  have "set ps \<inter> released m = {}" using partition_live [OF part] ps(2) by blast
  from ll_destroy_loop_path [OF ps(1) this] ps(2) show ?thesis by (simp add: eq)
qed

lemma plist_length:
  assumes pl: "plist kmin kmax m head a" and k: "kmin < kmax"
  shows "ll_length (cells m) head = Some (int (card (dom a)))" and "finite (dom a)"
proof -
  note v = plist_view [OF pl] and sl = pl [unfolded plist_def]
  show "finite (dom a)" by (rule slist_finite [OF sl])
  from plist_path [OF pl] obtain ps tail where s: "sorted_list kmin kmax (list_view m head) (\<lambda>_. none_owned :: unit ownership) head ps tail
      (ll_live (list_view m head) head) a" and pth: "path (cells m) ll_next head ps NULL" by (rule plist_path [OF pl])
  have ps: "ps \<noteq> []" "last ps = tail" and ht: "head \<noteq> tail" using s k by (auto simp: sorted_list_def)
  from pth ps(1) obtain rs where rs: "ps = head # rs" by (cases ps) auto
  then have "rs \<noteq> []" "last rs = tail" using ps ht by auto
  then obtain xs where "rs = xs @ [tail]" by (metis append_butlast_last_id)
  with pth rs obtain n where qs: "cells m head = Some n" "path (cells m) ll_next (ll_next n) (xs @ [tail]) NULL"
    "ps = head # xs @ [tail]" by auto
  have "ll_length (cells m) head = Some (int (length xs))"
    using ll_length_loop_path [OF qs(2), of 0] qs(1) by (simp add: ll_length_def)
  moreover have "ll_length (cells (list_view m head)) head = Some (int (length xs))"
  proof -
    obtain nv where "cells (list_view m head) head = Some nv" "path (cells (list_view m head)) ll_next (ll_next nv) (xs @ [tail]) NULL"
      using sl_path [OF s] qs(3) by auto
    then show ?thesis using ll_length_loop_path [of "cells (list_view m head)" "ll_next nv" xs tail 0] by (simp add: ll_length_def)
  qed
  ultimately show "ll_length (cells m) head = Some (int (card (dom a)))" using slist_length [OF sl k] by simp
qed


section \<open>The invariant\<close>

text \<open>A thread claims the nodes it has locked (\<open>Owns\<close>) and, between the unlinking of a node and its
  redirection, the pair of the node and its predecessor (\<open>Mid\<close>).\<close>

datatype pg_claim = Owns ptr | Mid ptr ptr

fun pg_own :: "(('k, 'v) pg_pc, 'v map_ret) control \<Rightarrow> pg_claim ownership" where
  "pg_own (At (PWalk op (PL_Next p))) = holding {} {} {Owns p}"
| "pg_own (At (PWalk op (PL_Key p c))) = holding {} {} {Owns p}"
| "pg_own (At (PWalk op (PL_Unlock p c))) = holding {} {} {Owns p}"
| "pg_own (At (PInsert (PI_Test k v p c))) = holding {} {} {Owns p}"
| "pg_own (At (PInsert (PI_Read k v p))) = holding {} {} {Owns p}"
| "pg_own (At (PInsert (PI_Alloc k v p d))) = holding {} {} {Owns p}"
| "pg_own (At (PInsert (PI_Link k v p x))) = holding {x} {} {Owns p}"
| "pg_own (At (PInsert (PI_Unlock p r))) = holding {} {} {Owns p}"
| "pg_own (At (PRemove (PD_Test k p c))) = holding {} {} {Owns p}"
| "pg_own (At (PRemove (PD_Lock k p c))) = holding {} {} {Owns p}"
| "pg_own (At (PRemove (PD_Val k p c))) = holding {} {} {Owns p, Owns c}"
| "pg_own (At (PRemove (PD_Succ k p c v))) = holding {} {} {Owns p, Owns c}"
| "pg_own (At (PRemove (PD_Unlink k p c d v))) = holding {} {} {Owns p, Owns c}"
| "pg_own (At (PRemove (PD_Back p c v))) = holding {} {c} {Owns p, Owns c, Mid p c}"
| "pg_own (At (PRemove (PD_Unlock p c v))) = holding {} {c} {Owns p, Owns c}"
| "pg_own (At (PRemove (PD_Release p c v))) = holding {} {c} {Owns p}"
| "pg_own (At (PRemove (PD_Last p v))) = holding {} {} {Owns p}"
| "pg_own _ = none_owned"

lemma pg_own_mid: "Mid l p \<in> held (pg_own y) \<Longrightarrow> Owns l \<in> held (pg_own y) \<and> Owns p \<in> held (pg_own y)"
  by (cases y rule: pg_own.cases) simp_all

abbreviation pg_nodes :: "('k, 'v) pugh \<Rightarrow> ptr set" where
  "pg_nodes s \<equiv> lnodes (pg_mem s) (pg_head s)"

definition pg_locked :: "('k, 'v) pugh \<Rightarrow> ptr \<Rightarrow> tid option" where
  "pg_locked s p = Option.bind (pg_cells s p) lk_lock"

lemma pg_locked_Some [simp]: "pg_cells s p = Some n \<Longrightarrow> pg_locked s p = lk_lock n"
  by (simp add: pg_locked_def)

definition pg_back :: "('k::linorder, 'v) pugh \<Rightarrow> (tid \<Rightarrow> pg_claim ownership) \<Rightarrow> ('k, 'v) ll_locked \<Rightarrow> bool" where
  "pg_back s w n \<longleftrightarrow> list_node (pg_mem s) w (ll_next n) (\<lambda>x. x < ll_key n)"

text \<open>The node \<open>p\<close> has been unlinked from behind \<open>l\<close>, and still has the pointer that \<open>l\<close> took over.\<close>

definition pg_mid :: "'k::linorder \<Rightarrow> ('k, 'v) pugh \<Rightarrow> (tid \<Rightarrow> pg_claim ownership) \<Rightarrow> ptr \<Rightarrow> ptr \<Rightarrow> bool" where
  "pg_mid kmax s w l p \<longleftrightarrow> l \<in> pg_nodes s \<and> p \<notin> pg_nodes s \<and>
     (\<exists>nl np. pg_cells s l = Some nl \<and> pg_cells s p = Some np \<and> ll_next np = ll_next nl \<and> ll_key nl < ll_key np)"

definition pg_SI :: "'k::linorder \<Rightarrow> 'k \<Rightarrow> nat \<Rightarrow> ('k, 'v) pugh \<Rightarrow> ('k \<rightharpoonup> 'v) \<Rightarrow> (tid \<Rightarrow> pg_claim ownership) \<Rightarrow> bool" where
  "pg_SI kmin kmax n s a w \<longleftrightarrow> plist kmin kmax (pg_mem s) (pg_head s) a \<and> partition_ok (pg_mem s) (pg_nodes s) w \<and>
     (\<forall>t p. Owns p \<in> held (w t) \<longleftrightarrow> pg_locked s p = Some t) \<and>
     (\<forall>t p. Owns p \<in> held (w t) \<longrightarrow> published (pg_mem s) w p) \<and>
     (\<forall>p n. published (pg_mem s) w p \<longrightarrow> pg_cells s p = Some n \<longrightarrow> p \<notin> pg_nodes s \<longrightarrow>
        pg_back s w n \<or> (\<exists>t l. Mid l p \<in> held (w t))) \<and>
     (\<forall>t l p. Mid l p \<in> held (w t) \<longrightarrow> Owns l \<in> held (w t) \<and> Owns p \<in> held (w t) \<and> pg_mid kmax s w l p)"

lemma pg_SI_mono: "pg_SI kmin kmax n s a w \<Longrightarrow> pg_SI kmin kmax (Suc n) s a w"
  unfolding pg_SI_def by blast

lemma pg_SI_D:
  assumes "pg_SI kmin kmax n s a w"
  shows "plist kmin kmax (pg_mem s) (pg_head s) a" and "partition_ok (pg_mem s) (pg_nodes s) w"
    and "Owns p \<in> held (w t) \<longleftrightarrow> pg_locked s p = Some t" and "Owns p \<in> held (w t) \<Longrightarrow> published (pg_mem s) w p"
    and "published (pg_mem s) w p \<Longrightarrow> pg_cells s p = Some nd \<Longrightarrow> p \<notin> pg_nodes s \<Longrightarrow>
        pg_back s w nd \<or> (\<exists>t l. Mid l p \<in> held (w t))"
    and "Mid l p \<in> held (w t) \<Longrightarrow> Owns l \<in> held (w t) \<and> Owns p \<in> held (w t) \<and> pg_mid kmax s w l p"
  using assms unfolding pg_SI_def by blast+

abbreviation pg_node :: "('k, 'v) pugh \<Rightarrow> (tid \<Rightarrow> pg_claim ownership) \<Rightarrow> ptr \<Rightarrow> ('k \<Rightarrow> bool) \<Rightarrow> bool" where
  "pg_node s w p P \<equiv> list_node (pg_mem s) w p P"

text \<open>What a node that an unlocked walk for \<open>k\<close> has reached says of the key.\<close>

definition pg_seen :: "('k::linorder, 'v::zero) pugh \<Rightarrow> (tid \<Rightarrow> pg_claim ownership) \<Rightarrow> 'k \<Rightarrow> (('k, 'v) map_op, 'v map_ret) ghost \<Rightarrow> ptr \<Rightarrow> bool" where
  "pg_seen s w k g c \<longleftrightarrow> published (pg_mem s) w c \<and> (\<forall>x v. kv_of (pg_cells s) c = Some (x, v) \<longrightarrow>
     (x = k \<longrightarrow> seen_present g v) \<and> (k < x \<longrightarrow> seen_absent g))"

definition pg_points :: "('k, 'v) pugh \<Rightarrow> tid \<Rightarrow> ptr \<Rightarrow> ptr \<Rightarrow> bool" where
  "pg_points s t p c \<longleftrightarrow> pg_locked s p = Some t \<and> nm_of (pg_cells s) p = Some c"

definition pg_val :: "('k, 'v) pugh \<Rightarrow> (tid \<Rightarrow> pg_claim ownership) \<Rightarrow> ptr \<Rightarrow> 'k \<Rightarrow> 'v \<Rightarrow> bool" where
  "pg_val s w c k r \<longleftrightarrow> published (pg_mem s) w c \<and> kv_of (pg_cells s) c = Some (k, r)"

text \<open>The operations that walk: updates, and no \<^verbatim>\<open>remove\<close> in the build with \<open>ro\<close>.\<close>

definition pg_update :: "bool \<Rightarrow> 'k::linorder \<Rightarrow> 'k \<Rightarrow> ('k, 'v) map_op \<Rightarrow> (('k, 'v) map_op, 'v map_ret) ghost \<Rightarrow> bool" where
  "pg_update ro kmin kmax op g \<longleftrightarrow> list_op kmin kmax op g \<and>
     (case op of Search k \<Rightarrow> False | Insert k v \<Rightarrow> True | Delete k \<Rightarrow> \<not> ro)"

fun pg_LI :: "bool \<Rightarrow> 'k::linorder \<Rightarrow> 'k \<Rightarrow> tid \<Rightarrow> ('k, 'v::zero) pugh \<Rightarrow> ('k \<rightharpoonup> 'v) \<Rightarrow> (tid \<Rightarrow> pg_claim ownership) \<Rightarrow>
    (('k, 'v) pg_pc, 'v map_ret) control \<Rightarrow> (('k, 'v) map_op, 'v map_ret) ghost \<Rightarrow> bool" where
  "pg_LI ro kmin kmax t s a w Idle g = (g = Quiet)"
| "pg_LI ro kmin kmax t s a w (Finished r) g = returns g r"
| "pg_LI ro kmin kmax t s a w (At (PSearch (PS_Head k))) g = list_op kmin kmax (Search k) g"
| "pg_LI ro kmin kmax t s a w (At (PSearch (PS_Key k c))) g = (list_op kmin kmax (Search k) g \<and> pg_seen s w k g c)"
| "pg_LI ro kmin kmax t s a w (At (PSearch (PS_Next k c))) g = (list_op kmin kmax (Search k) g \<and> pg_node s w c (\<lambda>x. x < k))"
| "pg_LI ro kmin kmax t s a w (At (PSearch (PS_Test k c))) g =
     (list_op kmin kmax (Search k) g \<and> pg_seen s w k g c \<and> pg_node s w c (\<lambda>x. k \<le> x))"
| "pg_LI ro kmin kmax t s a w (At (PSearch (PS_Val k c))) g = (\<exists>r. pg_val s w c k r \<and> returns g (Ret_Val r))"
| "pg_LI ro kmin kmax t s a w (At (PWalk op PW_Head)) g = pg_update ro kmin kmax op g"
| "pg_LI ro kmin kmax t s a w (At (PWalk op (PW_Key p c))) g =
     (pg_update ro kmin kmax op g \<and> pg_node s w p (\<lambda>x. x < op_key op) \<and> published (pg_mem s) w c)"
| "pg_LI ro kmin kmax t s a w (At (PWalk op (PW_Next c))) g = (pg_update ro kmin kmax op g \<and> pg_node s w c (\<lambda>x. x < op_key op))"
| "pg_LI ro kmin kmax t s a w (At (PWalk op (PC_Next p))) g =
     (pg_update ro kmin kmax op g \<and> ro \<and> pg_node s w p (\<lambda>x. x < op_key op))"
| "pg_LI ro kmin kmax t s a w (At (PWalk op (PC_Test p c))) g =
     (pg_update ro kmin kmax op g \<and> ro \<and> pg_node s w p (\<lambda>x. x < op_key op) \<and> pg_seen s w (op_key op) g c)"
| "pg_LI ro kmin kmax t s a w (At (PWalk op (PL_Lock p))) g = (pg_update ro kmin kmax op g \<and> pg_node s w p (\<lambda>x. x < op_key op))"
| "pg_LI ro kmin kmax t s a w (At (PWalk op (PL_Next p))) g = (pg_update ro kmin kmax op g \<and> pg_node s w p (\<lambda>x. x < op_key op))"
| "pg_LI ro kmin kmax t s a w (At (PWalk op (PL_Key p c))) g =
     (pg_update ro kmin kmax op g \<and> pg_node s w p (\<lambda>x. x < op_key op) \<and> pg_points s t p c \<and> published (pg_mem s) w c)"
| "pg_LI ro kmin kmax t s a w (At (PWalk op (PL_Unlock p c))) g = (pg_update ro kmin kmax op g \<and> pg_node s w c (\<lambda>x. x < op_key op))"
| "pg_LI ro kmin kmax t s a w (At (PInsert (PI_Test k v p c))) g =
     (list_op kmin kmax (Insert k v) g \<and> pg_node s w p (\<lambda>x. x < k) \<and> pg_points s t p c \<and> pg_node s w c (\<lambda>x. k \<le> x))"
| "pg_LI ro kmin kmax t s a w (At (PInsert (PI_Read k v p))) g =
     (\<exists>c. list_op kmin kmax (Insert k v) g \<and> pg_node s w p (\<lambda>x. x < k) \<and> pg_points s t p c \<and> pg_node s w c (\<lambda>x. k < x))"
| "pg_LI ro kmin kmax t s a w (At (PInsert (PI_Alloc k v p c))) g =
     (list_op kmin kmax (Insert k v) g \<and> pg_node s w p (\<lambda>x. x < k) \<and> pg_points s t p c \<and> pg_node s w c (\<lambda>x. k < x))"
| "pg_LI ro kmin kmax t s a w (At (PInsert (PI_Link k v p x))) g =
     (\<exists>c. list_op kmin kmax (Insert k v) g \<and> pg_node s w p (\<lambda>x. x < k) \<and> pg_points s t p c \<and> pg_node s w c (\<lambda>x. k < x) \<and>
        pg_cells s x = Some (allocate_ll_locked k v c))"
| "pg_LI ro kmin kmax t s a w (At (PInsert (PI_Unlock p r))) g = returns g (Ret_Int r)"
| "pg_LI ro kmin kmax t s a w (At (PRemove (PD_Test k p c))) g =
     (list_op kmin kmax (Delete k) g \<and> pg_node s w p (\<lambda>x. x < k) \<and> pg_points s t p c \<and> pg_node s w c (\<lambda>x. k \<le> x))"
| "pg_LI ro kmin kmax t s a w (At (PRemove (PD_Lock k p c))) g =
     (list_op kmin kmax (Delete k) g \<and> pg_node s w p (\<lambda>x. x < k) \<and> pg_points s t p c \<and> pg_node s w c (\<lambda>x. x = k))"
| "pg_LI ro kmin kmax t s a w (At (PRemove (PD_Val k p c))) g =
     (list_op kmin kmax (Delete k) g \<and> pg_node s w p (\<lambda>x. x < k) \<and> pg_points s t p c \<and> pg_node s w c (\<lambda>x. x = k))"
| "pg_LI ro kmin kmax t s a w (At (PRemove (PD_Succ k p c v))) g =
     (list_op kmin kmax (Delete k) g \<and> pg_node s w p (\<lambda>x. x < k) \<and> pg_points s t p c \<and> pg_val s w c k v)"
| "pg_LI ro kmin kmax t s a w (At (PRemove (PD_Unlink k p c d v))) g =
     (list_op kmin kmax (Delete k) g \<and> pg_node s w p (\<lambda>x. x < k) \<and> pg_points s t p c \<and> pg_val s w c k v \<and> pg_points s t c d)"
| "pg_LI ro kmin kmax t s a w (At (PRemove (PD_Back p c v))) g = (p \<noteq> c \<and> returns g (Ret_Val v))"
| "pg_LI ro kmin kmax t s a w (At (PRemove (PD_Unlock p c v))) g = (p \<noteq> c \<and> p \<in> pg_nodes s \<and> returns g (Ret_Val v))"
| "pg_LI ro kmin kmax t s a w (At (PRemove (PD_Release p c v))) g = (p \<in> pg_nodes s \<and> returns g (Ret_Val v))"
| "pg_LI ro kmin kmax t s a w (At (PRemove (PD_Last p v))) g = (p \<in> pg_nodes s \<and> returns g (Ret_Val v))"

section \<open>Interference\<close>

definition pg_effect :: "tid \<Rightarrow> ('k, 'v) pugh \<Rightarrow> (tid \<Rightarrow> pg_claim ownership) \<Rightarrow> ('k, 'v) pugh \<Rightarrow> (tid \<Rightarrow> pg_claim ownership) \<Rightarrow> bool" where
  "pg_effect t s w s' w' \<longleftrightarrow>
     (\<forall>p. published (pg_mem s) w p \<longrightarrow> published (pg_mem s') w' p \<and> kv_of (pg_cells s') p = kv_of (pg_cells s) p) \<and>
     (\<forall>u p. u \<noteq> t \<longrightarrow> p \<in> private_nodes (w u) \<longrightarrow> pg_cells s' p = pg_cells s p) \<and>
     (\<forall>u p. u \<noteq> t \<longrightarrow> pg_locked s p = Some u \<longrightarrow> pg_locked s' p = Some u \<and> nm_of (pg_cells s') p = nm_of (pg_cells s) p) \<and>
     (\<forall>u p. u \<noteq> t \<longrightarrow> Owns p \<in> held (w u) \<longrightarrow> p \<in> pg_nodes s \<longrightarrow> p \<in> pg_nodes s')"

lemma pg_effect_D:
  assumes "pg_effect t s w s' w'"
  shows "published (pg_mem s) w p \<Longrightarrow> published (pg_mem s') w' p"
    and "published (pg_mem s) w p \<Longrightarrow> kv_of (pg_cells s') p = kv_of (pg_cells s) p"
    and "u \<noteq> t \<Longrightarrow> p \<in> private_nodes (w u) \<Longrightarrow> pg_cells s' p = pg_cells s p"
    and "u \<noteq> t \<Longrightarrow> pg_points s u p c \<Longrightarrow> pg_points s' u p c"
    and "pg_node s w p P \<Longrightarrow> pg_node s' w' p P" and "pg_val s w p k r \<Longrightarrow> pg_val s' w' p k r"
    and "u \<noteq> t \<Longrightarrow> Owns p \<in> held (w u) \<Longrightarrow> p \<in> pg_nodes s \<Longrightarrow> p \<in> pg_nodes s'"
proof -
  show e: "published (pg_mem s) w p \<Longrightarrow> published (pg_mem s') w' p"
    "published (pg_mem s) w p \<Longrightarrow> kv_of (pg_cells s') p = kv_of (pg_cells s) p"
    "u \<noteq> t \<Longrightarrow> p \<in> private_nodes (w u) \<Longrightarrow> pg_cells s' p = pg_cells s p"
    "u \<noteq> t \<Longrightarrow> pg_points s u p c \<Longrightarrow> pg_points s' u p c"
    "u \<noteq> t \<Longrightarrow> Owns p \<in> held (w u) \<Longrightarrow> p \<in> pg_nodes s \<Longrightarrow> p \<in> pg_nodes s'" for p u c
    using assms unfolding pg_effect_def pg_points_def by auto
  show "pg_node s w p P \<Longrightarrow> pg_node s' w' p P" using e(1,2) [of p] by (fastforce simp: list_node_def kv_of_def)
  show "pg_val s w p k r \<Longrightarrow> pg_val s' w' p k r" using e(1,2) [of p] by (simp add: pg_val_def)
qed

lemma pg_seen_stable:
  "pg_effect t s w s' w' \<Longrightarrow> pg_seen s w k g c \<Longrightarrow> pg_seen s' w' k (observe map_spec a' g) c"
  using pg_effect_D(1,2) [of t s w s' w' c] seen_present_observe seen_absent_observe unfolding pg_seen_def by auto

lemma pg_stable:
  fixes s :: "('k::linorder, 'v::zero) pugh"
  assumes ef: "pg_effect t s w s' w'" and ut: "u \<noteq> t" and own: "w u = pg_own z" and LI: "pg_LI ro kmin kmax u s a w z g"
  shows "pg_LI ro kmin kmax u s' a' w' z (observe map_spec a' g)"
proof -
  note op = list_op_stable [of kmin kmax _ g a'] and pub = pg_effect_D(1) [OF ef] and node = pg_effect_D(5) [OF ef]
    and val = pg_effect_D(6) [OF ef] and points = pg_effect_D(4) [OF ef ut] and seen = pg_seen_stable [OF ef]
  have up: "pg_update ro kmin kmax op g \<Longrightarrow> pg_update ro kmin kmax op (observe map_spec a' g)" for op
    using op by (simp add: pg_update_def)
  have ret: "returns g r \<Longrightarrow> returns (observe map_spec a' g) r" for r by (rule returns_observe)
  note keep = op up pub node val points seen ret
  show ?thesis
  proof (cases z)
    case (At x)
    show ?thesis
    proof (cases x)
      case (PSearch pc)
      show ?thesis
      proof (cases pc)
        case (PS_Val k c)
        then show ?thesis using LI val ret unfolding At PSearch by fastforce
      qed (use LI keep in \<open>auto simp: At PSearch\<close>)
    next
      case (PWalk op' pc)
      show ?thesis using LI keep unfolding At PWalk by (cases pc) auto
    next
      case (PInsert pc)
      show ?thesis
      proof (cases pc)
        case (PI_Link k v p x)
        then have "pg_cells s' x = pg_cells s x" using own pg_effect_D(3) [OF ef ut] by (simp add: At PInsert)
        moreover from LI obtain c where "list_op kmin kmax (Insert k v) g" "pg_node s w p (\<lambda>x. x < k)" "pg_points s u p c"
          "pg_node s w c (\<lambda>x. k < x)" "pg_cells s x = Some (allocate_ll_locked k v c)" by (auto simp: At PInsert PI_Link)
        ultimately show ?thesis using op node points unfolding At PInsert PI_Link pg_LI.simps by (intro exI [of _ c]) simp
      next
        case (PI_Read k v p)
        then show ?thesis using LI op node points unfolding At PInsert by fastforce
      qed (use LI keep in \<open>auto simp: At PInsert\<close>)
    next
      case (PRemove pc)
      show ?thesis using LI keep own pg_effect_D(7) [OF ef ut] unfolding At PRemove by (cases pc) auto
    qed
  qed (use LI in \<open>auto simp: returns_observe\<close>)
qed


section \<open>Reading a pointer\<close>

lemma pg_read_listed:
  assumes SI: "pg_SI kmin kmax n s a w" and l: "l \<in> pg_nodes s" and nl: "pg_cells s l = Some nl" and k: "ll_key nl < op_key op"
    and op: "list_op kmin kmax op g" and obs: "observed map_spec a g"
  shows "ll_next nl \<in> pg_nodes s" and "pg_seen s w (op_key op) g (ll_next nl)"
proof -
  note si = pg_SI_D [OF SI]
  from op obtain W where g: "g = Open op W" "kmin < op_key op" "op_key op < kmax" by (auto simp: list_op_def)
  have "ll_key nl < kmax" using k g by simp
  from plist_next [OF si(1) l nl this] obtain nc where c: "ll_next nl \<in> pg_nodes s" "pg_cells s (ll_next nl) = Some nc" by blast
  show "ll_next nl \<in> pg_nodes s" by (rule c(1))
  have "seen_present g (ll_val nc)" if "ll_key nc = op_key op"
    using plist_present [OF si(1) c] that g seen_presentI obs by simp
  moreover have "seen_absent g" if "op_key op < ll_key nc"
    using plist_absent [OF si(1) l nl k g(3) c(2) that] g(1) seen_absentI obs by simp
  ultimately show "pg_seen s w (op_key op) g (ll_next nl)"
    using published_live [OF si(2) c(1)] c(2) by (auto simp: pg_seen_def)
qed

text \<open>Whatever node it stands at, a walk reads a node of which \<open>pg_seen\<close> holds: a pointer that leads back is no
  evidence, and the pointer of a node just unlinked is that of its former predecessor.\<close>

lemma pg_read:
  assumes SI: "pg_SI kmin kmax n s a w" and p: "pg_node s w p (\<lambda>x. x < op_key op)" and np: "pg_cells s p = Some np"
    and op: "list_op kmin kmax op g" and obs: "observed map_spec a g"
  shows "pg_seen s w (op_key op) g (ll_next np)"
proof (cases "p \<in> pg_nodes s")
  case True
  then show ?thesis using pg_read_listed(2) [OF SI True np _ op obs] p np by (auto simp: list_node_def)
next
  case False
  note si = pg_SI_D [OF SI]
  have k: "ll_key np < op_key op" using p np by (auto simp: list_node_def)
  from si(5) [OF list_node_published [OF p] np False] show ?thesis
  proof
    assume "pg_back s w np"
    then show ?thesis using k by (auto simp: pg_back_def list_node_def pg_seen_def)
  next
    assume "\<exists>t l. Mid l p \<in> held (w t)"
    then obtain l nl where l: "l \<in> pg_nodes s" "pg_cells s l = Some nl" "ll_next np = ll_next nl" "ll_key nl < ll_key np"
      using si(6) np by (fastforce simp: pg_mid_def)
    have "ll_key nl < op_key op" using l(4) k by simp
    from pg_read_listed(2) [OF SI l(1,2) this op obs] l(3) show ?thesis by simp
  qed
qed

text \<open>A locked node with a pointer that leads ahead is in the list.\<close>

lemma pg_forward:
  assumes SI: "pg_SI kmin kmax n s a w" and p: "Owns p \<in> held (w t)" "\<And>l. Mid l p \<notin> held (w t)" and pt: "pg_points s t p c"
    and k: "pg_node s w p (\<lambda>x. x < k)" "pg_node s w c (\<lambda>x. k \<le> x)"
  shows "p \<in> pg_nodes s"
proof (rule ccontr)
  assume no: "p \<notin> pg_nodes s"
  note si = pg_SI_D [OF SI]
  obtain np where np: "pg_cells s p = Some np" "ll_next np = c" using pt by (auto simp: pg_points_def nm_of_def)
  have "\<not> pg_back s w np" using k np by (auto simp: pg_back_def list_node_def)
  then obtain u l where "Mid l p \<in> held (w u)" using si(5) [OF si(4) [OF p(1)] np(1) no] by blast
  moreover from this have "u = t" using si(6) si(3) [of p u] si(3) [of p t] p(1) by (metis option.inject)
  ultimately show False using p(2) by blast
qed

section \<open>Kinds of steps\<close>

abbreviation pg_ok :: "bool \<Rightarrow> 'k::linorder \<Rightarrow> 'k \<Rightarrow> nat \<Rightarrow> tid \<Rightarrow> ('k, 'v::zero) pugh \<Rightarrow> ('k \<rightharpoonup> 'v) \<Rightarrow> (tid \<Rightarrow> pg_claim ownership) \<Rightarrow>
    (('k, 'v) map_op, 'v map_ret) ghost \<Rightarrow> ('k, 'v) pugh \<Rightarrow> (('k, 'v) pg_pc, 'v map_ret) control \<Rightarrow> bool" where
  "pg_ok ro kmin kmax \<equiv> step_ok map_spec pg_own (pg_SI kmin kmax) (pg_LI ro kmin kmax)"

lemmas pg_local = step_ok_local [where own = pg_own and SI = "pg_SI kmin kmax" and LI = "pg_LI ro kmin kmax" for ro kmin kmax]

lemma pg_step_ok:
  fixes s :: "('k::linorder, 'v::zero) pugh"
  assumes "advance map_spec a g a' g'" and "pg_SI kmin kmax (Suc n) s' a' (w(t := pg_own y))"
    and "pg_effect t s w s' (w(t := pg_own y))" and "pg_LI ro kmin kmax t s' a' (w(t := pg_own y)) y g'"
  shows "pg_ok ro kmin kmax n t s a w g s' y"
  by (rule step_okI [where own = pg_own and SI = "pg_SI kmin kmax" and LI = "pg_LI ro kmin kmax", OF assms(1,2,4)])
    (rule pg_stable [OF assms(3)])

text \<open>Steps that change no key, value or pointer of a published node: of a lock, an allocation, a release.\<close>

lemma pg_keep_step:
  fixes s :: "('k::linorder, 'v::zero) pugh"
  assumes SI: "pg_SI kmin kmax n s a w" and s': "s' = s\<lparr>pg_mem := m'\<rparr>"
    and same: "\<And>q nq. published (pg_mem s) w q \<Longrightarrow> pg_cells s q = Some nq \<Longrightarrow>
       \<exists>n'. cells m' q = Some n' \<and> ll_key n' = ll_key nq \<and> ll_val n' = ll_val nq \<and> ll_next n' = ll_next nq"
    and pub: "\<And>q. published m' (w(t := pg_own y)) q \<longleftrightarrow> published (pg_mem s) w q"
    and part: "partition_ok m' (pg_nodes s) (w(t := pg_own y))"
    and locks: "\<And>u q. Owns q \<in> held ((w(t := pg_own y)) u) \<longleftrightarrow> pg_locked s' q = Some u"
    and powns: "\<And>q. Owns q \<in> held (pg_own y) \<Longrightarrow> published (pg_mem s) w q"
    and mids: "\<And>l q. Mid l q \<in> held (pg_own y) \<longleftrightarrow> Mid l q \<in> held (w t)"
    and priv: "\<And>u q. u \<noteq> t \<Longrightarrow> q \<in> private_nodes (w u) \<Longrightarrow> cells m' q = pg_cells s q"
    and LI': "pg_effect t s w s' (w(t := pg_own y)) \<Longrightarrow>
       (\<And>q. published (pg_mem s) w q \<Longrightarrow> nm_of (pg_cells s') q = nm_of (pg_cells s) q) \<Longrightarrow> pg_nodes s' = pg_nodes s \<Longrightarrow>
       pg_LI ro kmin kmax t s' a (w(t := pg_own y)) y g"
  shows "pg_ok ro kmin kmax n t s a w g s' y"
proof -
  note si = pg_SI_D [OF SI]
  let ?w = "w(t := pg_own y)"
  have m: "pg_mem s' = m'" "pg_head s' = pg_head s" by (simp_all add: s')
  have node: "published (pg_mem s) w q" if "q \<in> pg_nodes s" for q by (rule published_live [OF si(2) that])
  have pl: "plist kmin kmax m' (pg_head s) a" and nodes: "lnodes m' (pg_head s) = pg_nodes s"
    using plist_keep [OF si(1), of m'] same node by blast+
  have kn: "kv_of (cells m') q = kv_of (pg_cells s) q \<and> nm_of (cells m') q = nm_of (pg_cells s) q"
    if "published (pg_mem s) w q" for q
    using same [OF that] published_cell [OF that] by (fastforce simp: kv_of_def nm_of_def)
  have owns: "pg_locked s q = Some u \<Longrightarrow> published (pg_mem s) w q" for q u using si(3,4) by blast
  have ef: "pg_effect t s w s' ?w"
    unfolding pg_effect_def m
  proof (intro conjI allI impI)
    fix u q assume u: "u \<noteq> t"
    show "cells m' q = pg_cells s q" if "q \<in> private_nodes (w u)" using priv [OF u that] .
    show "q \<in> lnodes m' (pg_head s)" if "q \<in> pg_nodes s" using that by (simp only: nodes)
    assume l: "pg_locked s q = Some u"
    then show "pg_locked s' q = Some u" using locks [of q u] si(3) [of q u] u by simp
    show "nm_of (cells m') q = nm_of (pg_cells s) q" using kn owns [OF l] by blast
  qed (use pub kn in blast)+
  have "pg_SI kmin kmax (Suc n) s' a ?w"
    unfolding pg_SI_def m nodes
  proof (intro conjI allI impI)
    show "Owns q \<in> held (?w u) \<longleftrightarrow> pg_locked s' q = Some u" for u q by (rule locks)
    show "published m' ?w q" if "Owns q \<in> held (?w u)" for u q
      using that pub powns si(4) by (cases "u = t") auto
  next
    fix q nq' assume q: "published m' ?w q" "cells m' q = Some nq'" "q \<notin> pg_nodes s"
    then have p: "published (pg_mem s) w q" using pub by simp
    then obtain nq where nq: "pg_cells s q = Some nq" "ll_key nq' = ll_key nq" "ll_next nq' = ll_next nq"
      using published_cell [OF p] same q(2) by fastforce
    have "pg_back s w nq \<Longrightarrow> pg_back s' ?w nq'" unfolding pg_back_def nq(2,3) by (rule pg_effect_D(5) [OF ef])
    moreover have "Mid l q \<in> held (w u) \<Longrightarrow> Mid l q \<in> held (?w u)" for u l using mids by auto
    ultimately show "pg_back s' ?w nq' \<or> (\<exists>u l. Mid l q \<in> held (?w u))" using si(5) [OF p nq(1) q(3)] by blast
  next
    fix u l q assume mid: "Mid l q \<in> held (?w u)"
    then have "Mid l q \<in> held (w u)" using mids by (cases "u = t") auto
    note D = si(6) [OF this]
    show "Owns l \<in> held (?w u)" "Owns q \<in> held (?w u)" using D mid pg_own_mid by (cases "u = t"; auto)+
    have "published (pg_mem s) w l" "published (pg_mem s) w q" using D si(4) by blast+
    then show "pg_mid kmax s' ?w l q"
      using D same unfolding pg_mid_def m nodes by metis
  qed (use pl part in auto)
  then show ?thesis using pg_step_ok [OF advance_stay _ ef LI' [OF ef]] kn m nodes by simp
qed

lemma pg_lock_step:
  fixes s :: "('k::linorder, 'v::zero) pugh"
  assumes SI: "pg_SI kmin kmax n s a w" and nd: "pg_cells s p = Some nd" and p: "published (pg_mem s) w p"
    and s': "s' = s\<lparr>pg_mem := put_cell p (nd\<lparr>lk_lock := l\<rparr>) (pg_mem s)\<rparr>"
    and x: "private_nodes (pg_own y) = private_nodes (w t)" "retired_nodes (pg_own y) = retired_nodes (w t)"
      "\<And>q. Owns q \<in> held (pg_own y) \<longleftrightarrow> (if q = p then l = Some t else Owns q \<in> held (w t))"
      "\<And>l q. Mid l q \<in> held (pg_own y) \<longleftrightarrow> Mid l q \<in> held (w t)"
    and l: "lk_lock nd = None \<and> l = Some t \<or> lk_lock nd = Some t \<and> l = None"
    and LI': "pg_effect t s w s' (w(t := pg_own y)) \<Longrightarrow>
       (\<And>q c. pg_points s t q c \<Longrightarrow> q \<noteq> p \<Longrightarrow> pg_points s' t q c) \<Longrightarrow> pg_nodes s' = pg_nodes s \<Longrightarrow> pg_LI ro kmin kmax t s' a (w(t := pg_own y)) y g"
  shows "pg_ok ro kmin kmax n t s a w g s' y"
proof -
  note si = pg_SI_D [OF SI]
  have own: "owned (pg_own y) = owned (w t)" using x(1,2) by (simp add: owned_def)
  have pn: "p \<notin> private_nodes (w u)" for u using p by (simp add: published_def)
  have lock: "pg_locked s' q = (if q = p then l else pg_locked s q)" for q by (simp add: pg_locked_def s')
  show ?thesis
  proof (rule pg_keep_step [OF SI s'])
    show "\<exists>n'. cells (put_cell p (nd\<lparr>lk_lock := l\<rparr>) (pg_mem s)) q = Some n' \<and> ll_key n' = ll_key nq \<and> ll_val n' = ll_val nq \<and> ll_next n' = ll_next nq"
      if "pg_cells s q = Some nq" for q nq using that nd by auto
    show "published (put_cell p (nd\<lparr>lk_lock := l\<rparr>) (pg_mem s)) (w(t := pg_own y)) q \<longleftrightarrow> published (pg_mem s) w q" for q
      using x(1) p by (auto simp: published_def)
    show "partition_ok (put_cell p (nd\<lparr>lk_lock := l\<rparr>) (pg_mem s)) (pg_nodes s) (w(t := pg_own y))"
      using partition_write [OF partition_keep [OF si(2)]] own nd by simp
    show "Owns q \<in> held ((w(t := pg_own y)) u) \<longleftrightarrow> pg_locked s' q = Some u" for u q
      using si(3) [of q u] x(3) [of q] l nd by (auto simp: lock)
    show "published (pg_mem s) w q" if "Owns q \<in> held (pg_own y)" for q using that x(3) si(4) p by (auto split: if_splits)
    show "pg_LI ro kmin kmax t s' a (w(t := pg_own y)) y g" if "pg_effect t s w s' (w(t := pg_own y))"
      "\<And>q. published (pg_mem s) w q \<Longrightarrow> nm_of (pg_cells s') q = nm_of (pg_cells s) q" "pg_nodes s' = pg_nodes s"
    proof (rule LI' [OF that(1) _ that(3)])
      show "pg_points s' t q c" if "pg_points s t q c" "q \<noteq> p" for q c
        using that lock \<open>\<And>q. published (pg_mem s) w q \<Longrightarrow> nm_of (pg_cells s') q = nm_of (pg_cells s) q\<close> si(3,4)
        by (simp add: pg_points_def)
    qed
  qed (use x(4) pn in auto)
qed

lemma pg_acquire_step:
  fixes s :: "('k::linorder, 'v::zero) pugh"
  assumes SI: "pg_SI kmin kmax n s a w" and p: "published (pg_mem s) w p" and ex: "pg_lock t s p x = Next s' y"
    and own: "private_nodes (w t) = {}" "retired_nodes (w t) = {}" "pg_own (At x) = holding {} {} (insert (Owns p) (held (w t)))"
    and LI': "\<And>s'. pg_effect t s w s' (w(t := pg_own (At x))) \<Longrightarrow> (\<And>q c. pg_points s t q c \<Longrightarrow> pg_points s' t q c) \<Longrightarrow>
       pg_LI ro kmin kmax t s' a (w(t := pg_own (At x))) (At x) g"
  shows "pg_ok ro kmin kmax n t s a w g s' y"
proof -
  from ex obtain nd where nd: "pg_cells s p = Some nd" "lk_lock nd = None" and y: "y = At x"
    and s': "s' = s\<lparr>pg_mem := put_cell p (nd\<lparr>lk_lock := Some t\<rparr>) (pg_mem s)\<rparr>"
    by (auto simp: pg_lock_def split: if_splits)
  have free: "pg_locked s p \<noteq> Some t" using nd by simp
  show ?thesis
    by (rule pg_lock_step [OF SI nd(1) p s']) (use own nd(2) LI' [of s'] free in \<open>auto simp: y pg_points_def\<close>)
qed

lemma pg_release_step:
  fixes s :: "('k::linorder, 'v::zero) pugh"
  assumes SI: "pg_SI kmin kmax n s a w" and mine: "Owns p \<in> held (w t)" and ex: "pg_unlock s p z = Next s' y"
    and own: "private_nodes (w t) = {}" "pg_own z = holding {} (retired_nodes (w t)) (held (w t) - {Owns p})"
    and LI': "\<And>s'. pg_effect t s w s' (w(t := pg_own z)) \<Longrightarrow> pg_nodes s' = pg_nodes s \<Longrightarrow> pg_LI ro kmin kmax t s' a (w(t := pg_own z)) z g"
  shows "pg_ok ro kmin kmax n t s a w g s' y"
proof -
  note si = pg_SI_D [OF SI]
  from ex obtain nd where nd: "pg_cells s p = Some nd" and y: "y = z"
    and s': "s' = s\<lparr>pg_mem := put_cell p (nd\<lparr>lk_lock := None\<rparr>) (pg_mem s)\<rparr>" by (auto simp: pg_unlock_def)
  have "lk_lock nd = Some t" using si(3) [of p t] mine nd by simp
  then show ?thesis
    by (intro pg_lock_step [OF SI nd si(4) [OF mine] s']) (use own LI' y in auto)
qed


text \<open>A thread writes the pointer of a node it has locked: what this leaves alone.\<close>

lemma pg_write:
  fixes s :: "('k::linorder, 'v::zero) pugh"
  assumes SI: "pg_SI kmin kmax n s a w" and p: "Owns p \<in> held (w t)" and np: "pg_cells s p = Some np"
    and s': "s' = s\<lparr>pg_mem := put_cell p (np\<lparr>ll_next := q\<rparr>) (pg_mem s)\<rparr>"
    and x: "private_nodes (pg_own y) \<subseteq> private_nodes (w t)" "\<And>c. Owns c \<in> held (pg_own y) \<longleftrightarrow> Owns c \<in> held (w t)"
  shows "pg_locked s' c = pg_locked s c" and "kv_of (pg_cells s') = kv_of (pg_cells s)"
    and "published (pg_mem s') (w(t := pg_own y)) c \<longleftrightarrow> published (pg_mem s) w c \<or> c \<in> private_nodes (w t) - private_nodes (pg_own y)"
    and "Owns c \<in> held ((w(t := pg_own y)) u) \<longleftrightarrow> pg_locked s' c = Some u"
    and "Owns c \<in> held ((w(t := pg_own y)) u) \<Longrightarrow> published (pg_mem s') (w(t := pg_own y)) c"
    and "(\<And>u c. u \<noteq> t \<Longrightarrow> Owns c \<in> held (w u) \<Longrightarrow> c \<in> pg_nodes s \<Longrightarrow> c \<in> pg_nodes s') \<Longrightarrow> pg_effect t s w s' (w(t := pg_own y))"
    and "u \<noteq> t \<Longrightarrow> Mid l c \<in> held (w u) \<Longrightarrow> l \<noteq> p \<and> c \<noteq> p"
proof -
  note si = pg_SI_D [OF SI]
  show lock: "pg_locked s' c = pg_locked s c" for c using np by (auto simp: pg_locked_def s')
  show kv: "kv_of (pg_cells s') = kv_of (pg_cells s)" using np by (auto simp: s' kv_of_upd fun_eq_iff)
  have pp: "published (pg_mem s) w p" by (rule si(4) [OF p])
  have ex: "c \<in> private_nodes (w t) \<Longrightarrow> pg_cells s c \<noteq> None \<and> (\<forall>u. u \<noteq> t \<longrightarrow> c \<notin> private_nodes (w u))" for c
    using partition_owned [OF si(2)] by blast
  show pub: "published (pg_mem s') (w(t := pg_own y)) c \<longleftrightarrow> published (pg_mem s) w c \<or> c \<in> private_nodes (w t) - private_nodes (pg_own y)" for c
    using x(1) pp ex [of c] np by (auto simp: published_def s')
  show own: "Owns c \<in> held ((w(t := pg_own y)) u) \<longleftrightarrow> pg_locked s' c = Some u" for c u
    using si(3) [of c u] x(2) [of c] lock by auto
  then show "published (pg_mem s') (w(t := pg_own y)) c" if "Owns c \<in> held ((w(t := pg_own y)) u)"
    using that si(3) [of c u] si(4) [of c u] pub lock by simp
  have other: "pg_locked s p \<noteq> Some u" if "u \<noteq> t" for u using p si(3) [of p t] that by simp
  then show "l \<noteq> p \<and> c \<noteq> p" if "u \<noteq> t" "Mid l c \<in> held (w u)" using si(6) [OF that(2)] si(3) that(1) by metis
  assume nodes: "\<And>u c. u \<noteq> t \<Longrightarrow> Owns c \<in> held (w u) \<Longrightarrow> c \<in> pg_nodes s \<Longrightarrow> c \<in> pg_nodes s'"
  show "pg_effect t s w s' (w(t := pg_own y))"
    unfolding pg_effect_def
  proof (intro conjI allI impI)
    show "pg_cells s' c = pg_cells s c" if "u \<noteq> t" "c \<in> private_nodes (w u)" for u c
      using that pp by (auto simp: published_def s')
    show "nm_of (pg_cells s') c = nm_of (pg_cells s) c" if "u \<noteq> t" "pg_locked s c = Some u" for u c
      using that other by (auto simp: s' nm_of_upd)
    show "c \<in> pg_nodes s'" if "u \<noteq> t" "Owns c \<in> held (w u)" "c \<in> pg_nodes s" for u c using nodes that .
  qed (use pub kv lock in auto)
qed

lemma pg_link_step:
  fixes s :: "('k::linorder, 'v::zero) pugh"
  assumes SI: "pg_SI kmin kmax n s a w" and LI: "pg_LI ro kmin kmax t s a w (At (PInsert (PI_Link k v p x))) g"
    and own: "w t = pg_own (At (PInsert (PI_Link k v p x)))" and ex: "pg_insert z s (PI_Link k v p x) = Next s' y"
  shows "pg_ok ro kmin kmax n t s a w g s' y"
proof -
  note si = pg_SI_D [OF SI]
  have ow: "w t = holding {x} {} {Owns p}" using own by simp
  from LI obtain c where op: "list_op kmin kmax (Insert k v) g" and p: "pg_node s w p (\<lambda>x. x < k)" and pt: "pg_points s t p c"
    and c: "pg_node s w c (\<lambda>x. k < x)" and x: "pg_cells s x = Some (allocate_ll_locked k v c)" by auto
  from ex obtain np where np: "pg_cells s p = Some np" and s': "s' = s\<lparr>pg_mem := put_cell p (np\<lparr>ll_next := x\<rparr>) (pg_mem s)\<rparr>"
    and y: "y = At (PInsert (PI_Unlock p 1))" by (auto simp: pg_set_next_def)
  let ?w = "w(t := pg_own y)" and ?a = "a(k \<mapsto> v)"
  note wr = pg_write [OF SI _ np s', of t y]
  from op obtain W where g: "g = Open (Insert k v) W" "kmin < k" "k < kmax" by (auto simp: list_op_def)
  have inn: "p \<in> pg_nodes s" by (rule pg_forward [OF SI _ _ pt p]) (use ow c in \<open>auto simp: list_node_def\<close>)
  have nc: "ll_next np = c" using pt np by (simp add: pg_points_def)
  obtain ndc where ndc: "pg_cells s c = Some ndc" "k < ll_key ndc" using c by (auto simp: list_node_def)
  have kp: "ll_key np < k" using p np by (auto simp: list_node_def)
  have xo: "x \<in> owned (w t)" using ow by simp
  have xn: "x \<notin> pg_nodes s" "x \<noteq> NULL" using partition_owned [OF si(2) xo] by blast+
  have px: "p \<noteq> x" using inn xn by blast
  have ak: "a k = None" using plist_absent [OF si(1) inn np kp g(3)] nc ndc by simp
  note pl = plist_link [OF si(1) inn np x xn, of ndc "np\<lparr>ll_next := x\<rparr>"]
  have pl': "plist kmin kmax (pg_mem s') (pg_head s') ?a" and nodes: "pg_nodes s' = insert x (pg_nodes s)"
    using pl nc kp g ndc by (simp_all add: s' allocate_ll_locked_def)
  have part: "partition_ok (pg_mem s') (pg_nodes s') ?w"
    using partition_write [OF partition_publish [OF si(2) xo, of "pg_own y"], of p] np ow unfolding nodes by (simp add: s' y)
  have pub: "published (pg_mem s') ?w q \<longleftrightarrow> published (pg_mem s) w q \<or> q = x" for q using wr(3) [of q] ow by (simp add: y)
  have ef: "pg_effect t s w s' ?w" by (rule wr(6)) (use ow nodes in \<open>simp_all add: y\<close>)
  have "pg_SI kmin kmax (Suc n) s' ?a ?w"
    unfolding pg_SI_def
  proof (intro conjI allI impI)
    show "Owns q \<in> held (?w u) \<longleftrightarrow> pg_locked s' q = Some u" for u q using wr(4) ow by (simp add: y)
    show "published (pg_mem s') ?w q" if "Owns q \<in> held (?w u)" for u q using wr(5) that ow by (simp add: y)
  next
    fix q nq assume q: "published (pg_mem s') ?w q" "pg_cells s' q = Some nq" "q \<notin> pg_nodes s'"
    then have "published (pg_mem s) w q" "q \<noteq> p" "q \<notin> pg_nodes s" using pub nodes inn by auto
    moreover from this have "pg_cells s q = Some nq" using q(2) by (simp add: s')
    ultimately have "pg_back s w nq \<or> (\<exists>u l. Mid l q \<in> held (w u))" using si(5) by blast
    moreover have "pg_back s w nq \<Longrightarrow> pg_back s' ?w nq" unfolding pg_back_def by (rule pg_effect_D(5) [OF ef])
    moreover have "Mid l q \<in> held (w u) \<Longrightarrow> Mid l q \<in> held (?w u)" for u l using ow by auto
    ultimately show "pg_back s' ?w nq \<or> (\<exists>u l. Mid l q \<in> held (?w u))" by blast
  next
    fix u l q assume mid: "Mid l q \<in> held (?w u)"
    then have ut: "u \<noteq> t" and m: "Mid l q \<in> held (w u)" by (auto simp: y split: if_splits)
    note D = si(6) [OF m]
    show "Owns l \<in> held (?w u)" "Owns q \<in> held (?w u)" using D ut by auto
    have "l \<noteq> p" "q \<noteq> p" using wr(7) [OF _ _ _ ut m] ow by (simp_all add: y)
    moreover have "x \<in> private_nodes (w t)" using ow by simp
    then have "q \<noteq> x" using D si(4) unfolding published_def by blast
    ultimately show "pg_mid kmax s' ?w l q" using D unfolding pg_mid_def nodes by (auto simp: s')
  qed (use pl' part in auto)
  moreover have "advance map_spec a g ?a (Closed (Ret_Int 1))" unfolding g(1) by (rule advance_lin) (simp add: ak)
  ultimately show ?thesis using pg_step_ok [OF _ _ ef, where ro = ro] by (simp add: y)
qed

lemma pg_unlink_step:
  fixes s :: "('k::linorder, 'v::zero) pugh"
  assumes SI: "pg_SI kmin kmax n s a w" and LI: "pg_LI ro kmin kmax t s a w (At (PRemove (PD_Unlink k p c d v))) g"
    and own: "w t = pg_own (At (PRemove (PD_Unlink k p c d v)))" and ex: "pg_remove t s (PD_Unlink k p c d v) = Next s' y"
  shows "pg_ok ro kmin kmax n t s a w g s' y"
proof -
  note si = pg_SI_D [OF SI]
  have ow: "w t = holding {} {} {Owns p, Owns c}" using own by simp
  from LI have op: "list_op kmin kmax (Delete k) g" and p: "pg_node s w p (\<lambda>x. x < k)" and pt: "pg_points s t p c" "pg_points s t c d"
    and val: "pg_val s w c k v" by auto
  from ex obtain np where np: "pg_cells s p = Some np" and s': "s' = s\<lparr>pg_mem := put_cell p (np\<lparr>ll_next := d\<rparr>) (pg_mem s)\<rparr>"
    and y: "y = At (PRemove (PD_Back p c v))" by (auto simp: pg_set_next_def)
  let ?w = "w(t := pg_own y)" and ?a = "a(k := None)"
  note wr = pg_write [OF SI _ np s', of t y]
  from op obtain W where g: "g = Open (Delete k) W" "kmin < k" "k < kmax" by (auto simp: list_op_def)
  obtain nc where nc: "pg_cells s c = Some nc" "ll_key nc = k" "ll_val nc = v" "ll_next nc = d" "ll_next np = c"
    using val pt np by (auto simp: pg_val_def pg_points_def kv_of_def)
  have cn: "pg_node s w c (\<lambda>x. k \<le> x)" using val nc by (auto simp: list_node_def pg_val_def)
  have inn: "p \<in> pg_nodes s" by (rule pg_forward [OF SI _ _ pt(1) p cn]) (use ow in auto)
  have kp: "ll_key np < k" using p np by (auto simp: list_node_def)
  then have pc: "p \<noteq> c" "ll_key np < kmax" using nc np g by auto
  have cin: "c \<in> pg_nodes s" using plist_next(1) [OF si(1) inn np pc(2)] nc by simp
  note pl = plist_unlink [OF si(1) inn np, of nc "np\<lparr>ll_next := d\<rparr>"]
  have pl': "plist kmin kmax (pg_mem s') (pg_head s') ?a" and nodes: "pg_nodes s' = pg_nodes s - {c}" and ak: "a k = Some v"
    using pl nc g pc by (simp_all add: s')
  have part: "partition_ok (pg_mem s') (pg_nodes s') ?w"
    using partition_write [OF partition_retire [OF si(2) cin, of "pg_own y" t], of p] np ow unfolding nodes by (simp add: s' y)
  have pub: "published (pg_mem s') ?w q \<longleftrightarrow> published (pg_mem s) w q" for q using wr(3) [of q] ow by (simp add: y)
  have "c \<noteq> q" if "u \<noteq> t" "Owns q \<in> held (w u)" for u q
    using that si(3) [of c u] si(3) [of c t] ow by auto
  then have ef: "pg_effect t s w s' ?w" by (intro wr(6)) (use ow nodes in \<open>auto simp: y\<close>)
  have "pg_SI kmin kmax (Suc n) s' ?a ?w"
    unfolding pg_SI_def
  proof (intro conjI allI impI)
    show "Owns q \<in> held (?w u) \<longleftrightarrow> pg_locked s' q = Some u" for u q using wr(4) ow by (simp add: y)
    show "published (pg_mem s') ?w q" if "Owns q \<in> held (?w u)" for u q using wr(5) that ow by (simp add: y)
  next
    fix q nq assume q: "published (pg_mem s') ?w q" "pg_cells s' q = Some nq" "q \<notin> pg_nodes s'"
    show "pg_back s' ?w nq \<or> (\<exists>u l. Mid l q \<in> held (?w u))"
    proof (cases "q = c")
      case True
      then have "Mid p q \<in> held (?w t)" by (simp add: y)
      then show ?thesis by blast
    next
      case False
      then have no: "published (pg_mem s) w q" "q \<noteq> p" "q \<notin> pg_nodes s" using q pub nodes inn pc by auto
      moreover from this have "pg_cells s q = Some nq" using q(2) by (simp add: s')
      ultimately have "pg_back s w nq \<or> (\<exists>u l. Mid l q \<in> held (w u))" using si(5) by blast
      moreover have "pg_back s w nq \<Longrightarrow> pg_back s' ?w nq" unfolding pg_back_def by (rule pg_effect_D(5) [OF ef])
      moreover have "Mid l q \<in> held (w u) \<Longrightarrow> Mid l q \<in> held (?w u)" for u l using ow by auto
      ultimately show ?thesis by blast
    qed
  next
    fix u l q assume mid: "Mid l q \<in> held (?w u)"
    show "Owns l \<in> held (?w u)" "Owns q \<in> held (?w u)" using mid si(6) [of l q u] by (auto simp: y split: if_splits)
    show "pg_mid kmax s' ?w l q"
    proof (cases "u = t")
      case True
      then have "l = p" "q = c" using mid by (auto simp: y)
      then show ?thesis using inn pc kp nc unfolding pg_mid_def nodes by (auto simp: s')
    next
      case False
      then have m: "Mid l q \<in> held (w u)" using mid by simp
      note D = si(6) [OF m]
      have "l \<noteq> p" "q \<noteq> p" using wr(7) [OF _ _ _ False m] ow by (simp_all add: y)
      moreover have "l \<noteq> c" using D si(3) [of c u] si(3) [of c t] ow False by auto
      ultimately show ?thesis using D unfolding pg_mid_def nodes by (auto simp: s')
    qed
  qed (use pl' part in auto)
  moreover have "advance map_spec a g ?a (Closed (Ret_Val v))" unfolding g(1) by (rule advance_lin) (simp add: ak)
  ultimately show ?thesis using pg_step_ok [OF _ _ ef, where ro = ro] pc by (simp add: y)
qed

lemma pg_back_step:
  fixes s :: "('k::linorder, 'v::zero) pugh"
  assumes SI: "pg_SI kmin kmax n s a w" and LI: "pg_LI ro kmin kmax t s a w (At (PRemove (PD_Back p c v))) g"
    and own: "w t = pg_own (At (PRemove (PD_Back p c v)))" and ex: "pg_remove t s (PD_Back p c v) = Next s' y"
  shows "pg_ok ro kmin kmax n t s a w g s' y"
proof -
  note si = pg_SI_D [OF SI]
  have ow: "w t = holding {} {c} {Owns p, Owns c, Mid p c}" using own by simp
  from ex obtain nc where nc: "pg_cells s c = Some nc" and s': "s' = s\<lparr>pg_mem := put_cell c (nc\<lparr>ll_next := p\<rparr>) (pg_mem s)\<rparr>"
    and y: "y = At (PRemove (PD_Unlock p c v))" by (auto simp: pg_set_next_def)
  let ?w = "w(t := pg_own y)"
  note wr = pg_write [OF SI _ nc s', of t y]
  have "Mid p c \<in> held (w t)" using ow by simp
  from si(6) [OF this] have inn: "p \<in> pg_nodes s" "c \<notin> pg_nodes s" and lt: "pg_node s w p (\<lambda>x. x < ll_key nc)"
    using nc published_live [OF si(2)] by (auto simp: pg_mid_def list_node_def)
  have "\<exists>n'. cells (pg_mem s') q = Some n' \<and> ll_key n' = ll_key nq \<and> ll_val n' = ll_val nq \<and> ll_next n' = ll_next nq"
    if "q \<in> pg_nodes s" "pg_cells s q = Some nq" for q nq
    using that inn by (auto simp: s')
  from plist_keep [OF si(1) this] have pl': "plist kmin kmax (pg_mem s') (pg_head s') a" and nodes: "pg_nodes s' = pg_nodes s"
    by (simp_all add: s')
  have part: "partition_ok (pg_mem s') (pg_nodes s') ?w"
    using partition_write [OF partition_keep [OF si(2), of "pg_own y" t], of c] nc ow unfolding nodes by (simp add: s' y)
  have pub: "published (pg_mem s') ?w q \<longleftrightarrow> published (pg_mem s) w q" for q using wr(3) [of q] ow by (simp add: y)
  have ef: "pg_effect t s w s' ?w" by (rule wr(6)) (use ow nodes in \<open>simp_all add: y\<close>)
  have "pg_SI kmin kmax (Suc n) s' a ?w"
    unfolding pg_SI_def
  proof (intro conjI allI impI)
    show "Owns q \<in> held (?w u) \<longleftrightarrow> pg_locked s' q = Some u" for u q using wr(4) ow by (simp add: y)
    show "published (pg_mem s') ?w q" if "Owns q \<in> held (?w u)" for u q using wr(5) that ow by (simp add: y)
  next
    fix q nq assume q: "published (pg_mem s') ?w q" "pg_cells s' q = Some nq" "q \<notin> pg_nodes s'"
    have bk: "pg_back s w m \<Longrightarrow> pg_back s' ?w m" for m unfolding pg_back_def by (rule pg_effect_D(5) [OF ef])
    show "pg_back s' ?w nq \<or> (\<exists>u l. Mid l q \<in> held (?w u))"
    proof (cases "q = c")
      case True
      then have "nq = nc\<lparr>ll_next := p\<rparr>" using q(2) by (simp add: s')
      then show ?thesis using pg_effect_D(5) [OF ef lt] by (simp add: pg_back_def)
    next
      case False
      then have "pg_cells s q = Some nq" using q(2) by (simp add: s')
      then have "pg_back s w nq \<or> (\<exists>u l. Mid l q \<in> held (w u))" using si(5) q pub nodes by blast
      moreover have "Mid l q \<in> held (w u) \<Longrightarrow> Mid l q \<in> held (?w u)" for u l using ow False by auto
      ultimately show ?thesis using bk by blast
    qed
  next
    fix u l q assume mid: "Mid l q \<in> held (?w u)"
    then have ut: "u \<noteq> t" and m: "Mid l q \<in> held (w u)" by (auto simp: y split: if_splits)
    note D = si(6) [OF m]
    show "Owns l \<in> held (?w u)" "Owns q \<in> held (?w u)" using D ut by auto
    have "l \<noteq> c" "q \<noteq> c" using wr(7) [OF _ _ _ ut m] ow by (simp_all add: y)
    then show "pg_mid kmax s' ?w l q" using D unfolding pg_mid_def nodes by (auto simp: s')
  qed (use pl' part in auto)
  then show ?thesis using pg_step_ok [OF advance_stay _ ef, where ro = ro] LI inn nodes by (simp add: y)
qed


section \<open>The steps\<close>

lemma pg_head_node: "pg_SI kmin kmax n s a w \<Longrightarrow> pg_node s w (pg_head s) (\<lambda>x. x = kmin)"
  using plist_head [OF pg_SI_D(1)] published_live [OF pg_SI_D(2)] unfolding list_node_def by metis

lemma pg_head_below:
  "pg_SI kmin kmax n s a w \<Longrightarrow> list_op kmin kmax op g \<Longrightarrow> pg_node s w (pg_head s) (\<lambda>x. x < op_key op)"
  using pg_head_node [of kmin kmax n s a w] by (auto simp: list_node_def list_op_def)

lemma pg_search_step:
  fixes s :: "('k::linorder, 'v::zero) pugh"
  assumes SI: "pg_SI kmin kmax n s a w" and LI: "pg_LI ro kmin kmax t s a w (At (PSearch x)) g" and obs: "observed map_spec a g"
    and own: "w t = pg_own (At (PSearch x))" and ex: "pg_search s x = Next s' y"
  shows "pg_ok ro kmin kmax n t s a w g s' y"
proof -
  note loc = pg_local [OF pg_SI_mono [OF SI]]
  show ?thesis
  proof (cases x)
    case (PS_Head k)
    with ex obtain nh where nh: "pg_cells s (pg_head s) = Some nh" "s' = s" "y = At (PSearch (PS_Key k (ll_next nh)))" by auto
    from LI PS_Head have op: "list_op kmin kmax (Search k) g" by simp
    have "pg_node s w (pg_head s) (\<lambda>x. x < op_key (Search k :: ('k, 'v) map_op))" using pg_head_below [OF SI op] .
    from pg_read [OF SI this nh(1) op obs] show ?thesis using nh op own PS_Head by (auto intro!: loc)
  next
    case (PS_Key k c)
    with ex obtain nc where "pg_cells s c = Some nc" "s' = s"
      "y = At (PSearch (if ll_key nc < k then PS_Next k c else PS_Test k c))" by auto
    then show ?thesis using LI own PS_Key by (auto simp: list_node_def pg_seen_def intro!: loc)
  next
    case (PS_Next k c)
    with ex obtain nc where nc: "pg_cells s c = Some nc" "s' = s" "y = At (PSearch (PS_Key k (ll_next nc)))" by auto
    from LI PS_Next have op: "list_op kmin kmax (Search k) g" and c: "pg_node s w c (\<lambda>x. x < op_key (Search k :: ('k, 'v) map_op))" by simp_all
    from pg_read [OF SI c nc(1) op obs] show ?thesis using nc op own PS_Next by (auto intro!: loc)
  next
    case (PS_Test k c)
    with ex obtain nc where nc: "pg_cells s c = Some nc" "s' = s"
      "y = (if ll_key nc = k then At (PSearch (PS_Val k c)) else Finished (Ret_Val 0))" by auto
    from LI PS_Test obtain W where g: "g = Open (Search k) W" and sn: "pg_seen s w k g c" "pg_node s w c (\<lambda>x. k \<le> x)"
      by (auto simp: list_op_def)
    show ?thesis
    proof (cases "ll_key nc = k")
      case True
      then have "seen_present g (ll_val nc)" using sn(1) nc(1) by (simp add: pg_seen_def)
      then have "pg_val s w c k (ll_val nc) \<and> returns g (Ret_Val (ll_val nc))"
        using sn(2) nc(1) True g by (auto simp: pg_val_def list_node_def)
      then show ?thesis using nc True own PS_Test by (auto intro!: loc)
    next
      case False
      then have "seen_absent g" using sn nc(1) by (auto simp: pg_seen_def list_node_def)
      then show ?thesis using nc False own PS_Test g by (auto intro!: loc)
    qed
  next
    case (PS_Val k c)
    with ex obtain nc where "pg_cells s c = Some nc" "s' = s" "y = Finished (Ret_Val (ll_val nc))" by auto
    then show ?thesis using LI own PS_Val by (auto simp: pg_val_def kv_of_def intro!: loc)
  qed
qed

lemma pg_walk_step:
  fixes s :: "('k::linorder, 'v::zero) pugh"
  assumes SI: "pg_SI kmin kmax n s a w" and LI: "pg_LI ro kmin kmax t s a w (At (PWalk op x)) g" and obs: "observed map_spec a g"
    and own: "w t = pg_own (At (PWalk op x))" and ex: "pg_walk ro t s op x = Next s' y"
  shows "pg_ok ro kmin kmax n t s a w g s' y"
proof -
  note loc = pg_local [OF pg_SI_mono [OF SI]]
  note si = pg_SI_D [OF SI]
  have op: "list_op kmin kmax op g" and up: "pg_update ro kmin kmax op g"
    using LI by (cases x; simp add: pg_update_def)+
  from op obtain W where g: "g = Open op W" by (auto simp: list_op_def)
  show ?thesis
  proof (cases x)
    case PW_Head
    with ex obtain nh where nh: "pg_cells s (pg_head s) = Some nh" "s' = s" "y = At (PWalk op (PW_Key (pg_head s) (ll_next nh)))" by auto
    note h = pg_head_below [OF SI op]
    from pg_read [OF SI h nh(1) op obs] h show ?thesis using nh up own PW_Head by (auto simp: pg_seen_def intro!: loc)
  next
    case (PW_Key p c)
    with ex obtain nc where "pg_cells s c = Some nc" "s' = s"
      "y = At (PWalk op (if ll_key nc < op_key op then PW_Next c else if ro then PC_Next p else PL_Lock p))" by auto
    then show ?thesis using LI own PW_Key by (auto simp: list_node_def intro!: loc)
  next
    case (PW_Next c)
    with ex obtain nc where nc: "pg_cells s c = Some nc" "s' = s" "y = At (PWalk op (PW_Key c (ll_next nc)))" by auto
    from LI PW_Next have c: "pg_node s w c (\<lambda>x. x < op_key op)" by simp
    from pg_read [OF SI c nc(1) op obs] c show ?thesis using nc up own PW_Next by (auto simp: pg_seen_def intro!: loc)
  next
    case (PC_Next p)
    with ex obtain np where np: "pg_cells s p = Some np" "s' = s" "y = At (PWalk op (PC_Test p (ll_next np)))" by auto
    from LI PC_Next have p: "pg_node s w p (\<lambda>x. x < op_key op)" and ro by simp_all
    from pg_read [OF SI p np(1) op obs] p show ?thesis using np up own PC_Next \<open>ro\<close> by (auto intro!: loc)
  next
    case (PC_Test p c)
    with ex obtain nc where nc: "pg_cells s c = Some nc" "s' = s"
      "y = (case pg_fail op (ll_key nc = op_key op) of Some r \<Rightarrow> Finished r | None \<Rightarrow> At (PWalk op (PL_Lock p)))" by auto
    from LI PC_Test have p: "pg_node s w p (\<lambda>x. x < op_key op)" and ro and sn: "pg_seen s w (op_key op) g c" by simp_all
    then obtain k v where kv: "op = Insert k v" using up by (cases op) (auto simp: pg_update_def)
    show ?thesis
    proof (cases "ll_key nc = k")
      case True
      then have "seen_present g (ll_val nc)" using sn nc(1) kv by (simp add: pg_seen_def)
      then show ?thesis using nc True own PC_Test g kv by (auto intro!: loc)
    next
      case False
      then show ?thesis using nc p up own PC_Test kv by (auto intro!: loc)
    qed
  next
    case (PL_Lock p)
    have ex': "pg_lock t s p (PWalk op (PL_Next p)) = Next s' y" using ex PL_Lock by simp
    from LI PL_Lock have p: "pg_node s w p (\<lambda>x. x < op_key op)" by simp
    show ?thesis
      by (rule pg_acquire_step [OF SI list_node_published [OF p] ex']) (use own up p PL_Lock pg_effect_D(5) in \<open>auto\<close>)
  next
    case (PL_Next p)
    with ex obtain np where np: "pg_cells s p = Some np" "s' = s" "y = At (PWalk op (PL_Key p (ll_next np)))" by auto
    from LI PL_Next have p: "pg_node s w p (\<lambda>x. x < op_key op)" by simp
    have "pg_points s t p (ll_next np)" using si(3) [of p t] own PL_Next np(1) by (simp add: pg_points_def)
    with pg_read [OF SI p np(1) op obs] p show ?thesis using np up own PL_Next by (auto simp: pg_seen_def intro!: loc)
  next
    case (PL_Key p c)
    with ex obtain nc where nc: "pg_cells s c = Some nc" "s' = s"
      "y = At (if ll_key nc < op_key op then PWalk op (PL_Unlock p c) else pg_after op p c)" by auto
    from LI PL_Key have p: "pg_node s w p (\<lambda>x. x < op_key op)" "pg_points s t p c" "published (pg_mem s) w c" by simp_all
    show ?thesis
    proof (cases "ll_key nc < op_key op")
      case True
      then show ?thesis using nc p up own PL_Key by (auto simp: list_node_def intro!: loc)
    next
      case False
      then have "pg_node s w c (\<lambda>x. op_key op \<le> x)" using p(3) nc(1) by (simp add: list_node_def)
      then show ?thesis using nc p up op own PL_Key False by (cases op) (auto simp: pg_update_def intro!: loc)
    qed
  next
    case (PL_Unlock p c)
    have ex': "pg_unlock s p (At (PWalk op (PL_Lock c))) = Next s' y" using ex PL_Unlock by simp
    from LI PL_Unlock have c: "pg_node s w c (\<lambda>x. x < op_key op)" by simp
    show ?thesis by (rule pg_release_step [OF SI _ ex']) (use own up c PL_Unlock pg_effect_D(5) in auto)
  qed
qed

lemma pg_insert_step:
  fixes s :: "('k::linorder, 'v::zero) pugh"
  assumes SI: "pg_SI kmin kmax n s a w" and LI: "pg_LI ro kmin kmax t s a w (At (PInsert x)) g" and obs: "observed map_spec a g"
    and own: "w t = pg_own (At (PInsert x))" and ex: "pg_insert z s x = Next s' y"
  shows "pg_ok ro kmin kmax n t s a w g s' y"
proof -
  note loc = pg_local [OF pg_SI_mono [OF SI]]
  note si = pg_SI_D [OF SI]
  show ?thesis
  proof (cases x)
    case (PI_Test k v p c)
    with ex obtain nc where nc: "pg_cells s c = Some nc" "s' = s"
      "y = At (PInsert (if ll_key nc = k then PI_Unlock p 0 else PI_Read k v p))" by auto
    from LI PI_Test have op: "list_op kmin kmax (Insert k v) g" and p: "pg_node s w p (\<lambda>x. x < k)" and pt: "pg_points s t p c"
      and c: "pg_node s w c (\<lambda>x. k \<le> x)" by simp_all
    from op obtain W where g: "g = Open (Insert k v) W" by (auto simp: list_op_def)
    show ?thesis
    proof (cases "ll_key nc = k")
      case True
      obtain np where np: "pg_cells s p = Some np" "ll_next np = c" using pt by (auto simp: pg_points_def nm_of_def)
      have "pg_seen s w (op_key (Insert k v)) g c" using pg_read [OF SI _ np(1) op obs] p np(2) by simp
      then have "returns g (Ret_Int 0)" using True nc(1) g by (simp add: pg_seen_def)
      then show ?thesis using nc True own PI_Test by (auto intro!: loc)
    next
      case False
      then have "pg_node s w c (\<lambda>x. k < x)" using c nc(1) by (auto simp: list_node_def)
      then show ?thesis using nc False own PI_Test op p pt by (auto intro!: loc)
    qed
  next
    case (PI_Read k v p)
    with ex obtain np where np: "pg_cells s p = Some np" "s' = s" "y = At (PInsert (PI_Alloc k v p (ll_next np)))" by auto
    then show ?thesis using LI own PI_Read by (auto simp: pg_points_def intro!: loc)
  next
    case (PI_Alloc k v p c)
    with ex have fr: "fresh (pg_cells s) z" and y: "y = At (PInsert (PI_Link k v p z))"
      and s': "s' = s\<lparr>pg_mem := put_cell z (allocate_ll_locked k v c) (pg_mem s)\<rparr>" by (auto simp: alloc_def split: if_splits)
    have ow: "w t = holding {} {} {Owns p}" using own PI_Alloc by simp
    have zn: "pg_cells s z = None" using fr by (simp add: fresh_def)
    have zp: "z \<notin> private_nodes (w u)" for u using partition_fresh [OF si(2) fr, of u] by blast
    have priv: "private_nodes ((w(t := pg_own y)) u) = (if u = t then {z} else private_nodes (w u))" and ptn: "private_nodes (w t) = {}" for u
      using ow by (simp_all add: y)
    have lock: "pg_locked s' q = pg_locked s q" for q using zn by (auto simp: pg_locked_def s' allocate_ll_locked_def)
    show ?thesis
    proof (rule pg_keep_step [OF SI s'])
      show "published (put_cell z (allocate_ll_locked k v c) (pg_mem s)) (w(t := pg_own y)) q \<longleftrightarrow> published (pg_mem s) w q" for q
        unfolding published_def priv using zn zp ptn by (auto split: if_splits) (metis empty_iff)
      show "partition_ok (put_cell z (allocate_ll_locked k v c) (pg_mem s)) (pg_nodes s) (w(t := pg_own y))"
        by (rule partition_allocate [OF si(2) fr]) (use ow in \<open>simp add: y\<close>)
      show "Owns q \<in> held ((w(t := pg_own y)) u) \<longleftrightarrow> pg_locked s' q = Some u" for u q
        using si(3) [of q u] ow lock by (auto simp: y)
      show "published (pg_mem s) w q" if "Owns q \<in> held (pg_own y)" for q using that si(4) [of q t] ow by (simp add: y)
      assume ef: "pg_effect t s w s' (w(t := pg_own y))"
        and nm: "\<And>q. published (pg_mem s) w q \<Longrightarrow> nm_of (pg_cells s') q = nm_of (pg_cells s) q"
      have "pg_points s t p c" using LI PI_Alloc by simp
      then have "pg_points s' t p c" using nm [OF si(4) [of p t]] ow lock by (simp add: pg_points_def)
      then show "pg_LI ro kmin kmax t s' a (w(t := pg_own y)) y g"
        using LI PI_Alloc pg_effect_D(5) [OF ef] by (auto simp: y s' intro!: exI [of _ c])
    qed (use zn zp ow in \<open>auto simp: published_def y\<close>)
  next
    case (PI_Link k v p nw)
    then show ?thesis using pg_link_step [OF SI] LI own ex by blast
  next
    case (PI_Unlock p r)
    have ex': "pg_unlock s p (Finished (Ret_Int r)) = Next s' y" using ex PI_Unlock by simp
    show ?thesis by (rule pg_release_step [OF SI _ ex']) (use LI own PI_Unlock in auto)
  qed
qed

lemma pg_remove_step:
  fixes s :: "('k::linorder, 'v::zero) pugh"
  assumes SI: "pg_SI kmin kmax n s a w" and LI: "pg_LI ro kmin kmax t s a w (At (PRemove x)) g" and obs: "observed map_spec a g"
    and own: "w t = pg_own (At (PRemove x))" and ex: "pg_remove t s x = Next s' y"
  shows "pg_ok ro kmin kmax n t s a w g s' y"
proof -
  note loc = pg_local [OF pg_SI_mono [OF SI]]
  note si = pg_SI_D [OF SI]
  show ?thesis
  proof (cases x)
    case (PD_Test k p c)
    with ex obtain nc where nc: "pg_cells s c = Some nc" "s' = s"
      "y = At (PRemove (if ll_key nc = k then PD_Lock k p c else PD_Last p 0))" by auto
    from LI PD_Test have op: "list_op kmin kmax (Delete k) g" and p: "pg_node s w p (\<lambda>x. x < k)" and pt: "pg_points s t p c"
      and c: "pg_node s w c (\<lambda>x. k \<le> x)" by simp_all
    from op obtain W where g: "g = Open (Delete k) W" by (auto simp: list_op_def)
    show ?thesis
    proof (cases "ll_key nc = k")
      case True
      then have "pg_node s w c (\<lambda>x. x = k)" using c nc(1) by (auto simp: list_node_def)
      then show ?thesis using nc True own PD_Test op p pt by (auto intro!: loc)
    next
      case False
      obtain np where np: "pg_cells s p = Some np" "ll_next np = c" using pt by (auto simp: pg_points_def nm_of_def)
      have "pg_seen s w (op_key (Delete k)) g c" using pg_read [OF SI _ np(1) op obs] p np(2) by simp
      then have "returns g (Ret_Val 0)" using False nc(1) c g by (auto simp: pg_seen_def list_node_def)
      moreover have "p \<in> pg_nodes s" by (rule pg_forward [OF SI _ _ pt p c]) (use own PD_Test in auto)
      ultimately show ?thesis using nc False own PD_Test by (auto intro!: loc)
    qed
  next
    case (PD_Lock k p c)
    have ex': "pg_lock t s c (PRemove (PD_Val k p c)) = Next s' y" using ex PD_Lock by simp
    from LI PD_Lock have c: "pg_node s w c (\<lambda>x. x = k)" by simp
    show ?thesis
      by (rule pg_acquire_step [OF SI list_node_published [OF c] ex']) (use LI own PD_Lock pg_effect_D(5) in \<open>auto simp: insert_commute\<close>)
  next
    case (PD_Val k p c)
    with ex obtain nc where "pg_cells s c = Some nc" "s' = s" "y = At (PRemove (PD_Succ k p c (ll_val nc)))" by auto
    then show ?thesis using LI own PD_Val by (auto simp: pg_val_def list_node_def intro!: loc)
  next
    case (PD_Succ k p c v)
    with ex obtain nc where nc: "pg_cells s c = Some nc" "s' = s" "y = At (PRemove (PD_Unlink k p c (ll_next nc) v))" by auto
    then show ?thesis using LI own PD_Succ si(3) [of c t] by (auto simp: pg_points_def intro!: loc)
  next
    case (PD_Unlink k p c d v)
    then show ?thesis using pg_unlink_step [OF SI] LI own ex by blast
  next
    case (PD_Back p c v)
    then show ?thesis using pg_back_step [OF SI] LI own ex by blast
  next
    case (PD_Unlock p c v)
    have ex': "pg_unlock s c (At (PRemove (PD_Release p c v))) = Next s' y" using ex PD_Unlock by simp
    show ?thesis by (rule pg_release_step [OF SI _ ex']) (use LI own PD_Unlock in auto)
  next
    case (PD_Release p c v)
    then have ow: "w t = holding {} {c} {Owns p}" using own by simp
    from ex PD_Release have y: "y = At (PRemove (PD_Last p v))"
      and s': "s' = s\<lparr>pg_mem := (pg_mem s)\<lparr>released := insert c (released (pg_mem s))\<rparr>\<rparr>" by (auto simp: ll_locked_release_def)
    have priv: "private_nodes ((w(t := pg_own y)) u) = private_nodes (w u)" for u using ow by (simp add: y)
    have lock: "pg_locked s' q = pg_locked s q" for q by (simp add: pg_locked_def s')
    show ?thesis
    proof (rule pg_keep_step [OF SI s'])
      show "published ((pg_mem s)\<lparr>released := insert c (released (pg_mem s))\<rparr>) (w(t := pg_own y)) q \<longleftrightarrow> published (pg_mem s) w q" for q
        unfolding published_def priv by simp
      show "partition_ok ((pg_mem s)\<lparr>released := insert c (released (pg_mem s))\<rparr>) (pg_nodes s) (w(t := pg_own y))"
        by (rule partition_release [OF si(2)]) (use ow in \<open>simp_all add: y\<close>)
      show "Owns q \<in> held ((w(t := pg_own y)) u) \<longleftrightarrow> pg_locked s' q = Some u" for u q
        using si(3) [of q u] ow lock by (auto simp: y)
      show "published (pg_mem s) w q" if "Owns q \<in> held (pg_own y)" for q using that si(4) [of q t] ow by (simp add: y)
    qed (use ow LI PD_Release in \<open>auto simp: y\<close>)
  next
    case (PD_Last p v)
    have ex': "pg_unlock s p (Finished (Ret_Val v)) = Next s' y" using ex PD_Last by simp
    show ?thesis by (rule pg_release_step [OF SI _ ex']) (use LI own PD_Last in auto)
  qed
qed

lemma pg_safe:
  fixes s :: "('k::linorder, 'v::zero) pugh"
  assumes SI: "pg_SI kmin kmax n s a w" and LI: "pg_LI ro kmin kmax t s a w (At x) g" and own: "w t = pg_own (At x)"
  shows "pg_exec ro t z s x \<noteq> Fault"
proof -
  note si = pg_SI_D [OF SI]
  have owns: "\<exists>n. pg_cells s q = Some n" if "Owns q \<in> held (w t)" for q using published_cell [OF si(4) [OF that]] .
  have pub: "\<exists>n. pg_cells s q = Some n" if "published (pg_mem s) w q" for q using published_cell [OF that] .
  have head: "\<exists>n. pg_cells s (pg_head s) = Some n" using pub [OF list_node_published [OF pg_head_node [OF SI]]] .
  show ?thesis
  proof (cases x)
    case (PSearch y)
    then show ?thesis using LI head pub by (cases y) (auto simp: list_node_def pg_seen_def pg_val_def split: if_splits)
  next
    case (PWalk op y)
    then show ?thesis using LI own head pub owns
      by (cases y) (auto simp: list_node_def pg_seen_def pg_lock_def pg_unlock_def split: if_splits option.splits)
  next
    case (PInsert y)
    then show ?thesis using LI own pub owns
      by (cases y) (auto simp: list_node_def pg_set_next_def pg_unlock_def alloc_def split: if_splits)
  next
    case (PRemove y)
    have "c \<in> owned (w t) \<Longrightarrow> pg_cells s c \<noteq> None \<and> c \<notin> released (pg_mem s)" for c using partition_owned [OF si(2)] by blast
    then show ?thesis using PRemove LI own pub owns
      by (cases y) (auto simp: list_node_def pg_val_def pg_set_next_def pg_lock_def pg_unlock_def ll_locked_release_def split: if_splits)
  qed
qed

lemma pg_call:
  assumes "pg_start rm kmin kmax op = Some x"
  shows "pg_own (At x) = pg_own Idle"
    and "\<not> (ro \<and> rm) \<Longrightarrow> pg_LI ro kmin kmax t s a w (At x) (Open op (legal map_spec op a))"
  using assms by (cases op; auto simp: list_op_def pg_update_def split: if_splits)+

lemma pg_SI_init:
  assumes "h \<noteq> NULL" "t \<noteq> NULL" "h \<noteq> t" "kmin < kmax"
  shows "pg_SI kmin kmax 0 (pg_init kmin kmax h t :: ('k::linorder, 'v::zero) pugh) Map.empty (\<lambda>_. pg_own Idle)"
proof -
  let ?s = "pg_init kmin kmax h t :: ('k, 'v) pugh"
  have c: "cells (pg_mem ?s) = [h \<mapsto> initialize_ll_locked kmin 0 t, t \<mapsto> initialize_ll_locked kmax 0 NULL]"
    using assms(3) by (auto simp: pg_init_def empty_store_def fun_eq_iff)
  note si = slist_init [OF assms(1-3) c, of kmin kmax]
  have sl: "slist kmin kmax (pg_mem ?s) (\<lambda>_. none_owned :: pg_claim ownership) h {} Map.empty" "ll_live (pg_mem ?s) h = {}"
    using si assms(4) by (simp_all add: pg_init_def initialize_ll_locked_def)
  have pl: "plist kmin kmax (pg_mem ?s) h Map.empty"
    by (rule plist_transfer(1) [where m = "pg_mem ?s" and w = "\<lambda>_. none_owned :: pg_claim ownership"]) (use sl in auto)
  have nodes: "pg_nodes ?s = {h, t}"
    using nodes_from_path [of "cells (pg_mem ?s)" ll_next h "[h, t]"] assms by (simp add: c pg_init_def initialize_ll_locked_def)
  have part: "partition_ok (pg_mem ?s) {h, t} (\<lambda>_. none_owned)"
    by (rule partition_init) (use assms c in \<open>auto simp: pg_init_def\<close>)
  have "pg_locked ?s p = None" for p by (simp add: pg_locked_def c initialize_ll_locked_def)
  moreover have "pg_head ?s = h" by (simp add: pg_init_def)
  ultimately show ?thesis
    unfolding pg_SI_def nodes using pl part assms
    by (auto simp: published_def c pg_init_def split: if_splits)
qed

interpretation pugh_list: thread_object map_spec Map.empty "pg_start (\<not> ro) kmin kmax" "pg_exec ro" "pg_init kmin kmax h t"
  pg_own "list_run_ok kmin kmax h t" "pg_SI kmin kmax" "pg_LI ro kmin kmax" for ro and kmin kmax :: "'k::linorder" and h t
proof unfold_locales
  fix n s a w u x g p s' y
  assume "list_run_ok kmin kmax h t (Suc n)" and "pg_SI kmin kmax n s a w" and "pg_LI ro kmin kmax u s a w (At x) g"
    and "observed map_spec a g" and "w u = pg_own (At x)" and "pg_exec ro u p s x = Next s' y"
  then show "step_ok map_spec pg_own (pg_SI kmin kmax) (pg_LI ro kmin kmax) n u s a w g s' y"
    by (cases x) (auto intro: pg_search_step pg_walk_step pg_insert_step pg_remove_step)
qed (auto simp: list_run_ok_def intro: pg_SI_init [simplified] pg_SI_mono dest: pg_call pg_safe)


section \<open>A concrete run\<close>

text \<open>Thread 0 inserts 3 and 5; thread 1 starts to remove 5 and stands at 3 when thread 0 removes 3; it then locks 3,
  is led back to the head, and removes 5 from there.\<close>

definition pg_demo :: "(int, int) map_op command list" where
  "pg_demo = [Do_Call 0 (Insert 3 30)] @ steps_of 0 7 @ [Do_Step 0 3] @ steps_of 0 2 @ [Do_Return 0]
     @ [Do_Call 0 (Insert 5 50)] @ steps_of 0 9 @ [Do_Step 0 4] @ steps_of 0 2 @ [Do_Return 0]
     @ [Do_Call 1 (Delete 5)] @ steps_of 1 4 @ [Do_Call 0 (Delete 3)] @ steps_of 0 14 @ [Do_Return 0] @ steps_of 1 16 @ [Do_Return 1]"

definition pg_demo_history :: "((int, int) map_op, int map_ret) history" where
  "pg_demo_history = [(0, Call (Insert 3 30)), (0, Return (Ret_Int 1)), (0, Call (Insert 5 50)), (0, Return (Ret_Int 1)),
     (1, Call (Delete 5)), (0, Call (Delete 3)), (0, Return (Ret_Val 30)), (1, Return (Ret_Val 50))]"

text \<open>The same with \<open>ro\<close>, where thread 1 does not lock but reads the pointer that leads back.\<close>

definition pg_bug :: "(int, int) map_op command list" where
  "pg_bug = [Do_Call 0 (Insert 3 30)] @ steps_of 0 9 @ [Do_Step 0 3] @ steps_of 0 2 @ [Do_Return 0]
     @ [Do_Call 0 (Insert 5 50)] @ steps_of 0 11 @ [Do_Step 0 4] @ steps_of 0 2 @ [Do_Return 0]
     @ [Do_Call 1 (Delete 5)] @ steps_of 1 4 @ [Do_Call 0 (Delete 3)] @ steps_of 0 16 @ [Do_Return 0] @ steps_of 1 2 @ [Do_Return 1]"

definition pg_bug_history :: "((int, int) map_op, int map_ret) history" where
  "pg_bug_history = [(0, Call (Insert 3 30)), (0, Return (Ret_Int 1)), (0, Call (Insert 5 50)), (0, Return (Ret_Int 1)),
     (1, Call (Delete 5)), (0, Call (Delete 3)), (0, Return (Ret_Val 30)), (1, Return (Ret_Val 0))]"


lemma pg_demo_run:
  "\<exists>s c. run (pg_start True 0 10) (pg_exec False) (pg_init 0 10 1 2) (length pg_demo) pg_demo_history (s, c)
     \<and> pg_length s = Some 0"
  unfolding pg_demo_history_def
  by (rule replay_exhibits)
    (simp add: pg_demo_def pg_init_def pg_lock_def pg_unlock_def pg_next_def pg_set_next_def pg_length_def ll_locked_defs
      ll_length_def ll_length_loop.simps fresh_def alloc_def put_cell_def empty_store_def release_def replicate_binary)

lemma pg_bug_run:
  "\<exists>s c. run (pg_start True 0 10) (pg_exec True) (pg_init 0 10 1 2) (length pg_bug) pg_bug_history (s, c)
     \<and> pg_length s = Some 1"
  unfolding pg_bug_history_def
  by (rule replay_exhibits)
    (simp add: pg_bug_def pg_init_def pg_lock_def pg_unlock_def pg_next_def pg_set_next_def pg_length_def ll_locked_defs
      ll_length_def ll_length_loop.simps fresh_def alloc_def put_cell_def empty_store_def release_def replicate_binary)

lemma pg_bug_not_linearizable: "\<not> linearizable map_spec Map.empty pg_bug_history"
  by (rule explore_not_linearizable [of _ "[0, 1]"])
    (simp_all add: pg_bug_history_def lins.simps List.map_filter_def fun_upd_def)

section \<open>Properties\<close>

text \<open>C34: every concurrent run of Pugh's list on keys strictly between those of the sentinels is linearizable with
  respect to the map specification, in the build without \<^verbatim>\<open>RO_FAIL\<close> and, as long as nothing is removed, in the
  default build with it; in the reached state \<^verbatim>\<open>length()\<close> is the number of keys of the abstract map, no lock has
  two holders, the node that a thread unlocks last, after it has released another one, is linked, not released
  and locked by this thread, and no thread is about to access an address without a node.\<close>

theorem pugh_list_correct:
  assumes "run (pg_start (\<not> ro) kmin kmax) (pg_exec ro) (pg_init kmin kmax h t) n hist (s, c)" and "list_run_ok kmin kmax h t n"
  shows "linearizable map_spec Map.empty hist
    \<and> (\<exists>a. linearizes_to map_spec Map.empty hist a \<and> pg_length s = Some (int (card (dom a))))
    \<and> (\<forall>u v p. Owns p \<in> held (pg_own (c u)) \<longrightarrow> Owns p \<in> held (pg_own (c v)) \<longrightarrow> u = v)
    \<and> (\<forall>u p v. c u = At (PRemove (PD_Last p v)) \<longrightarrow> p \<in> pg_nodes s \<and> p \<notin> released (pg_mem s) \<and> pg_locked s p = Some u)
    \<and> (\<forall>u p x. c u = At x \<longrightarrow> pg_exec ro u p s x \<noteq> Fault)"
proof -
  from pugh_list.reachable_SI [OF assms] obtain a where a: "linearizes_to map_spec Map.empty hist a"
    and SI: "pg_SI kmin kmax n s a (pg_own \<circ> c)" by blast
  from pugh_list.reachable_LI [OF assms] obtain b gs where LI: "\<And>u. pg_LI ro kmin kmax u s b (pg_own \<circ> c) (c u) (gs u)" by blast
  note si = pg_SI_D [OF SI]
  have "pg_length s = Some (int (card (dom a)))"
    using plist_length(1) [OF si(1)] assms(2) by (simp add: pg_length_def list_run_ok_def)
  moreover have "p \<in> pg_nodes s \<and> p \<notin> released (pg_mem s) \<and> pg_locked s p = Some u" if "c u = At (PRemove (PD_Last p v))" for u p v
    using LI [of u] that partition_live [OF si(2), of p] si(3) [of p u] by simp
  moreover have "u = v" if "Owns p \<in> held (pg_own (c u))" "Owns p \<in> held (pg_own (c v))" for u v p
    using si(3) [of p u] si(3) [of p v] that by simp
  ultimately show ?thesis
    using a pugh_list.linearizable [OF assms] pugh_list.no_fault [OF assms] by blast
qed

theorem pugh_list_correct_witness: "linearizable map_spec Map.empty pg_demo_history"
proof -
  have "list_run_ok (0::int) 10 1 2 (length pg_demo)" by (simp add: list_run_ok_def pg_demo_def)
  with pg_demo_run show ?thesis using pugh_list_correct [where ro = False] by simp blast
qed

text \<open>C35: in the default build, with \<^verbatim>\<open>RO_FAIL\<close>, there is a run in which \<^verbatim>\<open>remove(5)\<close> answers that 5 is absent while
  5 is in the list from before its call to the end: \<^verbatim>\<open>search_strong_cond\<close> reads the pointer of a node that has
  been removed meanwhile and leads back. The history is not linearizable.\<close>

theorem pugh_ro_fail_remove:
  "\<exists>n hist s c. run (pg_start True 0 10) (pg_exec True) (pg_init 0 10 1 2) n hist (s, c) \<and> list_run_ok (0::int) 10 1 2 n \<and>
     hist ! 3 = (0, Return (Ret_Int 1)) \<and> hist ! 4 = (1, Call (Delete (5::int))) \<and> last hist = (1, Return (Ret_Val (0::int))) \<and>
     \<not> linearizable map_spec Map.empty hist"
proof -
  from pg_bug_run obtain s c where
    "run (pg_start True 0 10) (pg_exec True) (pg_init 0 10 1 2) (length pg_bug) pg_bug_history (s, c)" by blast
  moreover have "list_run_ok (0::int) 10 1 2 (length pg_bug)" by (simp add: list_run_ok_def pg_bug_def)
  moreover have "pg_bug_history ! 3 = (0, Return (Ret_Int 1))" "pg_bug_history ! 4 = (1, Call (Delete 5))"
    "last pg_bug_history = (1, Return (Ret_Val 0))" by (simp_all add: pg_bug_history_def)
  ultimately show ?thesis using pg_bug_not_linearizable by blast
qed

end
