(* ===== verification/Hashtable_Pugh.thy ===== *)
theory Hashtable_Pugh
  imports Hashtable_Optik LinkedList_Pugh
begin

text \<open>
  The hash table of Pugh's lists, \<^verbatim>\<open>src/algorithms/hashtable_pugh.h\<close>. It ignores its \<^verbatim>\<open>KEY_HASHER\<close>: the bucket is
  \<^verbatim>\<open>key & hash\<close>. On keys of 64 bits this is what \<^verbatim>\<open>KeyHasher\<close> gives (\<open>pugh_addr\<close>), so the model is that of the
  other tables with that hasher.
\<close>

unbundle bit_operations_syntax

section \<open>The code\<close>

type_synonym 'v hashtable_pugh = "(64 word, 'v) pugh hashtable"

text \<open>\<^verbatim>\<open>int addr = key & hash\<close>.\<close>

definition pugh_addr :: "64 word \<Rightarrow> 64 word \<Rightarrow> 32 word" where
  "pugh_addr hash key = ucast (key AND hash)"

definition hashtable_pugh_init :: "32 word \<Rightarrow> 64 word \<Rightarrow> 64 word \<Rightarrow> (nat \<Rightarrow> ptr) \<Rightarrow> (nat \<Rightarrow> ptr) \<Rightarrow> 'v::zero hashtable_pugh" where
  "hashtable_pugh_init maxlen kmin kmax h t = ht_init maxlen (\<lambda>i. pg_init kmin kmax (h i) (t i))"

definition hashtable_pugh_start :: "bool \<Rightarrow> 64 word \<Rightarrow> 64 word \<Rightarrow> (64 word, 'v) map_op \<Rightarrow> ((64 word, 'v) map_op, (64 word, 'v) pg_pc) ht_pc option" where
  "hashtable_pugh_start rm kmin kmax = ht_start (pg_start rm kmin kmax)"

definition hashtable_pugh_exec :: "bool \<Rightarrow> ('v::zero hashtable_pugh, ((64 word, 'v) map_op, (64 word, 'v) pg_pc) ht_pc, 'v map_ret) exec" where
  "hashtable_pugh_exec ro = ht_exec key_hasher (pg_exec ro)"

definition hashtable_pugh_length :: "'v hashtable_pugh \<Rightarrow> int option" where
  "hashtable_pugh_length = ht_length pg_length"

definition hashtable_pugh_destroy :: "bool \<Rightarrow> (nat \<Rightarrow> ptr set) \<Rightarrow> 'v hashtable_pugh \<Rightarrow> (64 word, 'v) ll_locked store list option" where
  "hashtable_pugh_destroy gc heap = ht_destroy (\<lambda>i. pg_destroy gc (heap i))"

lemmas hashtable_pugh_defs = hashtable_pugh_start_def hashtable_pugh_exec_def hashtable_pugh_init_def
  hashtable_pugh_length_def

lemma pugh_addr: "ht_addr hash (key_hasher key) = pugh_addr hash key"
proof (rule bit_word_eqI)
  fix i assume "i < LENGTH(32)"
  then have i: "i < 32" "min i 31 = i" by auto
  then show "bit (ht_addr hash (key_hasher key)) i \<longleftrightarrow> bit (pugh_addr hash key) i"
    by (simp add: ht_addr_def key_hasher_def pugh_addr_def bit_ucast_iff bit_and_iff bit_signed_iff)
qed

section \<open>Correctness\<close>

lemma pg_counts:
  "list_run_ok kmin kmax h t n \<Longrightarrow> pg_SI kmin kmax n s a w \<Longrightarrow> finite (dom a) \<and> pg_length s = Some (int (card (dom a)))"
  using plist_length [OF pg_SI_D(1)] by (auto simp: pg_length_def list_run_ok_def)

interpretation hashtable_pugh: counting_table map_spec maxlen key_hasher "pg_start (\<not> ro) kmin kmax" "pg_exec ro"
  "\<lambda>i. pg_init kmin kmax (h i) (t i)" pg_own "\<lambda>i. list_run_ok kmin kmax (h i) (t i)"
  "pg_SI kmin kmax" "pg_LI ro kmin kmax" pg_length
  for maxlen ro and kmin kmax :: "64 word" and h t
  by unfold_locales (rule local_map_spec | rule pg_counts, assumption+)+

section \<open>A concrete run\<close>

definition hashtable_pugh_demo :: "(64 word, int) map_op command list" where
  "hashtable_pugh_demo = [Do_Call 0 (Insert 5 50), Do_Call 1 (Insert 8 80)] @ steps_of 0 8 @ steps_of 1 8 @
     [Do_Step 0 3, Do_Step 1 3] @ steps_of 0 2 @ steps_of 1 2 @ [Do_Return 0, Do_Return 1]"

definition hashtable_pugh_demo_history :: "((64 word, int) map_op, int map_ret) history" where
  "hashtable_pugh_demo_history =
     [(0, Call (Insert 5 50)), (1, Call (Insert 8 80)), (0, Return (Ret_Int 1)), (1, Return (Ret_Int 1))]"

lemma hashtable_pugh_demo_run:
  "\<exists>s c. run (hashtable_pugh_start True 0 10) (hashtable_pugh_exec False) (hashtable_pugh_init 2 0 10 (\<lambda>_. 1) (\<lambda>_. 2))
       (length hashtable_pugh_demo) hashtable_pugh_demo_history (s, c)
     \<and> hashtable_pugh_length s = Some 2"
  unfolding hashtable_pugh_demo_history_def
  by (rule replay_exhibits)
    (simp add: hashtable_pugh_demo_def hashtable_pugh_defs ht_start_def ht_init_def ht_addr_def key_hasher_def ht_length_def
      pg_init_def pg_lock_def pg_unlock_def pg_next_def pg_set_next_def pg_length_def ll_locked_defs
      ll_length_def ll_length_loop.simps fresh_def alloc_def put_cell_def empty_store_def
      release_def up2 replicate_binary)

lemma hashtable_pugh_demo_ok: "table_run_ok 2 (0 :: 64 word) 10 (\<lambda>_. 1) (\<lambda>_. 2) (length hashtable_pugh_demo)"
  by (simp add: table_run_ok_def list_run_ok_def hashtable_pugh_demo_def)

section \<open>Properties\<close>

text \<open>C36: every concurrent run of the hash table of Pugh's lists, for any number of buckets and 64-bit keys between the
  sentinels, is linearizable with respect to the map specification in the build without \<^verbatim>\<open>RO_FAIL\<close> and, as long
  as nothing is removed, in the default build with it (in which a removal can miss a key); an operation goes
  to the bucket \<^verbatim>\<open>key & hash\<close>, \<^verbatim>\<open>length()\<close> of the reached state is the number of keys of the abstract map, and no
  thread is about to index outside of the bucket array or to access an address without a node.\<close>

theorem hashtable_pugh_correct:
  assumes "run (hashtable_pugh_start (\<not> ro) kmin kmax) (hashtable_pugh_exec ro) (hashtable_pugh_init maxlen kmin kmax h t) n hist (s, c)"
    and "table_run_ok maxlen kmin kmax h t n"
  shows "linearizable map_spec Map.empty hist
    \<and> (\<exists>a. linearizes_to map_spec Map.empty hist a \<and> hashtable_pugh_length s = Some (int (card (dom a))))
    \<and> (\<forall>u p x. c u = At x \<longrightarrow> hashtable_pugh_exec ro u p s x \<noteq> Fault)
    \<and> (\<forall>key. ht_addr (ht_hash s) (key_hasher key) = pugh_addr (ht_hash s) key)"
proof -
  note r = assms(1) [unfolded hashtable_pugh_defs]
  have i: "hashtable_pugh.table_inb maxlen kmin kmax h t n"
    using assms(2) by (simp add: hashtable_pugh.table_inb_def table_run_ok_def)
  from hashtable_pugh.table.linearizable [unfolded table_spec_map, OF r i]
    hashtable_pugh.table.reachable_SI [unfolded table_spec_map, OF r i] hashtable_pugh.table_length [OF _ i]
    hashtable_pugh.table.no_fault [OF r i] pugh_addr
  show ?thesis unfolding hashtable_pugh_defs by blast
qed

theorem hashtable_pugh_correct_witness: "linearizable map_spec Map.empty hashtable_pugh_demo_history"
  using hashtable_pugh_demo_run hashtable_pugh_correct [where ro = False, OF _ hashtable_pugh_demo_ok] by simp blast

end
