(* ===== verification/Harris_Nodes.thy ===== *)
theory Harris_Nodes
  imports List_Steps
begin

text \<open>
  What the two lock-free lists, \<^verbatim>\<open>src/algorithms/linkedlist_harris.h\<close> and \<^verbatim>\<open>linkedlist_harris_opt.h\<close>, share:
  nodes of \<^verbatim>\<open>src/aux/ll_simple.h\<close> whose next pointer carries in its low bit the mark that the node is
  logically deleted, the invariant of the list, and the steps made by compare-and-swap: linking a node,
  marking one, cutting marked ones out. The list without the marks (\<open>unmarked\<close>) is a sorted list in the
  sense of \<open>List_Steps\<close>; a node whose pointer is marked never changes again.
\<close>

unbundle bit_operations_syntax

section \<open>Marked pointers\<close>

definition is_marked_ref :: "ptr \<Rightarrow> bool" where
  "is_marked_ref i \<longleftrightarrow> i AND 1 \<noteq> 0"

definition unset_mark :: "ptr \<Rightarrow> ptr" where
  "unset_mark i = i AND NOT 1"

definition set_mark :: "ptr \<Rightarrow> ptr" where
  "set_mark i = i OR 1"

definition get_unmarked_ref :: "ptr \<Rightarrow> ptr" where
  "get_unmarked_ref w = w AND NOT 1"

definition get_marked_ref :: "ptr \<Rightarrow> ptr" where
  "get_marked_ref w = w OR 1"

lemma is_marked_ref_bit: "is_marked_ref p \<longleftrightarrow> bit p 0"
  by (simp add: is_marked_ref_def and_one_eq flip: odd_iff_mod_2_eq_one bit_0)

lemma bit_one_word: "bit (1 :: ptr) i \<longleftrightarrow> i = 0"
  by (simp add: bit_1_iff)

lemma marked_simps [simp]:
  "is_marked_ref (get_marked_ref p)" "\<not> is_marked_ref (get_unmarked_ref p)" "\<not> is_marked_ref NULL"
  by (simp_all add: is_marked_ref_bit get_marked_ref_def get_unmarked_ref_def bit_or_iff bit_and_iff bit_not_iff bit_one_word)

lemma unmarked_same [simp]: "\<not> is_marked_ref p \<Longrightarrow> get_unmarked_ref p = p"
  by (rule bit_word_eqI)
    (auto simp: is_marked_ref_bit get_unmarked_ref_def bit_and_iff bit_not_iff bit_one_word intro: gr0I)

lemma marked_same: "is_marked_ref p \<Longrightarrow> get_marked_ref p = p"
  by (rule bit_word_eqI) (auto simp: is_marked_ref_bit get_marked_ref_def bit_or_iff bit_one_word)

lemma unmark_mark [simp]:
  "get_unmarked_ref (get_marked_ref p) = get_unmarked_ref p" "get_marked_ref (get_unmarked_ref p) = get_marked_ref p"
  by (rule bit_word_eqI, auto simp: get_marked_ref_def get_unmarked_ref_def bit_or_iff bit_and_iff bit_not_iff bit_one_word)+

lemma mark_functions_agree: "unset_mark p = get_unmarked_ref p \<and> set_mark p = get_marked_ref p"
  by (simp add: unset_mark_def get_unmarked_ref_def set_mark_def get_marked_ref_def)

section \<open>The list without its marks\<close>

text \<open>A node that was allocated, not linked because the compare-and-swap failed, and given back: no thread ever
  sees it. A node that was in the list is marked when it is given back.\<close>

definition junk :: "('k, 'v) ll_simple store \<Rightarrow> ptr \<Rightarrow> bool" where
  "junk m p \<longleftrightarrow> p \<in> released m \<and> (\<exists>n. cells m p = Some n \<and> \<not> is_marked_ref (ll_next n))"

abbreviation unmark_node :: "('k, 'v) ll_simple \<Rightarrow> ('k, 'v) ll_simple" where
  "unmark_node n \<equiv> n\<lparr>ll_next := get_unmarked_ref (ll_next n)\<rparr>"

definition unmarked :: "('k, 'v) ll_simple store \<Rightarrow> ('k, 'v) ll_simple store" where
  "unmarked m = \<lparr>cells = \<lambda>p. if junk m p then None else map_option unmark_node (cells m p),
                released = {p \<in> released m. \<not> junk m p}\<rparr>"

lemma unmarked_cell: "cells (unmarked m) p = Some n' \<longleftrightarrow> \<not> junk m p \<and> (\<exists>n. cells m p = Some n \<and> n' = unmark_node n)"
  by (auto simp: unmarked_def)

lemma unmarked_None: "cells (unmarked m) p = None \<longleftrightarrow> junk m p \<or> cells m p = None"
  by (auto simp: unmarked_def)

lemma unmarked_Some [simp]: "cells m p = Some n \<Longrightarrow> \<not> junk m p \<Longrightarrow> cells (unmarked m) p = Some (unmark_node n)"
  by (simp add: unmarked_cell)

lemma unmarked_kv: "kv_of (cells (unmarked m)) p = (if junk m p then None else kv_of (cells m) p)"
  by (auto simp: kv_of_def unmarked_def option.map_comp comp_def)

lemma unmarked_put:
  assumes "p \<notin> released m"
  shows "unmarked (put_cell p n m) = put_cell p (unmark_node n) (unmarked m)"
proof -
  have "junk (put_cell p n m) q \<longleftrightarrow> junk m q" for q using assms by (auto simp: junk_def)
  moreover have "\<not> junk m p" using assms by (simp add: junk_def)
  ultimately show ?thesis by (simp add: unmarked_def put_cell_def fun_eq_iff)
qed

lemma unmarked_release:
  assumes "\<not> junk m p" and "cells m p = Some n" and "is_marked_ref (ll_next n)"
  shows "unmarked (m\<lparr>released := insert p (released m)\<rparr>) = (unmarked m)\<lparr>released := insert p (released (unmarked m))\<rparr>"
proof -
  have "junk (m\<lparr>released := insert p (released m)\<rparr>) q \<longleftrightarrow> junk m q" for q using assms by (auto simp: junk_def)
  then show ?thesis using assms(1) by (auto simp: unmarked_def)
qed

text \<open>The addresses a thread may know.\<close>

abbreviation seen_by_all :: "('k, 'v) ll_simple store \<Rightarrow> (tid \<Rightarrow> unit ownership) \<Rightarrow> ptr \<Rightarrow> bool" where
  "seen_by_all m w p \<equiv> published (unmarked m) w p"

lemma seen_cell:
  assumes "seen_by_all m w p"
  obtains n where "cells m p = Some n" and "\<not> junk m p" and "cells (unmarked m) p = Some (unmark_node n)"
  using published_cell [OF assms] by (auto simp: unmarked_cell)

lemma seen_Some:
  assumes "seen_by_all m w p" and "cells m p = Some n"
  shows "cells (unmarked m) p = Some (unmark_node n)" and "\<not> junk m p"
  using seen_cell [OF assms(1)] assms(2) by (metis option.inject)+

lemma seen_clean: "seen_by_all m w p \<Longrightarrow> cells m p = Some n \<Longrightarrow> \<not> is_marked_ref (ll_next n) \<Longrightarrow> p \<notin> released m"
  by (erule seen_cell) (auto simp: junk_def)

text \<open>An allocation: addresses of objects are even.\<close>

definition alloc_even :: "(ptr \<Rightarrow> 'n option) \<Rightarrow> ptr \<Rightarrow> ('s, 'l, 'r) outcome \<Rightarrow> ('s, 'l, 'r) outcome" where
  "alloc_even h p k = (if is_marked_ref p then Blocked else alloc h p k)"

lemma alloc_even_Next [simp]: "alloc_even h p k = Next s y \<longleftrightarrow> \<not> is_marked_ref p \<and> fresh h p \<and> k = Next s y"
  by (simp add: alloc_even_def)

lemma alloc_even_Fault [simp]: "alloc_even h p k = Fault \<longleftrightarrow> \<not> is_marked_ref p \<and> fresh h p \<and> k = Fault"
  by (simp add: alloc_even_def)

section \<open>The state\<close>

record ('k, 'v) harris =
  hr_head :: ptr
  hr_mem :: "('k, 'v) ll_simple store"

abbreviation hr_cells :: "('k, 'v) harris \<Rightarrow> ptr \<Rightarrow> ('k, 'v) ll_simple option" where
  "hr_cells s \<equiv> cells (hr_mem s)"

definition hr_init :: "'k \<Rightarrow> 'k \<Rightarrow> ptr \<Rightarrow> ptr \<Rightarrow> ('k, 'v::zero) harris" where
  "hr_init kmin kmax h t = \<lparr>hr_head = h,
     hr_mem = put_cell h (initialize_ll_simple kmin 0 t) (put_cell t (initialize_ll_simple kmax 0 NULL) empty_store)\<rparr>"

text \<open>A compare-and-swap on the next pointer of a node.\<close>

definition hr_cas :: "('k, 'v) harris \<Rightarrow> ptr \<Rightarrow> ptr \<Rightarrow> ptr \<Rightarrow> ('l, 'r) control \<Rightarrow> ('l, 'r) control \<Rightarrow>
    (('k, 'v) harris, 'l, 'r) outcome" where
  "hr_cas s p old new yes no = deref (hr_cells s) p (\<lambda>n.
     if ll_next n = old then Next (s\<lparr>hr_mem := put_cell p (n\<lparr>ll_next := new\<rparr>) (hr_mem s)\<rparr>) yes else Next s no)"

text \<open>\<^verbatim>\<open>length()\<close> follows the pointers without their marks and counts the nodes that are not marked; the
  destructor follows the pointers as they are.\<close>

partial_function (option) hr_length_loop :: "(ptr \<Rightarrow> ('k, 'v) ll_simple option) \<Rightarrow> ptr \<Rightarrow> int \<Rightarrow> int option" where
  "hr_length_loop h node count =
     (case h node of
        None \<Rightarrow> None
      | Some n \<Rightarrow>
          if get_unmarked_ref (ll_next n) \<noteq> NULL
          then hr_length_loop h (get_unmarked_ref (ll_next n)) (if is_marked_ref (ll_next n) then count else count + 1)
          else Some count)"

definition hr_length :: "('k, 'v) harris \<Rightarrow> int option" where
  "hr_length s = (case hr_cells s (hr_head s) of
     None \<Rightarrow> None | Some n \<Rightarrow> hr_length_loop (hr_cells s) (get_unmarked_ref (ll_next n)) 0)"

definition hr_destroy :: "ptr set \<Rightarrow> ('k, 'v) harris \<Rightarrow> ('k, 'v) ll_simple store option" where
  "hr_destroy heap s = ll_destroy_loop (c_free heap) (hr_mem s) (hr_head s)"

section \<open>The invariant\<close>

abbreviation hr_nodes :: "('k, 'v) harris \<Rightarrow> ptr set" where
  "hr_nodes s \<equiv> lnodes (unmarked (hr_mem s)) (hr_head s)"

definition hr_clean :: "('k, 'v) harris \<Rightarrow> ptr \<Rightarrow> bool" where
  "hr_clean s p \<longleftrightarrow> (\<exists>n. hr_cells s p = Some n \<and> \<not> is_marked_ref (ll_next n))"

lemma hr_clean_cell [simp]: "hr_cells s p = Some n \<Longrightarrow> hr_clean s p \<longleftrightarrow> \<not> is_marked_ref (ll_next n)"
  by (simp add: hr_clean_def)

text \<open>The nodes that carry the map: those in the list, between the sentinels, without a mark.\<close>

definition hr_live :: "('k, 'v) harris \<Rightarrow> ptr set" where
  "hr_live s = {p \<in> ll_live (unmarked (hr_mem s)) (hr_head s). hr_clean s p}"

definition hr_SI :: "'k::linorder \<Rightarrow> 'k \<Rightarrow> ('k, 'v) harris \<Rightarrow> ('k \<rightharpoonup> 'v) \<Rightarrow> (tid \<Rightarrow> unit ownership) \<Rightarrow> bool" where
  "hr_SI kmin kmax s a w \<longleftrightarrow> slist kmin kmax (unmarked (hr_mem s)) w (hr_head s) (hr_live s) a \<and>
     (\<forall>p. seen_by_all (hr_mem s) w p \<longrightarrow> hr_clean s p \<longrightarrow> p \<in> hr_nodes s) \<and>
     (\<forall>p n. hr_cells s p = Some n \<longrightarrow> is_marked_ref (ll_next n) \<longrightarrow> kmin < ll_key n \<and> ll_key n < kmax) \<and>
     (\<forall>p. hr_cells s p \<noteq> None \<longrightarrow> \<not> is_marked_ref p)"

lemma hr_SI_D:
  assumes "hr_SI kmin kmax s a w"
  shows "slist kmin kmax (unmarked (hr_mem s)) w (hr_head s) (hr_live s) a"
    and "seen_by_all (hr_mem s) w p \<Longrightarrow> hr_clean s p \<Longrightarrow> p \<in> hr_nodes s"
    and "hr_cells s p = Some n \<Longrightarrow> is_marked_ref (ll_next n) \<Longrightarrow> kmin < ll_key n \<and> ll_key n < kmax"
    and "hr_cells s p = Some n \<Longrightarrow> \<not> is_marked_ref p"
  using assms unfolding hr_SI_def by blast+

text \<open>What a thread knows: it stands on a valid traversal; a node has a key with a property; a node was
  seen live with the key; a node is marked, and its pointer without the mark.\<close>

abbreviation hr_ahead :: "('k, 'v::zero) harris \<Rightarrow> (tid \<Rightarrow> unit ownership) \<Rightarrow> ('k, 'v) map_op \<Rightarrow>
    (('k, 'v) map_op, 'v map_ret) ghost \<Rightarrow> ptr \<Rightarrow> bool" where
  "hr_ahead s w op g c \<equiv> list_ahead (unmarked (hr_mem s)) w (hr_live s) op g c"

abbreviation hr_node :: "('k, 'v) harris \<Rightarrow> (tid \<Rightarrow> unit ownership) \<Rightarrow> ptr \<Rightarrow> ('k \<Rightarrow> bool) \<Rightarrow> bool" where
  "hr_node s w p P \<equiv> list_node (unmarked (hr_mem s)) w p P"

definition hr_found :: "('k, 'v::zero) harris \<Rightarrow> (tid \<Rightarrow> unit ownership) \<Rightarrow> 'k \<Rightarrow>
    (('k, 'v) map_op, 'v map_ret) ghost \<Rightarrow> ptr \<Rightarrow> bool" where
  "hr_found s w k g c \<longleftrightarrow> seen_by_all (hr_mem s) w c \<and>
     (\<exists>n. hr_cells s c = Some n \<and> (ll_key n = k \<longrightarrow> seen_present g (ll_val n)))"

definition hr_frozen :: "('k, 'v) harris \<Rightarrow> (tid \<Rightarrow> unit ownership) \<Rightarrow> ptr \<Rightarrow> ptr \<Rightarrow> bool" where
  "hr_frozen s w c d \<longleftrightarrow> seen_by_all (hr_mem s) w c \<and> (\<exists>n. hr_cells s c = Some n \<and> is_marked_ref (ll_next n) \<and> get_unmarked_ref (ll_next n) = d)"

abbreviation hr_dead :: "('k, 'v) harris \<Rightarrow> (tid \<Rightarrow> unit ownership) \<Rightarrow> ptr \<Rightarrow> bool" where
  "hr_dead s w c \<equiv> \<exists>d. hr_frozen s w c d"

abbreviation hr_result :: "('k, 'v) harris \<Rightarrow> (tid \<Rightarrow> unit ownership) \<Rightarrow> ptr \<Rightarrow>
    (('k, 'v) map_op, 'v map_ret) ghost \<Rightarrow> bool" where
  "hr_result s w c g \<equiv> list_result (unmarked (hr_mem s)) w c g"

lemma hr_node_cell:
  assumes "hr_node s w p P"
  obtains n where "hr_cells s p = Some n" and "seen_by_all (hr_mem s) w p" and "P (ll_key n)" and "\<not> junk (hr_mem s) p"
  using assms by (auto simp: list_node_def unmarked_cell)

lemma hr_nodeI: "seen_by_all (hr_mem s) w p \<Longrightarrow> hr_cells s p = Some n \<Longrightarrow> P (ll_key n) \<Longrightarrow> hr_node s w p P"
  using seen_Some(1) unfolding list_node_def by fastforce

lemma hr_node_mono: "hr_node s w p P \<Longrightarrow> (\<And>x. P x \<Longrightarrow> Q x) \<Longrightarrow> hr_node s w p Q"
  by (auto simp: list_node_def)

lemma hr_node_key: "hr_node s w p P \<Longrightarrow> hr_cells s p = Some n \<Longrightarrow> P (ll_key n)"
  by (auto elim: hr_node_cell)

lemma hr_ahead_pub: "hr_ahead s w op g c \<Longrightarrow> seen_by_all (hr_mem s) w c"
  by (simp add: list_ahead_def)

section \<open>What a step leaves to the other threads\<close>

definition hr_effect :: "tid \<Rightarrow> ('k::linorder, 'v::zero) harris \<Rightarrow> (tid \<Rightarrow> unit ownership) \<Rightarrow> ('k \<rightharpoonup> 'v) \<Rightarrow>
    ('k, 'v) harris \<Rightarrow> (tid \<Rightarrow> unit ownership) \<Rightarrow> ('k \<rightharpoonup> 'v) \<Rightarrow> bool" where
  "hr_effect t s w a s' w' a' \<longleftrightarrow>
     list_effect t (unmarked (hr_mem s)) w (hr_live s) a (unmarked (hr_mem s')) w' (hr_live s') a' \<and>
     (\<forall>p n. seen_by_all (hr_mem s) w p \<longrightarrow> hr_cells s p = Some n \<longrightarrow> is_marked_ref (ll_next n) \<longrightarrow>
        (\<exists>n'. hr_cells s' p = Some n' \<and> ll_next n' = ll_next n)) \<and>
     (\<forall>u p. u \<noteq> t \<longrightarrow> p \<in> private_nodes (w u) \<longrightarrow> hr_cells s' p = hr_cells s p)"

lemma hr_effect_list:
  "hr_effect t s w a s' w' a' \<Longrightarrow>
     list_effect t (unmarked (hr_mem s)) w (hr_live s) a (unmarked (hr_mem s')) w' (hr_live s') a'"
  by (simp add: hr_effect_def)

lemma hr_effect_node: "hr_effect t s w a s' w' a' \<Longrightarrow> hr_node s w p P \<Longrightarrow> hr_node s' w' p P"
  using effect_node [OF hr_effect_list] .

lemma hr_effect_ahead:
  "hr_effect t s w a s' w' a' \<Longrightarrow> observed map_spec a g \<Longrightarrow> list_op kmin kmax op g \<Longrightarrow> hr_ahead s w op g p \<Longrightarrow>
   hr_ahead s' w' op (observe map_spec a' g) p"
  using effect_ahead [OF hr_effect_list] .

lemma hr_effect_result: "hr_effect t s w a s' w' a' \<Longrightarrow> hr_result s w c g \<Longrightarrow> hr_result s' w' c (observe map_spec a' g)"
  using effect_result [OF hr_effect_list] .

lemma hr_effect_published: "hr_effect t s w a s' w' a' \<Longrightarrow> seen_by_all (hr_mem s) w p \<Longrightarrow> seen_by_all (hr_mem s') w' p"
  using effect_published [OF hr_effect_list] .

lemma hr_effect_cell:
  assumes "hr_effect t s w a s' w' a'" and "seen_by_all (hr_mem s) w p" and "hr_cells s p = Some n"
  shows "\<exists>n'. hr_cells s' p = Some n' \<and> ll_key n' = ll_key n \<and> ll_val n' = ll_val n"
proof -
  from seen_cell [OF hr_effect_published [OF assms(1,2)]] obtain n' where
    "hr_cells s' p = Some n'" "\<not> junk (hr_mem s') p" by blast
  then show ?thesis
    using effect_kv [OF hr_effect_list [OF assms(1)] assms(2)] assms(3) seen_Some(2) [OF assms(2,3)]
    by (simp add: unmarked_kv)
qed

lemma hr_effect_found:
  assumes "hr_effect t s w a s' w' a'" and "hr_found s w k g c"
  shows "hr_found s' w' k (observe map_spec a' g) c"
proof -
  from assms(2) obtain n where n: "seen_by_all (hr_mem s) w c" "hr_cells s c = Some n" "ll_key n = k \<longrightarrow> seen_present g (ll_val n)"
    by (auto simp: hr_found_def)
  from hr_effect_cell [OF assms(1) n(1,2)] hr_effect_published [OF assms(1) n(1)] n(3) show ?thesis
    by (auto simp: hr_found_def seen_present_observe)
qed

lemma hr_effect_frozen: "hr_effect t s w a s' w' a' \<Longrightarrow> hr_frozen s w c d \<Longrightarrow> hr_frozen s' w' c d"
  using hr_effect_published [of t s w a s' w' a' c] unfolding hr_frozen_def hr_effect_def by fastforce

lemma hr_effect_private:
  "hr_effect t s w a s' w' a' \<Longrightarrow> u \<noteq> t \<Longrightarrow> p \<in> private_nodes (w u) \<Longrightarrow> hr_cells s' p = hr_cells s p"
  by (simp add: hr_effect_def)

lemmas hr_stable = list_op_stable hr_effect_node hr_effect_ahead hr_effect_result hr_effect_found hr_effect_frozen

section \<open>Facts about the state\<close>

lemma hr_liveI:
  assumes SI: "hr_SI kmin kmax s a w" and c: "seen_by_all (hr_mem s) w c" "hr_cells s c = Some nd" "\<not> is_marked_ref (ll_next nd)"
    and k: "kmin < ll_key nd" "ll_key nd < kmax"
  shows "c \<in> hr_live s"
proof -
  note si = hr_SI_D [OF SI]
  have inn: "c \<in> hr_nodes s" using si(2) [OF c(1)] c by simp
  have un: "cells (unmarked (hr_mem s)) c = Some (unmark_node nd)" by (rule seen_Some(1) [OF c(1,2)])
  have "c \<noteq> hr_head s" using slist_head_node [OF si(1)] un k(1) by (auto simp: list_node_def)
  moreover have "nm_of (cells (unmarked (hr_mem s))) c \<noteq> Some NULL"
    using slist_next(2) [OF si(1) c(1) un] un k(2) by simp
  ultimately show ?thesis using inn c(2,3) by (simp add: hr_live_def ll_live_def)
qed

lemma hr_live_clean: "c \<in> hr_live s \<Longrightarrow> hr_clean s c"
  by (simp add: hr_live_def)

lemma hr_foundI:
  assumes SI: "hr_SI kmin kmax s a w" and c: "seen_by_all (hr_mem s) w c" "hr_cells s c = Some nd" "\<not> is_marked_ref (ll_next nd)"
    and op: "list_op kmin kmax op g" "op_key op = k" and obs: "observed map_spec a g"
  shows "hr_found s w k g c"
proof -
  note si = hr_SI_D [OF SI]
  from op(1) obtain W where g: "g = Open op W" "kmin < op_key op" "op_key op < kmax" by (rule list_opE)
  have un: "cells (unmarked (hr_mem s)) c = Some (unmark_node nd)" by (rule seen_Some(1) [OF c(1,2)])
  have "seen_present g (ll_val nd)" if k: "ll_key nd = k"
  proof -
    have "c \<in> hr_live s" by (rule hr_liveI [OF SI c]) (use k g op in auto)
    from slist_live_present [OF si(1) this un, of op W] k op(2) g obs show ?thesis by simp
  qed
  then show ?thesis using c by (simp add: hr_found_def)
qed

lemma hr_ahead_cell:
  assumes "hr_ahead s w op g c" and "hr_cells s c = Some nd"
  shows "cells (unmarked (hr_mem s)) c = Some (unmark_node nd)"
  by (rule seen_Some(1) [OF hr_ahead_pub [OF assms(1)] assms(2)])

lemma hr_dead_absent:
  assumes SI: "hr_SI kmin kmax s a w" and at: "hr_ahead s w op g c" and c: "hr_cells s c = Some nd" "is_marked_ref (ll_next nd)"
    and k: "ll_key nd = op_key op"
  shows "seen_absent g"
  by (rule slist_dead_absent [OF hr_SI_D(1) [OF SI] at hr_ahead_cell [OF at c(1)]]) (use c k in \<open>auto simp: hr_live_def\<close>)

lemma hr_larger_absent:
  assumes SI: "hr_SI kmin kmax s a w" and at: "hr_ahead s w op g c" and c: "hr_cells s c = Some nd"
    and k: "op_key op \<le> ll_key nd" "ll_key nd \<noteq> op_key op"
  shows "seen_absent g"
  using slist_absent [OF hr_SI_D(1) [OF SI] at hr_ahead_cell [OF at c]] k by simp

text \<open>The next node of one with a smaller key, or of a marked one.\<close>

lemma hr_next:
  assumes SI: "hr_SI kmin kmax s a w" and p: "seen_by_all (hr_mem s) w p" "hr_cells s p = Some nd"
    and k: "ll_key nd < kmax \<or> is_marked_ref (ll_next nd)"
  shows "hr_node s w (get_unmarked_ref (ll_next nd)) (\<lambda>x. ll_key nd < x)"
proof -
  have un: "cells (unmarked (hr_mem s)) p = Some (unmark_node nd)" by (rule seen_Some(1) [OF p(1,2)])
  have "ll_key nd < kmax" using k hr_SI_D(3) [OF SI p(2)] by blast
  then show ?thesis using slist_next(1) [OF hr_SI_D(1) [OF SI] p(1) un] by simp
qed

lemma hr_ahead_next:
  assumes SI: "hr_SI kmin kmax s a w" and at: "hr_ahead s w op g p" and nd: "hr_cells s p = Some nd"
    and k: "ll_key nd < op_key op \<or> is_marked_ref (ll_next nd)" and op: "op_key op < kmax"
  shows "hr_ahead s w op g (get_unmarked_ref (ll_next nd))"
proof -
  let ?m = "unmarked (hr_mem s)" and ?q = "get_unmarked_ref (ll_next nd)"
  have pub: "seen_by_all (hr_mem s) w ?q"
  proof -
    have "ll_key nd < kmax \<or> is_marked_ref (ll_next nd)" using k op by auto
    from hr_next [OF SI hr_ahead_pub [OF at] nd this] show ?thesis by (auto simp: list_node_def)
  qed
  note un = hr_ahead_cell [OF at nd]
  have nm: "nm_of (cells ?m) p = Some ?q" using un by simp
  have not: "\<not> (p \<in> hr_live s \<and> kv_of (cells ?m) p = Some (op_key op, v))" for v
    using k nd un hr_live_clean [of p s] by auto
  have "ahead (nm_of (cells ?m)) (kv_of (cells ?m)) (hr_live s) (op_key op) g ?q"
  proof (cases "seen_absent g")
    case False
    then obtain q v where q: "reach (nm_of (cells ?m)) p q" "q \<in> hr_live s" "kv_of (cells ?m) q = Some (op_key op, v)"
      using at unfolding list_ahead_def ahead_def by blast
    then have "reach (nm_of (cells ?m)) ?q q" using reach_cases [OF q(1)] not nm by auto
    then show ?thesis using q unfolding ahead_def by blast
  qed (simp add: ahead_def)
  then show ?thesis using pub by (simp add: list_ahead_def)
qed

lemma hr_head_cell: "hr_SI kmin kmax s a w \<Longrightarrow> \<exists>nd. hr_cells s (hr_head s) = Some nd"
  by (rule hr_node_cell [OF slist_head_node [OF hr_SI_D(1)]]) auto

lemma hr_head_facts:
  assumes SI: "hr_SI kmin kmax s a w" and op: "list_op kmin kmax op g" and obs: "observed map_spec a g"
    and h: "hr_cells s (hr_head s) = Some nd"
  shows "hr_ahead s w op g (hr_head s)" and "hr_ahead s w op g (ll_next nd)"
    and "hr_node s w (hr_head s) (\<lambda>x. x < op_key op)" and "\<not> is_marked_ref (ll_next nd)"
proof -
  note si = hr_SI_D [OF SI]
  from op obtain W where g: "g = Open op W" "kmin < op_key op" "op_key op < kmax" by (rule list_opE)
  show at: "hr_ahead s w op g (hr_head s)" using slist_ahead_head [OF si(1)] obs unfolding g(1) by blast
  have k: "ll_key nd = kmin" by (rule hr_node_key [OF slist_head_node [OF si(1)] h])
  show "hr_node s w (hr_head s) (\<lambda>x. x < op_key op)"
    by (rule hr_node_mono [OF slist_head_node [OF si(1)]]) (use g(2) in simp)
  show m: "\<not> is_marked_ref (ll_next nd)" using si(3) [OF h] k by auto
  show "hr_ahead s w op g (ll_next nd)" using hr_ahead_next [OF SI at h _ g(3)] k g(2) m by simp
qed

text \<open>Owned nodes are in memory and have not been released.\<close>

lemma hr_owned:
  assumes "hr_SI kmin kmax s a w" and "p \<in> owned (w t)"
  shows "hr_cells s p \<noteq> None" and "p \<notin> released (hr_mem s)"
proof -
  from partition_owned [OF slist_partition [OF hr_SI_D(1) [OF assms(1)]] assms(2)]
  have "cells (unmarked (hr_mem s)) p \<noteq> None" "p \<notin> released (unmarked (hr_mem s))" by blast+
  then have "\<not> junk (hr_mem s) p" "hr_cells s p \<noteq> None" "p \<notin> released (unmarked (hr_mem s))"
    by (simp_all add: unmarked_None)
  then show "hr_cells s p \<noteq> None" "p \<notin> released (hr_mem s)" by (simp_all add: unmarked_def)
qed

lemma hr_unallocated:
  assumes "hr_SI kmin kmax s a w" and "hr_cells s p = None"
  shows "p \<notin> released (hr_mem s)"
proof
  assume "p \<in> released (hr_mem s)"
  then have "p \<in> released (unmarked (hr_mem s))" using assms(2) by (simp add: unmarked_def junk_def)
  then have "cells (unmarked (hr_mem s)) p \<noteq> None"
    using slist_partition [OF hr_SI_D(1) [OF assms(1)]] unfolding partition_ok_def by blast
  then show False using assms(2) by (simp add: unmarked_None)
qed

section \<open>The steps\<close>

abbreviation hr_does :: "'k::linorder \<Rightarrow> 'k \<Rightarrow> tid \<Rightarrow> ('k, 'v::zero) harris \<Rightarrow> (tid \<Rightarrow> unit ownership) \<Rightarrow> ('k \<rightharpoonup> 'v) \<Rightarrow>
    ('k, 'v) harris \<Rightarrow> unit ownership \<Rightarrow> ('k \<rightharpoonup> 'v) \<Rightarrow> bool" where
  "hr_does kmin kmax t s w a s' x a' \<equiv> hr_SI kmin kmax s' a' (w(t := x)) \<and> hr_effect t s w a s' (w(t := x)) a'"

text \<open>A new node.\<close>

lemma hr_alloc_step:
  assumes SI: "hr_SI kmin kmax s a w" and p: "fresh (hr_cells s) p" "\<not> is_marked_ref p" and n: "\<not> is_marked_ref (ll_next nd)"
    and x: "private_nodes x = insert p (private_nodes (w t))" "owned x \<subseteq> insert p (owned (w t))"
    and s': "s' = s\<lparr>hr_mem := put_cell p nd (hr_mem s)\<rparr>"
  shows "hr_does kmin kmax t s w a s' x a"
proof -
  note si = hr_SI_D [OF SI]
  have np: "hr_cells s p = None" using p(1) by (simp add: fresh_def)
  have fr: "fresh (cells (unmarked (hr_mem s))) p" using p(1) by (auto simp: fresh_def unmarked_None)
  note al = list_alloc [OF si(1) fr, where t = t and x = x and n = nd]
  have pp: "p \<notin> private_nodes (w u)" for u
    using partition_fresh [OF slist_partition [OF si(1)] fr, of u] by blast
  have mem: "unmarked (hr_mem s') = put_cell p nd (unmarked (hr_mem s))"
    using unmarked_put [OF hr_unallocated [OF SI np], of nd] n by (simp add: s')
  have pub: "seen_by_all (hr_mem s') (w(t := x)) q \<longleftrightarrow> seen_by_all (hr_mem s) w q" for q
    using published_alloc_cell [of "unmarked (hr_mem s)" p w x t] x(1) np pp by (simp add: mem unmarked_None)
  have cell: "hr_cells s' q = hr_cells s q" if "hr_cells s q \<noteq> None" for q using np that by (auto simp: s')
  have clean: "hr_clean s' q \<longleftrightarrow> hr_clean s q" if "hr_cells s q \<noteq> None" for q using cell [OF that] by (simp add: hr_clean_def)
  have nodes: "hr_nodes s' = hr_nodes s" and ll: "ll_live (unmarked (hr_mem s')) (hr_head s') = ll_live (unmarked (hr_mem s)) (hr_head s)"
    using al x unfolding mem by (simp_all add: s')
  have seen: "hr_cells s q \<noteq> None" if "seen_by_all (hr_mem s) w q" for q using that by (auto elim: seen_cell)
  have "hr_cells s q \<noteq> None" if "q \<in> hr_nodes s" for q using seen slist_published [OF si(1) that] by blast
  then have live: "hr_live s' = hr_live s" using clean unfolding hr_live_def ll by (auto simp: ll_live_def)
  show ?thesis
    unfolding hr_SI_def hr_effect_def
  proof (intro conjI allI impI)
    show "slist kmin kmax (unmarked (hr_mem s')) (w(t := x)) (hr_head s') (hr_live s') a"
      "list_effect t (unmarked (hr_mem s)) w (hr_live s) a (unmarked (hr_mem s')) (w(t := x)) (hr_live s') a"
      unfolding live mem using al x by (simp_all add: s')
    show "q \<in> hr_nodes s'" if "seen_by_all (hr_mem s') (w(t := x)) q" "hr_clean s' q" for q
      using si(2) [of q] that clean seen pub nodes by blast
  next
    fix q n assume q: "hr_cells s' q = Some n" "is_marked_ref (ll_next n)"
    show "kmin < ll_key n" "ll_key n < kmax"
      using q assms(4) si(3) [of q n] by (auto simp: s' split: if_splits)
  next
    show "\<not> is_marked_ref q" if "hr_cells s' q \<noteq> None" for q
      using that si(4) [of q] p(2) by (auto simp: s' split: if_splits)
  next
    fix q n assume "seen_by_all (hr_mem s) w q" "hr_cells s q = Some n"
    then show "\<exists>n'. hr_cells s' q = Some n' \<and> ll_next n' = ll_next n" using cell [of q] by auto
  next
    fix u q assume "q \<in> private_nodes (w u)"
    then have "q \<noteq> p" using pp by auto
    then show "hr_cells s' q = hr_cells s q" by (simp add: s')
  qed
qed

text \<open>A node that was cut out is given back.\<close>

lemma hr_release_step:
  assumes SI: "hr_SI kmin kmax s a w" and p: "p \<in> owned (w t)" and dead: "hr_dead s w p"
    and x: "private_nodes x = private_nodes (w t)" "owned x \<subseteq> owned (w t) - {p}"
    and s': "s' = s\<lparr>hr_mem := (hr_mem s)\<lparr>released := insert p (released (hr_mem s))\<rparr>\<rparr>"
  shows "hr_does kmin kmax t s w a s' x a"
proof -
  note si = hr_SI_D [OF SI]
  obtain n where n: "hr_cells s p = Some n" "is_marked_ref (ll_next n)" "\<not> junk (hr_mem s) p"
    using dead unfolding hr_frozen_def by (metis seen_cell)
  have mem: "unmarked (hr_mem s') = (unmarked (hr_mem s))\<lparr>released := insert p (released (unmarked (hr_mem s)))\<rparr>"
    using unmarked_release [OF n(3,1,2)] by (simp add: s')
  note re = list_release [OF si(1) p x refl]
  have "private_nodes ((w(t := x)) u) = private_nodes (w u)" for u using x(1) by simp
  then have pub: "seen_by_all (hr_mem s') (w(t := x)) q \<longleftrightarrow> seen_by_all (hr_mem s) w q" for q
    unfolding mem published_def by simp
  have nodes: "hr_nodes s' = hr_nodes s" and live: "hr_live s' = hr_live s" and clean: "hr_clean s' = hr_clean s"
    unfolding hr_live_def ll_live_def mem by (simp_all add: s' hr_clean_def fun_eq_iff)
  show ?thesis
    unfolding hr_SI_def hr_effect_def live clean pub nodes
  proof (intro conjI)
    show "slist kmin kmax (unmarked (hr_mem s')) (w(t := x)) (hr_head s') (hr_live s) a"
      "list_effect t (unmarked (hr_mem s)) w (hr_live s) a (unmarked (hr_mem s')) (w(t := x)) (hr_live s) a"
      unfolding mem using re(1,2) by (simp_all add: s')
  qed (use si in \<open>auto simp: s'\<close>)
qed

lemma partition_vanish:
  assumes "partition_ok m L w" and "p \<in> owned (w t)" and "owned x \<subseteq> owned (w t) - {p}"
  shows "partition_ok (m\<lparr>cells := (cells m)(p := None)\<rparr>) L (w(t := x))"
  using assms unfolding partition_ok_def by (intro conjI) (auto split: if_splits; blast)+

text \<open>A node that was never linked is given back.\<close>

lemma hr_discard_step:
  assumes SI: "hr_SI kmin kmax s a w" and p: "p \<in> private_nodes (w t)" and n: "hr_cells s p = Some nd" "\<not> is_marked_ref (ll_next nd)"
    and x: "private_nodes x = private_nodes (w t) - {p}" "owned x \<subseteq> owned (w t) - {p}"
    and s': "s' = s\<lparr>hr_mem := (hr_mem s)\<lparr>released := insert p (released (hr_mem s))\<rparr>\<rparr>"
  shows "hr_does kmin kmax t s w a s' x a"
proof -
  note si = hr_SI_D [OF SI]
  let ?m = "unmarked (hr_mem s)"
  have po: "p \<in> owned (w t)" using p by blast
  have rel: "p \<notin> released (hr_mem s)" using hr_owned [OF SI po] by simp
  have j: "junk (hr_mem s') q \<longleftrightarrow> q = p \<or> junk (hr_mem s) q" for q using n by (auto simp: junk_def s')
  have mem: "unmarked (hr_mem s') = ?m\<lparr>cells := (cells ?m)(p := None)\<rparr>"
    unfolding unmarked_def j using rel by (auto simp: s' fun_eq_iff)
  have others: "p \<notin> owned (w u)" if "u \<noteq> t" for u
    using partition_owned [OF slist_partition [OF si(1)] po, of u] that by blast
  have pub: "seen_by_all (hr_mem s') (w(t := x)) q \<longleftrightarrow> seen_by_all (hr_mem s) w q" for q
  proof (cases "q = p")
    case True
    then show ?thesis using p unfolding mem published_def by auto
  next
    case False
    then have "q \<in> private_nodes ((w(t := x)) u) \<longleftrightarrow> q \<in> private_nodes (w u)" for u using x(1) by simp
    then show ?thesis using False unfolding mem published_def by simp
  qed
  have pp: "\<not> seen_by_all (hr_mem s) w p" using p unfolding published_def by blast
  have part: "partition_ok (?m\<lparr>cells := (cells ?m)(p := None)\<rparr>) L (w(t := x))" if "partition_ok ?m L w" for L
    by (rule partition_vanish [OF that po x(2)])
  have mine: "cells (unmarked (hr_mem s')) q = cells ?m q" if "u \<noteq> t" "q \<in> private_nodes (w u)" for u q
    using that others unfolding mem by auto
  have old: "\<exists>n'. cells (unmarked (hr_mem s')) q = Some n' \<and> ll_key n' = ll_key n \<and> ll_val n' = ll_val n \<and> ll_next n' = ll_next n"
    if "seen_by_all (hr_mem s) w q" "cells ?m q = Some n" for q n
    using that pp unfolding mem by auto
  have new: "hr_node s w (ll_next n) (\<lambda>x. ll_key n < x)"
    if "seen_by_all (hr_mem s') (w(t := x)) q" "\<not> seen_by_all (hr_mem s) w q" for q and n :: "('a, 'b) ll_simple"
    using that pub by blast
  have sl: "slist kmin kmax (unmarked (hr_mem s')) (w(t := x)) (hr_head s) (hr_live s) a"
    and le: "list_effect t ?m w (hr_live s) a (unmarked (hr_mem s')) (w(t := x)) (hr_live s) a"
    and nd: "lnodes (unmarked (hr_mem s')) (hr_head s) = hr_nodes s"
    and ld: "ll_live (unmarked (hr_mem s')) (hr_head s) = ll_live ?m (hr_head s)"
    by (rule slist_aside [OF si(1), where m' = "unmarked (hr_mem s')" and w' = "w(t := x)" and t = t];
        use old pub new part [folded mem] mine in blast)+
  have nodes: "hr_nodes s' = hr_nodes s" and ll: "ll_live (unmarked (hr_mem s')) (hr_head s') = ll_live ?m (hr_head s)"
    using nd ld by (simp_all add: s')
  have live: "hr_live s' = hr_live s" and clean: "hr_clean s' = hr_clean s"
    unfolding hr_live_def ll by (simp_all add: s' hr_clean_def fun_eq_iff)
  show ?thesis
    unfolding hr_SI_def hr_effect_def live clean pub nodes
    using sl le si by (auto simp: s')
qed

text \<open>A successful compare-and-swap on the pointer of a clean node.\<close>

lemma hr_cas_memory:
  assumes SI: "hr_SI kmin kmax s a w" and p: "seen_by_all (hr_mem s) w p" "hr_cells s p = Some nd" "\<not> is_marked_ref (ll_next nd)"
    and s': "s' = s\<lparr>hr_mem := put_cell p n' (hr_mem s)\<rparr>"
  shows "unmarked (hr_mem s') = put_cell p (unmark_node n') (unmarked (hr_mem s))"
    and "cells (unmarked (hr_mem s)) p = Some nd" and "p \<in> hr_nodes s"
    and "hr_clean s' q \<longleftrightarrow> (if q = p then \<not> is_marked_ref (ll_next n') else hr_clean s q)"
proof -
  show "unmarked (hr_mem s') = put_cell p (unmark_node n') (unmarked (hr_mem s))"
    using unmarked_put [OF seen_clean [OF p]] by (simp add: s')
  show "cells (unmarked (hr_mem s)) p = Some nd" using seen_Some(1) [OF p(1,2)] p(3) by simp
  show "p \<in> hr_nodes s" using hr_SI_D(2) [OF SI p(1)] p(2,3) by simp
  show "hr_clean s' q \<longleftrightarrow> (if q = p then \<not> is_marked_ref (ll_next n') else hr_clean s q)"
    by (simp add: hr_clean_def s')
qed

lemma hr_cas_does:
  assumes SI: "hr_SI kmin kmax s a w" and p: "seen_by_all (hr_mem s) w p" "hr_cells s p = Some nd" "\<not> is_marked_ref (ll_next nd)"
    and n': "ll_key n' = ll_key nd" "is_marked_ref (ll_next n') \<Longrightarrow> kmin < ll_key nd \<and> ll_key nd < kmax"
    and s': "s' = s\<lparr>hr_mem := put_cell p n' (hr_mem s)\<rparr>"
    and sl: "slist kmin kmax (unmarked (hr_mem s')) (w(t := x)) (hr_head s) (hr_live s') a'"
    and le: "list_effect t (unmarked (hr_mem s)) w (hr_live s) a (unmarked (hr_mem s')) (w(t := x)) (hr_live s') a'"
    and cl: "\<And>q. seen_by_all (hr_mem s') (w(t := x)) q \<Longrightarrow> hr_clean s' q \<Longrightarrow> q \<in> hr_nodes s'"
  shows "hr_does kmin kmax t s w a s' x a'"
proof -
  note si = hr_SI_D [OF SI]
  show ?thesis
    unfolding hr_SI_def hr_effect_def
  proof (intro conjI allI impI)
    show "slist kmin kmax (unmarked (hr_mem s')) (w(t := x)) (hr_head s') (hr_live s') a'" using sl by (simp add: s')
  next
    fix q n assume q: "hr_cells s' q = Some n" "is_marked_ref (ll_next n)"
    show "kmin < ll_key n" "ll_key n < kmax"
      using q n' si(3) [of q n] by (auto simp: s' split: if_splits)
  next
    show "\<not> is_marked_ref q" if "hr_cells s' q \<noteq> None" for q
      using that si(4) [of q] si(4) [OF p(2)] by (auto simp: s' split: if_splits)
  next
    fix q n assume "hr_cells s q = Some n" "is_marked_ref (ll_next n)"
    then show "\<exists>n'. hr_cells s' q = Some n' \<and> ll_next n' = ll_next n" using p by (auto simp: s')
  next
    fix u q assume "q \<in> private_nodes (w u)"
    then have "q \<noteq> p" using p(1) unfolding published_def by blast
    then show "hr_cells s' q = hr_cells s q" by (simp add: s')
  qed (use le cl in auto)
qed

text \<open>A node is marked: the removal takes effect.\<close>

lemma hr_mark_step:
  assumes SI: "hr_SI kmin kmax s a w" and c: "seen_by_all (hr_mem s) w c" "hr_cells s c = Some nd" "\<not> is_marked_ref (ll_next nd)"
    and k: "kmin < ll_key nd" "ll_key nd < kmax" and x: "private_nodes x = private_nodes (w t)" "owned x \<subseteq> owned (w t)"
    and s': "s' = s\<lparr>hr_mem := put_cell c (nd\<lparr>ll_next := get_marked_ref (ll_next nd)\<rparr>) (hr_mem s)\<rparr>"
  shows "hr_does kmin kmax t s w a s' x (a(ll_key nd := None))"
    and "a (ll_key nd) = Some (ll_val nd)" and "hr_frozen s' (w(t := x)) c (ll_next nd)"
proof -
  note si = hr_SI_D [OF SI] and mem = hr_cas_memory [OF SI c s']
  let ?a = "a(ll_key nd := None)"
  have un: "unmarked (hr_mem s') = put_cell c nd (unmarked (hr_mem s))" using mem(1) c(3) by simp
  have cl: "c \<in> hr_live s" by (rule hr_liveI [OF SI c k])
  note mk = list_mark [OF si(1) cl mem(2) refl refl refl x]
  show "a (ll_key nd) = Some (ll_val nd)" by (rule mk(6))
  have nodes: "hr_nodes s' = hr_nodes s" and nm: "nm_of (cells (unmarked (hr_mem s'))) = nm_of (cells (unmarked (hr_mem s)))"
    unfolding un using mk(3,4) by (simp_all add: s')
  have clean: "hr_clean s' q \<longleftrightarrow> q \<noteq> c \<and> hr_clean s q" for q using mem(4) [of q] by auto
  have hd: "hr_head s' = hr_head s" by (simp add: s')
  have "ll_live (unmarked (hr_mem s')) (hr_head s') = ll_live (unmarked (hr_mem s)) (hr_head s)"
    unfolding ll_live_def nm using nodes by (simp add: hd)
  then have live: "hr_live s' = hr_live s - {c}" using clean by (auto simp: hr_live_def)
  have pub: "seen_by_all (hr_mem s') (w(t := x)) q \<longleftrightarrow> seen_by_all (hr_mem s) w q" for q
    unfolding un using published_put_cell [of "unmarked (hr_mem s)" c x w t] mem(2) x(1) by simp
  show "hr_does kmin kmax t s w a s' x ?a"
  proof (rule hr_cas_does [OF SI c _ _ s'])
    show "slist kmin kmax (unmarked (hr_mem s')) (w(t := x)) (hr_head s) (hr_live s') ?a"
      "list_effect t (unmarked (hr_mem s)) w (hr_live s) a (unmarked (hr_mem s')) (w(t := x)) (hr_live s') ?a"
      unfolding un live using mk(1,2) by simp_all
    show "q \<in> hr_nodes s'" if "seen_by_all (hr_mem s') (w(t := x)) q" "hr_clean s' q" for q
      using that si(2) [of q] unfolding pub nodes clean by blast
  qed (use k in simp_all)
  show "hr_frozen s' (w(t := x)) c (ll_next nd)" using pub c by (simp add: hr_frozen_def s')
qed

text \<open>A marked node is cut out.\<close>

lemma hr_cut_step:
  assumes SI: "hr_SI kmin kmax s a w" and p: "seen_by_all (hr_mem s) w p" "hr_cells s p = Some nd" "ll_next nd = c"
    and c: "\<not> is_marked_ref c" "hr_frozen s w c d" and x: "private_nodes x = private_nodes (w t)" "owned x \<subseteq> insert c (owned (w t))"
    and s': "s' = s\<lparr>hr_mem := put_cell p (nd\<lparr>ll_next := d\<rparr>) (hr_mem s)\<rparr>"
  shows "hr_does kmin kmax t s w a s' x a"
proof -
  have pc: "\<not> is_marked_ref (ll_next nd)" using p(3) c(1) by simp
  note si = hr_SI_D [OF SI] and mem = hr_cas_memory [OF SI p(1,2) pc s']
  obtain nc where nc: "hr_cells s c = Some nc" "is_marked_ref (ll_next nc)" "get_unmarked_ref (ll_next nc) = d"
    "cells (unmarked (hr_mem s)) c = Some (unmark_node nc)" "seen_by_all (hr_mem s) w c"
    using c(2) unfolding hr_frozen_def by (metis seen_cell option.inject)
  have d: "\<not> is_marked_ref d" using nc(3) marked_simps(2) by metis
  have un: "unmarked (hr_mem s') = put_cell p (nd\<lparr>ll_next := d\<rparr>) (unmarked (hr_mem s))" using mem(1) d by simp
  have cl: "c \<notin> hr_live s" using nc by (auto simp: hr_live_def)
  have kc: "ll_key (unmark_node nc) < kmax" using si(3) [OF nc(1,2)] by simp
  have nx: "ll_next (nd\<lparr>ll_next := d\<rparr>) = ll_next (unmark_node nc)" using nc(3) by simp
  note by_p = list_bypass [OF si(1) si(1) subset_refl mem(3,2) p(3) cl nc(4) kc _ _ nx x]
  have clean: "hr_clean s' q \<longleftrightarrow> hr_clean s q" for q using mem(4) [of q] d pc p(2) by simp
  have nodes: "hr_nodes s' = hr_nodes s - {c}"
    and lv: "ll_live (unmarked (hr_mem s')) (hr_head s') = ll_live (unmarked (hr_mem s)) (hr_head s) - {c}"
    unfolding un using by_p by (simp_all add: s')
  have live: "hr_live s' = hr_live s" using lv clean cl by (auto simp: hr_live_def)
  have pub: "seen_by_all (hr_mem s') (w(t := x)) q \<longleftrightarrow> seen_by_all (hr_mem s) w q" for q
    unfolding un using published_put_cell [of "unmarked (hr_mem s)" p x w t] mem(2) x(1) by simp
  show ?thesis
  proof (rule hr_cas_does [OF SI p(1,2) pc _ _ s'])
    show "slist kmin kmax (unmarked (hr_mem s')) (w(t := x)) (hr_head s) (hr_live s') a"
      "list_effect t (unmarked (hr_mem s)) w (hr_live s) a (unmarked (hr_mem s')) (w(t := x)) (hr_live s') a"
      unfolding un live using by_p by simp_all
    show "q \<in> hr_nodes s'" if "seen_by_all (hr_mem s') (w(t := x)) q" "hr_clean s' q" for q
      using that si(2) [of q] nc(1,2) unfolding pub nodes clean by auto
  qed (use d in simp_all)
qed

text \<open>A private node is linked in: the insertion takes effect.\<close>

lemma hr_link_step:
  assumes SI: "hr_SI kmin kmax s a w" and p: "seen_by_all (hr_mem s) w p" "hr_cells s p = Some nd" "ll_next nd = c"
    and c: "\<not> is_marked_ref c" "hr_node s w c (\<lambda>x. k < x)" and k: "ll_key nd < k"
    and new: "hr_cells s q = Some (allocate_ll_simple k v c)" "q \<in> private_nodes (w t)"
    and x: "private_nodes x = private_nodes (w t) - {q}" "owned x \<subseteq> owned (w t) - {q}"
    and s': "s' = s\<lparr>hr_mem := put_cell p (nd\<lparr>ll_next := q\<rparr>) (hr_mem s)\<rparr>"
  shows "hr_does kmin kmax t s w a s' x (a(k \<mapsto> v))" and "a k = None"
proof -
  have pc: "\<not> is_marked_ref (ll_next nd)" using p(3) c(1) by simp
  note si = hr_SI_D [OF SI] and mem = hr_cas_memory [OF SI p(1,2) pc s']
  have qm: "\<not> is_marked_ref q" by (rule si(4) [OF new(1)])
  have un: "unmarked (hr_mem s') = put_cell p (nd\<lparr>ll_next := q\<rparr>) (unmarked (hr_mem s))" using mem(1) qm by simp
  have qo: "q \<in> owned (w t)" using new(2) by blast
  have "\<not> junk (hr_mem s) q" using hr_owned [OF SI qo] by (simp add: junk_def)
  then have nq: "cells (unmarked (hr_mem s)) q = Some (allocate_ll_simple k v c)"
    using new(1) c(1) by (simp add: allocate_ll_simple_def)
  from c(2) obtain nc where nc: "cells (unmarked (hr_mem s)) c = Some nc" "k < ll_key nc" by (auto simp: list_node_def)
  note ln = list_link [OF si(1) mem(3,2) nq new(2), where n' = "nd\<lparr>ll_next := q\<rparr>" and x = x and nc = nc
      and m' = "unmarked (hr_mem s')" and a' = "a(k \<mapsto> v)"]
  have qp: "q \<noteq> p" using p(1) new(2) unfolding published_def by blast
  have cq: "hr_clean s q" using new(1) c(1) by (simp add: allocate_ll_simple_def)
  have clean: "hr_clean s' r \<longleftrightarrow> hr_clean s r" for r using mem(4) [of r] qm pc p(2) by simp
  have f: "slist kmin kmax (unmarked (hr_mem s')) (w(t := x)) (hr_head s) (insert q (hr_live s)) (a(k \<mapsto> v))"
    "list_effect t (unmarked (hr_mem s)) w (hr_live s) a (unmarked (hr_mem s')) (w(t := x)) (insert q (hr_live s)) (a(k \<mapsto> v))"
    "lnodes (unmarked (hr_mem s')) (hr_head s) = insert q (hr_nodes s)"
    "ll_live (unmarked (hr_mem s')) (hr_head s) = insert q (ll_live (unmarked (hr_mem s)) (hr_head s))"
    "a k = None"
    using ln p(3) k nc x un by (simp_all add: allocate_ll_simple_def)
  show "a k = None" by (rule f(5))
  have nodes: "hr_nodes s' = insert q (hr_nodes s)" using f(3) by (simp add: s')
  have "ll_live (unmarked (hr_mem s')) (hr_head s') = insert q (ll_live (unmarked (hr_mem s)) (hr_head s))"
    using f(4) by (simp add: s')
  then have live: "hr_live s' = insert q (hr_live s)" using clean cq by (auto simp: hr_live_def)
  have pub: "seen_by_all (hr_mem s') (w(t := x)) r \<Longrightarrow> seen_by_all (hr_mem s) w r \<or> r = q" for r
    unfolding un using published_put_new [of "unmarked (hr_mem s)" p x w t q] mem(2) x(1) by simp
  show "hr_does kmin kmax t s w a s' x (a(k \<mapsto> v))"
  proof (rule hr_cas_does [OF SI p(1,2) pc _ _ s'])
    show "slist kmin kmax (unmarked (hr_mem s')) (w(t := x)) (hr_head s) (hr_live s') (a(k \<mapsto> v))"
      "list_effect t (unmarked (hr_mem s)) w (hr_live s) a (unmarked (hr_mem s')) (w(t := x)) (hr_live s') (a(k \<mapsto> v))"
      unfolding live using f(1,2) by simp_all
    show "r \<in> hr_nodes s'" if "seen_by_all (hr_mem s') (w(t := x)) r" "hr_clean s' r" for r
      using pub [OF that(1)] that(2) si(2) [of r] unfolding nodes clean by blast
  qed (use qm in simp_all)
qed

lemma hr_cas_Next:
  assumes "hr_cas s p old new yes no = Next s' y"
  obtains nd where "hr_cells s p = Some nd" "ll_next nd = old" "y = yes"
      "s' = s\<lparr>hr_mem := put_cell p (nd\<lparr>ll_next := new\<rparr>) (hr_mem s)\<rparr>"
  | nd where "hr_cells s p = Some nd" "ll_next nd \<noteq> old" "y = no" "s' = s"
proof -
  from assms obtain nd where nd: "hr_cells s p = Some nd"
    "(if ll_next nd = old then Next (s\<lparr>hr_mem := put_cell p (nd\<lparr>ll_next := new\<rparr>) (hr_mem s)\<rparr>) yes else Next s no) = Next s' y"
    by (auto simp: hr_cas_def)
  show thesis
  proof (cases "ll_next nd = old")
    case True
    then have "y = yes" "s' = s\<lparr>hr_mem := put_cell p (nd\<lparr>ll_next := new\<rparr>) (hr_mem s)\<rparr>" using nd(2) by auto
    then show thesis by (rule that(1) [OF nd(1) True])
  next
    case False
    then have "y = no" "s' = s" using nd(2) by auto
    then show thesis by (rule that(2) [OF nd(1) False])
  qed
qed

lemma hr_cas_Fault: "hr_cas s p old new yes no = Fault \<longleftrightarrow> hr_cells s p = None"
  by (auto simp: hr_cas_def)

text \<open>What the thread itself still knows after a step that is not a linearization point.\<close>

lemma hr_kept:
  assumes "hr_effect t s w a s' w' a" and "observed map_spec a g"
  shows "list_op kmin kmax op g \<Longrightarrow> hr_ahead s w op g p \<Longrightarrow> hr_ahead s' w' op g p"
    and "hr_found s w k g c \<Longrightarrow> hr_found s' w' k g c"
  using hr_effect_ahead [OF assms] hr_effect_found [OF assms(1)] observe_observed [OF assms(2)] by fastforce+

section \<open>Initialization, length and destruction\<close>

text \<open>The runs considered, from sentinels at two even addresses.\<close>

definition harris_run_ok :: "'k::linorder \<Rightarrow> 'k \<Rightarrow> ptr \<Rightarrow> ptr \<Rightarrow> nat \<Rightarrow> bool" where
  "harris_run_ok kmin kmax h t n \<longleftrightarrow> list_run_ok kmin kmax h t n \<and> \<not> is_marked_ref h \<and> \<not> is_marked_ref t"

lemma hr_SI_init:
  assumes "harris_run_ok kmin kmax h t n"
  shows "hr_SI kmin kmax (hr_init kmin kmax h t :: ('k::linorder, 'v::zero) harris) Map.empty (\<lambda>_. none_owned)"
proof -
  let ?s = "hr_init kmin kmax h t :: ('k, 'v) harris"
  have ok: "h \<noteq> NULL" "t \<noteq> NULL" "h \<noteq> t" "kmin < kmax" "\<not> is_marked_ref h" "\<not> is_marked_ref t"
    using assms by (simp_all add: harris_run_ok_def list_run_ok_def)
  have raw: "hr_cells ?s = [h \<mapsto> initialize_ll_simple kmin 0 t, t \<mapsto> initialize_ll_simple kmax 0 NULL]"
    and rel: "released (hr_mem ?s) = {}"
    using ok by (auto simp: hr_init_def empty_store_def fun_eq_iff)
  have j: "\<not> junk (hr_mem ?s) p" for p by (simp add: junk_def rel)
  have c: "cells (unmarked (hr_mem ?s)) = [h \<mapsto> initialize_ll_simple kmin 0 t, t \<mapsto> initialize_ll_simple kmax 0 NULL]"
    using ok by (auto simp: unmarked_def j raw initialize_ll_simple_def fun_eq_iff)
  have r0: "released (unmarked (hr_mem ?s)) = {}" by (simp add: unmarked_def rel)
  note si = slist_init [OF ok(1-3) c r0, of kmin kmax]
  have sl: "slist kmin kmax (unmarked (hr_mem ?s)) (\<lambda>_. none_owned :: unit ownership) h {} Map.empty"
    "ll_live (unmarked (hr_mem ?s)) h = {}"
    using si ok by (simp_all add: initialize_ll_simple_def)
  have hd: "hr_head ?s = h" by (simp add: hr_init_def)
  have "path (cells (unmarked (hr_mem ?s))) ll_next h [h, t] NULL"
    using c ok by (auto simp: initialize_ll_simple_def)
  from nodes_from_path [OF this] have nodes: "hr_nodes ?s = set [h, t]" unfolding hd .
  have "p \<in> {h, t}" if "seen_by_all (hr_mem ?s) (\<lambda>_. none_owned :: unit ownership) p" for p
    using that by (auto simp: published_def c split: if_splits)
  moreover have "hr_live ?s = {}" using sl(2) by (simp add: hr_live_def hd)
  ultimately show ?thesis
    using sl(1) nodes ok unfolding hr_SI_def raw hd by (auto simp: initialize_ll_simple_def split: if_splits)
qed

lemma hr_length_loop_path:
  assumes "path (cells (unmarked m)) ll_next p (qs @ [q]) NULL"
  shows "hr_length_loop (cells m) p c =
    Some (c + int (length (filter (\<lambda>x. \<exists>n. cells m x = Some n \<and> \<not> is_marked_ref (ll_next n)) qs)))"
  using assms
proof (induction qs arbitrary: p c)
  case Nil
  then obtain n where "cells m p = Some n" "get_unmarked_ref (ll_next n) = NULL" by (auto simp: unmarked_cell)
  then show ?case by (simp add: hr_length_loop.simps [of "cells m" p])
next
  case (Cons x xs)
  from Cons.prems obtain n where n: "p = x" "cells m x = Some n"
    "path (cells (unmarked m)) ll_next (get_unmarked_ref (ll_next n)) (xs @ [q]) NULL" by (auto simp: unmarked_cell)
  then have "get_unmarked_ref (ll_next n) \<noteq> NULL" by (cases xs) auto
  with Cons.IH [OF n(3)] n(1,2) show ?case by (simp add: hr_length_loop.simps [of "cells m" x])
qed

lemma hr_length_counts:
  assumes SI: "hr_SI kmin kmax s a w" and k: "kmin < kmax"
  shows "hr_length s = Some (int (card (dom a)))"
proof -
  let ?m = "unmarked (hr_mem s)"
  from hr_SI_D(1) [OF SI] obtain ps tail where sl: "sorted_list kmin kmax ?m w (hr_head s) ps tail (hr_live s) a"
    by (auto simp: slist_def)
  note pth = sl_path [OF sl]
  have tail: "ps \<noteq> []" "last ps = tail" using sl by (auto simp: sorted_list_def)
  have ht: "hr_head s \<noteq> tail" using sl k by (auto simp: sorted_list_def)
  from pth tail(1) obtain n qs where qs: "ps = hr_head s # qs" "hr_cells s (hr_head s) = Some n"
    "path (cells ?m) ll_next (get_unmarked_ref (ll_next n)) qs NULL"
    by (cases ps) (auto simp: unmarked_cell)
  then have "qs \<noteq> []" using tail ht by auto
  with tail qs obtain xs where xs: "qs = xs @ [tail]" by (metis append_butlast_last_id last_ConsR)
  let ?ys = "filter (hr_clean s) xs"
  have len: "hr_length s = Some (int (length ?ys))"
    using hr_length_loop_path [OF qs(3) [unfolded xs], of 0] qs(2) by (simp add: hr_length_def hr_clean_def cong: filter_cong)
  have d: "distinct ps" by (rule path_distinct [OF pth])
  have "ll_live ?m (hr_head s) = set xs" using ll_live_eq [OF sl] d by (auto simp: qs xs)
  then have lv: "hr_live s = set ?ys" by (auto simp: hr_live_def)
  have "card (hr_live s) = length ?ys" unfolding lv by (rule distinct_card) (use d in \<open>simp add: qs xs\<close>)
  moreover have "card (hr_live s) = card (dom a)"
  proof (rule represents_card [OF sl_represents [OF sl]])
    fix p assume "p \<in> hr_live s"
    then have "p \<in> set ps" using sl_live [OF sl] by blast
    then show "kv_of (cells ?m) p \<noteq> None" using path_cells [OF pth, of p] by (auto simp: kv_of_def)
  qed
  ultimately show ?thesis using len by simp
qed

text \<open>The destructor calls \<^verbatim>\<open>free\<close> itself, in every build. It needs that no marked node is linked any more, and that the
  C library allocated all of them.\<close>

lemma hr_destroy_clean:
  assumes SI: "hr_SI kmin kmax s a w" and clean: "\<And>p. p \<in> hr_nodes s \<Longrightarrow> hr_clean s p"
  shows "hr_destroy heap s = (if hr_nodes s \<subseteq> heap then Some (cells_freed (hr_mem s) (hr_nodes s)) else None)"
proof -
  let ?m = "unmarked (hr_mem s)"
  from hr_SI_D(1) [OF SI] obtain ps tail where sl: "sorted_list kmin kmax ?m w (hr_head s) ps tail (hr_live s) a"
    by (auto simp: slist_def)
  have nodes: "hr_nodes s = set ps" by (rule sl_nodes_from [OF sl])
  have c: "\<not> junk (hr_mem s) p \<and> (\<exists>n. hr_cells s p = Some n \<and> \<not> is_marked_ref (ll_next n))" if "p \<in> set ps" for p
  proof -
    have "cells ?m p \<noteq> None" using path_cells [OF sl_path [OF sl] that] by auto
    then show ?thesis using clean [of p] that nodes by (auto simp: hr_clean_def unmarked_None)
  qed
  have raw: "path (hr_cells s) ll_next (hr_head s) ps NULL"
  proof (rule path_cong [OF sl_path [OF sl]])
    fix p assume "p \<in> set ps"
    from c [OF this] show "map_option ll_next (hr_cells s p) = map_option ll_next (cells ?m p)" by auto
  qed
  have "set ps \<inter> released (hr_mem s) = {}" using c by (auto simp: junk_def)
  from ll_destroy_loop_free [OF raw this] show ?thesis by (simp add: hr_destroy_def nodes)
qed

lemma ll_destroy_loop_marked:
  assumes "path (cells (unmarked m)) ll_next p ps NULL" and "\<And>q. is_marked_ref q \<Longrightarrow> cells m q = None"
    and "\<exists>x n. x \<in> set ps \<and> cells m x = Some n \<and> is_marked_ref (ll_next n)"
  shows "ll_destroy_loop (c_free heap) m p = None"
  using assms
proof (induction ps arbitrary: m p)
  case (Cons x xs)
  from Cons.prems(1) obtain n where n: "p = x" "x \<noteq> NULL" "cells m x = Some n"
    "path (cells (unmarked m)) ll_next (get_unmarked_ref (ll_next n)) xs NULL" by (auto simp: unmarked_cell)
  have x: "x \<notin> set xs" using path_distinct [OF Cons.prems(1)] by simp
  let ?m = "m\<lparr>cells := (cells m)(x := None)\<rparr>"
  have "ll_destroy_loop (c_free heap) ?m (ll_next n) = None"
  proof (cases "is_marked_ref (ll_next n)")
    case True
    then have "cells ?m (ll_next n) = None" "ll_next n \<noteq> NULL" using Cons.prems(2) by auto
    then show ?thesis by (simp add: ll_destroy_loop.simps [of _ ?m "ll_next n"])
  next
    case False
    have cell: "cells (unmarked ?m) y = cells (unmarked m) y" if "y \<noteq> x" for y
      using that by (auto simp: unmarked_def junk_def)
    have "path (cells (unmarked ?m)) ll_next (ll_next n) xs NULL"
    proof (rule path_cong)
      show "path (cells (unmarked m)) ll_next (ll_next n) xs NULL" using n(4) False by simp
      show "map_option ll_next (cells (unmarked ?m) y) = map_option ll_next (cells (unmarked m) y)" if "y \<in> set xs" for y
      proof -
        have "y \<noteq> x" using that x by auto
        from arg_cong [OF cell [OF this]] show ?thesis .
      qed
    qed
    moreover have "\<exists>y n. y \<in> set xs \<and> cells ?m y = Some n \<and> is_marked_ref (ll_next n)"
      using Cons.prems(3) n(3) False x by (auto split: if_splits)
    ultimately show ?thesis by (intro Cons.IH) (use Cons.prems(2) in auto)
  qed
  then show ?case using n by (subst ll_destroy_loop.simps) (simp add: c_free_def)
qed simp

lemma hr_destroy_marked:
  assumes SI: "hr_SI kmin kmax s a w" and p: "p \<in> hr_nodes s" "\<not> hr_clean s p"
  shows "hr_destroy heap s = None"
proof -
  from hr_SI_D(1) [OF SI] obtain ps tail where sl: "sorted_list kmin kmax (unmarked (hr_mem s)) w (hr_head s) ps tail (hr_live s) a"
    by (auto simp: slist_def)
  have pp: "p \<in> set ps" using p(1) sl_nodes_from [OF sl] by simp
  obtain n where n: "hr_cells s p = Some n" using path_cells [OF sl_path [OF sl] pp] by (auto simp: unmarked_cell)
  show ?thesis
    unfolding hr_destroy_def
  proof (rule ll_destroy_loop_marked [OF sl_path [OF sl]])
    show "hr_cells s q = None" if "is_marked_ref q" for q using hr_SI_D(4) [OF SI, of q] that by (cases "hr_cells s q") auto
    show "\<exists>x n. x \<in> set ps \<and> hr_cells s x = Some n \<and> is_marked_ref (ll_next n)" using p(2) pp n by auto
  qed
qed

text \<open>If the destructor fails though every address may be freed, it fails.\<close>

lemma ll_destroy_loop_UNIV:
  assumes "ll_destroy_loop (c_free heap) m p = Some m'"
  shows "ll_destroy_loop (c_free UNIV) m p = Some m'"
proof -
  have "d = c_free heap \<longrightarrow> ll_destroy_loop (c_free UNIV) m p = Some m'" if "ll_destroy_loop d m p = Some m'" for d
  proof (rule ll_destroy_loop.raw_induct [OF _ that, of "\<lambda>d m p m'. d = c_free heap \<longrightarrow> ll_destroy_loop (c_free UNIV) m p = Some m'"], intro impI)
    fix rec d m p m'
    assume IH: "\<And>d m p m'. rec d m p = Some m' \<Longrightarrow> d = c_free heap \<longrightarrow> ll_destroy_loop (c_free UNIV) m p = Some m'"
      and ex: "(if p = NULL then Some m else case cells m p of None \<Rightarrow> None
        | Some n \<Rightarrow> Option.bind (d m p) (\<lambda>m'. rec d m' (ll_next n))) = Some m'" and d: "d = c_free heap"
    show "ll_destroy_loop (c_free UNIV) m p = Some m'"
      using ex IH [of d] d by (subst ll_destroy_loop.simps) (auto simp: c_free_def split: if_splits option.splits)
  qed
  then show ?thesis using assms by blast
qed

lemma hr_destroy_UNIV: "hr_destroy UNIV s = None \<Longrightarrow> hr_destroy heap s = None"
  using ll_destroy_loop_UNIV [of heap "hr_mem s" "hr_head s"] by (cases "hr_destroy heap s") (auto simp: hr_destroy_def)

text \<open>The pointer of a linked node.\<close>

lemma hr_linked:
  assumes SI: "hr_SI kmin kmax s a w" and p: "p \<in> hr_nodes s"
  shows "\<exists>nd. hr_cells s p = Some nd \<and> p \<notin> released (hr_mem s) \<and>
     (if get_unmarked_ref (ll_next nd) = NULL then ll_key nd = kmax
      else get_unmarked_ref (ll_next nd) \<in> hr_nodes s \<and>
        (\<exists>nd'. hr_cells s (get_unmarked_ref (ll_next nd)) = Some nd' \<and> ll_key nd < ll_key nd'))"
proof -
  let ?m = "unmarked (hr_mem s)"
  note si = hr_SI_D [OF SI]
  from si(1) obtain ps tail where sl: "sorted_list kmin kmax ?m w (hr_head s) ps tail (hr_live s) a"
    by (auto simp: slist_def)
  have pub: "seen_by_all (hr_mem s) w p" by (rule slist_published [OF si(1) p])
  from seen_cell [OF pub] obtain nd where nd: "hr_cells s p = Some nd" "\<not> junk (hr_mem s) p" "cells ?m p = Some (unmark_node nd)" .
  have "p \<notin> released ?m" using partition_live [OF slist_partition [OF si(1)] p] by blast
  then have rel: "p \<notin> released (hr_mem s)" using nd(2) by (simp add: unmarked_def)
  let ?q = "get_unmarked_ref (ll_next nd)"
  have "if ?q = NULL then ll_key nd = kmax
      else published ?m w ?q \<and> (\<exists>n'. cells ?m ?q = Some n' \<and> ll_key nd < ll_key n')"
  proof -
    have "\<forall>p n. published ?m w p \<longrightarrow> cells ?m p = Some n \<longrightarrow> (if ll_next n = NULL then ll_key n = kmax
       else published ?m w (ll_next n) \<and> (\<exists>n'. cells ?m (ll_next n) = Some n' \<and> ll_key n < ll_key n'))"
      using sl unfolding sorted_list_def by blast
    from this [rule_format, OF pub nd(3)] show ?thesis by (simp split: if_splits)
  qed
  moreover have "?q \<in> hr_nodes s" if "?q \<noteq> NULL"
    using sl_next_in [OF sl _ nd(3)] p that sl_nodes_from [OF sl] by simp
  moreover have "\<exists>nd'. hr_cells s ?q = Some nd' \<and> ll_key nd < ll_key nd'" if "cells ?m ?q = Some n'" "ll_key nd < ll_key n'" for n'
    using that by (auto simp: unmarked_cell)
  ultimately show ?thesis using nd(1) rel by (cases "?q = NULL") auto
qed

end
