(* ===== verification/LinkedList_HarrisOpt.thy ===== *)
theory LinkedList_HarrisOpt
  imports Harris_Nodes
begin

text \<open>
  The optimised lock-free list, \<^verbatim>\<open>src/algorithms/linkedlist_harris_opt.h\<close>: the traversal of an update cuts out the
  marked nodes it meets one by one; \<^verbatim>\<open>search\<close> only reads. \<open>gc\<close> is the build option \<^verbatim>\<open>GC == 1\<close> (the default of the
  \<^verbatim>\<open>Makefile\<close>), in which nodes that were cut out, and new nodes that could not be linked, are given back to the
  allocator. In that build \<^verbatim>\<open>list_search\<close> goes on, after its own \<^verbatim>\<open>ssmem_free\<close>, with the references it took before,
  which the contract of the allocator forbids (\<open>release\<close>). The lemmas hold in the model of both builds; the
  properties that depend on what memory holds are stated for \<^verbatim>\<open>GC == 0\<close>, in which nothing is released.
\<close>

section \<open>The code\<close>

text \<open>\<^verbatim>\<open>list_search\<close> is called by \<^verbatim>\<open>harris_insert\<close> and \<^verbatim>\<open>harris_remove\<close>.\<close>

datatype ('k, 'v) ho_caller = By_Insert 'k 'v | By_Remove 'k

fun ho_op :: "('k, 'v) ho_caller \<Rightarrow> ('k, 'v) map_op" where
  "ho_op (By_Insert k v) = Insert k v"
| "ho_op (By_Remove k) = Delete k"

datatype 'k ho_find_pc =
    HF_Head 'k                      \<comment> \<open>\<^verbatim>\<open>harris_find\<close>: \<^verbatim>\<open>node = head->next\<close>\<close>
  | HF_Key 'k ptr                   \<comment> \<open>\<^verbatim>\<open>node->key < key\<close>\<close>
  | HF_Next 'k ptr                  \<comment> \<open>\<^verbatim>\<open>node = get_unmarked_ref(node->next)\<close>\<close>
  | HF_Test 'k ptr                  \<comment> \<open>\<^verbatim>\<open>node->key == key\<close>\<close>
  | HF_Mark 'k ptr                  \<comment> \<open>\<^verbatim>\<open>!is_marked_ref(node->next)\<close>\<close>
  | HF_Val 'k ptr                   \<comment> \<open>\<^verbatim>\<open>return node->val\<close>\<close>

datatype ('k, 'v) ho_search_pc =
    LS_Head "('k, 'v) ho_caller"            \<comment> \<open>\<^verbatim>\<open>list_search\<close>: \<^verbatim>\<open>left_node = head, right_node = head->next\<close>\<close>
  | LS_Mark "('k, 'v) ho_caller" ptr ptr    \<comment> \<open>\<^verbatim>\<open>!is_marked_ref(right_node->next)\<close>\<close>
  | LS_Key "('k, 'v) ho_caller" ptr ptr     \<comment> \<open>\<^verbatim>\<open>right_node->key >= key\<close>, else \<^verbatim>\<open>left_node = right_node\<close>\<close>
  | LS_New "('k, 'v) ho_caller" ptr ptr     \<comment> \<open>\<^verbatim>\<open>physical_delete_right\<close>: \<^verbatim>\<open>new_next = get_unmarked_ref(right_node->next)\<close>\<close>
  | LS_Cas "('k, 'v) ho_caller" ptr ptr ptr \<comment> \<open>\<^verbatim>\<open>CAS_PTR(&left_node->next, right_node, new_next)\<close>\<close>
  | LS_Free "('k, 'v) ho_caller" ptr ptr    \<comment> \<open>\<^verbatim>\<open>GC\<close>: \<^verbatim>\<open>ssmem_free(alloc, res)\<close>\<close>
  | LS_Next "('k, 'v) ho_caller" ptr ptr    \<comment> \<open>\<^verbatim>\<open>right_node = get_unmarked_ref(right_node->next)\<close>\<close>

datatype ('k, 'v) ho_insert_pc =
    HI_Test 'k 'v ptr ptr           \<comment> \<open>\<^verbatim>\<open>harris_insert\<close>: \<^verbatim>\<open>right_node->key == key\<close>\<close>
  | HI_Alloc 'k 'v ptr ptr          \<comment> \<open>\<^verbatim>\<open>node_to_add = allocate_ll_simple(key, val, right_node)\<close>\<close>
  | HI_Cas 'k 'v ptr ptr ptr        \<comment> \<open>\<^verbatim>\<open>CAS_PTR(&left_node->next, right_node, node_to_add)\<close>\<close>
  | HI_Free 'k 'v ptr               \<comment> \<open>\<^verbatim>\<open>GC\<close>: \<^verbatim>\<open>ssmem_free(alloc, node_to_add)\<close>; try again\<close>

datatype ('k, 'v) ho_remove_pc =
    HR_Test 'k ptr ptr              \<comment> \<open>\<^verbatim>\<open>harris_remove\<close>: \<^verbatim>\<open>right_node->key != key\<close>\<close>
  | HR_Ref 'k ptr ptr               \<comment> \<open>\<^verbatim>\<open>unmarked_ref = get_unmarked_ref(right_node->next)\<close>\<close>
  | HR_Cas 'k ptr ptr ptr           \<comment> \<open>\<^verbatim>\<open>CAS_PTR(&right_node->next, unmarked_ref, marked_ref)\<close>, or try again\<close>
  | HR_Val 'k ptr ptr               \<comment> \<open>\<^verbatim>\<open>ret = right_node->val\<close>\<close>
  | HR_New ptr ptr 'v               \<comment> \<open>\<^verbatim>\<open>physical_delete_right\<close>: \<^verbatim>\<open>new_next\<close>\<close>
  | HR_Cut ptr ptr ptr 'v           \<comment> \<open>\<^verbatim>\<open>CAS_PTR(&left_node->next, right_node, new_next)\<close>\<close>
  | HR_Free ptr 'v                  \<comment> \<open>\<^verbatim>\<open>GC\<close>: \<^verbatim>\<open>ssmem_free(alloc, res)\<close>; \<^verbatim>\<open>return ret\<close>\<close>

datatype ('k, 'v) ho_pc =
  HFind "'k ho_find_pc" | HList "('k, 'v) ho_search_pc" | HInsert "('k, 'v) ho_insert_pc" | HRemove "('k, 'v) ho_remove_pc"

type_synonym ('k, 'v) ho_outcome = "(('k, 'v) harris, ('k, 'v) ho_pc, 'v map_ret) outcome"

fun ho_found_pc :: "('k, 'v) ho_caller \<Rightarrow> ptr \<Rightarrow> ptr \<Rightarrow> ('k, 'v) ho_pc" where
  "ho_found_pc (By_Insert k v) l r = HInsert (HI_Test k v l r)"
| "ho_found_pc (By_Remove k) l r = HRemove (HR_Test k l r)"

definition ho_free :: "('k, 'v) harris \<Rightarrow> ptr \<Rightarrow> (('k, 'v) ho_pc, 'v map_ret) control \<Rightarrow> ('k, 'v) ho_outcome" where
  "ho_free s p y = ll_simple_release (hr_mem s) p (\<lambda>m. Next (s\<lparr>hr_mem := m\<rparr>) y)"

text \<open>\<^verbatim>\<open>harris_find\<close>.\<close>

fun ho_find :: "('k::linorder, 'v::zero) harris \<Rightarrow> 'k ho_find_pc \<Rightarrow> ('k, 'v) ho_outcome" where
  "ho_find s (HF_Head k) = deref (hr_cells s) (hr_head s) (\<lambda>n. Next s (At (HFind (HF_Key k (ll_next n)))))"
| "ho_find s (HF_Key k c) =
     deref (hr_cells s) c (\<lambda>n. Next s (At (HFind (if ll_key n < k then HF_Next k c else HF_Test k c))))"
| "ho_find s (HF_Next k c) = deref (hr_cells s) c (\<lambda>n. Next s (At (HFind (HF_Key k (get_unmarked_ref (ll_next n))))))"
| "ho_find s (HF_Test k c) =
     deref (hr_cells s) c (\<lambda>n. Next s (if ll_key n = k then At (HFind (HF_Mark k c)) else Finished (Ret_Val 0)))"
| "ho_find s (HF_Mark k c) =
     deref (hr_cells s) c (\<lambda>n. Next s (if \<not> is_marked_ref (ll_next n) then At (HFind (HF_Val k c)) else Finished (Ret_Val 0)))"
| "ho_find s (HF_Val k c) = deref (hr_cells s) c (\<lambda>n. Next s (Finished (Ret_Val (ll_val n))))"

text \<open>\<^verbatim>\<open>list_search\<close> with \<^verbatim>\<open>physical_delete_right\<close>.\<close>

fun ho_list_search :: "bool \<Rightarrow> ('k::linorder, 'v::zero) harris \<Rightarrow> ('k, 'v) ho_search_pc \<Rightarrow> ('k, 'v) ho_outcome" where
  "ho_list_search gc s (LS_Head u) =
     deref (hr_cells s) (hr_head s) (\<lambda>n. Next s (At (HList (LS_Mark u (hr_head s) (ll_next n)))))"
| "ho_list_search gc s (LS_Mark u l r) =
     deref (hr_cells s) r (\<lambda>n. Next s (At (HList (if \<not> is_marked_ref (ll_next n) then LS_Key u l r else LS_New u l r))))"
| "ho_list_search gc s (LS_Key u l r) =
     deref (hr_cells s) r (\<lambda>n. Next s (At (if op_key (ho_op u) \<le> ll_key n then ho_found_pc u l r else HList (LS_Next u r r))))"
| "ho_list_search gc s (LS_New u l r) =
     deref (hr_cells s) r (\<lambda>n. Next s (At (HList (LS_Cas u l r (get_unmarked_ref (ll_next n))))))"
| "ho_list_search gc s (LS_Cas u l r d) = hr_cas s l r d (At (HList (if gc then LS_Free u l r else LS_Next u l r))) (At (HList (LS_Next u l r)))"
| "ho_list_search gc s (LS_Free u l r) = ho_free s r (At (HList (LS_Next u l r)))"
| "ho_list_search gc s (LS_Next u l r) =
     deref (hr_cells s) r (\<lambda>n. Next s (At (HList (LS_Mark u l (get_unmarked_ref (ll_next n))))))"

text \<open>\<^verbatim>\<open>harris_insert\<close>. Without \<^verbatim>\<open>GC\<close> the last step only goes back to the start of the loop, and the new node, to which
  nothing points, is lost; the model notes that in \<open>released\<close>, which no step of this build reads.\<close>

fun ho_insert :: "ptr \<Rightarrow> ('k::linorder, 'v::zero) harris \<Rightarrow> ('k, 'v) ho_insert_pc \<Rightarrow> ('k, 'v) ho_outcome" where
  "ho_insert p s (HI_Test k v l r) =
     deref (hr_cells s) r (\<lambda>n. Next s (if ll_key n = k then Finished (Ret_Int 0) else At (HInsert (HI_Alloc k v l r))))"
| "ho_insert p s (HI_Alloc k v l r) =
     alloc_even (hr_cells s) p
       (Next (s\<lparr>hr_mem := put_cell p (allocate_ll_simple k v r) (hr_mem s)\<rparr>) (At (HInsert (HI_Cas k v l r p))))"
| "ho_insert p s (HI_Cas k v l r x) = hr_cas s l r x (Finished (Ret_Int 1)) (At (HInsert (HI_Free k v x)))"
| "ho_insert p s (HI_Free k v x) = ho_free s x (At (HList (LS_Head (By_Insert k v))))"

text \<open>\<^verbatim>\<open>harris_remove\<close>.\<close>

fun ho_remove :: "bool \<Rightarrow> ('k::linorder, 'v::zero) harris \<Rightarrow> ('k, 'v) ho_remove_pc \<Rightarrow> ('k, 'v) ho_outcome" where
  "ho_remove gc s (HR_Test k l r) =
     deref (hr_cells s) r (\<lambda>n. Next s (if ll_key n \<noteq> k then Finished (Ret_Val 0) else At (HRemove (HR_Ref k l r))))"
| "ho_remove gc s (HR_Ref k l r) =
     deref (hr_cells s) r (\<lambda>n. Next s (At (HRemove (HR_Cas k l r (get_unmarked_ref (ll_next n))))))"
| "ho_remove gc s (HR_Cas k l r u) = hr_cas s r u (get_marked_ref u) (At (HRemove (HR_Val k l r))) (At (HList (LS_Head (By_Remove k))))"
| "ho_remove gc s (HR_Val k l r) = deref (hr_cells s) r (\<lambda>n. Next s (At (HRemove (HR_New l r (ll_val n)))))"
| "ho_remove gc s (HR_New l r v) = deref (hr_cells s) r (\<lambda>n. Next s (At (HRemove (HR_Cut l r (get_unmarked_ref (ll_next n)) v))))"
| "ho_remove gc s (HR_Cut l r d v) = hr_cas s l r d (if gc then At (HRemove (HR_Free r v)) else Finished (Ret_Val v)) (Finished (Ret_Val v))"
| "ho_remove gc s (HR_Free r v) = ho_free s r (Finished (Ret_Val v))"

fun ho_exec :: "bool \<Rightarrow> tid \<Rightarrow> ptr \<Rightarrow> ('k::linorder, 'v::zero) harris \<Rightarrow> ('k, 'v) ho_pc \<Rightarrow> ('k, 'v) ho_outcome" where
  "ho_exec gc t p s (HFind x) = ho_find s x"
| "ho_exec gc t p s (HList x) = ho_list_search gc s x"
| "ho_exec gc t p s (HInsert x) = ho_insert p s x"
| "ho_exec gc t p s (HRemove x) = ho_remove gc s x"

fun ho_entry :: "('k, 'v) map_op \<Rightarrow> ('k, 'v) ho_pc" where
  "ho_entry (Search k) = HFind (HF_Head k)"
| "ho_entry (Insert k v) = HList (LS_Head (By_Insert k v))"
| "ho_entry (Delete k) = HList (LS_Head (By_Remove k))"

definition ho_start :: "'k::linorder \<Rightarrow> 'k \<Rightarrow> ('k, 'v) map_op \<Rightarrow> ('k, 'v) ho_pc option" where
  "ho_start kmin kmax op = (if kmin < op_key op \<and> op_key op < kmax then Some (ho_entry op) else None)"

section \<open>The invariant\<close>

fun ho_own :: "(('k, 'v) ho_pc, 'v map_ret) control \<Rightarrow> unit ownership" where
  "ho_own (At (HList (LS_Free u l r))) = holding {} {r} {}"
| "ho_own (At (HInsert (HI_Cas k v l r x))) = holding {x} {} {}"
| "ho_own (At (HInsert (HI_Free k v x))) = holding {x} {} {}"
| "ho_own (At (HRemove (HR_Free r v))) = holding {} {r} {}"
| "ho_own _ = none_owned"

text \<open>A node the thread has made and not published.\<close>

definition ho_new :: "('k::linorder, 'v) harris \<Rightarrow> (tid \<Rightarrow> unit ownership) \<Rightarrow> 'k \<Rightarrow> 'v \<Rightarrow> ptr \<Rightarrow> ptr \<Rightarrow> bool" where
  "ho_new s w k v x r \<longleftrightarrow> hr_cells s x = Some (allocate_ll_simple k v r) \<and> \<not> is_marked_ref r"

fun ho_LI :: "'k::linorder \<Rightarrow> 'k \<Rightarrow> tid \<Rightarrow> ('k, 'v::zero) harris \<Rightarrow> ('k \<rightharpoonup> 'v) \<Rightarrow> (tid \<Rightarrow> unit ownership) \<Rightarrow>
    (('k, 'v) ho_pc, 'v map_ret) control \<Rightarrow> (('k, 'v) map_op, 'v map_ret) ghost \<Rightarrow> bool" where
  "ho_LI kmin kmax t s a w Idle g = (g = Quiet)"
| "ho_LI kmin kmax t s a w (Finished r) g = returns g r"
| "ho_LI kmin kmax t s a w (At (HFind (HF_Head k))) g = list_op kmin kmax (Search k) g"
| "ho_LI kmin kmax t s a w (At (HFind (HF_Key k c))) g = (list_op kmin kmax (Search k) g \<and> hr_ahead s w (Search k) g c)"
| "ho_LI kmin kmax t s a w (At (HFind (HF_Next k c))) g =
     (list_op kmin kmax (Search k) g \<and> hr_ahead s w (Search k) g c \<and> hr_node s w c (\<lambda>x. x < k))"
| "ho_LI kmin kmax t s a w (At (HFind (HF_Test k c))) g =
     (list_op kmin kmax (Search k) g \<and> hr_ahead s w (Search k) g c \<and> hr_node s w c (\<lambda>x. k \<le> x))"
| "ho_LI kmin kmax t s a w (At (HFind (HF_Mark k c))) g =
     (list_op kmin kmax (Search k) g \<and> hr_ahead s w (Search k) g c \<and> hr_node s w c (\<lambda>x. x = k))"
| "ho_LI kmin kmax t s a w (At (HFind (HF_Val k c))) g =
     (list_op kmin kmax (Search k) g \<and> hr_found s w k g c \<and> hr_node s w c (\<lambda>x. x = k))"
| "ho_LI kmin kmax t s a w (At (HList (LS_Head u))) g = list_op kmin kmax (ho_op u) g"
| "ho_LI kmin kmax t s a w (At (HList (LS_Mark u l r))) g =
     (list_op kmin kmax (ho_op u) g \<and> hr_node s w l (\<lambda>x. x < op_key (ho_op u)) \<and> hr_ahead s w (ho_op u) g r)"
| "ho_LI kmin kmax t s a w (At (HList (LS_Key u l r))) g =
     (list_op kmin kmax (ho_op u) g \<and> hr_node s w l (\<lambda>x. x < op_key (ho_op u)) \<and> hr_ahead s w (ho_op u) g r \<and>
      hr_found s w (op_key (ho_op u)) g r)"
| "ho_LI kmin kmax t s a w (At (HList (LS_New u l r))) g =
     (list_op kmin kmax (ho_op u) g \<and> hr_node s w l (\<lambda>x. x < op_key (ho_op u)) \<and> hr_ahead s w (ho_op u) g r \<and> hr_dead s w r)"
| "ho_LI kmin kmax t s a w (At (HList (LS_Cas u l r d))) g =
     (list_op kmin kmax (ho_op u) g \<and> hr_node s w l (\<lambda>x. x < op_key (ho_op u)) \<and> hr_ahead s w (ho_op u) g r \<and> hr_frozen s w r d)"
| "ho_LI kmin kmax t s a w (At (HList (LS_Free u l r))) g =
     (list_op kmin kmax (ho_op u) g \<and> hr_node s w l (\<lambda>x. x < op_key (ho_op u)) \<and> hr_ahead s w (ho_op u) g r \<and> hr_dead s w r)"
| "ho_LI kmin kmax t s a w (At (HList (LS_Next u l r))) g =
     (list_op kmin kmax (ho_op u) g \<and> hr_node s w l (\<lambda>x. x < op_key (ho_op u)) \<and> hr_ahead s w (ho_op u) g r \<and>
      (hr_node s w r (\<lambda>x. x < op_key (ho_op u)) \<or> hr_dead s w r))"
| "ho_LI kmin kmax t s a w (At (HInsert (HI_Test k v l r))) g =
     (list_op kmin kmax (Insert k v) g \<and> hr_node s w l (\<lambda>x. x < k) \<and> hr_node s w r (\<lambda>x. k \<le> x) \<and> hr_found s w k g r)"
| "ho_LI kmin kmax t s a w (At (HInsert (HI_Alloc k v l r))) g =
     (list_op kmin kmax (Insert k v) g \<and> hr_node s w l (\<lambda>x. x < k) \<and> hr_node s w r (\<lambda>x. k < x))"
| "ho_LI kmin kmax t s a w (At (HInsert (HI_Cas k v l r x))) g =
     (list_op kmin kmax (Insert k v) g \<and> hr_node s w l (\<lambda>x. x < k) \<and> hr_node s w r (\<lambda>x. k < x) \<and> ho_new s w k v x r)"
| "ho_LI kmin kmax t s a w (At (HInsert (HI_Free k v x))) g =
     (list_op kmin kmax (Insert k v) g \<and> (\<exists>r. ho_new s w k v x r))"
| "ho_LI kmin kmax t s a w (At (HRemove (HR_Test k l r))) g =
     (list_op kmin kmax (Delete k) g \<and> hr_node s w l (\<lambda>x. x < k) \<and> hr_node s w r (\<lambda>x. k \<le> x) \<and> hr_ahead s w (Delete k) g r)"
| "ho_LI kmin kmax t s a w (At (HRemove (HR_Ref k l r))) g =
     (list_op kmin kmax (Delete k) g \<and> hr_node s w l (\<lambda>x. x < k) \<and> hr_node s w r (\<lambda>x. x = k))"
| "ho_LI kmin kmax t s a w (At (HRemove (HR_Cas k l r u))) g =
     (list_op kmin kmax (Delete k) g \<and> hr_node s w l (\<lambda>x. x < k) \<and> hr_node s w r (\<lambda>x. x = k) \<and> \<not> is_marked_ref u)"
| "ho_LI kmin kmax t s a w (At (HRemove (HR_Val k l r))) g =
     (hr_node s w l (\<lambda>_. True) \<and> hr_dead s w r \<and> hr_result s w r g)"
| "ho_LI kmin kmax t s a w (At (HRemove (HR_New l r v))) g =
     (g = Closed (Ret_Val v) \<and> hr_node s w l (\<lambda>_. True) \<and> hr_dead s w r)"
| "ho_LI kmin kmax t s a w (At (HRemove (HR_Cut l r d v))) g =
     (g = Closed (Ret_Val v) \<and> hr_node s w l (\<lambda>_. True) \<and> hr_frozen s w r d)"
| "ho_LI kmin kmax t s a w (At (HRemove (HR_Free r v))) g = (g = Closed (Ret_Val v) \<and> hr_dead s w r)"

abbreviation ho_SI :: "'k::linorder \<Rightarrow> 'k \<Rightarrow> nat \<Rightarrow> ('k, 'v) harris \<Rightarrow> ('k \<rightharpoonup> 'v) \<Rightarrow> (tid \<Rightarrow> unit ownership) \<Rightarrow> bool" where
  "ho_SI kmin kmax n \<equiv> hr_SI kmin kmax"

lemma ho_stable:
  fixes s :: "('k::linorder, 'v::zero) harris"
  assumes ef: "hr_effect t s w a s' w' a'" and ut: "u \<noteq> t" and own: "w u = ho_own z" and obs: "observed map_spec a g"
    and LI: "ho_LI kmin kmax u s a w z g"
  shows "ho_LI kmin kmax u s' a' w' z (observe map_spec a' g)"
proof -
  have new: "ho_new s' w' k v x r" if "ho_new s w k v x r" "x \<in> private_nodes (w u)" for k v x r
    using hr_effect_private [OF ef ut that(2)] that(1) by (simp add: ho_new_def)
  have ahead: "hr_ahead s' w' op' (observe map_spec a' g) p" if "list_op kmin kmax op' g" "hr_ahead s w op' g p" for op' p
    using hr_effect_ahead [OF ef obs that] .
  note keep = list_op_stable [of kmin kmax _ g a'] ahead hr_effect_node [OF ef] hr_effect_found [OF ef]
    hr_effect_frozen [OF ef] hr_effect_result [OF ef]
  show ?thesis
  proof (cases z)
    case (At x)
    show ?thesis
    proof (cases x)
      case (HFind pc)
      show ?thesis using LI keep unfolding At HFind by (cases pc) auto
    next
      case (HList pc)
      show ?thesis using LI keep(1-5) unfolding At HList by (cases pc) (simp; blast)+
    next
      case (HInsert pc)
      have "x \<in> private_nodes (w u)" if "pc = HI_Cas k v l r x \<or> pc = HI_Free k v x" for k v l r x
        using own that by (auto simp: At HInsert)
      then show ?thesis using LI keep(1-5) new unfolding At HInsert by (cases pc) (simp; blast)+
    next
      case (HRemove pc)
      show ?thesis using LI keep returns_observe unfolding At HRemove by (cases pc) (simp; blast)+
    qed
  qed (use LI in \<open>auto simp: returns_observe\<close>)
qed

section \<open>The steps\<close>

abbreviation ho_ok :: "'k::linorder \<Rightarrow> 'k \<Rightarrow> nat \<Rightarrow> tid \<Rightarrow> ('k, 'v::zero) harris \<Rightarrow> ('k \<rightharpoonup> 'v) \<Rightarrow> (tid \<Rightarrow> unit ownership) \<Rightarrow>
    (('k, 'v) map_op, 'v map_ret) ghost \<Rightarrow> ('k, 'v) harris \<Rightarrow> (('k, 'v) ho_pc, 'v map_ret) control \<Rightarrow> bool" where
  "ho_ok kmin kmax \<equiv> step_ok map_spec ho_own (ho_SI kmin kmax) (ho_LI kmin kmax)"

lemmas ho_local = step_ok_local [where own = ho_own and SI = "ho_SI kmin kmax" and LI = "ho_LI kmin kmax" for kmin kmax]

lemma ho_does:
  assumes "advance map_spec a g a' g'" and d: "hr_does kmin kmax t s w a s' (ho_own y) a'"
    and "ho_LI kmin kmax t s' a' (w(t := ho_own y)) y g'"
  shows "ho_ok kmin kmax n t s a w g s' y"
proof (rule step_okI [where own = ho_own and SI = "ho_SI kmin kmax" and LI = "ho_LI kmin kmax", OF assms(1) _ assms(3)])
  show "\<And>u z gu. u \<noteq> t \<Longrightarrow> w u = ho_own z \<Longrightarrow> observed map_spec a gu \<Longrightarrow> ho_LI kmin kmax u s a w z gu \<Longrightarrow>
      ho_LI kmin kmax u s' a' (w(t := ho_own y)) z (observe map_spec a' gu)"
    using ho_stable d by blast
qed (use d in blast)

lemma ho_free_Next:
  assumes "ho_free s p z = Next s' y"
  shows "y = z" and "s' = s\<lparr>hr_mem := (hr_mem s)\<lparr>released := insert p (released (hr_mem s))\<rparr>\<rparr>"
  using assms by (auto simp: ho_free_def ll_simple_defs)

lemma ho_find_step:
  assumes SI: "hr_SI kmin kmax s a w" and LI: "ho_LI kmin kmax t s a w (At (HFind x)) g" and obs: "observed map_spec a g"
    and own: "w t = ho_own (At (HFind x))" and ex: "ho_find s x = Next s' y"
  shows "ho_ok kmin kmax n t s a w g s' y"
proof -
  note loc = ho_local [OF SI]
  show ?thesis
  proof (cases x)
    case (HF_Head k)
    with ex obtain nd where nd: "hr_cells s (hr_head s) = Some nd" "s' = s" "y = At (HFind (HF_Key k (ll_next nd)))" by auto
    then show ?thesis using HF_Head LI own hr_head_facts(2) [OF SI _ obs nd(1), of "Search k"] by (auto intro!: loc)
  next
    case (HF_Key k c)
    with ex obtain nd where nd: "hr_cells s c = Some nd" "s' = s"
      "y = At (HFind (if ll_key nd < k then HF_Next k c else HF_Test k c))" by auto
    have "seen_by_all (hr_mem s) w c" using LI HF_Key by (auto intro: hr_ahead_pub)
    from hr_nodeI [OF this nd(1), of "\<lambda>x. x < k"] hr_nodeI [OF this nd(1), of "\<lambda>x. k \<le> x"] show ?thesis
      using nd(2,3) HF_Key LI own by (auto intro!: loc)
  next
    case (HF_Next k c)
    with ex obtain nd where nd: "hr_cells s c = Some nd" "s' = s" "y = At (HFind (HF_Key k (get_unmarked_ref (ll_next nd))))" by auto
    have "ll_key nd < k" using LI HF_Next hr_node_key [OF _ nd(1)] by fastforce
    then have "hr_ahead s w (Search k) g (get_unmarked_ref (ll_next nd))"
      using hr_ahead_next [OF SI, of "Search k" g c nd] nd(1) LI HF_Next by (auto simp: list_op_def)
    then show ?thesis using nd HF_Next LI own by (auto intro!: loc)
  next
    case (HF_Test k c)
    with ex obtain nd where nd: "hr_cells s c = Some nd" "s' = s"
      "y = (if ll_key nd = k then At (HFind (HF_Mark k c)) else Finished (Ret_Val 0))" by auto
    have c: "hr_ahead s w (Search k) g c" "k \<le> ll_key nd" "list_op kmin kmax (Search k) g"
      using LI HF_Test hr_node_key [OF _ nd(1)] by auto
    show ?thesis
    proof (cases "ll_key nd = k")
      case True
      have "hr_node s w c (\<lambda>x. x = k)" by (rule hr_nodeI [where P = "\<lambda>x. x = k", OF hr_ahead_pub [OF c(1)] nd(1) True])
      then show ?thesis using nd True c HF_Test LI own by (auto intro!: loc)
    next
      case False
      then have "seen_absent g" using hr_larger_absent [OF SI c(1) nd(1)] c(2) by simp
      then show ?thesis using nd False c HF_Test LI own by (auto simp: list_op_def intro!: loc)
    qed
  next
    case (HF_Mark k c)
    with ex obtain nd where nd: "hr_cells s c = Some nd" "s' = s"
      "y = (if \<not> is_marked_ref (ll_next nd) then At (HFind (HF_Val k c)) else Finished (Ret_Val 0))" by auto
    have c: "hr_ahead s w (Search k) g c" "ll_key nd = k" "list_op kmin kmax (Search k) g"
      using LI HF_Mark hr_node_key [OF _ nd(1)] by auto
    show ?thesis
    proof (cases "is_marked_ref (ll_next nd)")
      case False
      from hr_foundI [OF SI hr_ahead_pub [OF c(1)] nd(1) False c(3) _ obs, of k] show ?thesis
        using nd False c HF_Mark LI own by (auto intro!: loc)
    next
      case True
      then have "seen_absent g" using hr_dead_absent [OF SI c(1) nd(1) True] c by simp
      then show ?thesis using nd True c HF_Mark LI own by (auto simp: list_op_def intro!: loc)
    qed
  next
    case (HF_Val k c)
    with ex obtain nd where nd: "hr_cells s c = Some nd" "s' = s" "y = Finished (Ret_Val (ll_val nd))" by auto
    have c: "ll_key nd = k" using LI HF_Val hr_node_key [OF _ nd(1)] by auto
    then have "returns g (Ret_Val (ll_val nd))" using LI HF_Val nd(1) by (auto simp: hr_found_def list_op_def)
    then show ?thesis using nd own HF_Val by (auto intro!: loc)
  qed
qed

lemma ho_list_search_step:
  assumes SI: "hr_SI kmin kmax s a w" and LI: "ho_LI kmin kmax t s a w (At (HList x)) g" and obs: "observed map_spec a g"
    and own: "w t = ho_own (At (HList x))" and ex: "ho_list_search gc s x = Next s' y"
  shows "ho_ok kmin kmax n t s a w g s' y"
proof -
  note loc = ho_local [OF SI]
  show ?thesis
  proof (cases x)
    case (LS_Head u)
    with ex obtain nd where nd: "hr_cells s (hr_head s) = Some nd" "s' = s"
      "y = At (HList (LS_Mark u (hr_head s) (ll_next nd)))" by auto
    then show ?thesis using LS_Head LI own hr_head_facts(2,3) [OF SI _ obs nd(1), of "ho_op u"] by (auto intro!: loc)
  next
    case (LS_Mark u l r)
    with ex obtain nd where nd: "hr_cells s r = Some nd" "s' = s"
      "y = At (HList (if \<not> is_marked_ref (ll_next nd) then LS_Key u l r else LS_New u l r))" by auto
    have r: "seen_by_all (hr_mem s) w r" "list_op kmin kmax (ho_op u) g" using LI LS_Mark by (auto dest: hr_ahead_pub)
    show ?thesis
    proof (cases "is_marked_ref (ll_next nd)")
      case False
      from hr_foundI [OF SI r(1) nd(1) False r(2) refl obs] show ?thesis
        using nd False LS_Mark LI own by (auto intro!: loc)
    next
      case True
      then have "hr_dead s w r" using nd(1) r(1) by (simp add: hr_frozen_def)
      then show ?thesis using nd True LS_Mark LI own by (auto intro!: loc)
    qed
  next
    case (LS_Key u l r)
    with ex obtain nd where nd: "hr_cells s r = Some nd" "s' = s"
      "y = At (if op_key (ho_op u) \<le> ll_key nd then ho_found_pc u l r else HList (LS_Next u r r))" by auto
    have r: "seen_by_all (hr_mem s) w r" using LI LS_Key by (auto dest: hr_ahead_pub)
    show ?thesis
    proof (cases "op_key (ho_op u) \<le> ll_key nd")
      case True
      then have "hr_node s w r (\<lambda>x. op_key (ho_op u) \<le> x)" by (rule hr_nodeI [where P = "\<lambda>x. op_key (ho_op u) \<le> x", OF r nd(1)])
      then show ?thesis using nd True LS_Key LI own by (cases u) (auto intro!: loc)
    next
      case False
      then have "hr_node s w r (\<lambda>x. x < op_key (ho_op u))"
        by (intro hr_nodeI [where P = "\<lambda>x. x < op_key (ho_op u)", OF r nd(1)]) simp
      then show ?thesis using nd False LS_Key LI own by (auto intro!: loc)
    qed
  next
    case (LS_New u l r)
    with ex obtain nd where nd: "hr_cells s r = Some nd" "s' = s"
      "y = At (HList (LS_Cas u l r (get_unmarked_ref (ll_next nd))))" by auto
    have "hr_frozen s w r (get_unmarked_ref (ll_next nd))" using LI LS_New nd(1) by (auto simp: hr_frozen_def)
    then show ?thesis using nd LS_New LI own by (auto intro!: loc)
  next
    case (LS_Cas u l r d)
    have L: "list_op kmin kmax (ho_op u) g" "hr_node s w l (\<lambda>x. x < op_key (ho_op u))" "hr_ahead s w (ho_op u) g r" "hr_frozen s w r d"
      using LI LS_Cas by auto
    have "hr_cas s l r d (At (HList (if gc then LS_Free u l r else LS_Next u l r))) (At (HList (LS_Next u l r))) = Next s' y" using ex LS_Cas by simp
    then show ?thesis
    proof (cases rule: hr_cas_Next)
      case (1 nd)
      have l: "seen_by_all (hr_mem s) w l" using L(2) by (rule hr_node_cell)
      have r: "\<not> is_marked_ref r" using hr_SI_D(4) [OF SI] L(4) by (auto simp: hr_frozen_def)
      have d: "hr_does kmin kmax t s w a s' (ho_own y) a"
        by (rule hr_cut_step [OF SI l 1(1,2) r L(4) _ _ 1(4)]) (use own 1(3) LS_Cas in \<open>cases gc; simp\<close>)+
      note ef = conjunct2 [OF d]
      show ?thesis
        by (rule ho_does [OF advance_stay d])
          (use 1(3) L(1) hr_kept(1) [OF ef obs L(1,3)] hr_effect_node [OF ef L(2)] hr_effect_frozen [OF ef L(4)] in auto)
    next
      case (2 nd)
      then show ?thesis using LS_Cas LI own by (auto intro!: loc)
    qed
  next
    case (LS_Free u l r)
    have L: "list_op kmin kmax (ho_op u) g" "hr_node s w l (\<lambda>x. x < op_key (ho_op u))" "hr_ahead s w (ho_op u) g r" "hr_dead s w r"
      using LI LS_Free by auto
    have "ho_free s r (At (HList (LS_Next u l r))) = Next s' y" using ex LS_Free by simp
    note f = ho_free_Next [OF this]
    have d: "hr_does kmin kmax t s w a s' (ho_own y) a"
      by (rule hr_release_step [OF SI _ L(4) _ _ f(2)]) (use own f(1) LS_Free in simp_all)
    note ef = conjunct2 [OF d]
    obtain e where "hr_frozen s w r e" using L(4) by blast
    then have "hr_dead s' (w(t := ho_own y)) r" using hr_effect_frozen [OF ef] by blast
    then show ?thesis
      by (intro ho_does [OF advance_stay d])
        (use f(1) L(1) hr_kept(1) [OF ef obs L(1,3)] hr_effect_node [OF ef L(2)] in auto)
  next
    case (LS_Next u l r)
    with ex obtain nd where nd: "hr_cells s r = Some nd" "s' = s"
      "y = At (HList (LS_Mark u l (get_unmarked_ref (ll_next nd))))" by auto
    have "ll_key nd < op_key (ho_op u) \<or> is_marked_ref (ll_next nd)"
      using LI LS_Next nd(1) hr_node_key [OF _ nd(1)] by (auto simp: hr_frozen_def)
    then have "hr_ahead s w (ho_op u) g (get_unmarked_ref (ll_next nd))"
      using hr_ahead_next [OF SI, of "ho_op u" g r nd] nd(1) LI LS_Next by (auto simp: list_op_def)
    then show ?thesis using nd LS_Next LI own by (auto intro!: loc)
  qed
qed

lemma ho_insert_step:
  assumes SI: "hr_SI kmin kmax s a w" and LI: "ho_LI kmin kmax t s a w (At (HInsert x)) g" and obs: "observed map_spec a g"
    and own: "w t = ho_own (At (HInsert x))" and ex: "ho_insert p s x = Next s' y"
  shows "ho_ok kmin kmax n t s a w g s' y"
proof -
  note loc = ho_local [OF SI]
  show ?thesis
  proof (cases x)
    case (HI_Test k v l r)
    with ex obtain nd where nd: "hr_cells s r = Some nd" "s' = s"
      "y = (if ll_key nd = k then Finished (Ret_Int 0) else At (HInsert (HI_Alloc k v l r)))" by auto
    have L: "hr_node s w r (\<lambda>x. k \<le> x)" "hr_found s w k g r" "list_op kmin kmax (Insert k v) g" using LI HI_Test by auto
    show ?thesis
    proof (cases "ll_key nd = k")
      case True
      then have "returns g (Ret_Int 0)" using L(2,3) nd(1) by (auto simp: hr_found_def list_op_def)
      then show ?thesis using nd True own HI_Test by (auto intro!: loc)
    next
      case False
      have "hr_node s w r (\<lambda>x. k < x)"
        by (rule hr_node_cell [OF L(1)], rule hr_nodeI) (use False nd(1) in auto)
      then show ?thesis using nd False HI_Test LI own by (auto intro!: loc)
    qed
  next
    case (HI_Alloc k v l r)
    have L: "list_op kmin kmax (Insert k v) g" "hr_node s w l (\<lambda>x. x < k)" "hr_node s w r (\<lambda>x. k < x)" using LI HI_Alloc by auto
    from ex HI_Alloc have p: "\<not> is_marked_ref p" "fresh (hr_cells s) p"
      and s': "s' = s\<lparr>hr_mem := put_cell p (allocate_ll_simple k v r) (hr_mem s)\<rparr>"
      and y: "y = At (HInsert (HI_Cas k v l r p))" by auto
    have r: "\<not> is_marked_ref r" using hr_SI_D(4) [OF SI] hr_node_cell [OF L(3)] by metis
    have d: "hr_does kmin kmax t s w a s' (ho_own y) a"
      by (rule hr_alloc_step [OF SI p(2,1) _ _ _ s']) (use own y r HI_Alloc in \<open>simp_all add: allocate_ll_simple_def\<close>)
    note ef = conjunct2 [OF d]
    show ?thesis
      by (rule ho_does [OF advance_stay d])
        (use y r L(1) s' hr_effect_node [OF ef L(2)] hr_effect_node [OF ef L(3)] in \<open>auto simp: ho_new_def\<close>)
  next
    case (HI_Cas k v l r q)
    have L: "list_op kmin kmax (Insert k v) g" "hr_node s w l (\<lambda>x. x < k)" "hr_node s w r (\<lambda>x. k < x)"
      "hr_cells s q = Some (allocate_ll_simple k v r)" "\<not> is_marked_ref r" using LI HI_Cas by (auto simp: ho_new_def)
    from L(1) obtain W where g: "g = Open (Insert k v) W" by (auto simp: list_op_def)
    have "hr_cas s l r q (Finished (Ret_Int 1)) (At (HInsert (HI_Free k v q))) = Next s' y" using ex HI_Cas by simp
    then show ?thesis
    proof (cases rule: hr_cas_Next)
      case (1 nd)
      have l: "seen_by_all (hr_mem s) w l" using L(2) by (rule hr_node_cell)
      have k: "ll_key nd < k" by (rule hr_node_key [OF L(2) 1(1)])
      have q: "q \<in> private_nodes (w t)" and x: "private_nodes (ho_own y) = private_nodes (w t) - {q}" "owned (ho_own y) \<subseteq> owned (w t) - {q}"
        using own 1(3) HI_Cas by simp_all
      note ln = hr_link_step [OF SI l 1(1,2) L(5,3) k L(4) q x 1(4)]
      show ?thesis
      proof (rule ho_does [OF _ ln(1)])
        show "advance map_spec a g (a(k \<mapsto> v)) (Closed (Ret_Int 1))" unfolding g by (rule advance_lin) (simp add: ln(2))
      qed (simp add: 1(3))
    next
      case (2 nd)
      then show ?thesis using HI_Cas LI own by (auto intro!: loc)
    qed
  next
    case (HI_Free k v q)
    obtain r where L: "list_op kmin kmax (Insert k v) g" "hr_cells s q = Some (allocate_ll_simple k v r)" "\<not> is_marked_ref r"
      using LI HI_Free by (auto simp: ho_new_def)
    have "ho_free s q (At (HList (LS_Head (By_Insert k v)))) = Next s' y" using ex HI_Free by simp
    note f = ho_free_Next [OF this]
    have d: "hr_does kmin kmax t s w a s' (ho_own y) a"
      by (rule hr_discard_step [OF SI _ L(2) _ _ _ f(2)]) (use own f(1) L(3) HI_Free in \<open>simp_all add: allocate_ll_simple_def\<close>)
    show ?thesis by (rule ho_does [OF advance_stay d]) (use f(1) L(1) in simp)
  qed
qed

lemma ho_remove_step:
  assumes SI: "hr_SI kmin kmax s a w" and LI: "ho_LI kmin kmax t s a w (At (HRemove x)) g" and obs: "observed map_spec a g"
    and own: "w t = ho_own (At (HRemove x))" and ex: "ho_remove gc s x = Next s' y"
  shows "ho_ok kmin kmax n t s a w g s' y"
proof -
  note loc = ho_local [OF SI]
  show ?thesis
  proof (cases x)
    case (HR_Test k l r)
    with ex obtain nd where nd: "hr_cells s r = Some nd" "s' = s"
      "y = (if ll_key nd \<noteq> k then Finished (Ret_Val 0) else At (HRemove (HR_Ref k l r)))" by auto
    have L: "hr_node s w r (\<lambda>x. k \<le> x)" "hr_ahead s w (Delete k) g r" "list_op kmin kmax (Delete k) g" using LI HR_Test by auto
    show ?thesis
    proof (cases "ll_key nd = k")
      case True
      have "hr_node s w r (\<lambda>x. x = k)" by (rule hr_nodeI [where P = "\<lambda>x. x = k", OF hr_ahead_pub [OF L(2)] nd(1) True])
      then show ?thesis using nd True HR_Test LI own by (auto intro!: loc)
    next
      case False
      then have "seen_absent g" using hr_larger_absent [OF SI L(2) nd(1)] hr_node_key [OF L(1) nd(1)] by simp
      then show ?thesis using nd False L(3) HR_Test own by (auto simp: list_op_def intro!: loc)
    qed
  next
    case (HR_Ref k l r)
    with ex obtain nd where nd: "hr_cells s r = Some nd" "s' = s"
      "y = At (HRemove (HR_Cas k l r (get_unmarked_ref (ll_next nd))))" by auto
    then show ?thesis using HR_Ref LI own by (auto intro!: loc)
  next
    case (HR_Cas k l r u)
    have L: "list_op kmin kmax (Delete k) g" "hr_node s w l (\<lambda>x. x < k)" "hr_node s w r (\<lambda>x. x = k)" "\<not> is_marked_ref u"
      using LI HR_Cas by auto
    from L(1) obtain W where g: "g = Open (Delete k) W" "kmin < k" "k < kmax" by (auto simp: list_op_def)
    have "hr_cas s r u (get_marked_ref u) (At (HRemove (HR_Val k l r))) (At (HList (LS_Head (By_Remove k)))) = Next s' y"
      using ex HR_Cas by simp
    then show ?thesis
    proof (cases rule: hr_cas_Next)
      case (1 nd)
      have r: "seen_by_all (hr_mem s) w r" using L(3) by (rule hr_node_cell)
      have k: "ll_key nd = k" by (rule hr_node_key [OF L(3) 1(1)])
      have kk: "kmin < ll_key nd" "ll_key nd < kmax" using k g by simp_all
      have x: "private_nodes (ho_own y) = private_nodes (w t)" "owned (ho_own y) \<subseteq> owned (w t)"
        using own 1(3) HR_Cas by simp_all
      have um: "\<not> is_marked_ref (ll_next nd)" using 1(2) L(4) by simp
      note mk = hr_mark_step [OF SI r 1(1) um kk x 1(4) [folded 1(2)]]
      note ef = conjunct2 [OF mk(1)]
      show ?thesis
      proof (rule ho_does [OF _ mk(1)])
        show "advance map_spec a g (a(ll_key nd := None)) (Closed (Ret_Val (ll_val nd)))"
          unfolding g(1) by (rule advance_lin) (use mk(2) k in simp)
        have "hr_node s w l (\<lambda>_. True)" by (rule hr_node_mono [OF L(2)]) simp
        from hr_effect_node [OF ef this] have l: "hr_node s' (w(t := ho_own y)) l (\<lambda>_. True)" .
        have "hr_result s w r (Closed (Ret_Val (ll_val nd)))"
          using r seen_Some(1) [OF r 1(1)] by (simp add: list_result_def)
        from hr_effect_result [OF ef this] have "hr_result s' (w(t := ho_own y)) r (Closed (Ret_Val (ll_val nd)))" by simp
        then show "ho_LI kmin kmax t s' (a(ll_key nd := None)) (w(t := ho_own y)) y (Closed (Ret_Val (ll_val nd)))"
          using l mk(3) 1(3) by auto
      qed
    next
      case (2 nd)
      then show ?thesis using HR_Cas LI own by (auto intro!: loc)
    qed
  next
    case (HR_Val k l r)
    with ex obtain nd where nd: "hr_cells s r = Some nd" "s' = s" "y = At (HRemove (HR_New l r (ll_val nd)))" by auto
    have r: "hr_result s w r g" using LI HR_Val by simp
    then have "seen_by_all (hr_mem s) w r" by (simp add: list_result_def)
    then have "g = Closed (Ret_Val (ll_val nd))" using r seen_Some(1) [OF _ nd(1)] by (auto simp: list_result_def)
    then show ?thesis using nd LI own HR_Val by (auto intro!: loc)
  next
    case (HR_New l r v)
    with ex obtain nd where nd: "hr_cells s r = Some nd" "s' = s"
      "y = At (HRemove (HR_Cut l r (get_unmarked_ref (ll_next nd)) v))" by auto
    have "hr_frozen s w r (get_unmarked_ref (ll_next nd))" using LI HR_New nd(1) by (auto simp: hr_frozen_def)
    then show ?thesis using nd HR_New LI own by (auto intro!: loc)
  next
    case (HR_Cut l r d v)
    have L: "g = Closed (Ret_Val v)" "hr_node s w l (\<lambda>_. True)" "hr_frozen s w r d" using LI HR_Cut by auto
    have "hr_cas s l r d (if gc then At (HRemove (HR_Free r v)) else Finished (Ret_Val v)) (Finished (Ret_Val v)) = Next s' y" using ex HR_Cut by simp
    then show ?thesis
    proof (cases rule: hr_cas_Next)
      case (1 nd)
      have l: "seen_by_all (hr_mem s) w l" using L(2) by (rule hr_node_cell)
      have r: "\<not> is_marked_ref r" using hr_SI_D(4) [OF SI] L(3) by (auto simp: hr_frozen_def)
      have d: "hr_does kmin kmax t s w a s' (ho_own y) a"
        by (rule hr_cut_step [OF SI l 1(1,2) r L(3) _ _ 1(4)]) (use own 1(3) HR_Cut in \<open>cases gc; simp\<close>)+
      show ?thesis
        by (rule ho_does [OF advance_stay d]) (use 1(3) L(1) hr_effect_frozen [OF conjunct2 [OF d] L(3)] in auto)
    next
      case (2 nd)
      then show ?thesis using HR_Cut L(1) own by (auto intro!: loc)
    qed
  next
    case (HR_Free r v)
    have L: "g = Closed (Ret_Val v)" "hr_dead s w r" using LI HR_Free by auto
    have "ho_free s r (Finished (Ret_Val v)) = Next s' y" using ex HR_Free by simp
    note f = ho_free_Next [OF this]
    have d: "hr_does kmin kmax t s w a s' (ho_own y) a"
      by (rule hr_release_step [OF SI _ L(2) _ _ f(2)]) (use own f(1) HR_Free in simp_all)
    show ?thesis by (rule ho_does [OF advance_stay d]) (use f(1) L(1) in simp)
  qed
qed

lemma ho_safe:
  assumes SI: "hr_SI kmin kmax s a w" and LI: "ho_LI kmin kmax t s a w (At x) g" and own: "w t = ho_own (At x)"
  shows "ho_exec gc t p s x \<noteq> Fault"
proof -
  have ow: "hr_cells s q \<noteq> None \<and> q \<notin> released (hr_mem s)" if "q \<in> owned (w t)" for q
    using hr_owned [OF SI that] by blast
  have node: "hr_cells s q \<noteq> None" if "hr_node s w q P" for q P
    using hr_node_cell [OF that] by fastforce
  have at: "hr_cells s q \<noteq> None" if "hr_ahead s w op g q" for op q
    using seen_cell [OF hr_ahead_pub [OF that]] by fastforce
  have fro: "hr_cells s q \<noteq> None" if "hr_frozen s w q d" for q d using that by (auto simp: hr_frozen_def)
  have fou: "hr_cells s q \<noteq> None" if "hr_found s w k g q" for q k using that by (auto simp: hr_found_def)
  have hd: "hr_cells s (hr_head s) \<noteq> None" using hr_head_cell [OF SI] by blast
  show ?thesis
  proof (cases x)
    case (HFind z)
    then show ?thesis using LI hd at node by (cases z) auto
  next
    case (HList z)
    then show ?thesis using LI own hd at node fro ow
      by (cases z) (auto simp: hr_cas_Fault ho_free_def ll_simple_defs)
  next
    case (HInsert z)
    then show ?thesis using LI own node ow
      by (cases z) (auto simp: hr_cas_Fault ho_free_def ll_simple_defs)
  next
    case (HRemove z)
    then show ?thesis using LI own node fro ow
      by (cases z) (auto simp: hr_cas_Fault ho_free_def ll_simple_defs)
  qed
qed

lemma ho_call:
  assumes "ho_start kmin kmax op = Some x"
  shows "ho_own (At x) = ho_own Idle"
    and "ho_LI kmin kmax t s a w (At x) (Open op (legal map_spec op a))"
  using assms by (cases op; auto simp: ho_start_def list_op_def split: if_splits)+

interpretation harris_opt: thread_object map_spec Map.empty "ho_start kmin kmax" "ho_exec gc" "hr_init kmin kmax h t"
  ho_own "harris_run_ok kmin kmax h t" "ho_SI kmin kmax" "ho_LI kmin kmax" for gc and kmin kmax :: "'k::linorder" and h t
proof unfold_locales
  fix n s a w u x g p s' y
  assume "harris_run_ok kmin kmax h t (Suc n)" and "hr_SI kmin kmax s a w" and "ho_LI kmin kmax u s a w (At x) g"
    and "observed map_spec a g" and "w u = ho_own (At x)" and "ho_exec gc u p s x = Next s' y"
  then show "step_ok map_spec ho_own (ho_SI kmin kmax) (ho_LI kmin kmax) n u s a w g s' y"
    by (cases x) (auto intro: ho_find_step ho_list_search_step ho_insert_step ho_remove_step)
next
  show "harris_run_ok kmin kmax h t 0 \<Longrightarrow> hr_SI kmin kmax (hr_init kmin kmax h t) Map.empty (\<lambda>_. ho_own Idle)"
    by (simp add: hr_SI_init)
qed (auto simp: harris_run_ok_def list_run_ok_def dest: ho_call ho_safe)

section \<open>A concrete run\<close>

text \<open>The list holds 3 and 7. Thread 0 looks for the place of 5 and makes its node; thread 1 marks 7; thread 0
  links 5, so that thread 1 fails to cut 7 out and returns. Nobody cuts it out later.\<close>

definition ho_demo :: "(int, int) map_op command list" where
  "ho_demo = [Do_Call 0 (Insert 3 30)] @ steps_of 0 4 @ [Do_Step 0 6] @ steps_of 0 1 @ [Do_Return 0] @
     [Do_Call 0 (Insert 7 70)] @ steps_of 0 7 @ [Do_Step 0 8] @ steps_of 0 1 @ [Do_Return 0] @
     [Do_Call 0 (Insert 5 50)] @ steps_of 0 7 @ [Do_Step 0 10, Do_Call 1 (Delete 7)] @ steps_of 1 11 @
     steps_of 0 1 @ [Do_Return 0] @ steps_of 1 1 @ [Do_Return 1]"

definition ho_demo_history :: "((int, int) map_op, int map_ret) history" where
  "ho_demo_history = [(0, Call (Insert 3 30)), (0, Return (Ret_Int 1)), (0, Call (Insert 7 70)), (0, Return (Ret_Int 1)),
     (0, Call (Insert 5 50)), (1, Call (Delete 7)), (0, Return (Ret_Int 1)), (1, Return (Ret_Val 70))]"

lemma ho_demo_run:
  "\<exists>s c. run (ho_start 0 10) (ho_exec gc) (hr_init 0 10 2 4) (length ho_demo) ho_demo_history (s, c)
     \<and> hr_length s = Some 2 \<and> (\<forall>t. c t = Idle) \<and> hr_destroy UNIV s = None"
  unfolding ho_demo_history_def
  by (rule replay_exhibits)
    (simp add: ho_demo_def ho_start_def hr_init_def hr_cas_def ho_free_def hr_length_def hr_destroy_def ll_simple_defs
      hr_length_loop.simps ll_destroy_loop.simps c_free_def alloc_even_def fresh_def alloc_def put_cell_def
      empty_store_def release_def replicate_binary is_marked_ref_def get_unmarked_ref_def get_marked_ref_def)

section \<open>Properties\<close>

text \<open>C37: in the build without reclamation (\<^verbatim>\<open>GC == 0\<close>) every concurrent run of the optimised lock-free list, of fewer than
  2^62 steps, on keys strictly between those of the sentinels and from sentinels at even addresses, is
  linearizable with respect to the map specification; in the reached state \<^verbatim>\<open>length()\<close> is the number of keys of
  the abstract map, whatever the threads are doing, the destructor frees exactly the linked nodes (all of which
  this build allocates in the C library) if none of them is marked and runs into a marked pointer
  otherwise, and no thread is about to dereference a pointer that is not a node.\<close>

theorem harris_opt_correct:
  assumes "run (ho_start kmin kmax) (ho_exec False) (hr_init kmin kmax h t) n hist (s, c)" and "harris_run_ok kmin kmax h t n"
  shows "linearizable map_spec Map.empty hist
    \<and> (\<exists>a. linearizes_to map_spec Map.empty hist a \<and> hr_length s = Some (int (card (dom a))))
    \<and> hr_destroy UNIV s = (if \<forall>p \<in> hr_nodes s. hr_clean s p then Some (cells_freed (hr_mem s) (hr_nodes s)) else None)
    \<and> (\<forall>u p x. c u = At x \<longrightarrow> ho_exec False u p s x \<noteq> Fault)"
proof -
  from harris_opt.reachable_SI [OF assms] obtain a where a: "linearizes_to map_spec Map.empty hist a"
    and SI: "hr_SI kmin kmax s a (ho_own \<circ> c)" by blast
  have "hr_length s = Some (int (card (dom a)))"
    by (rule hr_length_counts [OF SI]) (use assms(2) in \<open>simp add: harris_run_ok_def list_run_ok_def\<close>)
  moreover have "hr_destroy UNIV s = (if \<forall>p \<in> hr_nodes s. hr_clean s p then Some (cells_freed (hr_mem s) (hr_nodes s)) else None)"
    using hr_destroy_clean [OF SI] hr_destroy_marked [OF SI] by auto
  ultimately show ?thesis
    using a harris_opt.linearizable [OF assms] harris_opt.no_fault [OF assms] by blast
qed

theorem harris_opt_correct_witness: "linearizable map_spec Map.empty ho_demo_history"
proof -
  have "harris_run_ok (0::int) 10 2 4 (length ho_demo)"
    by (simp add: harris_run_ok_def list_run_ok_def ho_demo_def is_marked_ref_def)
  with ho_demo_run [of False] show ?thesis using harris_opt_correct by blast
qed

text \<open>C38: the destructor of the lock-free lists does not clear the mark of the pointers it follows, and a node whose
  removal was overtaken by an insertion before it stays linked: a run exists after which every thread has
  returned, two keys are in the list, and the destructor dereferences a marked pointer. This is so in both
  builds and, as nothing of it depends on it, whatever allocator the nodes come from.\<close>

theorem harris_destroy_fault:
  "\<forall>gc. \<exists>hist s c. run (ho_start (0::int) 10) (ho_exec gc) (hr_init 0 10 2 4 :: (int, int) harris) (length ho_demo) hist (s, c)
     \<and> (\<forall>t. c t = Idle) \<and> hr_length s = Some 2 \<and> (\<forall>heap. hr_destroy heap s = None)"
proof
  fix gc
  from ho_demo_run [of gc] hr_destroy_UNIV
  show "\<exists>hist s c. run (ho_start (0::int) 10) (ho_exec gc) (hr_init 0 10 2 4 :: (int, int) harris) (length ho_demo) hist (s, c)
     \<and> (\<forall>t. c t = Idle) \<and> hr_length s = Some 2 \<and> (\<forall>heap. hr_destroy heap s = None)" by blast
qed



end
