(* ===== verification/Hashtable_Harris.thy ===== *)
theory Hashtable_Harris
  imports Hashtable_Optik LinkedList_HarrisOpt
begin

text \<open>
  The lock-free hash table \<^verbatim>\<open>src/algorithms/hashtable_harris.h\<close>: buckets are the optimised lock-free lists
  (\<^verbatim>\<open>LinkedListHarrisOpt\<close>). \<open>gc\<close> is the build option \<^verbatim>\<open>GC == 1\<close>, as there.
\<close>

section \<open>The code\<close>

type_synonym ('k, 'v) hashtable_harris = "('k, 'v) harris hashtable"

definition hashtable_harris_init :: "32 word \<Rightarrow> 'k \<Rightarrow> 'k \<Rightarrow> (nat \<Rightarrow> ptr) \<Rightarrow> (nat \<Rightarrow> ptr) \<Rightarrow> ('k, 'v::zero) hashtable_harris" where
  "hashtable_harris_init maxlen kmin kmax h t = ht_init maxlen (\<lambda>i. hr_init kmin kmax (h i) (t i))"

definition hashtable_harris_start :: "'k::linorder \<Rightarrow> 'k \<Rightarrow> ('k, 'v) map_op \<Rightarrow> (('k, 'v) map_op, ('k, 'v) ho_pc) ht_pc option" where
  "hashtable_harris_start kmin kmax = ht_start (ho_start kmin kmax)"

definition hashtable_harris_exec :: "bool \<Rightarrow> ('k::linorder \<Rightarrow> 32 word) \<Rightarrow>
    (('k, 'v::zero) hashtable_harris, (('k, 'v) map_op, ('k, 'v) ho_pc) ht_pc, 'v map_ret) exec" where
  "hashtable_harris_exec gc hasher = ht_exec hasher (ho_exec gc)"

definition hashtable_harris_length :: "('k, 'v) hashtable_harris \<Rightarrow> int option" where
  "hashtable_harris_length = ht_length hr_length"

definition hashtable_harris_destroy :: "(nat \<Rightarrow> ptr set) \<Rightarrow> ('k, 'v) hashtable_harris \<Rightarrow> ('k, 'v) ll_simple store list option" where
  "hashtable_harris_destroy heap = ht_destroy (\<lambda>i. hr_destroy (heap i))"

lemmas hashtable_harris_defs = hashtable_harris_start_def hashtable_harris_exec_def hashtable_harris_init_def
  hashtable_harris_length_def

section \<open>Correctness\<close>

lemma hr_counts:
  assumes "harris_run_ok kmin kmax h t n" and "hr_SI kmin kmax s a w"
  shows "finite (dom a) \<and> hr_length s = Some (int (card (dom a)))"
  using slist_finite [OF hr_SI_D(1) [OF assms(2)]] hr_length_counts [OF assms(2)] assms(1)
  by (simp add: harris_run_ok_def list_run_ok_def)

interpretation hashtable_harris: counting_table map_spec maxlen hasher "ho_start kmin kmax" "ho_exec gc"
  "\<lambda>i. hr_init kmin kmax (h i) (t i)" ho_own "\<lambda>i. harris_run_ok kmin kmax (h i) (t i)"
  "ho_SI kmin kmax" "ho_LI kmin kmax" hr_length
  for maxlen gc and hasher :: "'k::linorder \<Rightarrow> 32 word" and kmin kmax h t
  by unfold_locales (rule local_map_spec | rule hr_counts, assumption+)+

section \<open>A concrete run\<close>

definition harris_table_ok :: "32 word \<Rightarrow> 'k::linorder \<Rightarrow> 'k \<Rightarrow> (nat \<Rightarrow> ptr) \<Rightarrow> (nat \<Rightarrow> ptr) \<Rightarrow> nat \<Rightarrow> bool" where
  "harris_table_ok maxlen kmin kmax h t n \<longleftrightarrow> 0 < sint maxlen \<and> (\<forall>i. harris_run_ok kmin kmax (h i) (t i) n)"

definition hashtable_harris_demo :: "(64 word, int) map_op command list" where
  "hashtable_harris_demo = [Do_Call 0 (Insert 5 50), Do_Call 1 (Insert 8 80)] @ steps_of 0 5 @ steps_of 1 5 @
     [Do_Step 0 6, Do_Step 1 6] @ steps_of 0 1 @ steps_of 1 1 @ [Do_Return 0, Do_Return 1]"

definition hashtable_harris_demo_history :: "((64 word, int) map_op, int map_ret) history" where
  "hashtable_harris_demo_history =
     [(0, Call (Insert 5 50)), (1, Call (Insert 8 80)), (0, Return (Ret_Int 1)), (1, Return (Ret_Int 1))]"

lemma hashtable_harris_demo_run:
  "\<exists>s c. run (hashtable_harris_start 0 10) (hashtable_harris_exec False key_hasher) (hashtable_harris_init 2 0 10 (\<lambda>_. 2) (\<lambda>_. 4))
       (length hashtable_harris_demo) hashtable_harris_demo_history (s, c)
     \<and> hashtable_harris_length s = Some 2"
  unfolding hashtable_harris_demo_history_def
  by (rule replay_exhibits)
    (simp add: hashtable_harris_demo_def hashtable_harris_defs ht_start_def ht_init_def ht_addr_def key_hasher_def ht_length_def
      ho_start_def hr_init_def hr_cas_def hr_length_def ll_simple_defs hr_length_loop.simps alloc_even_def fresh_def alloc_def
      put_cell_def empty_store_def up2 replicate_binary is_marked_ref_def get_unmarked_ref_def)

section \<open>Properties\<close>

text \<open>C40: in the build without reclamation (\<^verbatim>\<open>GC == 0\<close>) every concurrent run of the lock-free hash table, of fewer
  than 2^62 steps, for any number of buckets, any hash function and keys between the sentinels of the buckets,
  which are at even addresses, is linearizable with respect to the map specification; \<^verbatim>\<open>length()\<close> of the
  reached state is the number of keys of the abstract map, and no thread is about to index outside of the
  bucket array or to dereference a pointer that is not a node.\<close>

theorem hashtable_harris_correct:
  assumes "run (hashtable_harris_start kmin kmax) (hashtable_harris_exec False hasher) (hashtable_harris_init maxlen kmin kmax h t) n hist (s, c)"
    and "harris_table_ok maxlen kmin kmax h t n"
  shows "linearizable map_spec Map.empty hist
    \<and> (\<exists>a. linearizes_to map_spec Map.empty hist a \<and> hashtable_harris_length s = Some (int (card (dom a))))
    \<and> (\<forall>u p x. c u = At x \<longrightarrow> hashtable_harris_exec False hasher u p s x \<noteq> Fault)"
proof -
  note r = assms(1) [unfolded hashtable_harris_defs]
  have i: "hashtable_harris.table_inb TYPE('a) maxlen kmin kmax h t n"
    using assms(2) by (simp add: hashtable_harris.table_inb_def harris_table_ok_def)
  from hashtable_harris.table.linearizable [unfolded table_spec_map, OF r i]
    hashtable_harris.table.reachable_SI [unfolded table_spec_map, OF r i] hashtable_harris.table_length [OF _ i]
    hashtable_harris.table.no_fault [OF r i]
  show ?thesis unfolding hashtable_harris_defs by blast
qed

theorem hashtable_harris_correct_witness: "linearizable map_spec Map.empty hashtable_harris_demo_history"
proof -
  have "harris_table_ok 2 (0 :: 64 word) 10 (\<lambda>_. 2) (\<lambda>_. 4) (length hashtable_harris_demo)"
    by (simp add: harris_table_ok_def harris_run_ok_def list_run_ok_def hashtable_harris_demo_def is_marked_ref_def)
  with hashtable_harris_demo_run show ?thesis using hashtable_harris_correct by blast
qed

end
