(* ===== verification/Spec2Isabelle.thy ===== *)
theory Spec2Isabelle
  imports Stack_Treiber Stack_Lock Queue_MS_LB Optik_Integer Hashtable_Optik LinkedList_Seq Random_Utils Spin_Locks Optik_Ticket Optik_Separate Hashtable_Copy Hashtable_ArrayMap Hashtable_OptikGL LinkedList_Coupling Skiplist_Seq Hashtable_Pugh Hashtable_Harris
begin

text \<open>
  ASCYLIB-Cpp with OPTIK is a library of concurrent data structures as C++ templates: stacks, queues, linked
  lists, an array map, hash tables and skip lists, sequential, lock-based and lock-free. This development models
  the structures and the locks they are built on, and proves that they are correct under every interleaving.

  \<^bold>\<open>The program.\<close> The headers of \<^verbatim>\<open>src/algorithms\<close> each hold one class, which implements \<^verbatim>\<open>Search<K,V>\<close>
  (\<^verbatim>\<open>src/search.h\<close>: \<^verbatim>\<open>search\<close>, \<^verbatim>\<open>insert\<close>, \<^verbatim>\<open>remove\<close>, \<^verbatim>\<open>length\<close>) or \<^verbatim>\<open>StackQueue<T>\<close> (\<^verbatim>\<open>src/stack_queue.h\<close>: \<^verbatim>\<open>add\<close>,
  \<^verbatim>\<open>remove\<close>, \<^verbatim>\<open>count\<close>). Their nodes are in \<^verbatim>\<open>src/aux\<close>. They synchronize with the locks of \<^verbatim>\<open>include/lock_if.h\<close>, with
  the OPTIK locks of \<^verbatim>\<open>include/optik.h\<close> (a version that a thread reads before its optimistic work and that must be
  unchanged when it takes the lock), or with the compare-and-swap of \<^verbatim>\<open>include/atomic_ops_if.h\<close>; nodes come from and
  go back to the reclaiming allocator \<^verbatim>\<open>ssmem\<close>. The hash tables are arrays of such maps.

  \<^bold>\<open>How it is modelled.\<close> A thread makes one shared-memory access at a time. An operation is a datatype of control
  points (\<open>..._pc\<close>), one per access, whose arguments are the local variables that are live there, and a step
  function that follows the code, its early returns and retries included. \<open>Prelude\<close> has the pointers (64-bit words),
  the memory and the outcome of a step: a new state and control point, \<open>Blocked\<close> (a lock is held, or the offered
  address is not fresh), or \<open>Fault\<close> (a pointer without object is dereferenced, an object is released twice).
  \<open>Thread_Objects\<close> interleaves the steps of any number of threads, arbitrarily (\<open>run\<close>); memory is sequentially
  consistent. Addresses of allocations are chosen by the run, among those that were never used.
  \<open>Linearizability\<close> defines when the history of the calls and returns of a run is explained by a sequential
  specification; \<open>Linearizability_Check\<close> decides it for one history, to show that a history has no explanation.

  \<^bold>\<open>How it is proved.\<close> The locale \<open>thread_object\<close> is the interface of a verified object: a shared invariant that
  ties the memory to an abstract value, and a local invariant per control point, kept by each single step. It gives
  linearizability of all runs, absence of faults, and the invariants in every reachable state; each structure
  interprets it. A ghost per pending call collects the answers the specification would have allowed since the call,
  so that unlocked traversals, whose effect lies in the past, need no extra argument. \<open>Ownership\<close> says which nodes
  and locks a thread holds for itself; \<open>Search_Spec\<close>, \<open>List_Heap\<close> and \<open>List_Steps\<close> hold what the sorted lists
  share: the specification (a finite map), traversals, and the effect on concurrent traversals of linking, marking
  and unlinking a node. \<open>Lock_Protocol\<close> is the interface for the locks, \<open>bucket_table\<close> and \<open>counting_table\<close>
  in \<open>Hashtable_Buckets\<close> are those for tables of buckets.

  \<^bold>\<open>Theories and sources.\<close>
  \<^item> \<open>Random_Utils\<close>: the generators, level choice, rounding and back-off of \<^verbatim>\<open>include/random.h\<close>, \<^verbatim>\<open>include/utils.h\<close>.
  \<^item> \<open>Spin_Locks\<close>: the TAS, TTAS and ticket locks of \<^verbatim>\<open>include/lock_if.h\<close>: exclusion, order of service, progress.
  \<^item> \<open>Optik_Integer\<close>, \<open>Optik_Ticket\<close>, \<open>Optik_Separate\<close>: the three representations of \<^verbatim>\<open>include/optik.h\<close>: exclusion,
    and that a validated acquisition means that nothing was committed in between.
  \<^item> \<open>Stack_Queue_Spec\<close>, \<open>Stack_Treiber\<close>, \<open>Stack_Lock\<close>, \<open>Queue_MS\<close> (\<^verbatim>\<open>queue_ms_lf.h\<close>, \<^verbatim>\<open>queue_ms_hybrid.h\<close>),
    \<open>Queue_MS_LB\<close>: stacks and queues of \<^verbatim>\<open>src/algorithms\<close>, linearizable to LIFO and FIFO.
  \<^item> \<open>LinkedList_Seq\<close>, \<open>LinkedList_Coupling\<close>, \<open>LinkedList_Lazy\<close>, \<open>LinkedList_Pugh\<close>, \<open>LinkedList_OptikGL\<close>,
    \<open>LinkedList_Optik\<close>, \<open>LinkedList_Copy\<close>, \<open>LinkedList_HarrisOpt\<close> (with \<open>Harris_Nodes\<close>): the list of that name,
    \<^verbatim>\<open>src/algorithms/linkedlist_*.h\<close>, with its nodes from \<^verbatim>\<open>src/aux\<close>; linearizable to a finite map, and \<^verbatim>\<open>length()\<close>
    is right in the reached states; a lemma beside says what the destructor does in each build.
  \<^item> \<open>Array_Map_Optik\<close>: \<^verbatim>\<open>array_map_optik.h\<close>, a map with room for a fixed number of keys.
  \<^item> \<open>Hashtable_Buckets\<close> and \<open>Hashtable_Optik\<close>, \<open>Hashtable_OptikGL\<close>, \<open>Hashtable_Copy\<close>, \<open>Hashtable_ArrayMap\<close>,
    \<open>Hashtable_Pugh\<close>, \<open>Hashtable_Harris\<close>: \<^verbatim>\<open>src/algorithms/hashtable_*.h\<close>, proved once from the proofs of the buckets.
  \<^item> \<open>Skiplist_Seq\<close>: the sequential skip list, \<^verbatim>\<open>skiplist_seq.h\<close> with \<^verbatim>\<open>sl_simple.h\<close>.

  \<^bold>\<open>Preconditions and bounds.\<close> Keys are strictly between those of the sentinels, as \<^verbatim>\<open>KeyMaxMin\<close> intends. Runs have
  fewer than \<open>2 ^ 62\<close> steps, so that no lock version wraps around and no version read long ago returns. Counts
  are unbounded integers, exact for an \<^verbatim>\<open>int\<close> as long as there are fewer than \<open>2 ^ 31\<close> nodes. Tables have a positive
  number of buckets. The lock of \<^verbatim>\<open>stack_lock.h\<close>, the tail lock of \<^verbatim>\<open>queue_ms_hybrid.h\<close> and both locks of
  \<^verbatim>\<open>queue_ms_lb.h\<close> are left uninitialised by the constructors: their content is an argument of the initial states,
  and the theorems on these three assume that they are free. The copy-on-write list stores no value 0 (its \<^verbatim>\<open>remove\<close>
  takes 0 for absent), its runs have fewer steps than its arrays have slots, and its table fewer than \<open>2 ^ 31\<close>
  buckets. The array map and its table have no key 0, which marks a free slot, and the specification of the array map
  is a map with bounded room. The level of a skip-list node is at most the number of levels, and that at most 32 or
  the number of pointers that fit into the padded node. Loops of the sequential code are \<open>partial_function\<close>s that are
  proved to return. There is a lock per node, as by default, instead of \<^verbatim>\<open>LL_GLOBAL_LOCK\<close>, unless the theory says
  otherwise. The option \<^verbatim>\<open>RO_FAIL\<close> is an argument of the models; Pugh's list and its table are linearizable without
  it, and with it (the default) only as long as nothing is removed.

  \<^bold>\<open>Memory.\<close> With \<^verbatim>\<open>GC == 1\<close>, the default, removed nodes go to \<^verbatim>\<open>ssmem_free\<close>, with \<^verbatim>\<open>GC == 0\<close> they are never
  given back. The contract of the allocator (\<^verbatim>\<open>ssmem.h:50-61\<close>) is that a released object is not handed out again while
  another thread may use it, and, where timestamps advance on \<^verbatim>\<open>ssmem_free\<close>, that the releasing thread uses no
  reference it has read before. \<open>Prelude\<close> states it. The release of a node keeps its content in the model, so the
  first half is what the models rely on; they do not check the second. Two structures break it, the lazy list, which unlocks
  a node after its release, and the optimised lock-free list, whose search goes on with the node it has released. For
  these and the lock-free table the model has both builds (\<open>gc\<close>) and the theorems are about \<^verbatim>\<open>GC == 0\<close>.
  Pugh's \<^verbatim>\<open>remove\<close> also unlocks after its release, but a node that is still linked and still its own, which
  \<open>pugh_list_correct\<close> states. \<^verbatim>\<open>free\<close> of the C library is \<open>c_free\<close>: it is defined only on addresses of the C heap,
  a parameter of the destructors, since nodes from \<^verbatim>\<open>ssmem_alloc\<close> do not belong to it.

  \<^bold>\<open>What the proofs found.\<close> Pugh's list is not linearizable in its default build with \<^verbatim>\<open>RO_FAIL\<close>
  (\<open>pugh_ro_fail_remove\<close>). The destructor of the lock-free lists follows marked pointers
  (\<open>harris_destroy_fault\<close>). With \<^verbatim>\<open>LL_GLOBAL_LOCK\<close> the two-lock queue never gives its head lock back once a
  \<^verbatim>\<open>remove\<close> finds it empty (\<open>queue_lb_global_lock_leak\<close>). \<^verbatim>\<open>optik_revert\<close> on the ticket variant with a waiting
  thread leaves the lock locked for ever (\<open>optik_ticket_revert_stuck\<close>). The destructors of the lists pass nodes of
  \<^verbatim>\<open>ssmem_alloc\<close> to \<^verbatim>\<open>free\<close> with \<^verbatim>\<open>GC == 1\<close>, which is undefined, and leak them with \<^verbatim>\<open>GC == 0\<close>
  (\<open>freed_or_undefined\<close>); only the nodes of the list with hand-over-hand locking come from \<^verbatim>\<open>aligned_alloc\<close>. The
  destructors of the tables delete an array with \<^verbatim>\<open>delete\<close> (\<open>ht_destroy_undefined\<close>).

  \<^bold>\<open>Not modelled.\<close> The vendored \<^verbatim>\<open>src/atomic_ops\<close>, the external allocator (see above for its
  contract), profiling and measurement headers, and the
  benchmark programs, which only call the structures. Memory models weaker than sequential consistency. Of the
  structures: the concurrent skip lists, the Java-style hash table, the cached lazy list (which its source calls not
  functioning), the original Harris list, and the MCS, CLH and hierarchical locks.
\<close>

end
